(* ===== verification/Go_Prelude.thy ===== *)
theory Go_Prelude
  imports Main "HOL-Library.Word"
begin

text \<open>
  The vocabulary every component shares: Go's machine integers as words, error values, the
  error-and-state functions the bit reader is written with, the bit-list view of a word (most
  significant bit first, the order in which the bit stream stores bits), and the parts of the
  Go standard library packages \<open>sort\<close>, \<open>math\<close> and \<open>math/bits\<close> that the sources call.

  Conventions used by all theories:
  \<^item> an unsigned or signed Go integer of width \<open>w\<close> is a \<open>w word\<close>; signed comparisons are written
    with \<open>\<le>s\<close> and \<open><s\<close>, and \<open>sint\<close> reads the two's complement value;
  \<^item> a \<open>float64\<close> is its IEEE 754 bit pattern, so \<open>math.Float64bits\<close> and
    \<open>math.Float64frombits\<close> are the identity; no component modelled here does arithmetic on floats;
  \<^item> a Go slice or string is a list; lengths and indices are \<open>nat\<close>;
  \<^item> a run-time panic (index or slice bounds out of range) is the value \<open>None\<close> of an \<open>option\<close>.
\<close>

unbundle bit_operations_syntax

named_theorems bits_simps \<open>rewrite rules between words and their bit lists\<close>
named_theorems dec_intros \<open>introduction rules for decoding steps\<close>

section \<open>Types\<close>

type_synonym byte = "8 word"
type_synonym uint8 = "8 word"
type_synonym uint16 = "16 word"
type_synonym uint32 = "32 word"
type_synonym uint64 = "64 word"
type_synonym int64 = "64 word"
type_synonym float64 = "64 word"

datatype go_error =
    EOF
  | ErrUnexpectedEOF
  | ErrOverflow
  | ErrInvalidSize
  | ErrInvalidChecksum
  | ErrInvalid string

definition MinInt64 :: int64 where "MinInt64 = 0x8000000000000000"
definition MaxInt64 :: int64 where "MaxInt64 = 0x7FFFFFFFFFFFFFFF"

section \<open>Functions with an error and a state\<close>

text \<open>
  A Go method on a pointer receiver that returns a value and an error becomes a function from the
  state to the result (\<open>Inl\<close> an error, \<open>Inr\<close> a value) and the new state. \<open>bindR\<close> is the Go idiom
  \<open>x, err := m(); if err != nil \<lbrace> return err \<rbrace>\<close> followed by the rest; \<open>orElseR\<close> is
  \<open>x, err := m(); if err != nil \<lbrace> x, err = m'() \<rbrace>\<close>.
\<close>

type_synonym ('s, 'a) stm = "'s \<Rightarrow> (go_error + 'a) \<times> 's"

definition returnR :: "'a \<Rightarrow> ('s, 'a) stm" where
  "returnR x s = (Inr x, s)"

definition errR :: "go_error \<Rightarrow> ('s, 'a) stm" where
  "errR e s = (Inl e, s)"

definition bindR :: "('s, 'a) stm \<Rightarrow> ('a \<Rightarrow> ('s, 'b) stm) \<Rightarrow> ('s, 'b) stm" where
  "bindR m f s = (case m s of (Inl e, s') \<Rightarrow> (Inl e, s') | (Inr x, s') \<Rightarrow> f x s')"

definition orElseR :: "('s, 'a) stm \<Rightarrow> ('s, 'a) stm \<Rightarrow> ('s, 'a) stm" where
  "orElseR m m' s = (case m s of (Inl e, s') \<Rightarrow> m' s' | (Inr x, s') \<Rightarrow> (Inr x, s'))"

lemma bindR_Inr [simp]: "m s = (Inr x, s') \<Longrightarrow> bindR m f s = f x s'"
  by (simp add: bindR_def)

lemma bindR_Inl [simp]: "m s = (Inl e, s') \<Longrightarrow> bindR m f s = (Inl e, s')"
  by (simp add: bindR_def)

lemma orElseR_Inr [simp]: "m s = (Inr x, s') \<Longrightarrow> orElseR m m' s = (Inr x, s')"
  by (simp add: orElseR_def)

lemma orElseR_Inl [simp]: "m s = (Inl e, s') \<Longrightarrow> orElseR m m' s = m' s'"
  by (simp add: orElseR_def)

lemma returnR_apply [simp]: "returnR x s = (Inr x, s)"
  by (simp add: returnR_def)

lemma errR_apply [simp]: "errR e s = (Inl e, s)"
  by (simp add: errR_def)

section \<open>Words as bit lists\<close>

text \<open>\<open>bits_msb n w\<close> lists the \<open>n\<close> low bits of \<open>w\<close>, the most significant of them first.\<close>

definition bits_msb :: "nat \<Rightarrow> 'a::len word \<Rightarrow> bool list" where
  "bits_msb n w = map (bit w) (rev [0..<n])"

definition of_bits :: "bool list \<Rightarrow> 'a::len word" where
  "of_bits bs = horner_sum of_bool 2 (rev bs)"

lemma length_bits_msb [simp]: "length (bits_msb n w) = n"
  by (simp add: bits_msb_def)

lemma bits_msb_0 [simp]: "bits_msb 0 w = []"
  by (simp add: bits_msb_def)

lemma bits_msb_Suc: "bits_msb (Suc n) w = bit w n # bits_msb n w"
  by (simp add: bits_msb_def)

lemma nth_bits_msb: "i < n \<Longrightarrow> bits_msb n w ! i = bit w (n - Suc i)"
  by (simp add: bits_msb_def rev_nth)

lemma bit_of_bits:
  "bit (of_bits bs :: 'a::len word) i \<longleftrightarrow> i < LENGTH('a) \<and> i < length bs \<and> bs ! (length bs - Suc i)"
  by (auto simp: of_bits_def bit_horner_sum_bit_word_iff rev_nth)

lemma of_bits_bits_msb: "of_bits (bits_msb n w) = take_bit n w"
  by (simp add: of_bits_def bits_msb_def rev_map horner_sum_bit_eq_take_bit)

lemma of_bits_bits_msb_full [simp]:
  fixes w :: "'a::len word"
  shows "LENGTH('a) \<le> n \<Longrightarrow> of_bits (bits_msb n w) = w"
  by (auto simp: of_bits_bits_msb bit_eq_iff bit_simps)

lemma bits_msb_append: "bits_msb (m + n) w = bits_msb m (drop_bit n w) @ bits_msb n w"
  by (rule nth_equalityI) (auto simp: nth_bits_msb nth_append bit_drop_bit_eq algebra_simps)

lemma bits_msb_eqI:
  "(\<And>i. i < n \<Longrightarrow> bit v i = bit w i) \<Longrightarrow> bits_msb n v = bits_msb n w"
  by (rule nth_equalityI) (auto simp: nth_bits_msb)

lemma bits_msb_eq_iff: "bits_msb n v = bits_msb n w \<longleftrightarrow> (\<forall>i<n. bit v i = bit w i)"
proof
  assume eq: "bits_msb n v = bits_msb n w"
  show "\<forall>i<n. bit v i = bit w i"
  proof (intro allI impI)
    fix i assume "i < n"
    then have "bits_msb n v ! (n - Suc i) = bit v i" "bits_msb n w ! (n - Suc i) = bit w i"
      by (simp_all add: nth_bits_msb)
    with eq show "bit v i = bit w i" by simp
  qed
qed (auto intro: bits_msb_eqI)

lemma take_bits_msb: "m \<le> n \<Longrightarrow> take m (bits_msb n w) = bits_msb m (drop_bit (n - m) w)"
  using bits_msb_append [of m "n - m" w] by simp

lemma drop_bits_msb: "m \<le> n \<Longrightarrow> drop m (bits_msb n w) = bits_msb (n - m) w"
  using bits_msb_append [of m "n - m" w] by simp

lemma bits_msb_of_bits: "length bs = n \<Longrightarrow> n \<le> LENGTH('a::len) \<Longrightarrow> bits_msb n (of_bits bs :: 'a word) = bs"
  by (rule nth_equalityI) (auto simp: nth_bits_msb bit_of_bits)

lemma bits_msb_ucast:
  "n \<le> LENGTH('a::len) \<Longrightarrow> n \<le> LENGTH('b::len) \<Longrightarrow> bits_msb n (ucast (w :: 'a word) :: 'b word) = bits_msb n w"
  by (rule bits_msb_eqI) (simp add: bit_simps)

lemma bits_msb_zero: "bits_msb n 0 = replicate n False"
  by (rule nth_equalityI) (auto simp: nth_bits_msb)

lemma bit_mult_2: "bit ((x :: 'a::len word) * 2) n \<longleftrightarrow> n \<noteq> 0 \<and> n < LENGTH('a) \<and> bit x (n - 1)"
  by (auto simp: mult.commute [of x] bit_double_iff)

lemma neg_mod: "(s :: int) < 0 \<Longrightarrow> - m \<le> s \<Longrightarrow> s mod m = s + m"
  using mod_pos_pos_trivial [of "s + m" m] by simp

lemma uint_exp: "k < LENGTH('a) \<Longrightarrow> uint (2 ^ k :: 'a::len word) = 2 ^ k"
  using uint_word_of_int_eq [of "2 ^ k", where 'a = 'a] by (simp add: take_bit_eq_mod)

lemma sint_word_of_int_range: "- (2 ^ 63) \<le> k \<Longrightarrow> k < 2 ^ 63 \<Longrightarrow> sint (word_of_int k :: int64) = k"
  by (simp add: int_word_sint)

lemma uint_eq_sint: "uint (x :: int64) = take_bit 64 (sint x)"
  using uint_sint [of x] by simp

lemma word_take_bit_self_iff:
  fixes w :: "'a::len word"
  assumes "k < LENGTH('a)"
  shows "take_bit k w = w \<longleftrightarrow> w < 2 ^ k"
proof -
  have "take_bit k w = w \<longleftrightarrow> take_bit k (unat w) = unat w"
    by (simp add: word_unat_eq_iff unsigned_take_bit_eq)
  also have "\<dots> \<longleftrightarrow> unat w < 2 ^ k" by (simp add: take_bit_nat_eq_self_iff)
  also have "unat (2 ^ k :: 'a word) = 2 ^ k"
    using assms unat_of_nat [of "2 ^ k", where 'a = 'a] by simp
  then have "unat w < 2 ^ k \<longleftrightarrow> w < 2 ^ k" by (simp add: word_less_nat_alt)
  finally show ?thesis .
qed

lemma word_less_exp_iff_bit:
  fixes w :: "'a::len word"
  assumes "k < LENGTH('a)"
  shows "w < 2 ^ k \<longleftrightarrow> (\<forall>i\<ge>k. \<not> bit w i)"
  unfolding word_take_bit_self_iff [OF assms, symmetric]
  by (metis bit_take_bit_iff bit_word_eqI leI not_less)

section \<open>Parts of a list\<close>

lemma Ball_take: "(\<And>i. i < m \<Longrightarrow> P (xs ! i)) \<Longrightarrow> \<forall>x \<in> set (take m xs). P x"
  by (auto simp: in_set_conv_nth)

lemma Ball_drop: "(\<And>i. m \<le> i \<Longrightarrow> i < length xs \<Longrightarrow> P (xs ! i)) \<Longrightarrow> \<forall>x \<in> set (drop m xs). P x"
  by (auto simp: in_set_conv_nth)

section \<open>Concatenated bytes\<close>

definition bytes_bits :: "byte list \<Rightarrow> bool list" where
  "bytes_bits bs = concat (map (bits_msb 8) bs)"

lemma bytes_bits_simps [simp]:
  "bytes_bits [] = []"
  "bytes_bits (b # bs) = bits_msb 8 b @ bytes_bits bs"
  "bytes_bits (xs @ ys) = bytes_bits xs @ bytes_bits ys"
  by (simp_all add: bytes_bits_def)

lemma length_bytes_bits [simp]: "length (bytes_bits bs) = 8 * length bs"
  by (induction bs) auto

lemma nth_bytes_bits:
  "k < 8 * length bs \<Longrightarrow> bytes_bits bs ! k = bit (bs ! (k div 8)) (7 - k mod 8)"
proof (induction bs arbitrary: k)
  case (Cons b bs)
  show ?case
  proof (cases "k < 8")
    case True
    then show ?thesis by (simp add: nth_append nth_bits_msb)
  next
    case False
    then obtain j where "k = j + 8" by (metis add.commute le_Suc_ex not_less)
    with Cons show ?thesis by (simp add: nth_append div_add_self2)
  qed
qed simp

section \<open>Package math/bits\<close>

text \<open>The index of the highest and of the lowest bit that is set; 64 leading or trailing zeros for 0.\<close>

fun lz_from :: "nat \<Rightarrow> uint64 \<Rightarrow> nat" where
  "lz_from 0 x = 0"
| "lz_from (Suc n) x = (if bit x n then 0 else Suc (lz_from n x))"

fun tz_from :: "nat \<Rightarrow> nat \<Rightarrow> uint64 \<Rightarrow> nat" where
  "tz_from 0 i x = 0"
| "tz_from (Suc n) i x = (if bit x i then 0 else Suc (tz_from n (Suc i) x))"

definition LeadingZeros64 :: "uint64 \<Rightarrow> nat" where
  "LeadingZeros64 x = lz_from 64 x"

definition TrailingZeros64 :: "uint64 \<Rightarrow> nat" where
  "TrailingZeros64 x = tz_from 64 0 x"

lemma lz_from_le: "lz_from n x \<le> n"
  by (induction n) auto

lemma lz_from_zero: "n - lz_from n x \<le> i \<Longrightarrow> i < n \<Longrightarrow> \<not> bit x i"
proof (induction n)
  case (Suc n)
  then show ?case by (cases "i = n") (auto split: if_splits)
qed simp

lemma lz_from_bit: "lz_from n x < n \<Longrightarrow> bit x (n - Suc (lz_from n x))"
  by (induction n) (auto split: if_splits)

lemma tz_from_le: "tz_from n i x \<le> n"
  by (induction n arbitrary: i) auto

lemma tz_from_zero: "i \<le> j \<Longrightarrow> j < i + tz_from n i x \<Longrightarrow> \<not> bit x j"
proof (induction n arbitrary: i)
  case (Suc n)
  then show ?case using Suc.IH [of "Suc i"] by (cases "i = j") (auto split: if_splits)
qed simp

lemma tz_from_bit: "tz_from n i x < n \<Longrightarrow> bit x (i + tz_from n i x)"
proof (induction n arbitrary: i)
  case (Suc n)
  then show ?case by (cases "bit x i") (use Suc.IH [of "Suc i"] in auto)
qed simp

lemma LeadingZeros64_le: "LeadingZeros64 x \<le> 64"
  by (simp add: LeadingZeros64_def lz_from_le)

lemma LeadingZeros64_zero: "64 - LeadingZeros64 x \<le> i \<Longrightarrow> \<not> bit x i"
  using lz_from_zero [of 64 x i] by (cases "i < 64") (auto simp: LeadingZeros64_def bit_word.rep_eq)

lemma TrailingZeros64_zero: "i < TrailingZeros64 x \<Longrightarrow> \<not> bit x i"
  using tz_from_zero [of 0 i 64 x] by (simp add: TrailingZeros64_def)

lemma leading_trailing:
  assumes "x \<noteq> 0"
  shows "LeadingZeros64 x + TrailingZeros64 x < 64"
proof -
  from assms obtain i where i: "bit x i" by (auto simp: bit_eq_iff)
  then have "i < 64 - LeadingZeros64 x" using LeadingZeros64_zero leI by blast
  moreover have "TrailingZeros64 x \<le> i" using i TrailingZeros64_zero leI by blast
  ultimately show ?thesis by simp
qed

lemma LeadingZeros64_ge_iff: "n \<le> 64 \<Longrightarrow> 64 - n \<le> LeadingZeros64 x \<longleftrightarrow> (\<forall>i\<ge>n. \<not> bit x i)"
proof
  assume "n \<le> 64" "64 - n \<le> LeadingZeros64 x"
  then show "\<forall>i\<ge>n. \<not> bit x i" by (auto intro!: LeadingZeros64_zero)
next
  assume n: "n \<le> 64" and z: "\<forall>i\<ge>n. \<not> bit x i"
  show "64 - n \<le> LeadingZeros64 x"
  proof (rule ccontr)
    assume "\<not> ?thesis"
    then have lt: "lz_from 64 x < 64 - n" by (simp add: LeadingZeros64_def)
    then have "bit x (64 - Suc (lz_from 64 x))" by (intro lz_from_bit) auto
    moreover have "n \<le> 64 - Suc (lz_from 64 x)" using lt by simp
    ultimately show False using z by blast
  qed
qed

section \<open>Package sort\<close>

text \<open>\<open>sort.Search\<close>: the binary search loop of the standard library, on \<open>[i, j)\<close>.\<close>

function Search_loop :: "(nat \<Rightarrow> bool) \<Rightarrow> nat \<Rightarrow> nat \<Rightarrow> nat" where
  "Search_loop f i j =
     (if i < j
      then let h = (i + j) div 2 in if \<not> f h then Search_loop f (Suc h) j else Search_loop f i h
      else i)"
  by pat_completeness auto
termination
  by (relation "measure (\<lambda>(f, i, j). j - i)") auto

declare Search_loop.simps [simp del]

definition Search :: "nat \<Rightarrow> (nat \<Rightarrow> bool) \<Rightarrow> nat" where
  "Search n f = Search_loop f 0 n"

lemma Search_loop_less:
  assumes "i < j"
  shows "\<not> f ((i + j) div 2) \<Longrightarrow> Search_loop f i j = Search_loop f (Suc ((i + j) div 2)) j"
    and "f ((i + j) div 2) \<Longrightarrow> Search_loop f i j = Search_loop f i ((i + j) div 2)"
  using assms by (simp_all add: Search_loop.simps [of f i j] Let_def)

lemma Search_loop_done: "\<not> i < j \<Longrightarrow> Search_loop f i j = i"
  by (simp add: Search_loop.simps)

lemma Search_loop_spec:
  assumes "\<And>a b. a \<le> b \<Longrightarrow> b < n \<Longrightarrow> f a \<Longrightarrow> f b"
    and "i \<le> j" "j \<le> n" "\<forall>k<i. \<not> f k" "\<forall>k. j \<le> k \<and> k < n \<longrightarrow> f k"
  shows "Search_loop f i j \<le> n \<and> (\<forall>k<Search_loop f i j. \<not> f k) \<and>
    (\<forall>k. Search_loop f i j \<le> k \<and> k < n \<longrightarrow> f k)"
  using assms
proof (induction f i j rule: Search_loop.induct)
  case (1 f i j)
  let ?h = "(i + j) div 2"
  consider (stop) "\<not> i < j" | (left) "i < j" "f ?h" | (right) "i < j" "\<not> f ?h" by blast
  then show ?case
  proof cases
    case stop
    with "1.prems" show ?thesis by (simp add: Search_loop_done)
  next
    case left
    have "\<forall>k. ?h \<le> k \<and> k < n \<longrightarrow> f k" using "1.prems"(1) [of ?h] left by blast
    moreover have "i \<le> ?h" "?h \<le> n" using left \<open>j \<le> n\<close> by auto
    ultimately show ?thesis
      unfolding Search_loop_less(2) [of i j f, OF left]
      using "1.IH"(2) [OF left(1) refl] left "1.prems"(1,4) by blast
  next
    case right
    have "\<forall>k<Suc ?h. \<not> f k"
    proof (intro allI impI notI)
      fix k assume "k < Suc ?h" "f k"
      moreover have "?h < n" using right \<open>j \<le> n\<close> by linarith
      ultimately have "f ?h" by (intro "1.prems"(1) [of k ?h]) auto
      with right show False by simp
    qed
    moreover have "Suc ?h \<le> j" using right by auto
    ultimately show ?thesis
      unfolding Search_loop_less(1) [of i j f, OF right]
      using "1.IH"(1) [OF right(1) refl] right "1.prems"(1,3,5) by blast
  qed
qed

text \<open>On a monotone predicate \<open>Search\<close> returns the first index at which it holds, or \<open>n\<close>.\<close>

lemma Search_spec:
  assumes mono: "\<forall>a b. a \<le> b \<and> b < n \<and> f a \<longrightarrow> f b"
  shows Search_le: "Search n f \<le> n"
    and Search_below: "\<And>k. k < Search n f \<Longrightarrow> \<not> f k"
    and Search_above: "\<And>k. Search n f \<le> k \<Longrightarrow> k < n \<Longrightarrow> f k"
proof -
  have "Search_loop f 0 n \<le> n \<and> (\<forall>k<Search_loop f 0 n. \<not> f k) \<and>
      (\<forall>k. Search_loop f 0 n \<le> k \<and> k < n \<longrightarrow> f k)"
    by (rule Search_loop_spec) (use mono in auto)
  then show "Search n f \<le> n" "\<And>k. k < Search n f \<Longrightarrow> \<not> f k"
      "\<And>k. Search n f \<le> k \<Longrightarrow> k < n \<Longrightarrow> f k"
    unfolding Search_def by blast+
qed

lemma Search_eqI:
  assumes m: "m \<le> n" and lo: "\<And>k. k < m \<Longrightarrow> \<not> f k" and hi: "\<And>k. m \<le> k \<Longrightarrow> k < n \<Longrightarrow> f k"
  shows "Search n f = m"
proof -
  have mono: "\<forall>a b. a \<le> b \<and> b < n \<and> f a \<longrightarrow> f b"
    using lo hi by (meson leI le_trans)
  have "f m \<or> m = n" using hi [of m] m by (cases "m = n") auto
  then have "\<not> m < Search n f"
    using Search_below [of n f m, OF mono] Search_le [of n f, OF mono] by auto
  moreover have "\<not> Search n f < m"
    using Search_above [of n f "Search n f", OF mono] lo [of "Search n f"] m by auto
  ultimately show ?thesis by simp
qed

end
