(* ===== verification/Go_Binary.thy ===== *)
theory Go_Binary
  imports Go_Prelude
begin

text \<open>
  The parts of the Go standard library packages \<open>encoding/binary\<close> and \<open>hash/crc32\<close> that the
  storage engine's codecs call: fixed-width big-endian integers, unsigned and zig-zag varints,
  and the CRC-32 checksum with the Castagnoli polynomial. The lemmas are the round trips the
  components rest on.
\<close>

section \<open>Big-endian integers\<close>

definition PutUint16 :: "uint16 \<Rightarrow> byte list" where
  "PutUint16 v = [ucast (drop_bit 8 v), ucast v]"

definition PutUint32 :: "uint32 \<Rightarrow> byte list" where
  "PutUint32 v = [ucast (drop_bit 24 v), ucast (drop_bit 16 v), ucast (drop_bit 8 v), ucast v]"

definition PutUint64 :: "uint64 \<Rightarrow> byte list" where
  "PutUint64 v =
     [ucast (drop_bit 56 v), ucast (drop_bit 48 v), ucast (drop_bit 40 v), ucast (drop_bit 32 v),
      ucast (drop_bit 24 v), ucast (drop_bit 16 v), ucast (drop_bit 8 v), ucast v]"

text \<open>
  The readers take the first bytes of a slice; \<open>None\<close> is the bounds-check panic on a slice that
  is too short.
\<close>

fun Uint16 :: "byte list \<Rightarrow> uint16 option" where
  "Uint16 (b0 # b1 # _) = Some (ucast b1 OR push_bit 8 (ucast b0))"
| "Uint16 _ = None"

fun Uint32 :: "byte list \<Rightarrow> uint32 option" where
  "Uint32 (b0 # b1 # b2 # b3 # _) =
     Some (ucast b3 OR push_bit 8 (ucast b2) OR push_bit 16 (ucast b1) OR push_bit 24 (ucast b0))"
| "Uint32 _ = None"

fun Uint64 :: "byte list \<Rightarrow> uint64 option" where
  "Uint64 (b0 # b1 # b2 # b3 # b4 # b5 # b6 # b7 # _) =
     Some (ucast b7 OR push_bit 8 (ucast b6) OR push_bit 16 (ucast b5) OR push_bit 24 (ucast b4) OR
       push_bit 32 (ucast b3) OR push_bit 40 (ucast b2) OR push_bit 48 (ucast b1) OR push_bit 56 (ucast b0))"
| "Uint64 _ = None"

lemma length_PutUint [simp]:
  "length (PutUint16 v) = 2" "length (PutUint32 w) = 4" "length (PutUint64 x) = 8"
  by (simp_all add: PutUint16_def PutUint32_def PutUint64_def)

text \<open>One byte of a word is put back above the \<open>n\<close> low bits.\<close>

lemma put_byte_back:
  fixes v :: "'a::len word"
  shows "take_bit n v OR push_bit n (take_bit 8 (drop_bit n v)) = take_bit (n + 8) v"
    and "take_bit n v OR (push_bit n (take_bit 8 (drop_bit n v)) OR z) = take_bit (n + 8) v OR z"
proof -
  have "bit (take_bit n v OR push_bit n (take_bit 8 (drop_bit n v))) i = bit (take_bit (n + 8) v) i" for i
    by (auto simp: bit_simps dest: bit_imp_le_length)
  then show "take_bit n v OR push_bit n (take_bit 8 (drop_bit n v)) = take_bit (n + 8) v"
    by (simp add: bit_eq_iff)
  then show "take_bit n v OR (push_bit n (take_bit 8 (drop_bit n v)) OR z) = take_bit (n + 8) v OR z"
    by (simp flip: or.assoc)
qed

lemma low_byte: "ucast (ucast (v :: 'a::len word) :: byte) = take_bit 8 v"
  by (auto simp: bit_eq_iff bit_simps dest: bit_imp_le_length)

lemma take_bit_all: "LENGTH('a::len) \<le> n \<Longrightarrow> take_bit n (v :: 'a word) = v"
  by (auto simp: bit_eq_iff bit_simps dest: bit_imp_le_length)

lemma Uint16_PutUint16 [simp]: "Uint16 (PutUint16 v @ rest) = Some v"
  by (simp add: PutUint16_def low_byte put_byte_back take_bit_all)

lemma Uint32_PutUint32 [simp]: "Uint32 (PutUint32 v @ rest) = Some v"
  by (simp add: PutUint32_def low_byte put_byte_back take_bit_all)

lemma Uint64_PutUint64 [simp]: "Uint64 (PutUint64 v @ rest) = Some v"
  by (simp add: PutUint64_def low_byte put_byte_back take_bit_all)

section \<open>Varints\<close>

definition MaxVarintLen64 :: nat where "MaxVarintLen64 = 10"
definition MaxVarintLen32 :: nat where "MaxVarintLen32 = 5"

lemma unat_drop_bit_7: "unat (drop_bit 7 (x :: uint64)) = unat x div 128"
  by (simp add: unat_drop_bit_eq drop_bit_eq_div unat_div)

text \<open>\<open>binary.PutUvarint\<close> as the bytes it writes; the number it returns is their length.\<close>

function PutUvarint :: "uint64 \<Rightarrow> byte list" where
  "PutUvarint x = (if 0x80 \<le> x then (ucast x OR 0x80) # PutUvarint (drop_bit 7 x) else [ucast x])"
  by pat_completeness auto
termination
  by (relation "measure unat") (auto simp: unat_drop_bit_7 word_le_nat_alt)

declare PutUvarint.simps [simp del]

definition zigzag :: "int64 \<Rightarrow> uint64" where
  "zigzag x = (if x <s 0 then NOT (push_bit 1 x) else push_bit 1 x)"

definition unzigzag :: "uint64 \<Rightarrow> int64" where
  "unzigzag ux = (let x = drop_bit 1 ux in if ux AND 1 \<noteq> 0 then NOT x else x)"

definition PutVarint :: "int64 \<Rightarrow> byte list" where
  "PutVarint x = PutUvarint (zigzag x)"

text \<open>\<open>binary.Uvarint\<close>: the value and the number of bytes read, 0 for a short buffer, negative on overflow.\<close>

fun Uvarint_loop :: "nat \<Rightarrow> nat \<Rightarrow> uint64 \<Rightarrow> byte list \<Rightarrow> uint64 \<times> int" where
  "Uvarint_loop i s x [] = (0, 0)"
| "Uvarint_loop i s x (b # bs) =
     (if i = MaxVarintLen64 then (0, - int (i + 1))
      else if b < 0x80
      then if i = MaxVarintLen64 - 1 \<and> b > 1 then (0, - int (i + 1))
           else (x OR push_bit s (ucast b), int (i + 1))
      else Uvarint_loop (i + 1) (s + 7) (x OR push_bit s (ucast (b AND 0x7f))) bs)"

definition Uvarint :: "byte list \<Rightarrow> uint64 \<times> int" where
  "Uvarint buf = Uvarint_loop 0 0 0 buf"

text \<open>\<open>binary.ReadUvarint\<close> and \<open>binary.ReadVarint\<close> on a byte reader; the first argument counts the bytes left.\<close>

fun ReadUvarint_loop :: "('s, byte) stm \<Rightarrow> nat \<Rightarrow> nat \<Rightarrow> nat \<Rightarrow> uint64 \<Rightarrow> ('s, uint64) stm" where
  "ReadUvarint_loop rb 0 i s x = errR ErrOverflow"
| "ReadUvarint_loop rb (Suc n) i s x = (\<lambda>r.
     case rb r of
       (Inl e, r') \<Rightarrow> (Inl (if i > 0 \<and> e = EOF then ErrUnexpectedEOF else e), r')
     | (Inr b, r') \<Rightarrow>
         if b < 0x80
         then if i = MaxVarintLen64 - 1 \<and> b > 1 then (Inl ErrOverflow, r')
              else (Inr (x OR push_bit s (ucast b)), r')
         else ReadUvarint_loop rb n (i + 1) (s + 7) (x OR push_bit s (ucast (b AND 0x7f))) r')"

definition ReadUvarint :: "('s, byte) stm \<Rightarrow> ('s, uint64) stm" where
  "ReadUvarint rb = ReadUvarint_loop rb MaxVarintLen64 0 0 0"

definition ReadVarint :: "('s, byte) stm \<Rightarrow> ('s, int64) stm" where
  "ReadVarint rb = bindR (ReadUvarint rb) (\<lambda>ux. returnR (unzigzag ux))"

lemma sless_0_iff_msb: "(x :: int64) <s 0 \<longleftrightarrow> bit x 63"
  by (simp add: word_sless_alt flip: bit_last_iff)

lemma and_1_neq_0: "(x :: uint64) AND 1 \<noteq> 0 \<longleftrightarrow> bit x 0"
  by (simp add: and_one_eq bit_0 odd_iff_mod_2_eq_one)

lemma unzigzag_zigzag [simp]: "unzigzag (zigzag x) = x"
proof (rule bit_word_eqI)
  fix n assume "n < LENGTH(64)"
  then show "bit (unzigzag (zigzag x)) n = bit x n"
    by (cases "n = 63") (simp_all add: unzigzag_def zigzag_def Let_def and_1_neq_0 sless_0_iff_msb
        bit_mult_2 bit_drop_bit_eq bit_not_iff)
qed

lemma PutUvarint_nonempty [simp]: "PutUvarint x \<noteq> []"
  by (subst PutUvarint.simps) simp

lemma PutVarint_nonempty [simp]: "PutVarint x \<noteq> []"
  by (simp add: PutVarint_def)

lemma length_PutUvarint_pos [simp]: "0 < length (PutUvarint x)"
  by simp

text \<open>
  One step of a varint: the first byte carries the 7 low bits and the continuation flag; the
  accumulator with those bits, joined with the rest shifted by 7 more, is the whole value shifted.
\<close>

lemma varint_byte_ge: "\<not> (ucast (y :: uint64) OR (0x80 :: byte)) < 0x80"
proof -
  have "bit (ucast y OR (0x80 :: byte)) 7" by (simp add: bit_simps)
  moreover have "\<not> bit b 7" if "b < 0x80" for b :: byte
    using that word_less_exp_iff_bit [of 7 b] by auto
  ultimately show ?thesis by blast
qed

definition fits :: "nat \<Rightarrow> uint64 \<Rightarrow> bool" where
  "fits k y \<longleftrightarrow> (\<forall>i\<ge>k. \<not> bit y i)"

lemma fits_iff: "k < 64 \<Longrightarrow> fits k y \<longleftrightarrow> y < 2 ^ k"
  by (simp add: fits_def word_less_exp_iff_bit)

lemma fits_64 [simp]: "fits 64 y"
  by (auto simp: fits_def dest: bit_imp_le_length)

lemma fits_drop: "fits k y \<Longrightarrow> fits (k - n) (drop_bit n y)"
  by (auto simp: fits_def bit_simps)

lemma varint_low7: "ucast ((ucast y OR 0x80) AND (0x7f :: byte)) = take_bit 7 (y :: uint64)"
proof (rule bit_word_eqI)
  fix i assume "i < LENGTH(64)"
  have m: "bit (0x7f :: byte) i \<longleftrightarrow> i < 7"
    using bit_mask_iff [of 7 i, where 'a = "8 word"] by (auto simp: mask_eq_exp_minus_1 dest: bit_imp_le_length)
  have e: "bit (0x80 :: byte) i \<longleftrightarrow> i = 7"
    using bit_exp_iff [of 7 i, where 'a = "8 word"] by (auto dest: bit_imp_le_length)
  show "bit (ucast ((ucast y OR 0x80) AND (0x7f :: byte)) :: uint64) i = bit (take_bit 7 y) i"
    using \<open>i < LENGTH(64)\<close>
    by (simp only: bit_ucast_iff bit_and_iff bit_or_iff bit_take_bit_iff m e) auto
qed

lemma varint_join:
  "x OR push_bit s (ucast ((ucast y OR 0x80) AND (0x7f :: byte))) OR push_bit (s + 7) (drop_bit 7 y)
    = x OR push_bit s (y :: uint64)"
proof (rule bit_word_eqI)
  fix i assume "i < LENGTH(64)"
  then show "bit (x OR push_bit s (ucast ((ucast y OR 0x80) AND (0x7f :: byte))) OR push_bit (s + 7) (drop_bit 7 y)) i
      = bit (x OR push_bit s y) i"
    unfolding varint_low7 by (cases "s + 7 \<le> i") (auto simp: bit_simps)
qed

text \<open>
  The common part of the decoders: \<open>s = 7 * i\<close> bits are read and the remaining value fits into
  the other \<open>64 - s\<close>.
\<close>

lemma varint_step:
  assumes "s = 7 * i" "s < 64" "fits (64 - s) y" "0x80 \<le> y"
  shows "i < MaxVarintLen64 - 1" "s + 7 = 7 * (i + 1)" "s + 7 < 64" "fits (64 - (s + 7)) (drop_bit 7 y)"
proof -
  have "\<not> fits 7 y" using fits_iff [of 7 y] assms(4) by auto
  with assms(3) have "7 < 64 - s" unfolding fits_def by (meson leI le_trans)
  then show "s + 7 < 64" by simp
  then show "i < MaxVarintLen64 - 1" using assms(1) by (simp add: MaxVarintLen64_def)
  show "s + 7 = 7 * (i + 1)" using assms(1) by simp
  show "fits (64 - (s + 7)) (drop_bit 7 y)" using fits_drop [OF assms(3), of 7] by simp
qed

lemma varint_last:
  assumes "s = 7 * i" "s < 64" "fits (64 - s) y" "\<not> 0x80 \<le> y"
  shows "(ucast y :: byte) < 0x80" "i = MaxVarintLen64 - 1 \<Longrightarrow> \<not> (1 :: byte) < ucast y"
    "i < MaxVarintLen64" "ucast (ucast y :: byte) = y"
proof -
  have y: "unat y < 128" using assms(4) by (simp add: word_le_nat_alt)
  then have u: "unat (ucast y :: byte) = unat y" by (simp add: unsigned_ucast_eq take_bit_eq_mod)
  then show "(ucast y :: byte) < 0x80" using y by (simp add: word_less_nat_alt)
  show "i < MaxVarintLen64" using assms by (simp add: MaxVarintLen64_def)
  have "unat (ucast (ucast y :: byte) :: uint64) = unat y"
    using y u by (subst unsigned_ucast_eq) (simp add: take_bit_eq_mod)
  then show "ucast (ucast y :: byte) = y" by (simp only: word_unat_eq_iff)
  assume "i = MaxVarintLen64 - 1"
  then have "fits 1 y" using assms by (simp add: MaxVarintLen64_def)
  then have "unat y < 2" using fits_iff [of 1 y] by (simp add: word_less_nat_alt)
  then show "\<not> (1 :: byte) < ucast y" using u by (simp add: word_less_nat_alt)
qed

lemma Uvarint_loop_PutUvarint:
  assumes "s = 7 * i" "s < 64" "fits (64 - s) y"
  shows "Uvarint_loop i s x (PutUvarint y @ rest) = (x OR push_bit s y, int (i + length (PutUvarint y)))"
  using assms
proof (induction y arbitrary: i s x rule: PutUvarint.induct)
  case (1 y)
  show ?case
  proof (cases "0x80 \<le> y")
    case True
    note st = varint_step [OF "1.prems" True]
    show ?thesis
      using True st(1) "1.IH" [OF True st(2-4)] varint_byte_ge [of y]
      by (simp add: PutUvarint.simps [of y] varint_join or.assoc)
  next
    case False
    then show ?thesis
      using varint_last [OF "1.prems"] by (simp add: PutUvarint.simps [of y])
  qed
qed

lemma Uvarint_PutUvarint [simp]: "Uvarint (PutUvarint y @ rest) = (y, int (length (PutUvarint y)))"
  using Uvarint_loop_PutUvarint [of 0 0 y 0 rest] by (simp add: Uvarint_def)

lemma Uvarint_loop_bound: "snd (Uvarint_loop i s x bs) \<le> int (i + length bs)"
proof (induction bs arbitrary: i s x)
  case (Cons b bs)
  then show ?case
    using Cons.IH [of "i + 1" "s + 7" "x OR push_bit s (ucast (b AND 0x7f))"] by auto
qed simp

lemma Uvarint_bound: "snd (Uvarint bs) \<le> int (length bs)"
  using Uvarint_loop_bound [of 0 0 0 bs] by (simp add: Uvarint_def)

lemma length_PutUvarint_le: "s = 7 * i \<Longrightarrow> s < 64 \<Longrightarrow> fits (64 - s) y \<Longrightarrow> i + length (PutUvarint y) \<le> MaxVarintLen64"
proof (induction y arbitrary: i s rule: PutUvarint.induct)
  case (1 y)
  show ?case
  proof (cases "0x80 \<le> y")
    case True
    show ?thesis
      using "1.IH" [OF True varint_step(2-4) [OF "1.prems" True]] True
      by (simp add: PutUvarint.simps [of y])
  next
    case False
    then show ?thesis
      using varint_last(3) [OF "1.prems"] by (simp add: PutUvarint.simps [of y])
  qed
qed

lemma length_PutUvarint_max: "length (PutUvarint y) \<le> MaxVarintLen64"
  using length_PutUvarint_le [of 0 0 y] by simp

section \<open>CRC-32 with the Castagnoli polynomial\<close>

definition Castagnoli :: uint32 where "Castagnoli = 0x82f63b78"

definition crc_shift :: "uint32 \<Rightarrow> uint32" where
  "crc_shift c = (if c AND 1 = 1 then drop_bit 1 c XOR Castagnoli else drop_bit 1 c)"

text \<open>One entry of the table that \<open>crc32.MakeTable\<close> builds, and the byte-wise update.\<close>

definition crc_table :: "byte \<Rightarrow> uint32" where
  "crc_table i = (crc_shift ^^ 8) (ucast i)"

definition crc_update :: "uint32 \<Rightarrow> byte list \<Rightarrow> uint32" where
  "crc_update crc p =
     NOT (foldl (\<lambda>c v. crc_table (ucast c XOR v) XOR drop_bit 8 c) (NOT crc) p)"

definition crc32_Checksum :: "byte list \<Rightarrow> uint32" where
  "crc32_Checksum p = crc_update 0 p"

end
