(* ===== verification/Bstream.thy ===== *)
theory Bstream
  imports Go_Binary
begin

text \<open>
  The writer of the bit stream of \<open>tsdb/chunkenc/bstream.go\<close>. It is related to the list of bits
  written so far (\<open>bs_rep\<close>); the lemmas show that every write appends exactly its bits, whatever
  the fill level of the last byte, and that \<open>writeBitsFast\<close> and \<open>writeBits\<close> agree.
\<close>

section \<open>The writer\<close>

record bstream =
  bs_stream :: "byte list"
  bs_count :: uint8

definition bs_Reset :: "bstream \<Rightarrow> byte list \<Rightarrow> bstream" where
  "bs_Reset b s = b\<lparr>bs_stream := s, bs_count := 0\<rparr>"

definition bs_bytes :: "bstream \<Rightarrow> byte list" where
  "bs_bytes b = bs_stream b"

definition or_at :: "byte list \<Rightarrow> nat \<Rightarrow> byte \<Rightarrow> byte list" where
  "or_at s i m = s[i := s ! i OR m]"

definition writeBit :: "bstream \<Rightarrow> bool \<Rightarrow> bstream" where
  "writeBit b x =
     (let b1 = (if bs_count b = 0 then b\<lparr>bs_stream := bs_stream b @ [0], bs_count := 8\<rparr> else b);
          i = length (bs_stream b1) - 1;
          b2 = (if x then b1\<lparr>bs_stream := or_at (bs_stream b1) i (push_bit (unat (bs_count b1 - 1)) 1)\<rparr>
                else b1)
      in b2\<lparr>bs_count := bs_count b2 - 1\<rparr>)"

definition writeByte :: "bstream \<Rightarrow> byte \<Rightarrow> bstream" where
  "writeByte b byt =
     (if bs_count b = 0 then b\<lparr>bs_stream := bs_stream b @ [byt]\<rparr>
      else let i = length (bs_stream b) - 1;
               s = or_at (bs_stream b) i (drop_bit (unat (8 - bs_count b)) byt)
           in b\<lparr>bs_stream := s @ [push_bit (unat (bs_count b)) byt]\<rparr>)"

text \<open>\<open>u <<= 64 - uint(nbits)\<close>: for \<open>nbits > 64\<close> the unsigned subtraction wraps and the shift gives 0.\<close>

definition shift_to_top :: "uint64 \<Rightarrow> nat \<Rightarrow> uint64" where
  "shift_to_top u nbits = (if nbits \<le> 64 then push_bit (64 - nbits) u else 0)"

fun writeBits_bytes :: "bstream \<Rightarrow> uint64 \<Rightarrow> nat \<Rightarrow> bstream \<times> uint64 \<times> nat" where
  "writeBits_bytes b u nbits =
     (if 8 \<le> nbits then writeBits_bytes (writeByte b (ucast (drop_bit 56 u))) (push_bit 8 u) (nbits - 8)
      else (b, u, nbits))"

declare writeBits_bytes.simps [simp del]

fun writeBits_bits :: "bstream \<Rightarrow> uint64 \<Rightarrow> nat \<Rightarrow> bstream" where
  "writeBits_bits b u 0 = b"
| "writeBits_bits b u (Suc n) = writeBits_bits (writeBit b (drop_bit 63 u = 1)) (push_bit 1 u) n"

definition writeBits :: "bstream \<Rightarrow> uint64 \<Rightarrow> nat \<Rightarrow> bstream" where
  "writeBits b u nbits =
     (case writeBits_bytes b (shift_to_top u nbits) nbits of (b', u', n') \<Rightarrow> writeBits_bits b' u' n')"

fun writeBitsFast_bytes :: "byte list \<Rightarrow> uint64 \<Rightarrow> nat \<Rightarrow> byte list \<times> uint64 \<times> nat" where
  "writeBitsFast_bytes s u nbits =
     (if 8 \<le> nbits then writeBitsFast_bytes (s @ [ucast (drop_bit 56 u)]) (push_bit 8 u) (nbits - 8)
      else (s, u, nbits))"

declare writeBitsFast_bytes.simps [simp del]

definition writeBitsFast_tail :: "bstream \<Rightarrow> uint64 \<Rightarrow> nat \<Rightarrow> bstream" where
  "writeBitsFast_tail b u nbits =
     (case writeBitsFast_bytes (bs_stream b) u nbits of (s, u', n') \<Rightarrow>
        if n' > 0 then b\<lparr>bs_stream := s @ [ucast (drop_bit 56 u')], bs_count := of_nat (8 - n')\<rparr>
        else b\<lparr>bs_stream := s\<rparr>)"

definition writeBitsFast :: "bstream \<Rightarrow> uint64 \<Rightarrow> nat \<Rightarrow> bstream" where
  "writeBitsFast b u0 nbits =
     (let u = shift_to_top u0 nbits in
      if bs_count b > 0
      then let free = unat (bs_count b);
               last = length (bs_stream b) - 1;
               s = or_at (bs_stream b) last (ucast (drop_bit (64 - free) u))
           in if nbits < free then b\<lparr>bs_stream := s, bs_count := of_nat (free - nbits)\<rparr>
              else writeBitsFast_tail (b\<lparr>bs_stream := s, bs_count := 0\<rparr>) (push_bit free u) (nbits - free)
      else writeBitsFast_tail b u nbits)"

section \<open>What the writer has written\<close>

text \<open>
  The bytes of the stream are the bits written so far followed by \<open>count\<close> zero bits that are
  still free in the last byte.
\<close>

definition bs_rep :: "bstream \<Rightarrow> bool list \<Rightarrow> bool" where
  "bs_rep b bits \<longleftrightarrow>
     unat (bs_count b) < 8 \<and> bytes_bits (bs_stream b) = bits @ replicate (unat (bs_count b)) False"

lemma bs_rep_aligned: "bs_count b = 0 \<Longrightarrow> bs_rep b bits \<longleftrightarrow> bits = bytes_bits (bs_stream b)"
  by (auto simp: bs_rep_def)

lemma bs_rep_partial:
  assumes "unat (bs_count b) = c" "0 < c" "c < 8"
  shows "bs_rep b bits \<longleftrightarrow> (\<exists>init l. bs_stream b = init @ [l] \<and> (\<forall>i<c. \<not> bit l i) \<and>
    bits = bytes_bits init @ bits_msb (8 - c) (drop_bit c l))" (is "?L \<longleftrightarrow> ?R")
proof
  have split8: "bits_msb 8 l = bits_msb (8 - c) (drop_bit c l) @ bits_msb c l" for l :: byte
    using bits_msb_append [of "8 - c" c l] assms by simp
  {
    assume ?L
    then have eq: "bytes_bits (bs_stream b) = bits @ replicate c False" by (simp add: bs_rep_def assms)
    then have "bs_stream b \<noteq> []" using assms by (auto dest: arg_cong [of _ _ length])
    then obtain init l where s: "bs_stream b = init @ [l]" by (metis rev_exhaust)
    with eq have "bits @ replicate c False = (bytes_bits init @ bits_msb (8 - c) (drop_bit c l)) @ bits_msb c l"
      by (simp add: split8)
    then have bits: "bits = bytes_bits init @ bits_msb (8 - c) (drop_bit c l)" "replicate c False = bits_msb c l"
      by (subst (asm) append_eq_append_conv, simp, simp)+
    then have "\<forall>i<c. \<not> bit l i" using bits_msb_eq_iff [of c l 0] by (simp add: bits_msb_zero)
    with s bits show ?R by blast
  }
  {
    assume ?R
    then obtain init l where s: "bs_stream b = init @ [l]" and z: "\<forall>i<c. \<not> bit l i"
      and bits: "bits = bytes_bits init @ bits_msb (8 - c) (drop_bit c l)" by blast
    from z have "bits_msb c l = replicate c False" using bits_msb_eq_iff [of c l 0] by (simp add: bits_msb_zero)
    with s bits show ?L using assms by (simp add: bs_rep_def split8)
  }
qed

lemma or_at_last [simp]: "or_at (init @ [l]) (length init) m = init @ [l OR m]"
  by (simp add: or_at_def)

lemma count_cases:
  fixes n :: uint8
  obtains "n = 0" | c where "unat n = c" "0 < c" "n \<noteq> 0"
  by (metis unat_eq_zero neq0_conv)

lemma unat_pred: "n \<noteq> 0 \<Longrightarrow> unat (n - 1) = unat n - 1" for n :: uint8
  by (simp add: unat_minus_one)

lemma writeBit_rep:
  assumes "bs_rep b bits"
  shows "bs_rep (writeBit b x) (bits @ [x])"
proof (cases "bs_count b" rule: count_cases)
  case 1
  have "bs_count (writeBit b x) = 7" "bs_stream (writeBit b x) = bs_stream b @ [if x then 0x80 else 0]"
    by (simp_all add: writeBit_def 1 Let_def or_at_def)
  moreover have "bits_msb 8 (if x then 0x80 else 0 :: byte) = x # replicate 7 False"
    by (cases x) (simp_all add: bits_msb_def upt_rec numeral_eq_Suc)
  ultimately show ?thesis using assms 1 by (simp add: bs_rep_def)
next
  case (2 c)
  have c: "c < 8" using assms 2 by (simp add: bs_rep_def)
  with assms 2 obtain init l where s: "bs_stream b = init @ [l]" and z: "\<forall>i<c. \<not> bit l i"
    and bits: "bits = bytes_bits init @ bits_msb (8 - c) (drop_bit c l)"
    by (auto simp: bs_rep_partial [of b c])
  let ?l = "if x then l OR push_bit (c - 1) 1 else l"
  have w: "bs_count (writeBit b x) = bs_count b - 1" "bs_stream (writeBit b x) = init @ [?l]"
    using 2 by (simp_all add: writeBit_def Let_def s unat_pred)
  have n: "unat (bs_count (writeBit b x)) = c - 1" using 2 by (simp add: w unat_pred)
  have bl: "bit ?l i \<longleftrightarrow> bit l i \<or> (x \<and> i = c - 1)" for i
    using c 2 by (auto simp: bit_simps)
  have "bits_msb 8 ?l = bits_msb (8 - c) (drop_bit c l) @ [x] @ replicate (c - 1) False"
    by (rule nth_equalityI) (use c 2 z in \<open>auto simp: nth_bits_msb nth_append bl bit_simps nth_Cons'\<close>)
  then show ?thesis using n c by (simp add: bs_rep_def w bits)
qed

lemma writeByte_rep:
  assumes "bs_rep b bits"
  shows "bs_rep (writeByte b y) (bits @ bits_msb 8 y)"
proof (cases "bs_count b" rule: count_cases)
  case 1
  then show ?thesis using assms by (simp add: writeByte_def bs_rep_def)
next
  case (2 c)
  have c: "c < 8" using assms 2 by (simp add: bs_rep_def)
  with assms 2 obtain init l where s: "bs_stream b = init @ [l]" and z: "\<forall>i<c. \<not> bit l i"
    and bits: "bits = bytes_bits init @ bits_msb (8 - c) (drop_bit c l)"
    by (auto simp: bs_rep_partial [of b c])
  have u: "unat (8 - bs_count b) = 8 - c"
    using c 2 by (subst unat_sub) (simp_all add: word_le_nat_alt)
  let ?l = "l OR drop_bit (8 - c) y" and ?r = "push_bit c y"
  have w: "bs_count (writeByte b y) = bs_count b" "bs_stream (writeByte b y) = (init @ [?l]) @ [?r]"
    using 2 u by (simp_all add: writeByte_def Let_def s)
  have "bits_msb 8 ?l @ bits_msb 8 ?r = bits_msb (8 - c) (drop_bit c l) @ bits_msb 8 y @ replicate c False"
    by (rule nth_equalityI)
      (use c 2 z in \<open>auto simp: nth_bits_msb nth_append bit_simps add.commute dest: bit_imp_le_length\<close>)
  then show ?thesis using c 2 by (simp add: bs_rep_def w bits)
qed

lemma top_byte: "bits_msb 8 (ucast (drop_bit 56 (u :: uint64)) :: byte) = bits_msb 8 (drop_bit 56 u)"
  by (rule bits_msb_ucast) simp_all

lemma top_bits_split: "m \<le> n \<Longrightarrow> n \<le> 64 \<Longrightarrow> bits_msb n (drop_bit (64 - n) (u :: uint64))
    = bits_msb m (drop_bit (64 - m) u) @ bits_msb (n - m) (drop_bit (64 - (n - m)) (push_bit m u))"
  by (rule nth_equalityI) (auto simp: nth_bits_msb nth_append bit_simps)

lemma shift_to_top_bits: "n \<le> 64 \<Longrightarrow> bits_msb n (drop_bit (64 - n) (shift_to_top u n)) = bits_msb n u"
  by (rule bits_msb_eqI) (auto simp: shift_to_top_def bit_simps)

lemma writeBits_bytes_rep:
  assumes "bs_rep b bits" "n \<le> 64" "writeBits_bytes b u n = (b', u', n')"
  shows "n' < 8 \<and> (\<exists>bits'. bs_rep b' bits' \<and>
    bits @ bits_msb n (drop_bit (64 - n) u) = bits' @ bits_msb n' (drop_bit (64 - n') u'))"
  using assms
proof (induction b u n arbitrary: bits rule: writeBits_bytes.induct)
  case (1 b u n)
  show ?case
  proof (cases "8 \<le> n")
    case True
    have "bs_rep (writeByte b (ucast (drop_bit 56 u))) (bits @ bits_msb 8 (drop_bit 56 u))"
      using writeByte_rep [OF "1.prems"(1)] by (metis top_byte)
    from "1.IH" [OF True this] "1.prems"(2,3) True show ?thesis
      by (simp add: writeBits_bytes.simps [of b u n] top_bits_split [of 8 n u])
  next
    case False
    with "1.prems" show ?thesis by (auto simp: writeBits_bytes.simps [of b u n])
  qed
qed

lemma writeBits_bits_rep:
  "bs_rep b bits \<Longrightarrow> n \<le> 64 \<Longrightarrow> bs_rep (writeBits_bits b u n) (bits @ bits_msb n (drop_bit (64 - n) u))"
proof (induction n arbitrary: b bits u)
  case (Suc n)
  have "drop_bit 63 u = (if bit u 63 then 1 else 0)"
  proof (rule bit_word_eqI)
    fix i assume "i < LENGTH(64)"
    then show "bit (drop_bit 63 u) i = bit (if bit u 63 then 1 else 0 :: uint64) i"
      by (cases i) (auto simp: bit_simps dest: bit_imp_le_length)
  qed
  then have top: "drop_bit 63 u = 1 \<longleftrightarrow> bit u 63" by simp
  have "bits_msb (Suc n) (drop_bit (64 - Suc n) u) = [bit u 63] @ bits_msb n (drop_bit (64 - n) (push_bit 1 u))"
    using top_bits_split [of 1 "Suc n" u] Suc.prems(2) by (simp add: bits_msb_Suc bit_drop_bit_eq)
  with Suc.IH [OF writeBit_rep [OF Suc.prems(1)], of "bit u 63" "push_bit 1 u"] Suc.prems(2) show ?case
    by (simp add: top)
qed simp

lemma writeBits_rep:
  assumes "bs_rep b bits" "n \<le> 64"
  shows "bs_rep (writeBits b u n) (bits @ bits_msb n u)"
proof -
  obtain b' u' n' where w: "writeBits_bytes b (shift_to_top u n) n = (b', u', n')" by (metis prod_cases3)
  from writeBits_bytes_rep [OF assms w] obtain bits' where "n' < 8" "bs_rep b' bits'"
    "bits @ bits_msb n u = bits' @ bits_msb n' (drop_bit (64 - n') u')"
    using assms by (auto simp: shift_to_top_bits)
  with writeBits_bits_rep [of b' bits' n' u'] show ?thesis by (simp add: writeBits_def w)
qed

lemma writeBitsFast_bytes_spec:
  assumes "n \<le> 64" "writeBitsFast_bytes s u n = (s', u', n')"
  shows "n' < 8 \<and> bytes_bits s' @ bits_msb n' (drop_bit (64 - n') u') = bytes_bits s @ bits_msb n (drop_bit (64 - n) u)
    \<and> ((\<forall>i<64 - n. \<not> bit u i) \<longrightarrow> (\<forall>i<64 - n'. \<not> bit u' i))"
  using assms
proof (induction s u n rule: writeBitsFast_bytes.induct)
  case (1 s u n)
  show ?case
  proof (cases "8 \<le> n")
    case True
    have "(\<forall>i<64 - n. \<not> bit u i) \<longrightarrow> (\<forall>i<64 - (n - 8). \<not> bit (push_bit 8 u) i)"
      using True by (auto simp: bit_simps)
    with "1.IH" [OF True] "1.prems" True show ?thesis
      by (simp add: writeBitsFast_bytes.simps [of s u n] top_bits_split [of 8 n u] top_byte)
  next
    case False
    with "1.prems" show ?thesis by (auto simp: writeBitsFast_bytes.simps [of s u n])
  qed
qed

lemma writeBitsFast_tail_rep:
  assumes "bs_count b = 0" "n \<le> 64" "\<forall>i<64 - n. \<not> bit u i"
  shows "bs_rep (writeBitsFast_tail b u n) (bytes_bits (bs_stream b) @ bits_msb n (drop_bit (64 - n) u))"
proof -
  obtain s u' n' where w: "writeBitsFast_bytes (bs_stream b) u n = (s, u', n')" by (metis prod_cases3)
  note sp = writeBitsFast_bytes_spec [OF assms(2) w]
  show ?thesis
  proof (cases "n' = 0")
    case True
    then show ?thesis using sp assms by (simp add: writeBitsFast_tail_def w bs_rep_def)
  next
    case False
    have "bits_msb 8 (drop_bit 56 u') = bits_msb n' (drop_bit (64 - n') u') @ replicate (8 - n') False"
      by (rule nth_equalityI) (use sp assms in \<open>auto simp: nth_bits_msb nth_append bit_simps\<close>)
    moreover have "unat (of_nat (8 - n') :: uint8) = 8 - n'" using sp by (simp add: unat_of_nat del: of_nat_diff)
    ultimately show ?thesis
      using sp False by (simp add: writeBitsFast_tail_def w bs_rep_def top_byte)
  qed
qed

text \<open>\<open>writeBitsFast\<close> writes the same bits as \<open>writeBits\<close>.\<close>

lemma writeBitsFast_rep:
  assumes "bs_rep b bits" "n \<le> 64"
  shows "bs_rep (writeBitsFast b u n) (bits @ bits_msb n u)"
proof (cases "bs_count b" rule: count_cases)
  case 1
  have "\<forall>i<64 - n. \<not> bit (shift_to_top u n) i" using assms(2) by (simp add: shift_to_top_def bit_simps)
  from writeBitsFast_tail_rep [OF 1 assms(2) this] assms 1 show ?thesis
    by (simp add: writeBitsFast_def shift_to_top_bits bs_rep_aligned)
next
  case (2 c)
  have c: "c < 8" using assms 2 by (simp add: bs_rep_def)
  with assms 2 obtain init l where s: "bs_stream b = init @ [l]" and z: "\<forall>i<c. \<not> bit l i"
    and bits: "bits = bytes_bits init @ bits_msb (8 - c) (drop_bit c l)"
    by (auto simp: bs_rep_partial [of b c])
  define t where "t = shift_to_top u n"
  have t0: "\<forall>i<64 - n. \<not> bit t i" using assms(2) by (simp add: t_def shift_to_top_def bit_simps)
  have t: "bits_msb n (drop_bit (64 - n) t) = bits_msb n u" using assms(2) by (simp add: t_def shift_to_top_bits)
  let ?l = "l OR ucast (drop_bit (64 - c) t)"
  have bl: "bit ?l i \<longleftrightarrow> bit l i \<or> (i < 8 \<and> bit t (64 - c + i))" for i
    by (auto simp: bit_simps)
  have pos: "bs_count b > 0" using 2 by (simp add: word_greater_zero_iff)
  show ?thesis
  proof (cases "n < c")
    case True
    have "bits_msb 8 ?l = bits_msb (8 - c) (drop_bit c l) @ bits_msb n (drop_bit (64 - n) t) @ replicate (c - n) False"
      by (rule nth_equalityI)
        (use c 2 z t0 True in \<open>auto simp: nth_bits_msb nth_append bl bit_simps add.commute dest: bit_imp_le_length\<close>)
    moreover have "unat (of_nat (c - n) :: uint8) = c - n" using c by (simp add: unat_of_nat del: of_nat_diff)
    ultimately show ?thesis using 2 True pos c
      by (simp add: writeBitsFast_def Let_def s bs_rep_def bits t del: of_nat_diff flip: t_def)
  next
    case False
    let ?b = "b\<lparr>bs_stream := init @ [?l], bs_count := 0\<rparr>"
    have "bits_msb 8 ?l = bits_msb (8 - c) (drop_bit c l) @ bits_msb c (drop_bit (64 - c) t)"
      by (rule nth_equalityI)
        (use c 2 z in \<open>auto simp: nth_bits_msb nth_append bl bit_simps dest: bit_imp_le_length\<close>)
    moreover have "\<forall>i<64 - (n - c). \<not> bit (push_bit c t) i" using t0 by (auto simp: bit_simps)
    then have "bs_rep (writeBitsFast_tail ?b (push_bit c t) (n - c))
        (bytes_bits (bs_stream ?b) @ bits_msb (n - c) (drop_bit (64 - (n - c)) (push_bit c t)))"
      using assms(2) by (intro writeBitsFast_tail_rep) auto
    ultimately have "bs_rep (writeBitsFast_tail ?b (push_bit c t) (n - c))
        (bits @ bits_msb n (drop_bit (64 - n) t))"
      using False assms(2) by (simp add: bits top_bits_split [of c n t])
    then show ?thesis using False 2 pos by (simp add: writeBitsFast_def Let_def s t flip: t_def)
  qed
qed

text \<open>Two streams with the same bits are equal: the bytes and the fill level are determined.\<close>

lemma bytes_bits_inj: "bytes_bits xs = bytes_bits ys \<Longrightarrow> xs = ys"
proof (induction xs arbitrary: ys)
  case Nil
  then show ?case by (cases ys) (auto dest: arg_cong [of _ _ length])
next
  case (Cons x xs)
  then obtain y ys' where ys: "ys = y # ys'" by (cases ys) (auto dest: arg_cong [of _ _ length])
  with Cons.prems have "bits_msb 8 x = bits_msb 8 y" "bytes_bits xs = bytes_bits ys'" by auto
  then have "x = y" using bits_msb_eq_iff [of 8 x y] by (auto intro: bit_word_eqI)
  with ys Cons.IH [of ys'] \<open>bytes_bits xs = bytes_bits ys'\<close> show ?case by simp
qed

lemma fill_unique: "(k :: nat) + c = 8 * m \<Longrightarrow> k + d = 8 * n \<Longrightarrow> c < 8 \<Longrightarrow> d < 8 \<Longrightarrow> c = d"
  by (cases "m < n"; cases "m = n") linarith+

lemma bs_rep_unique:
  assumes "bs_rep b bits" "bs_rep b' bits"
  shows "b = (b' :: bstream)"
proof -
  let ?c = "unat (bs_count b)" and ?c' = "unat (bs_count b')"
  have "length bits + ?c = 8 * length (bs_stream b)" "length bits + ?c' = 8 * length (bs_stream b')"
    using assms unfolding bs_rep_def by (metis length_append length_bytes_bits length_replicate)+
  moreover have "?c < 8" "?c' < 8" using assms by (auto simp: bs_rep_def)
  ultimately have c: "?c = ?c'" by (rule fill_unique)
  then have "bytes_bits (bs_stream b) = bytes_bits (bs_stream b')" using assms by (simp add: bs_rep_def)
  then have "bs_stream b = bs_stream b'" by (rule bytes_bits_inj)
  moreover have "bs_count b = bs_count b'" using c by (simp only: word_unat_eq_iff)
  ultimately show ?thesis by simp
qed

end
