(* ===== verification/Bit_Source.thy ===== *)
theory Bit_Source
  imports Go_Binary
begin

text \<open>
  The interface between the bit stream reader and the decoders that are written on top of it.
  \<open>decodes ok view m xs x\<close> says that the operation \<open>m\<close>, run in a state that satisfies \<open>ok\<close> and
  whose unread input (\<open>view\<close>) begins with \<open>xs\<close>, consumes exactly \<open>xs\<close> and returns \<open>x\<close>. The
  locale \<open>bit_source\<close> lists what a decoder relies on; the lemmas proved in it are about the
  varint readers of \<open>encoding/binary\<close>, the unary prefix loop and the fast-path idiom
  \<open>readBitsFast\<close> followed by \<open>readBits\<close>.
\<close>

definition decodes ::
  "('s \<Rightarrow> bool) \<Rightarrow> ('s \<Rightarrow> 'v list) \<Rightarrow> ('s, 'a) stm \<Rightarrow> 'v list \<Rightarrow> 'a \<Rightarrow> bool" where
  "decodes ok view m xs x \<longleftrightarrow>
     (\<forall>s rest. ok s \<and> view s = xs @ rest \<longrightarrow> (\<exists>s'. m s = (Inr x, s') \<and> ok s' \<and> view s' = rest))"

lemma decodesI:
  "(\<And>s rest. ok s \<Longrightarrow> view s = xs @ rest \<Longrightarrow> \<exists>s'. m s = (Inr x, s') \<and> ok s' \<and> view s' = rest)
    \<Longrightarrow> decodes ok view m xs x"
  by (simp add: decodes_def)

lemma decodesE:
  assumes "decodes ok view m xs x" "ok s" "view s = xs @ rest"
  obtains s' where "m s = (Inr x, s')" "ok s'" "view s' = rest"
  using assms unfolding decodes_def by blast

lemma decodes_return [dec_intros, simp]: "decodes ok view (returnR x) [] x"
  by (simp add: decodes_def)

lemma decodes_Pair [simp]: "decodes ok view (Pair (Inr x)) [] x"
  by (simp add: decodes_def)

lemma decodes_bind [dec_intros]:
  assumes "decodes ok view m xs x" "decodes ok view (f x) ys y"
  shows "decodes ok view (bindR m f) (xs @ ys) y"
proof (rule decodesI)
  fix s rest assume "ok s" "view s = (xs @ ys) @ rest"
  then obtain s1 where s1: "m s = (Inr x, s1)" "ok s1" "view s1 = ys @ rest"
    using assms(1) by (auto elim: decodesE)
  then obtain s2 where "f x s1 = (Inr y, s2)" "ok s2" "view s2 = rest"
    using assms(2) by (auto elim: decodesE)
  with s1 show "\<exists>s'. bindR m f s = (Inr y, s') \<and> ok s' \<and> view s' = rest" by simp
qed

text \<open>\<open>n\<close> reads in a row, and the decoding of a list of encoded values.\<close>

fun repeatR :: "nat \<Rightarrow> ('s, 'a) stm \<Rightarrow> ('s, 'a list) stm" where
  "repeatR 0 m = returnR []"
| "repeatR (Suc n) m = bindR m (\<lambda>x. bindR (repeatR n m) (\<lambda>xs. returnR (x # xs)))"

lemma decodes_repeat:
  assumes "\<And>x. decodes ok view m (enc x) x"
  shows "decodes ok view (repeatR (length xs) m) (concat (map enc xs)) xs"
proof (induction xs)
  case (Cons x xs)
  have "decodes ok view (repeatR (length (x # xs)) m) (enc x @ concat (map enc xs) @ []) (x # xs)"
    unfolding repeatR.simps list.size(4) add_Suc_right add_0_right
    by (rule decodes_bind [OF assms], rule decodes_bind [OF Cons.IH], rule decodes_return)
  then show ?case by simp
qed simp

text \<open>
  The loop \<open>for range n \<lbrace> d <<= 1; read a bit; if it is zero break; d |= 1 \<rbrace>\<close> that
  \<open>readVarbitInt\<close>, \<open>readVarbitUint\<close> and the XOR iterator share.
\<close>

fun read_prefix :: "('s, bool) stm \<Rightarrow> nat \<Rightarrow> byte \<Rightarrow> ('s, byte) stm" where
  "read_prefix rd 0 d = returnR d"
| "read_prefix rd (Suc n) d =
     bindR rd (\<lambda>b. if \<not> b then returnR (push_bit 1 d)
                    else read_prefix rd n (push_bit 1 d OR 1))"

text \<open>The value of \<open>d\<close> after reading \<open>k\<close> one bits, and then possibly a zero bit.\<close>

definition prefix_code :: "nat \<Rightarrow> nat \<Rightarrow> byte" where
  "prefix_code n k = (if k < n then push_bit 1 (mask k) else mask n)"

definition prefix_bits :: "nat \<Rightarrow> nat \<Rightarrow> bool list" where
  "prefix_bits n k = replicate k True @ (if k < n then [False] else [])"

lemma mask_Suc_byte: "push_bit 1 (mask k) OR 1 = (mask (Suc k) :: byte)"
  by (rule bit_word_eqI) (auto simp: bit_simps bit_mult_2)

locale bit_source =
  fixes ok :: "'s \<Rightarrow> bool"
    and view :: "'s \<Rightarrow> bool list"
    and rdBit :: "('s, bool) stm"
    and rdBitFast :: "('s, bool) stm"
    and rdBits :: "uint8 \<Rightarrow> ('s, uint64) stm"
    and rdBitsFast :: "uint8 \<Rightarrow> ('s, uint64) stm"
    and rdByte :: "('s, byte) stm"
  assumes rdBit: "decodes ok view rdBit [b] b"
    and rdBits: "0 < n \<Longrightarrow> n \<le> 64 \<Longrightarrow> length bs = unat n \<Longrightarrow> decodes ok view (rdBits n) bs (of_bits bs)"
    and rdByte: "decodes ok view rdByte (bits_msb 8 byt) byt"
    and rdBitFast: "ok s \<Longrightarrow> rdBitFast s = (Inl EOF, s) \<or> rdBitFast s = rdBit s"
    and rdBitsFast: "ok s \<Longrightarrow> 0 < n \<Longrightarrow> n \<le> 64 \<Longrightarrow> rdBitsFast n s = (Inl EOF, s) \<or> rdBitsFast n s = rdBits n s"
begin

lemma rdBit_fallback: "decodes ok view (orElseR rdBitFast rdBit) [b] b"
proof (rule decodesI)
  fix s rest assume s: "ok s" "view s = [b] @ rest"
  then obtain s' where s': "rdBit s = (Inr b, s')" "ok s'" "view s' = rest"
    by (rule decodesE [OF rdBit])
  then have "orElseR rdBitFast rdBit s = (Inr b, s')"
    using rdBitFast [OF s(1)] by auto
  with s' show "\<exists>s'. orElseR rdBitFast rdBit s = (Inr b, s') \<and> ok s' \<and> view s' = rest" by blast
qed

lemma rdBits_fallback:
  assumes n: "0 < n" "n \<le> 64" "length bs = unat n"
  shows "decodes ok view (orElseR (rdBitsFast n) (rdBits n)) bs (of_bits bs)"
proof (rule decodesI)
  fix s rest assume s: "ok s" "view s = bs @ rest"
  then obtain s' where s': "rdBits n s = (Inr (of_bits bs), s')" "ok s'" "view s' = rest"
    by (rule decodesE [OF rdBits [OF n]])
  then have "orElseR (rdBitsFast n) (rdBits n) s = (Inr (of_bits bs), s')"
    using rdBitsFast [OF s(1) n(1,2)] by auto
  with s' show "\<exists>s'. orElseR (rdBitsFast n) (rdBits n) s = (Inr (of_bits bs), s') \<and> ok s' \<and> view s' = rest"
    by blast
qed

lemma read_prefix_decodes:
  assumes "k \<le> n"
  shows "decodes ok view (read_prefix (orElseR rdBitFast rdBit) n (mask j)) (prefix_bits n k)
    (if k < n then push_bit 1 (mask (j + k)) else mask (j + n))"
  using assms
proof (induction n arbitrary: k j)
  case 0
  then show ?case by (simp add: prefix_bits_def)
next
  case (Suc n)
  show ?case
  proof (cases k)
    case 0
    have "decodes ok view (read_prefix (orElseR rdBitFast rdBit) (Suc n) (mask j)) ([False] @ []) (push_bit 1 (mask j))"
      unfolding read_prefix.simps
      by (rule decodes_bind [OF rdBit_fallback]) (simp add: decodes_return)
    with 0 show ?thesis by (simp add: prefix_bits_def)
  next
    case (Suc m)
    with Suc.prems have "m \<le> n" by simp
    from Suc.IH [OF this, of "Suc j"]
    have "decodes ok view (read_prefix (orElseR rdBitFast rdBit) n (push_bit 1 (mask j) OR 1)) (prefix_bits n m)
        (if m < n then push_bit 1 (mask (Suc j + m)) else mask (Suc j + n))"
      by (simp only: mask_Suc_byte)
    then have "decodes ok view (read_prefix (orElseR rdBitFast rdBit) (Suc n) (mask j)) ([True] @ prefix_bits n m)
        (if m < n then push_bit 1 (mask (Suc j + m)) else mask (Suc j + n))"
      unfolding read_prefix.simps
      by (intro decodes_bind [OF rdBit_fallback]) (simp only: not_True_eq_False if_False)
    with Suc show ?thesis by (cases "m < n") (simp_all add: prefix_bits_def)
  qed
qed

lemma read_prefix_code:
  assumes "k \<le> n"
  shows "decodes ok view (read_prefix (orElseR rdBitFast rdBit) n 0) (prefix_bits n k) (prefix_code n k)"
  using read_prefix_decodes [OF assms, of 0] by (cases "k < n") (simp_all add: prefix_code_def)

text \<open>\<open>binary.ReadUvarint\<close> and \<open>binary.ReadVarint\<close> read back what \<open>PutUvarint\<close> and \<open>PutVarint\<close> write.\<close>

lemma ReadUvarint_loop_decodes:
  assumes "s = 7 * i" "s < 64" "fits (64 - s) y" "m + i = MaxVarintLen64"
  shows "decodes ok view (ReadUvarint_loop rdByte m i s x) (bytes_bits (PutUvarint y)) (x OR push_bit s y)"
  using assms
proof (induction y arbitrary: i s x m rule: PutUvarint.induct)
  case (1 y)
  note pre = "1.prems"(1-3)
  from "1.prems" obtain m' where m: "m = Suc m'"
    by (cases m) (auto simp: MaxVarintLen64_def)
  show ?case
  proof (rule decodesI)
    fix st rest assume st: "ok st" "view st = bytes_bits (PutUvarint y) @ rest"
    show "\<exists>st'. ReadUvarint_loop rdByte m i s x st = (Inr (x OR push_bit s y), st') \<and> ok st' \<and> view st' = rest"
    proof (cases "0x80 \<le> y")
      case True
      let ?b = "ucast y OR (0x80 :: byte)"
      let ?x = "x OR push_bit s (ucast (?b AND 0x7f))"
      from True st obtain s1 where s1: "rdByte st = (Inr ?b, s1)" "ok s1"
          "view s1 = bytes_bits (PutUvarint (drop_bit 7 y)) @ rest"
        by (auto simp: PutUvarint.simps [of y] elim: decodesE [OF rdByte [of ?b]])
      note vs = varint_step [OF pre True]
      have "m' + (i + 1) = MaxVarintLen64" using "1.prems"(4) m by simp
      from "1.IH" [OF True vs(2-4) this, of ?x] s1(2,3)
      obtain s2 where "ReadUvarint_loop rdByte m' (i + 1) (s + 7) ?x s1
          = (Inr (?x OR push_bit (s + 7) (drop_bit 7 y)), s2)" "ok s2" "view s2 = rest"
        by (rule decodesE)
      then show ?thesis
        using s1 varint_byte_ge [of y] varint_join [of x s y] by (simp add: m or.assoc)
    next
      case False
      from False st obtain s1 where s1: "rdByte st = (Inr (ucast y), s1)" "ok s1" "view s1 = rest"
        by (auto simp: PutUvarint.simps [of y] elim: decodesE [OF rdByte [of "ucast y"]])
      then show ?thesis using varint_last [OF pre False] by (simp add: m)
    qed
  qed
qed

lemma ReadUvarint_decodes: "decodes ok view (ReadUvarint rdByte) (bytes_bits (PutUvarint y)) y"
  using ReadUvarint_loop_decodes [of 0 0 y MaxVarintLen64 0] by (simp add: ReadUvarint_def)

lemma ReadVarint_decodes: "decodes ok view (ReadVarint rdByte) (bytes_bits (PutVarint y)) y"
  using decodes_bind [OF ReadUvarint_decodes [of "zigzag y"], of "\<lambda>ux. returnR (unzigzag ux)" "[]" y]
  by (simp add: ReadVarint_def PutVarint_def)

end

end
