(* ===== verification/BstreamReader.thy ===== *)
theory BstreamReader
  imports Bit_Source
begin

text \<open>
  The reader of the bit stream of \<open>tsdb/chunkenc/bstream.go\<close>, with its 8 byte buffer and its copy
  of the last byte. It is related to the list of bits not read yet (\<open>br_bits\<close>); the lemmas show
  that every read returns and consumes exactly the next bits, that nothing it returns depends on
  the last byte of the shared slice once the reader exists, and the last section interprets the
  interface \<open>bit_source\<close> on it.
\<close>

section \<open>The reader\<close>

record bstreamReader =
  br_stream :: "byte list"
  br_streamOffset :: nat
  br_buffer :: uint64
  br_valid :: uint8
  br_last :: byte

definition newBReader :: "byte list \<Rightarrow> bstreamReader" where
  "newBReader b =
     \<lparr>br_stream = b, br_streamOffset = 0, br_buffer = 0, br_valid = 0,
      br_last = (if length b > 0 then b ! (length b - 1) else 0)\<rparr>"

definition loadNextBuffer :: "uint8 \<Rightarrow> bstreamReader \<Rightarrow> bool \<times> bstreamReader" where
  "loadNextBuffer nbits b =
     (let len = length (br_stream b); off = br_streamOffset b in
      if len \<le> off then (False, b)
      else if off + 8 < len
      then (True, b\<lparr>br_buffer := the (Uint64 (drop off (br_stream b))), br_streamOffset := off + 8, br_valid := 64\<rparr>)
      else let n0 = unat (nbits div 8) + 1;
               nbytes = (if off + n0 > len then len - off else n0);
               at_end = (off + nbytes = len);
               buffer0 = (if at_end then ucast (br_last b) else 0);
               skip = (if at_end then 1 else 0);
               buffer = fold (\<lambda>i buf. buf OR push_bit (8 * (nbytes - i - 1)) (ucast (br_stream b ! (off + i))))
                          [0..<nbytes - skip] buffer0
           in (True, b\<lparr>br_buffer := buffer, br_streamOffset := off + nbytes, br_valid := of_nat (nbytes * 8)\<rparr>))"

definition readBitFast :: "(bstreamReader, bool) stm" where
  "readBitFast b =
     (if br_valid b = 0 then (Inl EOF, b)
      else let b' = b\<lparr>br_valid := br_valid b - 1\<rparr>;
               bitmask = push_bit (unat (br_valid b')) 1
           in (Inr (br_buffer b' AND bitmask \<noteq> 0), b'))"

definition readBit :: "(bstreamReader, bool) stm" where
  "readBit b =
     (if br_valid b = 0
      then case loadNextBuffer 1 b of (loaded, b') \<Rightarrow> if \<not> loaded then (Inl EOF, b') else readBitFast b'
      else readBitFast b)"

definition readBitsFast :: "uint8 \<Rightarrow> (bstreamReader, uint64) stm" where
  "readBitsFast nbits b =
     (if nbits > br_valid b then (Inl EOF, b)
      else let bitmask = push_bit (unat nbits) 1 - 1;
               b' = b\<lparr>br_valid := br_valid b - nbits\<rparr>
           in (Inr (drop_bit (unat (br_valid b')) (br_buffer b') AND bitmask), b'))"

text \<open>\<open>readBits\<close> after the buffer is known to hold at least one bit.\<close>

definition readBits_loaded :: "uint8 \<Rightarrow> (bstreamReader, uint64) stm" where
  "readBits_loaded nbits b =
     (if nbits \<le> br_valid b then readBitsFast nbits b
      else let bitmask = push_bit (unat (br_valid b)) 1 - 1;
               n = nbits - br_valid b;
               v = push_bit (unat n) (br_buffer b AND bitmask)
           in case loadNextBuffer n (b\<lparr>br_valid := 0\<rparr>) of (loaded, b') \<Rightarrow>
                if \<not> loaded then (Inl EOF, b')
                else let bitmask' = push_bit (unat n) 1 - 1;
                         w = v OR (drop_bit (unat (br_valid b' - n)) (br_buffer b') AND bitmask')
                     in (Inr w, b'\<lparr>br_valid := br_valid b' - n\<rparr>))"

definition readBits :: "uint8 \<Rightarrow> (bstreamReader, uint64) stm" where
  "readBits nbits b =
     (if br_valid b = 0
      then case loadNextBuffer nbits b of (loaded, b') \<Rightarrow>
             if \<not> loaded then (Inl EOF, b') else readBits_loaded nbits b'
      else readBits_loaded nbits b)"

definition br_ReadByte :: "(bstreamReader, byte) stm" where
  "br_ReadByte = bindR (readBits 8) (\<lambda>v. returnR (ucast v))"

fun readUvarint_loop :: "nat \<Rightarrow> nat \<Rightarrow> uint64 \<Rightarrow> (bstreamReader, uint64) stm" where
  "readUvarint_loop 0 s x = errR ErrUnexpectedEOF"
| "readUvarint_loop (Suc n) s x =
     bindR br_ReadByte (\<lambda>byt.
       if byt < 0x80 then returnR (x OR push_bit s (ucast byt))
       else readUvarint_loop n (s + 7) (x OR push_bit s (ucast (byt AND 0x7f))))"

definition readUvarint :: "(bstreamReader, uint64) stm" where
  "readUvarint = readUvarint_loop MaxVarintLen64 0 0"

definition readVarint :: "(bstreamReader, int64) stm" where
  "readVarint = bindR readUvarint (\<lambda>ux. returnR (unzigzag ux))"

section \<open>What the reader has still to read\<close>

definition br_ok :: "bstreamReader \<Rightarrow> bool" where
  "br_ok b \<longleftrightarrow> br_valid b \<le> 64 \<and> br_streamOffset b \<le> length (br_stream b) \<and>
     (br_stream b \<noteq> [] \<longrightarrow> br_last b = last (br_stream b))"

definition br_bits :: "bstreamReader \<Rightarrow> bool list" where
  "br_bits b = bits_msb (unat (br_valid b)) (br_buffer b) @ bytes_bits (drop (br_streamOffset b) (br_stream b))"

lemma newBReader_ok [simp]: "br_ok (newBReader s)"
  by (simp add: br_ok_def newBReader_def last_conv_nth)

lemma newBReader_bits [simp]: "br_bits (newBReader s) = bytes_bits s"
  by (simp add: br_bits_def newBReader_def)

lemma bit_fold_or:
  "bit (fold (\<lambda>i buf. buf OR f i) is buf) j \<longleftrightarrow> bit (buf :: uint64) j \<or> (\<exists>i\<in>set is. bit (f i) j)"
  by (induction "is" arbitrary: buf) (auto simp: bit_or_iff)

lemma bit_assembled:
  assumes "i < k" "k \<le> 8"
  shows "bit (push_bit (8 * (k - Suc i)) (ucast (b :: byte)) :: uint64) j \<longleftrightarrow>
    i = k - Suc (j div 8) \<and> j < 8 * k \<and> bit b (j mod 8)"
proof -
  have "8 * (k - i - 1) \<le> j \<and> j - 8 * (k - i - 1) < 8 \<longleftrightarrow> j div 8 = k - i - 1"
    by auto
  moreover have "j div 8 = k - i - 1 \<Longrightarrow> j - 8 * (k - i - 1) = j mod 8"
    by (metis minus_mult_div_eq_mod)
  moreover have "j div 8 = k - i - 1 \<longleftrightarrow> i = k - 1 - j div 8 \<and> j < 8 * k"
    using assms by auto
  ultimately show ?thesis using assms
    by (auto simp: bit_simps dest: bit_imp_le_length)
qed

lemma mirror_index:
  assumes "i < 8 * k"
  shows "(8 * k - Suc i) div 8 = k - Suc (i div 8)" "(8 * k - Suc i) mod 8 = 7 - i mod 8"
proof -
  define r where "r = 7 - i mod 8"
  define q where "q = k - Suc (i div 8)"
  have "i div 8 < k" "i = 8 * (i div 8) + i mod 8" "i mod 8 < 8" using assms by auto
  then have eq: "8 * k - Suc i = r + 8 * q" and r: "r < 8" unfolding r_def q_def by linarith+
  show "(8 * k - Suc i) div 8 = k - Suc (i div 8)" "(8 * k - Suc i) mod 8 = 7 - i mod 8"
    unfolding eq q_def [symmetric] r_def [symmetric] using r by simp_all
qed

lemma assembled_bits:
  assumes "length xs = k" "k \<le> 8" "\<And>j. bit w j \<longleftrightarrow> (\<exists>i<k. bit (push_bit (8 * (k - i - 1)) (ucast (xs ! i)) :: uint64) j)"
  shows "bits_msb (8 * k) w = bytes_bits xs"
proof (rule nth_equalityI)
  fix i assume "i < length (bits_msb (8 * k) w)"
  then have i: "i < 8 * k" by simp
  let ?j = "8 * k - Suc i"
  note mirror_index [OF i]
  moreover have "bit w ?j \<longleftrightarrow> (\<exists>m<k. m = k - Suc (?j div 8) \<and> ?j < 8 * k \<and> bit (xs ! m) (?j mod 8))"
    unfolding assms(3) using bit_assembled [OF _ assms(2)] by auto
  then have "bit w ?j \<longleftrightarrow> bit (xs ! (k - Suc (?j div 8))) (?j mod 8)" using i by auto
  ultimately show "bits_msb (8 * k) w ! i = bytes_bits xs ! i"
    using i assms(1) by (simp add: nth_bits_msb nth_bytes_bits)
qed (use assms in simp)

lemma Uint64_fold:
  assumes "8 \<le> length bs"
  shows "Uint64 bs = Some (fold (\<lambda>i buf. buf OR push_bit (8 * (8 - i - 1)) (ucast (bs ! i))) [0..<8] 0)"
proof -
  obtain b0 b1 b2 b3 b4 b5 b6 b7 rest where "bs = b0 # b1 # b2 # b3 # b4 # b5 # b6 # b7 # rest"
    using assms by (auto simp: numeral_eq_Suc Suc_le_length_iff)
  then show ?thesis by (simp add: upt_rec ac_simps or.assoc or.commute or.left_commute)
qed

lemma Uint64_bits:
  assumes "8 \<le> length bs"
  shows "bits_msb 64 (the (Uint64 bs)) = bytes_bits (take 8 bs)"
proof -
  have "bits_msb (8 * 8) (the (Uint64 bs)) = bytes_bits (take 8 bs)"
    by (rule assembled_bits) (use assms in \<open>auto simp: Uint64_fold bit_fold_or\<close>)
  then show ?thesis by simp
qed

lemma loadNextBuffer_ok:
  assumes ok: "br_ok b" and v0: "br_valid b = 0" and off: "br_streamOffset b < length (br_stream b)"
    and n: "n \<le> 64"
  obtains b' where "loadNextBuffer n b = (True, b')" "br_ok b'" "br_bits b' = br_bits b"
    "br_valid b' \<noteq> 0" "n \<le> br_valid b' \<or> br_streamOffset b' = length (br_stream b')"
proof (cases "br_streamOffset b + 8 < length (br_stream b)")
  case True
  let ?b = "b\<lparr>br_buffer := the (Uint64 (drop (br_streamOffset b) (br_stream b))),
      br_streamOffset := br_streamOffset b + 8, br_valid := 64\<rparr>"
  have "bytes_bits (drop (br_streamOffset b) (br_stream b)) =
      bytes_bits (take 8 (drop (br_streamOffset b) (br_stream b))) @ bytes_bits (drop (br_streamOffset b + 8) (br_stream b))"
    by (metis append_take_drop_id bytes_bits_simps(3) drop_drop add.commute)
  then have "br_bits ?b = br_bits b" using True v0 by (simp add: br_bits_def Uint64_bits)
  moreover have "loadNextBuffer n b = (True, ?b)" "br_ok ?b" using ok off True by (simp_all add: loadNextBuffer_def br_ok_def Let_def)
  ultimately show ?thesis using n by (intro that [of ?b]) simp_all
next
  case False
  let ?len = "length (br_stream b)" and ?off = "br_streamOffset b"
  define k where "k = (if ?off + (unat (n div 8) + 1) > ?len then ?len - ?off else unat (n div 8) + 1)"
  define w where "w = fold (\<lambda>i buf. buf OR push_bit (8 * (k - i - 1)) (ucast (br_stream b ! (?off + i))))
      [0..<k - (if ?off + k = ?len then 1 else 0)] (if ?off + k = ?len then ucast (br_last b) else 0 :: uint64)"
  let ?b = "b\<lparr>br_buffer := w, br_streamOffset := ?off + k, br_valid := of_nat (k * 8)\<rparr>"
  have k: "0 < k" "k \<le> 8" "?off + k \<le> ?len" using off False by (auto simp: k_def)
  have load: "loadNextBuffer n b = (True, ?b)"
    using off False by (simp add: loadNextBuffer_def Let_def k_def w_def)
  have uv: "unat (of_nat (k * 8) :: uint8) = 8 * k" using k by (simp add: unat_of_nat del: of_nat_mult)
  have last: "br_last b = br_stream b ! (?off + (k - 1))" if "?off + k = ?len"
    using that k ok by (auto simp: br_ok_def last_conv_nth)
  have "bits_msb (8 * k) w = bytes_bits (take k (drop ?off (br_stream b)))"
  proof (rule assembled_bits)
    fix j
    have "(\<exists>i<k. bit (push_bit (8 * (k - i - 1)) (ucast (br_stream b ! (?off + i))) :: uint64) j) \<longleftrightarrow>
        (\<exists>i<k-1. bit (push_bit (8 * (k - i - 1)) (ucast (br_stream b ! (?off + i))) :: uint64) j) \<or>
        bit (ucast (br_stream b ! (?off + (k - 1))) :: uint64) j"
      using k by (cases k) (auto simp: less_Suc_eq)
    then show "bit w j \<longleftrightarrow> (\<exists>i<k. bit (push_bit (8 * (k - i - 1)) (ucast (take k (drop ?off (br_stream b)) ! i)) :: uint64) j)"
      using k last by (auto simp: w_def bit_fold_or)
  qed (use k in auto)
  moreover have "bytes_bits (drop ?off (br_stream b)) =
      bytes_bits (take k (drop ?off (br_stream b))) @ bytes_bits (drop (?off + k) (br_stream b))"
    by (metis append_take_drop_id bytes_bits_simps(3) drop_drop add.commute)
  ultimately have "br_bits ?b = br_bits b" using v0 uv by (simp add: br_bits_def)
  moreover have "br_ok ?b" using ok k uv by (auto simp: br_ok_def word_le_nat_alt)
  moreover have "br_valid ?b \<noteq> 0" using uv k by (auto simp: unat_eq_zero)
  moreover have "n \<le> br_valid ?b \<or> br_streamOffset ?b = length (br_stream ?b)"
    using uv k by (auto simp: k_def word_le_nat_alt unat_div split: if_splits)
  ultimately show ?thesis using load by (intro that [of ?b]) simp_all
qed

text \<open>Nothing is left to load once the buffer is empty and the stream is exhausted.\<close>

lemma loadNextBuffer_end: "length (br_stream b) \<le> br_streamOffset b \<Longrightarrow> loadNextBuffer n b = (False, b)"
  by (simp add: loadNextBuffer_def)

lemma readBitsFast_le:
  "n \<le> br_valid b \<Longrightarrow> readBitsFast n b =
    (Inr (drop_bit (unat (br_valid b - n)) (br_buffer b) AND (push_bit (unat n) 1 - 1)), b\<lparr>br_valid := br_valid b - n\<rparr>)"
  by (simp add: readBitsFast_def Let_def not_less [symmetric])

lemma readBitsFast_ok:
  assumes ok: "br_ok b" and n: "n \<le> br_valid b"
  defines "b' \<equiv> b\<lparr>br_valid := br_valid b - n\<rparr>"
  shows "readBitsFast n b = (Inr (of_bits (take (unat n) (br_bits b))), b')" "br_ok b'"
    "br_bits b' = drop (unat n) (br_bits b)"
proof -
  have v: "unat (br_valid b - n) = unat (br_valid b) - unat n" "unat n \<le> unat (br_valid b)"
    using n by (simp_all add: unat_sub word_le_nat_alt)
  have v64: "unat (br_valid b) \<le> 64" using ok by (simp add: br_ok_def word_le_nat_alt)
  have "take (unat n) (br_bits b) = bits_msb (unat n) (drop_bit (unat (br_valid b - n)) (br_buffer b))"
    using v by (simp add: br_bits_def take_bits_msb)
  then show "readBitsFast n b = (Inr (of_bits (take (unat n) (br_bits b))), b')"
    using n by (simp add: readBitsFast_def Let_def b'_def of_bits_bits_msb not_less take_bit_eq_mask
        mask_eq_exp_minus_1 push_bit_of_1)
  show "br_bits b' = drop (unat n) (br_bits b)"
    using v by (simp add: br_bits_def b'_def drop_bits_msb)
  show "br_ok b'"
    using ok v64 v by (simp add: br_ok_def b'_def word_le_nat_alt)
qed

lemma of_bits_append:
  assumes "length ys = unat n" "length xs + length ys \<le> 64" "n \<le> 64"
  shows "(of_bits (xs @ ys) :: uint64) = push_bit (unat n) (of_bits xs) OR of_bits ys"
  by (rule bit_word_eqI) (use assms in \<open>auto simp: bit_simps bit_of_bits nth_append\<close>)

lemma readBits_loaded_ok:
  assumes ok: "br_ok b" and v: "br_valid b \<noteq> 0" and n: "0 < n" "n \<le> 64"
    and len: "unat n \<le> length (br_bits b)"
  shows "\<exists>b'. readBits_loaded n b = (Inr (of_bits (take (unat n) (br_bits b))), b') \<and> br_ok b' \<and>
    br_bits b' = drop (unat n) (br_bits b)"
proof (cases "n \<le> br_valid b")
  case True
  then show ?thesis using readBitsFast_ok [OF ok True] by (simp add: readBits_loaded_def)
next
  case False
  let ?b0 = "b\<lparr>br_valid := 0\<rparr>" and ?m = "n - br_valid b"
  have um: "unat ?m = unat n - unat (br_valid b)" and lt: "unat (br_valid b) < unat n" and n64: "unat n \<le> 64"
    using False n by (simp_all add: unat_sub word_le_nat_alt)
  have b0: "br_ok ?b0" "br_valid ?b0 = 0" "br_bits b = bits_msb (unat (br_valid b)) (br_buffer b) @ br_bits ?b0"
    using ok by (auto simp: br_ok_def br_bits_def)
  have m: "?m \<le> 64" "unat ?m \<le> length (br_bits ?b0)" "0 < unat ?m"
    using um lt len n64 b0(3) by (auto simp: word_le_nat_alt)
  have off: "br_streamOffset ?b0 < length (br_stream ?b0)"
    using m(2,3) by (simp add: br_bits_def)
  obtain b1 where b1: "loadNextBuffer ?m ?b0 = (True, b1)" "br_ok b1" "br_bits b1 = br_bits ?b0"
      "?m \<le> br_valid b1 \<or> br_streamOffset b1 = length (br_stream b1)"
    by (rule loadNextBuffer_ok [OF b0(1,2) off m(1)])
  have mv: "?m \<le> br_valid b1"
    using arg_cong [OF b1(3), of length] b1(4) m(2) by (auto simp: br_bits_def word_le_nat_alt)
  note fast = readBitsFast_ok [OF b1(2) mv]
  have part2: "drop_bit (unat (br_valid b1 - ?m)) (br_buffer b1) AND (push_bit (unat ?m) 1 - 1)
      = of_bits (take (unat ?m) (br_bits ?b0))"
    using fast(1) b1(3) unfolding readBitsFast_le [OF mv] by simp
  have part1: "br_buffer b AND (push_bit (unat (br_valid b)) 1 - 1) = of_bits (bits_msb (unat (br_valid b)) (br_buffer b))"
    by (simp add: of_bits_bits_msb take_bit_eq_mask mask_eq_exp_minus_1 push_bit_of_1)
  have "take (unat n) (br_bits b) = bits_msb (unat (br_valid b)) (br_buffer b) @ take (unat ?m) (br_bits ?b0)"
    using b0(3) um lt by simp
  moreover have "(of_bits (bits_msb (unat (br_valid b)) (br_buffer b) @ take (unat ?m) (br_bits ?b0)) :: uint64)
      = push_bit (unat ?m) (of_bits (bits_msb (unat (br_valid b)) (br_buffer b))) OR of_bits (take (unat ?m) (br_bits ?b0)) "
    by (rule of_bits_append) (use m um lt n64 in auto)
  ultimately have "readBits_loaded n b = (Inr (of_bits (take (unat n) (br_bits b))), b1\<lparr>br_valid := br_valid b1 - ?m\<rparr>)"
    using False b1(1) part1 part2 by (simp add: readBits_loaded_def Let_def del: push_bit_and)
  moreover have "drop (unat n) (br_bits b) = drop (unat ?m) (br_bits b1)"
    using b0(3) b1(3) um lt by simp
  ultimately show ?thesis using fast(2,3) by simp
qed

lemma readBits_decodes:
  assumes "0 < n" "n \<le> 64" "length bs = unat n"
  shows "decodes br_ok br_bits (readBits n) bs (of_bits bs)"
proof (rule decodesI)
  fix b rest assume b: "br_ok b" "br_bits b = bs @ rest"
  have un: "0 < unat n" using assms(1) by (simp add: word_less_nat_alt)
  have main: "\<exists>b'. readBits_loaded n b1 = (Inr (of_bits bs), b') \<and> br_ok b' \<and> br_bits b' = rest"
    if "br_ok b1" "br_valid b1 \<noteq> 0" "br_bits b1 = bs @ rest" for b1
    using readBits_loaded_ok [OF that(1,2) assms(1,2)] that(3) assms(3) by simp
  show "\<exists>b'. readBits n b = (Inr (of_bits bs), b') \<and> br_ok b' \<and> br_bits b' = rest"
  proof (cases "br_valid b = 0")
    case True
    have "br_streamOffset b < length (br_stream b)"
      using b(2) True un assms(3) by (cases "br_streamOffset b < length (br_stream b)") (auto simp: br_bits_def)
    then obtain b1 where "loadNextBuffer n b = (True, b1)" "br_ok b1" "br_bits b1 = br_bits b" "br_valid b1 \<noteq> 0"
      by (rule loadNextBuffer_ok [OF b(1) True _ assms(2)])
    then show ?thesis using main [of b1] b(2) True by (simp add: readBits_def)
  next
    case False
    then show ?thesis using main [OF b(1) False b(2)] by (simp add: readBits_def)
  qed
qed

lemma readBitFast_ok:
  assumes "br_ok b" "br_valid b \<noteq> 0" "br_bits b = x # rest"
  shows "readBitFast b = (Inr x, b\<lparr>br_valid := br_valid b - 1\<rparr>)" "br_ok (b\<lparr>br_valid := br_valid b - 1\<rparr>)"
    "br_bits (b\<lparr>br_valid := br_valid b - 1\<rparr>) = rest"
proof -
  have v: "1 \<le> br_valid b" using assms(2) by (simp add: word_le_nat_alt) (simp add: unat_gt_0 Suc_leI)
  note f = readBitsFast_ok [OF assms(1) v]
  show "br_ok (b\<lparr>br_valid := br_valid b - 1\<rparr>)" using f(2) by simp
  show "br_bits (b\<lparr>br_valid := br_valid b - 1\<rparr>) = rest" using f(3) assms(3) by simp
  have "x = bit (br_buffer b) (unat (br_valid b) - 1)"
    using assms(2,3) by (cases "unat (br_valid b)") (auto simp: br_bits_def bits_msb_Suc unat_eq_zero)
  moreover have "br_buffer b AND push_bit k 1 \<noteq> 0 \<longleftrightarrow> bit (br_buffer b) k" for k
    by (simp add: push_bit_of_1 and_exp_eq_0_iff_not_bit)
  ultimately show "readBitFast b = (Inr x, b\<lparr>br_valid := br_valid b - 1\<rparr>)"
    using assms(2) by (simp add: readBitFast_def Let_def unat_minus_one del: push_bit_of_1)
qed

lemma readBit_decodes: "decodes br_ok br_bits readBit [x] x"
proof (rule decodesI)
  fix b rest assume b: "br_ok b" "br_bits b = [x] @ rest"
  show "\<exists>b'. readBit b = (Inr x, b') \<and> br_ok b' \<and> br_bits b' = rest"
  proof (cases "br_valid b = 0")
    case True
    have "br_streamOffset b < length (br_stream b)"
      using b(2) True by (cases "br_streamOffset b < length (br_stream b)") (auto simp: br_bits_def)
    then obtain b1 where "loadNextBuffer 1 b = (True, b1)" "br_ok b1" "br_bits b1 = br_bits b" "br_valid b1 \<noteq> 0"
      by (rule loadNextBuffer_ok [OF b(1) True, of 1]) auto
    then show ?thesis using readBitFast_ok [of b1 x rest] b(2) True by (simp add: readBit_def)
  next
    case False
    then show ?thesis using readBitFast_ok [OF b(1) False] b(2) by (simp add: readBit_def)
  qed
qed

lemma ReadByte_decodes: "decodes br_ok br_bits br_ReadByte (bits_msb 8 y) y"
proof -
  have "decodes br_ok br_bits (readBits 8) (bits_msb 8 y) (of_bits (bits_msb 8 y))"
    by (rule readBits_decodes) simp_all
  moreover have "ucast (of_bits (bits_msb 8 y) :: uint64) = y"
    by (rule bit_word_eqI) (auto simp: bit_simps bit_of_bits nth_bits_msb)
  ultimately have "decodes br_ok br_bits br_ReadByte (bits_msb 8 y @ []) y"
    unfolding br_ReadByte_def by (intro decodes_bind) auto
  then show ?thesis by simp
qed

text \<open>The fast readers either decline without touching the state or do what the slow ones do.\<close>

lemma readBitFast_or: "readBitFast b = (Inl EOF, b) \<or> readBitFast b = readBit b"
  by (simp add: readBitFast_def readBit_def)

lemma readBitsFast_or: "0 < n \<Longrightarrow> readBitsFast n b = (Inl EOF, b) \<or> readBitsFast n b = readBits n b"
  by (auto simp: readBitsFast_def readBits_def readBits_loaded_def not_less)

interpretation br: bit_source br_ok br_bits readBit readBitFast readBits readBitsFast br_ReadByte
  by unfold_locales (use readBit_decodes readBits_decodes ReadByte_decodes readBitFast_or readBitsFast_or in auto)

lemma readUvarint_loop_decodes:
  assumes "s = 7 * i" "s < 64" "fits (64 - s) y" "m + i = MaxVarintLen64"
  shows "decodes br_ok br_bits (readUvarint_loop m s x) (bytes_bits (PutUvarint y)) (x OR push_bit s y)"
  using assms
proof (induction y arbitrary: i s x m rule: PutUvarint.induct)
  case (1 y)
  note pre = "1.prems"(1-3)
  from "1.prems" obtain m' where m: "m = Suc m'" by (cases m) (auto simp: MaxVarintLen64_def)
  show ?case
  proof (cases "0x80 \<le> y")
    case True
    note vs = varint_step [OF pre True]
    have "m' + (i + 1) = MaxVarintLen64" using "1.prems"(4) m by simp
    note rest = "1.IH" [OF True vs(2-4) this, of "x OR push_bit s (ucast ((ucast y OR 0x80) AND (0x7f :: byte)))"]
    show ?thesis
      unfolding m readUvarint_loop.simps PutUvarint.simps [of y] if_P [OF True] bytes_bits_simps(2)
      by (rule decodes_bind [OF br.rdByte])
        (use rest varint_byte_ge [of y] varint_join [of x s y] in \<open>simp add: or.assoc\<close>)
  next
    case False
    show ?thesis
      unfolding m readUvarint_loop.simps PutUvarint.simps [of y] if_not_P [OF False] bytes_bits_simps
      by (rule decodes_bind [OF br.rdByte]) (use varint_last [OF pre False] in simp)
  qed
qed

lemma readUvarint_decodes: "decodes br_ok br_bits readUvarint (bytes_bits (PutUvarint y)) y"
  using readUvarint_loop_decodes [of 0 0 y MaxVarintLen64 0] by (simp add: readUvarint_def)

lemma readVarint_decodes: "decodes br_ok br_bits readVarint (bytes_bits (PutVarint y)) y"
  using decodes_bind [OF readUvarint_decodes [of "zigzag y"], of "\<lambda>ux. returnR (unzigzag ux)" "[]" y]
  by (simp add: readVarint_def PutVarint_def)

section \<open>Independence of the last byte of the shared slice\<close>

text \<open>
  An appender may still change the last byte of the slice a reader was created on. \<open>with_stream s\<close>
  replaces the slice of a reader; \<open>same_but_last\<close> relates the slice to what it may have become.
\<close>

definition same_but_last :: "byte list \<Rightarrow> byte list \<Rightarrow> bool" where
  "same_but_last s s' \<longleftrightarrow> length s = length s' \<and> butlast s = butlast s'"

definition with_stream :: "byte list \<Rightarrow> bstreamReader \<Rightarrow> bstreamReader" where
  "with_stream s b = b\<lparr>br_stream := s\<rparr>"

lemma same_but_last_nth: "same_but_last s s' \<Longrightarrow> i + 1 < length s \<Longrightarrow> s ! i = s' ! i"
  unfolding same_but_last_def by (metis Suc_eq_plus1 less_diff_conv length_butlast nth_butlast)

lemma Uint64_take: "8 \<le> length bs \<Longrightarrow> the (Uint64 bs) = the (Uint64 (take 8 bs))"
  by (simp add: Uint64_fold) (rule fold_cong, auto)

lemma loadNextBuffer_same_but_last:
  assumes s: "same_but_last (br_stream b) s"
  shows "loadNextBuffer n (with_stream s b) = map_prod id (with_stream s) (loadNextBuffer n b)"
proof -
  have len: "length s = length (br_stream b)" using s by (simp add: same_but_last_def)
  let ?off = "br_streamOffset b"
  have fast: "the (Uint64 (drop ?off s)) = the (Uint64 (drop ?off (br_stream b)))"
    if "?off + 8 < length (br_stream b)"
  proof -
    have "take 8 (drop ?off s) = take 8 (drop ?off (br_stream b))"
      by (rule nth_equalityI) (use that len same_but_last_nth [OF s] in auto)
    then show ?thesis using that len Uint64_take [of "drop ?off s"] Uint64_take [of "drop ?off (br_stream b)"]
      by simp
  qed
  have slow: "fold (\<lambda>i buf. buf OR push_bit (8 * (k - i - 1)) (ucast (s ! (?off + i)))) [0..<k - (if ?off + k = length s then 1 else 0)] x
      = fold (\<lambda>i buf. buf OR push_bit (8 * (k - i - 1)) (ucast (br_stream b ! (?off + i)))) [0..<k - (if ?off + k = length s then 1 else 0)] (x :: uint64)"
    if "?off + k \<le> length s" for k x
    by (rule fold_cong) (use that len same_but_last_nth [OF s] in \<open>auto split: if_splits\<close>)
  show ?thesis
    using fast slow by (auto simp: loadNextBuffer_def with_stream_def len Let_def)
qed

lemma with_stream_simps [simp]:
  "br_valid (with_stream s b) = br_valid b" "br_buffer (with_stream s b) = br_buffer b"
  "br_stream (with_stream s b) = s" "with_stream s (b\<lparr>br_valid := v\<rparr>) = (with_stream s b)\<lparr>br_valid := v\<rparr>"
  by (simp_all add: with_stream_def)

lemma loadNextBuffer_stream: "br_stream (snd (loadNextBuffer n b)) = br_stream b"
  by (auto simp: loadNextBuffer_def Let_def)

lemma readBits_loaded_same_but_last:
  assumes "same_but_last (br_stream b) s"
  shows "readBits_loaded n (with_stream s b) = map_prod id (with_stream s) (readBits_loaded n b)"
proof -
  have "loadNextBuffer m ((with_stream s b)\<lparr>br_valid := 0\<rparr>) = map_prod id (with_stream s) (loadNextBuffer m (b\<lparr>br_valid := 0\<rparr>))" for m
    using loadNextBuffer_same_but_last [of "b\<lparr>br_valid := 0\<rparr>" s m] assms by simp
  then show ?thesis
    by (auto simp: readBits_loaded_def readBitsFast_def Let_def split: prod.splits)
qed

lemma readBits_same_but_last:
  assumes "same_but_last (br_stream b) s"
  shows "readBits n (with_stream s b) = map_prod id (with_stream s) (readBits n b)"
  using loadNextBuffer_same_but_last [OF assms, of n] readBits_loaded_same_but_last [OF assms, of n]
    readBits_loaded_same_but_last [of "snd (loadNextBuffer n b)" s n] loadNextBuffer_stream [of n b] assms
  by (auto simp: readBits_def split: prod.splits)

lemma readBit_same_but_last:
  assumes "same_but_last (br_stream b) s"
  shows "readBit (with_stream s b) = map_prod id (with_stream s) (readBit b)"
  using loadNextBuffer_same_but_last [OF assms, of 1]
  by (auto simp: readBit_def readBitFast_def Let_def split: prod.splits)

end
