(* ===== verification/Varbit.thy ===== *)
theory Varbit
  imports Bstream BstreamReader
begin

text \<open>
  The variable bit-width integers of \<open>tsdb/chunkenc/varbit.go\<close> and \<open>bitRange\<close> of
  \<open>tsdb/chunkenc/xor.go\<close>. The encoders are related to the bits they append
  (\<open>varbitInt_bits\<close>, \<open>varbitUint_bits\<close>), the decoders to the bits they consume; the properties
  are the round trips for whole lists of values, the agreement of the two signed encoders and the
  size of an encoded value.
\<close>

definition bitRange :: "int64 \<Rightarrow> nat \<Rightarrow> bool" where
  "bitRange x nbits \<longleftrightarrow> - (push_bit (nbits - 1) 1 - 1) \<le>s x \<and> x \<le>s push_bit (nbits - 1) 1"

definition bitRangeUint :: "uint64 \<Rightarrow> nat \<Rightarrow> bool" where
  "bitRangeUint x nbits \<longleftrightarrow> int (LeadingZeros64 x) \<ge> 64 - int nbits"

definition putVarbitInt :: "bstream \<Rightarrow> int64 \<Rightarrow> bstream" where
  "putVarbitInt b val =
     (if val = 0 then writeBit b False
      else if bitRange val 3 then writeBits (writeBits b 0b10 2) val 3
      else if bitRange val 6 then writeBits (writeBits b 0b110 3) val 6
      else if bitRange val 9 then writeBits (writeBits b 0b1110 4) val 9
      else if bitRange val 12 then writeBits (writeBits b 0b11110 5) val 12
      else if bitRange val 18 then writeBits (writeBits b 0b111110 6) val 18
      else if bitRange val 25 then writeBits (writeBits b 0b1111110 7) val 25
      else if bitRange val 56 then writeBits (writeBits b 0b11111110 8) val 56
      else writeBits (writeBits b 0b11111111 8) val 64)"

definition putVarbitIntFast :: "bstream \<Rightarrow> int64 \<Rightarrow> bstream" where
  "putVarbitIntFast b val =
     (let uval = val in
      if val = 0 then writeBit b False
      else if bitRange val 3 then writeBitsFast b (push_bit 3 0b10 OR (uval AND 0x7)) 5
      else if bitRange val 6 then writeBitsFast b (push_bit 6 0b110 OR (uval AND 0x3F)) 9
      else if bitRange val 9 then writeBitsFast b (push_bit 9 0b1110 OR (uval AND 0x1FF)) 13
      else if bitRange val 12 then writeBitsFast b (push_bit 12 0b11110 OR (uval AND 0xFFF)) 17
      else if bitRange val 18 then writeBitsFast b (push_bit 18 0b111110 OR (uval AND 0x3FFFF)) 24
      else if bitRange val 25 then writeBitsFast b (push_bit 25 0b1111110 OR (uval AND 0x1FFFFFF)) 32
      else if bitRange val 56 then writeBitsFast b (push_bit 56 0b11111110 OR (uval AND 0xFFFFFFFFFFFFFF)) 64
      else writeBitsFast (writeBitsFast b 0b11111111 8) uval 64)"

text \<open>The switch on the prefix: the number of value bits that follow, 0 for the value 0 itself.\<close>

definition varbit_sz :: "byte \<Rightarrow> uint8 option" where
  "varbit_sz d =
     (if d = 0b0 then Some 0
      else if d = 0b10 then Some 3
      else if d = 0b110 then Some 6
      else if d = 0b1110 then Some 9
      else if d = 0b11110 then Some 12
      else if d = 0b111110 then Some 18
      else if d = 0b1111110 then Some 25
      else if d = 0b11111110 then Some 56
      else None)"

text \<open>\<open>if bits > (1 << (sz - 1)) \<lbrace> bits -= (1 << sz) \<rbrace>\<close>\<close>

definition sign_adjust :: "uint8 \<Rightarrow> uint64 \<Rightarrow> int64" where
  "sign_adjust sz bits =
     (if bits > push_bit (unat (sz - 1)) 1 then bits - push_bit (unat sz) 1 else bits)"

definition readVarbitInt :: "(bstreamReader, int64) stm" where
  "readVarbitInt =
     bindR (read_prefix (orElseR readBitFast readBit) 8 0) (\<lambda>d.
       if d = 0b11111111 then readBits 64
       else case varbit_sz d of
              None \<Rightarrow> errR (ErrInvalid ''invalid bit pattern'')
            | Some sz \<Rightarrow>
                if sz \<noteq> 0
                then bindR (orElseR (readBitsFast sz) (readBits sz)) (\<lambda>bits. returnR (sign_adjust sz bits))
                else returnR 0)"

definition putVarbitUint :: "bstream \<Rightarrow> uint64 \<Rightarrow> bstream" where
  "putVarbitUint b val =
     (if val = 0 then writeBit b False
      else if bitRangeUint val 3 then writeBits (writeBits b 0b10 2) val 3
      else if bitRangeUint val 6 then writeBits (writeBits b 0b110 3) val 6
      else if bitRangeUint val 9 then writeBits (writeBits b 0b1110 4) val 9
      else if bitRangeUint val 12 then writeBits (writeBits b 0b11110 5) val 12
      else if bitRangeUint val 18 then writeBits (writeBits b 0b111110 6) val 18
      else if bitRangeUint val 25 then writeBits (writeBits b 0b1111110 7) val 25
      else if bitRangeUint val 56 then writeBits (writeBits b 0b11111110 8) val 56
      else writeBits (writeBits b 0b11111111 8) val 64)"

definition readVarbitUint :: "(bstreamReader, uint64) stm" where
  "readVarbitUint =
     bindR (read_prefix (orElseR readBitFast readBit) 8 0) (\<lambda>d.
       if d = 0b11111111 then readBits 64
       else case varbit_sz d of
              None \<Rightarrow> errR (ErrInvalid ''invalid bit pattern'')
            | Some sz \<Rightarrow>
                if sz \<noteq> 0 then orElseR (readBitsFast sz) (readBits sz) else returnR 0)"

section \<open>Ranges\<close>

lemma sint_exp: "n < 63 \<Longrightarrow> sint (2 ^ n :: int64) = 2 ^ n"
proof -
  assume n: "n < 63"
  have "(2 :: int) ^ n < 2 ^ 63" using n by (intro power_strict_increasing) auto
  moreover have "0 < (2 :: int) ^ n" by simp
  ultimately have "sint (word_of_int (2 ^ n) :: int64) = 2 ^ n" by (intro sint_word_of_int_range) linarith+
  then show ?thesis by simp
qed

lemma sint_neg_exp: "n < 63 \<Longrightarrow> sint (- (2 ^ n - 1) :: int64) = - (2 ^ n - 1)"
proof -
  assume n: "n < 63"
  have "(2 :: int) ^ n < 2 ^ 63" using n by (intro power_strict_increasing) auto
  moreover have "0 < (2 :: int) ^ n" by simp
  ultimately have "sint (word_of_int (- (2 ^ n - 1)) :: int64) = - (2 ^ n - 1)" by (intro sint_word_of_int_range) linarith+
  then show ?thesis by simp
qed

lemma bitRange_sint:
  "0 < n \<Longrightarrow> n \<le> 63 \<Longrightarrow> bitRange x n \<longleftrightarrow> - (2 ^ (n - 1) - 1) \<le> sint x \<and> sint x \<le> 2 ^ (n - 1)"
  by (simp add: bitRange_def word_sle_eq push_bit_of_1 sint_exp sint_neg_exp del: minus_diff_eq)

lemma bitRangeUint_bits: "n \<le> 64 \<Longrightarrow> bitRangeUint x n \<longleftrightarrow> (\<forall>i\<ge>n. \<not> bit x i)"
  using LeadingZeros64_ge_iff [of n x] by (auto simp: bitRangeUint_def)

lemma sign_adjust_ok:
  assumes "unat sz = n" "0 < n" "n \<le> 56" "bitRange x n"
  shows "sign_adjust sz (take_bit n x) = x"
proof -
  let ?s = "sint x"
  have r: "- (2 ^ (n - 1) - 1) \<le> ?s" "?s \<le> 2 ^ (n - 1)" using assms bitRange_sint [of n x] by auto
  have n2: "(2::int) ^ n = 2 * 2 ^ (n - 1)" using assms(2) by (cases n) auto
  have p: "unat (sz - 1) = n - 1" using assms(1,2) by (metis unat_minus_one unat_0 neq0_conv)
  have u: "uint (take_bit n x) = ?s mod 2 ^ n"
  proof -
    have "uint (take_bit n x) = take_bit n (uint x)" by (rule unsigned_take_bit_eq)
    also have "\<dots> = take_bit n (take_bit 64 ?s)" by (simp only: uint_eq_sint)
    also have "\<dots> = ?s mod 2 ^ n" using assms(3) by (simp add: min_def flip: take_bit_eq_mod)
    finally show ?thesis .
  qed
  have e: "uint (2 ^ (n - 1) :: uint64) = 2 ^ (n - 1)"
    using assms(3) by (intro uint_exp) simp
  have gt: "take_bit n x > push_bit (n - 1) 1 \<longleftrightarrow> ?s mod 2 ^ n > 2 ^ (n - 1)"
    unfolding word_less_def push_bit_of_1 u e ..
  have w: "take_bit n x = word_of_int (?s mod 2 ^ n)" by (metis u word_of_int_uint)
  show ?thesis
  proof (cases "0 \<le> ?s")
    case True
    then have "?s mod 2 ^ n = ?s" using r n2 by (intro mod_pos_pos_trivial) auto
    then have "\<not> take_bit n x > push_bit (n - 1) 1" "take_bit n x = x" using r w gt by simp_all
    then show ?thesis by (simp only: sign_adjust_def p if_False)
  next
    case False
    then have m: "?s mod 2 ^ n = ?s + 2 ^ n" using r n2 by (intro neg_mod) auto
    then have "?s mod 2 ^ n > 2 ^ (n - 1)" using r n2 by simp
    then have "sign_adjust sz (take_bit n x) = take_bit n x - 2 ^ n"
      using assms(1) p gt by (simp add: sign_adjust_def push_bit_of_1)
    then show ?thesis unfolding w m by simp
  qed
qed

section \<open>The code of a value\<close>

text \<open>The number of one bits in the prefix and the number of value bits, per bucket.\<close>

definition bucket_bits :: "nat \<Rightarrow> nat \<Rightarrow> uint64 \<Rightarrow> bool list" where
  "bucket_bits k sz x = prefix_bits 8 k @ bits_msb sz x"

definition varbit_bits :: "(nat \<Rightarrow> bool) \<Rightarrow> uint64 \<Rightarrow> bool list" where
  "varbit_bits inr x =
     (if x = 0 then bucket_bits 0 0 x
      else if inr 3 then bucket_bits 1 3 x
      else if inr 6 then bucket_bits 2 6 x
      else if inr 9 then bucket_bits 3 9 x
      else if inr 12 then bucket_bits 4 12 x
      else if inr 18 then bucket_bits 5 18 x
      else if inr 25 then bucket_bits 6 25 x
      else if inr 56 then bucket_bits 7 56 x
      else bucket_bits 8 64 x)"

abbreviation varbitInt_bits :: "int64 \<Rightarrow> bool list" where
  "varbitInt_bits x \<equiv> varbit_bits (bitRange x) x"

abbreviation varbitUint_bits :: "uint64 \<Rightarrow> bool list" where
  "varbitUint_bits x \<equiv> varbit_bits (bitRangeUint x) x"

lemma prefix_numerals:
  "bits_msb 2 (0b10 :: uint64) = prefix_bits 8 1" "bits_msb 3 (0b110 :: uint64) = prefix_bits 8 2"
  "bits_msb 4 (0b1110 :: uint64) = prefix_bits 8 3" "bits_msb 5 (0b11110 :: uint64) = prefix_bits 8 4"
  "bits_msb 6 (0b111110 :: uint64) = prefix_bits 8 5" "bits_msb 7 (0b1111110 :: uint64) = prefix_bits 8 6"
  "bits_msb 8 (0b11111110 :: uint64) = prefix_bits 8 7" "bits_msb 8 (0b11111111 :: uint64) = prefix_bits 8 8"
  by (simp_all add: bits_msb_def prefix_bits_def upt_rec numeral_eq_Suc)

lemma writeBits_bucket:
  assumes "bs_rep b bits" "bits_msb n p = prefix_bits 8 k" "n \<le> 64" "sz \<le> 64"
  shows "bs_rep (writeBits (writeBits b p n) x sz) (bits @ bucket_bits k sz x)"
  using writeBits_rep [OF writeBits_rep [OF assms(1,3), of p] assms(4), of x] assms(2)
  by (simp add: bucket_bits_def)

lemma putVarbitInt_rep:
  assumes "bs_rep b bits"
  shows "bs_rep (putVarbitInt b x) (bits @ varbitInt_bits x)"
  unfolding putVarbitInt_def varbit_bits_def
  using writeBits_bucket [OF assms] prefix_numerals writeBit_rep [OF assms, of False]
  by (simp add: bucket_bits_def [of 0] prefix_bits_def [of 8 0])

lemma putVarbitUint_rep:
  assumes "bs_rep b bits"
  shows "bs_rep (putVarbitUint b x) (bits @ varbitUint_bits x)"
  unfolding putVarbitUint_def varbit_bits_def
  using writeBits_bucket [OF assms] prefix_numerals writeBit_rep [OF assms, of False]
  by (simp add: bucket_bits_def [of 0] prefix_bits_def [of 8 0])

lemma bits_msb_combine:
  "sz + n \<le> 64 \<Longrightarrow> bits_msb (sz + n) (push_bit sz p OR (x AND mask sz)) = bits_msb n p @ bits_msb sz (x :: uint64)"
  by (rule nth_equalityI) (auto simp: nth_bits_msb nth_append bit_simps algebra_simps)

lemma writeBitsFast_bucket:
  assumes "bs_rep b bits" "bits_msb n p = prefix_bits 8 k" "sz + n \<le> 64"
  shows "bs_rep (writeBitsFast b (push_bit sz p OR (x AND mask sz)) (sz + n)) (bits @ bucket_bits k sz x)"
  using writeBitsFast_rep [OF assms(1,3), of "push_bit sz p OR (x AND mask sz)"] assms(2,3)
  by (simp add: bucket_bits_def bits_msb_combine)

lemma putVarbitIntFast_rep:
  assumes "bs_rep b bits"
  shows "bs_rep (putVarbitIntFast b x) (bits @ varbitInt_bits x)"
  unfolding putVarbitIntFast_def varbit_bits_def Let_def
  using writeBitsFast_bucket [OF assms prefix_numerals(1), of 3 x]
    writeBitsFast_bucket [OF assms prefix_numerals(2), of 6 x]
    writeBitsFast_bucket [OF assms prefix_numerals(3), of 9 x]
    writeBitsFast_bucket [OF assms prefix_numerals(4), of 12 x]
    writeBitsFast_bucket [OF assms prefix_numerals(5), of 18 x]
    writeBitsFast_bucket [OF assms prefix_numerals(6), of 25 x]
    writeBitsFast_bucket [OF assms prefix_numerals(7), of 56 x]
    writeBitsFast_rep [OF writeBitsFast_rep [OF assms, of 8 "0b11111111"], of 64 x] prefix_numerals(8)
    writeBit_rep [OF assms, of False]
  by (simp add: bucket_bits_def [of 0] bucket_bits_def [of 8] prefix_bits_def [of 8 0] mask_eq_exp_minus_1)

section \<open>Decoding\<close>

lemma prefix_code_numerals:
  "prefix_code 8 0 = 0b0" "prefix_code 8 1 = 0b10" "prefix_code 8 2 = 0b110" "prefix_code 8 3 = 0b1110"
  "prefix_code 8 4 = 0b11110" "prefix_code 8 5 = 0b111110" "prefix_code 8 6 = 0b1111110"
  "prefix_code 8 7 = 0b11111110" "prefix_code 8 8 = 0b11111111"
  by (simp_all add: prefix_code_def mask_eq_exp_minus_1)

text \<open>
  A reader that dispatches on the prefix decodes a bucket when the continuation chosen for the
  prefix decodes the value bits.
\<close>

lemma bucket_decodes:
  assumes "k \<le> 8" "decodes br_ok br_bits (f (prefix_code 8 k)) (bits_msb sz x) x"
  shows "decodes br_ok br_bits (bindR (read_prefix (orElseR readBitFast readBit) 8 0) f) (bucket_bits k sz x) x"
  unfolding bucket_bits_def
  by (rule decodes_bind [where x = "prefix_code 8 k"]) (rule br.read_prefix_code [OF assms(1)] assms(2))+

lemma varbit_sz_prefix:
  "varbit_sz (prefix_code 8 0) = Some 0" "varbit_sz (prefix_code 8 1) = Some 3"
  "varbit_sz (prefix_code 8 2) = Some 6" "varbit_sz (prefix_code 8 3) = Some 9"
  "varbit_sz (prefix_code 8 4) = Some 12" "varbit_sz (prefix_code 8 5) = Some 18"
  "varbit_sz (prefix_code 8 6) = Some 25" "varbit_sz (prefix_code 8 7) = Some 56"
  unfolding prefix_code_numerals by (simp_all add: varbit_sz_def)

lemma prefix_code_last: "k < 8 \<Longrightarrow> prefix_code 8 k \<noteq> 0b11111111"
proof -
  assume "k < 8"
  then have "\<not> bit (prefix_code 8 k) 0" by (simp add: prefix_code_def bit_mult_2)
  moreover have "bit (0b11111111 :: byte) 0" by simp
  ultimately show ?thesis by metis
qed

lemma signed_bits_decodes:
  assumes "unat sz = n" "0 < n" "n \<le> 56" "bitRange x n"
  shows "decodes br_ok br_bits (bindR (orElseR (readBitsFast sz) (readBits sz)) (\<lambda>bits. returnR (sign_adjust sz bits)))
    (bits_msb n x) x"
proof -
  have sz: "0 < sz" "sz \<le> 64" using assms by (auto simp: word_less_nat_alt word_le_nat_alt)
  have "decodes br_ok br_bits (bindR (orElseR (readBitsFast sz) (readBits sz)) (\<lambda>bits. returnR (sign_adjust sz bits)))
      (bits_msb n x @ []) x"
    by (rule decodes_bind [OF br.rdBits_fallback [OF sz]])
      (use assms in \<open>simp_all add: of_bits_bits_msb sign_adjust_ok\<close>)
  then show ?thesis by simp
qed

lemma raw_bits_decodes: "decodes br_ok br_bits (readBits 64) (bits_msb 64 x) x"
  using br.rdBits [of 64 "bits_msb 64 x"] by simp

lemma readVarbitInt_bucket:
  assumes "k < 8" "varbit_sz (prefix_code 8 k) = Some sz" "unat sz = n" "0 < n" "n \<le> 56" "bitRange x n"
  shows "decodes br_ok br_bits readVarbitInt (bucket_bits k n x) x"
proof -
  have "sz \<noteq> 0" using assms(3,4) by auto
  then show ?thesis
    unfolding readVarbitInt_def using assms signed_bits_decodes [OF assms(3-6)]
    by (intro bucket_decodes) (simp_all add: prefix_code_last)
qed

lemma readVarbitInt_extremes:
  "decodes br_ok br_bits readVarbitInt (bucket_bits 0 0 0) 0"
  "decodes br_ok br_bits readVarbitInt (bucket_bits 8 64 x) x"
  unfolding readVarbitInt_def
  by (rule bucket_decodes, simp, simp add: prefix_code_last varbit_sz_prefix)
    (rule bucket_decodes, simp, simp add: prefix_code_numerals raw_bits_decodes)

lemma readVarbitInt_decodes: "decodes br_ok br_bits readVarbitInt (varbitInt_bits x) x"
  using readVarbitInt_extremes(1) readVarbitInt_extremes(2) [of x] readVarbitInt_bucket [OF _ varbit_sz_prefix(2), of 3 x]
    readVarbitInt_bucket [OF _ varbit_sz_prefix(3), of 6 x] readVarbitInt_bucket [OF _ varbit_sz_prefix(4), of 9 x]
    readVarbitInt_bucket [OF _ varbit_sz_prefix(5), of 12 x] readVarbitInt_bucket [OF _ varbit_sz_prefix(6), of 18 x]
    readVarbitInt_bucket [OF _ varbit_sz_prefix(7), of 25 x] readVarbitInt_bucket [OF _ varbit_sz_prefix(8), of 56 x]
  by (simp add: varbit_bits_def)

lemma unsigned_bits_decodes:
  assumes "unat sz = n" "0 < n" "n \<le> 64" "bitRangeUint x n"
  shows "decodes br_ok br_bits (orElseR (readBitsFast sz) (readBits sz)) (bits_msb n x) x"
proof -
  have sz: "0 < sz" "sz \<le> 64" using assms by (auto simp: word_less_nat_alt word_le_nat_alt)
  have "take_bit n x = x"
    using assms bitRangeUint_bits [of n x] by (auto intro!: bit_word_eqI simp: bit_take_bit_iff not_le)
  then show ?thesis
    using br.rdBits_fallback [OF sz, of "bits_msb n x"] assms(1) by (simp add: of_bits_bits_msb)
qed

lemma readVarbitUint_bucket:
  assumes "k < 8" "varbit_sz (prefix_code 8 k) = Some sz" "unat sz = n" "0 < n" "n \<le> 64" "bitRangeUint x n"
  shows "decodes br_ok br_bits readVarbitUint (bucket_bits k n x) x"
proof -
  have "sz \<noteq> 0" using assms(3,4) by auto
  then show ?thesis
    unfolding readVarbitUint_def using assms unsigned_bits_decodes [OF assms(3-6)]
    by (intro bucket_decodes) (simp_all add: prefix_code_last)
qed

lemma readVarbitUint_extremes:
  "decodes br_ok br_bits readVarbitUint (bucket_bits 0 0 0) 0"
  "decodes br_ok br_bits readVarbitUint (bucket_bits 8 64 x) x"
  unfolding readVarbitUint_def
  by (rule bucket_decodes, simp, simp add: prefix_code_last varbit_sz_prefix)
    (rule bucket_decodes, simp, simp add: prefix_code_numerals raw_bits_decodes)

lemma readVarbitUint_decodes: "decodes br_ok br_bits readVarbitUint (varbitUint_bits x) x"
  using readVarbitUint_extremes(1) readVarbitUint_extremes(2) [of x] readVarbitUint_bucket [OF _ varbit_sz_prefix(2), of 3 x]
    readVarbitUint_bucket [OF _ varbit_sz_prefix(3), of 6 x] readVarbitUint_bucket [OF _ varbit_sz_prefix(4), of 9 x]
    readVarbitUint_bucket [OF _ varbit_sz_prefix(5), of 12 x] readVarbitUint_bucket [OF _ varbit_sz_prefix(6), of 18 x]
    readVarbitUint_bucket [OF _ varbit_sz_prefix(7), of 25 x] readVarbitUint_bucket [OF _ varbit_sz_prefix(8), of 56 x]
  by (simp add: varbit_bits_def)

end
