(* ===== verification/XorChunk.thy ===== *)
theory XorChunk
  imports Varbit
begin

text \<open>
  The XOR (Gorilla) float chunk of \<open>tsdb/chunkenc/xor.go\<close>: the chunk, its appender and its
  iterator, with the iterator's fast paths. The appender of a chunk shares the chunk's bit stream
  through a pointer, so the model's appender carries the stream and the chunk is what the stream
  holds. The AppendHistogram, AppendFloatHistogram, AtHistogram and AtFloatHistogram methods of the
  float chunk only panic and are not part of the model.
\<close>

section \<open>Chunk constants of chunk.go\<close>

datatype ValueType = ValNone | ValFloat | ValHistogram | ValFloatHistogram

datatype Encoding = EncNone | EncXOR | EncHistogram | EncFloatHistogram | EncXOR2 | EncHistogramST | EncFloatHistogramST

definition MaxBytesPerXORChunk :: nat where "MaxBytesPerXORChunk = 1024"

definition MaxBytesPerXORChunkBeforeAppend :: nat where
  "MaxBytesPerXORChunkBeforeAppend = MaxBytesPerXORChunk - 19"

fun ChunkEncoding :: "ValueType \<Rightarrow> bool \<Rightarrow> bool \<Rightarrow> Encoding" where
  "ChunkEncoding ValFloat useXOR2 useHistogramST = (if useXOR2 then EncXOR2 else EncXOR)"
| "ChunkEncoding ValHistogram useXOR2 useHistogramST = (if useHistogramST then EncHistogramST else EncHistogram)"
| "ChunkEncoding ValFloatHistogram useXOR2 useHistogramST =
     (if useHistogramST then EncFloatHistogramST else EncFloatHistogram)"
| "ChunkEncoding ValNone useXOR2 useHistogramST = EncNone"

definition isFloatXOREncoding :: "Encoding \<Rightarrow> bool" where
  "isFloatXOREncoding e \<longleftrightarrow> e = EncXOR \<or> e = EncXOR2"

definition CompatibleValues :: "Encoding \<Rightarrow> Encoding \<Rightarrow> bool" where
  "CompatibleValues a b \<longleftrightarrow> isFloatXOREncoding a \<and> isFloatXOREncoding b"

section \<open>The chunk and its appender\<close>

definition chunkHeaderSize :: nat where "chunkHeaderSize = 2"

record XORChunk =
  xc_b :: bstream

definition NewXORChunk :: XORChunk where
  "NewXORChunk = \<lparr>xc_b = \<lparr>bs_stream = replicate chunkHeaderSize 0, bs_count = 0\<rparr>\<rparr>"

definition XORChunk_Reset :: "XORChunk \<Rightarrow> byte list \<Rightarrow> XORChunk" where
  "XORChunk_Reset c s = c\<lparr>xc_b := bs_Reset (xc_b c) s\<rparr>"

definition XORChunk_Bytes :: "XORChunk \<Rightarrow> byte list" where
  "XORChunk_Bytes c = bs_bytes (xc_b c)"

definition XORChunk_NumSamples :: "XORChunk \<Rightarrow> nat option" where
  "XORChunk_NumSamples c = map_option unat (Uint16 (XORChunk_Bytes c))"

record xorAppender =
  xa_b :: bstream
  xa_t :: int64
  xa_v :: float64
  xa_tDelta :: uint64
  xa_leading :: uint8
  xa_trailing :: uint8

definition xorWrite ::
  "bstream \<Rightarrow> float64 \<Rightarrow> float64 \<Rightarrow> uint8 \<Rightarrow> uint8 \<Rightarrow> bstream \<times> uint8 \<times> uint8" where
  "xorWrite b newValue currentValue leading trailing =
     (let delta = newValue XOR currentValue in
      if delta = 0 then (writeBit b False, leading, trailing)
      else let b1 = writeBit b True;
               lz = of_nat (LeadingZeros64 delta) :: uint8;
               newTrailing = of_nat (TrailingZeros64 delta) :: uint8;
               newLeading = (if lz \<ge> 32 then 31 else lz)
           in if leading \<noteq> 0xff \<and> newLeading \<ge> leading \<and> newTrailing \<ge> trailing
              then (writeBits (writeBit b1 False) (drop_bit (unat trailing) delta)
                      (64 - unat leading - unat trailing), leading, trailing)
              else let b2 = writeBit b1 True;
                       b3 = writeBits b2 (ucast newLeading) 5;
                       sigbits = 64 - newLeading - newTrailing;
                       b4 = writeBits b3 (ucast sigbits) 6;
                       b5 = writeBits b4 (drop_bit (unat newTrailing) delta) (unat sigbits)
                   in (b5, newLeading, newTrailing))"

definition writeVDelta :: "xorAppender \<Rightarrow> float64 \<Rightarrow> xorAppender" where
  "writeVDelta a v =
     (case xorWrite (xa_b a) v (xa_v a) (xa_leading a) (xa_trailing a) of
        (b, l, tr) \<Rightarrow> a\<lparr>xa_b := b, xa_leading := l, xa_trailing := tr\<rparr>)"

definition writeBytes :: "bstream \<Rightarrow> byte list \<Rightarrow> bstream" where
  "writeBytes b buf = foldl writeByte b buf"

definition writeDod :: "bstream \<Rightarrow> int64 \<Rightarrow> bstream" where
  "writeDod b dod =
     (if dod = 0 then writeBit b False
      else if bitRange dod 14
      then writeByte (writeByte b (push_bit 6 0b10 OR (ucast (signed_drop_bit 8 dod) AND 0x3f))) (ucast dod)
      else if bitRange dod 17 then writeBits (writeBits b 0b110 3) dod 17
      else if bitRange dod 20 then writeBits (writeBits b 0b1110 4) dod 20
      else writeBits (writeBits b 0b1111 4) dod 64)"

text \<open>\<open>binary.BigEndian.PutUint16\<close> on the first two bytes of the stream.\<close>

definition put_header :: "bstream \<Rightarrow> uint16 \<Rightarrow> bstream" where
  "put_header b n = b\<lparr>bs_stream := PutUint16 n @ drop 2 (bs_stream b)\<rparr>"

text \<open>\<open>None\<close> is the panic: chunk capacity exceeded, or a stream without a header.\<close>

definition xorAppender_Append :: "xorAppender \<Rightarrow> int64 \<Rightarrow> float64 \<Rightarrow> xorAppender option" where
  "xorAppender_Append a t v =
     (case Uint16 (bs_bytes (xa_b a)) of
        None \<Rightarrow> None
      | Some num \<Rightarrow>
          let finish = (\<lambda>a' tDelta.
                Some (a'\<lparr>xa_t := t, xa_v := v, xa_b := put_header (xa_b a') (num + 1), xa_tDelta := tDelta\<rparr>))
          in if num = 0
             then finish (a\<lparr>xa_b := writeBits (writeBytes (xa_b a) (PutVarint t)) v 64\<rparr>) 0
             else if num = 1
             then let tDelta = t - xa_t a
                  in finish (writeVDelta (a\<lparr>xa_b := writeBytes (xa_b a) (PutUvarint tDelta)\<rparr>) v) tDelta
             else if num = 0xffff then None
             else let tDelta = t - xa_t a;
                      dod = tDelta - xa_tDelta a
                  in finish (writeVDelta (a\<lparr>xa_b := writeDod (xa_b a) dod\<rparr>) v) tDelta)"

section \<open>The iterator\<close>

record xorIterator =
  xi_br :: bstreamReader
  xi_numTotal :: uint16
  xi_numRead :: uint16
  xi_t :: int64
  xi_val :: float64
  xi_leading :: uint8
  xi_trailing :: uint8
  xi_tDelta :: uint64
  xi_err :: "go_error option"

text \<open>
  The new value, leading and trailing counts. After an error the iterator stops, so the counts
  that the code may have updated before the error are not part of the result then.
\<close>

definition xorRead :: "float64 \<Rightarrow> uint8 \<Rightarrow> uint8 \<Rightarrow> (bstreamReader, float64 \<times> uint8 \<times> uint8) stm" where
  "xorRead val leading trailing =
     bindR (orElseR readBitFast readBit) (\<lambda>bit0.
       if \<not> bit0 then returnR (val, leading, trailing)
       else bindR (orElseR readBitFast readBit) (\<lambda>bit1.
         if \<not> bit1
         then let mbits = 64 - leading - trailing in
              bindR (orElseR (readBitsFast mbits) (readBits mbits)) (\<lambda>bits.
                returnR (val XOR push_bit (unat trailing) bits, leading, trailing))
         else bindR (orElseR (readBitsFast 5) (readBits 5)) (\<lambda>lbits.
              bindR (orElseR (readBitsFast 6) (readBits 6)) (\<lambda>mb.
                let newLeading = ucast lbits :: uint8;
                    mbits = (if (ucast mb :: uint8) = 0 then 64 else ucast mb);
                    newTrailing = 64 - newLeading - mbits
                in bindR (orElseR (readBitsFast mbits) (readBits mbits)) (\<lambda>bits.
                     returnR (val XOR push_bit (unat newTrailing) bits, newLeading, newTrailing))))))"

definition xi_fail :: "xorIterator \<Rightarrow> go_error \<Rightarrow> bstreamReader \<Rightarrow> ValueType \<times> xorIterator" where
  "xi_fail it e br = (ValNone, it\<lparr>xi_br := br, xi_err := Some e\<rparr>)"

definition readValue_slow :: "xorIterator \<Rightarrow> ValueType \<times> xorIterator" where
  "readValue_slow it =
     (case xorRead (xi_val it) (xi_leading it) (xi_trailing it) (xi_br it) of
        (Inl e, br) \<Rightarrow> xi_fail it e br
      | (Inr (v, l, tr), br) \<Rightarrow>
          (ValFloat, it\<lparr>xi_br := br, xi_val := v, xi_leading := l, xi_trailing := tr,
             xi_numRead := xi_numRead it + 1\<rparr>))"

text \<open>\<open>(buffer >> (valid - k)) & 1 == 0\<close>: the k-th unread bit of the buffer is zero.\<close>

definition peek_zero :: "bstreamReader \<Rightarrow> uint8 \<Rightarrow> bool" where
  "peek_zero br k \<longleftrightarrow> drop_bit (unat (br_valid br - k)) (br_buffer br) AND 1 = 0"

definition skip_bits :: "uint8 \<Rightarrow> xorIterator \<Rightarrow> xorIterator" where
  "skip_bits k it = it\<lparr>xi_br := (xi_br it)\<lparr>br_valid := br_valid (xi_br it) - k\<rparr>\<rparr>"

definition readValue :: "xorIterator \<Rightarrow> ValueType \<times> xorIterator" where
  "readValue it =
     (let br = xi_br it;
          mbits = 64 - xi_leading it - xi_trailing it
      in if br_valid br \<ge> 1 \<and> peek_zero br 1
         then (ValFloat, (skip_bits 1 it)\<lparr>xi_numRead := xi_numRead it + 1\<rparr>)
         else if br_valid br \<ge> 1 \<and> xi_leading it \<noteq> 0xff \<and> br_valid br \<ge> 2 + mbits \<and> peek_zero br 2
         then let it1 = skip_bits 2 it;
                  dataMask = push_bit (unat mbits) 1 - 1;
                  bits = drop_bit (unat (br_valid (xi_br it1) - mbits)) (br_buffer br) AND dataMask
              in (ValFloat, (skip_bits mbits it1)\<lparr>xi_val := xi_val it XOR push_bit (unat (xi_trailing it)) bits,
                    xi_numRead := xi_numRead it + 1\<rparr>)
         else readValue_slow it)"

text \<open>The delta-of-delta of a timestamp: the prefix loop, the switch and the sign adjustment.\<close>

definition dod_sz :: "byte \<Rightarrow> uint8" where
  "dod_sz d = (if d = 0b10 then 14 else if d = 0b110 then 17 else if d = 0b1110 then 20 else 0)"

definition readDod :: "(bstreamReader, int64) stm" where
  "readDod =
     bindR (read_prefix (orElseR readBitFast readBit) 4 0) (\<lambda>d.
       if d = 0b1111 then readBits 64
       else let sz = dod_sz d in
            if sz \<noteq> 0
            then bindR (orElseR (readBitsFast sz) (readBits sz)) (\<lambda>bits. returnR (sign_adjust sz bits))
            else returnR 0)"

definition Next_dod :: "xorIterator \<Rightarrow> ValueType \<times> xorIterator" where
  "Next_dod it =
     (case readDod (xi_br it) of
        (Inl e, br) \<Rightarrow> xi_fail it e br
      | (Inr dod, br) \<Rightarrow>
          let tDelta = xi_tDelta it + dod
          in readValue (it\<lparr>xi_br := br, xi_tDelta := tDelta, xi_t := xi_t it + tDelta\<rparr>))"

definition xorIterator_Next :: "xorIterator \<Rightarrow> ValueType \<times> xorIterator" where
  "xorIterator_Next it =
     (if xi_err it \<noteq> None \<or> xi_numRead it = xi_numTotal it then (ValNone, it)
      else if xi_numRead it = 0
      then case ReadVarint br_ReadByte (xi_br it) of
             (Inl e, br) \<Rightarrow> xi_fail it e br
           | (Inr t, br) \<Rightarrow>
               (case readBits 64 br of
                  (Inl e, br') \<Rightarrow> xi_fail it e br'
                | (Inr v, br') \<Rightarrow>
                    (ValFloat, it\<lparr>xi_br := br', xi_t := t, xi_val := v, xi_numRead := xi_numRead it + 1\<rparr>))
      else if xi_numRead it = 1
      then case ReadUvarint br_ReadByte (xi_br it) of
             (Inl e, br) \<Rightarrow> xi_fail it e br
           | (Inr tDelta, br) \<Rightarrow>
               readValue (it\<lparr>xi_br := br, xi_tDelta := tDelta, xi_t := xi_t it + tDelta\<rparr>)
      else if br_valid (xi_br it) \<ge> 1 \<and> peek_zero (xi_br it) 1
      then let it1 = (skip_bits 1 it)\<lparr>xi_t := xi_t it + xi_tDelta it\<rparr>
           in if br_valid (xi_br it1) \<ge> 1 \<and> peek_zero (xi_br it1) 1
              then (ValFloat, (skip_bits 1 it1)\<lparr>xi_numRead := xi_numRead it1 + 1\<rparr>)
              else readValue it1
      else Next_dod it)"

text \<open>A fresh iterator of a chunk; \<open>None\<close> is the slice panic on a stream shorter than the header.\<close>

definition XORChunk_iterator :: "XORChunk \<Rightarrow> xorIterator option" where
  "XORChunk_iterator c =
     (case Uint16 (XORChunk_Bytes c) of
        None \<Rightarrow> None
      | Some n \<Rightarrow> Some \<lparr>xi_br = newBReader (drop chunkHeaderSize (XORChunk_Bytes c)), xi_numTotal = n, xi_numRead = 0,
          xi_t = MinInt64, xi_val = 0, xi_leading = 0, xi_trailing = 0, xi_tDelta = 0, xi_err = None\<rparr>)"

definition xorIterator_Reset :: "xorIterator \<Rightarrow> byte list \<Rightarrow> xorIterator option" where
  "xorIterator_Reset it b =
     (case Uint16 b of
        None \<Rightarrow> None
      | Some n \<Rightarrow> Some (it\<lparr>xi_br := newBReader (drop chunkHeaderSize b), xi_numTotal := n, xi_numRead := 0,
          xi_t := 0, xi_val := 0, xi_leading := 0, xi_trailing := 0, xi_tDelta := 0, xi_err := None\<rparr>))"

definition xorIterator_At :: "xorIterator \<Rightarrow> int64 \<times> float64" where
  "xorIterator_At it = (xi_t it, xi_val it)"

definition xorIterator_Err :: "xorIterator \<Rightarrow> go_error option" where
  "xorIterator_Err it = xi_err it"

text \<open>A successful step counts one sample and keeps the total; this is what makes the loops below end.\<close>

lemma readValue_frame:
  "readValue it = (vt, it') \<Longrightarrow> xi_numTotal it' = xi_numTotal it \<and>
    (vt \<noteq> ValNone \<longrightarrow> vt = ValFloat \<and> xi_numRead it' = xi_numRead it + 1 \<and> xi_err it' = xi_err it)"
  by (auto simp: readValue_def readValue_slow_def xi_fail_def skip_bits_def Let_def
      split: if_splits prod.splits sum.splits)

lemma Next_frame:
  assumes "xorIterator_Next it = (vt, it')"
  shows "xi_numTotal it' = xi_numTotal it" "vt \<noteq> ValNone \<Longrightarrow> vt = ValFloat"
    "vt \<noteq> ValNone \<Longrightarrow> xi_numRead it' = xi_numRead it + 1" "vt \<noteq> ValNone \<Longrightarrow> xi_numRead it \<noteq> xi_numTotal it"
  using assms
  by (auto simp: xorIterator_Next_def Next_dod_def xi_fail_def skip_bits_def Let_def
      split: if_splits prod.splits sum.splits dest!: readValue_frame)

lemma count_down:
  fixes m n :: uint16
  assumes "m \<noteq> n"
  shows "unat (n - (m + 1)) < unat (n - m)"
proof -
  have e: "n - (m + 1) = (n - m) - 1" and nz: "n - m \<noteq> 0" using assms by (simp_all add: algebra_simps)
  then have "0 < unat (n - m)" by (simp only: unat_gt_0) simp
  then show ?thesis unfolding e unat_minus_one [OF nz] by simp
qed

lemma Next_measure:
  "(vt, it') = xorIterator_Next it \<Longrightarrow> vt \<noteq> ValNone \<Longrightarrow>
    unat (xi_numTotal it' - xi_numRead it') < unat (xi_numTotal it - xi_numRead it)"
  using Next_frame [of it vt it'] count_down [of "xi_numRead it" "xi_numTotal it"] by simp

text \<open>Reading to the end: the samples seen and the exhausted iterator.\<close>

function xorIterator_drain :: "xorIterator \<Rightarrow> (int64 \<times> float64) list \<times> xorIterator" where
  "xorIterator_drain it =
     (case xorIterator_Next it of (vt, it') \<Rightarrow>
        if vt = ValNone then ([], it')
        else case xorIterator_drain it' of (xs, it'') \<Rightarrow> (xorIterator_At it' # xs, it''))"
  by pat_completeness auto
termination
  by (relation "measure (\<lambda>it. unat (xi_numTotal it - xi_numRead it))")
    (auto dest: Next_measure)

declare xorIterator_drain.simps [simp del]

text \<open>\<open>Seek\<close>: advance until the timestamp is reached.\<close>

function xorIterator_Seek_loop :: "xorIterator \<Rightarrow> int64 \<Rightarrow> ValueType \<times> xorIterator" where
  "xorIterator_Seek_loop it t =
     (if xi_t it <s t \<or> xi_numRead it = 0
      then case xorIterator_Next it of (vt, it') \<Rightarrow>
             if vt = ValNone then (ValNone, it') else xorIterator_Seek_loop it' t
      else (ValFloat, it))"
  by pat_completeness auto
termination
  by (relation "measure (\<lambda>(it, t). unat (xi_numTotal it - xi_numRead it))")
    (auto dest: Next_measure)

declare xorIterator_Seek_loop.simps [simp del]

definition xorIterator_Seek :: "xorIterator \<Rightarrow> int64 \<Rightarrow> ValueType \<times> xorIterator" where
  "xorIterator_Seek it t = (if xi_err it \<noteq> None then (ValNone, it) else xorIterator_Seek_loop it t)"

text \<open>\<open>Appender\<close>: for a chunk with samples, the appender takes over the state of the drained iterator.\<close>

definition XORChunk_Appender :: "XORChunk \<Rightarrow> (go_error + xorAppender) option" where
  "XORChunk_Appender c =
     (if length (bs_stream (xc_b c)) = chunkHeaderSize
      then Some (Inr \<lparr>xa_b = xc_b c, xa_t = MinInt64, xa_v = 0, xa_tDelta = 0, xa_leading = 0xff, xa_trailing = 0\<rparr>)
      else case XORChunk_iterator c of
             None \<Rightarrow> None
           | Some it0 \<Rightarrow>
               let it = snd (xorIterator_drain it0) in
               (case xorIterator_Err it of
                  Some e \<Rightarrow> Some (Inl e)
                | None \<Rightarrow> Some (Inr \<lparr>xa_b = xc_b c, xa_t = xi_t it, xa_v = xi_val it, xa_tDelta = xi_tDelta it,
                    xa_leading = xi_leading it, xa_trailing = xi_trailing it\<rparr>)))"

fun append_all :: "xorAppender \<Rightarrow> (int64 \<times> float64) list \<Rightarrow> xorAppender option" where
  "append_all a [] = Some a"
| "append_all a ((t, v) # xs) =
     (case xorAppender_Append a t v of None \<Rightarrow> None | Some a' \<Rightarrow> append_all a' xs)"

end
