(* ===== verification/XorChunkCorrect.thy ===== *)
theory XorChunkCorrect
  imports XorChunk
begin

text \<open>
  Correctness of the XOR chunk: the iterator's fast paths agree with the plain decoding of the
  value and timestamp (\<open>readValue_slow\<close>, \<open>Next_dod\<close>), every appended sample is decoded by the next
  step of an iterator that mirrors the appender, so a chunk returns exactly the samples appended
  to it, also after the appender was reopened in between, and an append grows the chunk by a
  bounded number of bytes.
\<close>

section \<open>The fast paths\<close>

definition mbits_ok :: "uint8 \<Rightarrow> uint8 \<Rightarrow> bool" where
  "mbits_ok l tr \<longleftrightarrow> 0 < 64 - l - tr \<and> 64 - l - tr \<le> 64"

lemma and_1_eq_0: "(x :: uint64) AND 1 = 0 \<longleftrightarrow> \<not> bit x 0"
  using and_1_neq_0 by blast

lemma readBitFast_peek:
  assumes "1 \<le> br_valid br"
  shows "readBitFast br = (Inr (\<not> peek_zero br 1), br\<lparr>br_valid := br_valid br - 1\<rparr>)"
proof -
  have "br_valid br \<noteq> 0" using assms by auto
  then show ?thesis
    by (simp add: readBitFast_def Let_def peek_zero_def and_1_eq_0 bit_drop_bit_eq push_bit_of_1
        and_exp_eq_0_iff_not_bit)
qed

lemma peek_zero_2: "peek_zero (br\<lparr>br_valid := br_valid br - 1\<rparr>) 1 = peek_zero br 2"
  by (simp add: peek_zero_def)

lemma readValue_eq_slow:
  assumes "br_valid (xi_br it) \<le> 64" "mbits_ok (xi_leading it) (xi_trailing it)"
  shows "readValue it = readValue_slow it"
proof -
  define br where "br = xi_br it"
  define mbits where "mbits = 64 - xi_leading it - xi_trailing it"
  have mb: "0 < mbits" "mbits \<le> 64" using assms(2) by (simp_all add: mbits_ok_def mbits_def)
  consider (same) "1 \<le> br_valid br" "peek_zero br 1"
    | (reuse) "1 \<le> br_valid br" "\<not> peek_zero br 1" "xi_leading it \<noteq> 0xff" "br_valid br \<ge> 2 + mbits" "peek_zero br 2"
    | (other) "\<not> (1 \<le> br_valid br \<and> peek_zero br 1)"
        "\<not> (1 \<le> br_valid br \<and> xi_leading it \<noteq> 0xff \<and> br_valid br \<ge> 2 + mbits \<and> peek_zero br 2)"
    by blast
  then show ?thesis
  proof cases
    case same
    then show ?thesis
      using readBitFast_peek [OF same(1)]
      by (simp add: readValue_def readValue_slow_def xorRead_def bindR_def orElseR_def skip_bits_def Let_def flip: br_def)
  next
    case reuse
    have v: "unat (2 + mbits) = 2 + unat mbits"
      using mb by (simp add: unat_word_ariths word_le_nat_alt)
    have v2: "2 \<le> br_valid br" "mbits \<le> br_valid br - 2"
      using reuse(4) v by (simp_all add: word_le_nat_alt unat_sub)
    then have v1: "1 \<le> br_valid br - 1" by (simp add: word_le_nat_alt unat_sub)
    let ?br1 = "br\<lparr>br_valid := br_valid br - 1\<rparr>" and ?br2 = "br\<lparr>br_valid := br_valid br - 2\<rparr>"
    have r1: "readBitFast br = (Inr True, ?br1)" using readBitFast_peek [OF reuse(1)] reuse(2) by simp
    have r2: "readBitFast ?br1 = (Inr False, ?br2)"
      using readBitFast_peek [of ?br1] v1 reuse(5) peek_zero_2 [of br] by simp
    have "xorRead (xi_val it) (xi_leading it) (xi_trailing it) br =
        (Inr (xi_val it XOR push_bit (unat (xi_trailing it))
          (drop_bit (unat (br_valid br - 2 - mbits)) (br_buffer br) AND (push_bit (unat mbits) 1 - 1)),
          xi_leading it, xi_trailing it), br\<lparr>br_valid := br_valid br - 2 - mbits\<rparr>)"
      using r1 r2 readBitsFast_le [of mbits ?br2] v2(2)
      by (simp add: xorRead_def bindR_def orElseR_def Let_def flip: mbits_def)
    moreover have "\<not> (1 \<le> br_valid br \<and> peek_zero br 1)" using reuse by simp
    ultimately show ?thesis using reuse
      by (simp add: readValue_def readValue_slow_def skip_bits_def Let_def flip: br_def mbits_def)
  next
    case other
    then show ?thesis
      unfolding readValue_def Let_def br_def mbits_def by auto
  qed
qed

lemma read_prefix_zero:
  "rd s = (Inr False, s') \<Longrightarrow> 0 < n \<Longrightarrow> read_prefix rd n d s = (Inr (push_bit 1 d), s')"
  by (cases n) (simp_all add: bindR_def)

lemma Next_eq_slow:
  assumes "br_valid (xi_br it) \<le> 64" "mbits_ok (xi_leading it) (xi_trailing it)"
    and "xi_err it = None" "xi_numRead it \<noteq> xi_numTotal it" "xi_numRead it \<noteq> 0" "xi_numRead it \<noteq> 1"
  shows "xorIterator_Next it = Next_dod it"
proof (cases "1 \<le> br_valid (xi_br it) \<and> peek_zero (xi_br it) 1")
  case False
  with assms show ?thesis by (auto simp: xorIterator_Next_def)
next
  case True
  let ?it1 = "(skip_bits 1 it)\<lparr>xi_t := xi_t it + xi_tDelta it\<rparr>"
  have "xorIterator_Next it = readValue ?it1"
    using assms True by (simp add: xorIterator_Next_def readValue_def Let_def)
  moreover have "orElseR readBitFast readBit (xi_br it) = (Inr False, xi_br ?it1)"
    using readBitFast_peek [of "xi_br it"] True by (simp add: orElseR_def skip_bits_def)
  then have "readDod (xi_br it) = (Inr 0, xi_br ?it1)"
    using read_prefix_zero [of "orElseR readBitFast readBit" _ _ 4 0]
    by (simp add: readDod_def dod_sz_def bindR_def)
  then have "Next_dod it = readValue ?it1"
    by (simp add: Next_dod_def skip_bits_def)
  ultimately show ?thesis by simp
qed

section \<open>One value\<close>

lemma xorRead_same: "decodes br_ok br_bits (xorRead v l tr) [False] (v, l, tr)"
proof -
  have "decodes br_ok br_bits (xorRead v l tr) ([False] @ []) (v, l, tr)"
    unfolding xorRead_def by (rule decodes_bind [OF br.rdBit_fallback]) simp
  then show ?thesis by simp
qed

lemma unat_mbits:
  fixes l tr :: uint8
  assumes "unat l + unat tr < 64"
  shows "unat (64 - l - tr) = 64 - unat l - unat tr" "0 < 64 - l - tr" "64 - l - tr \<le> 64"
    "64 - l - (64 - l - tr) = tr"
proof -
  have "l \<le> 64" using assms by (simp add: word_le_nat_alt)
  then have l: "unat (64 - l) = 64 - unat l" by (simp add: unat_sub)
  with assms have "tr \<le> 64 - l" by (simp add: word_le_nat_alt)
  with l show e: "unat (64 - l - tr) = 64 - unat l - unat tr" by (simp add: unat_sub)
  then show "0 < 64 - l - tr" "64 - l - tr \<le> 64" "64 - l - (64 - l - tr) = tr"
    using assms by (simp_all add: word_less_nat_alt word_le_nat_alt)
qed

lemma mbits_okI: "unat l + unat tr < 64 \<Longrightarrow> mbits_ok l tr"
  by (simp add: mbits_ok_def unat_mbits)

lemma xorRead_reuse:
  assumes "unat l + unat tr < 64" "length bs = 64 - unat l - unat tr"
  shows "decodes br_ok br_bits (xorRead v l tr) ([True] @ [False] @ bs)
    (v XOR push_bit (unat tr) (of_bits bs), l, tr)"
proof -
  note m = unat_mbits [OF assms(1)]
  have "decodes br_ok br_bits (xorRead v l tr) ([True] @ [False] @ bs @ [])
      (v XOR push_bit (unat tr) (of_bits bs), l, tr)"
    unfolding xorRead_def
    apply (rule decodes_bind [OF br.rdBit_fallback])
    apply (simp only: not_True_eq_False if_False)
    apply (rule decodes_bind [OF br.rdBit_fallback])
    apply (simp only: not_False_eq_True if_True Let_def)
    apply (rule decodes_bind [OF br.rdBits_fallback])
    using m assms(2) by simp_all
  then show ?thesis by simp
qed

lemma take_bit_6_mbits:
  fixes m :: uint8
  assumes "0 < m" "m \<le> 64"
  shows "(if (ucast (take_bit 6 (ucast m :: uint64)) :: uint8) = 0 then 64 else ucast (take_bit 6 (ucast m :: uint64))) = m"
proof -
  have u: "(ucast (take_bit 6 (ucast m :: uint64)) :: uint8) = take_bit 6 m"
    by (rule bit_word_eqI) (auto simp: bit_simps)
  show ?thesis
  proof (cases "m = 64")
    case True
    then show ?thesis unfolding u by (simp add: take_bit_eq_mod)
  next
    case False
    with assms have "m < 2 ^ 6" by simp
    then have "take_bit 6 m = m" by (subst word_take_bit_self_iff) simp_all
    with assms show ?thesis unfolding u by auto
  qed
qed

lemma xorRead_new:
  assumes "unat l' < 32" "unat l' + unat tr' < 64" "length bs = 64 - unat l' - unat tr'"
  shows "decodes br_ok br_bits (xorRead v l tr)
    ([True] @ [True] @ bits_msb 5 (ucast l' :: uint64) @ bits_msb 6 (ucast (64 - l' - tr') :: uint64) @ bs)
    (v XOR push_bit (unat tr') (of_bits bs), l', tr')"
proof -
  note m = unat_mbits [OF assms(2)]
  have "l' < 2 ^ 5" using assms(1) by (simp add: word_less_nat_alt)
  then have "take_bit 5 l' = l'" by (subst word_take_bit_self_iff) simp_all
  moreover have "(ucast (take_bit 5 (ucast l' :: uint64)) :: uint8) = take_bit 5 l'"
    by (rule bit_word_eqI) (auto simp: bit_simps)
  ultimately have l': "(ucast (take_bit 5 (ucast l' :: uint64)) :: uint8) = l'" by simp
  have "decodes br_ok br_bits (xorRead v l tr)
    ([True] @ [True] @ bits_msb 5 (ucast l' :: uint64) @ bits_msb 6 (ucast (64 - l' - tr') :: uint64) @ bs @ [])
    (v XOR push_bit (unat tr') (of_bits bs), l', tr')"
    unfolding xorRead_def
    apply (rule decodes_bind [OF br.rdBit_fallback])
    apply (simp only: not_True_eq_False if_False)
    apply (rule decodes_bind [OF br.rdBit_fallback])
    apply (simp only: not_True_eq_False if_False Let_def)
    apply (rule decodes_bind [OF br.rdBits_fallback], simp, simp, simp)
    apply (rule decodes_bind [OF br.rdBits_fallback], simp, simp, simp)
    apply (simp only: of_bits_bits_msb l' take_bit_6_mbits [OF m(2,3)] m(4))
    apply (rule decodes_bind [OF br.rdBits_fallback])
    using m assms(3) by simp_all
  then show ?thesis by simp
qed

lemma restore_delta:
  assumes "l \<le> LeadingZeros64 d" "tr \<le> TrailingZeros64 d" "l + tr < 64"
  shows "push_bit tr (of_bits (bits_msb (64 - l - tr) (drop_bit tr d))) = (d :: uint64)"
proof (rule bit_word_eqI)
  fix n assume n: "n < LENGTH(64)"
  have z: "tr \<le> n \<and> n + l < 64" if "bit d n"
    using that assms LeadingZeros64_zero [of d n] TrailingZeros64_zero [of n d] by force
  show "bit (push_bit tr (of_bits (bits_msb (64 - l - tr) (drop_bit tr d))) :: uint64) n = bit d n"
    using n assms(3) z by (auto simp: of_bits_bits_msb bit_simps)
qed

text \<open>
  The state of the appender and of an iterator that has read everything agree on the reusable
  window of significant bits, unless the appender has none yet.
\<close>

definition window_match :: "uint8 \<Rightarrow> uint8 \<Rightarrow> uint8 \<Rightarrow> uint8 \<Rightarrow> bool" where
  "window_match la ta li ti \<longleftrightarrow> unat li + unat ti < 64 \<and> (la = 0xff \<or> li = la \<and> ti = ta)"

lemma xorWrite_spec:
  assumes rep: "bs_rep b bits" and win: "window_match la ta li ti"
    and wr: "xorWrite b v cur la ta = (b', la', ta')"
  obtains bs li' ti' where "bs_rep b' (bits @ bs)" "length bs \<le> 77"
    "decodes br_ok br_bits (xorRead cur li ti) bs (v, li', ti')" "window_match la' ta' li' ti'"
proof -
  define delta where "delta = v XOR cur"
  have v: "v = cur XOR delta" by (simp add: delta_def xor.assoc [symmetric] xor.commute)
  define lz where "lz = (of_nat (LeadingZeros64 delta) :: uint8)"
  define nt where "nt = (of_nat (TrailingZeros64 delta) :: uint8)"
  define nl where "nl = (if lz \<ge> 32 then 31 else lz)"
  let ?reuse = "la \<noteq> 0xff \<and> la \<le> nl \<and> ta \<le> nt"
  note w = wr [unfolded xorWrite_def Let_def, folded delta_def, folded lz_def nt_def, folded nl_def]
  note r1 = writeBit_rep [OF rep, of True]
  consider (same) "delta = 0" | (reuse) "delta \<noteq> 0" ?reuse | (new) "delta \<noteq> 0" "\<not> ?reuse" by blast
  then show thesis
  proof cases
    case same
    then show thesis
      using that [of "[False]" li ti] w win writeBit_rep [OF rep, of False] xorRead_same v by simp
  next
    case reuse
    note lt = leading_trailing [OF reuse(1)]
    have u: "unat lz = LeadingZeros64 delta" "unat nt = TrailingZeros64 delta"
      using lt by (simp_all add: lz_def nt_def unat_of_nat)
    have le: "unat la \<le> LeadingZeros64 delta" "unat ta \<le> TrailingZeros64 delta"
      using reuse(2) u by (auto simp: nl_def word_le_nat_alt split: if_splits)
    have m: "li = la" "ti = ta" "unat la + unat ta < 64" using win reuse(2) by (auto simp: window_match_def)
    let ?n = "64 - unat la - unat ta"
    note r3 = writeBits_rep [OF writeBit_rep [OF r1, of False], of ?n "drop_bit (unat ta) delta"]
    from w reuse have w': "b' = writeBits (writeBit (writeBit b True) False) (drop_bit (unat ta) delta) ?n"
        "la' = la" "ta' = ta" by (auto simp: diff_diff_left)
    show thesis
      using that [of "[True] @ [False] @ bits_msb ?n (drop_bit (unat ta) delta)" la ta]
        r3 w' m xorRead_reuse [of la ta "bits_msb ?n (drop_bit (unat ta) delta)" cur]
        restore_delta [OF le m(3)] v
      by (simp add: window_match_def)
  next
    case new
    note lt = leading_trailing [OF new(1)]
    have u: "unat lz = LeadingZeros64 delta" "unat nt = TrailingZeros64 delta"
      using lt by (simp_all add: lz_def nt_def unat_of_nat)
    have nl: "unat nl \<le> LeadingZeros64 delta" "unat nl < 32"
      using u by (auto simp: nl_def word_le_nat_alt split: if_splits)
    have m: "unat nl + unat nt < 64" using nl(1) u(2) lt by simp
    let ?n = "64 - unat nl - unat nt" and ?d = "drop_bit (unat nt) delta"
    let ?bs = "[True] @ [True] @ bits_msb 5 (ucast nl :: uint64) @ bits_msb 6 (ucast (64 - nl - nt) :: uint64)
      @ bits_msb ?n ?d"
    note r2 = writeBit_rep [OF r1, of True]
    note r3 = writeBits_rep [OF r2, of 5 "ucast nl"]
    note r4 = writeBits_rep [OF r3, of 6 "ucast (64 - nl - nt)"]
    note r5 = writeBits_rep [OF r4, of ?n ?d]
    have b': "bs_rep b' (bits @ ?bs)" "la' = nl" "ta' = nt"
      using r5 w new unat_mbits(1) [OF m] by (auto simp: if_not_P [OF new(2)] split: if_splits)
    show thesis
      using that [OF b'(1), of nl nt] b'(2,3) m xorRead_new [OF nl(2) m, of "bits_msb ?n ?d" cur li ti]
        restore_delta [OF nl(1) eq_refl [OF u(2)] m] v
      by (simp add: window_match_def)
  qed
qed

section \<open>One timestamp\<close>

definition dod_bits :: "int64 \<Rightarrow> bool list" where
  "dod_bits dod =
     (if dod = 0 then prefix_bits 4 0
      else if bitRange dod 14 then prefix_bits 4 1 @ bits_msb 14 dod
      else if bitRange dod 17 then prefix_bits 4 2 @ bits_msb 17 dod
      else if bitRange dod 20 then prefix_bits 4 3 @ bits_msb 20 dod
      else prefix_bits 4 4 @ bits_msb 64 dod)"

lemma length_dod_bits: "length (dod_bits dod) \<le> 68"
  by (simp add: dod_bits_def prefix_bits_def)

lemma prefix_4:
  "prefix_bits 4 0 = [False]" "prefix_bits 4 1 = [True, False]" "prefix_bits 4 2 = bits_msb 3 (0b110 :: uint64)"
  "prefix_bits 4 3 = bits_msb 4 (0b1110 :: uint64)" "prefix_bits 4 4 = bits_msb 4 (0b1111 :: uint64)"
  "prefix_code 4 0 = 0b0" "prefix_code 4 1 = 0b10" "prefix_code 4 2 = 0b110" "prefix_code 4 3 = 0b1110"
  "prefix_code 4 4 = 0b1111"
  by (simp_all add: prefix_bits_def prefix_code_def bits_msb_def upt_rec numeral_eq_Suc mask_eq_exp_minus_1)

lemma dod_14_bytes:
  "bits_msb 8 (push_bit 6 0b10 OR (ucast (signed_drop_bit 8 dod) AND 0x3f) :: byte) @ bits_msb 8 (ucast dod :: byte)
    = [True, False] @ bits_msb 14 (dod :: int64)" (is "?l = ?r")
proof -
  have "?l = map (\<lambda>i. ?l ! i) [0..<16]" by (rule nth_equalityI) simp_all
  also have "\<dots> = map (\<lambda>i. ?r ! i) [0..<16]"
    by (simp add: upt_rec nth_append nth_bits_msb nth_Cons' bit_simps)
  also have "\<dots> = ?r" by (rule nth_equalityI) simp_all
  finally show ?thesis .
qed

lemma writeDod_rep:
  assumes "bs_rep b bits"
  shows "bs_rep (writeDod b dod) (bits @ dod_bits dod)"
proof -
  have "bs_rep (writeByte (writeByte b (push_bit 6 0b10 OR (ucast (signed_drop_bit 8 dod) AND 0x3f))) (ucast dod))
      (bits @ prefix_bits 4 1 @ bits_msb 14 dod)"
    using writeByte_rep [OF writeByte_rep [OF assms]] dod_14_bytes [of dod] by (metis append.assoc prefix_4(2))
  moreover have "bs_rep (writeBits (writeBits b p n) dod m) (bits @ bits_msb n p @ bits_msb m dod)"
    if "n \<le> 64" "m \<le> 64" for n m and p :: uint64
    using writeBits_rep [OF writeBits_rep [OF assms that(1)] that(2)] by simp
  ultimately show ?thesis
    using writeBit_rep [OF assms, of False]
    unfolding writeDod_def dod_bits_def prefix_4(1,3-5) by (simp only: split: if_split) simp
qed

lemma dod_prefix_decodes:
  assumes "k \<le> 4" "decodes br_ok br_bits (f (prefix_code 4 k)) bs x"
  shows "decodes br_ok br_bits (bindR (read_prefix (orElseR readBitFast readBit) 4 0) f) (prefix_bits 4 k @ bs) x"
  by (rule decodes_bind [where x = "prefix_code 4 k"]) (rule br.read_prefix_code [OF assms(1)] assms(2))+

lemma readDod_bucket:
  assumes "k < 4" "unat (dod_sz (prefix_code 4 k)) = n" "0 < n" "n \<le> 56" "bitRange x n"
  shows "decodes br_ok br_bits readDod (prefix_bits 4 k @ bits_msb n x) x"
proof -
  have "\<not> bit (prefix_code 4 k) 0" using assms(1) by (simp add: prefix_code_def bit_mult_2)
  moreover have "bit (0b1111 :: byte) 0" by simp
  ultimately have "prefix_code 4 k \<noteq> 0b1111" by metis
  moreover have "dod_sz (prefix_code 4 k) \<noteq> 0" using assms(2,3) by auto
  ultimately show ?thesis
    unfolding readDod_def using assms(1) signed_bits_decodes [OF assms(2-5)]
    by (intro dod_prefix_decodes) (simp_all add: Let_def)
qed

lemma readDod_extremes:
  "decodes br_ok br_bits readDod (prefix_bits 4 0) 0"
  "decodes br_ok br_bits readDod (prefix_bits 4 4 @ bits_msb 64 x) x"
proof -
  have "decodes br_ok br_bits readDod (prefix_bits 4 0 @ []) 0"
    unfolding readDod_def by (rule dod_prefix_decodes) (simp_all add: prefix_4 dod_sz_def)
  then show "decodes br_ok br_bits readDod (prefix_bits 4 0) 0" by simp
  show "decodes br_ok br_bits readDod (prefix_bits 4 4 @ bits_msb 64 x) x"
    unfolding readDod_def by (rule dod_prefix_decodes) (simp_all add: prefix_4 raw_bits_decodes)
qed

lemma readDod_decodes: "decodes br_ok br_bits readDod (dod_bits x) x"
  using readDod_extremes readDod_bucket [of 1 14 x] readDod_bucket [of 2 17 x] readDod_bucket [of 3 20 x]
  by (simp add: dod_bits_def prefix_4(6-10) dod_sz_def del: One_nat_def)

section \<open>One sample\<close>

lemma bytes_bits_Nil_iff: "bytes_bits bs = [] \<longleftrightarrow> bs = []"
  by (metis bytes_bits_inj bytes_bits_simps(1))

lemma writeBytes_rep: "bs_rep b bits \<Longrightarrow> bs_rep (writeBytes b bs) (bits @ bytes_bits bs)"
proof (induction bs arbitrary: b bits)
  case (Cons x bs)
  from Cons.IH [OF writeByte_rep [OF Cons.prems, of x]] show ?case by (simp add: writeBytes_def)
qed (simp add: writeBytes_def)

lemma bs_rep_header:
  assumes "bs_rep b (bytes_bits (PutUint16 m) @ bits)"
  obtains r where "bs_stream b = PutUint16 m @ r" "bytes_bits r = bits @ replicate (unat (bs_count b)) False"
proof -
  let ?s = "bs_stream b"
  from assms have e: "bytes_bits ?s = bytes_bits (PutUint16 m) @ bits @ replicate (unat (bs_count b)) False"
    by (simp add: bs_rep_def)
  from arg_cong [OF this, of length] have "8 * length ?s \<ge> 16" by simp
  then have "bytes_bits (take 2 ?s) @ bytes_bits (drop 2 ?s) = bytes_bits ?s"
      "length (bytes_bits (take 2 ?s)) = length (bytes_bits (PutUint16 m))"
    by (simp_all flip: bytes_bits_simps(3))
  with e have "bytes_bits (take 2 ?s) = bytes_bits (PutUint16 m)"
      "bytes_bits (drop 2 ?s) = bits @ replicate (unat (bs_count b)) False" by simp_all
  then show thesis using that [of "drop 2 ?s"] bytes_bits_inj by (metis append_take_drop_id)
qed

lemma put_header_rep:
  assumes "bs_rep b (bytes_bits (PutUint16 m) @ bits)"
  shows "bs_rep (put_header b n) (bytes_bits (PutUint16 n) @ bits)"
  using assms by (rule bs_rep_header) (use assms in \<open>simp add: bs_rep_def put_header_def\<close>)

text \<open>The state an iterator reaches after reading every sample, seen from the appender.\<close>

record xorState =
  xs_t :: int64
  xs_val :: float64
  xs_tDelta :: uint64
  xs_leading :: uint8
  xs_trailing :: uint8

definition appender_match :: "uint16 \<Rightarrow> xorAppender \<Rightarrow> xorState \<Rightarrow> bool" where
  "appender_match num a s \<longleftrightarrow> window_match (xa_leading a) (xa_trailing a) (xs_leading s) (xs_trailing s) \<and>
     (num = 0 \<longrightarrow> xs_tDelta s = 0) \<and>
     (num \<noteq> 0 \<longrightarrow> xs_t s = xa_t a \<and> xs_val s = xa_v a \<and> xs_tDelta s = xa_tDelta a)"

definition iter_match :: "xorIterator \<Rightarrow> xorState \<Rightarrow> bool" where
  "iter_match it s \<longleftrightarrow> br_ok (xi_br it) \<and> xi_err it = None \<and> xi_tDelta it = xs_tDelta s \<and>
     xi_leading it = xs_leading s \<and> xi_trailing it = xs_trailing s \<and>
     (xi_numRead it \<noteq> 0 \<longrightarrow> xi_t it = xs_t s \<and> xi_val it = xs_val s)"

text \<open>\<open>Next\<close> turns the bits of one sample into the sample and the next state.\<close>

definition next_decodes :: "uint16 \<Rightarrow> xorState \<Rightarrow> bool list \<Rightarrow> int64 \<times> float64 \<Rightarrow> xorState \<Rightarrow> bool" where
  "next_decodes num s bs x s' \<longleftrightarrow>
     (\<forall>it rest. iter_match it s \<and> br_bits (xi_br it) = bs @ rest \<and> xi_numRead it = num \<and> xi_numTotal it \<noteq> num \<longrightarrow>
       (\<exists>it'. xorIterator_Next it = (ValFloat, it') \<and> iter_match it' s' \<and> br_bits (xi_br it') = rest \<and>
          xi_numRead it' = num + 1 \<and> xi_numTotal it' = xi_numTotal it \<and> xorIterator_At it' = x))"

lemma br_ok_valid: "br_ok br \<Longrightarrow> br_valid br \<le> 64"
  by (simp add: br_ok_def word_le_nat_alt)

lemma readValue_decodes:
  assumes "decodes br_ok br_bits (xorRead v l tr) bs (v', l', tr')" "unat l + unat tr < 64"
    and "xi_val it = v" "xi_leading it = l" "xi_trailing it = tr" "br_ok (xi_br it)" "br_bits (xi_br it) = bs @ rest"
  obtains br where "readValue it = (ValFloat, it\<lparr>xi_br := br, xi_val := v', xi_leading := l', xi_trailing := tr',
      xi_numRead := xi_numRead it + 1\<rparr>)" "br_ok br" "br_bits br = rest"
proof -
  from assms(1,6,7) obtain br where br: "xorRead v l tr (xi_br it) = (Inr (v', l', tr'), br)" "br_ok br" "br_bits br = rest"
    by (rule decodesE)
  moreover have "readValue it = readValue_slow it"
    using assms by (intro readValue_eq_slow) (simp_all add: br_ok_valid mbits_okI)
  ultimately show thesis using that [of br] assms(3-5) by (simp add: readValue_slow_def)
qed

lemma next_decodes_first:
  "next_decodes 0 s (bytes_bits (PutVarint t) @ bits_msb 64 v) (t, v) (s\<lparr>xs_t := t, xs_val := v\<rparr>)"
  unfolding next_decodes_def
proof (intro allI impI, elim conjE)
  fix it rest
  assume it: "iter_match it s" "xi_numRead it = 0" "xi_numTotal it \<noteq> 0"
    and "br_bits (xi_br it) = (bytes_bits (PutVarint t) @ bits_msb 64 v) @ rest"
  then have bits: "br_bits (xi_br it) = bytes_bits (PutVarint t) @ (bits_msb 64 v @ rest)" by simp
  from it(1) have ok: "br_ok (xi_br it)" by (simp add: iter_match_def)
  obtain b1 where b1: "ReadVarint br_ReadByte (xi_br it) = (Inr t, b1)" "br_ok b1" "br_bits b1 = bits_msb 64 v @ rest"
    by (rule decodesE [OF br.ReadVarint_decodes ok bits])
  obtain b2 where b2: "readBits 64 b1 = (Inr v, b2)" "br_ok b2" "br_bits b2 = rest"
    by (rule decodesE [OF raw_bits_decodes b1(2,3)])
  show "\<exists>it'. xorIterator_Next it = (ValFloat, it') \<and> iter_match it' (s\<lparr>xs_t := t, xs_val := v\<rparr>) \<and>
      br_bits (xi_br it') = rest \<and> xi_numRead it' = 0 + 1 \<and> xi_numTotal it' = xi_numTotal it \<and> xorIterator_At it' = (t, v)"
    using it b1 b2 by (simp add: xorIterator_Next_def iter_match_def xorIterator_At_def)
qed

lemma next_decodes_second:
  assumes val: "decodes br_ok br_bits (xorRead (xs_val s) (xs_leading s) (xs_trailing s)) bs (v, l, tr)"
    and win: "unat (xs_leading s) + unat (xs_trailing s) < 64"
  shows "next_decodes 1 s (bytes_bits (PutUvarint d) @ bs) (xs_t s + d, v)
    (s\<lparr>xs_t := xs_t s + d, xs_val := v, xs_tDelta := d, xs_leading := l, xs_trailing := tr\<rparr>)"
  unfolding next_decodes_def
proof (intro allI impI, elim conjE)
  fix it rest
  assume it: "iter_match it s" "xi_numRead it = 1" "xi_numTotal it \<noteq> 1"
    and "br_bits (xi_br it) = (bytes_bits (PutUvarint d) @ bs) @ rest"
  then have bits: "br_bits (xi_br it) = bytes_bits (PutUvarint d) @ (bs @ rest)" by simp
  from it(1) have ok: "br_ok (xi_br it)" by (simp add: iter_match_def)
  obtain b1 where b1: "ReadUvarint br_ReadByte (xi_br it) = (Inr d, b1)" "br_ok b1" "br_bits b1 = bs @ rest"
    by (rule decodesE [OF br.ReadUvarint_decodes ok bits])
  let ?it = "it\<lparr>xi_br := b1, xi_tDelta := d, xi_t := xi_t it + d\<rparr>"
  obtain b2 where "readValue ?it = (ValFloat, ?it\<lparr>xi_br := b2, xi_val := v, xi_leading := l, xi_trailing := tr,
      xi_numRead := xi_numRead it + 1\<rparr>)" "br_ok b2" "br_bits b2 = rest"
    using readValue_decodes [OF val win, of ?it rest] it b1 by (auto simp: iter_match_def)
  then show "\<exists>it'. xorIterator_Next it = (ValFloat, it') \<and>
      iter_match it' (s\<lparr>xs_t := xs_t s + d, xs_val := v, xs_tDelta := d, xs_leading := l, xs_trailing := tr\<rparr>) \<and>
      br_bits (xi_br it') = rest \<and> xi_numRead it' = 1 + 1 \<and> xi_numTotal it' = xi_numTotal it \<and>
      xorIterator_At it' = (xs_t s + d, v)"
    using it b1 by (simp add: xorIterator_Next_def iter_match_def xorIterator_At_def)
qed

lemma next_decodes_later:
  assumes val: "decodes br_ok br_bits (xorRead (xs_val s) (xs_leading s) (xs_trailing s)) bs (v, l, tr)"
    and win: "unat (xs_leading s) + unat (xs_trailing s) < 64" and num: "num \<noteq> 0" "num \<noteq> 1"
  shows "next_decodes num s (dod_bits dod @ bs) (xs_t s + (xs_tDelta s + dod), v)
    (s\<lparr>xs_t := xs_t s + (xs_tDelta s + dod), xs_val := v, xs_tDelta := xs_tDelta s + dod, xs_leading := l, xs_trailing := tr\<rparr>)"
  unfolding next_decodes_def
proof (intro allI impI, elim conjE)
  fix it rest
  assume it: "iter_match it s" "xi_numRead it = num" "xi_numTotal it \<noteq> num"
    and "br_bits (xi_br it) = (dod_bits dod @ bs) @ rest"
  then have bits: "br_bits (xi_br it) = dod_bits dod @ (bs @ rest)" by simp
  from it(1) have ok: "br_ok (xi_br it)" by (simp add: iter_match_def)
  obtain b1 where b1: "readDod (xi_br it) = (Inr dod, b1)" "br_ok b1" "br_bits b1 = bs @ rest"
    by (rule decodesE [OF readDod_decodes ok bits])
  let ?td = "xs_tDelta s + dod"
  let ?it = "it\<lparr>xi_br := b1, xi_tDelta := ?td, xi_t := xi_t it + ?td\<rparr>"
  obtain b2 where b2: "readValue ?it = (ValFloat, ?it\<lparr>xi_br := b2, xi_val := v, xi_leading := l, xi_trailing := tr,
      xi_numRead := xi_numRead it + 1\<rparr>)" "br_ok b2" "br_bits b2 = rest"
    using readValue_decodes [OF val win, of ?it rest] it b1 num by (auto simp: iter_match_def)
  have "xorIterator_Next it = Next_dod it"
    using it num ok win by (intro Next_eq_slow) (auto simp: iter_match_def br_ok_valid mbits_okI)
  also have "\<dots> = readValue ?it" using it b1 by (simp add: Next_dod_def iter_match_def Let_def)
  finally show "\<exists>it'. xorIterator_Next it = (ValFloat, it') \<and>
      iter_match it' (s\<lparr>xs_t := xs_t s + ?td, xs_val := v, xs_tDelta := ?td, xs_leading := l, xs_trailing := tr\<rparr>) \<and>
      br_bits (xi_br it') = rest \<and> xi_numRead it' = num + 1 \<and> xi_numTotal it' = xi_numTotal it \<and>
      xorIterator_At it' = (xs_t s + ?td, v)"
    using it b2 num by (simp add: iter_match_def xorIterator_At_def)
qed

definition sample_bits_max :: "uint16 \<Rightarrow> nat" where
  "sample_bits_max num = (if num = 0 then 144 else if num = 1 then 157 else 145)"

lemma Uint16_header: "bs_rep b (bytes_bits (PutUint16 num) @ bits) \<Longrightarrow> Uint16 (bs_bytes b) = Some num"
  by (erule bs_rep_header) (simp add: bs_bytes_def)

lemma length_PutVarint_max: "length (PutVarint x) \<le> 10"
  using length_PutUvarint_max [of "zigzag x"] by (simp add: PutVarint_def MaxVarintLen64_def)

lemma append_first:
  assumes rep: "bs_rep (xa_b a) (bytes_bits (PutUint16 0) @ bits)" and match: "appender_match 0 a s"
  shows "\<exists>a' bs s'. xorAppender_Append a t v = Some a' \<and> bs_rep (xa_b a') (bytes_bits (PutUint16 (0 + 1)) @ bits @ bs) \<and>
    appender_match (0 + 1) a' s' \<and> next_decodes 0 s bs (t, v) s' \<and> bs \<noteq> [] \<and> length bs \<le> sample_bits_max 0"
proof -
  let ?b = "writeBits (writeBytes (xa_b a) (PutVarint t)) v 64"
  let ?bs = "bytes_bits (PutVarint t) @ bits_msb 64 v"
  have "bs_rep ?b (bytes_bits (PutUint16 0) @ bits @ ?bs)"
    using writeBits_rep [OF writeBytes_rep [OF rep, of "PutVarint t"], of 64 v] by simp
  from put_header_rep [OF this]
  have "bs_rep (put_header ?b (0 + 1)) (bytes_bits (PutUint16 (0 + 1)) @ bits @ ?bs)" .
  moreover have "length ?bs \<le> sample_bits_max 0"
    using length_PutVarint_max [of t] by (simp add: sample_bits_max_def)
  moreover have "?bs \<noteq> []" using length_bits_msb [of 64 v] by fastforce
  ultimately show ?thesis
    using match Uint16_header [OF rep] next_decodes_first [of s t v]
    by (intro exI conjI) (auto simp: xorAppender_Append_def appender_match_def)
qed

lemma writeVDelta_spec:
  assumes "bs_rep (xa_b a) bits" "window_match (xa_leading a) (xa_trailing a) l tr"
  obtains bs l' tr' where "bs_rep (xa_b (writeVDelta a v)) (bits @ bs)" "length bs \<le> 77"
    "decodes br_ok br_bits (xorRead (xa_v a) l tr) bs (v, l', tr')"
    "window_match (xa_leading (writeVDelta a v)) (xa_trailing (writeVDelta a v)) l' tr'"
    "xa_t (writeVDelta a v) = xa_t a"
proof -
  obtain b la ta where w: "xorWrite (xa_b a) v (xa_v a) (xa_leading a) (xa_trailing a) = (b, la, ta)"
    by (rule prod_cases3)
  show thesis by (rule xorWrite_spec [OF assms w]) (use that w in \<open>simp add: writeVDelta_def\<close>)
qed

lemma append_second:
  assumes rep: "bs_rep (xa_b a) (bytes_bits (PutUint16 1) @ bits)" and match: "appender_match 1 a s"
  shows "\<exists>a' bs s'. xorAppender_Append a t v = Some a' \<and> bs_rep (xa_b a') (bytes_bits (PutUint16 (1 + 1)) @ bits @ bs) \<and>
    appender_match (1 + 1) a' s' \<and> next_decodes 1 s bs (t, v) s' \<and> bs \<noteq> [] \<and> length bs \<le> sample_bits_max 1"
proof -
  let ?d = "t - xa_t a"
  let ?a1 = "a\<lparr>xa_b := writeBytes (xa_b a) (PutUvarint ?d)\<rparr>"
  have m: "window_match (xa_leading ?a1) (xa_trailing ?a1) (xs_leading s) (xs_trailing s)"
      "xs_t s = xa_t a" "xs_val s = xa_v a"
    using match by (simp_all add: appender_match_def)
  have r1: "bs_rep (xa_b ?a1) (bytes_bits (PutUint16 1) @ bits @ bytes_bits (PutUvarint ?d))"
    using writeBytes_rep [OF rep, of "PutUvarint ?d"] by simp
  obtain bs l tr where w: "bs_rep (xa_b (writeVDelta ?a1 v)) ((bytes_bits (PutUint16 1) @ bits @ bytes_bits (PutUvarint ?d)) @ bs)"
      "length bs \<le> 77" "decodes br_ok br_bits (xorRead (xa_v ?a1) (xs_leading s) (xs_trailing s)) bs (v, l, tr)"
      "window_match (xa_leading (writeVDelta ?a1 v)) (xa_trailing (writeVDelta ?a1 v)) l tr"
    by (rule writeVDelta_spec [OF r1 m(1), of v]) blast
  let ?bs = "bytes_bits (PutUvarint ?d) @ bs"
  have "bs_rep (put_header (xa_b (writeVDelta ?a1 v)) (1 + 1)) (bytes_bits (PutUint16 (1 + 1)) @ bits @ ?bs)"
    using w(1) by (intro put_header_rep [where m = 1]) simp
  moreover have "next_decodes 1 s ?bs (t, v)
      (s\<lparr>xs_t := t, xs_val := v, xs_tDelta := ?d, xs_leading := l, xs_trailing := tr\<rparr>)"
    using next_decodes_second [of s bs v l tr ?d] w(3) m by (simp add: window_match_def)
  moreover have "length ?bs \<le> sample_bits_max 1" "?bs \<noteq> []"
    using length_PutUvarint_max [of ?d] w(2) length_PutUvarint_pos [of ?d]
    by (auto simp: sample_bits_max_def MaxVarintLen64_def bytes_bits_Nil_iff)
  ultimately show ?thesis
    using w(4) Uint16_header [OF rep]
    by (intro exI conjI) (auto simp: xorAppender_Append_def appender_match_def Let_def)
qed

lemma append_later:
  assumes rep: "bs_rep (xa_b a) (bytes_bits (PutUint16 num) @ bits)" and match: "appender_match num a s"
    and num: "num \<noteq> 0" "num \<noteq> 1" "num \<noteq> 0xffff"
  shows "\<exists>a' bs s'. xorAppender_Append a t v = Some a' \<and> bs_rep (xa_b a') (bytes_bits (PutUint16 (num + 1)) @ bits @ bs) \<and>
    appender_match (num + 1) a' s' \<and> next_decodes num s bs (t, v) s' \<and> bs \<noteq> [] \<and> length bs \<le> sample_bits_max num"
proof -
  let ?d = "t - xa_t a"
  let ?dod = "?d - xa_tDelta a"
  let ?a1 = "a\<lparr>xa_b := writeDod (xa_b a) ?dod\<rparr>"
  have m: "window_match (xa_leading ?a1) (xa_trailing ?a1) (xs_leading s) (xs_trailing s)"
      "xs_t s = xa_t a" "xs_val s = xa_v a" "xs_tDelta s = xa_tDelta a"
    using match num by (simp_all add: appender_match_def)
  have r1: "bs_rep (xa_b ?a1) (bytes_bits (PutUint16 num) @ bits @ dod_bits ?dod)"
    using writeDod_rep [OF rep, of ?dod] by simp
  obtain bs l tr where w: "bs_rep (xa_b (writeVDelta ?a1 v)) ((bytes_bits (PutUint16 num) @ bits @ dod_bits ?dod) @ bs)"
      "length bs \<le> 77" "decodes br_ok br_bits (xorRead (xa_v ?a1) (xs_leading s) (xs_trailing s)) bs (v, l, tr)"
      "window_match (xa_leading (writeVDelta ?a1 v)) (xa_trailing (writeVDelta ?a1 v)) l tr"
    by (rule writeVDelta_spec [OF r1 m(1), of v]) blast
  let ?bs = "dod_bits ?dod @ bs"
  have "bs_rep (put_header (xa_b (writeVDelta ?a1 v)) (num + 1)) (bytes_bits (PutUint16 (num + 1)) @ bits @ ?bs)"
    using w(1) by (intro put_header_rep [where m = num]) simp
  moreover have "next_decodes num s ?bs (t, v)
      (s\<lparr>xs_t := t, xs_val := v, xs_tDelta := ?d, xs_leading := l, xs_trailing := tr\<rparr>)"
    using next_decodes_later [of s bs v l tr num ?dod] w(3) m num by (simp add: window_match_def)
  moreover have "length ?bs \<le> sample_bits_max num" "?bs \<noteq> []"
    using length_dod_bits [of ?dod] w(2) num by (auto simp: sample_bits_max_def dod_bits_def prefix_bits_def)
  moreover have "num + 1 \<noteq> 0"
  proof
    assume "num + 1 = 0"
    then have "num = -1" by (simp only: eq_neg_iff_add_eq_0)
    with num show False by simp
  qed
  ultimately show ?thesis
    using w(4) Uint16_header [OF rep] num
    by (intro exI conjI) (auto simp: xorAppender_Append_def appender_match_def Let_def)
qed

lemma append_step:
  assumes "bs_rep (xa_b a) (bytes_bits (PutUint16 num) @ bits)" "appender_match num a s" "num \<noteq> 0xffff"
  shows "\<exists>a' bs s'. xorAppender_Append a t v = Some a' \<and> bs_rep (xa_b a') (bytes_bits (PutUint16 (num + 1)) @ bits @ bs) \<and>
    appender_match (num + 1) a' s' \<and> next_decodes num s bs (t, v) s' \<and> bs \<noteq> [] \<and> length bs \<le> sample_bits_max num"
  using append_first [of a bits s t v] append_second [of a bits s t v] append_later [of a num bits s t v] assms
  by (cases "num = 0"; cases "num = 1") auto

section \<open>Whole chunks\<close>

text \<open>\<open>iter_reads it xs it'\<close>: successive calls of \<open>Next\<close> from \<open>it\<close> return the samples \<open>xs\<close> and lead to \<open>it'\<close>.\<close>

inductive iter_reads :: "xorIterator \<Rightarrow> (int64 \<times> float64) list \<Rightarrow> xorIterator \<Rightarrow> bool" where
  none: "iter_reads it [] it"
| step: "xorIterator_Next it = (ValFloat, it1) \<Longrightarrow> iter_reads it1 xs it2 \<Longrightarrow> iter_reads it (xorIterator_At it1 # xs) it2"

inductive_cases iter_reads_NilE: "iter_reads it [] it'"
inductive_cases iter_reads_ConsE: "iter_reads it (x # xs) it'"

lemma iter_reads_snoc:
  "iter_reads it xs it1 \<Longrightarrow> xorIterator_Next it1 = (ValFloat, it2) \<Longrightarrow> iter_reads it (xs @ [xorIterator_At it2]) it2"
  by (induction rule: iter_reads.induct) (auto intro: iter_reads.intros)

lemma Next_end: "xi_numRead it = xi_numTotal it \<Longrightarrow> xorIterator_Next it = (ValNone, it)"
  by (simp add: xorIterator_Next_def)

lemma drain_reads: "iter_reads it xs it' \<Longrightarrow> xi_numRead it' = xi_numTotal it' \<Longrightarrow> xorIterator_drain it = (xs, it')"
  by (induction rule: iter_reads.induct) (simp_all add: xorIterator_drain.simps [of it for it] Next_end)

definition reads_all :: "bool list \<Rightarrow> (int64 \<times> float64) list \<Rightarrow> xorState \<Rightarrow> bool" where
  "reads_all bits xs s \<longleftrightarrow>
     (\<forall>it s0 rest. iter_match it s0 \<and> xs_tDelta s0 = 0 \<and> xs_leading s0 = 0 \<and> xs_trailing s0 = 0 \<and> xi_numRead it = 0 \<and>
        br_bits (xi_br it) = bits @ rest \<and> length xs \<le> unat (xi_numTotal it) \<longrightarrow>
        (\<exists>it'. iter_reads it xs it' \<and> iter_match it' s \<and> br_bits (xi_br it') = rest \<and>
          xi_numRead it' = of_nat (length xs) \<and> xi_numTotal it' = xi_numTotal it))"

text \<open>What an appender and the stream it shares with its chunk hold.\<close>

definition chunk_holds :: "xorAppender \<Rightarrow> (int64 \<times> float64) list \<Rightarrow> bool" where
  "chunk_holds a xs \<longleftrightarrow> length xs \<le> 65535 \<and>
     (\<exists>bits s. bs_rep (xa_b a) (bytes_bits (PutUint16 (of_nat (length xs))) @ bits) \<and> (bits = [] \<longleftrightarrow> xs = []) \<and>
        length bits \<le> 157 * length xs \<and> appender_match (of_nat (length xs)) a s \<and> reads_all bits xs s)"

lemma reads_all_snoc:
  assumes all: "reads_all bits xs s" and nx: "next_decodes (of_nat (length xs)) s bs x s'" and len: "length xs < 65535"
  shows "reads_all (bits @ bs) (xs @ [x]) s'"
  unfolding reads_all_def
proof (intro allI impI, elim conjE)
  fix it s0 rest
  assume it: "iter_match it s0" "xs_tDelta s0 = 0" "xs_leading s0 = 0" "xs_trailing s0 = 0" "xi_numRead it = 0"
    "br_bits (xi_br it) = (bits @ bs) @ rest" "length (xs @ [x]) \<le> unat (xi_numTotal it)"
  then obtain it1 where it1: "iter_reads it xs it1" "iter_match it1 s" "br_bits (xi_br it1) = bs @ rest"
      "xi_numRead it1 = of_nat (length xs)" "xi_numTotal it1 = xi_numTotal it"
    using all unfolding reads_all_def by (metis append.assoc length_append_singleton Suc_leD)
  have "unat (of_nat (length xs) :: uint16) = length xs" using len by (simp add: unat_of_nat)
  then have "xi_numTotal it1 \<noteq> of_nat (length xs)" using it(7) it1(5) by auto
  with it1 nx obtain it2 where "xorIterator_Next it1 = (ValFloat, it2)" "iter_match it2 s'" "br_bits (xi_br it2) = rest"
      "xi_numRead it2 = of_nat (length xs) + 1" "xi_numTotal it2 = xi_numTotal it" "xorIterator_At it2 = x"
    unfolding next_decodes_def by metis
  with iter_reads_snoc [OF it1(1), of it2]
  show "\<exists>it'. iter_reads it (xs @ [x]) it' \<and> iter_match it' s' \<and> br_bits (xi_br it') = rest \<and>
      xi_numRead it' = of_nat (length (xs @ [x])) \<and> xi_numTotal it' = xi_numTotal it"
    by (intro exI [of _ it2]) (simp add: add.commute)
qed

lemma append_holds:
  assumes "chunk_holds a xs" "length xs < 65535"
  obtains a' where "xorAppender_Append a t v = Some a'" "chunk_holds a' (xs @ [(t, v)])"
proof -
  let ?num = "of_nat (length xs) :: uint16"
  from assms(1) obtain bits s where h: "bs_rep (xa_b a) (bytes_bits (PutUint16 ?num) @ bits)"
      "length bits \<le> 157 * length xs" "appender_match ?num a s" "reads_all bits xs s"
    by (auto simp: chunk_holds_def)
  have "unat ?num \<noteq> 65535" using assms(2) by (simp add: unat_of_nat)
  then have "?num \<noteq> 0xffff" by auto
  from append_step [OF h(1,3) this, of t v] obtain a' bs s' where a': "xorAppender_Append a t v = Some a'"
      "bs_rep (xa_b a') (bytes_bits (PutUint16 (?num + 1)) @ bits @ bs)" "appender_match (?num + 1) a' s'"
      "next_decodes ?num s bs (t, v) s'" "bs \<noteq> []" "length bs \<le> sample_bits_max ?num" by blast
  have "length bs \<le> 157" using a'(6) by (simp add: sample_bits_max_def split: if_splits)
  moreover note reads_all_snoc [OF h(4) a'(4) assms(2)]
  ultimately have "chunk_holds a' (xs @ [(t, v)])"
    unfolding chunk_holds_def using a' h(2) assms(2)
    by (intro conjI exI [of _ "bits @ bs"] exI [of _ s']) (auto simp: add.commute)
  with a'(1) show thesis by (rule that)
qed

text \<open>The chunk behind an appender, reading a whole chunk, and a life of a chunk: sessions of appends, each through a new appender.\<close>

definition xa_chunk :: "xorAppender \<Rightarrow> XORChunk" where
  "xa_chunk a = \<lparr>xc_b = xa_b a\<rparr>"

definition chunk_samples :: "XORChunk \<Rightarrow> ((int64 \<times> float64) list \<times> go_error option) option" where
  "chunk_samples c = map_option (\<lambda>it. map_prod id xorIterator_Err (xorIterator_drain it)) (XORChunk_iterator c)"

fun append_sessions :: "XORChunk \<Rightarrow> (int64 \<times> float64) list list \<Rightarrow> XORChunk option" where
  "append_sessions c [] = Some c"
| "append_sessions c (xs # xss) =
     (case XORChunk_Appender c of
        Some (Inr a) \<Rightarrow> (case append_all a xs of None \<Rightarrow> None | Some a' \<Rightarrow> append_sessions (xa_chunk a') xss)
      | _ \<Rightarrow> None)"

lemma append_all_holds:
  "chunk_holds a xs \<Longrightarrow> length xs + length ys \<le> 65535 \<Longrightarrow> \<exists>a'. append_all a ys = Some a' \<and> chunk_holds a' (xs @ ys)"
proof (induction ys arbitrary: a xs)
  case (Cons y ys)
  obtain t v where y: "y = (t, v)" by (cases y)
  have "length xs < 65535" using Cons.prems(2) by simp
  from append_holds [OF Cons.prems(1) this, of t v] obtain a1
    where "xorAppender_Append a t v = Some a1" "chunk_holds a1 (xs @ [y])" by (auto simp: y)
  with Cons.IH [of a1 "xs @ [y]"] Cons.prems(2) show ?case by (auto simp: y)
qed simp

lemma holds_full:
  assumes "chunk_holds a xs" "length xs = 65535"
  shows "xorAppender_Append a t v = None"
proof -
  from assms obtain bits where "bs_rep (xa_b a) (bytes_bits (PutUint16 0xffff) @ bits)"
    by (auto simp: chunk_holds_def)
  from Uint16_header [OF this] show ?thesis by (simp add: xorAppender_Append_def)
qed

lemma holds_iterator:
  assumes "chunk_holds a xs"
  obtains it it' where "XORChunk_iterator (xa_chunk a) = Some it" "iter_reads it xs it'" "xi_numRead it = 0"
    "xi_numTotal it = of_nat (length xs)" "xi_numRead it' = of_nat (length xs)" "xi_numTotal it' = of_nat (length xs)"
    "xi_err it' = None" "\<exists>bits. bs_rep (xa_b a) (bytes_bits (PutUint16 (of_nat (length xs))) @ bits) \<and>
       (\<exists>s. length bits \<le> 157 * length xs \<and> iter_match it' s \<and> appender_match (of_nat (length xs)) a s \<and>
          reads_all bits xs s \<and> (bits = [] \<longleftrightarrow> xs = []))"
proof -
  from assms obtain bits s where h: "bs_rep (xa_b a) (bytes_bits (PutUint16 (of_nat (length xs))) @ bits)"
      "length bits \<le> 157 * length xs" "appender_match (of_nat (length xs)) a s" "reads_all bits xs s" "bits = [] \<longleftrightarrow> xs = []"
      "length xs \<le> 65535"
    by (auto simp: chunk_holds_def)
  obtain r where r: "bs_stream (xa_b a) = PutUint16 (of_nat (length xs)) @ r"
      "bytes_bits r = bits @ replicate (unat (bs_count (xa_b a))) False"
    by (rule bs_rep_header [OF h(1)])
  define it where "it = \<lparr>xi_br = newBReader r, xi_numTotal = of_nat (length xs), xi_numRead = 0,
    xi_t = MinInt64, xi_val = 0, xi_leading = 0, xi_trailing = 0, xi_tDelta = 0, xi_err = None\<rparr>"
  have it: "XORChunk_iterator (xa_chunk a) = Some it"
    by (simp add: XORChunk_iterator_def XORChunk_Bytes_def bs_bytes_def xa_chunk_def r chunkHeaderSize_def it_def)
  have "iter_match it \<lparr>xs_t = MinInt64, xs_val = 0, xs_tDelta = 0, xs_leading = 0, xs_trailing = 0\<rparr>"
    by (simp add: iter_match_def it_def)
  with h(4,6) r(2) obtain it' where "iter_reads it xs it'" "iter_match it' s" "xi_numRead it' = of_nat (length xs)"
      "xi_numTotal it' = xi_numTotal it"
    unfolding reads_all_def by (fastforce simp: it_def unat_of_nat)
  with it h show thesis by (intro that [of it it']) (auto simp: iter_match_def it_def)
qed

lemma holds_chunk_samples:
  assumes "chunk_holds a xs"
  shows "chunk_samples (xa_chunk a) = Some (xs, None)"
  by (rule holds_iterator [OF assms]) (simp add: chunk_samples_def drain_reads xorIterator_Err_def)

lemma holds_NumSamples:
  assumes "chunk_holds a xs"
  shows "XORChunk_NumSamples (xa_chunk a) = Some (length xs)"
proof -
  from assms obtain bits where "bs_rep (xa_b a) (bytes_bits (PutUint16 (of_nat (length xs))) @ bits)" "length xs \<le> 65535"
    by (auto simp: chunk_holds_def)
  with Uint16_header [of "xa_b a"] show ?thesis
    by (simp add: XORChunk_NumSamples_def XORChunk_Bytes_def xa_chunk_def unat_of_nat)
qed

lemma stream_length: "bs_rep b bits \<Longrightarrow> 8 * length (bs_stream b) = length bits + unat (bs_count b) \<and> unat (bs_count b) < 8"
  by (metis bs_rep_def length_append length_bytes_bits length_replicate)

definition fresh_appender :: "bstream \<Rightarrow> xorAppender" where
  "fresh_appender b = \<lparr>xa_b = b, xa_t = MinInt64, xa_v = 0, xa_tDelta = 0, xa_leading = 0xff, xa_trailing = 0\<rparr>"

lemma fresh_holds:
  assumes "bs_rep b (bytes_bits (PutUint16 0))"
  shows "chunk_holds (fresh_appender b) []"
proof -
  let ?s = "\<lparr>xs_t = MinInt64, xs_val = 0, xs_tDelta = 0, xs_leading = 0, xs_trailing = 0\<rparr>"
  have "reads_all [] [] ?s" by (auto simp: reads_all_def iter_match_def intro: iter_reads.none)
  moreover have "appender_match 0 (fresh_appender b) ?s"
    by (simp add: appender_match_def window_match_def fresh_appender_def)
  ultimately show ?thesis
    unfolding chunk_holds_def using assms
    by (intro conjI exI [of _ "[]"] exI [of _ ?s]) (simp_all add: fresh_appender_def)
qed

lemma new_rep: "bs_rep (xc_b NewXORChunk) (bytes_bits (PutUint16 0))"
  by (simp add: bs_rep_def NewXORChunk_def chunkHeaderSize_def PutUint16_def numeral_2_eq_2)

lemma reopen_holds:
  assumes "chunk_holds a xs"
  obtains a' where "XORChunk_Appender (xa_chunk a) = Some (Inr a')" "chunk_holds a' xs"
proof -
  let ?num = "of_nat (length xs) :: uint16"
  obtain it it' bits s where it: "XORChunk_iterator (xa_chunk a) = Some it" "xorIterator_drain it = (xs, it')" "xi_err it' = None"
      "xi_numRead it' = ?num" "bs_rep (xa_b a) (bytes_bits (PutUint16 ?num) @ bits)" "length bits \<le> 157 * length xs"
      "iter_match it' s" "appender_match ?num a s" "reads_all bits xs s" "bits = [] \<longleftrightarrow> xs = []"
    by (rule holds_iterator [OF assms]) (use drain_reads in metis)
  have len: "length xs \<le> 65535" using assms by (simp add: chunk_holds_def)
  have size: "8 * length (bs_stream (xa_b a)) = 16 + length bits + unat (bs_count (xa_b a))" "unat (bs_count (xa_b a)) < 8"
    using stream_length [OF it(5)] by simp_all
  show thesis
  proof (cases "xs = []")
    case True
    then have "length (bs_stream (xa_b a)) = 2" using it(10) size by simp
    then have "XORChunk_Appender (xa_chunk a) = Some (Inr (fresh_appender (xa_b a)))"
      by (simp add: XORChunk_Appender_def xa_chunk_def chunkHeaderSize_def fresh_appender_def)
    moreover have "chunk_holds (fresh_appender (xa_b a)) xs" using it(5,10) True fresh_holds by simp
    ultimately show thesis by (rule that)
  next
    case False
    then have "length (bs_stream (xa_b a)) \<noteq> 2" using it(10) size by auto
    let ?a = "\<lparr>xa_b = xa_b a, xa_t = xi_t it', xa_v = xi_val it', xa_tDelta = xi_tDelta it',
      xa_leading = xi_leading it', xa_trailing = xi_trailing it'\<rparr>"
    have nz: "?num \<noteq> 0"
    proof
      assume "?num = 0"
      then have "unat ?num = 0" by simp
      then show False using False len by (simp add: unat_of_nat)
    qed
    have "XORChunk_Appender (xa_chunk a) = Some (Inr ?a)"
      using \<open>length (bs_stream (xa_b a)) \<noteq> 2\<close> it(1-3)
      by (simp add: XORChunk_Appender_def chunkHeaderSize_def xorIterator_Err_def) (simp add: xa_chunk_def)
    moreover have "appender_match ?num ?a s"
      using it(4,7,8) nz by (simp add: appender_match_def iter_match_def window_match_def)
    then have "chunk_holds ?a xs"
      unfolding chunk_holds_def using it(5,6,9,10) len
      by (intro conjI exI [of _ bits] exI [of _ s]) simp_all
    ultimately show thesis by (rule that)
  qed
qed

lemma sessions_hold:
  "chunk_holds a xs \<Longrightarrow> length xs + length (concat xss) \<le> 65535 \<Longrightarrow>
    \<exists>a'. append_sessions (xa_chunk a) xss = Some (xa_chunk a') \<and> chunk_holds a' (xs @ concat xss)"
proof (induction xss arbitrary: a xs)
  case (Cons ys xss)
  obtain a1 where a1: "XORChunk_Appender (xa_chunk a) = Some (Inr a1)" "chunk_holds a1 xs"
    by (rule reopen_holds [OF Cons.prems(1)])
  from append_all_holds [OF a1(2), of ys] Cons.prems(2) obtain a2
    where a2: "append_all a1 ys = Some a2" "chunk_holds a2 (xs @ ys)" by auto
  from Cons.IH [OF a2(2)] Cons.prems(2) a1 a2 show ?case by auto
qed auto

lemma new_chunk: "NewXORChunk = xa_chunk (fresh_appender (xc_b NewXORChunk))"
  by (simp add: xa_chunk_def fresh_appender_def)

lemma append_all_append:
  "append_all a (xs @ ys) = (case append_all a xs of None \<Rightarrow> None | Some a' \<Rightarrow> append_all a' ys)"
  by (induction a xs rule: append_all.induct) (auto split: option.splits)

lemma append_growth:
  assumes "chunk_holds a xs" "xorAppender_Append a t v = Some a'"
  shows "8 * length (bs_stream (xa_b a')) \<le> 8 * length (bs_stream (xa_b a)) + sample_bits_max (of_nat (length xs)) + 7"
proof -
  let ?num = "of_nat (length xs) :: uint16"
  from assms(1) obtain bits s where h: "bs_rep (xa_b a) (bytes_bits (PutUint16 ?num) @ bits)" "appender_match ?num a s"
    by (auto simp: chunk_holds_def)
  moreover have "?num \<noteq> 0xffff"
    using assms(2) Uint16_header [OF h(1)] by (auto simp: xorAppender_Append_def)
  ultimately obtain bs where "bs_rep (xa_b a') (bytes_bits (PutUint16 (?num + 1)) @ bits @ bs)"
      "length bs \<le> sample_bits_max ?num"
    using append_step [of a ?num bits s t v] assms(2) by auto
  from stream_length [OF this(1)] stream_length [OF h(1)] this(2) show ?thesis by simp
qed

lemma holds_size: "chunk_holds a xs \<Longrightarrow> 8 * length (bs_stream (xa_b a)) \<le> 16 + 157 * length xs + 7"
  by (auto simp: chunk_holds_def dest!: stream_length)

lemma unat_uint16: "unat (w :: uint16) < 65536"
  by (rule order_less_le_trans [OF unsigned_less]) simp

text \<open>\<open>Seek\<close> on an iterator that can still read \<open>xs\<close> stops at the first sample that is not before \<open>t\<close>.\<close>

lemma Seek_loop_reads:
  assumes "iter_reads it xs it'" "unat (xi_numRead it) + length xs = unat (xi_numTotal it)"
    and "xi_t it <s t \<or> xi_numRead it = 0" "xi_numRead it' = xi_numTotal it'"
  shows "case dropWhile (\<lambda>x. fst x <s t) xs of
      [] \<Rightarrow> xorIterator_Seek_loop it t = (ValNone, it')
    | x # _ \<Rightarrow> \<exists>it1. xorIterator_Seek_loop it t = (ValFloat, it1) \<and> xorIterator_At it1 = x"
  using assms
proof (induction it xs it' rule: iter_reads.induct)
  case (none it)
  then show ?case by (simp add: xorIterator_Seek_loop.simps Next_end)
next
  case (step it it1 xs it2)
  note f = Next_frame [OF step.hyps(1)]
  have "unat (xi_numRead it1) = unat (xi_numRead it) + 1"
    using f step.prems(1) unat_uint16 [of "xi_numTotal it"] by (simp add: unat_word_ariths)
  then have n: "unat (xi_numRead it1) + length xs = unat (xi_numTotal it1)" "xi_numRead it1 \<noteq> 0"
    using f(1) step.prems(1) by auto
  have unroll: "xorIterator_Seek_loop it t = xorIterator_Seek_loop it1 t"
    using step by (simp add: xorIterator_Seek_loop.simps [of it])
  show ?case
  proof (cases "xi_t it1 <s t")
    case True
    with step.IH n step.prems show ?thesis unfolding unroll by (simp add: xorIterator_At_def)
  next
    case False
    with n show ?thesis by (simp add: unroll xorIterator_At_def xorIterator_Seek_loop.simps [of it1])
  qed
qed

lemma holds_Seek:
  assumes "chunk_holds a xs"
  shows "\<exists>it. XORChunk_iterator (xa_chunk a) = Some it \<and>
    (case dropWhile (\<lambda>x. fst x <s t) xs of
       [] \<Rightarrow> fst (xorIterator_Seek it t) = ValNone \<and> xorIterator_Err (snd (xorIterator_Seek it t)) = None
     | x # _ \<Rightarrow> fst (xorIterator_Seek it t) = ValFloat \<and> xorIterator_At (snd (xorIterator_Seek it t)) = x)"
proof -
  obtain it it' where it: "XORChunk_iterator (xa_chunk a) = Some it" "iter_reads it xs it'" "xi_numRead it = 0"
      "xi_numTotal it = of_nat (length xs)" "xi_numRead it' = of_nat (length xs)" "xi_numTotal it' = of_nat (length xs)"
      "xi_err it' = None"
    by (rule holds_iterator [OF assms]) blast
  have "length xs \<le> 65535" using assms by (simp add: chunk_holds_def)
  then have "unat (xi_numRead it) + length xs = unat (xi_numTotal it)" using it(3,4) by (simp add: unat_of_nat)
  from Seek_loop_reads [OF it(2) this, of t] it
  have "case dropWhile (\<lambda>x. fst x <s t) xs of
      [] \<Rightarrow> xorIterator_Seek_loop it t = (ValNone, it')
    | x # _ \<Rightarrow> \<exists>it1. xorIterator_Seek_loop it t = (ValFloat, it1) \<and> xorIterator_At it1 = x" by simp
  moreover have "xi_err it = None"
    using it(1) by (auto simp: XORChunk_iterator_def split: option.splits)
  ultimately show ?thesis
    using it(1,7)
    by (cases "dropWhile (\<lambda>x. fst x <s t) xs")
      (auto simp: xorIterator_Seek_def xorIterator_Err_def simp del: dropWhile_eq_Nil_conv)
qed

lemma append_all_fresh_iff:
  "(\<exists>a'. append_all (fresh_appender (xc_b NewXORChunk)) xs = Some a') \<longleftrightarrow> length xs \<le> 65535"
proof
  assume "length xs \<le> 65535"
  with append_all_holds [OF fresh_holds [OF new_rep], of xs]
  show "\<exists>a'. append_all (fresh_appender (xc_b NewXORChunk)) xs = Some a'" by auto
next
  let ?a0 = "fresh_appender (xc_b NewXORChunk)"
  assume ex: "\<exists>a'. append_all ?a0 xs = Some a'"
  show "length xs \<le> 65535"
  proof (rule ccontr)
    assume "\<not> length xs \<le> 65535"
    then obtain t v rest where xs: "xs = take 65535 xs @ (t, v) # rest" "length (take 65535 xs) = 65535"
      using id_take_nth_drop [of 65535 xs] by (cases "xs ! 65535") simp
    from append_all_holds [OF fresh_holds [OF new_rep], of "take 65535 xs"] xs(2)
    obtain a1 where a1: "append_all ?a0 (take 65535 xs) = Some a1" "chunk_holds a1 (take 65535 xs)" by auto
    have "append_all ?a0 xs = append_all a1 ((t, v) # rest)"
      using append_all_append [of ?a0 "take 65535 xs" "(t, v) # rest"] a1(1) xs(1) by simp
    with ex holds_full [OF a1(2) xs(2), of t v] show False by simp
  qed
qed

lemma append_all_fresh:
  assumes "append_all (fresh_appender (xc_b NewXORChunk)) xs = Some a"
  shows "chunk_holds a xs" "length xs \<le> 65535"
  using append_all_fresh_iff [of xs] append_all_holds [OF fresh_holds [OF new_rep], of xs] assms by auto

section \<open>Properties\<close>

text \<open>
  C1. An XOR chunk holds the samples appended to it: for any split of at most 65535 samples into
  sessions, each opened with \<open>Appender\<close> on the chunk the previous one left (which drains an iterator
  to recover the appender's state), a fresh iterator returns all samples in order, every timestamp
  and every float bit for bit, and ends without an error; \<open>NumSamples\<close> is their number.
\<close>

theorem xor_chunk_roundtrip:
  assumes "length (concat xss) \<le> 65535"
  shows "\<exists>c. append_sessions NewXORChunk xss = Some c \<and> chunk_samples c = Some (concat xss, None) \<and>
    XORChunk_NumSamples c = Some (length (concat xss))"
proof -
  from sessions_hold [OF fresh_holds [OF new_rep], of xss] assms obtain a'
    where "append_sessions NewXORChunk xss = Some (xa_chunk a')" "chunk_holds a' (concat xss)"
    by (auto simp flip: new_chunk)
  with holds_chunk_samples holds_NumSamples show ?thesis by auto
qed

theorem xor_chunk_roundtrip_witness:
  "\<exists>c. append_sessions NewXORChunk [[(1000, 42), (2000, 43)], [], [(-5, 43)]] = Some c \<and>
    chunk_samples c = Some ([(1000, 42), (2000, 43), (-5, 43)], None) \<and> XORChunk_NumSamples c = Some 3"
  using xor_chunk_roundtrip [of "[[(1000, 42), (2000, 43)], [], [(-5, 43)]]"] by (simp add: numeral_3_eq_3 del: append_sessions.simps)

text \<open>
  C28. A new chunk takes every sequence of up to 65535 samples, and appending panics for any longer
  one: the sample count in the header is 16 bits wide and the code guards it.
\<close>

theorem xor_chunk_capacity:
  "(\<exists>a'. append_all (fresh_appender (xc_b NewXORChunk)) xs = Some a') \<longleftrightarrow> length xs \<le> 65535"
  by (rule append_all_fresh_iff)

text \<open>
  \<open>MaxBytesPerXORChunkBeforeAppend\<close> is a safe limit: when a chunk of any samples is within it
  before an append, the chunk is within \<open>MaxBytesPerXORChunk\<close> after it, so one sample never adds
  more than 19 bytes from the third one on.
\<close>

theorem xor_chunk_size:
  assumes "append_all (fresh_appender (xc_b NewXORChunk)) xs = Some a"
    and "length (XORChunk_Bytes (xa_chunk a)) \<le> MaxBytesPerXORChunkBeforeAppend"
    and "xorAppender_Append a t v = Some a'"
  shows "length (XORChunk_Bytes (xa_chunk a')) \<le> MaxBytesPerXORChunk"
proof -
  note h = append_all_fresh(1) [OF assms(1)]
  show ?thesis
  proof (cases "length xs < 2")
    case True
    with holds_size [OF h] append_growth [OF h assms(3)] show ?thesis
      by (simp add: XORChunk_Bytes_def bs_bytes_def xa_chunk_def MaxBytesPerXORChunk_def sample_bits_max_def split: if_splits)
  next
    case False
    have "unat (of_nat (length xs) :: uint16) = length xs" using append_all_fresh(2) [OF assms(1)] by (simp add: unat_of_nat)
    with False have "(of_nat (length xs) :: uint16) \<noteq> 0" "(of_nat (length xs) :: uint16) \<noteq> 1" by auto
    with assms(2) append_growth [OF h assms(3)] show ?thesis
      by (simp add: XORChunk_Bytes_def bs_bytes_def xa_chunk_def MaxBytesPerXORChunk_def
          MaxBytesPerXORChunkBeforeAppend_def sample_bits_max_def)
  qed
qed

text \<open>
  \<open>Seek\<close> on a fresh iterator stops at the first sample whose timestamp is not before the target,
  or returns \<open>ValNone\<close> without an error when there is none.
\<close>

theorem xor_iterator_seek:
  assumes "append_all (fresh_appender (xc_b NewXORChunk)) xs = Some a"
  shows "\<exists>it. XORChunk_iterator (xa_chunk a) = Some it \<and>
    (case dropWhile (\<lambda>x. fst x <s t) xs of
       [] \<Rightarrow> fst (xorIterator_Seek it t) = ValNone \<and> xorIterator_Err (snd (xorIterator_Seek it t)) = None
     | x # _ \<Rightarrow> fst (xorIterator_Seek it t) = ValFloat \<and> xorIterator_At (snd (xorIterator_Seek it t)) = x)"
  using holds_Seek [OF append_all_fresh(1) [OF assms]] .

text \<open>
  The hand-inlined fast paths of \<open>Next\<close> and \<open>readValue\<close>, which look at the bits left in the
  reader's buffer, return the same value type and leave the same iterator as the general code that
  reads bit by bit.
\<close>

theorem xor_next_fast_path:
  assumes "br_valid (xi_br it) \<le> 64" "mbits_ok (xi_leading it) (xi_trailing it)"
    and "xi_err it = None" "xi_numRead it \<noteq> xi_numTotal it" "xi_numRead it \<noteq> 0" "xi_numRead it \<noteq> 1"
  shows "xorIterator_Next it = Next_dod it \<and> readValue it = readValue_slow it"
  using Next_eq_slow [OF assms] readValue_eq_slow [OF assms(1,2)] by simp

definition ex_iter :: xorIterator where
  "ex_iter = \<lparr>xi_br = \<lparr>br_stream = [0xff, 0x00], br_streamOffset = 1, br_buffer = 0x2d, br_valid = 8, br_last = 0\<rparr>,
     xi_numTotal = 9, xi_numRead = 4, xi_t = 100, xi_val = 7, xi_leading = 31, xi_trailing = 29, xi_tDelta = 10, xi_err = None\<rparr>"

end
