(* ===== verification/BitCodecs.thy ===== *)
theory BitCodecs
  imports Varbit
begin

text \<open>
  Writing to a bit stream and reading it back. The contract \<open>bit_codec\<close> ties an encoder of the
  stream writer to a decoder of the stream reader through the bits that stand for a value; what
  follows from it for whole sequences of values is proved once and used for the variable bit-width
  codecs, which interpret it. The last section collects the properties of the bit stream.
\<close>

definition empty_bstream :: bstream where
  "empty_bstream = \<lparr>bs_stream = [], bs_count = 0\<rparr>"

lemma empty_bstream_rep: "bs_rep empty_bstream []"
  by (simp add: empty_bstream_def bs_rep_def)

lemma decodes_new:
  assumes "decodes br_ok br_bits m xs x" "bs_rep b xs"
  shows "fst (m (newBReader (bs_stream b))) = Inr x"
proof -
  have "br_bits (newBReader (bs_stream b)) = xs @ replicate (unat (bs_count b)) False"
    using assms(2) by (simp add: bs_rep_def)
  with assms(1) show ?thesis by (metis decodesE newBReader_ok fst_conv)
qed

locale bit_codec =
  fixes put :: "bstream \<Rightarrow> 'a \<Rightarrow> bstream" and rd :: "(bstreamReader, 'a) stm" and enc :: "'a \<Rightarrow> bool list"
  assumes put: "bs_rep b bits \<Longrightarrow> bs_rep (put b x) (bits @ enc x)"
    and rd: "decodes br_ok br_bits rd (enc x) x"
begin

lemma put_all: "bs_rep b bits \<Longrightarrow> bs_rep (foldl put b xs) (bits @ concat (map enc xs))"
proof (induction xs arbitrary: b bits)
  case (Cons x xs)
  from Cons.IH [OF put [OF Cons.prems, of x]] show ?case by simp
qed simp

lemma roundtrip: "fst (repeatR (length xs) rd (newBReader (bs_stream (foldl put empty_bstream xs)))) = Inr xs"
  using decodes_repeat [OF rd, of xs] put_all [OF empty_bstream_rep, of xs] by (intro decodes_new) simp_all

end

text \<open>Two encoders with the same bits write the same stream.\<close>

lemma same_bits_same_stream:
  assumes "bs_rep b bits" "\<And>b bits. bs_rep b bits \<Longrightarrow> bs_rep (f b) (bits @ bs)" "\<And>b bits. bs_rep b bits \<Longrightarrow> bs_rep (g b) (bits @ bs)"
  shows "f b = g b"
  using assms by (intro bs_rep_unique) blast+

interpretation varbitInt: bit_codec putVarbitInt readVarbitInt varbitInt_bits
  by unfold_locales (rule putVarbitInt_rep readVarbitInt_decodes, assumption?)+

interpretation varbitIntFast: bit_codec putVarbitIntFast readVarbitInt varbitInt_bits
  by unfold_locales (rule putVarbitIntFast_rep readVarbitInt_decodes, assumption?)+

interpretation varbitUint: bit_codec putVarbitUint readVarbitUint varbitUint_bits
  by unfold_locales (rule putVarbitUint_rep readVarbitUint_decodes, assumption?)+

section \<open>Fields of given widths\<close>

fun read_fields :: "uint8 list \<Rightarrow> (bstreamReader, uint64 list) stm" where
  "read_fields [] = returnR []"
| "read_fields (n # ns) = bindR (readBits n) (\<lambda>x. bindR (read_fields ns) (\<lambda>xs. returnR (x # xs)))"

definition write_fields :: "bstream \<Rightarrow> (uint64 \<times> uint8) list \<Rightarrow> bstream" where
  "write_fields b fs = foldl (\<lambda>b f. writeBits b (fst f) (unat (snd f))) b fs"

lemma read_fields_decodes:
  "\<forall>f \<in> set fs. 0 < snd f \<and> snd f \<le> 64 \<Longrightarrow>
    decodes br_ok br_bits (read_fields (map snd fs)) (concat (map (\<lambda>f. bits_msb (unat (snd f)) (fst f)) fs))
      (map (\<lambda>f. take_bit (unat (snd f)) (fst f)) fs)"
proof (induction fs)
  case (Cons f fs)
  have "decodes br_ok br_bits (read_fields (map snd (f # fs)))
      (bits_msb (unat (snd f)) (fst f) @ concat (map (\<lambda>f. bits_msb (unat (snd f)) (fst f)) fs) @ [])
      (map (\<lambda>f. take_bit (unat (snd f)) (fst f)) (f # fs))"
    unfolding list.map read_fields.simps
    using Cons br.rdBits [of "snd f" "bits_msb (unat (snd f)) (fst f)"]
    by (intro decodes_bind [where x = "take_bit (unat (snd f)) (fst f)"]
        decodes_bind [where x = "map (\<lambda>f. take_bit (unat (snd f)) (fst f)) fs"]) (simp_all add: of_bits_bits_msb)
  then show ?case by simp
qed simp

lemma write_fields_rep:
  "\<forall>f \<in> set fs. snd f \<le> 64 \<Longrightarrow> bs_rep b bits \<Longrightarrow>
    bs_rep (write_fields b fs) (bits @ concat (map (\<lambda>f. bits_msb (unat (snd f)) (fst f)) fs))"
proof (induction fs arbitrary: b bits)
  case (Cons f fs)
  have "unat (snd f) \<le> 64" using Cons.prems(1) by (simp add: word_le_nat_alt)
  from Cons.IH [OF _ writeBits_rep [OF Cons.prems(2) this, of "fst f"]] Cons.prems(1)
  show ?case by (simp add: write_fields_def)
qed (simp add: write_fields_def)

section \<open>Properties\<close>

text \<open>
  Fields of 1 to 64 bits written with writeBits are read back by readBits, each reduced to
  its width.
\<close>

theorem bstream_fields_roundtrip:
  assumes "\<forall>f \<in> set fs. 0 < snd f \<and> snd f \<le> 64"
  shows "fst (read_fields (map snd fs) (newBReader (bs_stream (write_fields empty_bstream fs))))
    = Inr (map (\<lambda>f. take_bit (unat (snd f)) (fst f)) fs)"
  using read_fields_decodes [OF assms] write_fields_rep [of fs, OF _ empty_bstream_rep] assms by (intro decodes_new) simp_all

text \<open>
  writeBitsFast writes the same stream as writeBits, from every state the writer can be in.
\<close>

theorem bstream_fast_write:
  assumes "bs_rep b bits" "n \<le> 64"
  shows "writeBitsFast b u n = writeBits b u n"
  using assms by (intro bs_rep_unique [OF writeBitsFast_rep writeBits_rep])

text \<open>
  A read does not depend on the last byte of the stream as it is now: the reader took a
  copy of it when it was made, so an append that changes this byte does not disturb it.
\<close>

theorem bstream_reader_ignores_last_byte:
  assumes "same_but_last (br_stream b) s"
  shows "fst (readBits n (with_stream s b)) = fst (readBits n b) \<and> fst (readBit (with_stream s b)) = fst (readBit b)"
  using readBits_same_but_last [OF assms, of n] readBit_same_but_last [OF assms] by simp

text \<open>
  Signed integers written with putVarbitInt are read back by readVarbitInt.
\<close>

theorem varbit_int_roundtrip:
  "fst (repeatR (length xs) readVarbitInt (newBReader (bs_stream (foldl putVarbitInt empty_bstream xs)))) = Inr xs"
  by (rule varbitInt.roundtrip)

text \<open>
  Unsigned integers written with putVarbitUint are read back by readVarbitUint.
\<close>

theorem varbit_uint_roundtrip:
  "fst (repeatR (length xs) readVarbitUint (newBReader (bs_stream (foldl putVarbitUint empty_bstream xs)))) = Inr xs"
  by (rule varbitUint.roundtrip)

text \<open>
  putVarbitIntFast writes the same stream as putVarbitInt.
\<close>

theorem varbit_fast_put:
  assumes "bs_rep b bits"
  shows "foldl putVarbitIntFast b xs = foldl putVarbitInt b xs"
  using varbitIntFast.put_all [OF assms, of xs] varbitInt.put_all [OF assms, of xs] by (rule bs_rep_unique)

text \<open>
  Reading 64 bits from a reader with 15 bits left returns a value and no error, and the
  count of valid bits underflows.
\<close>

theorem bstream_truncated_read_no_error:
  "readBits 64 (snd (readBit (newBReader [0x81, 0x01]))) =
    (Inr (2 ^ 57), \<lparr>br_stream = [0x81, 0x01], br_streamOffset = 2, br_buffer = 1, br_valid = 207, br_last = 1\<rparr>)"
  by code_simp

end
