(* ===== verification/LabelSet.thy ===== *)
theory LabelSet
  imports Go_Prelude
begin

text \<open>The label type of \<open>model/labels\<close>. Strings are lists of bytes.\<close>

record Label =
  Name :: "byte list"
  Value :: "byte list"

type_synonym Labels = "Label list"

end
