(* ===== verification/Encoding.thy ===== *)
theory Encoding
  imports Go_Binary
begin

text \<open>
  The buffers of \<open>tsdb/encoding/encoding.go\<close>: \<open>Encbuf\<close> appends encoded values to a byte slice,
  \<open>Decbuf\<close> takes them off again with bounds checks and a sticky error. \<open>Decbuf\<close> decodes varints
  with the third-party function \<open>varint.Uvarint\<close> (github.com/dennwc/varint), which is a parameter
  \<open>vu\<close> of the model; the locale \<open>varint_lib\<close> states what its documentation promises and is
  interpreted on the standard library's \<open>binary.Uvarint\<close>.

  The scratch array \<open>C\<close> of \<open>Encbuf\<close> is written before each use and never read by a caller, so the
  model keeps the slice only. Memory is unbounded: an allocation never fails.
\<close>

section \<open>Encbuf\<close>

record Encbuf =
  eb_B :: "byte list"

definition Encbuf_Reset :: "Encbuf \<Rightarrow> Encbuf" where
  "Encbuf_Reset e = e\<lparr>eb_B := []\<rparr>"

definition Encbuf_Get :: "Encbuf \<Rightarrow> byte list" where
  "Encbuf_Get e = eb_B e"

definition Encbuf_Len :: "Encbuf \<Rightarrow> nat" where
  "Encbuf_Len e = length (eb_B e)"

definition PutBytes :: "byte list \<Rightarrow> Encbuf \<Rightarrow> Encbuf" where
  "PutBytes b e = e\<lparr>eb_B := eb_B e @ b\<rparr>"

definition PutString :: "byte list \<Rightarrow> Encbuf \<Rightarrow> Encbuf" where
  "PutString s e = e\<lparr>eb_B := eb_B e @ s\<rparr>"

definition PutByte :: "byte \<Rightarrow> Encbuf \<Rightarrow> Encbuf" where
  "PutByte c e = e\<lparr>eb_B := eb_B e @ [c]\<rparr>"

definition PutBE32 :: "uint32 \<Rightarrow> Encbuf \<Rightarrow> Encbuf" where
  "PutBE32 x e = e\<lparr>eb_B := eb_B e @ PutUint32 x\<rparr>"

definition PutBE64 :: "uint64 \<Rightarrow> Encbuf \<Rightarrow> Encbuf" where
  "PutBE64 x e = e\<lparr>eb_B := eb_B e @ PutUint64 x\<rparr>"

definition PutBEFloat64 :: "float64 \<Rightarrow> Encbuf \<Rightarrow> Encbuf" where
  "PutBEFloat64 x = PutBE64 x"

definition PutUvarint64 :: "uint64 \<Rightarrow> Encbuf \<Rightarrow> Encbuf" where
  "PutUvarint64 x e = e\<lparr>eb_B := eb_B e @ PutUvarint x\<rparr>"

definition PutVarint64 :: "int64 \<Rightarrow> Encbuf \<Rightarrow> Encbuf" where
  "PutVarint64 x e = e\<lparr>eb_B := eb_B e @ PutVarint x\<rparr>"

definition PutBE32int :: "int64 \<Rightarrow> Encbuf \<Rightarrow> Encbuf" where
  "PutBE32int x = PutBE32 (ucast x)"

definition PutUvarint32 :: "uint32 \<Rightarrow> Encbuf \<Rightarrow> Encbuf" where
  "PutUvarint32 x = PutUvarint64 (ucast x)"

definition PutBE64int64 :: "int64 \<Rightarrow> Encbuf \<Rightarrow> Encbuf" where
  "PutBE64int64 x = PutBE64 x"

definition PutUvarintInt :: "int64 \<Rightarrow> Encbuf \<Rightarrow> Encbuf" where
  "PutUvarintInt x = PutUvarint64 x"

definition PutUvarintStr :: "byte list \<Rightarrow> Encbuf \<Rightarrow> Encbuf" where
  "PutUvarintStr s e = PutString s (PutUvarintInt (of_nat (length s)) e)"

definition PutUvarintBytes :: "byte list \<Rightarrow> Encbuf \<Rightarrow> Encbuf" where
  "PutUvarintBytes b e = PutBytes b (PutUvarintInt (of_nat (length b)) e)"

text \<open>
  A \<open>hash.Hash\<close> is the bytes written to it since the last reset, together with the function \<open>digest\<close>
  from those bytes to the digest that \<open>Sum\<close> appends (4 big-endian bytes for \<open>crc32\<close>).
\<close>

definition WriteToHash :: "Encbuf \<Rightarrow> byte list \<Rightarrow> byte list" where
  "WriteToHash e h = h @ eb_B e"

definition PutHashSum :: "(byte list \<Rightarrow> byte list) \<Rightarrow> byte list \<Rightarrow> Encbuf \<Rightarrow> Encbuf" where
  "PutHashSum digest h e = e\<lparr>eb_B := eb_B e @ digest h\<rparr>"

definition PutHash :: "(byte list \<Rightarrow> byte list) \<Rightarrow> Encbuf \<Rightarrow> Encbuf" where
  "PutHash digest e = PutHashSum digest (WriteToHash e []) e"

definition crc32_sum :: "byte list \<Rightarrow> byte list" where
  "crc32_sum h = PutUint32 (crc32_Checksum h)"

section \<open>Decbuf\<close>

record Decbuf =
  db_B :: "byte list"
  db_E :: "go_error option"

text \<open>\<open>None\<close> is a run-time panic of a slice expression.\<close>

type_synonym 'a dec = "Decbuf \<Rightarrow> ('a \<times> Decbuf) option"

definition returnD :: "'a \<Rightarrow> 'a dec" where
  "returnD x d = Some (x, d)"

definition bindD :: "'a dec \<Rightarrow> ('a \<Rightarrow> 'b dec) \<Rightarrow> 'b dec" where
  "bindD m f d = (case m d of None \<Rightarrow> None | Some (x, d') \<Rightarrow> f x d')"

definition mapD :: "('a \<Rightarrow> 'b) \<Rightarrow> 'a dec \<Rightarrow> 'b dec" where
  "mapD g m = bindD m (\<lambda>x. returnD (g x))"

text \<open>The slice expressions \<open>b[lo:hi]\<close> and \<open>b[n:]\<close> with signed 64-bit indices.\<close>

definition slice_range :: "byte list \<Rightarrow> int64 \<Rightarrow> int64 \<Rightarrow> byte list option" where
  "slice_range b lo hi =
     (if 0 \<le> sint lo \<and> sint lo \<le> sint hi \<and> sint hi \<le> int (length b)
      then Some (drop (nat (sint lo)) (take (nat (sint hi)) b)) else None)"

definition slice_from :: "byte list \<Rightarrow> int \<Rightarrow> byte list option" where
  "slice_from b n = (if 0 \<le> n \<and> n \<le> int (length b) then Some (drop (nat n) b) else None)"

definition Decbuf_Crc32 :: "(byte list \<Rightarrow> uint32) \<Rightarrow> Decbuf \<Rightarrow> uint32" where
  "Decbuf_Crc32 checksum d = checksum (db_B d)"

text \<open>
  The constructors. The byte slice interface is the slice it ranges over; the checksum table is
  the checksum function, or \<open>None\<close> for a nil table.
\<close>

definition NewDecbufAt :: "byte list \<Rightarrow> int64 \<Rightarrow> (byte list \<Rightarrow> uint32) option \<Rightarrow> Decbuf option" where
  "NewDecbufAt bs off table =
     (if int (length bs) < sint (off + 4) then Some \<lparr>db_B = [], db_E = Some ErrInvalidSize\<rparr>
      else case slice_range bs off (off + 4) of
        None \<Rightarrow> None
      | Some b \<Rightarrow>
          let l = ucast (the (Uint32 b)) :: int64 in
          if int (length bs) < sint (off + 4 + l + 4) then Some \<lparr>db_B = [], db_E = Some ErrInvalidSize\<rparr>
          else (case slice_range bs (off + 4) (off + 4 + l + 4) of
            None \<Rightarrow> None
          | Some b \<Rightarrow>
              let dec = \<lparr>db_B = take (length b - 4) b, db_E = None\<rparr> in
              (case table of
                 None \<Rightarrow> Some dec
               | Some checksum \<Rightarrow>
                   if Decbuf_Crc32 checksum dec \<noteq> the (Uint32 (drop (length b - 4) b))
                   then Some \<lparr>db_B = [], db_E = Some ErrInvalidChecksum\<rparr> else Some dec)))"

definition NewDecbufUvarintAt ::
  "(byte list \<Rightarrow> uint64 \<times> int) \<Rightarrow> byte list \<Rightarrow> int64 \<Rightarrow> (byte list \<Rightarrow> uint32) \<Rightarrow> Decbuf option" where
  "NewDecbufUvarintAt vu bs off checksum =
     (if int (length bs) < sint (off + of_nat MaxVarintLen32) then Some \<lparr>db_B = [], db_E = Some ErrInvalidSize\<rparr>
      else case slice_range bs off (off + of_nat MaxVarintLen32) of
        None \<Rightarrow> None
      | Some b \<Rightarrow>
          (case vu b of (l, n) \<Rightarrow>
             if n \<le> 0 \<or> n > int MaxVarintLen32
             then Some \<lparr>db_B = [], db_E = Some (ErrInvalid ''invalid uvarint'')\<rparr>
             else if int (length bs) < sint (off + word_of_int n + l + 4)
             then Some \<lparr>db_B = [], db_E = Some ErrInvalidSize\<rparr>
             else (case slice_range bs (off + word_of_int n) (off + word_of_int n + l + 4) of
               None \<Rightarrow> None
             | Some b \<Rightarrow>
                 if length b < 4 then None
                 else let dec = \<lparr>db_B = take (length b - 4) b, db_E = None\<rparr> in
                      if Decbuf_Crc32 checksum dec \<noteq> the (Uint32 (drop (length b - 4) b))
                      then Some \<lparr>db_B = [], db_E = Some ErrInvalidChecksum\<rparr> else Some dec)))"

definition NewDecbufRaw :: "byte list \<Rightarrow> int64 \<Rightarrow> Decbuf option" where
  "NewDecbufRaw bs len =
     (if int (length bs) < sint len then Some \<lparr>db_B = [], db_E = Some ErrInvalidSize\<rparr>
      else map_option (\<lambda>b. \<lparr>db_B = b, db_E = None\<rparr>) (slice_range bs 0 len))"

definition Decbuf_Uvarint64 :: "(byte list \<Rightarrow> uint64 \<times> int) \<Rightarrow> uint64 dec" where
  "Decbuf_Uvarint64 vu d =
     (if db_E d \<noteq> None then Some (0, d)
      else case vu (db_B d) of (x, n) \<Rightarrow>
        if n < 1 then Some (0, d\<lparr>db_E := Some ErrInvalidSize\<rparr>)
        else map_option (\<lambda>b. (x, d\<lparr>db_B := b\<rparr>)) (slice_from (db_B d) n))"

definition Decbuf_Varint64 :: "(byte list \<Rightarrow> uint64 \<times> int) \<Rightarrow> int64 dec" where
  "Decbuf_Varint64 vu d =
     (if db_E d \<noteq> None then Some (0, d)
      else case vu (db_B d) of (ux, n) \<Rightarrow>
        if n < 1 then Some (0, d\<lparr>db_E := Some ErrInvalidSize\<rparr>)
        else map_option (\<lambda>b. (unzigzag ux, d\<lparr>db_B := b\<rparr>)) (slice_from (db_B d) n))"

definition Decbuf_Uvarint :: "(byte list \<Rightarrow> uint64 \<times> int) \<Rightarrow> int64 dec" where
  "Decbuf_Uvarint vu = Decbuf_Uvarint64 vu"

definition Decbuf_Uvarint32 :: "(byte list \<Rightarrow> uint64 \<times> int) \<Rightarrow> uint32 dec" where
  "Decbuf_Uvarint32 vu = mapD ucast (Decbuf_Uvarint64 vu)"

definition Decbuf_Be64 :: "uint64 dec" where
  "Decbuf_Be64 d =
     (if db_E d \<noteq> None then Some (0, d)
      else case Uint64 (db_B d) of
        None \<Rightarrow> Some (0, d\<lparr>db_E := Some ErrInvalidSize\<rparr>)
      | Some x \<Rightarrow> Some (x, d\<lparr>db_B := drop 8 (db_B d)\<rparr>))"

definition Decbuf_Be64int64 :: "int64 dec" where
  "Decbuf_Be64int64 = Decbuf_Be64"

definition Decbuf_Be64Float64 :: "float64 dec" where
  "Decbuf_Be64Float64 = Decbuf_Be64"

definition Decbuf_Be32 :: "uint32 dec" where
  "Decbuf_Be32 d =
     (if db_E d \<noteq> None then Some (0, d)
      else case Uint32 (db_B d) of
        None \<Rightarrow> Some (0, d\<lparr>db_E := Some ErrInvalidSize\<rparr>)
      | Some x \<Rightarrow> Some (x, d\<lparr>db_B := drop 4 (db_B d)\<rparr>))"

definition Decbuf_Be32int :: "int64 dec" where
  "Decbuf_Be32int = mapD ucast Decbuf_Be32"

definition Decbuf_Byte :: "byte dec" where
  "Decbuf_Byte d =
     (if db_E d \<noteq> None then Some (0, d)
      else case db_B d of
        [] \<Rightarrow> Some (0, d\<lparr>db_E := Some ErrInvalidSize\<rparr>)
      | x # b \<Rightarrow> Some (x, d\<lparr>db_B := b\<rparr>))"

definition Decbuf_Skip :: "int64 \<Rightarrow> unit dec" where
  "Decbuf_Skip l d =
     (if int (length (db_B d)) < sint l then Some ((), d\<lparr>db_E := Some ErrInvalidSize\<rparr>)
      else map_option (\<lambda>b. ((), d\<lparr>db_B := b\<rparr>)) (slice_from (db_B d) (sint l)))"

text \<open>The size check compares \<open>int(l)\<close>, the slice expressions use the unsigned \<open>l\<close>.\<close>

definition Decbuf_UvarintBytes :: "(byte list \<Rightarrow> uint64 \<times> int) \<Rightarrow> byte list dec" where
  "Decbuf_UvarintBytes vu = bindD (Decbuf_Uvarint64 vu) (\<lambda>l d.
     if db_E d \<noteq> None then Some ([], d)
     else if int (length (db_B d)) < sint l then Some ([], d\<lparr>db_E := Some ErrInvalidSize\<rparr>)
     else if length (db_B d) < unat l then None
     else Some (take (unat l) (db_B d), d\<lparr>db_B := drop (unat l) (db_B d)\<rparr>))"

definition Decbuf_UvarintStr :: "(byte list \<Rightarrow> uint64 \<times> int) \<Rightarrow> byte list dec" where
  "Decbuf_UvarintStr vu = Decbuf_UvarintBytes vu"

fun skip_padding :: "byte list \<Rightarrow> byte list" where
  "skip_padding (x # y # b) = (if x = 0 then skip_padding (y # b) else x # y # b)"
| "skip_padding b = b"

definition ConsumePadding :: "unit dec" where
  "ConsumePadding d =
     (if db_E d \<noteq> None then Some ((), d)
      else let b = skip_padding (db_B d) in
           Some ((), if length b < 1 then d\<lparr>db_B := b, db_E := Some ErrInvalidSize\<rparr> else d\<lparr>db_B := b\<rparr>))"

definition Decbuf_Err :: "Decbuf \<Rightarrow> go_error option" where
  "Decbuf_Err d = db_E d"

definition Decbuf_Len :: "Decbuf \<Rightarrow> nat" where
  "Decbuf_Len d = length (db_B d)"

definition Decbuf_Get :: "Decbuf \<Rightarrow> byte list" where
  "Decbuf_Get d = db_B d"

section \<open>What the buffers promise\<close>

lemmas Encbuf_defs = PutBytes_def PutString_def PutByte_def PutBE32_def PutBE64_def PutBEFloat64_def PutUvarint64_def
  PutVarint64_def PutBE32int_def PutUvarint32_def PutBE64int64_def PutUvarintInt_def PutUvarintStr_def PutUvarintBytes_def

text \<open>\<open>appends f bs\<close>: the operation appends \<open>bs\<close>, whatever the buffer holds.\<close>

definition put_bytes_of :: "(Encbuf \<Rightarrow> Encbuf) \<Rightarrow> byte list" where
  "put_bytes_of f = eb_B (f \<lparr>eb_B = []\<rparr>)"

definition appends :: "(Encbuf \<Rightarrow> Encbuf) \<Rightarrow> byte list \<Rightarrow> bool" where
  "appends f bs \<longleftrightarrow> (\<forall>e. f e = e\<lparr>eb_B := eb_B e @ bs\<rparr>)"

lemma appends_put [simp]:
  "appends (PutByte c) [c]" "appends (PutBE64 x) (PutUint64 x)" "appends (PutBE64int64 x) (PutUint64 x)"
  "appends (PutBE32 y) (PutUint32 y)" "appends (PutVarint64 x) (PutVarint x)" "appends (PutUvarint64 x) (PutUvarint x)"
  "appends (PutUvarintInt x) (PutUvarint x)" "appends (PutUvarint32 y) (PutUvarint (ucast y))"
  "appends (PutBEFloat64 x) (PutUint64 x)" "appends (PutString s) s" "appends (PutBytes s) s"
  "appends (PutUvarintStr s) (PutUvarint (of_nat (length s)) @ s)"
  "appends (PutUvarintBytes s) (PutUvarint (of_nat (length s)) @ s)"
  by (simp_all add: appends_def Encbuf_defs)

lemma appends_comp: "appends f xs \<Longrightarrow> appends g ys \<Longrightarrow> appends (\<lambda>e. g (f e)) (xs @ ys)"
  by (simp add: appends_def)

lemma appends_id: "appends (\<lambda>e. e) []"
  by (simp add: appends_def)

lemma appends_fold: "(\<And>x. appends (f x) (enc x)) \<Longrightarrow> appends (fold f xs) (concat (map enc xs))"
  by (induction xs) (simp_all add: appends_def)

text \<open>\<open>reads m bs x\<close>: on an error-free buffer that starts with \<open>bs\<close> the operation returns \<open>x\<close> and consumes exactly \<open>bs\<close>.\<close>

definition reads :: "'a dec \<Rightarrow> byte list \<Rightarrow> 'a \<Rightarrow> bool" where
  "reads m bs x \<longleftrightarrow> (\<forall>rest. m \<lparr>db_B = bs @ rest, db_E = None\<rparr> = Some (x, \<lparr>db_B = rest, db_E = None\<rparr>))"

lemma readsD: "reads m bs x \<Longrightarrow> m \<lparr>db_B = bs @ rest, db_E = None\<rparr> = Some (x, \<lparr>db_B = rest, db_E = None\<rparr>)"
  by (simp add: reads_def)

lemma reads_return [dec_intros, simp]: "reads (returnD x) [] x"
  by (simp add: reads_def returnD_def)

lemma reads_bind [dec_intros]: "reads m bs x \<Longrightarrow> reads (f x) cs y \<Longrightarrow> reads (bindD m f) (bs @ cs) y"
  by (simp add: reads_def bindD_def)

lemma reads_map: "reads m bs x \<Longrightarrow> reads (mapD g m) bs (g x)"
  by (simp add: reads_def mapD_def bindD_def returnD_def)

lemma reads_Byte: "reads Decbuf_Byte [x] x"
  by (simp add: reads_def Decbuf_Byte_def)

lemma reads_Be64: "reads Decbuf_Be64 (PutUint64 x) x"
  by (simp add: reads_def Decbuf_Be64_def)

lemma reads_Be32: "reads Decbuf_Be32 (PutUint32 x) x"
  by (simp add: reads_def Decbuf_Be32_def)

lemmas reads_fixed = reads_Byte reads_Be64 reads_Be32 reads_Be64 [folded Decbuf_Be64int64_def]
  reads_Be64 [folded Decbuf_Be64Float64_def]

text \<open>
  The number of bytes an operation may still consume; an error counts as nothing left. Every
  operation keeps an earlier error and the buffer with it, and never gives bytes back.
\<close>

definition dec_measure :: "Decbuf \<Rightarrow> nat" where
  "dec_measure d = (if db_E d = None then Suc (length (db_B d)) else 0)"

definition dec_mono :: "'a dec \<Rightarrow> bool" where
  "dec_mono m \<longleftrightarrow> (\<forall>d x d'. m d = Some (x, d') \<longrightarrow> dec_measure d' \<le> dec_measure d \<and> (db_E d \<noteq> None \<longrightarrow> d' = d))"

definition dec_strict :: "'a dec \<Rightarrow> bool" where
  "dec_strict m \<longleftrightarrow> dec_mono m \<and> (\<forall>d x d'. db_E d = None \<longrightarrow> m d = Some (x, d') \<longrightarrow> dec_measure d' < dec_measure d)"

definition dec_total :: "'a dec \<Rightarrow> bool" where
  "dec_total m \<longleftrightarrow> (\<forall>d. m d \<noteq> None)"

lemma dec_strict_mono: "dec_strict m \<Longrightarrow> dec_mono m"
  by (simp add: dec_strict_def)

lemma mono_return: "dec_mono (returnD x)"
  by (simp add: dec_mono_def returnD_def)

lemma mono_bind: "dec_mono m \<Longrightarrow> (\<And>x. dec_mono (f x)) \<Longrightarrow> dec_mono (bindD m f)"
  unfolding dec_mono_def bindD_def by (auto split: option.splits) (metis order.trans)+

lemma strict_bind:
  assumes "dec_strict m" "\<And>x. dec_mono (f x)"
  shows "dec_strict (bindD m f)"
  unfolding dec_strict_def
proof (intro conjI allI impI)
  show "dec_mono (bindD m f)" using assms by (simp add: mono_bind dec_strict_mono)
  fix d x d' assume "db_E d = None" "bindD m f d = Some (x, d')"
  then obtain y d1 where "m d = Some (y, d1)" "f y d1 = Some (x, d')" by (auto simp: bindD_def split: option.splits)
  with assms \<open>db_E d = None\<close> show "dec_measure d' < dec_measure d"
    unfolding dec_strict_def dec_mono_def by (metis order_le_less_trans)
qed

lemma total_bind: "dec_total m \<Longrightarrow> (\<And>x. dec_total (f x)) \<Longrightarrow> dec_total (bindD m f)"
  by (auto simp: dec_total_def bindD_def split: option.splits)

lemma total_return: "dec_total (returnD x)"
  by (simp add: dec_total_def returnD_def)

lemma Uint64_len: "Uint64 b = Some x \<Longrightarrow> 8 \<le> length b"
  by (cases b rule: Uint64.cases) auto

lemma Uint32_len: "Uint32 b = Some x \<Longrightarrow> 4 \<le> length b"
  by (cases b rule: Uint32.cases) auto

lemma strict_fixed:
  "dec_strict Decbuf_Byte" "dec_strict Decbuf_Be64" "dec_strict Decbuf_Be32"
  by (auto simp: dec_strict_def dec_mono_def dec_measure_def Decbuf_Byte_def Decbuf_Be64_def Decbuf_Be32_def
      split: if_splits option.splits list.splits dest!: Uint64_len Uint32_len)

lemma total_fixed: "dec_total Decbuf_Byte" "dec_total Decbuf_Be64" "dec_total Decbuf_Be32"
  by (simp_all add: dec_total_def Decbuf_Byte_def Decbuf_Be64_def Decbuf_Be32_def split: option.splits list.splits)

lemma slice_from_Some: "slice_from b n = Some c \<Longrightarrow> 1 \<le> n \<Longrightarrow> length c < length b"
  by (auto simp: slice_from_def split: if_splits)

lemma strict_varint: "dec_strict (Decbuf_Uvarint64 vu)" "dec_strict (Decbuf_Varint64 vu)"
  by (auto simp: dec_strict_def dec_mono_def dec_measure_def Decbuf_Uvarint64_def Decbuf_Varint64_def
      split: if_splits prod.splits dest!: slice_from_Some)

lemma mono_UvarintBytes: "dec_strict (Decbuf_UvarintBytes vu)"
  unfolding Decbuf_UvarintBytes_def
  by (rule strict_bind [OF strict_varint(1)]) (auto simp: dec_mono_def dec_measure_def split: if_splits)

lemma ucast_32_64_32: "ucast (ucast (x :: uint32) :: uint64) = x"
  by (rule bit_word_eqI) (simp add: bit_simps)

lemma sint_small:
  fixes l :: uint64
  assumes "unat l < 2 ^ 63"
  shows "sint l = int (unat l)"
proof -
  have "int (unat l) < 2 ^ 63" using assms of_nat_less_iff [of "unat l" "2 ^ 63", where 'a = int] by simp
  moreover have "- (2 ^ 63) \<le> int (unat l)" by (rule order_trans [of _ 0]) simp_all
  ultimately show ?thesis using sint_word_of_int_range [of "int (unat l)"] by simp
qed

lemma sint_large:
  fixes l :: uint64
  assumes "2 ^ 63 \<le> unat l"
  shows "sint l < 0"
proof -
  have "\<not> l < 2 ^ 63" using assms by (simp add: word_less_nat_alt)
  then obtain i where i: "63 \<le> i" "bit l i" using word_less_exp_iff_bit [of 63 l] by auto
  then have "i = 63" using bit_imp_le_length [of l i] by simp
  with i(2) have "bit l 63" by simp
  then show ?thesis by (simp flip: sless_0_iff_msb add: word_sless_alt)
qed

section \<open>The varint library\<close>

locale varint_lib =
  fixes vu :: "byte list \<Rightarrow> uint64 \<times> int"
  assumes vu_decodes: "vu (PutUvarint x @ rest) = (x, int (length (PutUvarint x)))"
    and vu_bound: "snd (vu b) \<le> int (length b)"
begin

lemma reads_Uvarint64: "reads (Decbuf_Uvarint64 vu) (PutUvarint x) x"
  by (simp add: reads_def Decbuf_Uvarint64_def vu_decodes slice_from_def Suc_le_eq)

lemma reads_Varint64: "reads (Decbuf_Varint64 vu) (PutVarint x) x"
  by (simp add: reads_def Decbuf_Varint64_def PutVarint_def vu_decodes slice_from_def Suc_le_eq)

lemma reads_Uvarint: "reads (Decbuf_Uvarint vu) (PutUvarint x) x"
  by (simp add: Decbuf_Uvarint_def reads_Uvarint64)

lemma reads_Uvarint32: "reads (Decbuf_Uvarint32 vu) (PutUvarint (ucast (x :: uint32))) x"
  using reads_map [OF reads_Uvarint64, of "ucast :: uint64 \<Rightarrow> uint32" "ucast x"]
  by (simp add: Decbuf_Uvarint32_def ucast_32_64_32)

lemma reads_UvarintBytes:
  assumes "length s < 2 ^ 63"
  shows "reads (Decbuf_UvarintBytes vu) (PutUvarint (of_nat (length s)) @ s) s"
proof -
  have u: "unat (of_nat (length s) :: uint64) = length s" using assms by (simp add: unat_of_nat)
  moreover have "sint (of_nat (length s) :: uint64) = int (length s)"
    using assms sint_word_of_int_range [of "int (length s)"] by simp
  ultimately show ?thesis
    unfolding Decbuf_UvarintBytes_def by (intro reads_bind [OF reads_Uvarint64]) (simp add: reads_def)
qed

lemma reads_UvarintStr:
  "length s < 2 ^ 63 \<Longrightarrow> reads (Decbuf_UvarintStr vu) (PutUvarint (of_nat (length s)) @ s) s"
  by (simp add: Decbuf_UvarintStr_def reads_UvarintBytes)

lemma total_varint: "dec_total (Decbuf_Uvarint64 vu)" "dec_total (Decbuf_Varint64 vu)"
proof -
  have "slice_from b n \<noteq> None" if "vu b = (x, n)" "\<not> n < 1" for b x n
    using that vu_bound [of b] by (auto simp: slice_from_def)
  then show "dec_total (Decbuf_Uvarint64 vu)" "dec_total (Decbuf_Varint64 vu)"
    by (auto simp: dec_total_def Decbuf_Uvarint64_def Decbuf_Varint64_def split: prod.splits)
qed

text \<open>\<open>UvarintBytes\<close> panics exactly when the length it reads has the top bit set.\<close>

lemma UvarintBytes_panics_iff:
  "Decbuf_UvarintBytes vu d = None \<longleftrightarrow>
    (\<exists>l d'. Decbuf_Uvarint64 vu d = Some (l, d') \<and> db_E d' = None \<and> 2 ^ 63 \<le> unat l \<and> length (db_B d') < unat l)"
proof -
  have "\<not> int n < sint l \<longleftrightarrow> 2 ^ 63 \<le> unat l" if "n < unat l" for n and l :: uint64
  proof (cases "unat l < 2 ^ 63")
    case True
    then show ?thesis using that by (simp only: sint_small of_nat_less_iff) simp
  next
    case False
    then show ?thesis using sint_large [of l] by simp
  qed
  then show ?thesis
    using total_varint(1) unfolding dec_total_def Decbuf_UvarintBytes_def bindD_def
    by (auto split: option.splits if_splits)
qed

end

interpretation stdlib: varint_lib Uvarint
  by unfold_locales (simp_all add: Uvarint_bound)

section \<open>Sequences of fields\<close>

text \<open>A field of a record, the \<open>Put\<close> call that writes it and the call that reads it back.\<close>

datatype field = FByte byte | FBE32 uint32 | FBE64 uint64 | FBEFloat64 float64 | FUvarint32 uint32 | FUvarint64 uint64
  | FVarint64 int64 | FUvarintStr "byte list" | FUvarintBytes "byte list"

fun put_field :: "field \<Rightarrow> Encbuf \<Rightarrow> Encbuf" where
  "put_field (FByte x) = PutByte x"
| "put_field (FBE32 x) = PutBE32 x"
| "put_field (FBE64 x) = PutBE64 x"
| "put_field (FBEFloat64 x) = PutBEFloat64 x"
| "put_field (FUvarint32 x) = PutUvarint32 x"
| "put_field (FUvarint64 x) = PutUvarint64 x"
| "put_field (FVarint64 x) = PutVarint64 x"
| "put_field (FUvarintStr s) = PutUvarintStr s"
| "put_field (FUvarintBytes s) = PutUvarintBytes s"

text \<open>\<open>get_field vu like\<close> reads a field of the kind of \<open>like\<close>.\<close>

fun get_field :: "(byte list \<Rightarrow> uint64 \<times> int) \<Rightarrow> field \<Rightarrow> field dec" where
  "get_field vu (FByte _) = mapD FByte Decbuf_Byte"
| "get_field vu (FBE32 _) = mapD FBE32 Decbuf_Be32"
| "get_field vu (FBE64 _) = mapD FBE64 Decbuf_Be64"
| "get_field vu (FBEFloat64 _) = mapD FBEFloat64 Decbuf_Be64Float64"
| "get_field vu (FUvarint32 _) = mapD FUvarint32 (Decbuf_Uvarint32 vu)"
| "get_field vu (FUvarint64 _) = mapD FUvarint64 (Decbuf_Uvarint64 vu)"
| "get_field vu (FVarint64 _) = mapD FVarint64 (Decbuf_Varint64 vu)"
| "get_field vu (FUvarintStr _) = mapD FUvarintStr (Decbuf_UvarintStr vu)"
| "get_field vu (FUvarintBytes _) = mapD FUvarintBytes (Decbuf_UvarintBytes vu)"

fun get_fields :: "(byte list \<Rightarrow> uint64 \<times> int) \<Rightarrow> field list \<Rightarrow> field list dec" where
  "get_fields vu [] = returnD []"
| "get_fields vu (f # fs) = bindD (get_field vu f) (\<lambda>x. bindD (get_fields vu fs) (\<lambda>xs. returnD (x # xs)))"

fun field_ok :: "field \<Rightarrow> bool" where
  "field_ok (FUvarintStr s) = (length s < 2 ^ 63)"
| "field_ok (FUvarintBytes s) = (length s < 2 ^ 63)"
| "field_ok _ = True"

lemma put_field_appends: "appends (put_field f) (put_bytes_of (put_field f))"
  by (cases f) (simp_all add: appends_def put_bytes_of_def Encbuf_defs)

context varint_lib
begin

lemma get_field_reads: "field_ok f \<Longrightarrow> reads (get_field vu f) (put_bytes_of (put_field f)) f"
  by (cases f) (simp_all add: put_bytes_of_def Encbuf_defs reads_map reads_fixed reads_Uvarint32 reads_Uvarint64
      reads_Varint64 reads_UvarintBytes reads_UvarintStr)

lemma get_fields_reads:
  "\<forall>f \<in> set fs. field_ok f \<Longrightarrow> reads (get_fields vu fs) (concat (map (\<lambda>f. put_bytes_of (put_field f)) fs)) fs"
proof (induction fs)
  case (Cons f fs)
  then have "reads (bindD (get_fields vu fs) (\<lambda>xs. returnD (f # xs))) (concat (map (\<lambda>f. put_bytes_of (put_field f)) fs) @ []) (f # fs)"
    by (intro reads_bind [OF _ reads_return]) simp_all
  with Cons.prems show ?case
    using reads_bind [OF get_field_reads [of f], of "\<lambda>x. bindD (get_fields vu fs) (\<lambda>xs. returnD (x # xs))"] by simp
qed simp

end

lemma put_fields: "eb_B (fold put_field fs e) = eb_B e @ concat (map (\<lambda>f. put_bytes_of (put_field f)) fs)"
  using appends_fold [of put_field, OF put_field_appends, of fs] by (simp add: appends_def)

text \<open>The signed 64-bit sum of two lengths that fit.\<close>

lemma sint_of_nat: "n < 2 ^ 63 \<Longrightarrow> sint (of_nat n :: int64) = int n"
  using sint_word_of_int_range [of "int n"] by (simp add: of_nat_less_iff [of n "2 ^ 63", where 'a = int])

lemma slice_range_mid:
  assumes "lo = of_nat (length xs)" "hi = of_nat (length xs + length ys)" "length (xs @ ys @ zs) < 2 ^ 63"
  shows "slice_range (xs @ ys @ zs) lo hi = Some ys"
  using assms by (simp add: slice_range_def sint_of_nat del: of_nat_add)

section \<open>Properties\<close>

text \<open>
  Any sequence of fields put into an \<open>Encbuf\<close> is read back from a \<open>Decbuf\<close> over its bytes by the
  corresponding reads, without an error, and the bytes behind it are left for the next read. The
  strings must be shorter than \<open>2^63\<close>, as every Go string is.
\<close>

theorem encbuf_decbuf_roundtrip:
  assumes "varint_lib vu" "\<forall>f \<in> set fs. field_ok f"
  shows "get_fields vu fs \<lparr>db_B = Encbuf_Get (fold put_field fs \<lparr>eb_B = []\<rparr>) @ rest, db_E = None\<rparr>
    = Some (fs, \<lparr>db_B = rest, db_E = None\<rparr>)"
  using varint_lib.get_fields_reads [OF assms] by (simp add: reads_def Encbuf_Get_def put_fields)

definition ex_fields :: "field list" where
  "ex_fields = [FByte 3, FVarint64 (-70), FUvarintStr [0x61, 0x62], FBE32 9, FUvarint32 (-1)]"

text \<open>
  \<open>NewDecbufAt\<close> on a section that is framed the way the index writes it (length, content, four
  bytes of checksum) gives a reader over the content when the four bytes are the checksum of the
  content, and the checksum error otherwise.
\<close>

theorem decbuf_at_section:
  assumes "length c < 2 ^ 32" "bs = pre @ PutUint32 (of_nat (length c)) @ c @ PutUint32 crc @ post" "length bs < 2 ^ 63"
  shows "NewDecbufAt bs (of_nat (length pre)) (Some crc32_Checksum) =
    Some (if crc = crc32_Checksum c then \<lparr>db_B = c, db_E = None\<rparr> else \<lparr>db_B = [], db_E = Some ErrInvalidChecksum\<rparr>)"
proof -
  let ?len = "PutUint32 (of_nat (length c))" and ?off = "of_nat (length pre) :: int64" and ?c = "PutUint32 crc"
  have l: "(ucast (of_nat (length c) :: uint32) :: int64) = of_nat (length c)"
    using assms(1) by (simp add: word_unat_eq_iff unsigned_ucast_eq unsigned_of_nat take_bit_nat_eq_self)
  have off: "?off + 4 = of_nat (length pre + length ?len)" "?off + 4 + of_nat (length c) + 4 = of_nat (length (pre @ ?len) + length (c @ ?c))"
    by simp_all
  have eq: "bs = (pre @ ?len) @ (c @ ?c) @ post" using assms(2) by simp
  have r1: "slice_range bs ?off (?off + 4) = Some ?len"
    unfolding assms(2) by (rule slice_range_mid [OF refl off(1)]) (use assms(2,3) in simp)
  have r2: "slice_range bs (?off + 4) (?off + 4 + of_nat (length c) + 4) = Some (c @ ?c)"
    unfolding eq by (rule slice_range_mid [OF _ off(2)]) (use assms(3) eq off(1) in simp_all)
  have "length pre + length ?len < 2 ^ 63" "length (pre @ ?len) + length (c @ ?c) < 2 ^ 63" using assms(2,3) by simp_all
  note fits = sint_of_nat [OF this(1)] sint_of_nat [OF this(2)]
  have "sint (?off + 4) \<le> int (length bs)" unfolding off(1) fits(1) using assms(2) by simp
  moreover have "sint (?off + 4 + of_nat (length c) + 4) \<le> int (length bs)" unfolding off(2) fits(2) using assms(2) by simp
  moreover have n: "the (Uint32 ?len) = of_nat (length c)" using Uint32_PutUint32 [of "of_nat (length c)" "[]"] by simp
  moreover have "the (Uint32 ?c) = crc" using Uint32_PutUint32 [of crc "[]"] by simp
  ultimately show ?thesis
    unfolding NewDecbufAt_def r1 option.case Let_def n l r2 by (auto simp: Decbuf_Crc32_def)
qed

text \<open>
  \<open>UvarintBytes\<close> panics exactly when it reads a length of at least \<open>2^63\<close> that exceeds the bytes
  left: the size check converts the length to a signed integer, where it is negative.
\<close>

theorem uvarint_bytes_panics:
  assumes "varint_lib vu"
  shows "Decbuf_UvarintBytes vu d = None \<longleftrightarrow>
    (\<exists>l d'. Decbuf_Uvarint64 vu d = Some (l, d') \<and> db_E d' = None \<and> 2 ^ 63 \<le> unat l \<and> length (db_B d') < unat l)"
  using assms by (rule varint_lib.UvarintBytes_panics_iff)

end
