(* ===== verification/Tombstones.thy ===== *)
theory Tombstones
  imports Encoding
begin

text \<open>
  Deletion intervals of \<open>tsdb/tombstones/tombstones.go\<close>: the interval set with its \<open>Add\<close>, the
  in-memory tombstone store and the tombstone file format. The store's mutex serialises its
  methods, each of which is one step of the model. A Go map has no iteration order, so the loops
  that depend on one take the order as an argument. The file operations around the bytes that are
  written and read (temporary file, sync, rename) are not part of the model.
\<close>

section \<open>Intervals\<close>

record Interval =
  Mint :: int64
  Maxt :: int64

type_synonym Intervals = "Interval list"

definition InBounds :: "Interval \<Rightarrow> int64 \<Rightarrow> bool" where
  "InBounds tr t \<longleftrightarrow> Mint tr \<le>s t \<and> t \<le>s Maxt tr"

fun IsSubrange :: "Interval \<Rightarrow> Intervals \<Rightarrow> bool" where
  "IsSubrange tr [] = False"
| "IsSubrange tr (r # dranges) =
     (if InBounds r (Mint tr) \<and> InBounds r (Maxt tr) then True else IsSubrange tr dranges)"

definition smax :: "int64 \<Rightarrow> int64 \<Rightarrow> int64" where
  "smax a b = (if a <s b then b else a)"

text \<open>\<open>None\<close> is the panic of an index out of range in \<open>in[maxi+mini-1]\<close>.\<close>

definition Intervals_Add :: "Intervals \<Rightarrow> Interval \<Rightarrow> Intervals option" where
  "Intervals_Add ivs n =
     (if ivs = [] then Some [n]
      else let mini = (if Mint n \<noteq> MinInt64 then Search (length ivs) (\<lambda>i. Mint n - 1 \<le>s Maxt (ivs ! i)) else 0)
      in if Mint n \<noteq> MinInt64 \<and> mini = length ivs then Some (ivs @ [n])
      else let maxi = (if Maxt n \<noteq> MaxInt64
                       then Search (length ivs - mini) (\<lambda>i. Maxt n + 1 <s Mint (ivs ! (mini + i))) else length ivs)
      in if Maxt n \<noteq> MaxInt64 \<and> maxi = 0
         then if mini = 0 then Some (n # ivs) else Some (take mini ivs @ n # drop mini ivs)
      else if maxi + mini - 1 < length ivs
      then Some (take mini ivs @
             \<lparr>Mint = (if Mint n <s Mint (ivs ! mini) then Mint n else Mint (ivs ! mini)),
              Maxt = smax (Maxt n) (Maxt (ivs ! (maxi + mini - 1)))\<rparr> # drop (maxi + mini) ivs)
      else None)"

section \<open>The store\<close>

text \<open>\<open>intvlGroups\<close>: the map from series references to intervals.\<close>

type_synonym MemTombstones = "uint64 \<rightharpoonup> Intervals"

definition NewMemTombstones :: MemTombstones where
  "NewMemTombstones = Map.empty"

definition MemTombstones_Get :: "MemTombstones \<Rightarrow> uint64 \<Rightarrow> Intervals" where
  "MemTombstones_Get t ref = (case t ref of None \<Rightarrow> [] | Some ivs \<Rightarrow> ivs)"

definition DeleteTombstones :: "MemTombstones \<Rightarrow> uint64 list \<Rightarrow> MemTombstones" where
  "DeleteTombstones t refs = foldl (\<lambda>t ref. t(ref := None)) t refs"

text \<open>
  The inner loop of \<open>TruncateBefore\<close> walks from the back to the last interval that ends before
  \<open>beforeT\<close>; the argument is the number of intervals still to look at, the result is \<open>i + 1\<close>.
\<close>

fun truncate_from :: "int64 \<Rightarrow> Intervals \<Rightarrow> nat \<Rightarrow> nat" where
  "truncate_from beforeT ivs 0 = 0"
| "truncate_from beforeT ivs (Suc i) = (if Maxt (ivs ! i) <s beforeT then Suc i else truncate_from beforeT ivs i)"

definition TruncateBefore :: "MemTombstones \<Rightarrow> int64 \<Rightarrow> MemTombstones" where
  "TruncateBefore t beforeT = (\<lambda>ref.
     case t ref of
       None \<Rightarrow> None
     | Some ivs \<Rightarrow>
         let rest = drop (truncate_from beforeT ivs (length ivs)) ivs
         in if rest = [] then None else Some rest)"

text \<open>\<open>Iter\<close> calls a function with an accumulated state for every group and stops at the first error.\<close>

fun MemTombstones_Iter ::
  "MemTombstones \<Rightarrow> uint64 list \<Rightarrow> (uint64 \<Rightarrow> Intervals \<Rightarrow> 's \<Rightarrow> go_error + 's) \<Rightarrow> 's \<Rightarrow> go_error + 's" where
  "MemTombstones_Iter t [] f s = Inr s"
| "MemTombstones_Iter t (ref # order) f s =
     (case f ref (MemTombstones_Get t ref) s of
        Inl err \<Rightarrow> Inl err
      | Inr s' \<Rightarrow> MemTombstones_Iter t order f s')"

definition MemTombstones_Total :: "MemTombstones \<Rightarrow> uint64 list \<Rightarrow> uint64" where
  "MemTombstones_Total t order = foldl (\<lambda>total ref. total + of_nat (length (MemTombstones_Get t ref))) 0 order"

fun AddInterval :: "MemTombstones \<Rightarrow> uint64 \<Rightarrow> Interval list \<Rightarrow> MemTombstones option" where
  "AddInterval t ref [] = Some t"
| "AddInterval t ref (itv # itvs) =
     (case Intervals_Add (MemTombstones_Get t ref) itv of
        None \<Rightarrow> None
      | Some ivs \<Rightarrow> AddInterval (t(ref \<mapsto> ivs)) ref itvs)"

section \<open>The file format\<close>

definition MagicTombstone :: uint32 where "MagicTombstone = 0x0130BA30"
definition tombstoneFormatV1 :: byte where "tombstoneFormatV1 = 1"
definition tombstoneFormatVersionSize :: nat where "tombstoneFormatVersionSize = 1"
definition tombstonesHeaderSize :: nat where "tombstonesHeaderSize = 5"
definition tombstonesCRCSize :: nat where "tombstonesCRCSize = 4"

definition put_interval :: "uint64 \<Rightarrow> Interval \<Rightarrow> Encbuf \<Rightarrow> Encbuf" where
  "put_interval ref iv buf = PutVarint64 (Maxt iv) (PutVarint64 (Mint iv) (PutUvarint64 ref buf))"

text \<open>The argument is the reader's \<open>Iter\<close> method.\<close>

definition Tombstones_Encode ::
  "((uint64 \<Rightarrow> Intervals \<Rightarrow> Encbuf \<Rightarrow> go_error + Encbuf) \<Rightarrow> Encbuf \<Rightarrow> go_error + Encbuf) \<Rightarrow> go_error + byte list" where
  "Tombstones_Encode iter =
     (case iter (\<lambda>ref ivs buf. Inr (fold (put_interval ref) ivs buf)) (PutByte tombstoneFormatV1 \<lparr>eb_B = []\<rparr>) of
        Inl err \<Rightarrow> Inl err
      | Inr buf \<Rightarrow> Inr (Encbuf_Get buf))"

lemma decode_entry_progress:
  assumes "Decbuf_Uvarint64 vu d = Some (k, d1)" "Decbuf_Varint64 vu d1 = Some (mint, d2)"
    "Decbuf_Varint64 vu d2 = Some (maxt, d3)" "db_E d3 = None"
  shows "dec_measure d3 < dec_measure d"
proof -
  have "db_E d = None"
    using assms strict_varint [of vu] unfolding dec_strict_def dec_mono_def by metis
  then show ?thesis
    using assms strict_varint [of vu] unfolding dec_strict_def dec_mono_def by (metis order_less_le_trans order_le_less_trans)
qed

function Decode_loop ::
  "(byte list \<Rightarrow> uint64 \<times> int) \<Rightarrow> Decbuf \<Rightarrow> MemTombstones \<Rightarrow> (go_error + MemTombstones) option" where
  "Decode_loop vu d stonesMap =
     (if Decbuf_Len d > 0
      then case Decbuf_Uvarint64 vu d of None \<Rightarrow> None | Some (k, d1) \<Rightarrow>
           (case Decbuf_Varint64 vu d1 of None \<Rightarrow> None | Some (mint, d2) \<Rightarrow>
           (case Decbuf_Varint64 vu d2 of None \<Rightarrow> None | Some (maxt, d3) \<Rightarrow>
           (case db_E d3 of
              Some e \<Rightarrow> Some (Inl e)
            | None \<Rightarrow>
                (case AddInterval stonesMap k [\<lparr>Mint = mint, Maxt = maxt\<rparr>] of
                   None \<Rightarrow> None
                 | Some m \<Rightarrow> Decode_loop vu d3 m))))
      else Some (Inr stonesMap))"
  by pat_completeness auto
termination
  by (relation "measure (\<lambda>(vu, d, m). dec_measure d)") (auto intro: decode_entry_progress)

declare Decode_loop.simps [simp del]

definition Tombstones_Decode :: "(byte list \<Rightarrow> uint64 \<times> int) \<Rightarrow> byte list \<Rightarrow> (go_error + MemTombstones) option" where
  "Tombstones_Decode vu b =
     (case Decbuf_Byte \<lparr>db_B = b, db_E = None\<rparr> of
        None \<Rightarrow> None
      | Some (flag, d) \<Rightarrow>
          if flag \<noteq> tombstoneFormatV1 then Some (Inl (ErrInvalid ''invalid tombstone format''))
          else (case db_E d of
                  Some e \<Rightarrow> Some (Inl e)
                | None \<Rightarrow> Decode_loop vu d NewMemTombstones))"

text \<open>The bytes \<open>WriteFile\<close> writes, in the order of its three writes; \<open>None\<close> is a panic.\<close>

definition WriteFile_bytes ::
  "((uint64 \<Rightarrow> Intervals \<Rightarrow> Encbuf \<Rightarrow> go_error + Encbuf) \<Rightarrow> Encbuf \<Rightarrow> go_error + Encbuf) \<Rightarrow> (go_error + byte list) option" where
  "WriteFile_bytes iter =
     (let meta = Encbuf_Get (PutBE32 MagicTombstone \<lparr>eb_B = []\<rparr>) in
      case Tombstones_Encode iter of
        Inl err \<Rightarrow> Some (Inl err)
      | Inr bytes \<Rightarrow>
          map_option (\<lambda>b. Inr (meta @ bytes @ crc32_sum b)) (slice_from bytes (int tombstoneFormatVersionSize)))"

text \<open>\<open>ReadTombstones\<close> on the contents of the file, \<open>None\<close> when there is no file.\<close>

definition ReadTombstones ::
  "(byte list \<Rightarrow> uint64 \<times> int) \<Rightarrow> byte list option \<Rightarrow> (go_error + MemTombstones \<times> nat) option" where
  "ReadTombstones vu file =
     (case file of
        None \<Rightarrow> Some (Inr (NewMemTombstones, 0))
      | Some b \<Rightarrow>
          if length b < tombstonesHeaderSize then Some (Inl ErrInvalidSize)
          else (case Decbuf_Be32 \<lparr>db_B = take (length b - tombstonesCRCSize) b, db_E = None\<rparr> of
             None \<Rightarrow> None
           | Some (mg, d) \<Rightarrow>
               if mg \<noteq> MagicTombstone then Some (Inl (ErrInvalid ''invalid magic number''))
               else (case slice_from (Decbuf_Get d) (int tombstoneFormatVersionSize) of
                  None \<Rightarrow> None
                | Some h \<Rightarrow>
                    if the (Uint32 (drop (length b - tombstonesCRCSize) b)) \<noteq> crc32_Checksum h
                    then Some (Inl (ErrInvalid ''checksum did not match''))
                    else (case db_E d of
                       Some e \<Rightarrow> Some (Inl e)
                     | None \<Rightarrow>
                         (case Tombstones_Decode vu (Decbuf_Get d) of
                            None \<Rightarrow> None
                          | Some (Inl e) \<Rightarrow> Some (Inl e)
                          | Some (Inr m) \<Rightarrow> Some (Inr (m, length b)))))))"

section \<open>The interval set\<close>

text \<open>
  Well-formed intervals are not empty, in increasing order and at least one time step apart from
  each other (closed intervals one step apart are merged). \<open>covers\<close> is the set they stand for.
\<close>

definition iv_ok :: "Interval \<Rightarrow> bool" where
  "iv_ok iv \<longleftrightarrow> Mint iv \<le>s Maxt iv"

definition iv_before :: "Interval \<Rightarrow> Interval \<Rightarrow> bool" where
  "iv_before a b \<longleftrightarrow> sint (Maxt a) + 1 < sint (Mint b)"

definition ivs_ok :: "Intervals \<Rightarrow> bool" where
  "ivs_ok ivs \<longleftrightarrow> (\<forall>iv \<in> set ivs. iv_ok iv) \<and> sorted_wrt iv_before ivs"

definition covers :: "Intervals \<Rightarrow> int64 \<Rightarrow> bool" where
  "covers ivs t \<longleftrightarrow> (\<exists>iv \<in> set ivs. InBounds iv t)"

lemmas iv_defs = iv_ok_def iv_before_def InBounds_def word_sle_eq word_sless_alt

lemma covers_simps [simp]:
  "covers [] t = False" "covers (iv # ivs) t \<longleftrightarrow> InBounds iv t \<or> covers ivs t"
  "covers (xs @ ys) t \<longleftrightarrow> covers xs t \<or> covers ys t"
  by (auto simp: covers_def)

lemma ivs_ok_append:
  "ivs_ok (xs @ ys) \<longleftrightarrow> ivs_ok xs \<and> ivs_ok ys \<and> (\<forall>x \<in> set xs. \<forall>y \<in> set ys. iv_before x y)"
  by (auto simp: ivs_ok_def sorted_wrt_append)

lemma ivs_ok_Cons: "ivs_ok (x # ys) \<longleftrightarrow> iv_ok x \<and> ivs_ok ys \<and> (\<forall>y \<in> set ys. iv_before x y)"
  by (auto simp: ivs_ok_def)

lemma ivs_ok_Nil [simp]: "ivs_ok []"
  by (simp add: ivs_ok_def)

lemma sint_le_max: "sint (x :: int64) \<le> 2 ^ 63 - 1" and sint_ge_min: "- (2 ^ 63) \<le> sint (x :: int64)"
  using sint_lt [of x] sint_ge [of x] by simp_all

lemma sint_pred: "x \<noteq> MinInt64 \<Longrightarrow> sint (x - 1) = sint x - 1"
proof -
  assume "x \<noteq> MinInt64"
  have "sint x \<noteq> sint MinInt64" using \<open>x \<noteq> MinInt64\<close> signed_word_eqI by blast
  moreover have "sint MinInt64 = - (2 ^ 63)" by (simp add: MinInt64_def)
  moreover have "- (2 ^ 63) \<le> sint x" "sint x < 2 ^ 63" using sint_ge_min [of x] sint_le_max [of x] by simp_all
  ultimately show ?thesis using sint_word_of_int_range [of "sint x - 1"] by simp
qed

lemma sint_succ: "x \<noteq> MaxInt64 \<Longrightarrow> sint (x + 1) = sint x + 1"
proof -
  assume "x \<noteq> MaxInt64"
  have "sint x \<noteq> sint MaxInt64" using \<open>x \<noteq> MaxInt64\<close> signed_word_eqI by blast
  moreover have "sint MaxInt64 = 2 ^ 63 - 1" by (simp add: MaxInt64_def)
  moreover have "- (2 ^ 63) \<le> sint x" "sint x < 2 ^ 63" using sint_ge_min [of x] sint_le_max [of x] by simp_all
  ultimately show ?thesis using sint_word_of_int_range [of "sint x + 1"] by simp
qed

lemma sint_MaxInt64 [simp]: "sint MaxInt64 = 2 ^ 63 - 1"
  by (simp add: MaxInt64_def)

lemma sint_MinInt64 [simp]: "sint MinInt64 = - (2 ^ 63)"
  by (simp add: MinInt64_def)

text \<open>Merging \<open>n\<close> with the intervals it touches.\<close>

definition iv_merge :: "Interval \<Rightarrow> Intervals \<Rightarrow> Interval" where
  "iv_merge n ms = \<lparr>Mint = (if Mint n <s Mint (hd ms) then Mint n else Mint (hd ms)), Maxt = smax (Maxt n) (Maxt (last ms))\<rparr>"

definition touches :: "Interval \<Rightarrow> Interval \<Rightarrow> bool" where
  "touches n x \<longleftrightarrow> sint (Mint n) - 1 \<le> sint (Maxt x) \<and> sint (Mint x) \<le> sint (Maxt n) + 1"

lemma iv_merge_bounds:
  "sint (Mint (iv_merge n ms)) = min (sint (Mint n)) (sint (Mint (hd ms)))"
  "sint (Maxt (iv_merge n ms)) = max (sint (Maxt n)) (sint (Maxt (last ms)))"
  by (simp_all add: iv_merge_def smax_def word_sless_alt)

lemma hd_last_range:
  assumes "ivs_ok ms" "ms \<noteq> []" "x \<in> set ms"
  shows "sint (Mint (hd ms)) \<le> sint (Mint x)" "sint (Maxt x) \<le> sint (Maxt (last ms))"
proof -
  show "sint (Mint (hd ms)) \<le> sint (Mint x)"
    using assms by (cases ms) (fastforce simp: ivs_ok_Cons iv_defs)+
  show "sint (Maxt x) \<le> sint (Maxt (last ms))"
    using assms by (cases ms rule: rev_cases) (fastforce simp: ivs_ok_append ivs_ok_Cons iv_defs)+
qed

lemma covers_merge:
  assumes "ivs_ok ms" "ms \<noteq> []" "iv_ok n" "\<forall>x \<in> set ms. touches n x"
  shows "InBounds (iv_merge n ms) t \<longleftrightarrow> InBounds n t \<or> covers ms t"
proof
  have h: "hd ms \<in> set ms" "last ms \<in> set ms" using assms(2) by simp_all
  assume l: "InBounds (iv_merge n ms) t"
  consider "InBounds n t" | "sint t < sint (Mint n)" | "sint (Maxt n) < sint t"
    by (fastforce simp: iv_defs)
  then show "InBounds n t \<or> covers ms t"
  proof cases
    case 2
    then have "InBounds (hd ms) t" using l h(1) assms(4) by (auto simp: iv_defs iv_merge_bounds touches_def min_def split: if_splits)
    with h show ?thesis by (auto simp: covers_def)
  next
    case 3
    then have "InBounds (last ms) t" using l h(2) assms(4) by (auto simp: iv_defs iv_merge_bounds touches_def max_def split: if_splits)
    with h show ?thesis by (auto simp: covers_def)
  qed simp
next
  assume "InBounds n t \<or> covers ms t"
  then show "InBounds (iv_merge n ms) t"
    using hd_last_range [OF assms(1,2)] by (fastforce simp: iv_defs iv_merge_bounds covers_def)
qed

lemma merge_ok:
  assumes ok: "ivs_ok (ls @ ms @ rs)" and n: "iv_ok n" and ms: "ms \<noteq> []" "\<forall>x \<in> set ms. touches n x"
    and ls: "\<forall>x \<in> set ls. iv_before x n" and rs: "\<forall>y \<in> set rs. iv_before n y"
  shows "ivs_ok (ls @ iv_merge n ms # rs)"
    and "covers (ls @ iv_merge n ms # rs) t \<longleftrightarrow> covers (ls @ ms @ rs) t \<or> InBounds n t"
proof -
  have h: "hd ms \<in> set ms" "last ms \<in> set ms" using ms(1) by simp_all
  have okm: "ivs_ok ms" using ok by (simp add: ivs_ok_append)
  have "iv_ok (iv_merge n ms)" using n by (simp add: iv_defs iv_merge_bounds)
  moreover have "\<forall>x \<in> set ls. iv_before x (iv_merge n ms)"
    using ls ok h by (auto simp: ivs_ok_append iv_before_def iv_merge_bounds)
  moreover have "\<forall>y \<in> set rs. iv_before (iv_merge n ms) y"
    using rs ok h by (auto simp: ivs_ok_append iv_before_def iv_merge_bounds max_def)
  moreover have "\<forall>x \<in> set ls. \<forall>y \<in> set rs. iv_before x y" "ivs_ok ls" "ivs_ok rs"
    using ok by (auto simp: ivs_ok_append)
  ultimately show "ivs_ok (ls @ iv_merge n ms # rs)" by (auto simp: ivs_ok_append ivs_ok_Cons)
  show "covers (ls @ iv_merge n ms # rs) t \<longleftrightarrow> covers (ls @ ms @ rs) t \<or> InBounds n t"
    using covers_merge [OF okm ms(1) n ms(2), of t] by auto
qed

text \<open>The two searches of \<open>Add\<close>: how many intervals lie wholly before \<open>n\<close>, and how many of the others \<open>n\<close> touches.\<close>

definition add_mini :: "Intervals \<Rightarrow> Interval \<Rightarrow> nat" where
  "add_mini ivs n = (if Mint n \<noteq> MinInt64 then Search (length ivs) (\<lambda>i. Mint n - 1 \<le>s Maxt (ivs ! i)) else 0)"

definition add_maxi :: "Intervals \<Rightarrow> nat \<Rightarrow> Interval \<Rightarrow> nat" where
  "add_maxi ivs mini n = Search (length ivs - mini) (\<lambda>i. Maxt n + 1 <s Mint (ivs ! (mini + i)))"

lemma ivs_ok_nth_mono:
  assumes "ivs_ok ivs" "a \<le> b" "b < length ivs"
  shows "sint (Mint (ivs ! a)) \<le> sint (Mint (ivs ! b))" "sint (Maxt (ivs ! a)) \<le> sint (Maxt (ivs ! b))"
proof -
  have "iv_ok (ivs ! a)" "iv_ok (ivs ! b)" using assms by (auto simp: ivs_ok_def)
  moreover have "a < b \<Longrightarrow> iv_before (ivs ! a) (ivs ! b)"
    using assms by (auto simp: ivs_ok_def dest: sorted_wrt_nth_less)
  ultimately show "sint (Mint (ivs ! a)) \<le> sint (Mint (ivs ! b))" "sint (Maxt (ivs ! a)) \<le> sint (Maxt (ivs ! b))"
    using assms(2) by (cases "a = b"; simp add: iv_defs)+
qed

lemma add_mini_spec:
  assumes ok: "ivs_ok ivs"
  shows "add_mini ivs n \<le> length ivs"
    and "\<forall>x \<in> set (take (add_mini ivs n) ivs). iv_before x n"
    and "\<forall>x \<in> set (drop (add_mini ivs n) ivs). sint (Mint n) - 1 \<le> sint (Maxt x)"
proof -
  let ?f = "\<lambda>i. Mint n - 1 \<le>s Maxt (ivs ! i)"
  have mono: "\<forall>a b. a \<le> b \<and> b < length ivs \<and> ?f a \<longrightarrow> ?f b"
  proof (intro allI impI)
    fix a b assume "a \<le> b \<and> b < length ivs \<and> ?f a"
    then show "?f b" using ivs_ok_nth_mono(2) [OF ok, of a b] by (simp add: word_sle_eq)
  qed
  note sp = Search_spec [OF mono]
  show "add_mini ivs n \<le> length ivs" using sp(1) by (simp add: add_mini_def)
  show "\<forall>x \<in> set (take (add_mini ivs n) ivs). iv_before x n"
  proof (cases "Mint n = MinInt64")
    case False
    then have "iv_before (ivs ! i) n" if "i < add_mini ivs n" for i
      using sp(2) [of i] that by (simp add: add_mini_def word_sle_eq iv_before_def sint_pred)
    then show ?thesis by (rule Ball_take)
  qed (simp add: add_mini_def)
  show "\<forall>x \<in> set (drop (add_mini ivs n) ivs). sint (Mint n) - 1 \<le> sint (Maxt x)"
  proof (cases "Mint n = MinInt64")
    case True
    then show ?thesis using sint_ge_min by (metis diff_le_eq add_increasing2 sint_MinInt64 zero_le_one)
  next
    case False
    then have "sint (Mint n) - 1 \<le> sint (Maxt (ivs ! i))" if "add_mini ivs n \<le> i" "i < length ivs" for i
      using sp(3) [of i] that by (simp add: add_mini_def word_sle_eq sint_pred)
    then show ?thesis by (rule Ball_drop)
  qed
qed

lemma add_maxi_spec:
  assumes ok: "ivs_ok ivs" and mini: "mini \<le> length ivs" and n: "Maxt n \<noteq> MaxInt64"
  shows "add_maxi ivs mini n \<le> length ivs - mini"
    and "\<forall>x \<in> set (take (add_maxi ivs mini n) (drop mini ivs)). sint (Mint x) \<le> sint (Maxt n) + 1"
    and "\<forall>x \<in> set (drop (add_maxi ivs mini n) (drop mini ivs)). iv_before n x"
proof -
  let ?f = "\<lambda>i. Maxt n + 1 <s Mint (ivs ! (mini + i))"
  have mono: "\<forall>a b. a \<le> b \<and> b < length ivs - mini \<and> ?f a \<longrightarrow> ?f b"
  proof (intro allI impI)
    fix a b assume "a \<le> b \<and> b < length ivs - mini \<and> ?f a"
    then show "?f b" using ivs_ok_nth_mono(1) [OF ok, of "mini + a" "mini + b"]
      by (simp add: word_sless_alt less_diff_conv add.commute)
  qed
  note sp = Search_spec [OF mono]
  show "add_maxi ivs mini n \<le> length ivs - mini" using sp(1) by (simp add: add_maxi_def)
  have "sint (Mint (drop mini ivs ! i)) \<le> sint (Maxt n) + 1" if "i < add_maxi ivs mini n" for i
    using sp(1) sp(2) [of i] that n mini by (simp add: add_maxi_def word_sless_alt sint_succ)
  then show "\<forall>x \<in> set (take (add_maxi ivs mini n) (drop mini ivs)). sint (Mint x) \<le> sint (Maxt n) + 1"
    by (rule Ball_take)
  have "iv_before n (drop mini ivs ! i)" if "add_maxi ivs mini n \<le> i" "i < length (drop mini ivs)" for i
    using sp(3) [of i] that n mini by (simp add: add_maxi_def word_sless_alt sint_succ iv_before_def)
  then show "\<forall>x \<in> set (drop (add_maxi ivs mini n) (drop mini ivs)). iv_before n x"
    by (rule Ball_drop)
qed

lemma hd_last_part:
  assumes "mini + k \<le> length ivs" "0 < k"
  shows "hd (take k (drop mini ivs)) = ivs ! mini" "last (take k (drop mini ivs)) = ivs ! (k + mini - 1)"
proof -
  have ne: "take k (drop mini ivs) \<noteq> []" using assms by simp
  show "hd (take k (drop mini ivs)) = ivs ! mini" using assms by (simp add: hd_conv_nth ne)
  show "last (take k (drop mini ivs)) = ivs ! (k + mini - 1)"
    using assms by (simp add: last_conv_nth ne min_absorb2 add.commute)
qed

text \<open>\<open>Add\<close> by the parts of the list: those before \<open>n\<close>, those it touches, and the rest.\<close>

lemma Intervals_Add_parts:
  fixes n :: Interval
  assumes ok: "ivs_ok ivs"
  defines "mini \<equiv> add_mini ivs n" and "k \<equiv> add_maxi ivs (add_mini ivs n) n"
  shows "mini = length ivs \<Longrightarrow> Intervals_Add ivs n = Some (ivs @ [n])"
    and "mini < length ivs \<Longrightarrow> Maxt n \<noteq> MaxInt64 \<Longrightarrow> k = 0 \<Longrightarrow>
      Intervals_Add ivs n = Some (take mini ivs @ n # drop mini ivs)"
    and "mini < length ivs \<Longrightarrow> Maxt n \<noteq> MaxInt64 \<Longrightarrow> 0 < k \<Longrightarrow>
      Intervals_Add ivs n = Some (take mini ivs @ iv_merge n (take k (drop mini ivs)) # drop k (drop mini ivs))"
    and "mini = 0 \<Longrightarrow> ivs \<noteq> [] \<Longrightarrow> Maxt n = MaxInt64 \<Longrightarrow> Intervals_Add ivs n = Some [iv_merge n ivs]"
    and "mini < length ivs \<Longrightarrow> 0 < mini \<Longrightarrow> Maxt n = MaxInt64 \<Longrightarrow> Intervals_Add ivs n = None"
proof -
  note d = Intervals_Add_def [of ivs n, folded add_mini_def add_maxi_def, unfolded Let_def, folded mini_def]
  have z: "Mint n = MinInt64 \<Longrightarrow> mini = 0" by (simp add: mini_def add_mini_def)
  have le: "mini \<le> length ivs" using add_mini_spec(1) [OF ok] by (simp add: mini_def)
  have kle: "Maxt n \<noteq> MaxInt64 \<Longrightarrow> k \<le> length ivs - mini"
    using add_maxi_spec(1) [OF ok le] by (simp add: k_def mini_def)
  have k: "add_maxi ivs mini n = k" by (simp add: k_def mini_def)
  show "mini = length ivs \<Longrightarrow> Intervals_Add ivs n = Some (ivs @ [n])" using z by (auto simp: d)
  show "Intervals_Add ivs n = Some (take mini ivs @ n # drop mini ivs)"
    if "mini < length ivs" "Maxt n \<noteq> MaxInt64" "k = 0"
    using that by (auto simp: d k)
  show "Intervals_Add ivs n = Some (take mini ivs @ iv_merge n (take k (drop mini ivs)) # drop k (drop mini ivs))"
    if m: "mini < length ivs" "Maxt n \<noteq> MaxInt64" "0 < k"
  proof -
    have "mini + k \<le> length ivs" using kle m by simp
    with hd_last_part [OF this m(3)] m show ?thesis by (simp add: d k iv_merge_def split: if_splits) auto
  qed
  show "mini = 0 \<Longrightarrow> ivs \<noteq> [] \<Longrightarrow> Maxt n = MaxInt64 \<Longrightarrow> Intervals_Add ivs n = Some [iv_merge n ivs]"
    by (auto simp: d iv_merge_def hd_conv_nth last_conv_nth)
  show "mini < length ivs \<Longrightarrow> 0 < mini \<Longrightarrow> Maxt n = MaxInt64 \<Longrightarrow> Intervals_Add ivs n = None"
    by (auto simp: d)
qed

text \<open>The inputs on which \<open>Add\<close> panics: \<open>n\<close> has no upper bound, lies after the first interval, and not after the last.\<close>

definition add_panics :: "Intervals \<Rightarrow> Interval \<Rightarrow> bool" where
  "add_panics ivs n \<longleftrightarrow> Maxt n = MaxInt64 \<and> ivs \<noteq> [] \<and> iv_before (hd ivs) n \<and> \<not> iv_before (last ivs) n"

lemma add_mini_zero_iff:
  assumes "ivs_ok ivs" "ivs \<noteq> []"
  shows "add_mini ivs n = 0 \<longleftrightarrow> \<not> iv_before (hd ivs) n"
proof
  assume "add_mini ivs n = 0"
  with add_mini_spec(3) [OF assms(1), of n] assms(2) show "\<not> iv_before (hd ivs) n"
    by (cases ivs) (auto simp: iv_before_def not_less)
next
  assume nb: "\<not> iv_before (hd ivs) n"
  show "add_mini ivs n = 0"
  proof (rule ccontr)
    assume "add_mini ivs n \<noteq> 0"
    then have "hd ivs \<in> set (take (add_mini ivs n) ivs)" using assms(2) by (cases ivs) (auto simp: take_Cons')
    with add_mini_spec(2) [OF assms(1), of n] nb show False by blast
  qed
qed

lemma add_mini_full_iff:
  assumes "ivs_ok ivs" "ivs \<noteq> []"
  shows "add_mini ivs n < length ivs \<longleftrightarrow> \<not> iv_before (last ivs) n"
proof
  assume "add_mini ivs n < length ivs"
  then have "last ivs \<in> set (drop (add_mini ivs n) ivs)" by (metis drop_eq_Nil last_drop last_in_set not_le)
  with add_mini_spec(3) [OF assms(1), of n] show "\<not> iv_before (last ivs) n" by (auto simp: iv_before_def not_less)
next
  assume nb: "\<not> iv_before (last ivs) n"
  show "add_mini ivs n < length ivs"
  proof (rule ccontr)
    assume "\<not> add_mini ivs n < length ivs"
    then have "last ivs \<in> set (take (add_mini ivs n) ivs)" using assms(2) by simp
    with add_mini_spec(2) [OF assms(1), of n] nb show False by blast
  qed
qed

lemma Add_panics_iff:
  assumes ok: "ivs_ok ivs"
  shows "Intervals_Add ivs n = None \<longleftrightarrow> add_panics ivs n"
proof (cases "ivs = []")
  case True
  then show ?thesis by (simp add: Intervals_Add_def add_panics_def)
next
  case False
  let ?m = "add_mini ivs n" and ?k = "add_maxi ivs (add_mini ivs n) n"
  note parts = Intervals_Add_parts [OF ok, of n]
  have "add_panics ivs n \<longleftrightarrow> Maxt n = MaxInt64 \<and> 0 < ?m \<and> ?m < length ivs"
    using add_mini_zero_iff [OF ok False, of n] add_mini_full_iff [OF ok False, of n] False
    by (auto simp: add_panics_def)
  moreover have "Intervals_Add ivs n = None \<longleftrightarrow> Maxt n = MaxInt64 \<and> 0 < ?m \<and> ?m < length ivs"
  proof -
    consider "?m = length ivs" | "?m < length ivs" "Maxt n \<noteq> MaxInt64" "?k = 0" | "?m < length ivs" "Maxt n \<noteq> MaxInt64" "0 < ?k"
      | "?m = 0" "Maxt n = MaxInt64" | "0 < ?m" "?m < length ivs" "Maxt n = MaxInt64"
      using add_mini_spec(1) [OF ok, of n] by fastforce
    then show ?thesis
    proof cases
      case 1 then show ?thesis using parts(1) by simp
    next
      case 2 then show ?thesis using parts(2) by simp
    next
      case 3 then show ?thesis using parts(3) by simp
    next
      case 4 then show ?thesis using parts(4) [OF _ False] by simp
    next
      case 5 then show ?thesis using parts(5) by simp
    qed
  qed
  ultimately show ?thesis by simp
qed

lemma insert_ok:
  assumes "ivs_ok (ls @ rs)" "iv_ok n" "\<forall>x \<in> set ls. iv_before x n" "\<forall>y \<in> set rs. iv_before n y"
  shows "ivs_ok (ls @ n # rs)" "covers (ls @ n # rs) t \<longleftrightarrow> covers (ls @ rs) t \<or> InBounds n t"
  using assms by (auto simp: ivs_ok_append ivs_ok_Cons)

lemma Add_spec:
  assumes ok: "ivs_ok ivs" and n: "iv_ok n" and np: "\<not> add_panics ivs n"
  obtains ivs' where "Intervals_Add ivs n = Some ivs'" "ivs_ok ivs'" "\<And>t. covers ivs' t \<longleftrightarrow> covers ivs t \<or> InBounds n t"
proof -
  define m where "m = add_mini ivs n"
  define k where "k = add_maxi ivs m n"
  note parts = Intervals_Add_parts [OF ok, of n, folded m_def, folded k_def]
  note mini = add_mini_spec [OF ok, of n, folded m_def]
  note maxi = add_maxi_spec [OF ok mini(1), of n, folded k_def]
  have split: "ivs = take m ivs @ drop m ivs" "ivs = take m ivs @ take k (drop m ivs) @ drop k (drop m ivs)"
    by (simp, metis append_take_drop_id)
  consider (tail) "m = length ivs" | (ins) "m < length ivs" "Maxt n \<noteq> MaxInt64" "k = 0"
    | (merge) "m < length ivs" "Maxt n \<noteq> MaxInt64" "0 < k" | (all) "m = 0" "ivs \<noteq> []" "Maxt n = MaxInt64"
    | (bad) "0 < m" "m < length ivs" "Maxt n = MaxInt64"
    using mini(1) by fastforce
  then show thesis
  proof cases
    case tail
    with parts(1) mini(2) insert_ok [of ivs "[]" n] ok n show thesis by (intro that [of "ivs @ [n]"]) auto
  next
    case ins
    with parts(2) insert_ok [of "take m ivs" "drop m ivs" n] ok n mini(2) maxi(3) show thesis
      by (intro that [of "take m ivs @ n # drop m ivs"]) (auto simp flip: covers_simps(3))
  next
    case merge
    let ?ms = "take k (drop m ivs)"
    have "?ms \<noteq> []" using merge by simp
    moreover have "\<forall>x \<in> set ?ms. touches n x"
      using mini(3) maxi(2) merge(2) by (auto simp: touches_def dest: in_set_takeD)
    ultimately have "ivs_ok (take m ivs @ iv_merge n ?ms # drop k (drop m ivs))"
        "covers (take m ivs @ iv_merge n ?ms # drop k (drop m ivs)) t \<longleftrightarrow> covers ivs t \<or> InBounds n t" for t
      using merge_ok [of "take m ivs" ?ms "drop k (drop m ivs)" n] ok n mini(2) maxi(3) merge(2) split(2) by metis+
    with parts(3) [OF merge] show thesis by (rule that)
  next
    case all
    have "\<forall>x \<in> set ivs. touches n x"
    proof
      fix x assume "x \<in> set ivs"
      then show "touches n x" using mini(3) all sint_le_max [of "Mint x"] by (simp add: touches_def)
    qed
    with merge_ok [of "[]" ivs "[]" n] ok n all(2) parts(4) [OF all] show thesis
      by (intro that [of "[iv_merge n ivs]"]) auto
  next
    case bad
    with parts(5) Add_panics_iff [OF ok, of n] np show thesis by auto
  qed
qed

text \<open>Appending a later interval, which is how \<open>Decode\<close> rebuilds a group.\<close>

lemma Add_snoc:
  assumes "ivs_ok (ivs @ [n])"
  shows "Intervals_Add ivs n = Some (ivs @ [n])"
proof -
  have ok: "ivs_ok ivs" "\<forall>x \<in> set ivs. iv_before x n" using assms by (auto simp: ivs_ok_append)
  then have "add_mini ivs n = length ivs"
    using add_mini_spec(1) [OF ok(1), of n] add_mini_full_iff [OF ok(1), of n] by (cases "ivs = []") auto
  then show ?thesis by (rule Intervals_Add_parts(1) [OF ok(1)])
qed

lemma IsSubrange_iff: "IsSubrange n ivs \<longleftrightarrow> (\<exists>r \<in> set ivs. InBounds r (Mint n) \<and> InBounds r (Maxt n))"
  by (induction ivs) auto

lemma truncate_from_le: "truncate_from b ivs i \<le> i"
  by (induction i) auto

lemma truncate_from_filter:
  assumes "ivs_ok ivs" "i \<le> length ivs"
  shows "drop (truncate_from b ivs i) (take i ivs) = filter (\<lambda>iv. b \<le>s Maxt iv) (take i ivs)"
  using assms(2)
proof (induction i)
  case (Suc i)
  have t: "take (Suc i) ivs = take i ivs @ [ivs ! i]" using Suc.prems by (simp add: take_Suc_conv_app_nth)
  show ?case
  proof (cases "Maxt (ivs ! i) <s b")
    case True
    have "\<not> b \<le>s Maxt x" if "x \<in> set (take (Suc i) ivs)" for x
    proof -
      from that obtain j where "j \<le> i" "x = ivs ! j" by (auto simp: in_set_conv_nth less_Suc_eq_le)
      with True ivs_ok_nth_mono(2) [OF assms(1), of j i] Suc.prems show ?thesis by (simp add: word_sle_eq word_sless_alt)
    qed
    then have "filter (\<lambda>iv. b \<le>s Maxt iv) (take (Suc i) ivs) = []" by (simp only: filter_empty_conv) blast
    then show ?thesis using True Suc.prems by simp
  next
    case False
    with Suc t truncate_from_le [of b ivs i] show ?thesis by (simp add: word_sle_eq word_sless_alt)
  qed
qed simp

lemma TruncateBefore_filter:
  assumes "ivs_ok ivs" "t ref = Some ivs"
  shows "TruncateBefore t b ref = (case filter (\<lambda>iv. b \<le>s Maxt iv) ivs of [] \<Rightarrow> None | ivs' \<Rightarrow> Some ivs')"
  using truncate_from_filter [OF assms(1), of "length ivs" b] assms(2)
  by (auto simp: TruncateBefore_def Let_def split: list.splits)

section \<open>The store and its file\<close>

definition tombs_ok :: "MemTombstones \<Rightarrow> bool" where
  "tombs_ok t \<longleftrightarrow> (\<forall>ref ivs. t ref = Some ivs \<longrightarrow> ivs \<noteq> [] \<and> ivs_ok ivs)"

text \<open>The entries of the file, in the order in which they are written.\<close>

definition entry_bytes :: "uint64 \<times> Interval \<Rightarrow> byte list" where
  "entry_bytes e = PutUvarint (fst e) @ PutVarint (Mint (snd e)) @ PutVarint (Maxt (snd e))"

definition tomb_entries :: "MemTombstones \<Rightarrow> uint64 list \<Rightarrow> (uint64 \<times> Interval) list" where
  "tomb_entries t order = concat (map (\<lambda>ref. map (Pair ref) (MemTombstones_Get t ref)) order)"

fun add_entries :: "MemTombstones \<Rightarrow> (uint64 \<times> Interval) list \<Rightarrow> MemTombstones option" where
  "add_entries m [] = Some m"
| "add_entries m (e # es) = (case AddInterval m (fst e) [snd e] of None \<Rightarrow> None | Some m' \<Rightarrow> add_entries m' es)"

lemma put_intervals: "fold (put_interval ref) ivs buf = buf\<lparr>eb_B := eb_B buf @ concat (map entry_bytes (map (Pair ref) ivs))\<rparr>"
  by (induction ivs arbitrary: buf) (simp_all add: put_interval_def Encbuf_defs entry_bytes_def)

lemma Iter_entries:
  "MemTombstones_Iter t order (\<lambda>ref ivs buf. Inr (fold (put_interval ref) ivs buf)) buf
    = Inr (buf\<lparr>eb_B := eb_B buf @ concat (map entry_bytes (tomb_entries t order))\<rparr>)"
  by (induction order arbitrary: buf) (simp_all add: tomb_entries_def put_intervals)

lemma Encode_entries:
  "Tombstones_Encode (MemTombstones_Iter t order) = Inr (tombstoneFormatV1 # concat (map entry_bytes (tomb_entries t order)))"
  by (simp add: Tombstones_Encode_def Iter_entries Encbuf_defs Encbuf_Get_def)

lemma Interval_eta [simp]: "\<lparr>Mint = Mint x, Maxt = Maxt x\<rparr> = (x :: Interval)"
  by (cases x) simp

context varint_lib
begin

lemma Decode_loop_entries:
  "Decode_loop vu \<lparr>db_B = concat (map entry_bytes es), db_E = None\<rparr> m = map_option Inr (add_entries m es)"
proof (induction es arbitrary: m)
  case Nil
  show ?case by (simp add: Decode_loop.simps Decbuf_Len_def)
next
  case (Cons e es)
  let ?rest = "concat (map entry_bytes es)"
  note r1 = readsD [OF reads_Uvarint64 [of "fst e"], of "PutVarint (Mint (snd e)) @ PutVarint (Maxt (snd e)) @ ?rest"]
  note r2 = readsD [OF reads_Varint64 [of "Mint (snd e)"], of "PutVarint (Maxt (snd e)) @ ?rest"]
  note r3 = readsD [OF reads_Varint64 [of "Maxt (snd e)"], of ?rest]
  have "concat (map entry_bytes (e # es)) =
      PutUvarint (fst e) @ PutVarint (Mint (snd e)) @ PutVarint (Maxt (snd e)) @ ?rest"
    by (simp add: entry_bytes_def)
  with r1 r2 r3 Cons.IH show ?case
    by (subst Decode_loop.simps) (simp add: Decbuf_Len_def split: option.splits)
qed

lemma Decode_Encode:
  "Tombstones_Decode vu (tombstoneFormatV1 # concat (map entry_bytes es)) = map_option Inr (add_entries NewMemTombstones es)"
  by (simp add: Tombstones_Decode_def Decbuf_Byte_def Decode_loop_entries)

lemma ReadTombstones_file:
  assumes "bytes = tombstoneFormatV1 # h" "Tombstones_Decode vu bytes = Some (Inr m)"
    and f: "file = PutUint32 MagicTombstone @ bytes @ crc32_sum h"
  shows "ReadTombstones vu (Some file) = Some (Inr (m, length file))"
proof -
  have len: "length (crc32_sum h) = 4" by (simp add: crc32_sum_def)
  then have "length file - tombstonesCRCSize = length (PutUint32 MagicTombstone @ bytes)"
    by (simp add: f tombstonesCRCSize_def)
  then have parts: "take (length file - tombstonesCRCSize) file = PutUint32 MagicTombstone @ bytes"
      "drop (length file - tombstonesCRCSize) file = crc32_sum h"
    by (simp_all add: f)
  have crc: "Uint32 (crc32_sum h) = Some (crc32_Checksum h)"
    using Uint32_PutUint32 [of "crc32_Checksum h" "[]"] by (simp add: crc32_sum_def)
  have be: "Decbuf_Be32 \<lparr>db_B = PutUint32 MagicTombstone @ bytes, db_E = None\<rparr> = Some (MagicTombstone, \<lparr>db_B = bytes, db_E = None\<rparr>)"
    using reads_Be32 [of MagicTombstone] by (rule readsD)
  have "\<not> length file < tombstonesHeaderSize" using len by (simp add: f assms(1) tombstonesHeaderSize_def)
  then show ?thesis
    using assms(2) unfolding ReadTombstones_def parts option.case if_False be prod.case
    by (simp add: crc assms(1) Decbuf_Get_def slice_from_def tombstoneFormatVersionSize_def)
qed

end

lemma add_group:
  "ivs_ok (xs @ ys) \<Longrightarrow> add_entries (m(ref \<mapsto> xs)) (map (Pair ref) ys) = Some (m(ref \<mapsto> xs @ ys))"
proof (induction ys arbitrary: xs)
  case (Cons y ys)
  have "ivs_ok (xs @ [y])" "ivs_ok ((xs @ [y]) @ ys)"
    using Cons.prems by (auto simp: ivs_ok_append ivs_ok_Cons)
  note ok = this
  have "AddInterval (m(ref \<mapsto> xs)) ref [y] = Some (m(ref \<mapsto> xs @ [y]))"
    using Add_snoc [OF ok(1)] by (simp add: MemTombstones_Get_def)
  then show ?case using Cons.IH [OF ok(2)]
    by (simp only: add_entries.simps list.map fst_conv snd_conv option.case append_assoc append_Cons append_Nil)
qed simp

lemma add_group_new:
  assumes "ivs_ok ys" "ys \<noteq> []" "m ref = None"
  shows "add_entries m (map (Pair ref) ys) = Some (m(ref \<mapsto> ys))"
proof -
  obtain y ys' where "ys = y # ys'" using assms(2) by (cases ys) auto
  with add_group [of "[y]" ys' m ref] assms(1,3) show ?thesis by (simp add: MemTombstones_Get_def Intervals_Add_def)
qed

lemma add_entries_append:
  "add_entries m (xs @ ys) = (case add_entries m xs of None \<Rightarrow> None | Some m' \<Rightarrow> add_entries m' ys)"
  by (induction m xs rule: add_entries.induct) (auto split: option.splits)

lemma add_all_groups:
  assumes "tombs_ok t" "distinct order" "set order \<subseteq> dom t" "\<forall>ref \<in> set order. m ref = None"
  shows "add_entries m (tomb_entries t order) = Some (\<lambda>ref. if ref \<in> set order then t ref else m ref)"
  using assms(2-)
proof (induction order arbitrary: m)
  case (Cons ref order)
  then obtain ivs where ivs: "t ref = Some ivs" by auto
  with assms(1) have "ivs \<noteq> []" "ivs_ok ivs" by (auto simp: tombs_ok_def)
  with Cons.prems ivs have g: "add_entries m (map (Pair ref) (MemTombstones_Get t ref)) = Some (m(ref \<mapsto> ivs))"
    by (simp add: MemTombstones_Get_def add_group_new)
  have "add_entries m (tomb_entries t (ref # order)) = add_entries (m(ref \<mapsto> ivs)) (tomb_entries t order)"
    using g by (simp add: tomb_entries_def add_entries_append)
  also have "\<dots> = Some (\<lambda>r. if r \<in> set order then t r else (m(ref \<mapsto> ivs)) r)"
    using Cons by (intro Cons.IH) auto
  also have "\<dots> = Some (\<lambda>r. if r \<in> set (ref # order) then t r else m r)"
    using ivs by (auto simp: fun_eq_iff)
  finally show ?case .
qed (simp add: tomb_entries_def)

lemma add_entries_store:
  assumes "tombs_ok t" "distinct order" "set order = dom t"
  shows "add_entries NewMemTombstones (tomb_entries t order) = Some t"
proof -
  have "(\<lambda>ref. if ref \<in> set order then t ref else NewMemTombstones ref) = t"
    using assms(3) by (auto simp: fun_eq_iff NewMemTombstones_def domIff)
  then show ?thesis using add_all_groups [of t order NewMemTombstones] assms by (simp add: NewMemTombstones_def)
qed

lemma WriteFile_entries:
  "WriteFile_bytes (MemTombstones_Iter t order) =
    Some (Inr (PutUint32 MagicTombstone @ (tombstoneFormatV1 # concat (map entry_bytes (tomb_entries t order)))
      @ crc32_sum (concat (map entry_bytes (tomb_entries t order)))))"
  by (simp add: WriteFile_bytes_def Encode_entries Encbuf_defs Encbuf_Get_def slice_from_def tombstoneFormatVersionSize_def)

lemma AddInterval_ok:
  assumes "tombs_ok t" "iv_ok n" "\<not> add_panics (MemTombstones_Get t ref) n"
  obtains t' where "AddInterval t ref [n] = Some t'" "tombs_ok t'"
    "\<And>r x. covers (MemTombstones_Get t' r) x \<longleftrightarrow> covers (MemTombstones_Get t r) x \<or> r = ref \<and> InBounds n x"
proof -
  have ok: "ivs_ok (MemTombstones_Get t ref)"
    using assms(1) by (auto simp: tombs_ok_def MemTombstones_Get_def split: option.splits)
  obtain ivs' where "Intervals_Add (MemTombstones_Get t ref) n = Some ivs'" "ivs_ok ivs'"
      "\<And>x. covers ivs' x \<longleftrightarrow> covers (MemTombstones_Get t ref) x \<or> InBounds n x"
    using Add_spec [OF ok assms(2,3)] by blast
  moreover from this(3) [of "Mint n"] have "ivs' \<noteq> []" using assms(2) by (auto simp: iv_defs)
  ultimately show thesis
    using assms(1) by (intro that [of "t(ref \<mapsto> ivs')"]) (auto simp: tombs_ok_def MemTombstones_Get_def)
qed

lemma sorted_wrt_total: "sorted_wrt P xs \<Longrightarrow> x \<in> set xs \<Longrightarrow> y \<in> set xs \<Longrightarrow> P x y \<or> P y x \<or> y = x"
  by (induction xs) auto

text \<open>A store built from well-formed deletions answers \<open>IsSubrange\<close> by set inclusion.\<close>

lemma covered_by_one:
  assumes "ivs_ok ivs" "iv_ok n" "\<forall>t. InBounds n t \<longrightarrow> covers ivs t"
  shows "\<exists>r \<in> set ivs. InBounds r (Mint n) \<and> InBounds r (Maxt n)"
proof -
  have "InBounds n (Mint n)" using assms(2) by (simp add: iv_defs)
  with assms(3) obtain r where r: "r \<in> set ivs" "InBounds r (Mint n)" by (auto simp: covers_def)
  have "sint (Maxt n) \<le> sint (Maxt r)"
  proof (rule ccontr)
    assume "\<not> sint (Maxt n) \<le> sint (Maxt r)"
    then have lt: "sint (Maxt r) < sint (Maxt n)" by simp
    then have "Maxt r \<noteq> MaxInt64" using sint_le_max [of "Maxt n"] by auto
    then have succ: "sint (Maxt r + 1) = sint (Maxt r) + 1" by (rule sint_succ)
    with lt r(2) have "InBounds n (Maxt r + 1)" by (simp add: iv_defs)
    with assms(3) obtain q where q: "q \<in> set ivs" "InBounds q (Maxt r + 1)" by (auto simp: covers_def)
    with succ have "q \<noteq> r" by (auto simp: iv_defs)
    moreover have "iv_before r q \<or> iv_before q r \<or> q = r"
      using sorted_wrt_total [of iv_before ivs r q] assms(1) r(1) q(1) by (auto simp: ivs_ok_def)
    ultimately show False using q r succ assms(1) by (auto simp: iv_defs ivs_ok_def)
  qed
  with r assms(2) show ?thesis by (intro bexI [of _ r]) (auto simp: iv_defs intro: order_trans)
qed

section \<open>Properties\<close>

text \<open>
  C23. \<open>Intervals.Add\<close> on sorted, disjoint, non-adjacent intervals returns such intervals again, and
  they stand for the union of the old time points and the new interval; the hypothesis excludes
  the case in which the code panics.
\<close>

theorem intervals_add_union:
  assumes "ivs_ok ivs" "iv_ok n" "\<not> add_panics ivs n"
  shows "\<exists>ivs'. Intervals_Add ivs n = Some ivs' \<and> ivs_ok ivs' \<and> (\<forall>t. covers ivs' t \<longleftrightarrow> covers ivs t \<or> InBounds n t)"
  using Add_spec [OF assms] by blast

definition ex_ivs :: Intervals where
  "ex_ivs = [\<lparr>Mint = 1, Maxt = 2\<rparr>, \<lparr>Mint = 10, Maxt = 20\<rparr>]"

lemma ex_ivs_ok: "ivs_ok ex_ivs" "ex_ivs \<noteq> []"
  by (simp_all add: ex_ivs_def ivs_ok_def iv_defs)

theorem intervals_add_union_witness:
  "\<exists>ivs'. Intervals_Add ex_ivs \<lparr>Mint = 15, Maxt = 30\<rparr> = Some ivs' \<and> ivs_ok ivs' \<and>
    (\<forall>t. covers ivs' t \<longleftrightarrow> covers ex_ivs t \<or> InBounds \<lparr>Mint = 15, Maxt = 30\<rparr> t)"
  using intervals_add_union [OF ex_ivs_ok(1), of "\<lparr>Mint = 15, Maxt = 30\<rparr>"] by (simp add: iv_defs add_panics_def MaxInt64_def)

text \<open>
  C37. \<open>Intervals.Add\<close> panics with an index out of range exactly when the new interval ends at the
  largest time, starts behind the first interval and does not start behind the last one: \<open>maxi\<close> is
  then the length of the whole slice although it counts from \<open>mini\<close>.
\<close>

theorem intervals_add_panics:
  assumes "ivs_ok ivs"
  shows "Intervals_Add ivs n = None \<longleftrightarrow>
    Maxt n = MaxInt64 \<and> ivs \<noteq> [] \<and> sint (Maxt (hd ivs)) + 1 < sint (Mint n) \<and> sint (Mint n) \<le> sint (Maxt (last ivs)) + 1"
  using Add_panics_iff [OF assms, of n] by (auto simp: add_panics_def iv_before_def)

theorem intervals_add_panics_witness: "Intervals_Add ex_ivs \<lparr>Mint = 15, Maxt = MaxInt64\<rparr> = None"
  using intervals_add_panics [OF ex_ivs_ok(1), of "\<lparr>Mint = 15, Maxt = MaxInt64\<rparr>"] by (simp add: ex_ivs_def)

text \<open>
  On well-formed intervals \<open>IsSubrange\<close> answers whether every time point of the interval is
  covered, although the code only looks for one range that holds both end points.
\<close>

theorem is_subrange_covered:
  assumes "ivs_ok ivs" "iv_ok n"
  shows "IsSubrange n ivs \<longleftrightarrow> (\<forall>t. InBounds n t \<longrightarrow> covers ivs t)"
proof
  assume "IsSubrange n ivs"
  then obtain r where "r \<in> set ivs" "InBounds r (Mint n)" "InBounds r (Maxt n)" by (auto simp: IsSubrange_iff)
  moreover from this have "InBounds r t" if "InBounds n t" for t using that by (auto simp: iv_defs)
  ultimately show "\<forall>t. InBounds n t \<longrightarrow> covers ivs t" by (auto simp: covers_def)
qed (use covered_by_one [OF assms] in \<open>auto simp: IsSubrange_iff\<close>)

text \<open>
  \<open>AddInterval\<close> on the store keeps its invariant (no empty group, every group well-formed),
  deletes exactly the time points of the new interval in the named series and nothing elsewhere.
\<close>

theorem add_interval_store:
  assumes "tombs_ok t" "iv_ok n" "\<not> add_panics (MemTombstones_Get t ref) n"
  shows "\<exists>t'. AddInterval t ref [n] = Some t' \<and> tombs_ok t' \<and>
    (\<forall>r x. covers (MemTombstones_Get t' r) x \<longleftrightarrow> covers (MemTombstones_Get t r) x \<or> r = ref \<and> InBounds n x)"
proof -
  obtain t' where "AddInterval t ref [n] = Some t'" "tombs_ok t'"
      "\<And>r x. covers (MemTombstones_Get t' r) x \<longleftrightarrow> covers (MemTombstones_Get t r) x \<or> r = ref \<and> InBounds n x"
    using AddInterval_ok [OF assms] by blast
  then show ?thesis by blast
qed

definition ex_tombs :: MemTombstones where
  "ex_tombs = [7 \<mapsto> ex_ivs, 300 \<mapsto> [\<lparr>Mint = -5, Maxt = 5\<rparr>]]"

lemma ex_tombs_ok: "tombs_ok ex_tombs"
  by (simp add: tombs_ok_def ex_tombs_def ex_ivs_ok) (simp add: ivs_ok_def iv_defs)

text \<open>
  \<open>TruncateBefore\<close> drops from every group exactly the intervals that end before the given time,
  removes a group that becomes empty and keeps the store's invariant.
\<close>

theorem truncate_before_groups:
  assumes "tombs_ok t"
  shows "tombs_ok (TruncateBefore t b) \<and>
    MemTombstones_Get (TruncateBefore t b) ref = filter (\<lambda>iv. b \<le>s Maxt iv) (MemTombstones_Get t ref)"
proof -
  have g: "TruncateBefore t b r = (case filter (\<lambda>iv. b \<le>s Maxt iv) ivs of [] \<Rightarrow> None | ivs' \<Rightarrow> Some ivs')"
    if "t r = Some ivs" for r ivs
    using TruncateBefore_filter [of ivs t r b] that assms by (auto simp: tombs_ok_def)
  have n: "TruncateBefore t b r = None" if "t r = None" for r using that by (simp add: TruncateBefore_def)
  have "ivs' \<noteq> [] \<and> ivs_ok ivs'" if "TruncateBefore t b r = Some ivs'" for r ivs'
  proof -
    from that n obtain ivs where ivs: "t r = Some ivs" by (cases "t r") auto
    with that g have "ivs' = filter (\<lambda>iv. b \<le>s Maxt iv) ivs" "ivs' \<noteq> []" by (auto split: list.splits)
    with assms ivs show ?thesis by (auto simp: tombs_ok_def ivs_ok_def sorted_wrt_filter)
  qed
  moreover have "MemTombstones_Get (TruncateBefore t b) ref = filter (\<lambda>iv. b \<le>s Maxt iv) (MemTombstones_Get t ref)"
    by (cases "t ref") (auto simp: MemTombstones_Get_def n g split: list.splits)
  ultimately show ?thesis by (simp add: tombs_ok_def)
qed

text \<open>
  C25. A tombstone file holds the store: whatever order the map of the store is walked in, reading
  the bytes that \<open>WriteFile\<close> writes gives the same store and the size of the file.
\<close>

theorem tombstone_file_roundtrip:
  assumes "varint_lib vu" "tombs_ok t" "distinct order" "set order = dom t"
  shows "\<exists>b. WriteFile_bytes (MemTombstones_Iter t order) = Some (Inr b) \<and> ReadTombstones vu (Some b) = Some (Inr (t, length b))"
proof -
  let ?body = "concat (map entry_bytes (tomb_entries t order))"
  have "Tombstones_Decode vu (tombstoneFormatV1 # ?body) = Some (Inr t)"
    using varint_lib.Decode_Encode [OF assms(1), of "tomb_entries t order"] add_entries_store [OF assms(2-4)] by simp
  from varint_lib.ReadTombstones_file [OF assms(1) refl this refl] show ?thesis
    by (simp add: WriteFile_entries)
qed

theorem tombstone_file_roundtrip_witness:
  "\<exists>b. WriteFile_bytes (MemTombstones_Iter ex_tombs [300, 7]) = Some (Inr b) \<and> ReadTombstones Uvarint (Some b) = Some (Inr (ex_tombs, length b))"
  by (rule tombstone_file_roundtrip [OF stdlib.varint_lib_axioms ex_tombs_ok]) (auto simp: ex_tombs_def)

text \<open>
  \<open>ReadTombstones\<close> panics on every file of eight bytes that starts with the magic number: the
  size check lets it pass, and the checksum is taken over \<open>d.Get()[1:]\<close> of an empty slice.
\<close>

theorem read_tombstones_short_file_panics:
  "length crc = 4 \<Longrightarrow> ReadTombstones vu (Some (PutUint32 MagicTombstone @ crc)) = None"
  using readsD [OF reads_Be32, of MagicTombstone "[]"]
  by (simp add: ReadTombstones_def tombstonesHeaderSize_def tombstonesCRCSize_def Decbuf_Get_def slice_from_def
      tombstoneFormatVersionSize_def)

end
