(* ===== verification/Histogram.thy ===== *)
theory Histogram
  imports Go_Prelude
begin

text \<open>
  The data of native histograms (\<open>model/histogram/histogram.go\<close>, \<open>float_histogram.go\<close>), the schema
  predicates and the reduction of the bucket resolution (\<open>generic.go\<close>), which the record decoder
  applies to histograms of a higher resolution than this version supports. The reduction is
  generic in the bucket count; its addition and subtraction are arguments (64-bit wrap-around for
  integer buckets, IEEE addition for float buckets).
\<close>

section \<open>Data\<close>

type_synonym int32 = "32 word"

record Span =
  Offset :: int32
  Length :: uint32

record 'c histogram =
  CounterResetHint :: byte
  Schema :: int32
  ZeroThreshold :: float64
  ZeroCount :: "uint64"
  Count :: "uint64"
  Sum :: float64
  PositiveSpans :: "Span list"
  NegativeSpans :: "Span list"
  PositiveBuckets :: "'c list"
  NegativeBuckets :: "'c list"
  CustomValues :: "float64 list"

text \<open>
  \<open>Histogram\<close> and \<open>FloatHistogram\<close> have the same fields; the counts of the latter and its buckets
  are floats, which the model represents by their bit patterns. The phantom tag keeps the two apart.
\<close>

datatype int_bucket = IntBucket (int_count: int64)
datatype float_bucket = FloatBucket (float_count: float64)

type_synonym Histogram = "int_bucket histogram"
type_synonym FloatHistogram = "float_bucket histogram"

section \<open>Schemas\<close>

definition ExponentialSchemaMax :: int32 where "ExponentialSchemaMax = 8"
definition ExponentialSchemaMaxReserved :: int32 where "ExponentialSchemaMaxReserved = 52"
definition ExponentialSchemaMin :: int32 where "ExponentialSchemaMin = -4"
definition ExponentialSchemaMinReserved :: int32 where "ExponentialSchemaMinReserved = -9"
definition CustomBucketsSchema :: int32 where "CustomBucketsSchema = -53"

definition IsCustomBucketsSchema :: "int32 \<Rightarrow> bool" where
  "IsCustomBucketsSchema s \<longleftrightarrow> s = CustomBucketsSchema"

definition IsExponentialSchema :: "int32 \<Rightarrow> bool" where
  "IsExponentialSchema s \<longleftrightarrow> ExponentialSchemaMin \<le>s s \<and> s \<le>s ExponentialSchemaMax"

definition IsExponentialSchemaReserved :: "int32 \<Rightarrow> bool" where
  "IsExponentialSchemaReserved s \<longleftrightarrow> ExponentialSchemaMinReserved \<le>s s \<and> s \<le>s ExponentialSchemaMaxReserved"

definition IsValidSchema :: "int32 \<Rightarrow> bool" where
  "IsValidSchema s \<longleftrightarrow> IsCustomBucketsSchema s \<or> IsExponentialSchema s"

definition IsKnownSchema :: "int32 \<Rightarrow> bool" where
  "IsKnownSchema s \<longleftrightarrow> IsCustomBucketsSchema s \<or> IsExponentialSchemaReserved s"

definition UsesCustomBuckets :: "'c histogram \<Rightarrow> bool" where
  "UsesCustomBuckets h \<longleftrightarrow> IsCustomBucketsSchema (Schema h)"

section \<open>Reducing the resolution\<close>

definition targetIdx :: "int32 \<Rightarrow> int32 \<Rightarrow> int32 \<Rightarrow> int32" where
  "targetIdx idx originSchema targetSchema = signed_drop_bit (unat (originSchema - targetSchema)) (idx - 1) + 1"

text \<open>
  The local variables of \<open>reduceResolution\<close>. With \<open>inplace\<close> the target slices share the memory of
  the origin slices, so every write to a target slice is also a write to the origin at that index.
\<close>

record 'c reduction =
  rr_originSpans :: "Span list"
  rr_originBuckets :: "'c list"
  rr_targetSpans :: "Span list"
  rr_targetBuckets :: "'c list"
  rr_bucketIdx :: int32
  rr_bucketCountIdx :: nat
  rr_lastBucketCount :: 'c
  rr_lastTargetBucketIdx :: int32
  rr_lastTargetBucketCount :: 'c

definition append_span :: "bool \<Rightarrow> Span \<Rightarrow> 'c reduction \<Rightarrow> 'c reduction" where
  "append_span inplace sp st = st\<lparr>
     rr_originSpans := (if inplace then (rr_originSpans st)[length (rr_targetSpans st) := sp] else rr_originSpans st),
     rr_targetSpans := rr_targetSpans st @ [sp]\<rparr>"

definition grow_last_span :: "bool \<Rightarrow> 'c reduction \<Rightarrow> 'c reduction" where
  "grow_last_span inplace st =
     (let k = length (rr_targetSpans st) - 1;
          sp = (rr_targetSpans st ! k)\<lparr>Length := Length (rr_targetSpans st ! k) + 1\<rparr>
      in st\<lparr>rr_originSpans := (if inplace then (rr_originSpans st)[k := sp] else rr_originSpans st),
            rr_targetSpans := (rr_targetSpans st)[k := sp]\<rparr>)"

definition append_bucket :: "bool \<Rightarrow> 'c \<Rightarrow> 'c reduction \<Rightarrow> 'c reduction" where
  "append_bucket inplace c st = st\<lparr>
     rr_originBuckets := (if inplace then (rr_originBuckets st)[length (rr_targetBuckets st) := c] else rr_originBuckets st),
     rr_targetBuckets := rr_targetBuckets st @ [c]\<rparr>"

definition set_last_bucket :: "bool \<Rightarrow> 'c \<Rightarrow> 'c reduction \<Rightarrow> 'c reduction" where
  "set_last_bucket inplace c st =
     (let k = length (rr_targetBuckets st) - 1
      in st\<lparr>rr_originBuckets := (if inplace then (rr_originBuckets st)[k := c] else rr_originBuckets st),
            rr_targetBuckets := (rr_targetBuckets st)[k := c]\<rparr>)"

text \<open>The body of the inner loop after its guard; \<open>add\<close> and \<open>sub\<close> are the arithmetic of the bucket counts.\<close>

definition reduce_bucket ::
  "('c \<Rightarrow> 'c \<Rightarrow> 'c) \<Rightarrow> ('c \<Rightarrow> 'c \<Rightarrow> 'c) \<Rightarrow> bool \<Rightarrow> bool \<Rightarrow> int32 \<Rightarrow> int32 \<Rightarrow> 'c reduction \<Rightarrow> 'c reduction" where
  "reduce_bucket add sub deltaBuckets inplace originSchema targetSchema st =
     (let c = rr_originBuckets st ! rr_bucketCountIdx st;
          idx = targetIdx (rr_bucketIdx st) originSchema targetSchema;
          lastIdx = rr_lastTargetBucketIdx st;
          count = add (rr_lastBucketCount st) c;
          new_bucket = (\<lambda>st.
            if deltaBuckets
            then (append_bucket inplace (sub count (rr_lastTargetBucketCount st)) st)
                   \<lparr>rr_lastBucketCount := count, rr_lastTargetBucketCount := count\<rparr>
            else append_bucket inplace c st);
          st' =
            (if rr_targetSpans st = []
             then (append_bucket inplace c (append_span inplace \<lparr>Offset = idx, Length = 1\<rparr> st))
                    \<lparr>rr_lastTargetBucketIdx := idx, rr_lastBucketCount := c, rr_lastTargetBucketCount := c\<rparr>
             else if lastIdx = idx
             then (let k = length (rr_targetBuckets st) - 1 in
                   if deltaBuckets
                   then (set_last_bucket inplace (add (rr_targetBuckets st ! k) count) st)
                          \<lparr>rr_lastBucketCount := count, rr_lastTargetBucketCount := add (rr_lastTargetBucketCount st) count\<rparr>
                   else set_last_bucket inplace (add (rr_targetBuckets st ! k) c) st)
             else if lastIdx + 1 = idx
             then new_bucket ((grow_last_span inplace st)\<lparr>rr_lastTargetBucketIdx := lastIdx + 1\<rparr>)
             else if lastIdx + 1 <s idx
             then new_bucket ((append_span inplace \<lparr>Offset = idx - lastIdx - 1, Length = 1\<rparr> st)\<lparr>rr_lastTargetBucketIdx := idx\<rparr>)
             else st)
      in st'\<lparr>rr_bucketIdx := rr_bucketIdx st + 1, rr_bucketCountIdx := rr_bucketCountIdx st + 1\<rparr>)"

text \<open>The inner loop over the buckets of a span and the outer loop over the spans, by the number of rounds left.\<close>

fun reduce_span ::
  "('c \<Rightarrow> 'c \<Rightarrow> 'c) \<Rightarrow> ('c \<Rightarrow> 'c \<Rightarrow> 'c) \<Rightarrow> bool \<Rightarrow> bool \<Rightarrow> int32 \<Rightarrow> int32 \<Rightarrow> nat \<Rightarrow> 'c reduction \<Rightarrow>
    go_error + 'c reduction" where
  "reduce_span add sub deltaBuckets inplace originSchema targetSchema 0 st = Inr st"
| "reduce_span add sub deltaBuckets inplace originSchema targetSchema (Suc j) st =
     (if length (rr_originBuckets st) \<le> rr_bucketCountIdx st then Inl (ErrInvalid ''spans need more buckets'')
      else reduce_span add sub deltaBuckets inplace originSchema targetSchema j
             (reduce_bucket add sub deltaBuckets inplace originSchema targetSchema st))"

fun reduce_spans ::
  "('c \<Rightarrow> 'c \<Rightarrow> 'c) \<Rightarrow> ('c \<Rightarrow> 'c \<Rightarrow> 'c) \<Rightarrow> bool \<Rightarrow> bool \<Rightarrow> int32 \<Rightarrow> int32 \<Rightarrow> nat \<Rightarrow> nat \<Rightarrow> 'c reduction \<Rightarrow>
    go_error + 'c reduction" where
  "reduce_spans add sub deltaBuckets inplace originSchema targetSchema 0 n st = Inr st"
| "reduce_spans add sub deltaBuckets inplace originSchema targetSchema (Suc k) n st =
     (let span = rr_originSpans st ! n in
      if 0 < n \<and> Offset span <s 0 then Inl (ErrInvalid ''span with negative offset'')
      else case reduce_span add sub deltaBuckets inplace originSchema targetSchema (unat (Length span))
                  (st\<lparr>rr_bucketIdx := rr_bucketIdx st + Offset span\<rparr>) of
             Inl err \<Rightarrow> Inl err
           | Inr st' \<Rightarrow> reduce_spans add sub deltaBuckets inplace originSchema targetSchema k (Suc n) st')"

definition reduceResolution ::
  "('c \<Rightarrow> 'c \<Rightarrow> 'c) \<Rightarrow> ('c \<Rightarrow> 'c \<Rightarrow> 'c) \<Rightarrow> 'c \<Rightarrow> Span list \<Rightarrow> 'c list \<Rightarrow> int32 \<Rightarrow> int32 \<Rightarrow> bool \<Rightarrow> bool \<Rightarrow>
    go_error + Span list \<times> 'c list" where
  "reduceResolution add sub z originSpans originBuckets originSchema targetSchema deltaBuckets inplace =
     (case reduce_spans add sub deltaBuckets inplace originSchema targetSchema (length originSpans) 0
             \<lparr>rr_originSpans = originSpans, rr_originBuckets = originBuckets, rr_targetSpans = [], rr_targetBuckets = [],
              rr_bucketIdx = 0, rr_bucketCountIdx = 0, rr_lastBucketCount = z, rr_lastTargetBucketIdx = 0,
              rr_lastTargetBucketCount = z\<rparr> of
        Inl err \<Rightarrow> Inl err
      | Inr st \<Rightarrow>
          if rr_bucketCountIdx st \<noteq> length originBuckets then Inl (ErrInvalid ''spans and buckets mismatch'')
          else Inr (rr_targetSpans st, rr_targetBuckets st))"

definition ReduceResolution_with ::
  "('c \<Rightarrow> 'c \<Rightarrow> 'c) \<Rightarrow> ('c \<Rightarrow> 'c \<Rightarrow> 'c) \<Rightarrow> 'c \<Rightarrow> bool \<Rightarrow> 'c histogram \<Rightarrow> int32 \<Rightarrow> go_error + 'c histogram" where
  "ReduceResolution_with add sub z deltaBuckets h targetSchema =
     (if UsesCustomBuckets h then Inl (ErrInvalid ''cannot reduce resolution when there are custom buckets'')
      else if IsCustomBucketsSchema targetSchema then Inl (ErrInvalid ''cannot reduce resolution to custom buckets schema'')
      else if Schema h \<le>s targetSchema then Inl (ErrInvalid ''cannot reduce resolution'')
      else case reduceResolution add sub z (PositiveSpans h) (PositiveBuckets h) (Schema h) targetSchema deltaBuckets True of
             Inl err \<Rightarrow> Inl err
           | Inr (ps, pb) \<Rightarrow>
               (case reduceResolution add sub z (NegativeSpans h) (NegativeBuckets h) (Schema h) targetSchema
                       deltaBuckets True of
                  Inl err \<Rightarrow> Inl err
                | Inr (ns, nb) \<Rightarrow>
                    Inr (h\<lparr>PositiveSpans := ps, PositiveBuckets := pb, NegativeSpans := ns, NegativeBuckets := nb,
                           Schema := targetSchema\<rparr>)))"

definition Histogram_ReduceResolution :: "Histogram \<Rightarrow> int32 \<Rightarrow> go_error + Histogram" where
  "Histogram_ReduceResolution =
     ReduceResolution_with (\<lambda>a b. IntBucket (int_count a + int_count b)) (\<lambda>a b. IntBucket (int_count a - int_count b))
       (IntBucket 0) True"

text \<open>Float buckets are absolute counts, so only the addition \<open>fadd\<close> of floats is ever applied.\<close>

definition FloatHistogram_ReduceResolution ::
  "(float64 \<Rightarrow> float64 \<Rightarrow> float64) \<Rightarrow> FloatHistogram \<Rightarrow> int32 \<Rightarrow> go_error + FloatHistogram" where
  "FloatHistogram_ReduceResolution fadd =
     ReduceResolution_with (\<lambda>a b. FloatBucket (fadd (float_count a) (float_count b))) (\<lambda>a b. a) (FloatBucket 0) False"

end
