(* ===== verification/WalRecord.thy ===== *)
theory WalRecord
  imports LabelSet Encoding Tombstones Histogram
begin

text \<open>
  The write-ahead log records of \<open>tsdb/record/record.go\<close>: one encoder and one decoder for each
  record type. A series or chunk reference is a 64-bit word, a string its bytes. Label sets are
  lists of labels, as in \<open>labels_slicelabels.go\<close>, whose \<open>ScratchBuilder\<close> the decoder uses. Log
  messages are not part of the model. A decoder returns \<open>None\<close> for a run-time panic, and otherwise
  an error or the decoded values.
\<close>

section \<open>Types\<close>

datatype Type =
    Unknown | Series | Samples | TombstonesT | Exemplars | MmapMarkers | Metadata
  | HistogramSamples | FloatHistogramSamples | CustomBucketsHistogramSamples | CustomBucketsFloatHistogramSamples
  | SamplesV2 | HistogramSamplesV2 | FloatHistogramSamplesV2

fun type_byte :: "Type \<Rightarrow> byte" where
  "type_byte Unknown = 255" | "type_byte Series = 1" | "type_byte Samples = 2" | "type_byte TombstonesT = 3"
| "type_byte Exemplars = 4" | "type_byte MmapMarkers = 5" | "type_byte Metadata = 6" | "type_byte HistogramSamples = 7"
| "type_byte FloatHistogramSamples = 8" | "type_byte CustomBucketsHistogramSamples = 9"
| "type_byte CustomBucketsFloatHistogramSamples = 10" | "type_byte SamplesV2 = 11" | "type_byte HistogramSamplesV2 = 12"
| "type_byte FloatHistogramSamplesV2 = 13"

fun type_String :: "Type \<Rightarrow> string" where
  "type_String Series = ''series''" | "type_String Samples = ''samples''" | "type_String SamplesV2 = ''samples_v2''"
| "type_String TombstonesT = ''tombstones''" | "type_String Exemplars = ''exemplars''"
| "type_String HistogramSamples = ''histogram_samples''" | "type_String FloatHistogramSamples = ''float_histogram_samples''"
| "type_String CustomBucketsHistogramSamples = ''custom_buckets_histogram_samples''"
| "type_String CustomBucketsFloatHistogramSamples = ''custom_buckets_float_histogram_samples''"
| "type_String HistogramSamplesV2 = ''histogram_samples_v2''"
| "type_String FloatHistogramSamplesV2 = ''float_histogram_samples_v2''"
| "type_String MmapMarkers = ''mmapmarkers''" | "type_String Metadata = ''metadata''" | "type_String Unknown = ''unknown''"

datatype MetricType = UnknownMT | Counter | Gauge | HistogramSample | GaugeHistogram | Summary | Info | Stateset

text \<open>The metric types of \<open>prometheus/common/model\<close>; \<open>MetricTypeOther\<close> stands for any other string.\<close>

datatype model_MetricType =
    MetricTypeCounter | MetricTypeGauge | MetricTypeHistogram | MetricTypeGaugeHistogram | MetricTypeSummary
  | MetricTypeInfo | MetricTypeStateset | MetricTypeUnknown | MetricTypeOther string

fun metric_byte :: "MetricType \<Rightarrow> uint8" where
  "metric_byte UnknownMT = 0" | "metric_byte Counter = 1" | "metric_byte Gauge = 2" | "metric_byte HistogramSample = 3"
| "metric_byte GaugeHistogram = 4" | "metric_byte Summary = 5" | "metric_byte Info = 6" | "metric_byte Stateset = 7"

fun GetMetricType :: "model_MetricType \<Rightarrow> uint8" where
  "GetMetricType MetricTypeCounter = metric_byte Counter"
| "GetMetricType MetricTypeGauge = metric_byte Gauge"
| "GetMetricType MetricTypeHistogram = metric_byte HistogramSample"
| "GetMetricType MetricTypeGaugeHistogram = metric_byte GaugeHistogram"
| "GetMetricType MetricTypeSummary = metric_byte Summary"
| "GetMetricType MetricTypeInfo = metric_byte Info"
| "GetMetricType MetricTypeStateset = metric_byte Stateset"
| "GetMetricType _ = metric_byte UnknownMT"

definition ToMetricType :: "uint8 \<Rightarrow> model_MetricType" where
  "ToMetricType m =
     (if m = metric_byte Counter then MetricTypeCounter
      else if m = metric_byte Gauge then MetricTypeGauge
      else if m = metric_byte HistogramSample then MetricTypeHistogram
      else if m = metric_byte GaugeHistogram then MetricTypeGaugeHistogram
      else if m = metric_byte Summary then MetricTypeSummary
      else if m = metric_byte Info then MetricTypeInfo
      else if m = metric_byte Stateset then MetricTypeStateset
      else MetricTypeUnknown)"

record RefSeries =
  rs_Ref :: uint64
  rs_Labels :: Labels

record RefSample =
  s_Ref :: uint64
  s_ST :: int64
  s_T :: int64
  s_V :: float64

record RefMetadata =
  md_Ref :: uint64
  md_Type :: uint8
  md_Unit :: "byte list"
  md_Help :: "byte list"

record RefExemplar =
  ex_Ref :: uint64
  ex_T :: int64
  ex_V :: float64
  ex_Labels :: Labels

text \<open>\<open>RefHistogramSample\<close> and \<open>RefFloatHistogramSample\<close>, by the type of the buckets.\<close>

record 'c RefHist =
  h_Ref :: uint64
  h_ST :: int64
  h_T :: int64
  h_H :: "'c histogram"

type_synonym RefHistogramSample = "int_bucket RefHist"
type_synonym RefFloatHistogramSample = "float_bucket RefHist"

record RefMmapMarker =
  mm_Ref :: uint64
  mm_MmapRef :: uint64

record Stone =
  st_Ref :: uint64
  st_Intervals :: Intervals

datatype record_error =
    InvalidRecordType
  | DecodeError go_error
  | DecodeErrorAfter nat go_error
  | UnexpectedBytes nat
  | ReduceError nat go_error

section \<open>Decoder loops\<close>

text \<open>
  \<open>for len(dec.B) > 0 && dec.Err() == nil \<lbrace> body \<rbrace>\<close>. A round of a decoder takes at least one byte or
  sets the error, which is what the last test states; it holds for the bodies below
  (\<open>dec_while_unfold\<close>), so the loop ends.
\<close>

function dec_while :: "('s \<Rightarrow> (record_error + 's) dec) \<Rightarrow> 's \<Rightarrow> (record_error + 's) dec" where
  "dec_while body s d =
     (if db_B d \<noteq> [] \<and> db_E d = None
      then case body s d of
             None \<Rightarrow> None
           | Some (Inl err, d') \<Rightarrow> Some (Inl err, d')
           | Some (Inr s', d') \<Rightarrow> if dec_measure d' < dec_measure d then dec_while body s' d' else None
      else Some (Inr s, d))"
  by pat_completeness auto
termination
  by (relation "measure (\<lambda>(body, s, d). dec_measure d)") auto

declare dec_while.simps [simp del]

text \<open>\<open>for range n\<close> for a signed \<open>n\<close>, collecting a result per round.\<close>

fun repeatD :: "nat \<Rightarrow> 'a dec \<Rightarrow> 'a list dec" where
  "repeatD 0 m = returnD []"
| "repeatD (Suc n) m = bindD m (\<lambda>x. bindD (repeatD n m) (\<lambda>xs. returnD (x # xs)))"

definition rounds :: "int64 \<Rightarrow> nat" where
  "rounds n = (if 0 <s n then unat n else 0)"

definition dec_list :: "(byte list \<Rightarrow> uint64 \<times> int) \<Rightarrow> 'a dec \<Rightarrow> 'a list dec" where
  "dec_list vu m = bindD (Decbuf_Uvarint vu) (\<lambda>l. repeatD (rounds l) m)"

text \<open>The two checks after every decoder loop; \<open>wrap\<close> is how the decoder reports the buffer's error.\<close>

definition finish :: "(nat \<Rightarrow> go_error \<Rightarrow> record_error) \<Rightarrow> ((record_error + 'a list) \<times> Decbuf) option \<Rightarrow> (record_error + 'a list) option" where
  "finish wrap r =
     (case r of
        None \<Rightarrow> None
      | Some (Inl err, d) \<Rightarrow> Some (Inl err)
      | Some (Inr xs, d) \<Rightarrow>
          (case db_E d of
             Some e \<Rightarrow> Some (Inl (wrap (length xs) e))
           | None \<Rightarrow> if db_B d \<noteq> [] then Some (Inl (UnexpectedBytes (length (db_B d)))) else Some (Inr xs)))"

definition plain :: "nat \<Rightarrow> go_error \<Rightarrow> record_error" where
  "plain n e = DecodeError e"

section \<open>Decoder\<close>

definition Decoder_Type :: "byte list \<Rightarrow> Type" where
  "Decoder_Type rec =
     (case rec of
        [] \<Rightarrow> Unknown
      | t # _ \<Rightarrow>
          (case filter (\<lambda>ty. type_byte ty = t)
                  [Series, Samples, SamplesV2, TombstonesT, Exemplars, MmapMarkers, Metadata, HistogramSamples,
                   FloatHistogramSamples, CustomBucketsHistogramSamples, CustomBucketsFloatHistogramSamples,
                   HistogramSamplesV2, FloatHistogramSamplesV2] of
             ty # _ \<Rightarrow> ty
           | [] \<Rightarrow> Unknown))"

definition decode_label :: "(byte list \<Rightarrow> uint64 \<times> int) \<Rightarrow> Label dec" where
  "decode_label vu =
     bindD (Decbuf_UvarintBytes vu) (\<lambda>lName. bindD (Decbuf_UvarintBytes vu) (\<lambda>lValue.
       returnD \<lparr>Name = lName, Value = lValue\<rparr>))"

definition DecodeLabels :: "(byte list \<Rightarrow> uint64 \<times> int) \<Rightarrow> Labels dec" where
  "DecodeLabels vu = dec_list vu (decode_label vu)"

definition series_body :: "(byte list \<Rightarrow> uint64 \<times> int) \<Rightarrow> RefSeries list \<Rightarrow> (record_error + RefSeries list) dec" where
  "series_body vu series =
     bindD Decbuf_Be64 (\<lambda>ref. bindD (DecodeLabels vu) (\<lambda>lset.
       returnD (Inr (series @ [\<lparr>rs_Ref = ref, rs_Labels = lset\<rparr>]))))"

text \<open>The record type is checked on the first byte; on an empty record it reads as 0.\<close>

definition with_type :: "byte list \<Rightarrow> (byte \<Rightarrow> Decbuf \<Rightarrow> 'a option) \<Rightarrow> 'a option" where
  "with_type rec f = (case Decbuf_Byte \<lparr>db_B = rec, db_E = None\<rparr> of None \<Rightarrow> None | Some (t, dec) \<Rightarrow> f t dec)"

definition Decoder_Series ::
  "(byte list \<Rightarrow> uint64 \<times> int) \<Rightarrow> byte list \<Rightarrow> RefSeries list \<Rightarrow> (record_error + RefSeries list) option" where
  "Decoder_Series vu rec series = with_type rec (\<lambda>t dec.
     if t \<noteq> type_byte Series then Some (Inl InvalidRecordType)
     else finish plain (dec_while (series_body vu) series dec))"

definition unitMetaName :: "byte list" where "unitMetaName = [0x55, 0x4e, 0x49, 0x54]"
definition helpMetaName :: "byte list" where "helpMetaName = [0x48, 0x45, 0x4c, 0x50]"

definition metadata_field :: "(byte list \<Rightarrow> uint64 \<times> int) \<Rightarrow> (byte list \<times> byte list) dec" where
  "metadata_field vu =
     bindD (Decbuf_UvarintStr vu) (\<lambda>fieldName. bindD (Decbuf_UvarintStr vu) (\<lambda>fieldValue. returnD (fieldName, fieldValue)))"

definition set_field :: "byte list \<times> byte list \<Rightarrow> byte list \<times> byte list \<Rightarrow> byte list \<times> byte list" where
  "set_field acc f =
     (if fst f = unitMetaName then (snd f, snd acc)
      else if fst f = helpMetaName then (fst acc, snd f)
      else acc)"

definition metadata_body :: "(byte list \<Rightarrow> uint64 \<times> int) \<Rightarrow> RefMetadata list \<Rightarrow> (record_error + RefMetadata list) dec" where
  "metadata_body vu metadata =
     bindD (Decbuf_Uvarint64 vu) (\<lambda>ref. bindD Decbuf_Byte (\<lambda>typ.
       bindD (dec_list vu (metadata_field vu)) (\<lambda>fields.
         let (unit, help) = foldl set_field ([], []) fields in
         returnD (Inr (metadata @ [\<lparr>md_Ref = ref, md_Type = typ, md_Unit = unit, md_Help = help\<rparr>])))))"

definition Decoder_Metadata ::
  "(byte list \<Rightarrow> uint64 \<times> int) \<Rightarrow> byte list \<Rightarrow> RefMetadata list \<Rightarrow> (record_error + RefMetadata list) option" where
  "Decoder_Metadata vu rec metadata = with_type rec (\<lambda>t dec.
     if t \<noteq> type_byte Metadata then Some (Inl InvalidRecordType)
     else finish plain (dec_while (metadata_body vu) metadata dec))"

definition samplesV1_body ::
  "(byte list \<Rightarrow> uint64 \<times> int) \<Rightarrow> uint64 \<Rightarrow> int64 \<Rightarrow> RefSample list \<Rightarrow> (record_error + RefSample list) dec" where
  "samplesV1_body vu baseRef baseTime samples =
     bindD (Decbuf_Varint64 vu) (\<lambda>dref. bindD (Decbuf_Varint64 vu) (\<lambda>dtime. bindD Decbuf_Be64 (\<lambda>val.
       returnD (Inr (samples @ [\<lparr>s_Ref = baseRef + dref, s_ST = 0, s_T = baseTime + dtime, s_V = val\<rparr>])))))"

text \<open>The capacity of the given slice is an argument: a slice that is too small is replaced by a new, empty one.\<close>

definition with_capacity :: "nat \<Rightarrow> nat \<Rightarrow> 'a list \<Rightarrow> 'a list" where
  "with_capacity len cap samples = (if cap < len div (1 + 1 + 8) then [] else samples)"

definition Decoder_samplesV1 ::
  "(byte list \<Rightarrow> uint64 \<times> int) \<Rightarrow> Decbuf \<Rightarrow> nat \<Rightarrow> RefSample list \<Rightarrow> (record_error + RefSample list) option" where
  "Decoder_samplesV1 vu dec cap samples =
     (if Decbuf_Len dec = 0 then Some (Inr samples)
      else finish DecodeErrorAfter
        (bindD Decbuf_Be64 (\<lambda>baseRef. bindD Decbuf_Be64int64 (\<lambda>baseTime d.
          dec_while (samplesV1_body vu baseRef baseTime) (with_capacity (Decbuf_Len d) cap samples) d)) dec))"

definition noST :: byte where "noST = 0"
definition sameST :: byte where "sameST = 1"
definition explicitST :: byte where "explicitST = 2"

definition readSTMarker :: "(byte list \<Rightarrow> uint64 \<times> int) \<Rightarrow> int64 \<Rightarrow> int64 \<Rightarrow> int64 dec" where
  "readSTMarker vu prevST firstST =
     bindD Decbuf_Byte (\<lambda>stMarker.
       if stMarker = noST then returnD 0
       else if stMarker = sameST then returnD prevST
       else bindD (Decbuf_Varint64 vu) (\<lambda>x. returnD (firstST + x)))"

text \<open>The loop keeps \<open>firstT\<close> and \<open>firstST\<close> beside the samples.\<close>

definition samplesV2_body ::
  "(byte list \<Rightarrow> uint64 \<times> int) \<Rightarrow> RefSample list \<times> int64 \<times> int64 \<Rightarrow> (record_error + RefSample list \<times> int64 \<times> int64) dec" where
  "samplesV2_body vu s =
     (let (samples, firstT, firstST) = s;
          head = (if samples = []
            then bindD (Decbuf_Varint64 vu) (\<lambda>ref. bindD (Decbuf_Varint64 vu) (\<lambda>t. bindD (Decbuf_Varint64 vu) (\<lambda>st.
                   returnD (ref, t, st, t, st))))
            else let prev = last samples in
                 bindD (Decbuf_Varint64 vu) (\<lambda>dref. bindD (Decbuf_Varint64 vu) (\<lambda>dt.
                 bindD (readSTMarker vu (s_ST prev) firstST) (\<lambda>st.
                   returnD (s_Ref prev + dref, firstT + dt, st, firstT, firstST)))))
      in bindD head (\<lambda>(ref, t, st, firstT', firstST'). bindD Decbuf_Be64 (\<lambda>val.
           returnD (Inr (samples @ [\<lparr>s_Ref = ref, s_ST = st, s_T = t, s_V = val\<rparr>], firstT', firstST')))))"

definition Decoder_samplesV2 ::
  "(byte list \<Rightarrow> uint64 \<times> int) \<Rightarrow> Decbuf \<Rightarrow> nat \<Rightarrow> RefSample list \<Rightarrow> (record_error + RefSample list) option" where
  "Decoder_samplesV2 vu dec cap samples =
     (if Decbuf_Len dec = 0 then Some (Inr samples)
      else finish DecodeErrorAfter
        (map_option (map_prod (map_sum id fst) id)
          (dec_while (samplesV2_body vu) (with_capacity (Decbuf_Len dec) cap samples, 0, 0) dec)))"

definition Decoder_Samples ::
  "(byte list \<Rightarrow> uint64 \<times> int) \<Rightarrow> byte list \<Rightarrow> nat \<Rightarrow> RefSample list \<Rightarrow> (record_error + RefSample list) option" where
  "Decoder_Samples vu rec cap samples = with_type rec (\<lambda>t dec.
     if t = type_byte Samples then Decoder_samplesV1 vu dec cap samples
     else if t = type_byte SamplesV2 then Decoder_samplesV2 vu dec cap samples
     else Some (Inl InvalidRecordType))"

definition tombstones_body :: "(byte list \<Rightarrow> uint64 \<times> int) \<Rightarrow> Stone list \<Rightarrow> (record_error + Stone list) dec" where
  "tombstones_body vu tstones =
     bindD Decbuf_Be64 (\<lambda>ref. bindD (Decbuf_Varint64 vu) (\<lambda>mint. bindD (Decbuf_Varint64 vu) (\<lambda>maxt.
       returnD (Inr (tstones @ [\<lparr>st_Ref = ref, st_Intervals = [\<lparr>Mint = mint, Maxt = maxt\<rparr>]\<rparr>])))))"

definition Decoder_Tombstones ::
  "(byte list \<Rightarrow> uint64 \<times> int) \<Rightarrow> byte list \<Rightarrow> Stone list \<Rightarrow> (record_error + Stone list) option" where
  "Decoder_Tombstones vu rec tstones = with_type rec (\<lambda>t dec.
     if t \<noteq> type_byte TombstonesT then Some (Inl InvalidRecordType)
     else finish plain (dec_while (tombstones_body vu) tstones dec))"

definition exemplars_body ::
  "(byte list \<Rightarrow> uint64 \<times> int) \<Rightarrow> uint64 \<Rightarrow> int64 \<Rightarrow> RefExemplar list \<Rightarrow> (record_error + RefExemplar list) dec" where
  "exemplars_body vu baseRef baseTime exemplars =
     bindD (Decbuf_Varint64 vu) (\<lambda>dref. bindD (Decbuf_Varint64 vu) (\<lambda>dtime. bindD Decbuf_Be64 (\<lambda>val.
     bindD (DecodeLabels vu) (\<lambda>lset.
       returnD (Inr (exemplars @ [\<lparr>ex_Ref = baseRef + dref, ex_T = baseTime + dtime, ex_V = val, ex_Labels = lset\<rparr>]))))))"

definition ExemplarsFromBuffer ::
  "(byte list \<Rightarrow> uint64 \<times> int) \<Rightarrow> Decbuf \<Rightarrow> RefExemplar list \<Rightarrow> (record_error + RefExemplar list) option" where
  "ExemplarsFromBuffer vu dec exemplars =
     (if Decbuf_Len dec = 0 then Some (Inr exemplars)
      else finish DecodeErrorAfter
        (bindD Decbuf_Be64 (\<lambda>baseRef. bindD Decbuf_Be64int64 (\<lambda>baseTime.
          dec_while (exemplars_body vu baseRef baseTime) exemplars)) dec))"

definition Decoder_Exemplars ::
  "(byte list \<Rightarrow> uint64 \<times> int) \<Rightarrow> byte list \<Rightarrow> RefExemplar list \<Rightarrow> (record_error + RefExemplar list) option" where
  "Decoder_Exemplars vu rec exemplars = with_type rec (\<lambda>t dec.
     if t \<noteq> type_byte Exemplars then Some (Inl InvalidRecordType) else ExemplarsFromBuffer vu dec exemplars)"

definition markers_body :: "RefMmapMarker list \<Rightarrow> (record_error + RefMmapMarker list) dec" where
  "markers_body markers =
     bindD Decbuf_Be64 (\<lambda>ref. bindD Decbuf_Be64 (\<lambda>mmapRef.
       returnD (Inr (markers @ [\<lparr>mm_Ref = ref, mm_MmapRef = mmapRef\<rparr>]))))"

definition Decoder_MmapMarkers :: "byte list \<Rightarrow> RefMmapMarker list \<Rightarrow> (record_error + RefMmapMarker list) option" where
  "Decoder_MmapMarkers rec markers = with_type rec (\<lambda>t dec.
     if t \<noteq> type_byte MmapMarkers then Some (Inl InvalidRecordType)
     else if Decbuf_Len dec = 0 then Some (Inr markers)
     else finish DecodeErrorAfter (dec_while markers_body markers dec))"

section \<open>Decoding histograms\<close>

definition decode_span :: "(byte list \<Rightarrow> uint64 \<times> int) \<Rightarrow> Span dec" where
  "decode_span vu =
     bindD (Decbuf_Varint64 vu) (\<lambda>off. bindD (Decbuf_Uvarint32 vu) (\<lambda>len. returnD \<lparr>Offset = ucast off, Length = len\<rparr>))"

text \<open>
  The common shape of \<open>DecodeHistogram\<close> and \<open>DecodeFloatHistogram\<close>; \<open>count\<close> reads the zero count and
  the count, \<open>bucket\<close> a bucket.
\<close>

definition decode_hist :: "(byte list \<Rightarrow> uint64 \<times> int) \<Rightarrow> uint64 dec \<Rightarrow> 'c dec \<Rightarrow> 'c histogram dec" where
  "decode_hist vu count bucket =
     bindD Decbuf_Byte (\<lambda>hint. bindD (Decbuf_Varint64 vu) (\<lambda>schema. bindD Decbuf_Be64 (\<lambda>zeroThreshold.
     bindD count (\<lambda>zeroCount. bindD count (\<lambda>cnt. bindD Decbuf_Be64 (\<lambda>sm.
     bindD (dec_list vu (decode_span vu)) (\<lambda>ps. bindD (dec_list vu (decode_span vu)) (\<lambda>ns.
     bindD (dec_list vu bucket) (\<lambda>pb. bindD (dec_list vu bucket) (\<lambda>nb.
     bindD (if IsCustomBucketsSchema (ucast schema) then dec_list vu Decbuf_Be64Float64 else returnD []) (\<lambda>cv.
       returnD \<lparr>CounterResetHint = hint, Schema = ucast schema, ZeroThreshold = zeroThreshold, ZeroCount = zeroCount,
         Count = cnt, Sum = sm, PositiveSpans = ps, NegativeSpans = ns, PositiveBuckets = pb, NegativeBuckets = nb,
         CustomValues = cv\<rparr>)))))))))))"

definition DecodeHistogram :: "(byte list \<Rightarrow> uint64 \<times> int) \<Rightarrow> Histogram dec" where
  "DecodeHistogram vu = decode_hist vu (Decbuf_Uvarint64 vu) (mapD IntBucket (Decbuf_Varint64 vu))"

definition DecodeFloatHistogram :: "(byte list \<Rightarrow> uint64 \<times> int) \<Rightarrow> FloatHistogram dec" where
  "DecodeFloatHistogram vu = decode_hist vu Decbuf_Be64Float64 (mapD FloatBucket Decbuf_Be64Float64)"

text \<open>
  What both versions do with a decoded histogram: skip an unknown schema, reduce the resolution of
  a reserved one, and append. \<open>red\<close> is the histogram type's \<open>ReduceResolution\<close>.
\<close>

definition admit_hist ::
  "('c histogram \<Rightarrow> int32 \<Rightarrow> go_error + 'c histogram) \<Rightarrow> 'c RefHist list \<Rightarrow> 'c RefHist \<Rightarrow> record_error + 'c RefHist list" where
  "admit_hist red histograms rh =
     (if \<not> IsKnownSchema (Schema (h_H rh)) then Inr histograms
      else if ExponentialSchemaMax <s Schema (h_H rh) \<and> Schema (h_H rh) \<le>s ExponentialSchemaMaxReserved
      then (case red (h_H rh) ExponentialSchemaMax of
              Inl err \<Rightarrow> Inl (ReduceError (length histograms + 1) err)
            | Inr h \<Rightarrow> Inr (histograms @ [rh\<lparr>h_H := h\<rparr>]))
      else Inr (histograms @ [rh]))"

definition histV1_body ::
  "(byte list \<Rightarrow> uint64 \<times> int) \<Rightarrow> 'c histogram dec \<Rightarrow> ('c histogram \<Rightarrow> int32 \<Rightarrow> go_error + 'c histogram) \<Rightarrow>
    uint64 \<Rightarrow> int64 \<Rightarrow> 'c RefHist list \<Rightarrow> (record_error + 'c RefHist list) dec" where
  "histV1_body vu decode red baseRef baseTime histograms =
     bindD (Decbuf_Varint64 vu) (\<lambda>dref. bindD (Decbuf_Varint64 vu) (\<lambda>dtime. bindD decode (\<lambda>h.
       returnD (admit_hist red histograms \<lparr>h_Ref = baseRef + dref, h_ST = 0, h_T = baseTime + dtime, h_H = h\<rparr>))))"

definition histV1 ::
  "(byte list \<Rightarrow> uint64 \<times> int) \<Rightarrow> 'c histogram dec \<Rightarrow> ('c histogram \<Rightarrow> int32 \<Rightarrow> go_error + 'c histogram) \<Rightarrow>
    Decbuf \<Rightarrow> 'c RefHist list \<Rightarrow> (record_error + 'c RefHist list) option" where
  "histV1 vu decode red dec histograms =
     (if Decbuf_Len dec = 0 then Some (Inr histograms)
      else finish DecodeErrorAfter
        (bindD Decbuf_Be64 (\<lambda>baseRef. bindD Decbuf_Be64int64 (\<lambda>baseTime.
          dec_while (histV1_body vu decode red baseRef baseTime) histograms)) dec))"

text \<open>The V2 loop keeps the previous reference and start time; \<open>None\<close> before the first entry (\<open>hasPrev\<close> false).\<close>

definition histV2_body ::
  "(byte list \<Rightarrow> uint64 \<times> int) \<Rightarrow> 'c histogram dec \<Rightarrow> ('c histogram \<Rightarrow> int32 \<Rightarrow> go_error + 'c histogram) \<Rightarrow>
    uint64 \<Rightarrow> int64 \<Rightarrow> int64 \<Rightarrow> 'c RefHist list \<times> (uint64 \<times> int64) option \<Rightarrow>
    (record_error + 'c RefHist list \<times> (uint64 \<times> int64) option) dec" where
  "histV2_body vu decode red firstRef firstT firstST s =
     (let (histograms, prev) = s;
          head = (case prev of
            None \<Rightarrow> returnD (firstRef, firstT, firstST)
          | Some (prevRef, prevST) \<Rightarrow>
              bindD (Decbuf_Varint64 vu) (\<lambda>dref. bindD (Decbuf_Varint64 vu) (\<lambda>dt. bindD (readSTMarker vu prevST firstST) (\<lambda>st.
                returnD (prevRef + dref, firstT + dt, st)))))
      in bindD head (\<lambda>(ref, t, st). bindD decode (\<lambda>h.
           returnD (map_sum id (\<lambda>hs. (hs, Some (ref, st)))
             (admit_hist red histograms \<lparr>h_Ref = ref, h_ST = st, h_T = t, h_H = h\<rparr>)))))"

definition histV2 ::
  "(byte list \<Rightarrow> uint64 \<times> int) \<Rightarrow> 'c histogram dec \<Rightarrow> ('c histogram \<Rightarrow> int32 \<Rightarrow> go_error + 'c histogram) \<Rightarrow>
    Decbuf \<Rightarrow> 'c RefHist list \<Rightarrow> (record_error + 'c RefHist list) option" where
  "histV2 vu decode red dec histograms =
     (if Decbuf_Len dec = 0 then Some (Inr histograms)
      else finish DecodeErrorAfter
        (map_option (map_prod (map_sum id fst) id)
          (bindD (Decbuf_Varint64 vu) (\<lambda>firstRef. bindD (Decbuf_Varint64 vu) (\<lambda>firstT. bindD (Decbuf_Varint64 vu) (\<lambda>firstST.
            dec_while (histV2_body vu decode red firstRef firstT firstST) (histograms, None)))) dec)))"

definition histogramSamplesV1_dec ::
  "(byte list \<Rightarrow> uint64 \<times> int) \<Rightarrow> Decbuf \<Rightarrow> RefHistogramSample list \<Rightarrow> (record_error + RefHistogramSample list) option" where
  "histogramSamplesV1_dec vu = histV1 vu (DecodeHistogram vu) Histogram_ReduceResolution"

definition histogramSamplesV2_dec ::
  "(byte list \<Rightarrow> uint64 \<times> int) \<Rightarrow> Decbuf \<Rightarrow> RefHistogramSample list \<Rightarrow> (record_error + RefHistogramSample list) option" where
  "histogramSamplesV2_dec vu = histV2 vu (DecodeHistogram vu) Histogram_ReduceResolution"

definition Decoder_HistogramSamples ::
  "(byte list \<Rightarrow> uint64 \<times> int) \<Rightarrow> byte list \<Rightarrow> RefHistogramSample list \<Rightarrow> (record_error + RefHistogramSample list) option" where
  "Decoder_HistogramSamples vu rec histograms = with_type rec (\<lambda>t dec.
     if t = type_byte HistogramSamples \<or> t = type_byte CustomBucketsHistogramSamples
     then histogramSamplesV1_dec vu dec histograms
     else if t = type_byte HistogramSamplesV2 then histogramSamplesV2_dec vu dec histograms
     else Some (Inl InvalidRecordType))"

definition floatHistogramSamplesV1_dec ::
  "(float64 \<Rightarrow> float64 \<Rightarrow> float64) \<Rightarrow> (byte list \<Rightarrow> uint64 \<times> int) \<Rightarrow> Decbuf \<Rightarrow> RefFloatHistogramSample list \<Rightarrow>
    (record_error + RefFloatHistogramSample list) option" where
  "floatHistogramSamplesV1_dec fadd vu = histV1 vu (DecodeFloatHistogram vu) (FloatHistogram_ReduceResolution fadd)"

definition floatHistogramSamplesV2_dec ::
  "(float64 \<Rightarrow> float64 \<Rightarrow> float64) \<Rightarrow> (byte list \<Rightarrow> uint64 \<times> int) \<Rightarrow> Decbuf \<Rightarrow> RefFloatHistogramSample list \<Rightarrow>
    (record_error + RefFloatHistogramSample list) option" where
  "floatHistogramSamplesV2_dec fadd vu = histV2 vu (DecodeFloatHistogram vu) (FloatHistogram_ReduceResolution fadd)"

definition Decoder_FloatHistogramSamples ::
  "(float64 \<Rightarrow> float64 \<Rightarrow> float64) \<Rightarrow> (byte list \<Rightarrow> uint64 \<times> int) \<Rightarrow> byte list \<Rightarrow> RefFloatHistogramSample list \<Rightarrow>
    (record_error + RefFloatHistogramSample list) option" where
  "Decoder_FloatHistogramSamples fadd vu rec histograms = with_type rec (\<lambda>t dec.
     if t = type_byte FloatHistogramSamples \<or> t = type_byte CustomBucketsFloatHistogramSamples
     then floatHistogramSamplesV1_dec fadd vu dec histograms
     else if t = type_byte FloatHistogramSamplesV2 then floatHistogramSamplesV2_dec fadd vu dec histograms
     else Some (Inl InvalidRecordType))"

section \<open>Encoder\<close>

definition put_label :: "Label \<Rightarrow> Encbuf \<Rightarrow> Encbuf" where
  "put_label l buf = PutUvarintStr (Value l) (PutUvarintStr (Name l) buf)"

definition EncodeLabels :: "Labels \<Rightarrow> Encbuf \<Rightarrow> Encbuf" where
  "EncodeLabels lbls buf = fold put_label lbls (PutUvarintInt (of_nat (length lbls)) buf)"

definition put_series :: "RefSeries \<Rightarrow> Encbuf \<Rightarrow> Encbuf" where
  "put_series s buf = EncodeLabels (rs_Labels s) (PutBE64 (rs_Ref s) buf)"

definition Encoder_Series :: "RefSeries list \<Rightarrow> byte list \<Rightarrow> byte list" where
  "Encoder_Series series b = Encbuf_Get (fold put_series series (PutByte (type_byte Series) \<lparr>eb_B = b\<rparr>))"

definition put_metadata :: "RefMetadata \<Rightarrow> Encbuf \<Rightarrow> Encbuf" where
  "put_metadata m buf =
     PutUvarintStr (md_Help m) (PutUvarintStr helpMetaName (PutUvarintStr (md_Unit m) (PutUvarintStr unitMetaName
       (PutUvarintInt 2 (PutByte (md_Type m) (PutUvarint64 (md_Ref m) buf))))))"

definition Encoder_Metadata :: "RefMetadata list \<Rightarrow> byte list \<Rightarrow> byte list" where
  "Encoder_Metadata metadata b = Encbuf_Get (fold put_metadata metadata (PutByte (type_byte Metadata) \<lparr>eb_B = b\<rparr>))"

definition put_sampleV1 :: "RefSample \<Rightarrow> RefSample \<Rightarrow> Encbuf \<Rightarrow> Encbuf" where
  "put_sampleV1 first s buf =
     PutBE64 (s_V s) (PutVarint64 (s_T s - s_T first) (PutVarint64 (s_Ref s - s_Ref first) buf))"

definition Encoder_samplesV1 :: "RefSample list \<Rightarrow> byte list \<Rightarrow> byte list" where
  "Encoder_samplesV1 samples b =
     (let buf = PutByte (type_byte Samples) \<lparr>eb_B = b\<rparr> in
      case samples of
        [] \<Rightarrow> Encbuf_Get buf
      | first # _ \<Rightarrow>
          Encbuf_Get (fold (put_sampleV1 first) samples (PutBE64int64 (s_T first) (PutBE64 (s_Ref first) buf))))"

definition writeSTMarker :: "int64 \<Rightarrow> int64 \<Rightarrow> int64 \<Rightarrow> Encbuf \<Rightarrow> Encbuf" where
  "writeSTMarker st firstST prevST buf =
     (if st = 0 then PutByte noST buf
      else if st = prevST then PutByte sameST buf
      else PutVarint64 (st - firstST) (PutByte explicitST buf))"

text \<open>The loop over the samples from the second on, with the previous sample.\<close>

fun put_samplesV2 :: "RefSample \<Rightarrow> RefSample \<Rightarrow> RefSample list \<Rightarrow> Encbuf \<Rightarrow> Encbuf" where
  "put_samplesV2 first prev [] buf = buf"
| "put_samplesV2 first prev (s # samples) buf =
     put_samplesV2 first s samples
       (PutBE64 (s_V s) (writeSTMarker (s_ST s) (s_ST first) (s_ST prev)
         (PutVarint64 (s_T s - s_T first) (PutVarint64 (s_Ref s - s_Ref prev) buf))))"

definition Encoder_samplesV2 :: "RefSample list \<Rightarrow> byte list \<Rightarrow> byte list" where
  "Encoder_samplesV2 samples b =
     (let buf = PutByte (type_byte SamplesV2) \<lparr>eb_B = b\<rparr> in
      case samples of
        [] \<Rightarrow> Encbuf_Get buf
      | first # rest \<Rightarrow>
          Encbuf_Get (put_samplesV2 first first rest
            (PutBE64 (s_V first) (PutVarint64 (s_ST first) (PutVarint64 (s_T first) (PutVarint64 (s_Ref first) buf))))))"

record Encoder =
  EnableSTStorage :: bool

definition Encoder_Samples :: "Encoder \<Rightarrow> RefSample list \<Rightarrow> byte list \<Rightarrow> byte list" where
  "Encoder_Samples e samples b = (if EnableSTStorage e then Encoder_samplesV2 samples b else Encoder_samplesV1 samples b)"

definition put_stone_interval :: "uint64 \<Rightarrow> Interval \<Rightarrow> Encbuf \<Rightarrow> Encbuf" where
  "put_stone_interval ref iv buf = PutVarint64 (Maxt iv) (PutVarint64 (Mint iv) (PutBE64 ref buf))"

definition put_stone :: "Stone \<Rightarrow> Encbuf \<Rightarrow> Encbuf" where
  "put_stone s = fold (put_stone_interval (st_Ref s)) (st_Intervals s)"

definition Encoder_Tombstones :: "Stone list \<Rightarrow> byte list \<Rightarrow> byte list" where
  "Encoder_Tombstones tstones b = Encbuf_Get (fold put_stone tstones (PutByte (type_byte TombstonesT) \<lparr>eb_B = b\<rparr>))"

definition put_exemplar :: "RefExemplar \<Rightarrow> RefExemplar \<Rightarrow> Encbuf \<Rightarrow> Encbuf" where
  "put_exemplar first ex buf =
     EncodeLabels (ex_Labels ex) (PutBE64 (ex_V ex) (PutVarint64 (ex_T ex - ex_T first) (PutVarint64 (ex_Ref ex - ex_Ref first) buf)))"

text \<open>\<open>None\<close> is the panic of \<open>exemplars[0]\<close> on an empty slice.\<close>

definition EncodeExemplarsIntoBuffer :: "RefExemplar list \<Rightarrow> Encbuf \<Rightarrow> Encbuf option" where
  "EncodeExemplarsIntoBuffer exemplars buf =
     (case exemplars of
        [] \<Rightarrow> None
      | first # _ \<Rightarrow> Some (fold (put_exemplar first) exemplars (PutBE64int64 (ex_T first) (PutBE64 (ex_Ref first) buf))))"

definition Encoder_Exemplars :: "RefExemplar list \<Rightarrow> byte list \<Rightarrow> byte list option" where
  "Encoder_Exemplars exemplars b =
     (let buf = PutByte (type_byte Exemplars) \<lparr>eb_B = b\<rparr> in
      if exemplars = [] then Some (Encbuf_Get buf)
      else map_option Encbuf_Get (EncodeExemplarsIntoBuffer exemplars buf))"

definition put_marker :: "RefMmapMarker \<Rightarrow> Encbuf \<Rightarrow> Encbuf" where
  "put_marker m buf = PutBE64 (mm_MmapRef m) (PutBE64 (mm_Ref m) buf)"

definition Encoder_MmapMarkers :: "RefMmapMarker list \<Rightarrow> byte list \<Rightarrow> byte list" where
  "Encoder_MmapMarkers markers b = Encbuf_Get (fold put_marker markers (PutByte (type_byte MmapMarkers) \<lparr>eb_B = b\<rparr>))"

section \<open>Encoding histograms\<close>

definition put_span :: "Span \<Rightarrow> Encbuf \<Rightarrow> Encbuf" where
  "put_span sp buf = PutUvarint32 (Length sp) (PutVarint64 (scast (Offset sp)) buf)"

definition put_list :: "('a \<Rightarrow> Encbuf \<Rightarrow> Encbuf) \<Rightarrow> 'a list \<Rightarrow> Encbuf \<Rightarrow> Encbuf" where
  "put_list put xs buf = fold put xs (PutUvarintInt (of_nat (length xs)) buf)"

text \<open>The common shape of \<open>EncodeHistogram\<close> and \<open>EncodeFloatHistogram\<close>, as for the decoders.\<close>

definition encode_hist ::
  "(uint64 \<Rightarrow> Encbuf \<Rightarrow> Encbuf) \<Rightarrow> ('c \<Rightarrow> Encbuf \<Rightarrow> Encbuf) \<Rightarrow> 'c histogram \<Rightarrow> Encbuf \<Rightarrow> Encbuf" where
  "encode_hist count bucket h buf =
     (let b1 = PutBE64 (ZeroThreshold h) (PutVarint64 (scast (Schema h)) (PutByte (CounterResetHint h) buf));
          b2 = PutBE64 (Sum h) (count (Count h) (count (ZeroCount h) b1));
          b3 = put_list put_span (NegativeSpans h) (put_list put_span (PositiveSpans h) b2);
          b4 = put_list bucket (NegativeBuckets h) (put_list bucket (PositiveBuckets h) b3)
      in if IsCustomBucketsSchema (Schema h) then put_list PutBEFloat64 (CustomValues h) b4 else b4)"

definition EncodeHistogram :: "Histogram \<Rightarrow> Encbuf \<Rightarrow> Encbuf" where
  "EncodeHistogram = encode_hist PutUvarint64 (\<lambda>c. PutVarint64 (int_count c))"

definition EncodeFloatHistogram :: "FloatHistogram \<Rightarrow> Encbuf \<Rightarrow> Encbuf" where
  "EncodeFloatHistogram = encode_hist PutBEFloat64 (\<lambda>c. PutBEFloat64 (float_count c))"

definition put_histV1 :: "('c histogram \<Rightarrow> Encbuf \<Rightarrow> Encbuf) \<Rightarrow> 'c RefHist \<Rightarrow> 'c RefHist \<Rightarrow> Encbuf \<Rightarrow> Encbuf" where
  "put_histV1 encode first h buf =
     encode (h_H h) (PutVarint64 (h_T h - h_T first) (PutVarint64 (h_Ref h - h_Ref first) buf))"

text \<open>The loop of the V1 encoders, which splits off the histograms with custom buckets.\<close>

fun put_histsV1 ::
  "('c histogram \<Rightarrow> Encbuf \<Rightarrow> Encbuf) \<Rightarrow> 'c RefHist \<Rightarrow> 'c RefHist list \<Rightarrow> Encbuf \<times> 'c RefHist list \<Rightarrow> Encbuf \<times> 'c RefHist list" where
  "put_histsV1 encode first [] s = s"
| "put_histsV1 encode first (h # hs) (buf, custom) =
     (if UsesCustomBuckets (h_H h) then put_histsV1 encode first hs (buf, custom @ [h])
      else put_histsV1 encode first hs (put_histV1 encode first h buf, custom))"

definition enc_histV1 ::
  "('c histogram \<Rightarrow> Encbuf \<Rightarrow> Encbuf) \<Rightarrow> Type \<Rightarrow> 'c RefHist list \<Rightarrow> byte list \<Rightarrow> byte list \<times> 'c RefHist list" where
  "enc_histV1 encode typ histograms b =
     (let buf = PutByte (type_byte typ) \<lparr>eb_B = b\<rparr> in
      case histograms of
        [] \<Rightarrow> (Encbuf_Get buf, [])
      | first # _ \<Rightarrow>
          (case put_histsV1 encode first histograms (PutBE64int64 (h_T first) (PutBE64 (h_Ref first) buf), []) of
             (buf', custom) \<Rightarrow>
               (Encbuf_Get (if length histograms = length custom then Encbuf_Reset buf' else buf'), custom)))"

definition enc_customV1 :: "('c histogram \<Rightarrow> Encbuf \<Rightarrow> Encbuf) \<Rightarrow> Type \<Rightarrow> 'c RefHist list \<Rightarrow> byte list \<Rightarrow> byte list" where
  "enc_customV1 encode typ histograms b =
     (let buf = PutByte (type_byte typ) \<lparr>eb_B = b\<rparr> in
      case histograms of
        [] \<Rightarrow> Encbuf_Get buf
      | first # _ \<Rightarrow>
          Encbuf_Get (fold (put_histV1 encode first) histograms (PutBE64int64 (h_T first) (PutBE64 (h_Ref first) buf))))"

fun put_histsV2 :: "('c histogram \<Rightarrow> Encbuf \<Rightarrow> Encbuf) \<Rightarrow> 'c RefHist \<Rightarrow> 'c RefHist \<Rightarrow> 'c RefHist list \<Rightarrow> Encbuf \<Rightarrow> Encbuf" where
  "put_histsV2 encode first prev [] buf = buf"
| "put_histsV2 encode first prev (h # hs) buf =
     put_histsV2 encode first h hs
       (encode (h_H h) (writeSTMarker (h_ST h) (h_ST first) (h_ST prev)
         (PutVarint64 (h_T h - h_T first) (PutVarint64 (h_Ref h - h_Ref prev) buf))))"

definition enc_histV2 :: "('c histogram \<Rightarrow> Encbuf \<Rightarrow> Encbuf) \<Rightarrow> Type \<Rightarrow> 'c RefHist list \<Rightarrow> byte list \<Rightarrow> byte list" where
  "enc_histV2 encode typ histograms b =
     (let buf = PutByte (type_byte typ) \<lparr>eb_B = b\<rparr> in
      case histograms of
        [] \<Rightarrow> Encbuf_Get buf
      | first # rest \<Rightarrow>
          Encbuf_Get (put_histsV2 encode first first rest
            (encode (h_H first) (PutVarint64 (h_ST first) (PutVarint64 (h_T first) (PutVarint64 (h_Ref first) buf))))))"

definition histogramSamplesV1_enc :: "RefHistogramSample list \<Rightarrow> byte list \<Rightarrow> byte list \<times> RefHistogramSample list" where
  "histogramSamplesV1_enc = enc_histV1 EncodeHistogram HistogramSamples"

definition histogramSamplesV2_enc :: "RefHistogramSample list \<Rightarrow> byte list \<Rightarrow> byte list" where
  "histogramSamplesV2_enc = enc_histV2 EncodeHistogram HistogramSamplesV2"

definition Encoder_HistogramSamples :: "Encoder \<Rightarrow> RefHistogramSample list \<Rightarrow> byte list \<Rightarrow> byte list \<times> RefHistogramSample list" where
  "Encoder_HistogramSamples e histograms b =
     (if EnableSTStorage e then (histogramSamplesV2_enc histograms b, []) else histogramSamplesV1_enc histograms b)"

definition customBucketsHistogramSamplesV1 :: "RefHistogramSample list \<Rightarrow> byte list \<Rightarrow> byte list" where
  "customBucketsHistogramSamplesV1 = enc_customV1 EncodeHistogram CustomBucketsHistogramSamples"

definition Encoder_CustomBucketsHistogramSamples :: "Encoder \<Rightarrow> RefHistogramSample list \<Rightarrow> byte list \<Rightarrow> byte list" where
  "Encoder_CustomBucketsHistogramSamples e histograms b =
     (if EnableSTStorage e then histogramSamplesV2_enc histograms b else customBucketsHistogramSamplesV1 histograms b)"

definition floatHistogramSamplesV1_enc :: "RefFloatHistogramSample list \<Rightarrow> byte list \<Rightarrow> byte list \<times> RefFloatHistogramSample list" where
  "floatHistogramSamplesV1_enc = enc_histV1 EncodeFloatHistogram FloatHistogramSamples"

definition floatHistogramSamplesV2_enc :: "RefFloatHistogramSample list \<Rightarrow> byte list \<Rightarrow> byte list" where
  "floatHistogramSamplesV2_enc = enc_histV2 EncodeFloatHistogram FloatHistogramSamplesV2"

definition Encoder_FloatHistogramSamples ::
  "Encoder \<Rightarrow> RefFloatHistogramSample list \<Rightarrow> byte list \<Rightarrow> byte list \<times> RefFloatHistogramSample list" where
  "Encoder_FloatHistogramSamples e histograms b =
     (if EnableSTStorage e then (floatHistogramSamplesV2_enc histograms b, []) else floatHistogramSamplesV1_enc histograms b)"

definition customBucketsFloatHistogramSamplesV1 :: "RefFloatHistogramSample list \<Rightarrow> byte list \<Rightarrow> byte list" where
  "customBucketsFloatHistogramSamplesV1 = enc_customV1 EncodeFloatHistogram CustomBucketsFloatHistogramSamples"

definition Encoder_CustomBucketsFloatHistogramSamples :: "Encoder \<Rightarrow> RefFloatHistogramSample list \<Rightarrow> byte list \<Rightarrow> byte list" where
  "Encoder_CustomBucketsFloatHistogramSamples e histograms b =
     (if EnableSTStorage e then floatHistogramSamplesV2_enc histograms b else customBucketsFloatHistogramSamplesV1 histograms b)"

end
