(* ===== verification/WalRecordCorrect.thy ===== *)
theory WalRecordCorrect
  imports WalRecord
begin

text \<open>
  Correctness of the record encoders and decoders. Every decoder ends on every input (its loop
  makes progress), the decoders without length-prefixed strings never panic, and decoding what an
  encoder wrote returns the encoded values. The lists inside a record (labels, metadata fields,
  spans, buckets) share the contract \<open>list_codec\<close>.
\<close>

section \<open>Loops\<close>

lemma dec_while_unfold:
  assumes "\<And>s. dec_strict (body s)"
  shows "dec_while body s d =
    (if db_B d \<noteq> [] \<and> db_E d = None
     then case body s d of
            None \<Rightarrow> None
          | Some (Inl err, d') \<Rightarrow> Some (Inl err, d')
          | Some (Inr s', d') \<Rightarrow> dec_while body s' d'
     else Some (Inr s, d))"
proof -
  have "dec_measure d' < dec_measure d" if "db_E d = None" "body s d = Some (x, d')" for x d'
    using that assms by (auto simp: dec_strict_def)
  then show ?thesis by (subst dec_while.simps) (auto split: option.splits sum.splits)
qed

lemma dec_while_total:
  assumes "\<And>s. dec_strict (body s)" "\<And>s. dec_total (body s)"
  shows "dec_while body s d \<noteq> None"
proof (induction "dec_measure d" arbitrary: s d rule: less_induct)
  case less
  obtain x d' where b: "body s d = Some (x, d')" using assms(2) [of s] by (metis dec_total_def not_None_eq surj_pair)
  show ?case
  proof (cases x)
    case (Inl err)
    then show ?thesis using b by (subst dec_while_unfold [OF assms(1)]) simp
  next
    case (Inr s')
    have "dec_while body s' d' \<noteq> None" if "db_E d = None"
      using that b assms(1) by (intro less) (auto simp: dec_strict_def)
    then show ?thesis using b Inr by (subst dec_while_unfold [OF assms(1)]) auto
  qed
qed

text \<open>The bytes of entries whose encoding depends on the state of the loop.\<close>

fun enc_all :: "('s \<Rightarrow> 'a \<Rightarrow> byte list) \<Rightarrow> ('s \<Rightarrow> 'a \<Rightarrow> 's) \<Rightarrow> 's \<Rightarrow> 'a list \<Rightarrow> byte list" where
  "enc_all enc upd s [] = []"
| "enc_all enc upd s (x # xs) = enc s x @ enc_all enc upd (upd s x) xs"

lemma enc_all_const: "enc_all (\<lambda>s. enc) upd s xs = concat (map enc xs)"
  by (induction xs arbitrary: s) simp_all

lemma foldl_snoc: "foldl (\<lambda>acc x. acc @ [f x]) acc xs = acc @ map f xs"
  by (induction xs arbitrary: acc) simp_all

lemma dec_while_step:
  "reads (body s) bs (Inr s') \<Longrightarrow> bs \<noteq> [] \<Longrightarrow>
    dec_while body s \<lparr>db_B = bs @ rest, db_E = None\<rparr> = dec_while body s' \<lparr>db_B = rest, db_E = None\<rparr>"
  by (subst dec_while.simps) (simp add: readsD dec_measure_def)

lemma dec_while_reads:
  assumes "\<And>s x. Q s \<Longrightarrow> P x \<Longrightarrow> reads (body s) (enc s x) (Inr (upd s x)) \<and> Q (upd s x)" "\<And>s x. enc s x \<noteq> []"
  shows "\<forall>x \<in> set xs. P x \<Longrightarrow> Q s \<Longrightarrow>
    dec_while body s \<lparr>db_B = enc_all enc upd s xs, db_E = None\<rparr> = Some (Inr (foldl upd s xs), \<lparr>db_B = [], db_E = None\<rparr>)"
proof (induction xs arbitrary: s)
  case Nil
  show ?case by (simp add: dec_while.simps)
next
  case (Cons x xs)
  then have "reads (body s) (enc s x) (Inr (upd s x))" "Q (upd s x)" using assms(1) by simp_all
  then show ?case using dec_while_step [of body s "enc s x"] Cons assms(2) by simp
qed

text \<open>The common case: the entries do not depend on the state, and each round appends one value.\<close>

lemma dec_while_append:
  assumes "\<And>acc x. P x \<Longrightarrow> reads (body acc) (enc x) (Inr (acc @ [f x]))" "\<And>x. enc x \<noteq> []" "\<forall>x \<in> set xs. P x"
  shows "dec_while body acc \<lparr>db_B = concat (map enc xs), db_E = None\<rparr> = Some (Inr (acc @ map f xs), \<lparr>db_B = [], db_E = None\<rparr>)"
  using dec_while_reads [of "\<lambda>_. True" P body "\<lambda>_. enc" "\<lambda>acc x. acc @ [f x]" xs acc] assms
  by (simp add: enc_all_const foldl_snoc)

section \<open>Lists inside a record\<close>

lemma reads_repeat:
  "(\<And>x. x \<in> set xs \<Longrightarrow> reads m (enc x) x) \<Longrightarrow> reads (repeatD (length xs) m) (concat (map enc xs)) xs"
proof (induction xs)
  case (Cons x xs)
  have "reads (repeatD (length (x # xs)) m) (enc x @ concat (map enc xs) @ []) (x # xs)"
    unfolding list.size(4) add_Suc_right add_0_right repeatD.simps
    using Cons by (intro reads_bind [where x = x] reads_bind [where x = xs] reads_return) simp_all
  then show ?case by simp
qed simp

lemma rounds_length:
  assumes "n < 2 ^ 63"
  shows "rounds (of_nat n) = n"
proof -
  have "unat (of_nat n :: uint64) = n" using assms by (simp add: unat_of_nat)
  moreover have "sint (of_nat n :: uint64) = int n" using assms sint_word_of_int_range [of "int n"] by simp
  ultimately show ?thesis by (simp add: rounds_def word_sless_alt)
qed

definition list_bytes :: "('a \<Rightarrow> byte list) \<Rightarrow> 'a list \<Rightarrow> byte list" where
  "list_bytes enc xs = PutUvarint (of_nat (length xs)) @ concat (map enc xs)"

lemma appends_put_list: "(\<And>x. appends (put x) (enc x)) \<Longrightarrow> appends (put_list put xs) (list_bytes enc xs)"
  unfolding put_list_def list_bytes_def
  using appends_comp [OF appends_put(7) appends_fold] by blast

locale list_codec = varint_lib +
  fixes put :: "'a \<Rightarrow> Encbuf \<Rightarrow> Encbuf" and rd :: "'a dec" and enc :: "'a \<Rightarrow> byte list" and valid :: "'a \<Rightarrow> bool"
  assumes put: "appends (put x) (enc x)"
    and rd: "valid x \<Longrightarrow> reads rd (enc x) x"
begin

lemma put_list: "appends (put_list put xs) (list_bytes enc xs)"
  by (rule appends_put_list [OF put])

lemma dec_list: "\<forall>x \<in> set xs. valid x \<Longrightarrow> length xs < 2 ^ 63 \<Longrightarrow> reads (dec_list vu rd) (list_bytes enc xs) xs"
  unfolding dec_list_def list_bytes_def
  by (rule reads_bind [OF reads_Uvarint]) (simp add: rounds_length reads_repeat rd)

end

definition str_bytes :: "byte list \<Rightarrow> byte list" where
  "str_bytes s = PutUvarint (of_nat (length s)) @ s"

definition label_bytes :: "Label \<Rightarrow> byte list" where
  "label_bytes l = str_bytes (Name l) @ str_bytes (Value l)"

definition label_ok :: "Label \<Rightarrow> bool" where
  "label_ok l \<longleftrightarrow> length (Name l) < 2 ^ 63 \<and> length (Value l) < 2 ^ 63"

definition field_bytes :: "byte list \<times> byte list \<Rightarrow> byte list" where
  "field_bytes f = str_bytes (fst f) @ str_bytes (snd f)"

definition span_bytes :: "Span \<Rightarrow> byte list" where
  "span_bytes sp = PutVarint (scast (Offset sp)) @ PutUvarint (ucast (Length sp))"

lemma ucast_scast_32 [simp]: "ucast (scast (x :: int32) :: int64) = x"
  by (rule bit_word_eqI) (simp add: bit_simps)

lemma Label_eta [simp]: "\<lparr>Name = Name l, Value = Value l\<rparr> = (l :: Label)"
  by (cases l) simp

lemma Span_eta [simp]: "\<lparr>Offset = Offset sp, Length = Length sp\<rparr> = (sp :: Span)"
  by (cases sp) simp

sublocale varint_lib \<subseteq> labels: list_codec vu put_label "decode_label vu" label_bytes label_ok
proof
  show "appends (put_label x) (label_bytes x)" for x
    unfolding put_label_def label_bytes_def str_bytes_def by (rule appends_comp) simp_all
  show "reads (decode_label vu) (label_bytes x) x" if "label_ok x" for x
  proof -
    have "reads (decode_label vu) (str_bytes (Name x) @ str_bytes (Value x) @ []) x"
      unfolding decode_label_def str_bytes_def using that
      by (intro reads_bind [OF reads_UvarintBytes]) (simp_all add: label_ok_def)
    then show ?thesis by (simp add: label_bytes_def)
  qed
qed

sublocale varint_lib \<subseteq> fields: list_codec vu "\<lambda>f e. PutUvarintStr (snd f) (PutUvarintStr (fst f) e)"
  "metadata_field vu" field_bytes "\<lambda>f. length (fst f) < 2 ^ 63 \<and> length (snd f) < 2 ^ 63"
proof
  show "appends (\<lambda>e. PutUvarintStr (snd x) (PutUvarintStr (fst x) e)) (field_bytes x)" for x
    unfolding field_bytes_def str_bytes_def by (rule appends_comp) simp_all
  show "reads (metadata_field vu) (field_bytes x) x" if "length (fst x) < 2 ^ 63 \<and> length (snd x) < 2 ^ 63" for x
  proof -
    have "reads (metadata_field vu) (str_bytes (fst x) @ str_bytes (snd x) @ []) x"
      unfolding metadata_field_def str_bytes_def using that
      by (intro reads_bind [OF reads_UvarintStr]) simp_all
    then show ?thesis by (simp add: field_bytes_def)
  qed
qed

sublocale varint_lib \<subseteq> spans: list_codec vu put_span "decode_span vu" span_bytes "\<lambda>_. True"
proof
  show "appends (put_span x) (span_bytes x)" for x
    unfolding put_span_def span_bytes_def by (rule appends_comp) simp_all
  show "reads (decode_span vu) (span_bytes x) x" for x
  proof -
    have "reads (decode_span vu) (PutVarint (scast (Offset x)) @ PutUvarint (ucast (Length x)) @ []) x"
      unfolding decode_span_def
      by (rule reads_bind [OF reads_Varint64], rule reads_bind [OF reads_Uvarint32]) simp
    then show ?thesis by (simp add: span_bytes_def)
  qed
qed

sublocale varint_lib \<subseteq> ints: list_codec vu "\<lambda>c. PutVarint64 (int_count c)" "mapD IntBucket (Decbuf_Varint64 vu)"
  "\<lambda>c. PutVarint (int_count c)" "\<lambda>_. True"
proof
  show "reads (mapD IntBucket (Decbuf_Varint64 vu)) (PutVarint (int_count x)) x" for x
    using reads_map [OF reads_Varint64, of IntBucket "int_count x"] by simp
qed simp

sublocale varint_lib \<subseteq> floats: list_codec vu "\<lambda>c. PutBEFloat64 (float_count c)" "mapD FloatBucket Decbuf_Be64Float64"
  "\<lambda>c. PutUint64 (float_count c)" "\<lambda>_. True"
proof
  show "reads (mapD FloatBucket Decbuf_Be64Float64) (PutUint64 (float_count x)) x" for x
    using reads_map [OF reads_fixed(5), of FloatBucket "float_count x"] by simp
qed simp

sublocale varint_lib \<subseteq> bounds: list_codec vu PutBEFloat64 Decbuf_Be64Float64 PutUint64 "\<lambda>_. True"
  by unfold_locales (simp_all add: reads_fixed(5))

section \<open>Entries\<close>

lemma RefSeries_eta [simp]: "\<lparr>rs_Ref = rs_Ref x, rs_Labels = rs_Labels x\<rparr> = (x :: RefSeries)"
  by (cases x) simp

lemma RefMetadata_eta [simp]:
  "\<lparr>md_Ref = md_Ref x, md_Type = md_Type x, md_Unit = md_Unit x, md_Help = md_Help x\<rparr> = (x :: RefMetadata)"
  by (cases x) simp

lemma RefSample_eta [simp]: "\<lparr>s_Ref = s_Ref x, s_ST = st, s_T = s_T x, s_V = s_V x\<rparr> = (x :: RefSample)\<lparr>s_ST := st\<rparr>"
  by (cases x) simp

lemma RefExemplar_eta [simp]:
  "\<lparr>ex_Ref = ex_Ref x, ex_T = ex_T x, ex_V = ex_V x, ex_Labels = ex_Labels x\<rparr> = (x :: RefExemplar)"
  by (cases x) simp

lemma RefMmapMarker_eta [simp]: "\<lparr>mm_Ref = mm_Ref x, mm_MmapRef = mm_MmapRef x\<rparr> = (x :: RefMmapMarker)"
  by (cases x) simp

lemma with_type_Cons [simp]: "with_type (t # bs) f = f t \<lparr>db_B = bs, db_E = None\<rparr>"
  by (simp add: with_type_def Decbuf_Byte_def)

lemma finish_done [simp]: "finish wrap (Some (Inr xs, \<lparr>db_B = [], db_E = None\<rparr>)) = Some (Inr xs)"
  by (simp add: finish_def)

lemma encoded_entries:
  assumes "\<And>x. appends (put x) (enc x)"
  shows "Encbuf_Get (fold put xs (PutByte c \<lparr>eb_B = b\<rparr>)) = b @ c # concat (map enc xs)"
  using appends_fold [of put enc xs, OF assms] by (simp add: appends_def Encbuf_Get_def PutByte_def)

lemma EncodeLabels_put_list: "EncodeLabels lbls = put_list put_label lbls"
  by (simp add: fun_eq_iff EncodeLabels_def put_list_def)

definition labels_bytes :: "Labels \<Rightarrow> byte list" where
  "labels_bytes lbls = list_bytes label_bytes lbls"

definition labels_ok :: "Labels \<Rightarrow> bool" where
  "labels_ok lbls \<longleftrightarrow> length lbls < 2 ^ 63 \<and> (\<forall>l \<in> set lbls. label_ok l)"

definition series_bytes :: "RefSeries \<Rightarrow> byte list" where
  "series_bytes s = PutUint64 (rs_Ref s) @ labels_bytes (rs_Labels s)"

definition metadata_bytes :: "RefMetadata \<Rightarrow> byte list" where
  "metadata_bytes m = PutUvarint (md_Ref m) @ [md_Type m] @ list_bytes field_bytes [(unitMetaName, md_Unit m), (helpMetaName, md_Help m)]"

definition metadata_ok :: "RefMetadata \<Rightarrow> bool" where
  "metadata_ok m \<longleftrightarrow> length (md_Unit m) < 2 ^ 63 \<and> length (md_Help m) < 2 ^ 63"

definition exemplar_bytes :: "uint64 \<Rightarrow> int64 \<Rightarrow> RefExemplar \<Rightarrow> byte list" where
  "exemplar_bytes baseRef baseTime ex =
     PutVarint (ex_Ref ex - baseRef) @ PutVarint (ex_T ex - baseTime) @ PutUint64 (ex_V ex) @ labels_bytes (ex_Labels ex)"

definition stone_bytes :: "uint64 \<times> Interval \<Rightarrow> byte list" where
  "stone_bytes e = PutUint64 (fst e) @ PutVarint (Mint (snd e)) @ PutVarint (Maxt (snd e))"

definition marker_bytes :: "RefMmapMarker \<Rightarrow> byte list" where
  "marker_bytes m = PutUint64 (mm_Ref m) @ PutUint64 (mm_MmapRef m)"

definition sampleV1_bytes :: "uint64 \<Rightarrow> int64 \<Rightarrow> RefSample \<Rightarrow> byte list" where
  "sampleV1_bytes baseRef baseTime s = PutVarint (s_Ref s - baseRef) @ PutVarint (s_T s - baseTime) @ PutUint64 (s_V s)"

lemma PutUint64_nonempty [simp]: "PutUint64 x \<noteq> []"
  by (simp add: PutUint64_def)

lemma entry_bytes_nonempty [simp]:
  "series_bytes s \<noteq> []" "metadata_bytes m \<noteq> []" "exemplar_bytes r t ex \<noteq> []" "stone_bytes e \<noteq> []" "marker_bytes k \<noteq> []"
  "sampleV1_bytes r t sa \<noteq> []"
  by (simp_all add: series_bytes_def metadata_bytes_def exemplar_bytes_def stone_bytes_def marker_bytes_def sampleV1_bytes_def)

lemma appends_EncodeLabels: "appends (EncodeLabels lbls) (labels_bytes lbls)"
  unfolding EncodeLabels_put_list labels_bytes_def by (rule stdlib.labels.put_list)

lemma appends_entries:
  "appends (put_series s) (series_bytes s)"
  "appends (put_metadata m) (metadata_bytes m)"
  "appends (put_exemplar first ex) (exemplar_bytes (ex_Ref first) (ex_T first) ex)"
  "appends (put_stone_interval ref iv) (stone_bytes (ref, iv))"
  "appends (put_marker k) (marker_bytes k)"
  "appends (put_sampleV1 f sa) (sampleV1_bytes (s_Ref f) (s_T f) sa)"
  using appends_EncodeLabels
  by (simp_all add: appends_def Encbuf_defs put_series_def series_bytes_def put_metadata_def metadata_bytes_def list_bytes_def
      field_bytes_def str_bytes_def put_exemplar_def exemplar_bytes_def put_stone_interval_def stone_bytes_def put_marker_def
      marker_bytes_def put_sampleV1_def sampleV1_bytes_def)

context varint_lib
begin

lemma reads_labels: "labels_ok lbls \<Longrightarrow> reads (DecodeLabels vu) (labels_bytes lbls) lbls"
  unfolding DecodeLabels_def labels_bytes_def by (rule labels.dec_list) (simp_all add: labels_ok_def)

lemma reads_series:
  assumes "labels_ok (rs_Labels x)"
  shows "reads (series_body vu acc) (series_bytes x) (Inr (acc @ [x]))"
proof -
  have "reads (series_body vu acc) (PutUint64 (rs_Ref x) @ labels_bytes (rs_Labels x) @ []) (Inr (acc @ [x]))"
    unfolding series_body_def
    by (rule reads_bind [OF reads_Be64], rule reads_bind [OF reads_labels [OF assms]]) simp
  then show ?thesis by (simp add: series_bytes_def)
qed

lemma set_fields: "foldl set_field ([], []) [(unitMetaName, u), (helpMetaName, h)] = (u, h)"
  by (simp add: set_field_def unitMetaName_def helpMetaName_def)

lemma reads_metadata:
  assumes "metadata_ok x"
  shows "reads (metadata_body vu acc) (metadata_bytes x) (Inr (acc @ [x]))"
proof -
  let ?fs = "[(unitMetaName, md_Unit x), (helpMetaName, md_Help x)]"
  have fs: "reads (dec_list vu (metadata_field vu)) (list_bytes field_bytes ?fs) ?fs"
    using assms by (intro fields.dec_list) (simp_all add: metadata_ok_def unitMetaName_def helpMetaName_def)
  have "reads (metadata_body vu acc) (PutUvarint (md_Ref x) @ [md_Type x] @ list_bytes field_bytes ?fs @ []) (Inr (acc @ [x]))"
    unfolding metadata_body_def
    by (intro reads_bind [OF reads_Uvarint64] reads_bind [OF reads_Byte] reads_bind [OF fs])
      (simp only: set_fields Let_def prod.case RefMetadata_eta reads_return)
  then show ?thesis by (simp add: metadata_bytes_def)
qed

lemma reads_sampleV1:
  "reads (samplesV1_body vu baseRef baseTime acc) (sampleV1_bytes baseRef baseTime x) (Inr (acc @ [x\<lparr>s_ST := 0\<rparr>]))"
proof -
  have "reads (samplesV1_body vu baseRef baseTime acc)
      (PutVarint (s_Ref x - baseRef) @ PutVarint (s_T x - baseTime) @ PutUint64 (s_V x) @ []) (Inr (acc @ [x\<lparr>s_ST := 0\<rparr>]))"
    unfolding samplesV1_body_def
    by (intro reads_bind [OF reads_Varint64] reads_bind [OF reads_Be64]) simp
  then show ?thesis by (simp add: sampleV1_bytes_def)
qed

lemma reads_stone:
  "reads (tombstones_body vu acc) (stone_bytes e) (Inr (acc @ [\<lparr>st_Ref = fst e, st_Intervals = [snd e]\<rparr>]))"
proof -
  have "reads (tombstones_body vu acc) (PutUint64 (fst e) @ PutVarint (Mint (snd e)) @ PutVarint (Maxt (snd e)) @ [])
      (Inr (acc @ [\<lparr>st_Ref = fst e, st_Intervals = [snd e]\<rparr>]))"
    unfolding tombstones_body_def
    by (intro reads_bind [OF reads_Be64] reads_bind [OF reads_Varint64]) simp
  then show ?thesis by (simp add: stone_bytes_def)
qed

lemma reads_exemplar:
  assumes "labels_ok (ex_Labels x)"
  shows "reads (exemplars_body vu baseRef baseTime acc) (exemplar_bytes baseRef baseTime x) (Inr (acc @ [x]))"
proof -
  have "reads (exemplars_body vu baseRef baseTime acc)
      (PutVarint (ex_Ref x - baseRef) @ PutVarint (ex_T x - baseTime) @ PutUint64 (ex_V x) @ labels_bytes (ex_Labels x) @ [])
      (Inr (acc @ [x]))"
    unfolding exemplars_body_def
    by (intro reads_bind [OF reads_Varint64] reads_bind [OF reads_Be64] reads_bind [OF reads_labels [OF assms]]) simp
  then show ?thesis by (simp add: exemplar_bytes_def)
qed

lemma reads_marker: "reads (markers_body acc) (marker_bytes x) (Inr (acc @ [x]))"
proof -
  have "reads (markers_body acc) (PutUint64 (mm_Ref x) @ PutUint64 (mm_MmapRef x) @ []) (Inr (acc @ [x]))"
    unfolding markers_body_def by (intro reads_bind [OF reads_Be64]) simp
  then show ?thesis by (simp add: marker_bytes_def)
qed

end

section \<open>Samples with a start time\<close>

definition st_bytes :: "int64 \<Rightarrow> int64 \<Rightarrow> int64 \<Rightarrow> byte list" where
  "st_bytes st firstST prevST =
     (if st = 0 then [noST] else if st = prevST then [sameST] else explicitST # PutVarint (st - firstST))"

lemma appends_writeSTMarker: "appends (writeSTMarker st firstST prevST) (st_bytes st firstST prevST)"
  by (simp add: appends_def writeSTMarker_def st_bytes_def Encbuf_defs)

definition v2_upd :: "RefSample list \<times> int64 \<times> int64 \<Rightarrow> RefSample \<Rightarrow> RefSample list \<times> int64 \<times> int64" where
  "v2_upd s x = (case s of (acc, firstT, firstST) \<Rightarrow>
     (acc @ [x], if acc = [] then s_T x else firstT, if acc = [] then s_ST x else firstST))"

definition v2_bytes :: "RefSample list \<times> int64 \<times> int64 \<Rightarrow> RefSample \<Rightarrow> byte list" where
  "v2_bytes s x = (case s of (acc, firstT, firstST) \<Rightarrow>
     if acc = [] then PutVarint (s_Ref x) @ PutVarint (s_T x) @ PutVarint (s_ST x) @ PutUint64 (s_V x)
     else PutVarint (s_Ref x - s_Ref (last acc)) @ PutVarint (s_T x - firstT) @ st_bytes (s_ST x) firstST (s_ST (last acc))
       @ PutUint64 (s_V x))"

lemma appends_samplesV2:
  "acc \<noteq> [] \<Longrightarrow> last acc = prev \<Longrightarrow>
    appends (put_samplesV2 first prev rest) (enc_all v2_bytes v2_upd (acc, s_T first, s_ST first) rest)"
proof (induction rest arbitrary: prev acc)
  case (Cons x rest)
  have "appends (put_samplesV2 first x rest) (enc_all v2_bytes v2_upd (acc @ [x], s_T first, s_ST first) rest)"
    using Cons.IH [of "acc @ [x]" x] by simp
  moreover have "v2_upd (acc, s_T first, s_ST first) x = (acc @ [x], s_T first, s_ST first)"
      "v2_bytes (acc, s_T first, s_ST first) x = PutVarint (s_Ref x - s_Ref prev) @ PutVarint (s_T x - s_T first)
        @ st_bytes (s_ST x) (s_ST first) (s_ST prev) @ PutUint64 (s_V x)"
    using Cons.prems by (simp_all add: v2_bytes_def v2_upd_def)
  ultimately show ?case
    using appends_writeSTMarker [of "s_ST x" "s_ST first" "s_ST prev"] by (simp add: appends_def Encbuf_defs)
qed (simp add: appends_def)

lemma v2_fold: "fst (foldl v2_upd s xs) = fst s @ xs"
  by (induction xs arbitrary: s) (auto simp: v2_upd_def split: prod.splits)

lemma v2_bytes_nonempty [simp]: "v2_bytes s x \<noteq> []"
  by (simp add: v2_bytes_def split: prod.splits)

lemma RefSample_surj [simp]: "\<lparr>s_Ref = s_Ref x, s_ST = s_ST x, s_T = s_T x, s_V = s_V x\<rparr> = (x :: RefSample)"
  by (cases x) simp

context varint_lib
begin

lemma reads_STMarker: "reads (readSTMarker vu prevST firstST) (st_bytes st firstST prevST) st"
proof -
  have d: "noST \<noteq> sameST" "noST \<noteq> explicitST" "sameST \<noteq> explicitST" by (simp_all add: noST_def sameST_def explicitST_def)
  consider "st = 0" | "st \<noteq> 0" "st = prevST" | "st \<noteq> 0" "st \<noteq> prevST" by blast
  then show ?thesis
  proof cases
    case 1
    have "reads (readSTMarker vu prevST firstST) ([noST] @ []) 0"
      unfolding readSTMarker_def by (rule reads_bind [OF reads_Byte]) simp
    with 1 show ?thesis by (simp add: st_bytes_def)
  next
    case 2
    have "reads (readSTMarker vu prevST firstST) ([sameST] @ []) prevST"
      unfolding readSTMarker_def by (rule reads_bind [OF reads_Byte]) (simp add: d [symmetric])
    with 2 show ?thesis by (simp add: st_bytes_def)
  next
    case 3
    have "reads (readSTMarker vu prevST firstST) ([explicitST] @ PutVarint (st - firstST) @ []) st"
      unfolding readSTMarker_def
      by (rule reads_bind [OF reads_Byte], simp only: d [symmetric] if_False, rule reads_bind [OF reads_Varint64]) simp
    with 3 show ?thesis by (simp add: st_bytes_def)
  qed
qed

lemma reads_sampleV2: "reads (samplesV2_body vu s) (v2_bytes s x) (Inr (v2_upd s x))"
proof -
  obtain acc firstT firstST where s: "s = (acc, firstT, firstST)" by (rule prod_cases3)
  let ?r = "Inr (v2_upd s x) :: record_error + RefSample list \<times> int64 \<times> int64"
  show ?thesis
  proof (cases "acc = []")
    case True
    have "reads (samplesV2_body vu s) ((PutVarint (s_Ref x) @ PutVarint (s_T x) @ PutVarint (s_ST x) @ []) @ PutUint64 (s_V x) @ []) ?r"
      unfolding s samplesV2_body_def Let_def prod.case if_P [OF True]
      by (intro reads_bind [where x = "(s_Ref x, s_T x, s_ST x, s_T x, s_ST x)"] reads_bind [OF reads_Varint64] reads_return)
        (simp add: True v2_upd_def, rule reads_bind [OF reads_Be64, of _ _ "[]", simplified], simp)
    then show ?thesis by (simp add: s True v2_bytes_def)
  next
    case False
    have "reads (samplesV2_body vu s) ((PutVarint (s_Ref x - s_Ref (last acc)) @ PutVarint (s_T x - firstT)
        @ st_bytes (s_ST x) firstST (s_ST (last acc)) @ []) @ PutUint64 (s_V x) @ []) ?r"
      unfolding s samplesV2_body_def Let_def prod.case if_not_P [OF False]
      by (intro reads_bind [where x = "(s_Ref x, s_T x, s_ST x, firstT, firstST)"] reads_bind [OF reads_Varint64]
            reads_bind [OF reads_STMarker])
        (simp, simp add: False v2_upd_def, rule reads_bind [OF reads_Be64, of _ _ "[]", simplified], simp)
    then show ?thesis by (simp add: s False v2_bytes_def)
  qed
qed

end

section \<open>Histograms\<close>

definition hist_bytes :: "(uint64 \<Rightarrow> byte list) \<Rightarrow> ('c \<Rightarrow> byte list) \<Rightarrow> 'c histogram \<Rightarrow> byte list" where
  "hist_bytes encC encB h =
     [CounterResetHint h] @ PutVarint (scast (Schema h)) @ PutUint64 (ZeroThreshold h) @ encC (ZeroCount h) @ encC (Count h)
     @ PutUint64 (Sum h) @ list_bytes span_bytes (PositiveSpans h) @ list_bytes span_bytes (NegativeSpans h)
     @ list_bytes encB (PositiveBuckets h) @ list_bytes encB (NegativeBuckets h)
     @ (if IsCustomBucketsSchema (Schema h) then list_bytes PutUint64 (CustomValues h) else [])"

text \<open>
  A histogram this version writes: its schema is known and not above the supported maximum, and it
  has custom values only with the custom schema.
\<close>

definition hist_ok :: "'c histogram \<Rightarrow> bool" where
  "hist_ok h \<longleftrightarrow> IsKnownSchema (Schema h) \<and> \<not> ExponentialSchemaMax <s Schema h \<and>
     (\<not> UsesCustomBuckets h \<longrightarrow> CustomValues h = []) \<and> length (PositiveSpans h) < 2 ^ 63 \<and> length (NegativeSpans h) < 2 ^ 63 \<and>
     length (PositiveBuckets h) < 2 ^ 63 \<and> length (NegativeBuckets h) < 2 ^ 63 \<and> length (CustomValues h) < 2 ^ 63"

lemma histogram_eta [simp]:
  "\<lparr>CounterResetHint = CounterResetHint h, Schema = Schema h, ZeroThreshold = ZeroThreshold h, ZeroCount = ZeroCount h,
    Count = Count h, Sum = Sum h, PositiveSpans = PositiveSpans h, NegativeSpans = NegativeSpans h,
    PositiveBuckets = PositiveBuckets h, NegativeBuckets = NegativeBuckets h, CustomValues = CustomValues h\<rparr> = (h :: 'c histogram)"
  by (cases h) simp

lemma hist_bytes_nonempty [simp]: "hist_bytes encC encB h \<noteq> []"
  by (simp add: hist_bytes_def)

locale hist_codec = varint_lib +
  fixes putC :: "uint64 \<Rightarrow> Encbuf \<Rightarrow> Encbuf" and rdC :: "uint64 dec" and encC :: "uint64 \<Rightarrow> byte list"
    and putB :: "'c \<Rightarrow> Encbuf \<Rightarrow> Encbuf" and rdB :: "'c dec" and encB :: "'c \<Rightarrow> byte list"
  assumes putC: "appends (putC x) (encC x)" and rdC: "reads rdC (encC x) x"
    and putB: "appends (putB c) (encB c)" and rdB: "reads rdB (encB c) c"
begin

lemma put_hist: "appends (encode_hist putC putB h) (hist_bytes encC encB h)"
  using putC appends_put_list [of putB encB, OF putB] stdlib.spans.put_list stdlib.bounds.put_list
  by (simp add: appends_def encode_hist_def hist_bytes_def Let_def Encbuf_defs)

lemma reads_buckets: "length bs < 2 ^ 63 \<Longrightarrow> reads (dec_list vu rdB) (list_bytes encB bs) bs"
  unfolding dec_list_def list_bytes_def
  by (rule reads_bind [OF reads_Uvarint]) (simp add: rounds_length reads_repeat rdB)

lemma reads_hist:
  assumes "hist_ok h"
  shows "reads (decode_hist vu rdC rdB) (hist_bytes encC encB h) h"
proof -
  note len = assms [unfolded hist_ok_def]
  have sp: "reads (dec_list vu (decode_span vu)) (list_bytes span_bytes xs) xs" if "length xs < 2 ^ 63" for xs
    using that by (intro spans.dec_list) simp_all
  let ?cv = "if IsCustomBucketsSchema (Schema h) then list_bytes PutUint64 (CustomValues h) else []"
  have cv: "reads (if IsCustomBucketsSchema (ucast (scast (Schema h) :: int64)) then dec_list vu Decbuf_Be64Float64 else returnD [])
      ?cv (CustomValues h)"
    using len bounds.dec_list [of "CustomValues h"] by (simp add: UsesCustomBuckets_def)
  have "reads (decode_hist vu rdC rdB)
     ([CounterResetHint h] @ PutVarint (scast (Schema h)) @ PutUint64 (ZeroThreshold h) @ encC (ZeroCount h) @ encC (Count h)
      @ PutUint64 (Sum h) @ list_bytes span_bytes (PositiveSpans h) @ list_bytes span_bytes (NegativeSpans h)
      @ list_bytes encB (PositiveBuckets h) @ list_bytes encB (NegativeBuckets h) @ ?cv @ []) h"
    unfolding decode_hist_def using len
    by (intro reads_bind [OF reads_Byte] reads_bind [OF reads_Varint64] reads_bind [OF reads_Be64] reads_bind [OF rdC]
        reads_bind [OF sp] reads_bind [OF reads_buckets] reads_bind [OF cv]) simp_all
  then show ?thesis by (simp add: hist_bytes_def)
qed

end

sublocale varint_lib \<subseteq> ih: hist_codec vu PutUvarint64 "Decbuf_Uvarint64 vu" PutUvarint "\<lambda>c. PutVarint64 (int_count c)"
  "mapD IntBucket (Decbuf_Varint64 vu)" "\<lambda>c. PutVarint (int_count c)"
  using ints.rd by unfold_locales (simp_all add: reads_Uvarint64)

sublocale varint_lib \<subseteq> fh: hist_codec vu PutBEFloat64 Decbuf_Be64Float64 PutUint64 "\<lambda>c. PutBEFloat64 (float_count c)"
  "mapD FloatBucket Decbuf_Be64Float64" "\<lambda>c. PutUint64 (float_count c)"
  using floats.rd by unfold_locales (simp_all add: reads_fixed(5))

lemma admit_ok: "hist_ok (h_H rh) \<Longrightarrow> admit_hist red hs rh = Inr (hs @ [rh])"
  by (simp add: admit_hist_def hist_ok_def)

definition histV1_bytes :: "('c histogram \<Rightarrow> byte list) \<Rightarrow> uint64 \<Rightarrow> int64 \<Rightarrow> 'c RefHist \<Rightarrow> byte list" where
  "histV1_bytes hb baseRef baseTime x = PutVarint (h_Ref x - baseRef) @ PutVarint (h_T x - baseTime) @ hb (h_H x)"

lemma appends_histV1:
  "(\<And>h. appends (encode h) (hb h)) \<Longrightarrow> appends (put_histV1 encode first x) (histV1_bytes hb (h_Ref first) (h_T first) x)"
  by (simp add: appends_def put_histV1_def histV1_bytes_def Encbuf_defs)

lemma RefHist_eta [simp]: "\<lparr>h_Ref = h_Ref x, h_ST = st, h_T = h_T x, h_H = h_H x\<rparr> = (x :: 'c RefHist)\<lparr>h_ST := st\<rparr>"
  by (cases x) simp

lemma RefHist_ST_eta [simp]: "(x :: 'c RefHist)\<lparr>h_ST := h_ST x\<rparr> = x"
  by (cases x) simp

lemma put_histsV1_split:
  assumes "\<And>h. appends (encode h) (hb h)"
  shows "put_histsV1 encode first hs (buf, custom) =
    (buf\<lparr>eb_B := eb_B buf @ concat (map (histV1_bytes hb (h_Ref first) (h_T first)) (filter (\<lambda>x. \<not> UsesCustomBuckets (h_H x)) hs))\<rparr>,
     custom @ filter (\<lambda>x. UsesCustomBuckets (h_H x)) hs)"
  using appends_histV1 [of encode hb, OF assms]
  by (induction hs arbitrary: buf custom) (simp_all add: appends_def)

definition histV2_upd :: "'c RefHist list \<times> (uint64 \<times> int64) option \<Rightarrow> 'c RefHist \<Rightarrow> 'c RefHist list \<times> (uint64 \<times> int64) option" where
  "histV2_upd s x = (fst s @ [x], Some (h_Ref x, h_ST x))"

definition histV2_bytes ::
  "('c histogram \<Rightarrow> byte list) \<Rightarrow> int64 \<Rightarrow> int64 \<Rightarrow> 'c RefHist list \<times> (uint64 \<times> int64) option \<Rightarrow> 'c RefHist \<Rightarrow> byte list" where
  "histV2_bytes hb firstT firstST s x =
     (case snd s of
        None \<Rightarrow> hb (h_H x)
      | Some (prevRef, prevST) \<Rightarrow>
          PutVarint (h_Ref x - prevRef) @ PutVarint (h_T x - firstT) @ st_bytes (h_ST x) firstST prevST @ hb (h_H x))"

lemma histV2_fold: "fst (foldl histV2_upd s xs) = fst s @ xs"
  by (induction xs arbitrary: s) (auto simp: histV2_upd_def)

lemma appends_histsV2:
  assumes "\<And>h. appends (encode h) (hb h)"
  shows "appends (put_histsV2 encode first prev rest)
    (enc_all (histV2_bytes hb (h_T first) (h_ST first)) histV2_upd (acc, Some (h_Ref prev, h_ST prev)) rest)"
proof (induction rest arbitrary: prev acc)
  case (Cons x rest)
  have "appends (put_histsV2 encode first x rest)
      (enc_all (histV2_bytes hb (h_T first) (h_ST first)) histV2_upd (acc @ [x], Some (h_Ref x, h_ST x)) rest)"
    by (rule Cons.IH)
  moreover have "histV2_upd (acc, Some (h_Ref prev, h_ST prev)) x = (acc @ [x], Some (h_Ref x, h_ST x))"
      "histV2_bytes hb (h_T first) (h_ST first) (acc, Some (h_Ref prev, h_ST prev)) x =
        PutVarint (h_Ref x - h_Ref prev) @ PutVarint (h_T x - h_T first) @ st_bytes (h_ST x) (h_ST first) (h_ST prev) @ hb (h_H x)"
    by (simp_all add: histV2_upd_def histV2_bytes_def)
  ultimately show ?case
    using assms [of "h_H x"] appends_writeSTMarker [of "h_ST x" "h_ST first" "h_ST prev"]
    by (simp add: appends_def Encbuf_defs)
qed (simp add: appends_def)

text \<open>Decoding the entries of a record with histograms, for a histogram decoder that inverts its encoder.\<close>

context varint_lib
begin

lemma reads_histV1:
  assumes "reads decode (hb (h_H x)) (h_H x)" "hist_ok (h_H x)"
  shows "reads (histV1_body vu decode red baseRef baseTime acc) (histV1_bytes hb baseRef baseTime x) (Inr (acc @ [x\<lparr>h_ST := 0\<rparr>]))"
proof -
  have "reads (histV1_body vu decode red baseRef baseTime acc)
      (PutVarint (h_Ref x - baseRef) @ PutVarint (h_T x - baseTime) @ hb (h_H x) @ []) (Inr (acc @ [x\<lparr>h_ST := 0\<rparr>]))"
    unfolding histV1_body_def using assms(2)
    by (intro reads_bind [OF reads_Varint64] reads_bind [OF assms(1)]) (simp add: admit_ok)
  then show ?thesis by (simp add: histV1_bytes_def)
qed

lemma reads_histV2_first:
  assumes "reads decode (hb (h_H x)) (h_H x)" "hist_ok (h_H x)"
  shows "reads (histV2_body vu decode red (h_Ref x) (h_T x) (h_ST x) (acc, None)) (hb (h_H x)) (Inr (acc @ [x], Some (h_Ref x, h_ST x)))"
proof -
  have "reads (histV2_body vu decode red (h_Ref x) (h_T x) (h_ST x) (acc, None)) ([] @ hb (h_H x) @ [])
      (Inr (acc @ [x], Some (h_Ref x, h_ST x)))"
    unfolding histV2_body_def Let_def prod.case option.case using assms(2)
    by (intro reads_bind [where x = "(h_Ref x, h_T x, h_ST x)"] reads_return, unfold prod.case)
      (rule reads_bind [OF assms(1)], simp add: admit_ok)
  then show ?thesis by simp
qed

lemma reads_histV2:
  assumes "snd s \<noteq> None" "reads decode (hb (h_H x)) (h_H x)" "hist_ok (h_H x)"
  shows "reads (histV2_body vu decode red firstRef firstT firstST s) (histV2_bytes hb firstT firstST s x) (Inr (histV2_upd s x))"
proof -
  obtain acc prevRef prevST where s: "s = (acc, Some (prevRef, prevST))" using assms(1) by (cases s) auto
  have "reads (histV2_body vu decode red firstRef firstT firstST s)
      ((PutVarint (h_Ref x - prevRef) @ PutVarint (h_T x - firstT) @ st_bytes (h_ST x) firstST prevST @ []) @ hb (h_H x) @ [])
      (Inr (histV2_upd s x))"
    unfolding s histV2_body_def Let_def prod.case option.case
  proof (rule reads_bind [where x = "(h_Ref x, h_T x, h_ST x)"])
    show "reads (bindD (Decbuf_Varint64 vu) (\<lambda>dref. bindD (Decbuf_Varint64 vu) (\<lambda>dt. bindD (readSTMarker vu prevST firstST) (\<lambda>st.
        returnD (prevRef + dref, firstT + dt, st)))))
      (PutVarint (h_Ref x - prevRef) @ PutVarint (h_T x - firstT) @ st_bytes (h_ST x) firstST prevST @ []) (h_Ref x, h_T x, h_ST x)"
      by (intro reads_bind [OF reads_Varint64] reads_bind [OF reads_STMarker]) simp
  qed (unfold prod.case, rule reads_bind [OF assms(2)], simp add: admit_ok assms(3) histV2_upd_def)
  then show ?thesis by (simp add: s histV2_bytes_def)
qed

lemma histV1_entries:
  assumes "\<And>h. hist_ok h \<Longrightarrow> reads decode (hb h) h" "\<And>h. hb h \<noteq> []" "\<forall>x \<in> set xs. hist_ok (h_H x)"
  shows "histV1 vu decode red \<lparr>db_B = PutUint64 baseRef @ PutUint64 baseTime @ concat (map (histV1_bytes hb baseRef baseTime) xs),
      db_E = None\<rparr> acc = Some (Inr (acc @ map (\<lambda>x. x\<lparr>h_ST := 0\<rparr>) xs))"
proof -
  have "dec_while (histV1_body vu decode red baseRef baseTime) acc
      \<lparr>db_B = concat (map (histV1_bytes hb baseRef baseTime) xs), db_E = None\<rparr>
      = Some (Inr (acc @ map (\<lambda>x. x\<lparr>h_ST := 0\<rparr>) xs), \<lparr>db_B = [], db_E = None\<rparr>)"
    using assms by (intro dec_while_append [where P = "\<lambda>x. hist_ok (h_H x)"] reads_histV1) (auto simp: histV1_bytes_def)
  then show ?thesis
    using readsD [OF reads_Be64, of baseRef] readsD [OF reads_fixed(4), of baseTime]
    by (simp add: histV1_def Decbuf_Len_def bindD_def)
qed

lemma histV2_entries:
  assumes "\<And>h. hist_ok h \<Longrightarrow> reads decode (hb h) h" "\<And>h. hb h \<noteq> []" "\<forall>x \<in> set (first # xs). hist_ok (h_H x)"
  shows "histV2 vu decode red \<lparr>db_B = PutVarint (h_Ref first) @ PutVarint (h_T first) @ PutVarint (h_ST first) @ hb (h_H first)
      @ enc_all (histV2_bytes hb (h_T first) (h_ST first)) histV2_upd (acc @ [first], Some (h_Ref first, h_ST first)) xs,
      db_E = None\<rparr> acc = Some (Inr (acc @ first # xs))"
proof -
  let ?body = "histV2_body vu decode red (h_Ref first) (h_T first) (h_ST first)"
  let ?s = "(acc @ [first], Some (h_Ref first, h_ST first))"
  let ?rest = "enc_all (histV2_bytes hb (h_T first) (h_ST first)) histV2_upd ?s xs"
  have "dec_while ?body (acc, None) \<lparr>db_B = hb (h_H first) @ ?rest, db_E = None\<rparr> = dec_while ?body ?s \<lparr>db_B = ?rest, db_E = None\<rparr>"
    using assms by (intro dec_while_step reads_histV2_first) auto
  also have "\<dots> = Some (Inr (foldl histV2_upd ?s xs), \<lparr>db_B = [], db_E = None\<rparr>)"
  proof (rule dec_while_reads [where P = "\<lambda>x. hist_ok (h_H x)" and Q = "\<lambda>s. snd s \<noteq> None"])
    show "reads (?body s) (histV2_bytes hb (h_T first) (h_ST first) s x) (Inr (histV2_upd s x)) \<and> snd (histV2_upd s x) \<noteq> None"
      if "snd s \<noteq> None" "hist_ok (h_H x)" for s x
      using reads_histV2 [of s decode hb x] assms(1) that by (simp add: histV2_upd_def)
  qed (use assms in \<open>auto simp: histV2_bytes_def split: option.splits\<close>)
  finally show ?thesis
    using readsD [OF reads_Varint64, of "h_Ref first"] readsD [OF reads_Varint64, of "h_T first"]
      readsD [OF reads_Varint64, of "h_ST first"] histV2_fold [of ?s xs]
    by (simp add: histV2_def Decbuf_Len_def bindD_def finish_def)
qed

end

section \<open>Whole records\<close>

definition stone_entries :: "Stone list \<Rightarrow> (uint64 \<times> Interval) list" where
  "stone_entries xs = concat (map (\<lambda>s. map (Pair (st_Ref s)) (st_Intervals s)) xs)"

lemma appends_stone: "appends (put_stone s) (concat (map stone_bytes (map (Pair (st_Ref s)) (st_Intervals s))))"
  using appends_fold [of "put_stone_interval (st_Ref s)" "\<lambda>iv. stone_bytes (st_Ref s, iv)" "st_Intervals s", OF appends_entries(4)]
  by (simp add: put_stone_def comp_def)

lemma stone_entries_bytes:
  "concat (map (\<lambda>s. concat (map stone_bytes (map (Pair (st_Ref s)) (st_Intervals s)))) xs) = concat (map stone_bytes (stone_entries xs))"
  by (induction xs) (simp_all add: stone_entries_def)

lemma Encoder_Tombstones_bytes:
  "Encoder_Tombstones xs [] = type_byte TombstonesT # concat (map stone_bytes (stone_entries xs))"
  unfolding Encoder_Tombstones_def encoded_entries [OF appends_stone] stone_entries_bytes by simp

lemma with_capacity_Nil [simp]: "with_capacity n cap [] = []"
  by (simp add: with_capacity_def)

context varint_lib
begin

lemma Series_roundtrip:
  assumes "\<forall>x \<in> set xs. labels_ok (rs_Labels x)"
  shows "Decoder_Series vu (Encoder_Series xs []) acc = Some (Inr (acc @ xs))"
  using dec_while_append [of "\<lambda>x. labels_ok (rs_Labels x)" "series_body vu" series_bytes id xs acc] reads_series assms
  by (simp add: Decoder_Series_def Encoder_Series_def encoded_entries [OF appends_entries(1)])

lemma Metadata_roundtrip:
  assumes "\<forall>x \<in> set xs. metadata_ok x"
  shows "Decoder_Metadata vu (Encoder_Metadata xs []) acc = Some (Inr (acc @ xs))"
  using dec_while_append [of metadata_ok "metadata_body vu" metadata_bytes id xs acc] reads_metadata assms
  by (simp add: Decoder_Metadata_def Encoder_Metadata_def encoded_entries [OF appends_entries(2)])

lemma MmapMarkers_roundtrip: "Decoder_MmapMarkers (Encoder_MmapMarkers xs []) acc = Some (Inr (acc @ xs))"
  using dec_while_append [of "\<lambda>_. True" markers_body marker_bytes id xs acc] reads_marker
  by (simp add: Decoder_MmapMarkers_def Encoder_MmapMarkers_def encoded_entries [OF appends_entries(5)] Decbuf_Len_def)

lemma Tombstones_roundtrip:
  "Decoder_Tombstones vu (Encoder_Tombstones xs []) acc =
    Some (Inr (acc @ map (\<lambda>e. \<lparr>st_Ref = fst e, st_Intervals = [snd e]\<rparr>) (stone_entries xs)))"
  using dec_while_append [of "\<lambda>_. True" "tombstones_body vu" stone_bytes "\<lambda>e. \<lparr>st_Ref = fst e, st_Intervals = [snd e]\<rparr>"
      "stone_entries xs" acc] reads_stone
  by (simp add: Decoder_Tombstones_def Encoder_Tombstones_bytes)

lemma samplesV1_roundtrip:
  assumes "xs \<noteq> []"
  shows "Decoder_Samples vu (Encoder_samplesV1 xs []) cap acc =
    Some (Inr (with_capacity (length (concat (map (sampleV1_bytes (s_Ref (hd xs)) (s_T (hd xs))) xs))) cap acc
      @ map (\<lambda>x. x\<lparr>s_ST := 0\<rparr>) xs))"
proof -
  obtain first rest where xs: "xs = first # rest" using assms by (cases xs) auto
  let ?enc = "sampleV1_bytes (s_Ref first) (s_T first)"
  have "Encoder_samplesV1 xs [] = type_byte Samples # PutUint64 (s_Ref first) @ PutUint64 (s_T first) @ concat (map ?enc xs)"
    using appends_fold [of "put_sampleV1 first" ?enc xs, OF appends_entries(6)]
    by (simp add: xs Encoder_samplesV1_def appends_def Encbuf_defs Encbuf_Get_def Let_def)
  moreover have "dec_while (samplesV1_body vu (s_Ref first) (s_T first)) acc' \<lparr>db_B = concat (map ?enc xs), db_E = None\<rparr>
      = Some (Inr (acc' @ map (\<lambda>x. x\<lparr>s_ST := 0\<rparr>) xs), \<lparr>db_B = [], db_E = None\<rparr>)" for acc'
    by (rule dec_while_append [where P = "\<lambda>_. True"]) (simp_all add: reads_sampleV1)
  ultimately show ?thesis
    using readsD [OF reads_Be64, of "s_Ref first"] readsD [OF reads_fixed(4), of "s_T first"]
    by (simp add: xs Decoder_Samples_def Decoder_samplesV1_def Decbuf_Len_def bindD_def)
qed

lemma samplesV2_roundtrip:
  assumes "xs \<noteq> []"
  shows "Decoder_Samples vu (Encoder_samplesV2 xs []) cap [] = Some (Inr xs)"
proof -
  obtain first rest where xs: "xs = first # rest" using assms by (cases xs) auto
  let ?bytes = "enc_all v2_bytes v2_upd ([], 0, 0) xs"
  have u: "v2_upd ([], 0, 0) first = ([first], s_T first, s_ST first)" by (simp add: v2_upd_def)
  have "Encoder_samplesV2 xs [] = type_byte SamplesV2 # ?bytes"
    using appends_samplesV2 [of "[first]" first first rest]
    by (simp add: xs Encoder_samplesV2_def u v2_bytes_def [of "([], 0, 0)"] appends_def Encbuf_defs Encbuf_Get_def Let_def)
  moreover have "dec_while (samplesV2_body vu) ([], 0, 0) \<lparr>db_B = ?bytes, db_E = None\<rparr>
      = Some (Inr (foldl v2_upd ([], 0, 0) xs), \<lparr>db_B = [], db_E = None\<rparr>)"
    by (rule dec_while_reads [where P = "\<lambda>_. True" and Q = "\<lambda>_. True"]) (simp_all add: reads_sampleV2)
  moreover have "?bytes \<noteq> []" by (simp add: xs)
  ultimately show ?thesis
    using v2_fold [of "([], 0, 0)" xs]
    by (simp add: Decoder_Samples_def Decoder_samplesV2_def Decbuf_Len_def)
qed

lemma Samples_empty: "Decoder_Samples vu (Encoder_Samples e [] []) cap acc = Some (Inr acc)"
  by (simp add: Encoder_Samples_def Encoder_samplesV1_def Encoder_samplesV2_def Encbuf_defs Encbuf_Get_def Decoder_Samples_def
      Decoder_samplesV1_def Decoder_samplesV2_def Decbuf_Len_def)

lemma Exemplars_roundtrip:
  assumes "\<forall>x \<in> set xs. labels_ok (ex_Labels x)"
  shows "\<exists>b. Encoder_Exemplars xs [] = Some b \<and> Decoder_Exemplars vu b acc = Some (Inr (acc @ xs))"
proof (cases xs)
  case Nil
  then show ?thesis
    by (simp add: Encoder_Exemplars_def Encbuf_defs Encbuf_Get_def Decoder_Exemplars_def ExemplarsFromBuffer_def Decbuf_Len_def)
next
  case (Cons first rest)
  let ?enc = "exemplar_bytes (ex_Ref first) (ex_T first)"
  have "Encoder_Exemplars xs [] =
      Some (type_byte Exemplars # PutUint64 (ex_Ref first) @ PutUint64 (ex_T first) @ concat (map ?enc xs))"
    using appends_fold [of "put_exemplar first" ?enc xs, OF appends_entries(3)]
    by (simp add: Cons Encoder_Exemplars_def EncodeExemplarsIntoBuffer_def appends_def Encbuf_defs Encbuf_Get_def Let_def)
  moreover have "dec_while (exemplars_body vu (ex_Ref first) (ex_T first)) acc \<lparr>db_B = concat (map ?enc xs), db_E = None\<rparr>
      = Some (Inr (acc @ map id xs), \<lparr>db_B = [], db_E = None\<rparr>)"
    using assms by (intro dec_while_append [where P = "\<lambda>x. labels_ok (ex_Labels x)"]) (simp_all add: reads_exemplar)
  ultimately show ?thesis
    using readsD [OF reads_Be64, of "ex_Ref first"] readsD [OF reads_fixed(4), of "ex_T first"]
    by (simp add: Decoder_Exemplars_def ExemplarsFromBuffer_def Decbuf_Len_def bindD_def)
qed

lemma histV1_roundtrip:
  assumes dec: "\<And>h. hist_ok h \<Longrightarrow> reads decode (hb h) h" "\<And>h. hb h \<noteq> []" and enc: "\<And>h. appends (encode h) (hb h)"
    and ok: "\<forall>x \<in> set xs. hist_ok (h_H x)" and xs: "\<exists>x \<in> set xs. \<not> UsesCustomBuckets (h_H x)"
  shows "\<exists>b. enc_histV1 encode typ xs [] = (type_byte typ # b, filter (\<lambda>x. UsesCustomBuckets (h_H x)) xs) \<and>
    histV1 vu decode red \<lparr>db_B = b, db_E = None\<rparr> acc =
      Some (Inr (acc @ map (\<lambda>x. x\<lparr>h_ST := 0\<rparr>) (filter (\<lambda>x. \<not> UsesCustomBuckets (h_H x)) xs)))"
proof -
  obtain first rest where f: "xs = first # rest" using xs by (cases xs) auto
  have len: "length xs \<noteq> length (filter (\<lambda>x. UsesCustomBuckets (h_H x)) xs)"
    using xs length_filter_less [of _ xs "\<lambda>x. UsesCustomBuckets (h_H x)"] by auto
  let ?b = "PutUint64 (h_Ref first) @ PutUint64 (h_T first)
    @ concat (map (histV1_bytes hb (h_Ref first) (h_T first)) (filter (\<lambda>x. \<not> UsesCustomBuckets (h_H x)) xs))"
  have "enc_histV1 encode typ xs [] = (type_byte typ # ?b, filter (\<lambda>x. UsesCustomBuckets (h_H x)) xs)"
    unfolding enc_histV1_def f list.case Let_def put_histsV1_split [of encode hb, OF enc]
    using len by (simp add: f Encbuf_defs Encbuf_Get_def)
  moreover have "histV1 vu decode red \<lparr>db_B = ?b, db_E = None\<rparr> acc =
      Some (Inr (acc @ map (\<lambda>x. x\<lparr>h_ST := 0\<rparr>) (filter (\<lambda>x. \<not> UsesCustomBuckets (h_H x)) xs)))"
    using ok by (intro histV1_entries dec) auto
  ultimately show ?thesis by blast
qed

lemma customV1_roundtrip:
  assumes dec: "\<And>h. hist_ok h \<Longrightarrow> reads decode (hb h) h" "\<And>h. hb h \<noteq> []" and enc: "\<And>h. appends (encode h) (hb h)"
    and ok: "\<forall>x \<in> set xs. hist_ok (h_H x)"
  shows "\<exists>b. enc_customV1 encode typ xs [] = type_byte typ # b \<and>
    histV1 vu decode red \<lparr>db_B = b, db_E = None\<rparr> acc = Some (Inr (acc @ map (\<lambda>x. x\<lparr>h_ST := 0\<rparr>) xs))"
proof (cases xs)
  case Nil
  then show ?thesis by (simp add: enc_customV1_def histV1_def Decbuf_Len_def Encbuf_defs Encbuf_Get_def)
next
  case (Cons first rest)
  let ?b = "PutUint64 (h_Ref first) @ PutUint64 (h_T first) @ concat (map (histV1_bytes hb (h_Ref first) (h_T first)) xs)"
  have "enc_customV1 encode typ xs [] = type_byte typ # ?b"
    using appends_fold [of "put_histV1 encode first" "histV1_bytes hb (h_Ref first) (h_T first)" xs, OF appends_histV1 [OF enc]]
    by (simp add: Cons enc_customV1_def appends_def Encbuf_defs Encbuf_Get_def Let_def)
  moreover have "histV1 vu decode red \<lparr>db_B = ?b, db_E = None\<rparr> acc = Some (Inr (acc @ map (\<lambda>x. x\<lparr>h_ST := 0\<rparr>) xs))"
    using ok by (intro histV1_entries dec)
  ultimately show ?thesis by blast
qed

lemma histV2_roundtrip:
  assumes dec: "\<And>h. hist_ok h \<Longrightarrow> reads decode (hb h) h" "\<And>h. hb h \<noteq> []" and enc: "\<And>h. appends (encode h) (hb h)"
    and ok: "\<forall>x \<in> set xs. hist_ok (h_H x)"
  shows "\<exists>b. enc_histV2 encode typ xs [] = type_byte typ # b \<and> histV2 vu decode red \<lparr>db_B = b, db_E = None\<rparr> acc = Some (Inr (acc @ xs))"
proof (cases xs)
  case Nil
  then show ?thesis by (simp add: enc_histV2_def histV2_def Decbuf_Len_def Encbuf_defs Encbuf_Get_def)
next
  case (Cons first rest)
  let ?b = "PutVarint (h_Ref first) @ PutVarint (h_T first) @ PutVarint (h_ST first) @ hb (h_H first)
    @ enc_all (histV2_bytes hb (h_T first) (h_ST first)) histV2_upd (acc @ [first], Some (h_Ref first, h_ST first)) rest"
  have "enc_histV2 encode typ xs [] = type_byte typ # ?b"
    using appends_histsV2 [of encode hb first first rest "acc @ [first]", OF enc] enc [of "h_H first"]
    by (simp add: Cons enc_histV2_def appends_def Encbuf_defs Encbuf_Get_def Let_def)
  moreover have "histV2 vu decode red \<lparr>db_B = ?b, db_E = None\<rparr> acc = Some (Inr (acc @ first # rest))"
    using ok dec by (intro histV2_entries) (auto simp: Cons)
  ultimately show ?thesis using Cons by blast
qed

end

section \<open>Every input\<close>

lemma mono_map: "dec_mono m \<Longrightarrow> dec_mono (mapD g m)"
  unfolding mapD_def by (intro mono_bind mono_return)

lemma total_map: "dec_total m \<Longrightarrow> dec_total (mapD g m)"
  unfolding mapD_def by (intro total_bind total_return)

lemma mono_repeat: "dec_mono m \<Longrightarrow> dec_mono (repeatD n m)"
  by (induction n) (simp_all add: mono_return mono_bind)

lemma total_repeat: "dec_total m \<Longrightarrow> dec_total (repeatD n m)"
  by (induction n) (simp_all add: total_return total_bind)

lemmas mono_ops = strict_fixed [THEN dec_strict_mono] strict_varint [THEN dec_strict_mono] mono_UvarintBytes [THEN dec_strict_mono]

lemma mono_dec_list: "dec_mono m \<Longrightarrow> dec_mono (dec_list vu m)"
  unfolding dec_list_def Decbuf_Uvarint_def by (intro mono_bind mono_repeat mono_ops)

lemma mono_labels: "dec_mono (DecodeLabels vu)"
  unfolding DecodeLabels_def decode_label_def by (intro mono_dec_list mono_bind mono_return mono_ops)

lemma mono_STMarker: "dec_mono (readSTMarker vu p f)"
  unfolding readSTMarker_def by (intro mono_bind mono_ops) (auto intro!: mono_return mono_bind mono_ops)

lemma mono_hist: "dec_mono count \<Longrightarrow> dec_mono bucket \<Longrightarrow> dec_mono (decode_hist vu count bucket)"
  unfolding decode_hist_def decode_span_def Decbuf_Uvarint32_def Decbuf_Be64Float64_def
  by (intro mono_bind mono_dec_list mono_map mono_ops mono_return) (auto intro!: mono_dec_list mono_return mono_ops)

lemma strict_hist: "dec_mono count \<Longrightarrow> dec_mono bucket \<Longrightarrow> dec_strict (decode_hist vu count bucket)"
  unfolding decode_hist_def decode_span_def Decbuf_Uvarint32_def Decbuf_Be64Float64_def
  by (rule strict_bind [OF strict_fixed(1)], intro mono_bind mono_dec_list mono_map mono_ops mono_return)
    (auto intro!: mono_dec_list mono_return mono_ops)

text \<open>Each round of every decoder loop makes progress, so the loops are the loops of the source (\<open>dec_while_unfold\<close>).\<close>

lemma strict_bodies:
  "dec_strict (series_body vu s1)" "dec_strict (metadata_body vu s2)" "dec_strict (samplesV1_body vu r t s3)"
  "dec_strict (tombstones_body vu s5)" "dec_strict (exemplars_body vu r t s6)" "dec_strict (markers_body s7)"
  unfolding series_body_def metadata_body_def samplesV1_body_def tombstones_body_def exemplars_body_def markers_body_def
    metadata_field_def Decbuf_UvarintStr_def
  by (intro strict_bind strict_fixed strict_varint mono_bind mono_ops mono_return mono_labels mono_dec_list;
      simp add: mono_return split: prod.splits)+

lemma strict_samplesV2: "dec_strict (samplesV2_body vu s)"
proof -
  obtain acc firstT firstST where s: "s = (acc, firstT, firstST)" by (rule prod_cases3)
  show ?thesis
    unfolding s samplesV2_body_def Let_def prod.case
    by (cases "acc = []") (auto intro!: strict_bind strict_varint mono_bind mono_ops mono_return mono_STMarker split: prod.splits)
qed

lemma bindD_returnD: "bindD (returnD x) g = g x"
  by (simp add: fun_eq_iff bindD_def returnD_def)

lemma strict_histV1: "dec_strict decode \<Longrightarrow> dec_strict (histV1_body vu decode red r t s)"
  unfolding histV1_body_def by (intro strict_bind strict_varint mono_bind mono_ops mono_return) (simp add: dec_strict_mono)

lemma strict_histV2: "dec_strict decode \<Longrightarrow> dec_strict (histV2_body vu decode red r t st s)"
proof -
  assume d: "dec_strict decode"
  obtain acc prev where s: "s = (acc, prev)" by (cases s)
  have tail: "dec_strict (bindD decode (\<lambda>h. returnD (f h)))" for f
    by (intro strict_bind d mono_return)
  show ?thesis
  proof (cases prev)
    case None
    then show ?thesis using tail by (simp add: s histV2_body_def bindD_returnD)
  next
    case (Some p)
    then show ?thesis
      unfolding s Some histV2_body_def Let_def prod.case option.case
      by (cases p) (auto intro!: strict_bind strict_varint mono_bind mono_ops mono_return mono_STMarker dec_strict_mono [OF tail]
          split: prod.splits)
  qed
qed

context varint_lib
begin

lemmas total_ops = total_fixed total_varint

lemma total_bodies:
  "dec_total (samplesV1_body vu r t s3)" "dec_total (samplesV2_body vu s4)" "dec_total (tombstones_body vu s5)" "dec_total (markers_body s7)"
  unfolding samplesV1_body_def samplesV2_body_def tombstones_body_def markers_body_def readSTMarker_def Let_def
  by (auto intro!: total_bind total_return total_ops split: prod.splits)

end

lemma enc_histV1_all_custom:
  assumes "xs \<noteq> []" "\<forall>x \<in> set xs. UsesCustomBuckets (h_H x)" "\<And>h. appends (encode h) (hb h)"
  shows "enc_histV1 encode typ xs [] = ([], xs)"
proof -
  obtain first rest where f: "xs = first # rest" using assms(1) by (cases xs) auto
  have "filter (\<lambda>x. UsesCustomBuckets (h_H x)) xs = xs" "filter (\<lambda>x. \<not> UsesCustomBuckets (h_H x)) xs = []"
    using assms(2) by (simp_all add: filter_empty_conv)
  then show ?thesis
    unfolding enc_histV1_def f list.case Let_def put_histsV1_split [of encode hb, OF assms(3)]
    by (simp add: Encbuf_Get_def Encbuf_Reset_def)
qed

text \<open>The V1 encoders: which histograms go into which record, and that both records decode to them.\<close>

context varint_lib
begin

lemma histV1_split_roundtrip:
  assumes dec: "\<And>h. hist_ok h \<Longrightarrow> reads decode (hb h) h" "\<And>h. hb h \<noteq> []" and enc: "\<And>h. appends (encode h) (hb h)"
    and ok: "\<forall>x \<in> set xs. hist_ok (h_H x)"
  shows "snd (enc_histV1 encode typ xs []) = filter (\<lambda>x. UsesCustomBuckets (h_H x)) xs \<and>
    (fst (enc_histV1 encode typ xs []) = [] \<longleftrightarrow> xs \<noteq> [] \<and> (\<forall>x \<in> set xs. UsesCustomBuckets (h_H x))) \<and>
    (\<forall>t b. fst (enc_histV1 encode typ xs []) = t # b \<longrightarrow> t = type_byte typ \<and>
      histV1 vu decode red \<lparr>db_B = b, db_E = None\<rparr> acc =
        Some (Inr (acc @ map (\<lambda>x. x\<lparr>h_ST := 0\<rparr>) (filter (\<lambda>x. \<not> UsesCustomBuckets (h_H x)) xs))))"
proof -
  consider "xs = []" | "xs \<noteq> []" "\<forall>x \<in> set xs. UsesCustomBuckets (h_H x)" | "\<exists>x \<in> set xs. \<not> UsesCustomBuckets (h_H x)" by blast
  then show ?thesis
  proof cases
    case 1
    then show ?thesis by (simp add: enc_histV1_def histV1_def Decbuf_Len_def Encbuf_defs Encbuf_Get_def)
  next
    case 2
    then show ?thesis using enc_histV1_all_custom [of xs encode hb "typ", OF 2 enc] by (auto simp: filter_id_conv)
  next
    case 3
    then show ?thesis
      using histV1_roundtrip [of decode hb encode xs "typ" red acc, OF dec enc ok 3] by auto
  qed
qed

end

definition hist_record ::
  "Type \<Rightarrow> Type \<Rightarrow> Type \<Rightarrow> (byte list \<Rightarrow> uint64 \<times> int) \<Rightarrow> 'c histogram dec \<Rightarrow> ('c histogram \<Rightarrow> int32 \<Rightarrow> go_error + 'c histogram) \<Rightarrow>
    byte list \<Rightarrow> 'c RefHist list \<Rightarrow> (record_error + 'c RefHist list) option" where
  "hist_record t1 tc t2 vu decode red rec acc = with_type rec (\<lambda>t dec.
     if t = type_byte t1 \<or> t = type_byte tc then histV1 vu decode red dec acc
     else if t = type_byte t2 then histV2 vu decode red dec acc
     else Some (Inl InvalidRecordType))"

lemma hist_record_decoders:
  "Decoder_HistogramSamples vu =
    hist_record HistogramSamples CustomBucketsHistogramSamples HistogramSamplesV2 vu (DecodeHistogram vu) Histogram_ReduceResolution"
  "Decoder_FloatHistogramSamples fadd vu =
    hist_record FloatHistogramSamples CustomBucketsFloatHistogramSamples FloatHistogramSamplesV2 vu (DecodeFloatHistogram vu)
      (FloatHistogram_ReduceResolution fadd)"
  unfolding hist_record_def Decoder_HistogramSamples_def Decoder_FloatHistogramSamples_def histogramSamplesV1_dec_def
    histogramSamplesV2_dec_def floatHistogramSamplesV1_dec_def floatHistogramSamplesV2_dec_def
  by (rule refl, rule refl)

context varint_lib
begin

lemma int_hist_codec:
  "appends (EncodeHistogram h) (hist_bytes PutUvarint (\<lambda>c. PutVarint (int_count c)) h)"
  "hist_ok h \<Longrightarrow> reads (DecodeHistogram vu) (hist_bytes PutUvarint (\<lambda>c. PutVarint (int_count c)) h) h"
  unfolding EncodeHistogram_def DecodeHistogram_def by (rule ih.put_hist, rule ih.reads_hist)

lemma float_hist_codec:
  "appends (EncodeFloatHistogram fh) (hist_bytes PutUint64 (\<lambda>c. PutUint64 (float_count c)) fh)"
  "hist_ok fh \<Longrightarrow> reads (DecodeFloatHistogram vu) (hist_bytes PutUint64 (\<lambda>c. PutUint64 (float_count c)) fh) fh"
  unfolding EncodeFloatHistogram_def DecodeFloatHistogram_def by (rule fh.put_hist, rule fh.reads_hist)

lemma hist_record_roundtrip:
  assumes dec: "\<And>h. hist_ok h \<Longrightarrow> reads decode (hb h) h" "\<And>h. hb h \<noteq> []" and enc: "\<And>h. appends (encode h) (hb h)"
    and ty: "type_byte t2 \<noteq> type_byte t1" "type_byte t2 \<noteq> type_byte tc"
    and ok: "\<forall>x \<in> set xs. hist_ok (h_H x)"
    and b: "(if st then (enc_histV2 encode t2 xs [], []) else enc_histV1 encode t1 xs []) = (b, custom)"
  shows "custom = (if st then [] else filter (\<lambda>x. UsesCustomBuckets (h_H x)) xs) \<and>
    (b = [] \<longleftrightarrow> \<not> st \<and> xs \<noteq> [] \<and> (\<forall>x \<in> set xs. UsesCustomBuckets (h_H x))) \<and>
    (b \<noteq> [] \<longrightarrow> hist_record t1 tc t2 vu decode red b acc = Some (Inr (acc @
      (if st then xs else map (\<lambda>x. x\<lparr>h_ST := 0\<rparr>) (filter (\<lambda>x. \<not> UsesCustomBuckets (h_H x)) xs))))) \<and>
    hist_record t1 tc t2 vu decode red (if st then enc_histV2 encode t2 custom [] else enc_customV1 encode tc custom []) acc =
      Some (Inr (acc @ map (\<lambda>x. x\<lparr>h_ST := 0\<rparr>) custom))"
proof (cases st)
  case True
  obtain b2 where b2: "enc_histV2 encode t2 xs [] = type_byte t2 # b2"
      "histV2 vu decode red \<lparr>db_B = b2, db_E = None\<rparr> acc = Some (Inr (acc @ xs))"
    using histV2_roundtrip [of decode hb encode xs t2 red acc, OF dec enc ok] by blast
  moreover have "enc_histV2 encode t2 [] [] = [type_byte t2]" "histV2 vu decode red \<lparr>db_B = [], db_E = None\<rparr> acc = Some (Inr acc)"
    by (simp_all add: enc_histV2_def histV2_def Decbuf_Len_def Encbuf_defs Encbuf_Get_def)
  moreover have "b = type_byte t2 # b2" "custom = []" using b b2 True by simp_all
  ultimately show ?thesis using True ty by (simp add: hist_record_def)
next
  case False
  then have e: "enc_histV1 encode t1 xs [] = (b, custom)" using b by simp
  note sp = histV1_split_roundtrip [of decode hb encode xs t1 red acc, OF dec enc ok, unfolded e fst_conv snd_conv]
  have "\<forall>x \<in> set custom. hist_ok (h_H x)" using sp ok by auto
  from customV1_roundtrip [of decode hb encode custom tc red acc, OF dec enc this]
  obtain bc where "enc_customV1 encode tc custom [] = type_byte tc # bc"
      "histV1 vu decode red \<lparr>db_B = bc, db_E = None\<rparr> acc = Some (Inr (acc @ map (\<lambda>x. x\<lparr>h_ST := 0\<rparr>) custom))" by blast
  moreover have "hist_record t1 tc t2 vu decode red b acc = Some (Inr (acc @ map (\<lambda>x. x\<lparr>h_ST := 0\<rparr>)
      (filter (\<lambda>x. \<not> UsesCustomBuckets (h_H x)) xs)))" if "b \<noteq> []"
    using sp that by (cases b) (auto simp: hist_record_def)
  ultimately show ?thesis using sp False by (auto simp: hist_record_def)
qed

end

context varint_lib
begin

lemma finish_None_iff: "finish wrap r = None \<longleftrightarrow> r = None"
  by (auto simp: finish_def split: sum.splits option.splits)

lemma with_type_total: "(\<And>t d. f t d \<noteq> None) \<Longrightarrow> with_type rec f \<noteq> None"
  using total_fixed(1) by (auto simp: with_type_def dec_total_def split: option.splits)

lemma Samples_total: "Decoder_Samples vu rec cap samples \<noteq> None"
proof -
  have "dec_total (\<lambda>d. dec_while (samplesV1_body vu r t) (f d) d)" for r t f
    unfolding dec_total_def using dec_while_total [of "samplesV1_body vu r t", OF strict_bodies(3) total_bodies(1)] by blast
  then have "dec_total (bindD Decbuf_Be64 (\<lambda>baseRef. bindD Decbuf_Be64int64 (\<lambda>baseTime d.
      dec_while (samplesV1_body vu baseRef baseTime) (with_capacity (Decbuf_Len d) cap samples) d)))"
    unfolding Decbuf_Be64int64_def by (intro total_bind total_fixed)
  moreover have "dec_while (samplesV2_body vu) s d \<noteq> None" for s d
    by (rule dec_while_total [OF strict_samplesV2 total_bodies(2)])
  ultimately show ?thesis
    unfolding Decoder_Samples_def Decoder_samplesV1_def Decoder_samplesV2_def
    by (intro with_type_total) (simp add: dec_total_def finish_None_iff del: not_None_eq)
qed

lemma Tombstones_total: "Decoder_Tombstones vu rec stones \<noteq> None"
  unfolding Decoder_Tombstones_def
  using dec_while_total [of "tombstones_body vu", OF strict_bodies(4) total_bodies(3)]
  by (intro with_type_total) (simp add: finish_None_iff del: not_None_eq)

lemma MmapMarkers_total: "Decoder_MmapMarkers rec markers \<noteq> None"
  unfolding Decoder_MmapMarkers_def
  using dec_while_total [of markers_body, OF strict_bodies(6) total_bodies(4)]
  by (intro with_type_total) (simp add: finish_None_iff del: not_None_eq)

end

lemma unat_exp_64: "unat (2 ^ 63 :: uint64) = 2 ^ 63"
  by simp

section \<open>Properties\<close>

text \<open>
  C24. Decoding an encoded samples record gives the samples back, with the start timestamps when
  the V2 record is enabled and with zero start timestamps for V1.
\<close>

theorem wal_samples_roundtrip:
  assumes "varint_lib vu"
  shows "Decoder_Samples vu (Encoder_Samples e xs []) cap [] =
    Some (Inr (if EnableSTStorage e then xs else map (\<lambda>x. x\<lparr>s_ST := 0\<rparr>) xs))"
  using varint_lib.samplesV1_roundtrip [OF assms, of xs cap "[]"] varint_lib.samplesV2_roundtrip [OF assms, of xs cap]
    varint_lib.Samples_empty [OF assms, of e cap "[]"]
  by (cases "xs = []") (simp_all add: Encoder_Samples_def)

definition ex_samples :: "RefSample list" where
  "ex_samples = [\<lparr>s_Ref = 7, s_ST = 100, s_T = 1000, s_V = 42\<rparr>, \<lparr>s_Ref = 3, s_ST = 100, s_T = 900, s_V = 43\<rparr>]"

theorem wal_samples_roundtrip_witness:
  "varint_lib Uvarint \<and> Decoder_Samples Uvarint (Encoder_Samples \<lparr>EnableSTStorage = True\<rparr> ex_samples []) 0 [] = Some (Inr ex_samples)"
  using stdlib.varint_lib_axioms wal_samples_roundtrip [of Uvarint "\<lparr>EnableSTStorage = True\<rparr>" ex_samples 0] by simp

text \<open>
  C27. Decoding an encoded series record appends exactly the encoded series with their labels.
\<close>

theorem wal_series_roundtrip:
  assumes "varint_lib vu" "\<forall>x \<in> set xs. labels_ok (rs_Labels x)"
  shows "Decoder_Series vu (Encoder_Series xs []) acc = Some (Inr (acc @ xs))"
  using assms by (rule varint_lib.Series_roundtrip)

definition ex_labels :: Labels where
  "ex_labels = [\<lparr>Name = [0x61], Value = [0x62, 0x63]\<rparr>, \<lparr>Name = [0x7a], Value = []\<rparr>]"

lemma ex_labels_ok: "labels_ok ex_labels"
  by (simp add: ex_labels_def labels_ok_def label_ok_def)

theorem wal_series_roundtrip_witness:
  "Decoder_Series Uvarint (Encoder_Series [\<lparr>rs_Ref = 5, rs_Labels = ex_labels\<rparr>] []) [] = Some (Inr [\<lparr>rs_Ref = 5, rs_Labels = ex_labels\<rparr>])"
  using wal_series_roundtrip [OF stdlib.varint_lib_axioms, of "[\<lparr>rs_Ref = 5, rs_Labels = ex_labels\<rparr>]" "[]"] ex_labels_ok by simp

text \<open>
  Decoding an encoded metadata record appends exactly the encoded metadata.
\<close>

theorem wal_metadata_roundtrip:
  assumes "varint_lib vu" "\<forall>x \<in> set xs. metadata_ok x"
  shows "Decoder_Metadata vu (Encoder_Metadata xs []) acc = Some (Inr (acc @ xs))"
  using assms by (rule varint_lib.Metadata_roundtrip)

definition ex_metadata :: RefMetadata where
  "ex_metadata = \<lparr>md_Ref = 300, md_Type = 1, md_Unit = [0x73], md_Help = [0x68, 0x69]\<rparr>"

text \<open>
  Encoding exemplars does not panic and decoding the record appends exactly the encoded
  exemplars.
\<close>

theorem wal_exemplars_roundtrip:
  assumes "varint_lib vu" "\<forall>x \<in> set xs. labels_ok (ex_Labels x)"
  shows "\<exists>b. Encoder_Exemplars xs [] = Some b \<and> Decoder_Exemplars vu b acc = Some (Inr (acc @ xs))"
  using assms by (rule varint_lib.Exemplars_roundtrip)

definition ex_exemplar :: RefExemplar where
  "ex_exemplar = \<lparr>ex_Ref = 9, ex_T = 1234, ex_V = 77, ex_Labels = ex_labels\<rparr>"

text \<open>
  Decoding an encoded tombstones record gives one stone per interval, in order: the
  grouping of intervals by series is not kept.
\<close>

theorem wal_tombstones_roundtrip:
  assumes "varint_lib vu"
  shows "Decoder_Tombstones vu (Encoder_Tombstones xs []) acc =
    Some (Inr (acc @ concat (map (\<lambda>s. map (\<lambda>iv. \<lparr>st_Ref = st_Ref s, st_Intervals = [iv]\<rparr>) (st_Intervals s)) xs)))"
proof -
  have "map (\<lambda>e. \<lparr>st_Ref = fst e, st_Intervals = [snd e]\<rparr>) (stone_entries xs) =
      concat (map (\<lambda>s. map (\<lambda>iv. \<lparr>st_Ref = st_Ref s, st_Intervals = [iv]\<rparr>) (st_Intervals s)) xs)"
    by (induction xs) (simp_all add: stone_entries_def)
  then show ?thesis using varint_lib.Tombstones_roundtrip [OF assms, of xs acc] by simp
qed

definition ex_stone :: Stone where
  "ex_stone = \<lparr>st_Ref = 4, st_Intervals = [\<lparr>Mint = 1, Maxt = 5\<rparr>, \<lparr>Mint = 9, Maxt = 12\<rparr>]\<rparr>"

text \<open>
  Decoding an encoded record of mmap markers appends exactly the encoded markers.
\<close>

theorem wal_mmap_markers_roundtrip: "Decoder_MmapMarkers (Encoder_MmapMarkers xs []) acc = Some (Inr (acc @ xs))"
  by (rule stdlib.MmapMarkers_roundtrip)

text \<open>
  C26. A histogram record holds the histograms it was given: V2 all of them, V1 those without
  custom buckets, which it returns to the caller for a record of their own; both decode to what
  was encoded.
\<close>

theorem wal_histograms_roundtrip:
  assumes "varint_lib vu" "\<forall>x \<in> set xs. hist_ok (h_H x)" "Encoder_HistogramSamples e xs [] = (b, custom)"
  shows "custom = (if EnableSTStorage e then [] else filter (\<lambda>x. UsesCustomBuckets (h_H x)) xs) \<and>
    (b = [] \<longleftrightarrow> \<not> EnableSTStorage e \<and> xs \<noteq> [] \<and> (\<forall>x \<in> set xs. UsesCustomBuckets (h_H x))) \<and>
    (b \<noteq> [] \<longrightarrow> Decoder_HistogramSamples vu b acc = Some (Inr (acc @
      (if EnableSTStorage e then xs else map (\<lambda>x. x\<lparr>h_ST := 0\<rparr>) (filter (\<lambda>x. \<not> UsesCustomBuckets (h_H x)) xs))))) \<and>
    Decoder_HistogramSamples vu (Encoder_CustomBucketsHistogramSamples e custom []) acc = Some (Inr (acc @ map (\<lambda>x. x\<lparr>h_ST := 0\<rparr>) custom))"
proof -
  note r = varint_lib.hist_record_roundtrip [OF assms(1), of "DecodeHistogram vu" "hist_bytes PutUvarint (\<lambda>c. PutVarint (int_count c))"
      EncodeHistogram HistogramSamplesV2 HistogramSamples CustomBucketsHistogramSamples xs "EnableSTStorage e" b custom Histogram_ReduceResolution acc]
  show ?thesis
    using r [OF varint_lib.int_hist_codec(2) [OF assms(1)] hist_bytes_nonempty varint_lib.int_hist_codec(1) [OF assms(1)] _ _ assms(2)] assms(3)
    unfolding hist_record_decoders Encoder_HistogramSamples_def Encoder_CustomBucketsHistogramSamples_def histogramSamplesV1_enc_def histogramSamplesV2_enc_def customBucketsHistogramSamplesV1_def
    by simp
qed

definition ex_hist :: "'c list \<Rightarrow> 'c RefHist" where
  "ex_hist bs = \<lparr>h_Ref = 11, h_ST = 0, h_T = 2000, h_H = \<lparr>CounterResetHint = 1, Schema = 3, ZeroThreshold = 1, ZeroCount = 2, Count = 9,
     Sum = 18, PositiveSpans = [\<lparr>Offset = -2, Length = 2\<rparr>], NegativeSpans = [], PositiveBuckets = bs, NegativeBuckets = [],
     CustomValues = []\<rparr>\<rparr>"

lemma ex_hist_ok: "length bs < 10 \<Longrightarrow> hist_ok (h_H (ex_hist bs))" "\<not> UsesCustomBuckets (h_H (ex_hist bs))"
  by (simp_all add: ex_hist_def hist_ok_def IsKnownSchema_def IsCustomBucketsSchema_def CustomBucketsSchema_def
      IsExponentialSchemaReserved_def ExponentialSchemaMinReserved_def ExponentialSchemaMaxReserved_def ExponentialSchemaMax_def
      UsesCustomBuckets_def word_sle_eq word_sless_alt)

theorem wal_histograms_roundtrip_witness:
  "\<exists>b. Encoder_HistogramSamples \<lparr>EnableSTStorage = False\<rparr> [ex_hist [IntBucket 4, IntBucket (-1)]] [] = (b, []) \<and> b \<noteq> [] \<and>
    Decoder_HistogramSamples Uvarint b [] = Some (Inr [(ex_hist [IntBucket 4, IntBucket (-1)])\<lparr>h_ST := 0\<rparr>])"
proof -
  let ?x = "ex_hist [IntBucket 4, IntBucket (-1)]"
  obtain b custom where e: "Encoder_HistogramSamples \<lparr>EnableSTStorage = False\<rparr> [?x] [] = (b, custom)" by (rule prod.exhaust)
  from wal_histograms_roundtrip [OF stdlib.varint_lib_axioms _ this, of "[]"] show ?thesis
    using ex_hist_ok [of "[IntBucket 4, IntBucket (-1)]"] e by auto
qed

text \<open>
  The same for float histogram records, for any float addition.
\<close>

theorem wal_float_histograms_roundtrip:
  assumes "varint_lib vu" "\<forall>x \<in> set xs. hist_ok (h_H x)" "Encoder_FloatHistogramSamples e xs [] = (b, custom)"
  shows "custom = (if EnableSTStorage e then [] else filter (\<lambda>x. UsesCustomBuckets (h_H x)) xs) \<and>
    (b = [] \<longleftrightarrow> \<not> EnableSTStorage e \<and> xs \<noteq> [] \<and> (\<forall>x \<in> set xs. UsesCustomBuckets (h_H x))) \<and>
    (b \<noteq> [] \<longrightarrow> Decoder_FloatHistogramSamples fadd vu b acc = Some (Inr (acc @
      (if EnableSTStorage e then xs else map (\<lambda>x. x\<lparr>h_ST := 0\<rparr>) (filter (\<lambda>x. \<not> UsesCustomBuckets (h_H x)) xs))))) \<and>
    Decoder_FloatHistogramSamples fadd vu (Encoder_CustomBucketsFloatHistogramSamples e custom []) acc = Some (Inr (acc @ map (\<lambda>x. x\<lparr>h_ST := 0\<rparr>) custom))"
proof -
  note r = varint_lib.hist_record_roundtrip [OF assms(1), of "DecodeFloatHistogram vu" "hist_bytes PutUint64 (\<lambda>c. PutUint64 (float_count c))"
      EncodeFloatHistogram FloatHistogramSamplesV2 FloatHistogramSamples CustomBucketsFloatHistogramSamples xs "EnableSTStorage e" b custom "FloatHistogram_ReduceResolution fadd" acc]
  show ?thesis
    using r [OF varint_lib.float_hist_codec(2) [OF assms(1)] hist_bytes_nonempty varint_lib.float_hist_codec(1) [OF assms(1)] _ _ assms(2)] assms(3)
    unfolding hist_record_decoders Encoder_FloatHistogramSamples_def Encoder_CustomBucketsFloatHistogramSamples_def floatHistogramSamplesV1_enc_def floatHistogramSamplesV2_enc_def customBucketsFloatHistogramSamplesV1_def
    by simp
qed

text \<open>
  The decoders of samples, tombstones and mmap markers return a value or an error on every
  byte sequence; they never panic.
\<close>

theorem wal_decoders_never_panic:
  assumes "varint_lib vu"
  shows "Decoder_Samples vu rec cap samples \<noteq> None \<and> Decoder_Tombstones vu rec stones \<noteq> None \<and> Decoder_MmapMarkers rec markers \<noteq> None"
  using assms by (intro conjI varint_lib.Samples_total varint_lib.Tombstones_total varint_lib.MmapMarkers_total)

text \<open>
  Decoder.Type recognises the type byte of every record type, and reports a known type only
  for a record that starts with its byte.
\<close>

theorem wal_type_dispatch:
  "Decoder_Type (type_byte ty # rest) = ty \<and> (Decoder_Type rec = Unknown \<or> (\<exists>bs. rec = type_byte (Decoder_Type rec) # bs))"
proof
  show "Decoder_Type (type_byte ty # rest) = ty" by (cases ty) (simp_all add: Decoder_Type_def)
  show "Decoder_Type rec = Unknown \<or> (\<exists>bs. rec = type_byte (Decoder_Type rec) # bs)"
  proof (cases rec)
    case (Cons t bs)
    let ?tys = "[Series, Samples, SamplesV2, TombstonesT, Exemplars, MmapMarkers, Metadata, HistogramSamples, FloatHistogramSamples,
      CustomBucketsHistogramSamples, CustomBucketsFloatHistogramSamples, HistogramSamplesV2, FloatHistogramSamplesV2]"
    have "type_byte x = t" if "filter (\<lambda>ty. type_byte ty = t) ?tys = x # xs" for x xs
      using filter_eq_ConsD [OF that] by blast
    then show ?thesis using Cons by (cases "filter (\<lambda>ty. type_byte ty = t) ?tys") (simp_all only: Decoder_Type_def list.case, blast+)
  qed (simp add: Decoder_Type_def)
qed

text \<open>
  The metric type conversions are inverse to each other on the eight known types;
  everything else becomes unknown.
\<close>

theorem metric_type_roundtrip:
  "ToMetricType (GetMetricType t) = (case t of MetricTypeOther _ \<Rightarrow> MetricTypeUnknown | _ \<Rightarrow> t) \<and>
   GetMetricType (ToMetricType m) = (if m \<le> 7 then m else 0)"
proof
  show "ToMetricType (GetMetricType t) = (case t of MetricTypeOther _ \<Rightarrow> MetricTypeUnknown | _ \<Rightarrow> t)"
    by (cases t) (simp_all add: ToMetricType_def)
  have "m \<in> {0, 1, 2, 3, 4, 5, 6, 7}" if "m \<le> 7"
  proof -
    have "unat m \<le> 7" using that by (simp add: word_le_nat_alt)
    then have "unat m \<in> set [0, 1, 2, 3, 4, 5, 6, 7]" by auto
    then have "(of_nat (unat m) :: uint8) \<in> of_nat ` set [0, 1, 2, 3, 4, 5, 6, 7]" by (rule imageI)
    then show ?thesis by simp
  qed
  then show "GetMetricType (ToMetricType m) = (if m \<le> 7 then m else 0)"
    by (auto simp: ToMetricType_def)
qed

text \<open>
  The series decoder panics on a record whose label length is 2^63.
\<close>

theorem wal_series_panics_on_huge_length:
  assumes "varint_lib vu" "length rest < 2 ^ 63"
  shows "Decoder_Series vu (type_byte Series # PutUint64 ref @ PutUvarint 1 @ PutUvarint (2 ^ 63) @ rest) acc = None"
proof -
  have "Decbuf_UvarintBytes vu \<lparr>db_B = PutUvarint (2 ^ 63) @ rest, db_E = None\<rparr> = None"
    using readsD [OF varint_lib.reads_Uvarint64 [OF assms(1)], of "2 ^ 63" rest] assms(2)
    by (subst varint_lib.UvarintBytes_panics_iff [OF assms(1)]) (auto simp: unat_exp_64)
  moreover have "rounds 1 = Suc 0" using rounds_length [of 1] by simp
  ultimately have "DecodeLabels vu \<lparr>db_B = PutUvarint 1 @ PutUvarint (2 ^ 63) @ rest, db_E = None\<rparr> = None"
    using readsD [OF varint_lib.reads_Uvarint [OF assms(1)], of 1 "PutUvarint (2 ^ 63) @ rest"]
    by (simp add: DecodeLabels_def dec_list_def decode_label_def bindD_def)
  then have "series_body vu acc \<lparr>db_B = PutUint64 ref @ PutUvarint 1 @ PutUvarint (2 ^ 63) @ rest, db_E = None\<rparr> = None"
    using readsD [OF reads_Be64, of ref] by (simp add: series_body_def bindD_def)
  then show ?thesis by (simp add: Decoder_Series_def dec_while.simps finish_def)
qed

text \<open>
  Decoding a V2 samples record into a non-empty slice reads the first reference as a
  difference to the last sample already there.
\<close>

theorem wal_samples_v2_append_shifts_ref:
  assumes "varint_lib vu" "acc \<noteq> []" "s_ST x = 0" "length (Encoder_samplesV2 [x] []) \<le> cap"
  shows "Decoder_Samples vu (Encoder_samplesV2 [x] []) cap acc = Some (Inr (acc @ [x\<lparr>s_Ref := s_Ref (last acc) + s_Ref x\<rparr>]))"
proof -
  let ?x = "x\<lparr>s_Ref := s_Ref (last acc) + s_Ref x\<rparr>"
  have z: "PutVarint 0 = [noST]" by (simp add: PutVarint_def zigzag_def PutUvarint.simps [of 0] noST_def)
  have b: "v2_bytes (acc, 0, 0) ?x = PutVarint (s_Ref x) @ PutVarint (s_T x) @ [noST] @ PutUint64 (s_V x)"
    using assms(2,3) by (simp add: v2_bytes_def st_bytes_def)
  have e: "Encoder_samplesV2 [x] [] = type_byte SamplesV2 # v2_bytes (acc, 0, 0) ?x"
    unfolding b using assms(3) z by (simp add: Encoder_samplesV2_def Encbuf_defs Encbuf_Get_def Let_def)
  have "dec_while (samplesV2_body vu) (acc, 0, 0) \<lparr>db_B = v2_bytes (acc, 0, 0) ?x @ [], db_E = None\<rparr>
      = dec_while (samplesV2_body vu) (v2_upd (acc, 0, 0) ?x) \<lparr>db_B = [], db_E = None\<rparr>"
    by (intro dec_while_step varint_lib.reads_sampleV2 [OF assms(1)]) simp
  also have "\<dots> = Some (Inr (acc @ [?x], 0, 0), \<lparr>db_B = [], db_E = None\<rparr>)"
    using assms(2) by (simp add: dec_while.simps v2_upd_def)
  finally have l: "dec_while (samplesV2_body vu) (acc, 0, 0) \<lparr>db_B = v2_bytes (acc, 0, 0) ?x, db_E = None\<rparr>
      = Some (Inr (acc @ [?x], 0, 0), \<lparr>db_B = [], db_E = None\<rparr>)" by simp
  have "length (v2_bytes (acc, 0, 0) ?x) div 10 \<le> cap"
    using assms(4) div_le_dividend [of "length (v2_bytes (acc, 0, 0) ?x)" 10] by (simp only: e list.size)
  with l show ?thesis
    by (simp add: e Decoder_Samples_def Decoder_samplesV2_def Decbuf_Len_def with_capacity_def)
qed

end
