(* ===== verification/TxRing.thy ===== *)
theory TxRing
  imports Go_Prelude
begin

text \<open>
  The ring of append ids of a series (\<open>txRing\<close> in \<open>tsdb/isolation.go\<close>): a growing ring buffer with
  32-bit positions. It implements a queue of ids; the contract \<open>id_queue\<close> is what its client in the
  head block relies on. \<open>None\<close> is an index or slice out of range or a division by zero.
\<close>

record txRing =
  txIDs :: "uint64 list"
  txIDFirst :: uint32
  txIDCount :: uint32

definition newTxRing :: "nat \<Rightarrow> txRing" where
  "newTxRing capacity = \<lparr>txIDs = replicate capacity 0, txIDFirst = 0, txIDCount = 0\<rparr>"

text \<open>Go's \<open>copy(dst[at:], src)\<close>.\<close>

definition copy_at :: "'a list \<Rightarrow> nat \<Rightarrow> 'a list \<Rightarrow> 'a list" where
  "copy_at dst at src = take at dst @ take (length dst - at) src @ drop (at + length src) dst"

definition txRing_grow :: "txRing \<Rightarrow> txRing option" where
  "txRing_grow txr =
     (let newLen = (if txIDCount txr * 2 = 0 then 4 else txIDCount txr * 2);
          newRing = replicate (unat newLen) 0;
          first = unat (txIDFirst txr)
      in if length (txIDs txr) < first then None
         else let tail = drop first (txIDs txr);
                  idx = min (length newRing) (length tail);
                  newRing = copy_at (copy_at newRing 0 tail) idx (take first (txIDs txr))
              in Some (txr\<lparr>txIDs := newRing, txIDFirst := 0\<rparr>))"

definition txRing_add :: "uint64 \<Rightarrow> txRing \<Rightarrow> txRing option" where
  "txRing_add appendID txr =
     Option.bind (if unat (txIDCount txr) = length (txIDs txr) then txRing_grow txr else Some txr) (\<lambda>txr.
       if txIDs txr = [] then None
       else Some (txr\<lparr>txIDs := (txIDs txr)[unat (txIDFirst txr + txIDCount txr) mod length (txIDs txr) := appendID],
              txIDCount := txIDCount txr + 1\<rparr>))"

function cleanup_loop :: "uint64 list \<Rightarrow> uint64 \<Rightarrow> nat \<Rightarrow> uint32 \<Rightarrow> uint32 \<Rightarrow> (uint32 \<times> uint32) option" where
  "cleanup_loop ids bound pos first count =
     (if count = 0 then Some (first, count)
      else if length ids \<le> pos then None
      else if bound \<le> ids ! pos then Some (first, count)
      else cleanup_loop ids bound (if pos + 1 = length ids then 0 else pos + 1) (first + 1) (count - 1))"
  by pat_completeness auto
termination
  by (relation "measure (\<lambda>(ids, bound, pos, first, count). unat count)") (simp_all add: unat_minus_one unat_gt_0 word_neq_0_conv)

declare cleanup_loop.simps [simp del]

definition cleanupAppendIDsBelow :: "uint64 \<Rightarrow> txRing \<Rightarrow> txRing option" where
  "cleanupAppendIDsBelow bound txr =
     (if txIDs txr = [] then Some txr
      else Option.bind (cleanup_loop (txIDs txr) bound (unat (txIDFirst txr)) (txIDFirst txr) (txIDCount txr)) (\<lambda>(first, count).
        let len = of_nat (length (txIDs txr)) :: uint32 in
        if len = 0 then None else Some (txr\<lparr>txIDFirst := first mod len, txIDCount := count\<rparr>)))"

record txRingIterator =
  it_ids :: "uint64 list"
  it_pos :: uint32

definition txRing_iterator :: "txRing \<Rightarrow> txRingIterator" where
  "txRing_iterator txr = \<lparr>it_ids = txIDs txr, it_pos = txIDFirst txr\<rparr>"

definition txRingIterator_At :: "txRingIterator \<Rightarrow> uint64 option" where
  "txRingIterator_At it = (if unat (it_pos it) < length (it_ids it) then Some (it_ids it ! unat (it_pos it)) else None)"

definition txRingIterator_Next :: "txRingIterator \<Rightarrow> txRingIterator" where
  "txRingIterator_Next it = (if unat (it_pos it + 1) = length (it_ids it) then it\<lparr>it_pos := 0\<rparr> else it\<lparr>it_pos := it_pos it + 1\<rparr>)"

section \<open>The queue it implements\<close>

definition tx_list :: "txRing \<Rightarrow> uint64 list" where
  "tx_list txr = take (unat (txIDCount txr)) (rotate (unat (txIDFirst txr)) (txIDs txr))"

definition tx_ok :: "txRing \<Rightarrow> bool" where
  "tx_ok txr \<longleftrightarrow> length (txIDs txr) \<le> 2 ^ 31 \<and> unat (txIDCount txr) \<le> length (txIDs txr) \<and>
     (if txIDs txr = [] then txIDFirst txr = 0 else unat (txIDFirst txr) < length (txIDs txr))"

lemma new_ring: "n \<le> 2 ^ 31 \<Longrightarrow> tx_ok (newTxRing n)" "tx_list (newTxRing n) = []"
  by (simp_all add: tx_ok_def tx_list_def newTxRing_def)

lemma tx_length: "tx_ok txr \<Longrightarrow> length (tx_list txr) = unat (txIDCount txr)"
  by (simp add: tx_ok_def tx_list_def)

lemma unat_add32: "unat a + unat b < 2 ^ 32 \<Longrightarrow> unat (a + b :: uint32) = unat a + unat b"
  by (subst unat_add_lem [symmetric]) simp

lemma grow_ok:
  assumes ok: "tx_ok txr" and full: "unat (txIDCount txr) = length (txIDs txr)" and small: "length (tx_list txr) \<le> 2 ^ 30"
  shows "\<exists>txr'. txRing_grow txr = Some txr' \<and> tx_ok txr' \<and> tx_list txr' = tx_list txr \<and> unat (txIDCount txr') < length (txIDs txr')"
proof -
  let ?n = "unat (txIDCount txr)" and ?ids = "txIDs txr" and ?f = "unat (txIDFirst txr)"
  have n: "?n \<le> 2 ^ 30" using small tx_length [OF ok] by simp
  define new where "new = (if txIDCount txr * 2 = 0 then 4 else txIDCount txr * 2)"
  have dbl: "unat (txIDCount txr * 2) = ?n * 2" using n by (subst unat_mult_lem [THEN iffD1]) simp_all
  moreover have "txIDCount txr * 2 = 0 \<or> 0 < ?n" by (cases "txIDCount txr = 0") (simp_all add: unat_gt_0)
  ultimately have new: "?n < unat new" "unat new \<le> 2 ^ 31" using n by (auto simp: new_def split: if_splits)
  have f: "?f \<le> length ?ids" using ok by (auto simp: tx_ok_def split: if_splits)
  have rot: "rotate ?f ?ids = drop ?f ?ids @ take ?f ?ids"
    using ok by (auto simp: rotate_drop_take tx_ok_def split: if_splits)
  let ?ring = "drop ?f ?ids @ take ?f ?ids @ replicate (unat new - ?n) 0"
  have "copy_at (copy_at (replicate (unat new) 0) 0 (drop ?f ?ids)) (min (unat new) (length ?ids - ?f)) (take ?f ?ids) = ?ring"
  proof -
    have "min (unat new) (length ?ids - ?f) = length ?ids - ?f" using new full by simp
    then show ?thesis using new full f by (simp add: copy_at_def)
  qed
  then have g: "txRing_grow txr = Some (txr\<lparr>txIDs := ?ring, txIDFirst := 0\<rparr>)"
    using f by (simp add: txRing_grow_def Let_def new_def [symmetric])
  moreover have "tx_list (txr\<lparr>txIDs := ?ring, txIDFirst := 0\<rparr>) = tx_list txr"
    using f full by (simp add: tx_list_def rot)
  moreover have "length ?ring = unat new" using f full new by simp
  ultimately show ?thesis using new by (auto simp: tx_ok_def)
qed

lemma mod_shift_le: "j \<le> k \<Longrightarrow> k < n \<Longrightarrow> (f + k) mod n = (f + j) mod n \<Longrightarrow> k = (j :: nat)"
  using mod_eq_dvd_iff_nat [of "f + j" "f + k" n] nat_dvd_not_less [of "k - j" n] by (cases "k - j = 0") auto

lemma mod_shift: "j < n \<Longrightarrow> k < n \<Longrightarrow> (f + j) mod n = (f + k) mod n \<longleftrightarrow> j = (k :: nat)"
  using mod_shift_le [of j k n f] mod_shift_le [of k j n f] by (cases "j \<le> k") auto

lemma rotate_update:
  assumes "k < length xs"
  shows "rotate f (xs[(f + k) mod length xs := x]) = (rotate f xs)[k := x]"
proof (rule nth_equalityI)
  fix j assume j: "j < length (rotate f (xs[(f + k) mod length xs := x]))"
  have "(f + j) mod length xs = (f + k) mod length xs \<longleftrightarrow> j = k"
    using assms j by (intro mod_shift) simp_all
  then show "rotate f (xs[(f + k) mod length xs := x]) ! j = (rotate f xs)[k := x] ! j"
    using j assms by (cases "j = k") (simp_all add: nth_rotate nth_list_update mod_less_divisor [OF order_le_less_trans [OF _ assms]])
qed simp

lemma add_room:
  assumes ok: "tx_ok txr" and room: "unat (txIDCount txr) < length (txIDs txr)"
  shows "\<exists>txr'. txRing_add x txr = Some txr' \<and> tx_ok txr' \<and> tx_list txr' = tx_list txr @ [x]"
proof -
  let ?c = "unat (txIDCount txr)" and ?ids = "txIDs txr" and ?f = "unat (txIDFirst txr)"
  have ne: "?ids \<noteq> []" using room by auto
  have b: "?f < length ?ids" "length ?ids \<le> 2 ^ 31" using ok ne by (simp_all add: tx_ok_def)
  have s: "unat (txIDFirst txr + txIDCount txr) = ?f + ?c" "unat (txIDCount txr + 1) = ?c + 1"
    using b room by (simp_all add: unat_add32)
  let ?r = "txr\<lparr>txIDs := ?ids[(?f + ?c) mod length ?ids := x], txIDCount := txIDCount txr + 1\<rparr>"
  have "txRing_add x txr = Some ?r" using room ne s by (simp add: txRing_add_def)
  moreover have "tx_list ?r = tx_list txr @ [x]"
    using room by (simp add: tx_list_def s rotate_update take_Suc_conv_app_nth)
  moreover have "tx_ok ?r" using room b s ne by (simp add: tx_ok_def)
  ultimately show ?thesis by blast
qed

lemma add_ok:
  assumes "tx_ok txr" "length (tx_list txr) \<le> 2 ^ 30"
  shows "\<exists>txr'. txRing_add x txr = Some txr' \<and> tx_ok txr' \<and> tx_list txr' = tx_list txr @ [x]"
proof (cases "unat (txIDCount txr) = length (txIDs txr)")
  case True
  from grow_ok [OF assms(1) this assms(2)] obtain t where
    t: "txRing_grow txr = Some t" "tx_ok t" "tx_list t = tx_list txr" "unat (txIDCount t) < length (txIDs t)" by blast
  then have "txRing_add x txr = txRing_add x t" using True by (simp add: txRing_add_def)
  with add_room [OF t(2,4), of x] t(3) show ?thesis by simp
next
  case False
  with assms(1) show ?thesis by (intro add_room) (auto simp: tx_ok_def)
qed

lemma rotate_step:
  assumes "p < length ids" "c < length ids"
  shows "take (Suc c) (rotate p ids) = ids ! p # take c (rotate (Suc p) ids)"
proof -
  obtain a xs where r: "rotate p ids = a # xs" using assms(1) by (cases "rotate p ids") auto
  then have "a = ids ! p" using nth_rotate [of 0 ids p] assms(1) by (cases "ids = []") auto
  moreover have "rotate (Suc p) ids = xs @ [a]" using r by simp
  moreover have "length xs = length ids - 1" using length_rotate [of p ids] r by simp
  ultimately show ?thesis using r assms(2) by simp
qed

lemma cleanup_loop_spec:
  assumes "pos = unat first mod length ids" "unat count \<le> length ids" "ids \<noteq> []" "unat first + unat count < 2 ^ 32"
  shows "\<exists>first' count'. cleanup_loop ids bound pos first count = Some (first', count') \<and> unat count' \<le> unat count \<and>
    take (unat count') (rotate (unat first') ids) = dropWhile (\<lambda>i. i < bound) (take (unat count) (rotate (unat first) ids))"
  using assms
proof (induction ids bound pos first count rule: cleanup_loop.induct)
  case (1 ids bound pos first count)
  have pos: "pos < length ids" using "1.prems" by simp
  have rot: "rotate (unat first) ids = rotate pos ids" using "1.prems"(1) rotate_conv_mod by metis
  show ?case
  proof (cases "count = 0")
    case True
    then show ?thesis by (simp add: cleanup_loop.simps)
  next
    case False
    define c where "c = unat (count - 1)"
    have c: "unat count = Suc c" using False by (simp add: c_def unat_minus_one unat_gt_0)
    have front: "take (unat count) (rotate (unat first) ids) = ids ! pos # take c (rotate (Suc pos) ids)"
      unfolding rot c using rotate_step [OF pos, of c] "1.prems"(2) c by simp
    show ?thesis
    proof (cases "bound \<le> ids ! pos")
      case True
      then show ?thesis using False pos front by (simp add: cleanup_loop.simps)
    next
      case lt: False
      let ?pos = "if pos + 1 = length ids then 0 else pos + 1"
      have f: "unat (first + 1) = unat first + 1" using "1.prems"(4) c by (simp add: unat_add32)
      have p: "?pos = unat (first + 1) mod length ids" unfolding f using "1.prems"(1) pos by (auto simp: mod_Suc)
      have "rotate (unat (first + 1)) ids = rotate (Suc pos) ids"
        unfolding f using "1.prems"(1) by (metis Suc_eq_plus1 mod_Suc_eq rotate_conv_mod)
      moreover have "cleanup_loop ids bound pos first count = cleanup_loop ids bound ?pos (first + 1) (count - 1)"
        using False lt pos by (simp add: cleanup_loop.simps [of ids bound pos])
      moreover obtain f' c' where "cleanup_loop ids bound ?pos (first + 1) (count - 1) = Some (f', c')" "unat c' \<le> c"
          "take (unat c') (rotate (unat f') ids) = dropWhile (\<lambda>i. i < bound) (take c (rotate (unat (first + 1)) ids))"
        using "1.IH" [OF False _ lt p] "1.prems" pos c f unfolding c_def [symmetric] by auto
      ultimately show ?thesis using front lt c by simp
    qed
  qed
qed

lemma cleanup_ok:
  assumes ok: "tx_ok txr"
  shows "\<exists>txr'. cleanupAppendIDsBelow bound txr = Some txr' \<and> tx_ok txr' \<and> tx_list txr' = dropWhile (\<lambda>i. i < bound) (tx_list txr)"
proof (cases "txIDs txr = []")
  case True
  then show ?thesis using ok by (simp add: cleanupAppendIDsBelow_def tx_list_def)
next
  case False
  let ?ids = "txIDs txr"
  have b: "unat (txIDFirst txr) < length ?ids" "length ?ids \<le> 2 ^ 31" "unat (txIDCount txr) \<le> length ?ids" using ok False by (simp_all add: tx_ok_def)
  then have "unat (txIDFirst txr) + unat (txIDCount txr) < 2 ^ 32" by simp
  from cleanup_loop_spec [OF _ b(3) False this, of "unat (txIDFirst txr)" bound] b(1) obtain f c where
    fc: "cleanup_loop ?ids bound (unat (txIDFirst txr)) (txIDFirst txr) (txIDCount txr) = Some (f, c)" "unat c \<le> unat (txIDCount txr)"
      "take (unat c) (rotate (unat f) ?ids) = dropWhile (\<lambda>i. i < bound) (tx_list txr)" by (auto simp: tx_list_def)
  define len where "len = (of_nat (length ?ids) :: uint32)"
  have len: "unat len = length ?ids" using b(2) by (simp add: len_def unat_of_nat)
  then have nz: "len \<noteq> 0" using False by auto
  have m: "unat (f mod len) = unat f mod length ?ids" by (simp add: unat_mod_distrib len)
  then have "rotate (unat (f mod len)) ?ids = rotate (unat f) ?ids" using rotate_conv_mod by metis
  then show ?thesis
    using fc b False nz m by (auto simp: cleanupAppendIDsBelow_def len_def [symmetric] tx_list_def tx_ok_def Let_def)
qed

section \<open>The contract of the queue\<close>

text \<open>
  A queue of append ids: \<open>add\<close> appends an id as long as there is room, \<open>cleanup\<close> drops ids from the
  front while they are below the bound.
\<close>

locale id_queue =
  fixes inv :: "'q \<Rightarrow> bool" and ids :: "'q \<Rightarrow> uint64 list" and add :: "uint64 \<Rightarrow> 'q \<Rightarrow> 'q option"
    and cleanup :: "uint64 \<Rightarrow> 'q \<Rightarrow> 'q option" and room :: nat
  assumes add_law: "inv q \<Longrightarrow> length (ids q) \<le> room \<Longrightarrow> \<exists>q'. add x q = Some q' \<and> inv q' \<and> ids q' = ids q @ [x]"
    and cleanup_law: "inv q \<Longrightarrow> \<exists>q'. cleanup b q = Some q' \<and> inv q' \<and> ids q' = dropWhile (\<lambda>i. i < b) (ids q)"
begin

text \<open>The client: every append adds its id to the queue and then drops what is below the low watermark.\<close>

fun run :: "(uint64 \<times> uint64) list \<Rightarrow> 'q \<Rightarrow> 'q option" where
  "run [] q = Some q"
| "run ((x, b) # ops) q = Option.bind (add x q) (\<lambda>q. Option.bind (cleanup b q) (run ops))"

lemma dropWhile_later: "(b :: uint64) \<le> b' \<Longrightarrow> dropWhile (\<lambda>i. i < b') (dropWhile (\<lambda>i. i < b) xs @ ys) = dropWhile (\<lambda>i. i < b') (xs @ ys)"
  by (induction xs) auto

lemma run_keeps:
  assumes "inv q" "sorted (map snd ops)" "length (ids q) + length ops \<le> room"
  shows "\<exists>q'. run ops q = Some q' \<and> inv q' \<and>
    ids q' = (if ops = [] then ids q else dropWhile (\<lambda>i. i < snd (last ops)) (ids q @ map fst ops))"
  using assms
proof (induction ops arbitrary: q)
  case (Cons op ops)
  obtain x b where op: "op = (x, b)" by (cases op)
  obtain q1 where q1: "add x q = Some q1" "inv q1" "ids q1 = ids q @ [x]" using add_law [of q x] Cons.prems by auto
  obtain q2 where q2: "cleanup b q1 = Some q2" "inv q2" "ids q2 = dropWhile (\<lambda>i. i < b) (ids q @ [x])"
    using cleanup_law [OF q1(2), of b] q1(3) by auto
  have "length (ids q2) + length ops \<le> room" using Cons.prems(3) length_dropWhile_le [of "\<lambda>i. i < b" "ids q @ [x]"] q2(3) by simp
  then obtain q' where q': "run ops q2 = Some q'" "inv q'"
      "ids q' = (if ops = [] then ids q2 else dropWhile (\<lambda>i. i < snd (last ops)) (ids q2 @ map fst ops))"
    using Cons.IH [OF q2(2)] Cons.prems(2) by auto
  have "ids q' = dropWhile (\<lambda>i. i < snd (last (op # ops))) (ids q @ map fst (op # ops))"
  proof (cases "ops = []")
    case False
    then have "b \<le> snd (last ops)" using Cons.prems(2) op last_in_set [OF False] by auto
    from dropWhile_later [OF this, of "ids q @ [x]" "map fst ops"] show ?thesis using q'(3) q2(3) False op by simp
  qed (use q' q2 op in simp)
  then show ?case using q1 q2 q' op by simp
qed simp

end

interpretation txq: id_queue tx_ok tx_list txRing_add cleanupAppendIDsBelow "2 ^ 30"
  by unfold_locales (simp_all add: add_ok cleanup_ok)

text \<open>The same client on the ring.\<close>

fun tx_run :: "(uint64 \<times> uint64) list \<Rightarrow> txRing \<Rightarrow> txRing option" where
  "tx_run [] txr = Some txr"
| "tx_run ((x, b) # ops) txr = Option.bind (txRing_add x txr) (\<lambda>txr. Option.bind (cleanupAppendIDsBelow b txr) (tx_run ops))"

lemma tx_run_eq: "txq.run ops txr = tx_run ops txr"
  by (induction ops arbitrary: txr) (auto simp: Option.bind_eq_None_conv split: Option.bind_splits)

text \<open>The iterator visits the ids of the ring in order.\<close>

fun tx_visit :: "nat \<Rightarrow> txRingIterator \<Rightarrow> uint64 list option" where
  "tx_visit 0 it = Some []"
| "tx_visit (Suc n) it = Option.bind (txRingIterator_At it) (\<lambda>x. map_option ((#) x) (tx_visit n (txRingIterator_Next it)))"

lemma visit_rotate:
  assumes "unat pos < length ids" "n \<le> length ids" "length ids \<le> 2 ^ 31"
  shows "tx_visit n \<lparr>it_ids = ids, it_pos = pos\<rparr> = Some (take n (rotate (unat pos) ids))"
  using assms
proof (induction n arbitrary: pos)
  case (Suc n)
  have s: "unat (pos + 1) = unat pos + 1" using Suc.prems by (simp add: unat_add32)
  let ?pos = "if unat pos + 1 = length ids then 0 else pos + 1"
  have "txRingIterator_Next \<lparr>it_ids = ids, it_pos = pos\<rparr> = \<lparr>it_ids = ids, it_pos = ?pos\<rparr>"
    by (simp add: txRingIterator_Next_def s)
  moreover have "rotate (unat ?pos) ids = rotate (Suc (unat pos)) ids"
    using rotate_conv_mod [of "Suc (unat pos)" ids] s by (auto simp: )
  moreover have "unat ?pos < length ids" using Suc.prems s by auto
  ultimately show ?case
    using Suc.IH [of ?pos] Suc.prems rotate_step [of "unat pos" ids n] by (simp add: txRingIterator_At_def)
qed simp

section \<open>Properties\<close>

text \<open>
  The ring buffer is a queue of append ids: for any appends, each followed by a clean-up with a
  low watermark that never decreases, starting with a ring of any capacity, no position runs out of
  range however often the ring grows and wraps around, and in the end the ring holds all ids added,
  in order, without the ones before the first id that is not below the last watermark.
\<close>

theorem tx_ring_runs:
  assumes "sorted (map snd ops)" "ops \<noteq> []" "length ops \<le> 2 ^ 30" "capacity \<le> 2 ^ 31"
  shows "\<exists>txr. tx_run ops (newTxRing capacity) = Some txr \<and> tx_list txr = dropWhile (\<lambda>i. i < snd (last ops)) (map fst ops)"
  using txq.run_keeps [of "newTxRing capacity" ops] assms new_ring by (auto simp: tx_run_eq)

text \<open>The iterator over a ring returns the ids it holds, in the order in which they were added.\<close>

theorem tx_ring_iterator:
  assumes "tx_ok txr" "n \<le> length (tx_list txr)"
  shows "tx_visit n (txRing_iterator txr) = Some (take n (tx_list txr))"
proof (cases "txIDs txr = []")
  case True
  then show ?thesis using assms by (simp add: tx_list_def)
next
  case False
  then show ?thesis
    using assms visit_rotate [of "txIDFirst txr" "txIDs txr" n] tx_length [OF assms(1)]
    by (simp add: tx_ok_def tx_list_def txRing_iterator_def min_absorb1)
qed

end
