(* ===== verification/Isolation.thy ===== *)
theory Isolation
  imports Go_Prelude
begin

text \<open>
  Read and write isolation of the head block, \<open>tsdb/isolation.go\<close>: the append transactions in
  flight, the reads in progress, and the ring of append ids each series keeps.

  The doubly linked lists live in explicit stores from addresses to nodes; address \<open>0\<close> is nil and
  never allocated, so that following it is \<open>None\<close>, the run-time panic. \<open>sync.Pool\<close> may return any
  node put back earlier or a new one: the caller of \<open>newAppendID\<close> says which. Every method takes its
  locks for its whole effect and is one step of the model. There is one \<open>isolation\<close>, so the pointer
  of an \<open>isolationState\<close> back to it is left out.
\<close>

section \<open>Stores of list nodes\<close>

type_synonym addr = nat

type_synonym 'n store = "addr \<rightharpoonup> 'n"

definition write_node :: "('n \<Rightarrow> 'n) \<Rightarrow> addr \<Rightarrow> 'n store \<Rightarrow> 'n store option" where
  "write_node f a h = map_option (\<lambda>n. h(a \<mapsto> f n)) (h a)"

text \<open>
  The pointer updates that take a node out of a ring and that put it behind the sentinel \<open>s\<close>. The
  fields are arguments: the two lists of the code link their nodes with the roles of \<open>next\<close> and
  \<open>prev\<close> exchanged.
\<close>

definition unlink ::
  "('n \<Rightarrow> addr) \<Rightarrow> ('n \<Rightarrow> addr) \<Rightarrow> (addr \<Rightarrow> 'n \<Rightarrow> 'n) \<Rightarrow> (addr \<Rightarrow> 'n \<Rightarrow> 'n) \<Rightarrow> addr \<Rightarrow> 'n store \<Rightarrow> 'n store option" where
  "unlink nx pv set_nx set_pv a h =
     Option.bind (h a) (\<lambda>n.
     Option.bind (write_node (set_nx (nx n)) (pv n) h) (\<lambda>h1.
     Option.bind (h1 a) (\<lambda>n1. write_node (set_pv (pv n1)) (nx n1) h1)))"

definition link_front ::
  "('n \<Rightarrow> addr) \<Rightarrow> (addr \<Rightarrow> 'n \<Rightarrow> 'n) \<Rightarrow> (addr \<Rightarrow> 'n \<Rightarrow> 'n) \<Rightarrow> addr \<Rightarrow> addr \<Rightarrow> 'n store \<Rightarrow> 'n store option" where
  "link_front nx set_nx set_pv s a h =
     Option.bind (h s) (\<lambda>n.
     Option.bind (write_node (\<lambda>m. set_nx (nx n) (set_pv s m)) a h) (\<lambda>h1.
     Option.bind (h1 s) (\<lambda>n1.
     Option.bind (write_node (set_pv a) (nx n1) h1) (write_node (set_nx a) s))))"

section \<open>The isolation state\<close>

record isolationState =
  is_maxAppendID :: uint64
  is_incompleteAppends :: "uint64 \<rightharpoonup> unit"
  is_lowWatermark :: uint64
  is_mint :: int64
  is_maxt :: int64
  is_next :: addr
  is_prev :: addr

record isolationAppender =
  ia_appendID :: uint64
  ia_minTime :: int64
  ia_prev :: addr
  ia_next :: addr

record isolation =
  iso_apps :: "isolationAppender store"
  iso_states :: "isolationState store"
  iso_free :: addr
  iso_appendsOpen :: "uint64 \<rightharpoonup> addr"
  iso_appendsOpenList :: addr
  iso_appendersPool :: "addr list"
  iso_readsOpen :: addr
  iso_disabled :: bool

definition newIsolation :: "bool \<Rightarrow> isolation" where
  "newIsolation disabled =
     \<lparr>iso_apps = [1 \<mapsto> \<lparr>ia_appendID = 0, ia_minTime = 0, ia_prev = 1, ia_next = 1\<rparr>],
      iso_states = [2 \<mapsto> \<lparr>is_maxAppendID = 0, is_incompleteAppends = Map.empty, is_lowWatermark = 0, is_mint = 0, is_maxt = 0,
        is_next = 2, is_prev = 2\<rparr>],
      iso_free = 3, iso_appendsOpen = Map.empty, iso_appendsOpenList = 1, iso_appendersPool = [], iso_readsOpen = 2,
      iso_disabled = disabled\<rparr>"

definition isolationState_Close :: "addr \<Rightarrow> isolation \<Rightarrow> isolation option" where
  "isolationState_Close r i =
     map_option (\<lambda>h. i\<lparr>iso_states := h\<rparr>)
       (unlink is_prev is_next (\<lambda>a. is_prev_update (\<lambda>_. a)) (\<lambda>a. is_next_update (\<lambda>_. a)) r (iso_states i))"

definition IsolationDisabled :: "isolation \<Rightarrow> bool" where
  "IsolationDisabled i = iso_disabled i"

definition lowWatermarkLocked :: "isolation \<Rightarrow> uint64 option" where
  "lowWatermarkLocked i =
     (if iso_disabled i then Some 0
      else Option.bind (iso_states i (iso_readsOpen i)) (\<lambda>ro.
        if is_prev ro \<noteq> iso_readsOpen i then map_option is_lowWatermark (iso_states i (is_prev ro))
        else Option.bind (iso_apps i (iso_appendsOpenList i)) (\<lambda>l. map_option ia_appendID (iso_apps i (ia_next l)))))"

definition lowWatermark :: "isolation \<Rightarrow> uint64 option" where
  "lowWatermark i = (if iso_disabled i then Some 0 else lowWatermarkLocked i)"

partial_function (option) lowest_loop :: "isolationAppender store \<Rightarrow> addr \<Rightarrow> addr \<Rightarrow> int64 \<Rightarrow> int64 option" where
  "lowest_loop h s a lowest =
     (if a = s then Some lowest
      else Option.bind (h a) (\<lambda>n. lowest_loop h s (ia_next n) (if ia_minTime n <s lowest then ia_minTime n else lowest)))"

definition lowestAppendTime :: "isolation \<Rightarrow> int64 option" where
  "lowestAppendTime i =
     Option.bind (iso_apps i (iso_appendsOpenList i)) (\<lambda>l. lowest_loop (iso_apps i) (iso_appendsOpenList i) (ia_next l) MaxInt64)"

definition isolation_State :: "int64 \<Rightarrow> int64 \<Rightarrow> isolation \<Rightarrow> (addr \<times> isolation) option" where
  "isolation_State mint maxt i =
     Option.bind (iso_apps i (iso_appendsOpenList i)) (\<lambda>l.
     Option.bind (iso_apps i (ia_next l)) (\<lambda>first.
       let r = iso_free i;
           isoState = \<lparr>is_maxAppendID = ia_appendID l, is_incompleteAppends = (\<lambda>k. map_option (\<lambda>_. ()) (iso_appendsOpen i k)),
             is_lowWatermark = ia_appendID first, is_mint = mint, is_maxt = maxt, is_next = 0, is_prev = 0\<rparr>
       in map_option (\<lambda>h. (r, i\<lparr>iso_states := h, iso_free := r + 1\<rparr>))
            (link_front is_next (\<lambda>a. is_next_update (\<lambda>_. a)) (\<lambda>a. is_prev_update (\<lambda>_. a)) (iso_readsOpen i) r
              ((iso_states i)(r \<mapsto> isoState)))))"

partial_function (option) traverse_loop ::
  "isolationState store \<Rightarrow> addr \<Rightarrow> (isolationState \<Rightarrow> 'x \<Rightarrow> bool \<times> 'x) \<Rightarrow> addr \<Rightarrow> 'x \<Rightarrow> 'x option" where
  "traverse_loop h ro f s x =
     (if s = ro then Some x
      else Option.bind (h s) (\<lambda>n. case f n x of (cont, x') \<Rightarrow>
        if \<not> cont then Some x' else Option.bind (h s) (\<lambda>n. traverse_loop h ro f (is_next n) x')))"

definition TraverseOpenReads :: "(isolationState \<Rightarrow> 'x \<Rightarrow> bool \<times> 'x) \<Rightarrow> isolation \<Rightarrow> 'x \<Rightarrow> 'x option" where
  "TraverseOpenReads f i x =
     Option.bind (iso_states i (iso_readsOpen i)) (\<lambda>ro. traverse_loop (iso_states i) (iso_readsOpen i) f (is_next ro) x)"

text \<open>\<open>appendersPool.Get()\<close>: the node of the pool at the chosen position, or a new one.\<close>

definition pool_Get :: "nat option \<Rightarrow> isolation \<Rightarrow> addr \<times> isolation" where
  "pool_Get choice i =
     (case choice of
        Some k \<Rightarrow>
          if k < length (iso_appendersPool i)
          then (iso_appendersPool i ! k, i\<lparr>iso_appendersPool := take k (iso_appendersPool i) @ drop (k + 1) (iso_appendersPool i)\<rparr>)
          else (iso_free i, i\<lparr>iso_free := iso_free i + 1\<rparr>)
      | None \<Rightarrow> (iso_free i, i\<lparr>iso_free := iso_free i + 1\<rparr>))"

definition newAppendID :: "int64 \<Rightarrow> nat option \<Rightarrow> isolation \<Rightarrow> ((uint64 \<times> uint64) \<times> isolation) option" where
  "newAppendID minTime choice i =
     (if iso_disabled i then Some ((0, 0), i)
      else Option.bind (write_node (\<lambda>l. l\<lparr>ia_appendID := ia_appendID l + 1\<rparr>) (iso_appendsOpenList i) (iso_apps i)) (\<lambda>h.
        case pool_Get choice i of (app, i1) \<Rightarrow>
          Option.bind (h (iso_appendsOpenList i)) (\<lambda>l.
            let h1 = h(app \<mapsto> \<lparr>ia_appendID = ia_appendID l, ia_minTime = minTime, ia_prev = 0, ia_next = 0\<rparr>) in
            Option.bind (link_front ia_prev (\<lambda>a. ia_prev_update (\<lambda>_. a)) (\<lambda>a. ia_next_update (\<lambda>_. a)) (iso_appendsOpenList i) app h1) (\<lambda>h2.
              let i2 = i1\<lparr>iso_apps := h2, iso_appendsOpen := (iso_appendsOpen i)(ia_appendID l \<mapsto> app)\<rparr> in
              map_option (\<lambda>lw. ((ia_appendID l, lw), i2)) (lowWatermarkLocked i2)))))"

definition lastAppendID :: "isolation \<Rightarrow> uint64 option" where
  "lastAppendID i = (if iso_disabled i then Some 0 else map_option ia_appendID (iso_apps i (iso_appendsOpenList i)))"

definition committedAppendID :: "isolation \<Rightarrow> uint64 option" where
  "committedAppendID i =
     (if iso_disabled i then Some 0
      else Option.bind (iso_apps i (iso_appendsOpenList i)) (\<lambda>l.
        if ia_next l = iso_appendsOpenList i then Some (ia_appendID l)
        else map_option (\<lambda>n. ia_appendID n - 1) (iso_apps i (ia_next l))))"

definition closeAppend :: "uint64 \<Rightarrow> isolation \<Rightarrow> isolation option" where
  "closeAppend appendID i =
     (if iso_disabled i then Some i
      else case iso_appendsOpen i appendID of
        None \<Rightarrow> Some i
      | Some app \<Rightarrow>
          map_option (\<lambda>h. i\<lparr>iso_apps := h(app \<mapsto> \<lparr>ia_appendID = 0, ia_minTime = 0, ia_prev = 0, ia_next = 0\<rparr>),
              iso_appendsOpen := (iso_appendsOpen i)(appendID := None), iso_appendersPool := app # iso_appendersPool i\<rparr>)
            (unlink ia_next ia_prev (\<lambda>a. ia_next_update (\<lambda>_. a)) (\<lambda>a. ia_prev_update (\<lambda>_. a)) app (iso_apps i)))"

end
