(* ===== verification/HeadSeries.thy ===== *)
theory HeadSeries
  imports TxRing Isolation XorChunk
begin

text \<open>
  The chunks of an in-memory series: chunk references (\<open>tsdb/chunks/chunks.go\<close>), the lists of
  m-mapped and head chunks of \<open>memSeries\<close> with their ids (\<open>tsdb/head.go\<close>, \<open>tsdb/head_append.go\<close>) and
  what a read sees of a chunk (\<open>tsdb/head_read.go\<close>). The model has the fields of \<open>memSeries\<close> that these
  methods use. The linked list \<open>headChunks\<close> is a list, the newest chunk first, as following \<open>prev\<close>
  visits it. A chunk is any type \<open>'c\<close>; its \<open>NumSamples\<close>, its \<open>Encoding\<close> and the disk mapper, which reads and writes
  files, are arguments. Methods run under the lock of the series.
\<close>

section \<open>Chunk references\<close>

text \<open>\<open>None\<close> is the panic for an id that does not fit its bytes.\<close>

definition NewHeadChunkRef :: "uint64 \<Rightarrow> uint64 \<Rightarrow> uint64 option" where
  "NewHeadChunkRef hsr chunkID =
     (if hsr > push_bit 40 1 - 1 then None
      else if chunkID > push_bit 24 1 - 1 then None
      else Some (push_bit 24 hsr OR chunkID))"

definition HeadChunkRef_Unpack :: "uint64 \<Rightarrow> uint64 \<times> uint64" where
  "HeadChunkRef_Unpack p = (drop_bit 24 p, drop_bit 40 (push_bit 40 p))"

definition NewBlockChunkRef :: "uint64 \<Rightarrow> uint64 \<Rightarrow> uint64" where
  "NewBlockChunkRef fileIndex fileOffset = push_bit 32 fileIndex OR fileOffset"

definition BlockChunkRef_Unpack :: "uint64 \<Rightarrow> int64 \<times> int64" where
  "BlockChunkRef_Unpack b = (drop_bit 32 b, drop_bit 32 (push_bit 32 b))"

definition newChunkDiskMapperRef :: "uint64 \<Rightarrow> uint64 \<Rightarrow> uint64" where
  "newChunkDiskMapperRef sq offset = push_bit 32 sq OR offset"

definition ChunkDiskMapperRef_Unpack :: "uint64 \<Rightarrow> int64 \<times> int64" where
  "ChunkDiskMapperRef_Unpack r = (drop_bit 32 r, drop_bit 32 (push_bit 32 r))"

definition ref_GreaterThanOrEqualTo :: "uint64 \<Rightarrow> uint64 \<Rightarrow> bool" where
  "ref_GreaterThanOrEqualTo r r' =
     (case ChunkDiskMapperRef_Unpack r of (s1, o1) \<Rightarrow> case ChunkDiskMapperRef_Unpack r' of (s2, o2) \<Rightarrow>
        s2 <s s1 \<or> (s1 = s2 \<and> o2 \<le>s o1))"

definition ref_GreaterThan :: "uint64 \<Rightarrow> uint64 \<Rightarrow> bool" where
  "ref_GreaterThan r r' =
     (case ChunkDiskMapperRef_Unpack r of (s1, o1) \<Rightarrow> case ChunkDiskMapperRef_Unpack r' of (s2, o2) \<Rightarrow>
        s2 <s s1 \<or> (s1 = s2 \<and> o2 <s o1))"

definition oooChunkIDMask :: uint64 where "oooChunkIDMask = push_bit 23 1"

definition wrapChunkID :: "uint64 \<Rightarrow> uint64" where
  "wrapChunkID i = i AND (oooChunkIDMask - 1)"

definition unpackHeadChunkRef :: "uint64 \<Rightarrow> uint64 \<times> uint64 \<times> bool" where
  "unpackHeadChunkRef ref =
     (case HeadChunkRef_Unpack ref of (sid, cid) \<Rightarrow> (sid, cid AND (oooChunkIDMask - 1), cid AND oooChunkIDMask \<noteq> 0))"

section \<open>The series\<close>

record mmappedChunk =
  mm_ref :: uint64
  mm_numSamples :: uint16
  mm_encoding :: byte
  mm_minTime :: int64
  mm_maxTime :: int64

record 'c memChunk =
  mc_chunk :: 'c
  mc_minTime :: int64
  mc_maxTime :: int64

record 'o memSeriesOOOFields =
  oooMmappedChunks :: "mmappedChunk list"
  oooHeadChunk :: "'o option"
  firstOOOChunkID :: uint64

record ('c, 'o) memSeries =
  mmappedChunks :: "mmappedChunk list"
  headChunks :: "'c memChunk list"
  firstChunkID :: uint64
  ooo :: "'o memSeriesOOOFields option"
  headChunkCount :: uint32
  txs :: "txRing option"

definition headChunkID :: "('c, 'o) memSeries \<Rightarrow> nat \<Rightarrow> uint64" where
  "headChunkID s pos = wrapChunkID (of_nat pos + firstChunkID s)"

text \<open>\<open>None\<close> when \<open>s.ooo\<close> is nil.\<close>

definition oooHeadChunkID :: "('c, 'o) memSeries \<Rightarrow> nat \<Rightarrow> uint64 option" where
  "oooHeadChunkID s pos = map_option (\<lambda>f. wrapChunkID (of_nat pos + firstOOOChunkID f) OR oooChunkIDMask) (ooo s)"

definition setHeadChunks :: "'c memChunk list \<Rightarrow> uint32 \<Rightarrow> ('c, 'o) memSeries \<Rightarrow> ('c, 'o) memSeries" where
  "setHeadChunks hs count s = s\<lparr>headChunks := hs, headChunkCount := count\<rparr>"

definition pushHeadChunk :: "'c memChunk \<Rightarrow> ('c, 'o) memSeries \<Rightarrow> ('c, 'o) memSeries option" where
  "pushHeadChunk chk s =
     (if length (mmappedChunks s) + unat (headChunkCount s) \<ge> unat (oooChunkIDMask - 1) then None
      else Some (s\<lparr>headChunks := chk # headChunks s, headChunkCount := headChunkCount s + 1\<rparr>))"

definition collectHeadChunks :: "'c memChunk list \<Rightarrow> 'c memChunk list" where
  "collectHeadChunks hs = rev hs"

text \<open>
  The first loop of \<open>truncateChunksBefore\<close>: the arguments are the chunks passed, \<open>i\<close> and the rest of
  the list from \<open>chk\<close> on.
\<close>

fun truncate_head :: "int64 \<Rightarrow> nat \<Rightarrow> 'c memChunk list \<Rightarrow> ('c, 'o) memSeries \<Rightarrow> nat \<times> ('c, 'o) memSeries" where
  "truncate_head mint i [] s = (0, s)"
| "truncate_head mint i (chk # rest) s =
     (if mc_maxTime chk <s mint
      then let removed = length (chk # rest) + length (mmappedChunks s);
               s1 = s\<lparr>firstChunkID := wrapChunkID (firstChunkID s + of_nat removed)\<rparr>;
               s2 = (if i = 0 then setHeadChunks [] 0 s1 else setHeadChunks (take i (headChunks s1)) (of_nat i) s1)
           in (removed, s2\<lparr>mmappedChunks := []\<rparr>)
      else truncate_head mint (i + 1) rest s)"

definition truncate_mmapped :: "int64 \<Rightarrow> nat \<Rightarrow> ('c, 'o) memSeries \<Rightarrow> nat \<times> ('c, 'o) memSeries" where
  "truncate_mmapped mint removed s =
     (if mmappedChunks s = [] then (removed, s)
      else let pre = length (takeWhile (\<lambda>c. mm_maxTime c <s mint) (mmappedChunks s));
               removed = (if pre = 0 then removed else pre)
           in (removed, s\<lparr>mmappedChunks := drop removed (mmappedChunks s),
                 firstChunkID := wrapChunkID (firstChunkID s + of_nat removed)\<rparr>))"

definition truncate_ooo :: "uint64 \<Rightarrow> ('c, 'o) memSeries \<Rightarrow> nat \<times> ('c, 'o) memSeries" where
  "truncate_ooo minOOOMmapRef s =
     (case ooo s of
        None \<Rightarrow> (0, s)
      | Some f \<Rightarrow>
          if oooMmappedChunks f = [] then (0, s)
          else let removed = length (takeWhile (\<lambda>c. \<not> ref_GreaterThan (mm_ref c) minOOOMmapRef) (oooMmappedChunks f));
                   f1 = f\<lparr>oooMmappedChunks := drop removed (oooMmappedChunks f),
                          firstOOOChunkID := wrapChunkID (firstOOOChunkID f + of_nat removed)\<rparr>
               in (removed, s\<lparr>ooo := if oooMmappedChunks f1 = [] \<and> oooHeadChunk f1 = None then None else Some f1\<rparr>))"

definition truncateChunksBefore :: "int64 \<Rightarrow> uint64 \<Rightarrow> ('c, 'o) memSeries \<Rightarrow> nat \<times> ('c, 'o) memSeries" where
  "truncateChunksBefore mint minOOOMmapRef s =
     (case truncate_head mint 0 (headChunks s) s of (r1, s1) \<Rightarrow>
      case truncate_mmapped mint r1 s1 of (r2, s2) \<Rightarrow>
      case truncate_ooo minOOOMmapRef s2 of (r3, s3) \<Rightarrow> (r2 + r3, s3))"

text \<open>
  \<open>mmapChunks\<close>: the disk mapper's \<open>WriteChunk\<close> is the argument \<open>write\<close>, with the state \<open>'d\<close> of the
  mapper; \<open>None\<close> is the panic of its error callback.
\<close>

fun mmap_all ::
  "('c \<Rightarrow> nat) \<Rightarrow> ('c \<Rightarrow> byte) \<Rightarrow> ('c memChunk \<Rightarrow> 'd \<Rightarrow> (uint64 \<times> 'd) option) \<Rightarrow> 'c memChunk list \<Rightarrow> mmappedChunk list \<Rightarrow> 'd \<Rightarrow> (mmappedChunk list \<times> 'd) option" where
  "mmap_all num enc write [] ms d = Some (ms, d)"
| "mmap_all num enc write (chk # chks) ms d =
     (case write chk d of
        None \<Rightarrow> None
      | Some (ref, d') \<Rightarrow>
          mmap_all num enc write chks
            (ms @ [\<lparr>mm_ref = ref, mm_numSamples = of_nat (num (mc_chunk chk)), mm_encoding = enc (mc_chunk chk), mm_minTime = mc_minTime chk, mm_maxTime = mc_maxTime chk\<rparr>]) d')"

definition mmapChunks ::
  "('c \<Rightarrow> nat) \<Rightarrow> ('c \<Rightarrow> byte) \<Rightarrow> ('c memChunk \<Rightarrow> 'd \<Rightarrow> (uint64 \<times> 'd) option) \<Rightarrow> ('c, 'o) memSeries \<Rightarrow> 'd \<Rightarrow> (nat \<times> ('c, 'o) memSeries \<times> 'd) option" where
  "mmapChunks num enc write s d =
     (if length (headChunks s) < 2 then Some (0, s, d)
      else let hc = collectHeadChunks (headChunks s) in
           case mmap_all num enc write (butlast hc) (mmappedChunks s) d of
             None \<Rightarrow> None
           | Some (ms, d') \<Rightarrow>
               Some (length hc - 1, setHeadChunks (take 1 (headChunks s)) 1 (s\<lparr>mmappedChunks := ms\<rparr>), d'))"

section \<open>Finding a chunk\<close>

datatype disk_error = CorruptionErr | OtherErr

datatype lookup_error = ErrNotFound | DiskErr

text \<open>
  \<open>memSeries.chunk\<close>. The result is a \<open>memChunk\<close> with the flags \<open>headChunk\<close> and \<open>isOpen\<close>; \<open>hs\<close> is the
  slice of head chunks collected before, \<open>None\<close> for nil. The outer \<open>None\<close> is the panic on a
  corruption error of the disk mapper \<open>read\<close>.
\<close>

definition walk_head :: "nat \<Rightarrow> 'c memChunk list \<Rightarrow> 'c memChunk option" where
  "walk_head offset hs = (if offset < length hs then Some (hs ! offset) else None)"

definition memSeries_chunk ::
  "(uint64 \<Rightarrow> disk_error + 'c) \<Rightarrow> ('c, 'o) memSeries \<Rightarrow> uint64 \<Rightarrow> 'c memChunk list option \<Rightarrow>
    (lookup_error + 'c memChunk \<times> bool \<times> bool) option" where
  "memSeries_chunk read s i hs =
     (let ix = unat (wrapChunkID (i - firstChunkID s)) in
      if ix < length (mmappedChunks s)
      then let m = mmappedChunks s ! ix in
           (case read (mm_ref m) of
              Inl CorruptionErr \<Rightarrow> None
            | Inl OtherErr \<Rightarrow> Some (Inl DiskErr)
            | Inr chk \<Rightarrow> Some (Inr (\<lparr>mc_chunk = chk, mc_minTime = mm_minTime m, mc_maxTime = mm_maxTime m\<rparr>, False, False)))
      else let ix = ix - length (mmappedChunks s) in
           (case hs of
              Some hc \<Rightarrow>
                if ix \<ge> length hc then Some (Inl ErrNotFound) else Some (Inr (hc ! ix, True, ix = length hc - 1))
            | None \<Rightarrow>
                if ix \<ge> unat (headChunkCount s) then Some (Inl ErrNotFound)
                else let offset = unat (headChunkCount s) - ix - 1 in
                     (case walk_head offset (headChunks s) of
                        None \<Rightarrow> Some (Inl ErrNotFound)
                      | Some elem \<Rightarrow> Some (Inr (elem, True, offset = 0)))))"

text \<open>\<open>oooChunk\<close>; \<open>None\<close> is the nil pointer \<open>s.ooo\<close>.\<close>

definition oooChunk :: "(uint64 \<Rightarrow> disk_error + 'c) \<Rightarrow> ('c, 'o) memSeries \<Rightarrow> uint64 \<Rightarrow> (lookup_error + 'c \<times> int64) option" where
  "oooChunk read s i =
     (case ooo s of
        None \<Rightarrow> None
      | Some f \<Rightarrow>
          let ix = unat (wrapChunkID (i - firstOOOChunkID f)) in
          if ix \<ge> length (oooMmappedChunks f) then Some (Inl ErrNotFound)
          else let m = oooMmappedChunks f ! ix in
               Some (case read (mm_ref m) of Inl _ \<Rightarrow> Inl DiskErr | Inr chk \<Rightarrow> Inr (chk, mm_maxTime m)))"

section \<open>Reading under isolation\<close>

definition memSeries_cleanupAppendIDsBelow :: "uint64 \<Rightarrow> ('c, 'o) memSeries \<Rightarrow> ('c, 'o) memSeries option" where
  "memSeries_cleanupAppendIDsBelow bound s =
     (case txs s of None \<Rightarrow> Some s | Some t \<Rightarrow> map_option (\<lambda>t'. s\<lparr>txs := Some t'\<rparr>) (cleanupAppendIDsBelow bound t))"

fun above_loop :: "uint64 \<Rightarrow> nat \<Rightarrow> txRingIterator \<Rightarrow> bool option" where
  "above_loop watermark 0 it = Some False"
| "above_loop watermark (Suc n) it =
     Option.bind (txRingIterator_At it) (\<lambda>x. if watermark < x then Some True else above_loop watermark n (txRingIterator_Next it))"

definition hasAppendIDAbove :: "('c, 'o) memSeries \<Rightarrow> uint64 \<Rightarrow> bool option" where
  "hasAppendIDAbove s watermark =
     (case txs s of None \<Rightarrow> Some False | Some t \<Rightarrow> above_loop watermark (unat (txIDCount t)) (txRing_iterator t))"

definition shown :: "isolationState \<Rightarrow> uint64 \<Rightarrow> bool" where
  "shown st k \<longleftrightarrow> k \<le> is_maxAppendID st \<and> is_incompleteAppends st k = None"

text \<open>The loop over the append ids: the index of the first one that is not shown, if there is one.\<close>

fun scan_ids :: "isolationState \<Rightarrow> nat \<Rightarrow> nat \<Rightarrow> txRingIterator \<Rightarrow> nat option option" where
  "scan_ids st index 0 it = Some None"
| "scan_ids st index (Suc n) it =
     Option.bind (txRingIterator_At it) (\<lambda>x.
       if shown st x then scan_ids st (index + 1) n (txRingIterator_Next it) else Some (Some index))"

text \<open>
  The number of samples of the chunk that the iterator returns. The isolation state comes with
  the \<open>disabled\<close> flag; the counts are Go's \<open>int\<close>s.
\<close>

definition prev_samples :: "nat \<Rightarrow> nat list \<Rightarrow> nat" where
  "prev_samples ix ns = sum_list (take ix ns)"

definition head_before :: "int \<Rightarrow> int \<Rightarrow> nat list \<Rightarrow> int" where
  "head_before j ix ns = (\<Sum>(k, n) \<leftarrow> enumerate 0 ns. if j - int k < ix then int n else 0)"

definition stop_after ::
  "('c \<Rightarrow> nat) \<Rightarrow> ('c, 'o) memSeries \<Rightarrow> uint64 \<Rightarrow> nat \<Rightarrow> (isolationState \<times> bool) option \<Rightarrow> int option" where
  "stop_after num s i numSamples isoState =
     (case isoState of
        None \<Rightarrow> Some (int numSamples)
      | Some (st, disabled) \<Rightarrow>
          if disabled then Some (int numSamples)
          else let ix = int (unat (wrapChunkID (i - firstChunkID s)));
                   ms = map (\<lambda>m. unat (mm_numSamples m)) (mmappedChunks s);
                   hs = map (num \<circ> mc_chunk) (headChunks s);
                   totalSamples = int (sum_list ms) + int (sum_list hs);
                   previousSamples = int (prev_samples (nat ix) ms) +
                     head_before (int (unat (headChunkCount s)) - 1) (ix - int (length ms)) hs
               in Option.bind (txs s) (\<lambda>t.
                    let consider = int (unat (txIDCount t)) - (totalSamples - (previousSamples + int numSamples)) in
                    map_option (\<lambda>stop. case stop of None \<Rightarrow> int numSamples | Some index \<Rightarrow> max (int numSamples - (consider - int index)) 0)
                      (scan_ids st 0 (nat consider) (txRing_iterator t))))"

datatype 'i head_iterator = NopIterator | PlainIterator 'i | StopIterator 'i int int

definition memSeries_iterator ::
  "('c \<Rightarrow> nat) \<Rightarrow> ('c \<Rightarrow> 'i) \<Rightarrow> ('c, 'o) memSeries \<Rightarrow> uint64 \<Rightarrow> 'c \<Rightarrow> (isolationState \<times> bool) option \<Rightarrow> 'i head_iterator option" where
  "memSeries_iterator num iter s i c isoState =
     map_option (\<lambda>stopAfter.
        if stopAfter = 0 then NopIterator
        else if stopAfter = int (num c) then PlainIterator (iter c)
        else StopIterator (iter c) (-1) stopAfter)
      (stop_after num s i (num c) isoState)"

text \<open>\<open>Next\<close> on the result, for the \<open>Next\<close> of the chunk's own iterator.\<close>

fun head_Next :: "('i \<Rightarrow> ValueType \<times> 'i) \<Rightarrow> 'i head_iterator \<Rightarrow> ValueType \<times> 'i head_iterator" where
  "head_Next next NopIterator = (ValNone, NopIterator)"
| "head_Next next (PlainIterator it) = (case next it of (vt, it') \<Rightarrow> (vt, PlainIterator it'))"
| "head_Next next (StopIterator it k stopAfter) =
     (if k + 1 \<ge> stopAfter then (ValNone, StopIterator it k stopAfter)
      else case next it of (vt, it') \<Rightarrow> (vt, StopIterator it' (k + 1) stopAfter))"

end
