(* ===== verification/IsolationCorrect.thy ===== *)
theory IsolationCorrect
  imports Isolation
begin

text \<open>
  The linked lists of \<open>Isolation\<close> implement a simple specification: the ids of the open appends in
  increasing order and the open reads, latest first. A contract for list nodes carries the pointer
  surgery for both lists; every method refines an operation of the specification; and an invariant
  of the specification gives what reads and the clean-up of append ids rely on.
\<close>

section \<open>Rings of nodes\<close>

text \<open>
  Of a store only its two link fields matter here. \<open>links N P a as b\<close>: from \<open>a\<close> through the nodes
  \<open>as\<close> to \<open>b\<close> the forward links \<open>N\<close> and the backward links \<open>P\<close> agree. A ring leads from its sentinel
  back to it.
\<close>

fun links :: "(addr \<rightharpoonup> addr) \<Rightarrow> (addr \<rightharpoonup> addr) \<Rightarrow> addr \<Rightarrow> addr list \<Rightarrow> addr \<Rightarrow> bool" where
  "links N P a [] b = (N a = Some b \<and> P b = Some a)"
| "links N P a (x # xs) b = (N a = Some x \<and> P x = Some a \<and> links N P x xs b)"

definition field :: "('n \<Rightarrow> 'a) \<Rightarrow> 'n store \<Rightarrow> addr \<Rightarrow> 'a option" where
  "field f h = (\<lambda>a. map_option f (h a))"

definition ring :: "('n \<Rightarrow> addr) \<Rightarrow> ('n \<Rightarrow> addr) \<Rightarrow> 'n store \<Rightarrow> addr \<Rightarrow> addr list \<Rightarrow> bool" where
  "ring nx pv h s as \<longleftrightarrow> distinct (s # as) \<and> links (field nx h) (field pv h) s as s"

lemma links_append: "links N P a (xs @ x # ys) b \<longleftrightarrow> links N P a xs x \<and> links N P x ys b"
  by (induction xs arbitrary: a) auto

lemma links_rev: "links P N b (rev xs) a \<longleftrightarrow> links N P a xs b"
  by (induction xs arbitrary: a) (auto simp: links_append)

lemma ring_rev: "ring pv nx h s (rev as) \<longleftrightarrow> ring nx pv h s as"
  by (simp add: ring_def links_rev)

lemma links_cong:
  "(\<And>x. x \<in> insert a (set xs) \<Longrightarrow> N' x = N x) \<Longrightarrow> (\<And>x. x \<in> insert b (set xs) \<Longrightarrow> P' x = P x) \<Longrightarrow>
    links N' P' a xs b \<longleftrightarrow> links N P a xs b"
  by (induction xs arbitrary: a) auto

lemma links_first: "links N P a xs b \<Longrightarrow> N a = Some (hd (xs @ [b]))"
  by (cases xs) simp_all

lemma links_last: "links N P a xs b \<Longrightarrow> P b = Some (last (a # xs))"
  by (induction xs arbitrary: a) simp_all

lemma links_join:
  assumes "links N P s xs a" "links N P a ys e" "distinct (s # xs)" "distinct ys" "set (s # xs) \<inter> set ys = {}"
    "e \<notin> set xs" "e \<notin> set ys"
  shows "links (N(last (s # xs) \<mapsto> hd (ys @ [e]))) (P(hd (ys @ [e]) \<mapsto> last (s # xs))) s (xs @ ys) e"
  using assms
proof (induction xs arbitrary: s)
  case Nil
  show ?case
  proof (cases ys)
    case (Cons q zs)
    then have "links (N(s \<mapsto> q)) (P(q \<mapsto> s)) q zs e"
      using Nil.prems by (subst links_cong [where N = N and P = P]) auto
    then show ?thesis using Cons by (simp add: fun_upd_def)
  qed simp
next
  case (Cons x xs)
  have "hd (ys @ [e]) \<in> insert e (set ys)" by (cases ys) auto
  with Cons.prems have "x \<noteq> hd (ys @ [e])" "s \<noteq> last (x # xs)" by (auto dest: last_in_set split: if_splits)
  with Cons.IH [of x] Cons.prems show ?case by auto
qed

lemma links_insert:
  assumes "links N P s xs s" "distinct (s # xs)" "a \<notin> insert s (set xs)" "q = hd (xs @ [s])"
  shows "links (N(a \<mapsto> q, s \<mapsto> a)) (P(a \<mapsto> s, q \<mapsto> a)) s (a # xs) s"
proof (cases xs)
  case (Cons x ys)
  with assms have "links N P x ys s" by simp
  then have "links (N(a \<mapsto> q, s \<mapsto> a)) (P(a \<mapsto> s, q \<mapsto> a)) x ys s"
    using assms Cons by (subst links_cong [where N = N and P = P]) auto
  then show ?thesis using assms Cons by auto
qed (use assms in auto)

lemma field_upd: "field f (h(a \<mapsto> n)) = (field f h)(a \<mapsto> f n)"
  by (auto simp: field_def)

lemma links_stored: "links (field nx h) (field pv h) a xs b \<Longrightarrow> x \<in> insert a (insert b (set xs)) \<Longrightarrow> \<exists>n. h x = Some n"
  by (induction xs arbitrary: a) (auto simp: field_def)

lemma ring_stored: "ring nx pv h s as \<Longrightarrow> x \<in> insert s (set as) \<Longrightarrow> \<exists>n. h x = Some n"
  using links_stored [of nx h pv s as s x] by (auto simp: ring_def)

lemma ring_first:
  assumes "ring nx pv h s as"
  obtains n where "h s = Some n" "nx n = hd (as @ [s])" "pv n = last (s # as)"
  using links_first [of _ _ s as s] links_last [of _ _ s as s] assms by (fastforce simp: ring_def field_def)

lemma ring_cong: "field nx h' = field nx h \<Longrightarrow> field pv h' = field pv h \<Longrightarrow> ring nx pv h' s as \<longleftrightarrow> ring nx pv h s as"
  by (simp add: ring_def)

lemma ring_other:
  "ring nx pv h s as \<Longrightarrow> a \<notin> insert s (set as) \<Longrightarrow> ring nx pv (h(a \<mapsto> n)) s as"
  unfolding ring_def field_upd by (subst links_cong [where N = "field nx h" and P = "field pv h"]) auto

text \<open>
  What the list operations need of the fields of a node: two links with their updates, and the
  rest of the node, which the updates keep.
\<close>

locale list_node =
  fixes nx pv :: "'n \<Rightarrow> addr" and set_nx set_pv :: "addr \<Rightarrow> 'n \<Rightarrow> 'n" and dat :: "'n \<Rightarrow> 'd"
  assumes nx_set [simp]: "nx (set_nx a n) = a" "nx (set_pv a n) = nx n"
    and pv_set [simp]: "pv (set_pv a n) = a" "pv (set_nx a n) = pv n"
    and dat_set [simp]: "dat (set_nx a n) = dat n" "dat (set_pv a n) = dat n"
begin

text \<open>The effect of one write on the three parts of a store.\<close>

lemma write_nx:
  assumes "h a = Some n"
  shows "\<exists>h'. write_node (set_nx b) a h = Some h' \<and> field nx h' = (field nx h)(a \<mapsto> b) \<and> field pv h' = field pv h \<and> field dat h' = field dat h"
  using assms by (simp add: write_node_def field_upd) (auto simp: field_def)

lemma write_pv:
  assumes "h a = Some n"
  shows "\<exists>h'. write_node (set_pv b) a h = Some h' \<and> field pv h' = (field pv h)(a \<mapsto> b) \<and> field nx h' = field nx h \<and> field dat h' = field dat h"
  using assms by (simp add: write_node_def field_upd) (auto simp: field_def)

lemma field_stored: "field f h a = Some x \<Longrightarrow> \<exists>n. h a = Some n \<and> f n = x"
  by (auto simp: field_def)

lemma unlink_ring:
  assumes r: "ring nx pv h s (xs @ a # ys)"
  shows "\<exists>h'. unlink nx pv set_nx set_pv a h = Some h' \<and> ring nx pv h' s (xs @ ys) \<and> field dat h' = field dat h"
proof -
  define p where "p = last (s # xs)"
  define q where "q = hd (ys @ [s])"
  have d: "distinct (s # xs @ a # ys)" and l: "links (field nx h) (field pv h) s xs a" "links (field nx h) (field pv h) a ys s"
    using r by (auto simp: ring_def links_append)
  have in_ring: "p \<in> insert s (set xs)" "q \<in> insert s (set ys)" by (auto simp: p_def q_def hd_append)
  with d have "p \<noteq> a" by auto
  obtain na where na: "h a = Some na" "nx na = q" "pv na = p"
    using links_first [OF l(2)] links_last [OF l(1)] by (auto simp: p_def q_def field_def)
  obtain np where "h p = Some np" using links_stored [OF l(1), of p] in_ring by auto
  from write_nx [of h p np q] this obtain h1 where h1: "write_node (set_nx q) p h = Some h1"
      "field nx h1 = (field nx h)(p \<mapsto> q)" "field pv h1 = field pv h" "field dat h1 = field dat h" by auto
  obtain na1 where na1: "h1 a = Some na1" "nx na1 = q" "pv na1 = p"
    using fun_cong [OF h1(2), of a] fun_cong [OF h1(3), of a] na \<open>p \<noteq> a\<close> by (auto simp: field_def)
  have "\<exists>nq. h q = Some nq" using links_stored [OF l(2), of q] in_ring by auto
  then obtain nq where "h1 q = Some nq" using fun_cong [OF h1(3), of q] by (auto simp: field_def)
  from write_pv [of h1 q nq p] this obtain h2 where h2: "write_node (set_pv p) q h1 = Some h2"
      "field pv h2 = (field pv h1)(q \<mapsto> p)" "field nx h2 = field nx h1" "field dat h2 = field dat h1" by auto
  have "unlink nx pv set_nx set_pv a h = Some h2" using na na1 h1(1) h2(1) by (simp add: unlink_def)
  moreover have "ring nx pv h2 s (xs @ ys)"
    using links_join [OF l] d by (auto simp: ring_def h2 h1 p_def q_def)
  ultimately show ?thesis using h1 h2 by auto
qed

lemma link_front_ring:
  assumes r: "ring nx pv h s as" and a: "a \<notin> insert s (set as)" "h a = Some n"
  shows "\<exists>h'. link_front nx set_nx set_pv s a h = Some h' \<and> ring nx pv h' s (a # as) \<and> field dat h' = field dat h"
proof -
  define q where "q = hd (as @ [s])"
  have in_ring: "q \<in> insert s (set as)" by (auto simp: q_def hd_append)
  obtain ns where ns: "h s = Some ns" "nx ns = q" using ring_first [OF r] by (auto simp: q_def)
  let ?h1 = "h(a \<mapsto> set_nx q (set_pv s n))"
  have w1: "write_node (\<lambda>m. set_nx (nx ns) (set_pv s m)) a h = Some ?h1" using a ns by (simp add: write_node_def)
  have f1: "field nx ?h1 = (field nx h)(a \<mapsto> q)" "field pv ?h1 = (field pv h)(a \<mapsto> s)" "field dat ?h1 = field dat h"
    using a by (simp_all add: field_upd) (auto simp: field_def)
  have s1: "?h1 s = Some ns" using ns a by auto
  have "q \<noteq> a" using in_ring a(1) by auto
  then obtain nq where "?h1 q = Some nq" using ring_stored [OF r, of q] in_ring by auto
  from write_pv [of ?h1 q nq a] this obtain h2 where h2: "write_node (set_pv a) q ?h1 = Some h2"
      "field pv h2 = (field pv ?h1)(q \<mapsto> a)" "field nx h2 = field nx ?h1" "field dat h2 = field dat ?h1" by auto
  obtain ns2 where "h2 s = Some ns2" using fun_cong [OF h2(3), of s] s1 by (auto simp: field_def)
  from write_nx [of h2 s ns2 a] this obtain h3 where h3: "write_node (set_nx a) s h2 = Some h3"
      "field nx h3 = (field nx h2)(s \<mapsto> a)" "field pv h3 = field pv h2" "field dat h3 = field dat h2" by auto
  have "link_front nx set_nx set_pv s a h = Some h3" using ns w1 s1 h2(1) h3(1) by (simp add: link_front_def)
  moreover have "ring nx pv h3 s (a # as)"
    using links_insert [OF _ _ a(1) q_def] r a(1) by (auto simp: ring_def h3 h2 f1)
  ultimately show ?thesis using h3 h2 f1 by auto
qed

end

text \<open>What a node holds beside its links.\<close>

record read_info =
  ri_max :: uint64
  ri_incomplete :: "uint64 set"
  ri_low :: uint64
  ri_mint :: int64
  ri_maxt :: int64

definition read_of :: "isolationState \<Rightarrow> read_info" where
  "read_of n = \<lparr>ri_max = is_maxAppendID n, ri_incomplete = dom (is_incompleteAppends n), ri_low = is_lowWatermark n,
     ri_mint = is_mint n, ri_maxt = is_maxt n\<rparr>"

lemma read_of_simps [simp]:
  "ri_max (read_of n) = is_maxAppendID n" "ri_incomplete (read_of n) = dom (is_incompleteAppends n)" "ri_low (read_of n) = is_lowWatermark n"
  "ri_mint (read_of n) = is_mint n" "ri_maxt (read_of n) = is_maxt n"
  by (simp_all add: read_of_def)

definition app_of :: "isolationAppender \<Rightarrow> uint64 \<times> int64" where
  "app_of n = (ia_appendID n, ia_minTime n)"

text \<open>The two kinds of nodes, each with its links in both roles.\<close>

interpretation apps: list_node ia_next ia_prev "\<lambda>a. ia_next_update (\<lambda>_. a)" "\<lambda>a. ia_prev_update (\<lambda>_. a)" app_of
  by unfold_locales (simp_all add: app_of_def)

interpretation apps_rev: list_node ia_prev ia_next "\<lambda>a. ia_prev_update (\<lambda>_. a)" "\<lambda>a. ia_next_update (\<lambda>_. a)" app_of
  by unfold_locales (simp_all add: app_of_def)

interpretation states: list_node is_next is_prev "\<lambda>a. is_next_update (\<lambda>_. a)" "\<lambda>a. is_prev_update (\<lambda>_. a)" read_of
  by unfold_locales (simp_all add: read_of_def)

interpretation states_rev: list_node is_prev is_next "\<lambda>a. is_prev_update (\<lambda>_. a)" "\<lambda>a. is_next_update (\<lambda>_. a)" read_of
  by unfold_locales (simp_all add: read_of_def)

section \<open>What the lists stand for\<close>

text \<open>
  The specification: the last id given out, the open appends in the order of their ids, and the
  open reads, the latest first, each with the handle its client holds.
\<close>

record iso_spec =
  sp_last :: uint64
  sp_open :: "(uint64 \<times> int64) list"
  sp_reads :: "(addr \<times> read_info) list"

definition spec_first :: "iso_spec \<Rightarrow> uint64" where
  "spec_first sp = (case sp_open sp of [] \<Rightarrow> sp_last sp | e # _ \<Rightarrow> fst e)"

definition spec_low :: "iso_spec \<Rightarrow> uint64" where
  "spec_low sp = (if sp_reads sp = [] then spec_first sp else ri_low (snd (last (sp_reads sp))))"

definition spec_new :: "int64 \<Rightarrow> iso_spec \<Rightarrow> iso_spec" where
  "spec_new minTime sp = sp\<lparr>sp_last := sp_last sp + 1, sp_open := sp_open sp @ [(sp_last sp + 1, minTime)]\<rparr>"

definition spec_close :: "uint64 \<Rightarrow> iso_spec \<Rightarrow> iso_spec" where
  "spec_close k sp = sp\<lparr>sp_open := filter (\<lambda>e. fst e \<noteq> k) (sp_open sp)\<rparr>"

definition spec_state :: "addr \<Rightarrow> int64 \<Rightarrow> int64 \<Rightarrow> iso_spec \<Rightarrow> iso_spec" where
  "spec_state r mint maxt sp = sp\<lparr>sp_reads :=
     (r, \<lparr>ri_max = sp_last sp, ri_incomplete = fst ` set (sp_open sp), ri_low = spec_first sp, ri_mint = mint, ri_maxt = maxt\<rparr>) # sp_reads sp\<rparr>"

definition spec_close_read :: "addr \<Rightarrow> iso_spec \<Rightarrow> iso_spec" where
  "spec_close_read r sp = sp\<lparr>sp_reads := filter (\<lambda>e. fst e \<noteq> r) (sp_reads sp)\<rparr>"

lemma spec_simps [simp]:
  "sp_last (spec_new t sp) = sp_last sp + 1" "sp_open (spec_new t sp) = sp_open sp @ [(sp_last sp + 1, t)]" "sp_reads (spec_new t sp) = sp_reads sp"
  "sp_last (spec_close k sp) = sp_last sp" "sp_open (spec_close k sp) = filter (\<lambda>e. fst e \<noteq> k) (sp_open sp)"
  "sp_reads (spec_close k sp) = sp_reads sp"
  "sp_last (spec_state r mint maxt sp) = sp_last sp" "sp_open (spec_state r mint maxt sp) = sp_open sp"
  "sp_last (spec_close_read r sp) = sp_last sp" "sp_open (spec_close_read r sp) = sp_open sp"
  "sp_reads (spec_close_read r sp) = filter (\<lambda>e. fst e \<noteq> r) (sp_reads sp)"
  "spec_first (spec_state r mint maxt sp) = spec_first sp" "spec_first (spec_close_read r sp) = spec_first sp"
  by (simp_all add: spec_new_def spec_close_def spec_state_def spec_close_read_def spec_first_def split: list.splits)

lemma state_reads:
  "sp_reads (spec_state r mint maxt sp) = (r, \<lparr>ri_max = sp_last sp, ri_incomplete = fst ` set (sp_open sp), ri_low = spec_first sp,
     ri_mint = mint, ri_maxt = maxt\<rparr>) # sp_reads sp"
  by (simp add: spec_state_def)

text \<open>How the stores represent it; \<open>as\<close> are the addresses of the open appends.\<close>

definition apps_rel :: "isolation \<Rightarrow> iso_spec \<Rightarrow> addr list \<Rightarrow> bool" where
  "apps_rel i sp as \<longleftrightarrow>
     ring ia_next ia_prev (iso_apps i) (iso_appendsOpenList i) as \<and>
     field ia_appendID (iso_apps i) (iso_appendsOpenList i) = Some (sp_last sp) \<and>
     map (field app_of (iso_apps i)) as = map Some (sp_open sp) \<and>
     iso_appendsOpen i = map_of (zip (map fst (sp_open sp)) as) \<and>
     distinct (iso_appendersPool i) \<and> set (iso_appendersPool i) \<inter> insert (iso_appendsOpenList i) (set as) = {} \<and>
     set (iso_appendersPool i) \<subseteq> dom (iso_apps i) \<and> (\<forall>x \<in> dom (iso_apps i). x < iso_free i)"

definition reads_rel :: "isolation \<Rightarrow> iso_spec \<Rightarrow> bool" where
  "reads_rel i sp \<longleftrightarrow>
     ring is_next is_prev (iso_states i) (iso_readsOpen i) (map fst (sp_reads sp)) \<and>
     (\<forall>e \<in> set (sp_reads sp). field read_of (iso_states i) (fst e) = Some (snd e)) \<and>
     (\<forall>x \<in> dom (iso_states i). x < iso_free i)"

definition iso_rel :: "isolation \<Rightarrow> iso_spec \<Rightarrow> bool" where
  "iso_rel i sp \<longleftrightarrow> \<not> iso_disabled i \<and> (\<exists>as. apps_rel i sp as) \<and> reads_rel i sp"

lemma below_mono: "\<forall>x \<in> S. x < (a :: addr) \<Longrightarrow> a \<le> b \<Longrightarrow> \<forall>x \<in> S. x < b"
  by (meson order_less_le_trans)

lemma new_rel: "iso_rel (newIsolation False) \<lparr>sp_last = 0, sp_open = [], sp_reads = []\<rparr>"
  by (auto simp: iso_rel_def apps_rel_def reads_rel_def newIsolation_def ring_def field_def intro!: exI [of _ "[]"])

lemma apps_rel_first:
  assumes "apps_rel i sp as"
  obtains l n where "iso_apps i (iso_appendsOpenList i) = Some l" "ia_appendID l = sp_last sp" "ia_next l = hd (as @ [iso_appendsOpenList i])"
    "iso_apps i (ia_next l) = Some n" "ia_appendID n = spec_first sp" "ia_next l = iso_appendsOpenList i \<longleftrightarrow> sp_open sp = []"
proof -
  obtain l where l: "iso_apps i (iso_appendsOpenList i) = Some l" "ia_next l = hd (as @ [iso_appendsOpenList i])" "ia_appendID l = sp_last sp"
    using ring_first [of ia_next ia_prev "iso_apps i" "iso_appendsOpenList i" as] assms by (fastforce simp: apps_rel_def field_def)
  have len: "as = [] \<longleftrightarrow> sp_open sp = []" using assms unfolding apps_rel_def by (metis map_is_Nil_conv)
  show thesis
  proof (cases as)
    case Nil
    with l len show thesis by (intro that [of l l]) (auto simp: spec_first_def)
  next
    case (Cons x xs)
    with assms obtain e es where "sp_open sp = e # es" "field app_of (iso_apps i) x = Some e"
      by (cases "sp_open sp") (auto simp: apps_rel_def)
    moreover have "x \<noteq> iso_appendsOpenList i" using assms Cons by (auto simp: apps_rel_def ring_def)
    ultimately show thesis using l Cons len
      by (auto simp: field_def app_of_def spec_first_def intro: that)
  qed
qed

lemma low_refines:
  assumes "iso_rel i sp"
  shows "lowWatermarkLocked i = Some (spec_low sp)" "lowWatermark i = Some (spec_low sp)"
proof -
  let ?ro = "iso_readsOpen i" and ?rs = "map fst (sp_reads sp)"
  have r: "reads_rel i sp" and d: "\<not> iso_disabled i" using assms by (auto simp: iso_rel_def)
  then have "ring is_next is_prev (iso_states i) ?ro ?rs" by (simp add: reads_rel_def)
  then obtain n where n: "iso_states i ?ro = Some n" "is_prev n = last (?ro # ?rs)" by (rule ring_first) blast
  show *: "lowWatermarkLocked i = Some (spec_low sp)"
  proof (cases "sp_reads sp = []")
    case True
    with n d assms show ?thesis
      by (auto simp: lowWatermarkLocked_def spec_low_def iso_rel_def elim!: apps_rel_first)
  next
    case False
    then have "last (sp_reads sp) \<in> set (sp_reads sp)" by simp
    with r obtain m where "iso_states i (fst (last (sp_reads sp))) = Some m" "snd (last (sp_reads sp)) = read_of m"
      by (auto simp: reads_rel_def field_def)
    moreover have "is_prev n = fst (last (sp_reads sp))" using n(2) False by (simp add: last_map)
    moreover have "fst (last (sp_reads sp)) \<in> set ?rs" "?ro \<notin> set ?rs" using r False by (simp, simp add: reads_rel_def ring_def)
    then have "fst (last (sp_reads sp)) \<noteq> ?ro" by metis
    ultimately show ?thesis using n(1) d False by (simp add: lowWatermarkLocked_def spec_low_def)
  qed
  then show "lowWatermark i = Some (spec_low sp)" using d by (simp add: lowWatermark_def)
qed


definition spec_ok :: "iso_spec \<Rightarrow> bool" where
  "spec_ok sp \<longleftrightarrow>
     sorted_wrt (<) (map fst (sp_open sp)) \<and> (\<forall>k \<in> fst ` set (sp_open sp). 0 < k \<and> k \<le> sp_last sp) \<and>
     (\<forall>r \<in> snd ` set (sp_reads sp). ri_low r \<le> ri_max r \<and> ri_max r \<le> sp_last sp \<and> ri_low r \<le> spec_first sp \<and>
        (\<forall>k \<in> ri_incomplete r. ri_low r \<le> k \<and> k \<le> ri_max r)) \<and>
     sorted_wrt (\<lambda>new old. ri_low (snd old) \<le> ri_low (snd new)) (sp_reads sp)"

lemma pool_Get_spec:
  assumes r: "apps_rel i sp as" and g: "pool_Get choice i = (app, i1)"
  obtains p f where "i1 = i\<lparr>iso_appendersPool := p, iso_free := f\<rparr>" "app \<notin> insert (iso_appendsOpenList i) (set as)" "distinct p"
    "set p \<subseteq> set (iso_appendersPool i) - {app}" "app < f" "iso_free i \<le> f"
proof (cases "\<exists>k. choice = Some k \<and> k < length (iso_appendersPool i)")
  case True
  let ?pool = "iso_appendersPool i"
  from True obtain k where k: "choice = Some k" "k < length ?pool" by blast
  then have split: "?pool = take k ?pool @ app # drop (k + 1) ?pool" and i1: "i1 = i\<lparr>iso_appendersPool := take k ?pool @ drop (k + 1) ?pool\<rparr>"
    using g id_take_nth_drop [OF k(2)] by (auto simp: pool_Get_def)
  have "distinct (take k ?pool @ app # drop (k + 1) ?pool)" using r split by (simp add: apps_rel_def)
  moreover have "set ?pool = set (take k ?pool @ app # drop (k + 1) ?pool)" using split by simp
  ultimately show thesis
    using r i1 by (intro that [where p = "take k ?pool @ drop (k + 1) ?pool" and f = "iso_free i"]) (auto simp: apps_rel_def)
next
  case False
  then have e: "app = iso_free i" "i1 = i\<lparr>iso_free := iso_free i + 1\<rparr>" using g by (auto simp: pool_Get_def split: option.splits if_splits)
  have "iso_free i \<notin> dom (iso_apps i)" using r by (auto simp: apps_rel_def)
  moreover have "insert (iso_appendsOpenList i) (set as) \<subseteq> dom (iso_apps i)"
    using r ring_stored [of ia_next ia_prev "iso_apps i" "iso_appendsOpenList i" as] by (auto simp: apps_rel_def)
  ultimately show thesis
    using r e by (intro that [where p = "iso_appendersPool i" and f = "iso_free i + 1"]) (auto simp: apps_rel_def)
qed

lemma field_appID: "field ia_appendID h a = map_option fst (field app_of h a)"
  by (cases "h a") (simp_all add: field_def app_of_def)

lemma write_node_Some: "h a = Some n \<Longrightarrow> write_node f a h = Some (h(a \<mapsto> f n))"
  by (simp add: write_node_def)

lemma map_field_other: "L \<notin> set as \<Longrightarrow> map (field f (h(L \<mapsto> n))) as = map (field f h) as"
  by (auto simp: field_upd)

lemma zip_snoc_map_of:
  assumes "length ids = length as" "k \<notin> set ids"
  shows "map_of (zip (ids @ [k]) (as @ [a])) = (map_of (zip ids as))(k \<mapsto> a)"
proof -
  have "map_of (zip (ids @ [k]) (as @ [a])) = [k \<mapsto> a] ++ map_of (zip ids as)" using assms(1) by simp
  also have "\<dots> = map_of (zip ids as) ++ [k \<mapsto> a]" using assms by (intro map_add_comm) simp
  finally show ?thesis by simp
qed

lemma ids_fresh:
  assumes "spec_ok sp" "sp_last sp + 1 \<noteq> 0"
  shows "sp_last sp + 1 \<notin> fst ` set (sp_open sp)" "sp_last sp < sp_last sp + 1"
proof -
  show lt: "sp_last sp < sp_last sp + 1" using assms(2) unatSuc [of "sp_last sp"] by (simp add: word_less_nat_alt add.commute)
  then show "sp_last sp + 1 \<notin> fst ` set (sp_open sp)" using assms(1) by (fastforce simp: spec_ok_def)
qed

lemma new_refines:
  assumes r: "iso_rel i sp" and ok: "spec_ok sp" and nowrap: "sp_last sp + 1 \<noteq> 0"
  shows "\<exists>i'. newAppendID minTime choice i = Some ((sp_last sp + 1, spec_low (spec_new minTime sp)), i') \<and> iso_rel i' (spec_new minTime sp)"
proof -
  let ?L = "iso_appendsOpenList i" and ?sp = "spec_new minTime sp"
  obtain as where as: "apps_rel i sp as" and rd: "reads_rel i sp" and nd: "\<not> iso_disabled i" using r by (auto simp: iso_rel_def)
  obtain l where l: "iso_apps i ?L = Some l" "ia_appendID l = sp_last sp" by (rule apps_rel_first [OF as])
  let ?h = "(iso_apps i)(?L \<mapsto> l\<lparr>ia_appendID := sp_last sp + 1\<rparr>)"
  obtain app i1 where g: "pool_Get choice i = (app, i1)" by (rule prod.exhaust)
  obtain p f where p: "i1 = i\<lparr>iso_appendersPool := p, iso_free := f\<rparr>" "app \<notin> insert ?L (set as)" "distinct p"
      "set p \<subseteq> set (iso_appendersPool i) - {app}" "app < f" "iso_free i \<le> f" by (rule pool_Get_spec [OF as g])
  let ?n = "\<lparr>ia_appendID = sp_last sp + 1, ia_minTime = minTime, ia_prev = 0, ia_next = 0\<rparr>"
  have ring: "ring ia_next ia_prev (iso_apps i) ?L as" using as by (simp add: apps_rel_def)
  have "ring ia_next ia_prev ?h ?L as" by (subst ring_cong [OF _ _]) (use ring l in \<open>auto simp: field_def\<close>)
  then have "ring ia_next ia_prev (?h(app \<mapsto> ?n)) ?L as" using p(2) by (rule ring_other)
  then have "ring ia_prev ia_next (?h(app \<mapsto> ?n)) ?L (rev as)" by (simp add: ring_rev)
  from apps_rev.link_front_ring [OF this, of app ?n] p(2) obtain h2 where
    h2: "link_front ia_prev (\<lambda>a. ia_prev_update (\<lambda>_. a)) (\<lambda>a. ia_next_update (\<lambda>_. a)) ?L app (?h(app \<mapsto> ?n)) = Some h2"
      "ring ia_prev ia_next h2 ?L (app # rev as)" "field app_of h2 = field app_of (?h(app \<mapsto> ?n))" by auto
  have ring2: "ring ia_next ia_prev h2 ?L (as @ [app])" using h2(2) ring_rev [of ia_prev ia_next h2 ?L "as @ [app]"] by simp
  let ?i2 = "i1\<lparr>iso_apps := h2, iso_appendsOpen := (iso_appendsOpen i)(sp_last sp + 1 \<mapsto> app)\<rparr>"
  have notin: "?L \<notin> set as" "app \<notin> set as" "app \<noteq> ?L" using ring p(2) by (auto simp: ring_def)
  have dom2: "dom h2 = insert app (dom (iso_apps i))"
  proof -
    have "dom h2 = dom (field app_of h2)" by (auto simp: field_def)
    also have "\<dots> = insert app (dom (iso_apps i))" unfolding h2(3) using l by (auto simp: field_def split: if_splits)
    finally show ?thesis .
  qed
  have len: "length (map fst (sp_open sp)) = length as" using as unfolding apps_rel_def by (metis length_map)
  have "field ia_appendID h2 ?L = Some (sp_last ?sp)"
    using notin by (simp add: field_appID h2(3) field_upd app_of_def spec_new_def)
  moreover have "map (field app_of h2) (as @ [app]) = map Some (sp_open ?sp)"
    using notin as by (simp add: h2(3) map_field_other apps_rel_def spec_new_def) (simp add: field_def app_of_def)
  moreover have "iso_appendsOpen ?i2 = map_of (zip (map fst (sp_open ?sp)) (as @ [app]))"
    using as zip_snoc_map_of [OF len, of "sp_last sp + 1" app] ids_fresh [OF ok nowrap] by (simp add: apps_rel_def spec_new_def)
  moreover have "\<forall>x \<in> dom h2. x < f"
  proof -
    have "\<forall>x \<in> dom (iso_apps i). x < f" using as by (intro below_mono [OF _ p(6)]) (simp add: apps_rel_def)
    then show ?thesis unfolding dom2 using p(5) by simp
  qed
  moreover have "set p \<inter> insert ?L (set (as @ [app])) = {}" "set p \<subseteq> dom h2"
    using as p(4) unfolding apps_rel_def dom2 by auto
  ultimately have "apps_rel ?i2 ?sp (as @ [app])"
    using p(3) ring2 unfolding apps_rel_def p(1) by simp
  moreover have "reads_rel ?i2 ?sp" using rd p(1) below_mono [OF _ p(6), of "dom (iso_states i)"] by (simp add: reads_rel_def spec_new_def)
  ultimately have rel: "iso_rel ?i2 ?sp" using nd p by (auto simp: iso_rel_def)
  have "(?h) ?L = Some (l\<lparr>ia_appendID := sp_last sp + 1\<rparr>)" by simp
  then have "newAppendID minTime choice i = Some ((sp_last sp + 1, spec_low ?sp), ?i2)"
    using nd l g h2(1) low_refines(1) [OF rel] by (simp add: newAppendID_def write_node_Some Let_def)
  with rel show ?thesis by blast
qed


lemma map_of_remove:
  "k \<notin> fst ` set z1 \<Longrightarrow> k \<notin> fst ` set z2 \<Longrightarrow> (map_of (z1 @ (k, a) # z2))(k := None) = map_of (z1 @ z2)"
proof (rule ext)
  fix x assume k: "k \<notin> fst ` set z1" "k \<notin> fst ` set z2"
  then have "map_of (z1 @ z2) k = None" unfolding map_of_eq_None_iff by auto
  then show "((map_of (z1 @ (k, a) # z2))(k := None)) x = map_of (z1 @ z2) x"
    by (cases "x = k") (simp_all add: map_add_def split: option.splits)
qed

lemma close_split:
  assumes "apps_rel i sp as" "iso_appendsOpen i k = Some app"
  obtains xs ys us t vs where "as = xs @ app # ys" "sp_open sp = us @ (k, t) # vs"
    "map (field app_of (iso_apps i)) xs = map Some us" "map (field app_of (iso_apps i)) ys = map Some vs"
    "length us = length xs" "length vs = length ys"
proof -
  let ?ids = "map fst (sp_open sp)"
  have len: "length as = length (sp_open sp)" using assms(1) unfolding apps_rel_def by (metis length_map)
  have "(k, app) \<in> set (zip ?ids as)" using assms by (auto simp: apps_rel_def dest: map_of_SomeD)
  then obtain j where j: "j < length as" "j < length (sp_open sp)" "fst (sp_open sp ! j) = k" "as ! j = app"
    by (auto simp: in_set_zip)
  let ?xs = "take j as" and ?ys = "drop (Suc j) as" and ?o1 = "take j (sp_open sp)" and ?o2 = "drop (Suc j) (sp_open sp)"
  have "as = ?xs @ app # ?ys" "sp_open sp = ?o1 @ (k, snd (sp_open sp ! j)) # ?o2"
    using id_take_nth_drop [OF j(1)] id_take_nth_drop [OF j(2)] j(3,4) by auto
  moreover have "map (field app_of (iso_apps i)) as = map Some (sp_open sp)" using assms(1) by (simp add: apps_rel_def)
  then have "map (field app_of (iso_apps i)) ?xs = map Some ?o1" "map (field app_of (iso_apps i)) ?ys = map Some ?o2"
    by (simp_all flip: take_map drop_map)
  ultimately show thesis using len by (intro that [where xs = ?xs and ys = ?ys and us = ?o1 and vs = ?o2]) simp_all
qed

lemma close_refines:
  assumes r: "iso_rel i sp" and ok: "spec_ok sp"
  shows "\<exists>i'. closeAppend k i = Some i' \<and> iso_rel i' (spec_close k sp)"
proof -
  let ?L = "iso_appendsOpenList i" and ?sp = "spec_close k sp"
  obtain as where as: "apps_rel i sp as" and rd: "reads_rel i sp" and nd: "\<not> iso_disabled i" using r by (auto simp: iso_rel_def)
  have len: "length (map fst (sp_open sp)) = length as" using as unfolding apps_rel_def by (metis length_map)
  show ?thesis
  proof (cases "iso_appendsOpen i k")
    case None
    then have "k \<notin> fst ` set (sp_open sp)" using as len by (simp add: apps_rel_def map_of_zip_is_None)
    then have "filter (\<lambda>e. fst e \<noteq> k) (sp_open sp) = sp_open sp" by (auto simp: filter_id_conv)
    then have "spec_close k sp = sp" by (cases sp) (simp add: spec_close_def)
    with None nd r show ?thesis by (simp add: closeAppend_def)
  next
    case (Some app)
    from close_split [OF as this] obtain xs ys us t vs where
      split: "as = xs @ app # ys" "sp_open sp = us @ (k, t) # vs" and
      fl: "map (field app_of (iso_apps i)) xs = map Some us" "map (field app_of (iso_apps i)) ys = map Some vs" and
      ln: "length us = length xs" "length vs = length ys" .
    have "distinct (map fst (sp_open sp))" using ok by (auto simp: spec_ok_def simp: strict_sorted_iff)
    then have nk: "k \<notin> fst ` set us" "k \<notin> fst ` set vs" using split by auto
    then have "filter (\<lambda>e. fst e \<noteq> k) us = us" "filter (\<lambda>e. fst e \<noteq> k) vs = vs" by (auto simp: filter_id_conv)
    then have op: "sp_open ?sp = us @ vs" using split by (simp add: spec_close_def)
    have ring: "ring ia_next ia_prev (iso_apps i) ?L (xs @ app # ys)" using as split by (simp add: apps_rel_def)
    then have notin: "app \<notin> insert ?L (set (xs @ ys))" by (auto simp: ring_def)
    from apps.unlink_ring [OF ring] obtain h where
      h: "unlink ia_next ia_prev (\<lambda>a. ia_next_update (\<lambda>_. a)) (\<lambda>a. ia_prev_update (\<lambda>_. a)) app (iso_apps i) = Some h"
        "ring ia_next ia_prev h ?L (xs @ ys)" "field app_of h = field app_of (iso_apps i)" by auto
    let ?z = "\<lparr>ia_appendID = 0, ia_minTime = 0, ia_prev = 0, ia_next = 0\<rparr>"
    let ?i = "i\<lparr>iso_apps := h(app \<mapsto> ?z), iso_appendsOpen := (iso_appendsOpen i)(k := None), iso_appendersPool := app # iso_appendersPool i\<rparr>"
    have "dom h = dom (field app_of (iso_apps i))" using h(3) by (simp flip: h(3)) (auto simp: field_def)
    also have "\<dots> = dom (iso_apps i)" by (auto simp: field_def)
    finally have dom: "dom (h(app \<mapsto> ?z)) = dom (iso_apps i)"
      using ring_stored [OF ring, of app] by auto
    have "ring ia_next ia_prev (h(app \<mapsto> ?z)) ?L (xs @ ys)" using h(2) notin by (rule ring_other)
    moreover have "field ia_appendID (h(app \<mapsto> ?z)) ?L = Some (sp_last ?sp)"
      using as notin h(3) by (simp add: field_upd apps_rel_def field_appID spec_close_def)
    moreover have "map (field app_of (h(app \<mapsto> ?z))) (xs @ ys) = map Some (sp_open ?sp)"
      using notin fl by (simp only: map_append op) (simp add: map_field_other h(3))
    moreover have "(iso_appendsOpen i)(k := None) = map_of (zip (map fst (sp_open ?sp)) (xs @ ys))"
    proof -
      have "iso_appendsOpen i = map_of (zip (map fst us) xs @ (k, app) # zip (map fst vs) ys)"
        using as split ln by (simp add: apps_rel_def)
      moreover have "k \<notin> fst ` set (zip (map fst us) xs)" "k \<notin> fst ` set (zip (map fst vs) ys)"
        using nk by (auto dest!: set_zip_leftD)
      ultimately show ?thesis using map_of_remove op ln by (simp add: )
    qed
    ultimately have "apps_rel ?i ?sp (xs @ ys)"
      using as notin dom ring_stored [OF ring, of app] split(1) unfolding apps_rel_def by auto
    moreover have "reads_rel ?i ?sp" using rd by (simp add: reads_rel_def spec_close_def)
    ultimately have "iso_rel ?i ?sp" using nd by (auto simp: iso_rel_def)
    moreover have "closeAppend k i = Some ?i" using Some h(1) nd by (simp add: closeAppend_def)
    ultimately show ?thesis by blast
  qed
qed

lemma state_refines:
  assumes r: "iso_rel i sp"
  shows "\<exists>i'. isolation_State mint maxt i = Some (iso_free i, i') \<and> iso_rel i' (spec_state (iso_free i) mint maxt sp) \<and>
    iso_free i \<notin> fst ` set (sp_reads sp)"
proof -
  let ?ro = "iso_readsOpen i" and ?r = "iso_free i" and ?rs = "map fst (sp_reads sp)"
  let ?sp = "spec_state ?r mint maxt sp"
  obtain as where as: "apps_rel i sp as" and rd: "reads_rel i sp" and nd: "\<not> iso_disabled i" using r by (auto simp: iso_rel_def)
  obtain l n where l: "iso_apps i (iso_appendsOpenList i) = Some l" "ia_appendID l = sp_last sp" "iso_apps i (ia_next l) = Some n"
    "ia_appendID n = spec_first sp" by (rule apps_rel_first [OF as])
  have ring: "ring is_next is_prev (iso_states i) ?ro ?rs" and below: "\<forall>x \<in> dom (iso_states i). x < ?r" using rd by (simp_all add: reads_rel_def)
  then have new: "?r \<notin> insert ?ro (set ?rs)" using ring_stored [OF ring, of ?r] by auto
  have len: "length (map fst (sp_open sp)) = length as" using as unfolding apps_rel_def by (metis length_map)
  have "dom (iso_appendsOpen i) = fst ` set (sp_open sp)" using as len by (simp add: apps_rel_def)
  then have inc: "dom (\<lambda>k. map_option (\<lambda>_. ()) (iso_appendsOpen i k)) = fst ` set (sp_open sp)" by (simp add: dom_def)
  define s where "s = \<lparr>is_maxAppendID = ia_appendID l, is_incompleteAppends = (\<lambda>k. map_option (\<lambda>_. ()) (iso_appendsOpen i k)),
    is_lowWatermark = ia_appendID n, is_mint = mint, is_maxt = maxt, is_next = 0, is_prev = 0\<rparr>"
  from states.link_front_ring [OF ring_other [OF ring new] new, of s s] obtain h where
    h: "link_front is_next (\<lambda>a. is_next_update (\<lambda>_. a)) (\<lambda>a. is_prev_update (\<lambda>_. a)) ?ro ?r ((iso_states i)(?r \<mapsto> s)) = Some h"
      "ring is_next is_prev h ?ro (?r # ?rs)" "field read_of h = field read_of ((iso_states i)(?r \<mapsto> s))" by auto
  let ?i = "i\<lparr>iso_states := h, iso_free := ?r + 1\<rparr>"
  have "isolation_State mint maxt i = Some (?r, ?i)" using l h(1) by (simp add: isolation_State_def s_def Let_def)
  moreover have "reads_rel ?i ?sp"
  proof -
    have "field read_of h (fst e) = Some (snd e)" if "e \<in> set (sp_reads sp)" for e
    proof -
      from that have "fst e \<in> set ?rs" by simp
      then have "fst e \<noteq> ?r" using new by (metis insertCI)
      then show ?thesis using that rd by (simp add: h(3) field_upd reads_rel_def)
    qed
    moreover have "field read_of h ?r = Some (snd (hd (sp_reads ?sp)))"
      using l(2,4) inc by (simp add: h(3) field_upd state_reads s_def read_of_def)
    ultimately have "\<forall>e \<in> set (sp_reads ?sp). field read_of h (fst e) = Some (snd e)" by (simp add: state_reads)
    moreover have "dom h = dom (field read_of h)" by (auto simp: field_def)
    then have "\<forall>x \<in> dom h. x < ?r + 1" unfolding h(3) field_upd using below_mono [OF below, of "?r + 1"] by (auto simp: field_def)
    ultimately show ?thesis using h(2) by (simp add: reads_rel_def spec_state_def)
  qed
  moreover have "apps_rel ?i ?sp as" using as below_mono [of "dom (iso_apps i)" ?r "?r + 1"] by (simp add: apps_rel_def spec_state_def)
  ultimately show ?thesis using nd new by (auto simp: iso_rel_def)
qed

lemma close_read_refines:
  assumes r: "iso_rel i sp" and h: "r \<in> fst ` set (sp_reads sp)"
  shows "\<exists>i'. isolationState_Close r i = Some i' \<and> iso_rel i' (spec_close_read r sp)"
proof -
  let ?ro = "iso_readsOpen i"
  obtain as where as: "apps_rel i sp as" and rd: "reads_rel i sp" and nd: "\<not> iso_disabled i" using r by (auto simp: iso_rel_def)
  from h obtain e us vs where split: "sp_reads sp = us @ e # vs" "fst e = r" by (fastforce dest: split_list)
  have ring: "ring is_next is_prev (iso_states i) ?ro (map fst us @ r # map fst vs)" using rd split by (simp add: reads_rel_def)
  then have "r \<notin> set (map fst us)" "r \<notin> set (map fst vs)" by (simp_all add: ring_def)
  then have "filter (\<lambda>e. fst e \<noteq> r) us = us" "filter (\<lambda>e. fst e \<noteq> r) vs = vs" by (auto simp: filter_id_conv)
  then have rs: "sp_reads (spec_close_read r sp) = us @ vs" using split by (simp add: spec_close_read_def)
  have "ring is_prev is_next (iso_states i) ?ro (rev (map fst vs) @ r # rev (map fst us))"
    using ring ring_rev [of is_prev is_next "iso_states i" ?ro "map fst us @ r # map fst vs"] by simp
  from states_rev.unlink_ring [OF this] obtain h where
    h: "unlink is_prev is_next (\<lambda>a. is_prev_update (\<lambda>_. a)) (\<lambda>a. is_next_update (\<lambda>_. a)) r (iso_states i) = Some h"
      "ring is_prev is_next h ?ro (rev (map fst vs) @ rev (map fst us))" "field read_of h = field read_of (iso_states i)" by auto
  let ?i = "i\<lparr>iso_states := h\<rparr>"
  have "dom h = dom (field read_of h)" by (auto simp: field_def)
  also have "\<dots> = dom (iso_states i)" unfolding h(3) by (auto simp: field_def)
  finally have "dom h = dom (iso_states i)" .
  moreover have "ring is_next is_prev h ?ro (map fst us @ map fst vs)"
    using h(2) ring_rev [of is_prev is_next h ?ro "map fst us @ map fst vs"] by simp
  ultimately have "reads_rel ?i (spec_close_read r sp)" using rd split unfolding reads_rel_def rs by (simp add: h(3))
  moreover have "apps_rel ?i (spec_close_read r sp) as" using as by (simp add: apps_rel_def spec_close_read_def)
  moreover have "isolationState_Close r i = Some ?i" using h(1) by (simp add: isolationState_Close_def)
  ultimately show ?thesis using nd by (auto simp: iso_rel_def)
qed

lemma last_refines: "iso_rel i sp \<Longrightarrow> lastAppendID i = Some (sp_last sp)"
  by (auto simp: iso_rel_def lastAppendID_def elim!: apps_rel_first)

lemma committed_refines:
  assumes "iso_rel i sp"
  shows "committedAppendID i = Some (if sp_open sp = [] then sp_last sp else spec_first sp - 1)"
proof -
  from assms obtain as where as: "apps_rel i sp as" and nd: "\<not> iso_disabled i" by (auto simp: iso_rel_def)
  obtain l n where "iso_apps i (iso_appendsOpenList i) = Some l" "ia_appendID l = sp_last sp" "iso_apps i (ia_next l) = Some n"
    "ia_appendID n = spec_first sp" "ia_next l = iso_appendsOpenList i \<longleftrightarrow> sp_open sp = []" by (rule apps_rel_first [OF as])
  with nd show ?thesis by (simp add: committedAppendID_def)
qed

text \<open>The loops over the lists return: they visit every node once.\<close>

lemma lowest_loop_links:
  assumes "links (field ia_next h) P a as s" "s \<notin> set as" "map (field app_of h) as = map Some es"
  shows "lowest_loop h s (hd (as @ [s])) lowest =
    Some (foldl (\<lambda>m e. if snd e <s m then snd e else m) lowest es)"
  using assms
proof (induction as arbitrary: a es lowest)
  case Nil
  then show ?case by (simp add: lowest_loop.simps)
next
  case (Cons x xs)
  then obtain e es' where es: "es = e # es'" "field app_of h x = Some e" "map (field app_of h) xs = map Some es'" by (cases es) auto
  then obtain n where n: "h x = Some n" "ia_minTime n = snd e" by (auto simp: field_def app_of_def)
  have "ia_next n = hd (xs @ [s])" using links_first [of "field ia_next h" P x xs s] Cons.prems(1) n by (simp add: field_def)
  with Cons.IH [of x es'] Cons.prems es n show ?case by (simp add: lowest_loop.simps [of h s x])
qed

lemma lowest_refines:
  assumes "iso_rel i sp"
  shows "lowestAppendTime i = Some (foldl (\<lambda>m e. if snd e <s m then snd e else m) MaxInt64 (sp_open sp))"
proof -
  from assms obtain as where as: "apps_rel i sp as" by (auto simp: iso_rel_def)
  obtain l where "iso_apps i (iso_appendsOpenList i) = Some l" "ia_next l = hd (as @ [iso_appendsOpenList i])" by (rule apps_rel_first [OF as])
  with as lowest_loop_links [of "iso_apps i" _ _ as "iso_appendsOpenList i" "sp_open sp"] show ?thesis
    by (auto simp: lowestAppendTime_def apps_rel_def ring_def)
qed

fun spec_traverse :: "(isolationState \<Rightarrow> 'x \<Rightarrow> bool \<times> 'x) \<Rightarrow> isolationState list \<Rightarrow> 'x \<Rightarrow> 'x" where
  "spec_traverse f [] x = x"
| "spec_traverse f (s # ss) x = (case f s x of (cont, x') \<Rightarrow> if cont then spec_traverse f ss x' else x')"

lemma traverse_loop_links:
  assumes "links (field is_next h) P a rs ro" "ro \<notin> set rs" "map h rs = map Some ss"
  shows "traverse_loop h ro f (hd (rs @ [ro])) x = Some (spec_traverse f ss x)"
  using assms
proof (induction rs arbitrary: a ss x)
  case Nil
  then show ?case by (simp add: traverse_loop.simps)
next
  case (Cons r rs)
  then obtain s ss' where ss: "ss = s # ss'" "h r = Some s" "map h rs = map Some ss'" by (cases ss) auto
  have "is_next s = hd (rs @ [ro])" using links_first [of "field is_next h" P r rs ro] Cons.prems(1) ss by (simp add: field_def)
  with Cons.IH [of r ss'] Cons.prems ss show ?case by (auto simp: traverse_loop.simps [of h ro f r] split: prod.splits)
qed

lemma traverse_refines:
  assumes "iso_rel i sp"
  obtains ss where "map (iso_states i) (map fst (sp_reads sp)) = map Some ss" "map read_of ss = map snd (sp_reads sp)"
    "TraverseOpenReads f i x = Some (spec_traverse f ss x)"
proof -
  let ?h = "iso_states i" and ?ro = "iso_readsOpen i" and ?rs = "map fst (sp_reads sp)"
  have rd: "reads_rel i sp" using assms by (simp add: iso_rel_def)
  define ss where "ss = map (the \<circ> ?h) ?rs"
  have "?h (fst e) = Some (the (?h (fst e))) \<and> read_of (the (?h (fst e))) = snd e" if "e \<in> set (sp_reads sp)" for e
    using rd that by (fastforce simp: reads_rel_def field_def)
  then have ss: "map ?h ?rs = map Some ss" "map read_of ss = map snd (sp_reads sp)" by (auto simp: ss_def)
  obtain n where n: "?h ?ro = Some n" "is_next n = hd (?rs @ [?ro])" using rd by (auto simp: reads_rel_def elim: ring_first)
  have "links (field is_next ?h) (field is_prev ?h) ?ro ?rs ?ro" "?ro \<notin> set ?rs" using rd by (auto simp: reads_rel_def ring_def)
  from traverse_loop_links [OF this ss(1)] n have "TraverseOpenReads f i x = Some (spec_traverse f ss x)"
    by (simp add: TraverseOpenReads_def)
  with ss show thesis by (rule that)
qed

section \<open>The invariant\<close>

lemma first_le:
  assumes "spec_ok sp"
  shows "spec_first sp \<le> sp_last sp" "k \<in> fst ` set (sp_open sp) \<Longrightarrow> spec_first sp \<le> k"
  using assms by (auto simp: spec_ok_def spec_first_def split: list.splits)

lemma first_mono:
  assumes "spec_ok sp"
  shows "spec_first sp \<le> spec_first (spec_close k sp)" "sp_last sp + 1 \<noteq> 0 \<Longrightarrow> spec_first sp \<le> spec_first (spec_new t sp)"
proof -
  have "spec_first sp \<le> fst e" if "filter (\<lambda>e. fst e \<noteq> k) (sp_open sp) = e # es" for e es
    using first_le(2) [OF assms, of "fst e"] filter_eq_ConsD [OF that] by auto
  then show "spec_first sp \<le> spec_first (spec_close k sp)"
    using first_le(1) [OF assms] by (auto simp: spec_first_def [of "spec_close k sp"] split: list.splits)
  show "spec_first sp \<le> spec_first (spec_new t sp)" if "sp_last sp + 1 \<noteq> 0"
    using ids_fresh(2) [OF assms that] by (auto simp: spec_first_def split: list.splits)
qed

lemma new_ok:
  assumes ok: "spec_ok sp" and nowrap: "sp_last sp + 1 \<noteq> 0"
  shows "spec_ok (spec_new t sp)"
proof -
  have lt: "sp_last sp < sp_last sp + 1" using ids_fresh(2) [OF ok nowrap] .
  have first: "spec_first sp \<le> spec_first (spec_new t sp)" using first_mono(2) [OF ok nowrap] .
  have "sorted_wrt (<) (map fst (sp_open (spec_new t sp)))"
    using ok lt by (auto simp: spec_ok_def sorted_wrt_append intro: le_less_trans)
  moreover have "\<forall>k \<in> fst ` set (sp_open (spec_new t sp)). 0 < k \<and> k \<le> sp_last (spec_new t sp)"
    using ok lt nowrap by (auto simp: spec_ok_def word_neq_0_conv intro: order_trans less_imp_le)
  ultimately show ?thesis
    using ok first lt unfolding spec_ok_def by (auto intro: order_trans less_imp_le)
qed

lemma close_ok:
  assumes ok: "spec_ok sp"
  shows "spec_ok (spec_close k sp)"
proof -
  have first: "spec_first sp \<le> spec_first (spec_close k sp)" using first_mono(1) [OF ok] .
  have "sorted_wrt (<) (map fst (filter (\<lambda>e. fst e \<noteq> k) (sp_open sp)))"
    using ok by (auto simp: spec_ok_def sorted_wrt_map intro: sorted_wrt_filter)
  then show ?thesis
    using ok first unfolding spec_ok_def by (auto intro: order_trans)
qed

lemma state_ok: "spec_ok sp \<Longrightarrow> spec_ok (spec_state r mint maxt sp)"
  using first_le [of sp] unfolding spec_ok_def by (auto simp: state_reads)

lemma close_read_ok: "spec_ok sp \<Longrightarrow> spec_ok (spec_close_read r sp)"
  unfolding spec_ok_def by (auto simp: sorted_wrt_filter)

text \<open>
  The low watermark of the oldest read is the lowest, and the reads see every append below it as
  complete.
\<close>

lemma low_le:
  assumes "spec_ok sp"
  shows "spec_low sp \<le> spec_first sp" "r \<in> snd ` set (sp_reads sp) \<Longrightarrow> spec_low sp \<le> ri_low r"
proof -
  show "spec_low sp \<le> spec_first sp"
  proof (cases "sp_reads sp = []")
    case False
    then have "snd (last (sp_reads sp)) \<in> snd ` set (sp_reads sp)" by simp
    with assms False show ?thesis unfolding spec_ok_def spec_low_def by auto
  qed (simp add: spec_low_def)
  show "spec_low sp \<le> ri_low r" if r: "r \<in> snd ` set (sp_reads sp)"
  proof -
    from r have ne: "sp_reads sp \<noteq> []" by auto
    then have "sp_reads sp = butlast (sp_reads sp) @ [last (sp_reads sp)]" by simp
    then obtain xs x where xs: "sp_reads sp = xs @ [x]" by blast
    with assms r show ?thesis by (auto simp: spec_ok_def spec_low_def sorted_wrt_append)
  qed
qed

lemma low_mono:
  assumes "spec_ok sp"
  shows "spec_low sp \<le> spec_low (spec_close k sp)" "sp_last sp + 1 \<noteq> 0 \<Longrightarrow> spec_low sp \<le> spec_low (spec_new t sp)"
    "spec_low sp \<le> spec_low (spec_state r mint maxt sp)" "spec_low sp \<le> spec_low (spec_close_read r sp)"
proof -
  show "spec_low sp \<le> spec_low (spec_close k sp)"
    using first_mono(1) [OF assms, of k] by (auto simp: spec_low_def)
  show "spec_low sp \<le> spec_low (spec_new t sp)" if "sp_last sp + 1 \<noteq> 0"
    using first_mono(2) [OF assms that, of t] by (auto simp: spec_low_def)
  show "spec_low sp \<le> spec_low (spec_state r mint maxt sp)" by (simp add: spec_low_def state_reads)
  show "spec_low sp \<le> spec_low (spec_close_read r sp)"
  proof (cases "sp_reads (spec_close_read r sp) = []")
    case True
    then have "spec_low (spec_close_read r sp) = spec_first sp" by (simp add: spec_low_def)
    with low_le(1) [OF assms] show ?thesis by simp
  next
    case False
    then have "last (sp_reads (spec_close_read r sp)) \<in> set (sp_reads sp)"
      using last_in_set [OF False] by simp
    with low_le(2) [OF assms] False show ?thesis by (auto simp: spec_low_def [of "spec_close_read r sp"])
  qed
qed

section \<open>Runs\<close>

text \<open>
  A state of the system is the isolation with the handles of the reads its clients have open. A
  client closes a read it has open, once; append ids do not run out.
\<close>

inductive iso_step :: "isolation \<times> addr set \<Rightarrow> isolation \<times> addr set \<Rightarrow> bool" where
  new_append: "newAppendID minTime choice i = Some (ids, i') \<Longrightarrow> lastAppendID i \<noteq> Some (-1) \<Longrightarrow> iso_step (i, R) (i', R)"
| close_append: "closeAppend k i = Some i' \<Longrightarrow> iso_step (i, R) (i', R)"
| open_read: "isolation_State mint maxt i = Some (r, i') \<Longrightarrow> iso_step (i, R) (i', insert r R)"
| close_read: "isolationState_Close r i = Some i' \<Longrightarrow> r \<in> R \<Longrightarrow> iso_step (i, R) (i', R - {r})"

abbreviation iso_start :: "isolation \<times> addr set" where
  "iso_start \<equiv> (newIsolation False, {})"

definition sys_rel :: "isolation \<times> addr set \<Rightarrow> iso_spec \<Rightarrow> bool" where
  "sys_rel S sp \<longleftrightarrow> iso_rel (fst S) sp \<and> spec_ok sp \<and> snd S = fst ` set (sp_reads sp)"

lemma start_rel: "sys_rel iso_start \<lparr>sp_last = 0, sp_open = [], sp_reads = []\<rparr>"
  using new_rel by (simp add: sys_rel_def spec_ok_def)

text \<open>The simulation: every step is matched by an operation of the specification.\<close>

lemma step_sim:
  assumes "iso_step S S'" "sys_rel S sp"
  obtains sp' where "sys_rel S' sp'" "spec_low sp \<le> spec_low sp'"
    "(\<exists>t. sp' = spec_new t sp) \<or> (\<exists>k. sp' = spec_close k sp) \<or> (\<exists>r mint maxt. sp' = spec_state r mint maxt sp) \<or> (\<exists>r. sp' = spec_close_read r sp)"
  using assms(1)
proof cases
  case (new_append minTime choice i ids i' R)
  with assms(2) have "iso_rel i sp" "spec_ok sp" "sp_last sp + 1 \<noteq> 0"
    using last_refines [of i sp] by (auto simp: sys_rel_def eq_neg_iff_add_eq_0)
  with new_refines [of i sp minTime choice] new_append new_ok low_mono(2) assms(2) show thesis
    by (intro that [of "spec_new minTime sp"]) (auto simp: sys_rel_def)
next
  case (close_append k i i' R)
  with assms(2) close_refines [of i sp k] close_ok low_mono(1) show thesis
    by (intro that [of "spec_close k sp"]) (auto simp: sys_rel_def)
next
  case (open_read mint maxt i r i' R)
  with assms(2) state_refines [of i sp mint maxt] state_ok low_mono(3) show thesis
    by (intro that [of "spec_state r mint maxt sp"]) (auto simp: sys_rel_def state_reads)
next
  case (close_read r i i' R)
  with assms(2) close_read_refines [of i sp r] close_read_ok low_mono(4) show thesis
    by (intro that [of "spec_close_read r sp"]) (auto simp: sys_rel_def)
qed

lemma run_sim: "iso_step\<^sup>*\<^sup>* S S' \<Longrightarrow> sys_rel S sp \<Longrightarrow> \<exists>sp'. sys_rel S' sp' \<and> spec_low sp \<le> spec_low sp'"
proof (induction rule: rtranclp_induct)
  case (step T U)
  then obtain sp1 where sp1: "sys_rel T sp1" "spec_low sp \<le> spec_low sp1" by blast
  from step_sim [OF step.hyps(2) sp1(1)] obtain sp2 where "sys_rel U sp2" "spec_low sp1 \<le> spec_low sp2" by blast
  with sp1 show ?case by (auto intro: order_trans)
qed auto

lemma reachable_rel:
  assumes "iso_step\<^sup>*\<^sup>* iso_start (i, R)"
  obtains sp where "iso_rel i sp" "spec_ok sp" "R = fst ` set (sp_reads sp)"
  using run_sim [OF assms start_rel] by (auto simp: sys_rel_def)

text \<open>Every open read shows the ids below the low watermark.\<close>

lemma below_watermark_shown:
  assumes "iso_step\<^sup>*\<^sup>* iso_start (i, R)" "lowWatermark i = Some lw" "k < lw" "r \<in> R"
  shows "\<exists>s. iso_states i r = Some s \<and> k \<le> is_maxAppendID s \<and> is_incompleteAppends s k = None"
proof -
  obtain sp where sp: "iso_rel i sp" "spec_ok sp" "R = fst ` set (sp_reads sp)" using assms(1) by (rule reachable_rel)
  have lw: "lw = spec_low sp" using low_refines(2) [OF sp(1)] assms(2) by simp
  from assms(4) sp(3) obtain e where e: "e \<in> set (sp_reads sp)" "fst e = r" by auto
  then obtain s where s: "iso_states i r = Some s" "snd e = read_of s" using sp(1) by (auto simp: iso_rel_def reads_rel_def field_def)
  have "k < is_lowWatermark s" using assms(3) lw low_le(2) [OF sp(2) imageI [OF e(1)]] s(2) by (simp add: less_le_trans)
  moreover have "is_lowWatermark s \<le> is_maxAppendID s" "\<forall>k \<in> dom (is_incompleteAppends s). is_lowWatermark s \<le> k"
    using sp(2) e(1) s(2) unfolding spec_ok_def by force+
  ultimately have "k \<le> is_maxAppendID s" "k \<notin> dom (is_incompleteAppends s)" by (simp, metis leD)
  then show ?thesis using s(1) by (intro exI [of _ s]) (simp add: domIff del: not_None_eq)
qed

section \<open>Properties\<close>

text \<open>
  C35. In every state that appends and reads can lead to, no method follows a nil pointer and the
  loops over the linked lists end: every call returns.
\<close>

theorem isolation_methods_return:
  assumes "iso_step\<^sup>*\<^sup>* iso_start (i, R)"
  shows "(lastAppendID i \<noteq> Some (-1) \<longrightarrow> newAppendID minTime choice i \<noteq> None) \<and> closeAppend k i \<noteq> None \<and>
    isolation_State mint maxt i \<noteq> None \<and> (\<forall>r \<in> R. isolationState_Close r i \<noteq> None) \<and> lowWatermark i \<noteq> None \<and>
    lastAppendID i \<noteq> None \<and> committedAppendID i \<noteq> None \<and> lowestAppendTime i \<noteq> None \<and> TraverseOpenReads f i x \<noteq> None"
proof -
  obtain sp where sp: "iso_rel i sp" "spec_ok sp" "R = fst ` set (sp_reads sp)" using assms by (rule reachable_rel)
  have "newAppendID minTime choice i \<noteq> None" if "lastAppendID i \<noteq> Some (-1)"
    using new_refines [OF sp(1,2), of minTime choice] that last_refines [OF sp(1)] by (auto simp: eq_neg_iff_add_eq_0)
  moreover have "closeAppend k i \<noteq> None" using close_refines [OF sp(1,2), of k] by auto
  moreover have "isolation_State mint maxt i \<noteq> None" using state_refines [OF sp(1), of mint maxt] by auto
  moreover have "\<forall>r \<in> R. isolationState_Close r i \<noteq> None" using close_read_refines [OF sp(1)] sp(3) by fastforce
  moreover have "TraverseOpenReads f i x \<noteq> None" by (rule traverse_refines [OF sp(1), of f x]) simp
  ultimately show ?thesis
    using low_refines(2) [OF sp(1)] last_refines [OF sp(1)] committed_refines [OF sp(1)] lowest_refines [OF sp(1)] by simp
qed

text \<open>A run of three appends, one of them closed, with two open reads.\<close>

definition ex_i1 :: isolation where "ex_i1 = snd (the (newAppendID 100 None (newIsolation False)))"
definition ex_i2 :: isolation where "ex_i2 = snd (the (newAppendID 50 None ex_i1))"
definition ex_i3 :: isolation where "ex_i3 = snd (the (isolation_State 0 9 ex_i2))"
definition ex_i4 :: isolation where "ex_i4 = the (closeAppend 1 ex_i3)"
definition ex_i5 :: isolation where "ex_i5 = snd (the (newAppendID 70 (Some 0) ex_i4))"

lemmas ex_iso_defs = ex_i1_def ex_i2_def ex_i3_def ex_i4_def ex_i5_def newAppendID_def closeAppend_def isolation_State_def newIsolation_def
  pool_Get_def link_front_def unlink_def write_node_def lowWatermarkLocked_def lastAppendID_def Let_def

lemma ex_steps:
  "newAppendID 100 None (newIsolation False) = Some ((1, 1), ex_i1)" "newAppendID 50 None ex_i1 = Some ((2, 1), ex_i2)"
  "isolation_State 0 9 ex_i2 = Some (5, ex_i3)" "closeAppend 1 ex_i3 = Some ex_i4" "newAppendID 70 (Some 0) ex_i4 = Some ((3, 1), ex_i5)"
  by (simp_all add: ex_iso_defs)

lemma ex_run: "iso_step\<^sup>*\<^sup>* iso_start (ex_i5, {5})"
proof -
  have "iso_step\<^sup>*\<^sup>* iso_start (ex_i1, {})" by (rule r_into_rtranclp, rule new_append [OF ex_steps(1)]) (simp add: ex_iso_defs)
  also have "iso_step (ex_i1, {}) (ex_i2, {})" by (rule new_append [OF ex_steps(2)]) (simp add: ex_iso_defs)
  also have "iso_step (ex_i2, {}) (ex_i3, {5})" by (rule open_read [OF ex_steps(3)])
  also have "iso_step (ex_i3, {5}) (ex_i4, {5})" by (rule close_append [OF ex_steps(4)])
  also have "iso_step (ex_i4, {5}) (ex_i5, {5})" by (rule new_append [OF ex_steps(5)]) (simp add: ex_iso_defs)
  finally show ?thesis .
qed

theorem isolation_methods_return_witness:
  "newAppendID 80 None ex_i5 \<noteq> None \<and> isolationState_Close 5 ex_i5 \<noteq> None \<and> lowestAppendTime ex_i5 \<noteq> None \<and>
    TraverseOpenReads (\<lambda>s n. (True, n + 1)) ex_i5 (0 :: nat) \<noteq> None"
proof -
  have "lastAppendID ex_i5 \<noteq> Some (-1)" by (simp add: ex_iso_defs)
  with isolation_methods_return [OF ex_run, of 80 None 0 0 0 "\<lambda>s n. (True, n + 1)" "0 :: nat"] show ?thesis by blast
qed

text \<open>
  C34. The low watermark is safe: in every reachable state an append id below it belongs to no open
  append, and every open read sees it as complete, so the ids below it need not be kept any longer.
\<close>

theorem isolation_watermark_safe:
  assumes "iso_step\<^sup>*\<^sup>* iso_start (i, R)" "lowWatermark i = Some lw" "k < lw"
  shows "iso_appendsOpen i k = None \<and>
    (\<forall>r \<in> R. \<exists>s. iso_states i r = Some s \<and> k \<le> is_maxAppendID s \<and> is_incompleteAppends s k = None)"
proof -
  obtain sp where sp: "iso_rel i sp" "spec_ok sp" "R = fst ` set (sp_reads sp)" using assms(1) by (rule reachable_rel)
  have lw: "lw = spec_low sp" using low_refines(2) [OF sp(1)] assms(2) by simp
  have "k \<notin> fst ` set (sp_open sp)" using first_le(2) [OF sp(2), of k] low_le(1) [OF sp(2)] assms(3) lw by (metis leD less_le_trans)
  moreover obtain as where "apps_rel i sp as" using sp(1) by (auto simp: iso_rel_def)
  moreover from this have "length (map fst (sp_open sp)) = length as" unfolding apps_rel_def by (metis length_map)
  ultimately have "iso_appendsOpen i k = None" by (simp add: apps_rel_def map_of_zip_is_None)
  then show ?thesis using below_watermark_shown [OF assms] by blast
qed

theorem isolation_watermark_safe_witness:
  "lowWatermark ex_i5 = Some 1 \<and> iso_appendsOpen ex_i5 0 = None \<and>
    (\<exists>s. iso_states ex_i5 5 = Some s \<and> 0 \<le> is_maxAppendID s \<and> is_incompleteAppends s 0 = None)"
proof -
  have "lowWatermark ex_i5 = Some 1" by (simp add: ex_iso_defs lowWatermark_def)
  with isolation_watermark_safe [OF ex_run this, of 0] show ?thesis by simp
qed

text \<open>The low watermark never goes back, whatever appends and reads start and end.\<close>

theorem isolation_watermark_monotone:
  assumes "iso_step\<^sup>*\<^sup>* iso_start S" "iso_step\<^sup>*\<^sup>* S S'" "lowWatermark (fst S) = Some lw" "lowWatermark (fst S') = Some lw'"
  shows "lw \<le> lw'"
proof -
  obtain sp where sp: "sys_rel S sp" using run_sim [OF assms(1) start_rel] by blast
  obtain sp' where "sys_rel S' sp'" "spec_low sp \<le> spec_low sp'" using run_sim [OF assms(2) sp] by blast
  with sp assms(3,4) low_refines(2) show ?thesis by (auto simp: sys_rel_def)
qed

text \<open>
  \<open>committedAppendID\<close> is the highest id such that it and all lower ones belong to no open append:
  the next one is open, or all ids given out so far are committed.
\<close>

theorem isolation_committed_id:
  assumes "iso_step\<^sup>*\<^sup>* iso_start (i, R)" "committedAppendID i = Some c"
  shows "(\<forall>k. k \<le> c \<longrightarrow> iso_appendsOpen i k = None) \<and> (iso_appendsOpen i (c + 1) \<noteq> None \<or> lastAppendID i = Some c)"
proof -
  obtain sp where sp: "iso_rel i sp" "spec_ok sp" using assms(1) by (rule reachable_rel)
  obtain as where as: "apps_rel i sp as" using sp(1) by (auto simp: iso_rel_def)
  then have "length (map fst (sp_open sp)) = length as" unfolding apps_rel_def by (metis length_map)
  with as have op: "iso_appendsOpen i k = None \<longleftrightarrow> k \<notin> fst ` set (sp_open sp)" for k
    by (simp add: apps_rel_def map_of_zip_is_None)
  have c: "c = (if sp_open sp = [] then sp_last sp else spec_first sp - 1)" using committed_refines [OF sp(1)] assms(2) by simp
  show ?thesis
  proof (cases "sp_open sp = []")
    case True
    then show ?thesis using c last_refines [OF sp(1)] by (simp add: op)
  next
    case False
    then have first: "spec_first sp \<in> fst ` set (sp_open sp)" by (auto simp: spec_first_def neq_Nil_conv)
    then have "spec_first sp \<noteq> 0" using sp(2) by (auto simp: spec_ok_def word_neq_0_conv)
    then have "c < spec_first sp" using c False by (simp add: word_less_nat_alt unat_minus_one word_neq_0_conv)
    then have "iso_appendsOpen i k = None" if "k \<le> c" for k
      using that first_le(2) [OF sp(2), of k] unfolding op by (metis leD le_less_trans)
    then show ?thesis using c False first by (simp add: op)
  qed
qed

end
