(* ===== verification/HeadSeriesCorrect.thy ===== *)
theory HeadSeriesCorrect
  imports HeadSeries IsolationCorrect
begin

text \<open>
  The chunks of a series stand for one sequence, m-mapped chunks first, then the head chunks from
  the oldest to the newest. Chunk ids address this sequence and keep their meaning when chunks move
  to disk or are dropped; a read sees of every chunk exactly the part that lies before the first
  sample its isolation state hides.
\<close>

section \<open>Chunk ids\<close>

lemma mask_23: "oooChunkIDMask - 1 = (mask 23 :: uint64)"
  by (simp add: oooChunkIDMask_def mask_eq_exp_minus_1 push_bit_eq_mult)

lemma wrap_take_bit: "wrapChunkID i = take_bit 23 i"
  by (simp add: wrapChunkID_def mask_23 take_bit_eq_mask)

lemma wrap_diff: "wrapChunkID (wrapChunkID a - wrapChunkID b) = wrapChunkID (a - b)"
proof -
  have tb: "uint (wrapChunkID x) = take_bit 23 (uint x)" for x by (simp add: wrap_take_bit unsigned_take_bit_eq)
  have d: "take_bit 23 (uint (x - y)) = take_bit 23 (uint x - uint y)" for x y :: uint64
    by (simp add: uint_word_ariths take_bit_eq_mod mod_mod_cancel)
  have "take_bit 23 (uint (wrapChunkID a - wrapChunkID b)) = take_bit 23 (uint (a - b))"
    unfolding d tb by (rule take_bit_diff)
  then show ?thesis by (metis tb word_uint_eq_iff)
qed

lemma wrap_congs: "wrapChunkID (wrapChunkID a - b) = wrapChunkID (a - b)" "wrapChunkID (a - wrapChunkID b) = wrapChunkID (a - b)"
  by (metis wrap_diff wrap_take_bit take_bit_take_bit min.idem)+

lemma unat_wrap: "unat (wrapChunkID (word_of_int x)) = nat (x mod 2 ^ 23)"
proof -
  have "uint (take_bit 23 (word_of_int x :: uint64)) = take_bit 23 x"
    by (simp add: unsigned_take_bit_eq unsigned_of_int take_bit_take_bit min_def)
  then have "nat (uint (take_bit 23 (word_of_int x :: uint64))) = nat (x mod 2 ^ 23)" by (simp only: take_bit_eq_mod)
  then show ?thesis by (simp only: wrap_take_bit nat_uint_eq)
qed

text \<open>The position of an id, relative to a first id that has moved on by \<open>k\<close> chunks.\<close>

lemma position_of_id:
  assumes "pos < 2 ^ 23" "wrapChunkID f' = wrapChunkID (firstChunkID s + of_nat k)" "k < 2 ^ 23"
  shows "unat (wrapChunkID (headChunkID s pos - f')) = (if k \<le> pos then pos - k else 2 ^ 23 + pos - k)"
proof -
  have "wrapChunkID (headChunkID s pos - f') = wrapChunkID (of_nat pos + firstChunkID s - (firstChunkID s + of_nat k))"
    by (metis assms(2) headChunkID_def wrap_congs)
  also have "\<dots> = wrapChunkID (word_of_int (int pos - int k))" by simp
  finally have "unat (wrapChunkID (headChunkID s pos - f')) = nat ((int pos - int k) mod 2 ^ 23)" by (simp only: unat_wrap)
  moreover have "(int pos - int k) mod 2 ^ 23 = (if k \<le> pos then int pos - int k else 2 ^ 23 + int pos - int k)"
  proof (cases "k \<le> pos")
    case False
    have "(int pos - int k) mod 2 ^ 23 = (int pos - int k + 2 ^ 23) mod 2 ^ 23" by simp
    also have "\<dots> = int pos - int k + 2 ^ 23" using False assms(1,3) by (intro mod_pos_pos_trivial) auto
    finally show ?thesis using False by simp
  qed (use assms(1) in \<open>simp add: mod_pos_pos_trivial\<close>)
  ultimately show ?thesis using assms(3) by (auto simp: nat_diff_distrib)
qed

section \<open>The sequence of chunks\<close>

definition chunk_seq :: "('c, 'o) memSeries \<Rightarrow> (mmappedChunk + 'c memChunk) list" where
  "chunk_seq s = map Inl (mmappedChunks s) @ map Inr (rev (headChunks s))"

definition ms_ok :: "('c, 'o) memSeries \<Rightarrow> bool" where
  "ms_ok s \<longleftrightarrow> unat (headChunkCount s) = length (headChunks s) \<and> length (chunk_seq s) < 2 ^ 23"

lemma seq_length: "length (chunk_seq s) = length (mmappedChunks s) + length (headChunks s)"
  by (simp add: chunk_seq_def)

fun lookup_item :: "(uint64 \<Rightarrow> disk_error + 'c) \<Rightarrow> mmappedChunk + 'c memChunk \<Rightarrow> bool \<Rightarrow> (lookup_error + 'c memChunk \<times> bool \<times> bool) option" where
  "lookup_item read (Inl m) open_chunk =
     (case read (mm_ref m) of
        Inl CorruptionErr \<Rightarrow> None
      | Inl OtherErr \<Rightarrow> Some (Inl DiskErr)
      | Inr chk \<Rightarrow> Some (Inr (\<lparr>mc_chunk = chk, mc_minTime = mm_minTime m, mc_maxTime = mm_maxTime m\<rparr>, False, False)))"
| "lookup_item read (Inr c) open_chunk = Some (Inr (c, True, open_chunk))"

lemma chunk_lookup:
  assumes "ms_ok s"
  shows "memSeries_chunk read s i None =
    (let ix = unat (wrapChunkID (i - firstChunkID s)) in
     if ix < length (chunk_seq s) then lookup_item read (chunk_seq s ! ix) (Suc ix = length (chunk_seq s)) else Some (Inl ErrNotFound))"
proof -
  define ix where "ix = unat (wrapChunkID (i - firstChunkID s))"
  let ?m = "length (mmappedChunks s)" and ?h = "length (headChunks s)"
  have cnt: "unat (headChunkCount s) = ?h" using assms by (simp add: ms_ok_def)
  consider "ix < ?m" | "?m \<le> ix" "ix < ?m + ?h" | "?m + ?h \<le> ix" by linarith
  then show ?thesis
  proof cases
    case 2
    then have "?h - (ix - ?m) - 1 < ?h" by auto
    moreover have "chunk_seq s ! ix = Inr (headChunks s ! (?h - (ix - ?m) - 1))"
      using 2 by (simp add: chunk_seq_def nth_append rev_nth)
    moreover have "?h - (ix - ?m) - 1 = 0 \<longleftrightarrow> Suc ix = ?m + ?h" using 2 by auto
    ultimately show ?thesis
      using 2 unfolding memSeries_chunk_def ix_def [symmetric] Let_def seq_length cnt walk_head_def by auto
  qed (auto simp: memSeries_chunk_def ix_def [symmetric] Let_def seq_length cnt chunk_seq_def nth_append)
qed

text \<open>Dropping chunks from the front of the sequence.\<close>

definition dropped :: "('c, 'o) memSeries \<Rightarrow> ('c, 'o) memSeries \<Rightarrow> nat \<Rightarrow> bool" where
  "dropped s s' k \<longleftrightarrow> k \<le> length (chunk_seq s) \<and> chunk_seq s' = drop k (chunk_seq s) \<and>
     unat (headChunkCount s') = length (headChunks s') \<and>
     wrapChunkID (firstChunkID s') = wrapChunkID (firstChunkID s + of_nat k)"

lemma wrap_wrap: "wrapChunkID (wrapChunkID x) = wrapChunkID x"
  by (simp add: wrap_take_bit)

lemma truncate_head_dropped:
  assumes "ms_ok s" "headChunks s = pre @ rest" "i = length pre" "truncate_head mint i rest s = (r, s')"
  shows "(r = 0 \<and> s' = s \<or> 0 < r \<and> mmappedChunks s' = []) \<and> dropped s s' r"
  using assms
proof (induction mint i rest s arbitrary: pre rule: truncate_head.induct)
  case (1 mint i s)
  then show ?case by (simp add: dropped_def ms_ok_def)
next
  case (2 mint i chk rest s)
  show ?case
  proof (cases "mc_maxTime chk <s mint")
    case False
    with 2 show ?thesis using "2.IH" [OF False, of "pre @ [chk]"] by simp
  next
    case True
    have "length (headChunks s) < 2 ^ 23" using "2.prems"(1) by (simp add: ms_ok_def seq_length)
    then have "unat (of_nat i :: uint32) = i" using "2.prems"(2,3) by (simp add: unat_of_nat take_bit_nat_eq_self)
    moreover have "drop (length (chk # rest) + length (mmappedChunks s)) (chunk_seq s) = map Inr (rev pre)"
      using "2.prems"(2) by (simp add: chunk_seq_def)
    ultimately show ?thesis
      using True "2.prems"
      by (auto simp: Let_def dropped_def setHeadChunks_def chunk_seq_def [of s'] seq_length wrap_wrap)
  qed
qed

lemma truncate_mmapped_dropped:
  assumes "ms_ok s" "truncate_mmapped mint 0 s = (r, s')"
  shows "dropped s s' r"
proof -
  let ?pre = "length (takeWhile (\<lambda>c. mm_maxTime c <s mint) (mmappedChunks s))"
  have "?pre \<le> length (mmappedChunks s)" by (rule length_takeWhile_le)
  then show ?thesis
    using assms by (auto simp: truncate_mmapped_def dropped_def ms_ok_def chunk_seq_def wrap_wrap Let_def drop_map split: if_splits)
qed

lemma truncate_dropped:
  assumes ok: "ms_ok s" and t: "truncateChunksBefore mint minRef s = (n, s')"
  shows "\<exists>k. dropped s s' k"
proof -
  obtain r1 s1 where h: "truncate_head mint 0 (headChunks s) s = (r1, s1)" by (rule prod.exhaust)
  obtain r2 s2 where m: "truncate_mmapped mint r1 s1 = (r2, s2)" by (rule prod.exhaust)
  have d1: "(r1 = 0 \<and> s1 = s \<or> 0 < r1 \<and> mmappedChunks s1 = [])" "dropped s s1 r1"
    using truncate_head_dropped [OF ok, of "[]" "headChunks s" 0 mint r1 s1] h by auto
  have "\<exists>k. dropped s s2 k"
  proof (cases "r1 = 0")
    case True
    then show ?thesis using d1(1) m truncate_mmapped_dropped [OF ok] by auto
  next
    case False
    then have "s2 = s1" using d1(1) m by (simp add: truncate_mmapped_def)
    then show ?thesis using d1(2) by auto
  qed
  moreover have "chunk_seq s' = chunk_seq s2 \<and> firstChunkID s' = firstChunkID s2 \<and> headChunkCount s' = headChunkCount s2 \<and> headChunks s' = headChunks s2"
    using t h m by (auto simp: truncateChunksBefore_def truncate_ooo_def chunk_seq_def Let_def split: option.splits if_splits)
  ultimately show ?thesis by (simp add: dropped_def)
qed

lemma dropped_lookup:
  assumes "ms_ok s" "dropped s s' k" "pos < length (chunk_seq s)"
  shows "ms_ok s'" "memSeries_chunk read s' (headChunkID s pos) None =
    (if pos < k then Some (Inl ErrNotFound) else memSeries_chunk read s (headChunkID s pos) None)"
proof -
  have n: "length (chunk_seq s) < 2 ^ 23" and k: "k \<le> length (chunk_seq s)" and seq: "chunk_seq s' = drop k (chunk_seq s)"
    and w: "wrapChunkID (firstChunkID s') = wrapChunkID (firstChunkID s + of_nat k)"
    using assms by (simp_all add: ms_ok_def dropped_def)
  show ok: "ms_ok s'" using assms(2) n by (simp add: ms_ok_def dropped_def)
  have p: "unat (wrapChunkID (headChunkID s pos - firstChunkID s')) = (if k \<le> pos then pos - k else 2 ^ 23 + pos - k)"
    using assms(3) n k w by (intro position_of_id) auto
  have p0: "unat (wrapChunkID (headChunkID s pos - firstChunkID s)) = pos"
    using assms(3) n by (subst position_of_id [where k = 0]) auto
  show "memSeries_chunk read s' (headChunkID s pos) None =
    (if pos < k then Some (Inl ErrNotFound) else memSeries_chunk read s (headChunkID s pos) None)"
  proof (cases "pos < k")
    case True
    then show ?thesis unfolding chunk_lookup [OF ok] Let_def p seq using assms(3) n k by auto
  next
    case False
    then have "Suc (pos - k) = length (chunk_seq s) - k \<longleftrightarrow> Suc pos = length (chunk_seq s)" using assms(3) by auto
    then show ?thesis
      unfolding chunk_lookup [OF ok] chunk_lookup [OF assms(1)] Let_def p p0 seq using False assms(3) by auto
  qed
qed

section \<open>The other operations\<close>

lemma mmap_all_seq:
  assumes "mmap_all num enc write chks ms d = Some (ms', d')"
  shows "\<exists>new. ms' = ms @ new \<and> length new = length chks \<and>
    (\<forall>j < length chks. mm_minTime (new ! j) = mc_minTime (chks ! j) \<and> mm_maxTime (new ! j) = mc_maxTime (chks ! j) \<and>
       mm_numSamples (new ! j) = of_nat (num (mc_chunk (chks ! j))))"
  using assms
proof (induction chks arbitrary: ms d)
  case (Cons chk chks)
  then obtain ref d1 where w: "write chk d = Some (ref, d1)" by (auto split: option.splits)
  let ?m = "\<lparr>mm_ref = ref, mm_numSamples = of_nat (num (mc_chunk chk)), mm_encoding = enc (mc_chunk chk), mm_minTime = mc_minTime chk, mm_maxTime = mc_maxTime chk\<rparr>"
  from Cons.IH [of "ms @ [?m]" d1] Cons.prems w obtain new where
    "ms' = ms @ ?m # new" "length new = length chks"
    "\<forall>j < length chks. mm_minTime (new ! j) = mc_minTime (chks ! j) \<and> mm_maxTime (new ! j) = mc_maxTime (chks ! j) \<and>
       mm_numSamples (new ! j) = of_nat (num (mc_chunk (chks ! j)))" by auto
  then show ?case by (intro exI [of _ "?m # new"]) (auto simp: nth_Cons split: nat.splits)
qed simp

fun item_times :: "mmappedChunk + 'c memChunk \<Rightarrow> int64 \<times> int64" where
  "item_times (Inl m) = (mm_minTime m, mm_maxTime m)"
| "item_times (Inr c) = (mc_minTime c, mc_maxTime c)"

fun item_samples :: "('c \<Rightarrow> nat) \<Rightarrow> mmappedChunk + 'c memChunk \<Rightarrow> nat" where
  "item_samples num (Inl m) = unat (mm_numSamples m)"
| "item_samples num (Inr c) = num (mc_chunk c)"

lemma mmapChunks_seq:
  assumes ok: "ms_ok s" and m: "mmapChunks num enc write s d = Some (n, s', d')"
    and small: "\<forall>c \<in> set (headChunks s). num (mc_chunk c) < 2 ^ 16"
  shows "ms_ok s' \<and> firstChunkID s' = firstChunkID s \<and> map item_times (chunk_seq s') = map item_times (chunk_seq s) \<and>
    map (item_samples num) (chunk_seq s') = map (item_samples num) (chunk_seq s)"
proof (cases "length (headChunks s) < 2")
  case True
  then show ?thesis using ok m by (simp add: mmapChunks_def)
next
  case False
  then obtain c hs where hs: "headChunks s = c # hs" "hs \<noteq> []" by (cases "headChunks s") auto
  obtain ms where ms: "mmap_all num enc write (rev hs) (mmappedChunks s) d = Some (ms, d')"
      and s': "s' = setHeadChunks [c] 1 (s\<lparr>mmappedChunks := ms\<rparr>)"
    using m hs by (auto simp: mmapChunks_def collectHeadChunks_def Let_def split: option.splits)
  obtain new where new: "ms = mmappedChunks s @ new" "length new = length hs"
      "\<forall>j < length hs. mm_minTime (new ! j) = mc_minTime (rev hs ! j) \<and> mm_maxTime (new ! j) = mc_maxTime (rev hs ! j) \<and>
         mm_numSamples (new ! j) = of_nat (num (mc_chunk (rev hs ! j)))"
    using mmap_all_seq [OF ms] by auto
  have "map (item_times \<circ> Inl) new = map (item_times \<circ> Inr) (rev hs)" using new by (intro nth_equalityI) auto
  moreover have "map (item_samples num \<circ> Inl) new = map (item_samples num \<circ> Inr) (rev hs)"
  proof (intro nth_equalityI)
    fix j assume "j < length (map (item_samples num \<circ> Inl) new)"
    then have j: "j < length hs" using new by simp
    then have "rev hs ! j \<in> set (headChunks s)" using hs nth_mem [of j "rev hs"] by auto
    then have "num (mc_chunk (rev hs ! j)) < 2 ^ 16" using small by blast
    then show "map (item_samples num \<circ> Inl) new ! j = map (item_samples num \<circ> Inr) (rev hs) ! j"
      using j new by (simp add: unat_of_nat take_bit_nat_eq_self)
  qed (use new in simp)
  ultimately show ?thesis
    using ok hs new(1,2) by (simp add: s' setHeadChunks_def ms_ok_def chunk_seq_def)
qed

lemma push_seq:
  assumes "ms_ok s" "pushHeadChunk c s = Some s'"
  shows "ms_ok s' \<and> firstChunkID s' = firstChunkID s \<and> chunk_seq s' = chunk_seq s @ [Inr c]"
proof -
  have lt: "length (mmappedChunks s) + unat (headChunkCount s) < 2 ^ 23 - 1"
    and s': "s' = s\<lparr>headChunks := c # headChunks s, headChunkCount := headChunkCount s + 1\<rparr>"
    using assms(2) by (auto simp: pushHeadChunk_def mask_23 mask_eq_exp_minus_1 split: if_splits)
  then have "unat (headChunkCount s + 1) = unat (headChunkCount s) + 1" by (simp add: unat_add32)
  then show ?thesis using assms(1) lt by (simp add: s' ms_ok_def chunk_seq_def)
qed

section \<open>What a read sees\<close>

lemma scan_visit:
  assumes "tx_visit n it = Some xs"
  shows "scan_ids st index n it = Some (if list_all (shown st) xs then None else Some (index + length (takeWhile (shown st) xs)))"
  using assms
proof (induction n arbitrary: it xs index)
  case (Suc n)
  then obtain x ys where x: "txRingIterator_At it = Some x" "tx_visit n (txRingIterator_Next it) = Some ys" "xs = x # ys"
    by (auto simp: Option.bind_eq_Some_conv)
  then show ?case using Suc.IH [OF x(2), of "index + 1"] by auto
qed simp

lemma head_before_enum:
  "(\<Sum>(k, n) \<leftarrow> enumerate k0 ns. if int (k0 + length ns) - 1 - int k < x then int n else 0) = int (sum_list (take (nat x) (rev ns)))"
proof (induction ns arbitrary: k0)
  case (Cons n ns)
  have "(\<Sum>(k, n) \<leftarrow> enumerate (Suc k0) ns. if int (k0 + length (n # ns)) - 1 - int k < x then int n else 0) =
      int (sum_list (take (nat x) (rev ns)))" using Cons.IH [of "Suc k0"] by simp
  moreover have "int (length ns) < x \<longleftrightarrow> length ns < nat x" by linarith
  moreover have "take (nat x) (rev (n # ns)) = take (nat x) (rev ns) @ (if length ns < nat x then [n] else [])"
    by (cases "nat x - length ns") auto
  ultimately show ?case by simp
qed simp

lemma head_before_take: "head_before (int (length ns) - 1) x ns = int (sum_list (take (nat x) (rev ns)))"
  unfolding head_before_def using head_before_enum [of 0 ns x] by simp

abbreviation seq_samples :: "('c \<Rightarrow> nat) \<Rightarrow> ('c, 'o) memSeries \<Rightarrow> nat list" where
  "seq_samples num s \<equiv> map (item_samples num) (chunk_seq s)"

lemma seq_samples_append:
  "seq_samples num s = map (\<lambda>m. unat (mm_numSamples m)) (mmappedChunks s) @ rev (map (num \<circ> mc_chunk) (headChunks s))"
  by (simp add: chunk_seq_def comp_def rev_map)

lemma sum_list_split: "k < length ns \<Longrightarrow> sum_list (take k ns) + ns ! k + sum_list (drop (Suc k) ns) = sum_list (ns :: nat list)"
  by (metis append_take_drop_id id_take_nth_drop sum_list.Cons sum_list.append add.assoc Cons_nth_drop_Suc)

lemma takeWhile_take: "list_all P (take k xs) \<Longrightarrow> k \<le> length xs \<Longrightarrow> k \<le> length (takeWhile P xs)"
proof (induction xs arbitrary: k)
  case (Cons x xs)
  then show ?case by (cases k) auto
qed simp

lemma takeWhile_take_stop:
  "\<not> list_all P (take k xs) \<Longrightarrow> length (takeWhile P (take k xs)) = length (takeWhile P xs) \<and> length (takeWhile P xs) < k"
proof (induction xs arbitrary: k)
  case (Cons x xs)
  then show ?case by (cases k) auto
qed simp

lemma stop_after_visible:
  assumes ok: "ms_ok s" and t: "txs s = Some t" "tx_ok t" and pos: "pos < length (chunk_seq s)"
    and few: "length (tx_list t) \<le> sum_list (seq_samples num s)"
  shows "stop_after num s (headChunkID s pos) (seq_samples num s ! pos) (Some (st, False)) =
    Some (int (min (seq_samples num s ! pos)
      (sum_list (seq_samples num s) - length (tx_list t) + length (takeWhile (shown st) (tx_list t)) - sum_list (take pos (seq_samples num s)))))"
proof -
  define ns where "ns = seq_samples num s"
  define ids where "ids = tx_list t"
  let ?ms = "map (\<lambda>m. unat (mm_numSamples m)) (mmappedChunks s)" and ?hs = "map (num \<circ> mc_chunk) (headChunks s)"
  have ns: "ns = ?ms @ rev ?hs" unfolding ns_def by (rule seq_samples_append)
  have len: "length (chunk_seq s) < 2 ^ 23" and cnt: "unat (headChunkCount s) = length ?hs" using ok by (simp_all add: ms_ok_def)
  have ix: "unat (wrapChunkID (headChunkID s pos - firstChunkID s)) = pos"
    using pos len by (subst position_of_id [where k = 0]) auto
  have nd: "nat (int pos - int (length (mmappedChunks s))) = pos - length (mmappedChunks s)" by linarith
  have tot: "int (sum_list ?ms) + int (sum_list ?hs) = int (sum_list ns)" by (simp add: ns sum_list_rev)
  have prev: "int (prev_samples (nat (int pos)) ?ms) + head_before (int (length ?hs) - 1) (int pos - int (length ?ms)) ?hs = int (sum_list (take pos ns))"
    unfolding head_before_take ns prev_samples_def by (simp add: nd)
  define cns where "cns = int (length ids) - (int (sum_list ns) - (int (sum_list (take pos ns)) + int (ns ! pos)))"
  have "stop_after num s (headChunkID s pos) (ns ! pos) (Some (st, False)) =
      map_option (\<lambda>stop. case stop of None \<Rightarrow> int (ns ! pos) | Some index \<Rightarrow> max (int (ns ! pos) - (cns - int index)) 0)
        (scan_ids st 0 (nat cns) (txRing_iterator t))"
    unfolding stop_after_def Let_def option.case prod.case ix cnt t(1) bind.simps tx_length [OF t(2), symmetric] length_map tot
      prev [unfolded length_map] cns_def ids_def if_False by (rule refl)
  moreover have split: "sum_list (take pos ns) + ns ! pos \<le> sum_list ns"
    using sum_list_split [of pos ns] pos unfolding ns_def by simp
  then have k: "nat cns \<le> length ids" unfolding cns_def by simp
  from tx_ring_iterator [OF t(2), of "nat cns"] k have "tx_visit (nat cns) (txRing_iterator t) = Some (take (nat cns) ids)"
    by (simp add: ids_def)
  note scan_visit [OF this, of st 0]
  ultimately have stop: "stop_after num s (headChunkID s pos) (ns ! pos) (Some (st, False)) =
      Some (if list_all (shown st) (take (nat cns) ids) then int (ns ! pos)
            else max (int (ns ! pos) - (cns - int (length (takeWhile (shown st) (take (nat cns) ids))))) 0)"
    by simp
  have "length ids \<le> sum_list ns" using few by (simp add: ids_def ns_def)
  then have "stop_after num s (headChunkID s pos) (ns ! pos) (Some (st, False)) =
      Some (int (min (ns ! pos) (sum_list ns - length ids + length (takeWhile (shown st) ids) - sum_list (take pos ns))))"
    unfolding stop using takeWhile_take [of "shown st" "nat cns" ids] takeWhile_take_stop [of "shown st" "nat cns" ids] k split
    by (auto simp: cns_def)
  then show ?thesis by (simp only: ns_def ids_def)
qed

lemma read_prefix:
  assumes "ms_ok s" "txs s = Some t" "tx_ok t" "tx_list t = dropWhile (\<lambda>k. k < bound) ids" "\<forall>k < bound. shown st k"
    and "length ids = sum_list (seq_samples num s)" "pos < length (chunk_seq s)"
  shows "stop_after num s (headChunkID s pos) (seq_samples num s ! pos) (Some (st, False)) =
    Some (int (min (seq_samples num s ! pos) (length (takeWhile (shown st) ids) - sum_list (take pos (seq_samples num s)))))"
proof -
  let ?old = "takeWhile (\<lambda>k. k < bound) ids"
  have ids: "ids = ?old @ tx_list t" by (simp add: assms(4))
  have "takeWhile (shown st) ids = ?old @ takeWhile (shown st) (tx_list t)"
    by (subst ids, rule takeWhile_append2) (use assms(5) set_takeWhileD in fastforce)
  moreover have "length ids = length ?old + length (tx_list t)" by (metis ids length_append)
  ultimately show ?thesis
    using stop_after_visible [OF assms(1,2,3,7), of num st] assms(6) by simp
qed

section \<open>What truncation removes\<close>

abbreviation item_max :: "mmappedChunk + 'c memChunk \<Rightarrow> int64" where
  "item_max c \<equiv> snd (item_times c)"

lemma truncate_head_bound:
  assumes "headChunks s = pre @ rest" "i = length pre" "\<forall>c \<in> set pre. \<not> mc_maxTime c <s mint" "truncate_head mint i rest s = (r, s')"
  shows "if r = 0 then \<forall>c \<in> set (headChunks s). \<not> mc_maxTime c <s mint
    else r \<le> length (chunk_seq s) \<and> item_max (chunk_seq s ! (r - 1)) <s mint \<and> (\<forall>c \<in> set (drop r (chunk_seq s)). \<not> item_max c <s mint)"
  using assms
proof (induction mint i rest s arbitrary: pre rule: truncate_head.induct)
  case (2 mint i chk rest s)
  show ?case
  proof (cases "mc_maxTime chk <s mint")
    case False
    then have t: "truncate_head mint (i + 1) rest s = (r, s')" using "2.prems"(4) by simp
    show ?thesis by (rule "2.IH" [OF False _ _ _ t, of "pre @ [chk]"]) (use "2.prems" False in auto)
  next
    case True
    then have r: "r = length (map Inl (mmappedChunks s) @ map Inr (rev rest)) + 1" using "2.prems"(4) by (simp add: Let_def)
    obtain front where f: "front = map Inl (mmappedChunks s) @ map Inr (rev rest)" by simp
    then have cs: "chunk_seq s = front @ Inr chk # map Inr (rev pre)" using "2.prems"(1) by (simp add: chunk_seq_def)
    show ?thesis unfolding r f [symmetric] cs using True "2.prems"(3) by simp
  qed
qed simp

lemma dropWhile_is_drop:
  assumes "0 < r" "r \<le> length xs" "P (xs ! (r - 1))" "\<forall>x \<in> set (drop r xs). \<not> P x" "sorted_wrt (\<lambda>a b. P b \<longrightarrow> P a) xs"
  shows "dropWhile P xs = drop r xs"
proof -
  have "P x" if x: "x \<in> set (take r xs)" for x
  proof -
    obtain j where j: "j < r" "x = xs ! j" using x assms(2) by (auto simp: in_set_conv_nth)
    then show ?thesis using assms sorted_wrt_nth_less [OF assms(5), of j "r - 1"] by (cases "j = r - 1") auto
  qed
  moreover have "dropWhile P (drop r xs) = drop r xs" using assms(4) by (cases "drop r xs") auto
  ultimately show ?thesis using dropWhile_append2 [of "take r xs" P "drop r xs"] by simp
qed

lemma dropWhile_append_stop: "dropWhile P ys = ys \<Longrightarrow> dropWhile P (xs @ ys) = dropWhile P xs @ ys"
  by (induction xs) auto

lemma truncate_keeps:
  assumes ok: "ms_ok s" and t: "truncateChunksBefore mint minRef s = (n, s')"
    and sorted: "sorted_wrt (\<lambda>a b. item_max a \<le>s item_max b) (chunk_seq s)"
  shows "chunk_seq s' = dropWhile (\<lambda>c. item_max c <s mint) (chunk_seq s)"
proof -
  let ?P = "\<lambda>c. item_max c <s mint"
  obtain r1 s1 where h: "truncate_head mint 0 (headChunks s) s = (r1, s1)" by (rule prod.exhaust)
  obtain r2 s2 where m: "truncate_mmapped mint r1 s1 = (r2, s2)" by (rule prod.exhaust)
  have s': "chunk_seq s' = chunk_seq s2"
    using t h m by (auto simp: truncateChunksBefore_def truncate_ooo_def chunk_seq_def Let_def split: option.splits if_splits)
  note b = truncate_head_bound [OF _ _ _ h, of "[]"]
  have d: "r1 = 0 \<and> s1 = s \<or> 0 < r1 \<and> mmappedChunks s1 = []" "dropped s s1 r1"
    using truncate_head_dropped [OF ok, of "[]" "headChunks s" 0 mint r1 s1] h by auto
  show ?thesis
  proof (cases "r1 = 0")
    case False
    have "sorted_wrt (\<lambda>a b. ?P b \<longrightarrow> ?P a) (chunk_seq s)"
      by (rule sorted_wrt_mono_rel [OF _ sorted]) (auto simp: word_sless_alt word_sle_eq)
    with b False have "dropWhile ?P (chunk_seq s) = drop r1 (chunk_seq s)" by (intro dropWhile_is_drop) auto
    moreover have "s2 = s1" using d(1) m False by (simp add: truncate_mmapped_def)
    ultimately show ?thesis using d(2) s' by (simp add: dropped_def)
  next
    case True
    with b have "\<forall>c \<in> set (map Inr (rev (headChunks s))). \<not> ?P c" by simp
    then have "dropWhile ?P (map Inr (rev (headChunks s))) = map Inr (rev (headChunks s))"
      by (cases "headChunks s" rule: rev_cases) auto
    moreover have "dropWhile ?P (map Inl (mmappedChunks s)) = map Inl (drop (length (takeWhile (\<lambda>c. mm_maxTime c <s mint) (mmappedChunks s))) (mmappedChunks s))"
      unfolding dropWhile_map by (simp add: comp_def dropWhile_eq_drop)
    ultimately have "dropWhile ?P (chunk_seq s) =
        map Inl (drop (length (takeWhile (\<lambda>c. mm_maxTime c <s mint) (mmappedChunks s))) (mmappedChunks s)) @ map Inr (rev (headChunks s))"
      unfolding chunk_seq_def by (simp add: dropWhile_append_stop)
    then show ?thesis
      using True d(1) m s' by (auto simp: truncate_mmapped_def chunk_seq_def Let_def split: if_splits)
  qed
qed

section \<open>References\<close>

lemma wrap_less: "wrapChunkID x < 2 ^ 23"
  using take_bit_nat_less_exp [of 23 "unat x"] by (simp add: wrap_take_bit word_less_nat_alt unsigned_take_bit_eq)

lemma headref_bits:
  fixes h c :: uint64
  assumes "take_bit 40 h = h" "take_bit 24 c = c"
  shows "drop_bit 24 (push_bit 24 h OR c) = h" "drop_bit 40 (push_bit 40 (push_bit 24 h OR c)) = c"
proof -
  have h: "n < 40" if "bit h n" for n using assms(1) that by (metis bit_take_bit_iff)
  have c: "n < 24" if "bit c n" for n using assms(2) that by (metis bit_take_bit_iff)
  show "drop_bit 24 (push_bit 24 h OR c) = h" by (rule bit_word_eqI) (auto simp: bit_simps dest: h c)
  show "drop_bit 40 (push_bit 40 (push_bit 24 h OR c)) = c" by (rule bit_word_eqI) (auto simp: bit_simps dest: h c)
qed

lemma new_unpack:
  assumes "h < 2 ^ 40" "take_bit 24 c = c"
  shows "map_option unpackHeadChunkRef (NewHeadChunkRef h c) = Some (h, c AND (oooChunkIDMask - 1), c AND oooChunkIDMask \<noteq> 0)"
proof -
  have "push_bit 40 1 - 1 = (mask 40 :: uint64)" "push_bit 24 1 - 1 = (mask 24 :: uint64)"
    by (simp_all add: mask_eq_exp_minus_1 push_bit_eq_mult)
  moreover have h: "take_bit 40 h = h" using assms(1) by (simp add: take_bit_eq_mask less_mask_eq)
  then have "h \<le> mask 40" by (metis take_bit_eq_mask word_and_le1)
  moreover have "c \<le> mask 24" using assms(2) by (metis take_bit_eq_mask word_and_le1)
  ultimately have "NewHeadChunkRef h c = Some (push_bit 24 h OR c)" unfolding NewHeadChunkRef_def by (simp add: not_less)
  then show ?thesis unfolding unpackHeadChunkRef_def HeadChunkRef_Unpack_def by (simp only: headref_bits [OF h assms(2)] option.map prod.case)
qed

section \<open>Runs of a series\<close>

text \<open>
  A series, together with the disk mapper, changes its chunks by pushing a head chunk, by m-mapping and by truncation.
  \<open>series_run S S' new\<close> is a run from \<open>S\<close> to \<open>S'\<close>; \<open>new\<close> are the times of the chunks it pushes, in order.
\<close>

inductive series_run :: "('c, 'o) memSeries \<times> 'd \<Rightarrow> ('c, 'o) memSeries \<times> 'd \<Rightarrow> (int64 \<times> int64) list \<Rightarrow> bool" for S where
  start: "series_run S S []"
| push: "series_run S (s, d) new \<Longrightarrow> pushHeadChunk c s = Some s' \<Longrightarrow> series_run S (s', d) (new @ [(mc_minTime c, mc_maxTime c)])"
| mmap: "series_run S (s, d) new \<Longrightarrow> mmapChunks num enc write s d = Some (n, s', d') \<Longrightarrow> (\<forall>c \<in> set (headChunks s). num (mc_chunk c) < 2 ^ 16) \<Longrightarrow>
    series_run S (s', d') new"
| truncate: "series_run S (s, d) new \<Longrightarrow> truncateChunksBefore mint minRef s = (n, s') \<Longrightarrow> series_run S (s', d) new"

text \<open>The history of a series is the list of the times of all chunks it ever had, and the number of them that are gone.\<close>

definition history :: "uint64 \<Rightarrow> ('c, 'o) memSeries \<Rightarrow> (int64 \<times> int64) list \<Rightarrow> nat \<Rightarrow> bool" where
  "history f s hist gone \<longleftrightarrow> ms_ok s \<and> gone \<le> length hist \<and> map item_times (chunk_seq s) = drop gone hist \<and>
     wrapChunkID (firstChunkID s) = wrapChunkID (f + of_nat gone)"

lemma wrap_add: "wrapChunkID (wrapChunkID a + b) = wrapChunkID (a + b)"
  by (metis add_diff_eq diff_0 diff_minus_eq_add wrap_congs(1))

lemma history_dropped:
  assumes h: "history f s hist gone" and k: "dropped s s' k"
  shows "history f s' hist (gone + k)"
proof -
  have len: "length (chunk_seq s) = length hist - gone" using h by (metis history_def length_drop length_map)
  have "wrapChunkID (firstChunkID s') = wrapChunkID (f + of_nat (gone + k))"
    using k h wrap_add [of "firstChunkID s"] wrap_add [of "f + of_nat gone"] by (simp add: dropped_def history_def add.assoc)
  then show ?thesis using k h len by (auto simp: history_def dropped_def ms_ok_def drop_map [symmetric] add.commute)
qed

lemma run_history:
  assumes "series_run S S' new" "history f (fst S) hist 0"
  shows "\<exists>gone. history f (fst S') (hist @ new) gone"
  using assms
proof (induction rule: series_run.induct)
  case start
  then show ?case by auto
next
  case (push s d new c s')
  then obtain gone where "history f s (hist @ new) gone" by auto
  then have "history f s' (hist @ new @ [(mc_minTime c, mc_maxTime c)]) gone" using push_seq [of s c s'] push.hyps(2) by (auto simp: history_def)
  then show ?case by auto
next
  case (mmap s d new num enc wr n s' d')
  then obtain gone where "history f s (hist @ new) gone" by auto
  then have "history f s' (hist @ new) gone" using mmapChunks_seq [of s num enc wr d n s' d'] mmap.hyps(2,3) by (auto simp: history_def)
  then show ?case by auto
next
  case (truncate s d new mint minRef n s')
  then obtain gone where h: "history f s (hist @ new) gone" by auto
  then obtain k where k: "dropped s s' k" using truncate_dropped [of s mint minRef n s'] truncate.hyps(2) by (auto simp: history_def)
  from history_dropped [OF h this] show ?case by auto
qed

lemma history_lookup:
  assumes h: "history f s hist gone" and id: "i = wrapChunkID (f + of_nat p)" and p: "p < length hist" "length hist < p + 2 ^ 23"
  shows "memSeries_chunk read s i None =
    (if p < gone then Some (Inl ErrNotFound)
     else lookup_item read (chunk_seq s ! (p - gone)) (Suc p = length hist))"
proof -
  have ok: "ms_ok s" and gone: "gone \<le> length hist" and w: "wrapChunkID (firstChunkID s) = wrapChunkID (f + of_nat gone)"
    and m: "map item_times (chunk_seq s) = drop gone hist"
    using h by (simp_all add: history_def)
  have len: "length (chunk_seq s) = length hist - gone" using arg_cong [OF m, of length] by simp
  have "wrapChunkID (i - firstChunkID s) = wrapChunkID (word_of_int (int p - int gone))"
    by (metis (no_types, lifting) id w wrap_congs add_diff_cancel_left of_int_diff of_int_of_nat_eq)
  then have ix: "unat (wrapChunkID (i - firstChunkID s)) = nat ((int p - int gone) mod 2 ^ 23)" by (simp only: unat_wrap)
  show ?thesis
  proof (cases "p < gone")
    case True
    then have "nat ((int p - int gone) mod 2 ^ 23) = 2 ^ 23 + p - gone"
      using p gone mod_pos_pos_trivial [of "int p - int gone + 2 ^ 23" "2 ^ 23"] by simp
    moreover have "\<not> 2 ^ 23 + p - gone < length hist - gone" using True p gone by linarith
    ultimately show ?thesis unfolding chunk_lookup [OF ok] Let_def ix len using True by simp
  next
    case False
    have pg: "nat ((int p - int gone) mod 2 ^ 23) = p - gone"
    proof -
      have "p - gone < 2 ^ 23" using p len ok False by (auto simp: ms_ok_def)
      moreover have "int p - int gone = int (p - gone)" using False by simp
      ultimately show ?thesis by (metis mod_less nat_int of_nat_mod of_nat_numeral of_nat_power)
    qed
    have "Suc (p - gone) = length hist - gone \<longleftrightarrow> Suc p = length hist" using False p by auto
    then show ?thesis unfolding chunk_lookup [OF ok] Let_def ix pg len using False p by auto
  qed
qed

section \<open>Properties\<close>

text \<open>A series with one chunk on disk and two head chunks, at ids next to the wrap-around.\<close>

definition ex_series :: "(nat, unit) memSeries" where
  "ex_series = \<lparr>mmappedChunks = [\<lparr>mm_ref = 8, mm_numSamples = 3, mm_encoding = 1, mm_minTime = 10, mm_maxTime = 12\<rparr>],
     headChunks = [\<lparr>mc_chunk = 2, mc_minTime = 30, mc_maxTime = 31\<rparr>, \<lparr>mc_chunk = 4, mc_minTime = 20, mc_maxTime = 25\<rparr>],
     firstChunkID = 8388606, ooo = None, headChunkCount = 2,
     txs = Some \<lparr>txIDs = [2, 3, 1, 2], txIDFirst = 2, txIDCount = 4\<rparr>\<rparr>"

lemma ex_ok: "ms_ok ex_series" by (simp add: ms_ok_def chunk_seq_def ex_series_def)

text \<open>
  C36. A chunk id keeps its meaning. Let a series go through any sequence of new head chunks, m-mapping and truncation, in
  which the chunks with times \<open>new\<close> are added and \<open>gone\<close> chunks are removed. Then it keeps its invariant, and the chunks that are
  left are the newest of the ones it had and got. The id that the chunk at position \<open>pos\<close> had at the
  start is not found when that chunk is gone, and otherwise it finds the chunk that is now at position \<open>pos - gone\<close>, in
  memory or on disk, which has the same times. So it never finds another chunk, as long as fewer than 2^23
  chunks were added from that chunk on, where ids wrap around.
\<close>

theorem series_chunk_id_stable:
  assumes "ms_ok s" "series_run (s, d) (s', d') new" "gone = length (chunk_seq s) + length new - length (chunk_seq s')"
    and "pos < length (chunk_seq s)" "length (chunk_seq s) + length new < pos + 2 ^ 23"
  shows "ms_ok s' \<and> map item_times (chunk_seq s') = drop gone (map item_times (chunk_seq s) @ new) \<and>
    memSeries_chunk read s' (headChunkID s pos) None =
      (if pos < gone then Some (Inl ErrNotFound) else lookup_item read (chunk_seq s' ! (pos - gone)) (Suc pos = length (chunk_seq s) + length new)) \<and>
    (gone \<le> pos \<longrightarrow> item_times (chunk_seq s' ! (pos - gone)) = item_times (chunk_seq s ! pos))"
proof -
  let ?hist = "map item_times (chunk_seq s) @ new"
  have "history (firstChunkID s) s (map item_times (chunk_seq s)) 0" using assms(1) by (simp add: history_def)
  with run_history [OF assms(2)] obtain k where h: "history (firstChunkID s) s' ?hist k" by fastforce
  then have ok: "ms_ok s'" and m: "map item_times (chunk_seq s') = drop k ?hist" and le: "k \<le> length ?hist" by (simp_all add: history_def)
  have len: "length (chunk_seq s') = length ?hist - k" using arg_cong [OF m, of length] by simp
  then have k: "gone = k" using assms(3) le by simp
  have p: "pos < length ?hist" "length ?hist < pos + 2 ^ 23" using assms(4,5) by simp_all
  have "memSeries_chunk read s' (headChunkID s pos) None =
      (if pos < gone then Some (Inl ErrNotFound) else lookup_item read (chunk_seq s' ! (pos - gone)) (Suc pos = length (chunk_seq s) + length new))"
    using history_lookup [OF h _ p, of "headChunkID s pos" read] unfolding k by (simp add: headChunkID_def add.commute)
  moreover have "item_times (chunk_seq s' ! (pos - gone)) = item_times (chunk_seq s ! pos)" if g: "gone \<le> pos"
  proof -
    have "pos - k < length (chunk_seq s')" using len p(1) g k by simp
    then have "item_times (chunk_seq s' ! (pos - k)) = drop k ?hist ! (pos - k)" unfolding m [symmetric] by simp
    also have "\<dots> = item_times (chunk_seq s ! pos)" using g k assms(4) diff_less_mono [OF assms(4), of k] by (simp add: nth_append)
    finally show ?thesis unfolding k .
  qed
  ultimately show ?thesis using ok m k by blast
qed

text \<open>The series above gets a chunk, is m-mapped and truncated: of its chunks the first is gone, the others have moved.\<close>

definition ex_pushed :: "(nat, unit) memSeries" where
  "ex_pushed = the (pushHeadChunk \<lparr>mc_chunk = 1, mc_minTime = 40, mc_maxTime = 41\<rparr> ex_series)"

definition ex_mmapped :: "(nat, unit) memSeries" where
  "ex_mmapped = (case the (mmapChunks id (\<lambda>_. 1) (\<lambda>c d. Some (of_nat (mc_chunk c), d)) ex_pushed ()) of (n, s, d) \<Rightarrow> s)"

definition ex_truncated :: "(nat, unit) memSeries" where
  "ex_truncated = snd (truncateChunksBefore 13 0 ex_mmapped)"

lemma ex_pushed: "ex_pushed = ex_series\<lparr>headChunks := \<lparr>mc_chunk = 1, mc_minTime = 40, mc_maxTime = 41\<rparr> # headChunks ex_series, headChunkCount := 3\<rparr>"
  "pushHeadChunk \<lparr>mc_chunk = 1, mc_minTime = 40, mc_maxTime = 41\<rparr> ex_series = Some ex_pushed"
  by (simp_all add: ex_pushed_def pushHeadChunk_def ex_series_def oooChunkIDMask_def)

lemma ex_mmapped: "mmapChunks id (\<lambda>_. 1) (\<lambda>c d. Some (of_nat (mc_chunk c), d)) ex_pushed () = Some (2, ex_mmapped, ())"
  by (simp add: ex_mmapped_def ex_pushed mmapChunks_def ex_series_def collectHeadChunks_def)

lemma ex_truncated: "chunk_seq ex_truncated =
  [Inl \<lparr>mm_ref = 4, mm_numSamples = 4, mm_encoding = 1, mm_minTime = 20, mm_maxTime = 25\<rparr>,
   Inl \<lparr>mm_ref = 2, mm_numSamples = 2, mm_encoding = 1, mm_minTime = 30, mm_maxTime = 31\<rparr>,
   Inr \<lparr>mc_chunk = 1, mc_minTime = 40, mc_maxTime = 41\<rparr>]"
  by (simp add: ex_truncated_def ex_mmapped_def ex_pushed mmapChunks_def ex_series_def collectHeadChunks_def setHeadChunks_def
      truncateChunksBefore_def truncate_mmapped_def truncate_ooo_def chunk_seq_def Let_def)

theorem series_chunk_id_stable_witness:
  "map (\<lambda>pos. memSeries_chunk (\<lambda>ref. Inr (unat ref)) ex_truncated (headChunkID ex_series pos) None) [0, 1, 2] =
     [Some (Inl ErrNotFound), Some (Inr (\<lparr>mc_chunk = 4, mc_minTime = 20, mc_maxTime = 25\<rparr>, False, False)),
      Some (Inr (\<lparr>mc_chunk = 2, mc_minTime = 30, mc_maxTime = 31\<rparr>, False, False))]"
proof -
  have "series_run (ex_series, ()) (ex_pushed, ()) [(40, 41)]" using series_run.push [OF series_run.start ex_pushed(2)] by simp
  then have "series_run (ex_series, ()) (ex_mmapped, ()) [(40, 41)]"
    by (rule series_run.mmap [OF _ ex_mmapped]) (simp add: ex_pushed ex_series_def)
  then have run: "series_run (ex_series, ()) (ex_truncated, ()) [(40, 41)]"
    by (rule series_run.truncate [where n = "fst (truncateChunksBefore 13 0 ex_mmapped)"]) (simp add: ex_truncated_def)
  have l: "length (chunk_seq ex_series) = 3" by (simp add: chunk_seq_def ex_series_def)
  note r = series_chunk_id_stable [OF ex_ok run refl, of _ "\<lambda>ref. Inr (unat ref)", unfolded l ex_truncated]
  show ?thesis using r [of 0] r [of 1] r [of 2] by simp
qed

text \<open>
  Truncation removes from the series exactly the chunks that end before \<open>mint\<close>, when the chunks are
  ordered in time; the ids of the chunks that stay find the same chunks as before.
\<close>

theorem truncate_removes_old_chunks:
  assumes "ms_ok s" "sorted_wrt (\<lambda>a b. item_max a \<le>s item_max b) (chunk_seq s)" "truncateChunksBefore mint minRef s = (n, s')"
  shows "ms_ok s' \<and> chunk_seq s' = dropWhile (\<lambda>c. item_max c <s mint) (chunk_seq s) \<and>
    (\<forall>pos < length (chunk_seq s). memSeries_chunk read s' (headChunkID s pos) None =
       (if item_max (chunk_seq s ! pos) <s mint then Some (Inl ErrNotFound) else memSeries_chunk read s (headChunkID s pos) None))"
proof -
  let ?P = "\<lambda>c. item_max c <s mint"
  obtain k where k: "dropped s s' k" using truncate_dropped [OF assms(1,3)] by blast
  have keep: "chunk_seq s' = dropWhile ?P (chunk_seq s)" using truncate_keeps [OF assms(1,3,2)] .
  have "?P (chunk_seq s ! pos) \<longleftrightarrow> pos < k" if pos: "pos < length (chunk_seq s)" for pos
  proof -
    have "length (chunk_seq s) - k = length (chunk_seq s) - length (takeWhile ?P (chunk_seq s))" "k \<le> length (chunk_seq s)"
      using k arg_cong [OF keep, of length] by (simp_all add: dropped_def dropWhile_eq_drop)
    then have "k = length (takeWhile ?P (chunk_seq s))" using length_takeWhile_le [of ?P "chunk_seq s"] by simp
    moreover have "sorted_wrt (\<lambda>a b. ?P b \<longrightarrow> ?P a) (chunk_seq s)"
      by (rule sorted_wrt_mono_rel [OF _ assms(2)]) (auto simp: word_sless_alt word_sle_eq)
    moreover have "?P (chunk_seq s ! pos)" if "pos < length (takeWhile ?P (chunk_seq s))"
      using that by (metis nth_mem set_takeWhileD takeWhile_nth)
    moreover have "\<not> ?P (chunk_seq s ! k)" if "k = length (takeWhile ?P (chunk_seq s))" "k \<le> pos"
      using nth_length_takeWhile [of ?P "chunk_seq s"] that pos by simp
    ultimately show ?thesis
      using pos sorted_wrt_nth_less [of "\<lambda>a b. ?P b \<longrightarrow> ?P a" "chunk_seq s" k pos] by (cases "pos < k"; cases "pos = k") auto
  qed
  then show ?thesis using dropped_lookup [OF assms(1) k] keep assms(1) k by (auto simp: ms_ok_def dropped_def)
qed

text \<open>
  C33. A read sees a prefix of the series. Let the ring hold the append ids of the samples of the series
  without the ones cleaned up below the low watermark. Then in every reachable state of the isolation
  an open read gets of every chunk exactly the samples that belong to the longest prefix of the
  series whose append ids its snapshot shows: no sample of an append that was open or not yet started
  when the read began, and no sample behind one.
\<close>

theorem isolated_read_sees_prefix:
  assumes "iso_step\<^sup>*\<^sup>* iso_start (i, R)" "r \<in> R" "iso_states i r = Some st" "lowWatermark i = Some lw" "bound \<le> lw"
    and "ms_ok s" "txs s = Some t" "tx_ok t" "tx_list t = dropWhile (\<lambda>k. k < bound) ids"
    and "length ids = sum_list (seq_samples num s)" "pos < length (chunk_seq s)"
  shows "stop_after num s (headChunkID s pos) (seq_samples num s ! pos) (Some (st, False)) =
    Some (int (min (seq_samples num s ! pos) (length (takeWhile (shown st) ids) - sum_list (take pos (seq_samples num s)))))"
proof -
  have "shown st k" if "k < bound" for k
    using below_watermark_shown [OF assms(1,4) less_le_trans [OF that assms(5)] assms(2)] assms(3) by (simp add: shown_def)
  then show ?thesis using read_prefix [OF assms(6-9) _ assms(10,11)] by blast
qed

theorem isolated_read_sees_prefix_witness:
  "map (\<lambda>pos. stop_after id ex_series (headChunkID ex_series pos) (seq_samples id ex_series ! pos) (Some (the (iso_states ex_i5 5), False))) [0, 1, 2] =
     [Some 3, Some 2, Some 0]"
proof -
  let ?t = "\<lparr>txIDs = [2, 3, 1, 2], txIDFirst = 2, txIDCount = 4\<rparr>" and ?ids = "[0, 0, 0, 0, 0, 1, 2, 2, 3] :: uint64 list"
  have t: "tx_ok ?t" "tx_list ?t = dropWhile (\<lambda>k. k < 1) ?ids" by (simp_all add: tx_ok_def tx_list_def rotate_drop_take)
  have n: "seq_samples id ex_series = [3, 4, 2]" by (simp add: ex_series_def chunk_seq_def)
  have i: "iso_states ex_i5 5 = Some (the (iso_states ex_i5 5))" "lowWatermark ex_i5 = Some 1" by (simp_all add: ex_iso_defs lowWatermark_def)
  have v: "takeWhile (shown (the (iso_states ex_i5 5))) ?ids = [0, 0, 0, 0, 0]" by (simp add: shown_def ex_iso_defs)
  note r = isolated_read_sees_prefix [OF ex_run _ i, of 1 ex_series ?t ?ids id]
  show ?thesis using r [of 0] r [of 1] r [of 2] t ex_ok unfolding n v by (simp add: ex_series_def chunk_seq_def)
qed

text \<open>
  Chunk references: the reference that the head gives out for a chunk, in order or out of order,
  unpacks to the series, the chunk id and the kind of chunk.
\<close>

theorem head_chunk_ref_roundtrip:
  assumes "h < 2 ^ 40"
  shows "map_option unpackHeadChunkRef (NewHeadChunkRef h (headChunkID s pos)) = Some (h, headChunkID s pos, False) \<and>
    (\<forall>f. ooo s = Some f \<longrightarrow> map_option unpackHeadChunkRef (Option.bind (oooHeadChunkID s pos) (NewHeadChunkRef h)) =
       Some (h, wrapChunkID (of_nat pos + firstOOOChunkID f), True))"
proof -
  have b: "n < 23" if "bit (wrapChunkID x) n" for x n using that by (simp add: wrap_take_bit bit_take_bit_iff)
  have m: "bit oooChunkIDMask n \<longleftrightarrow> n = 23" for n
    by (auto simp: oooChunkIDMask_def bit_push_bit_iff bit_1_iff  simp del: push_bit_of_1)
  have i: "take_bit 24 (wrapChunkID x) = wrapChunkID x" "wrapChunkID x AND mask 23 = wrapChunkID x" "wrapChunkID x AND oooChunkIDMask = 0" for x
    by (rule bit_word_eqI, auto simp: bit_take_bit_iff bit_and_iff bit_mask_iff m dest: b)+
  have o: "take_bit 24 (wrapChunkID x OR oooChunkIDMask) = wrapChunkID x OR oooChunkIDMask"
    "(wrapChunkID x OR oooChunkIDMask) AND mask 23 = wrapChunkID x" for x
    by (rule bit_word_eqI, auto simp: bit_take_bit_iff bit_and_iff bit_or_iff bit_mask_iff m dest: b)+
  have "bit ((wrapChunkID x OR oooChunkIDMask) AND oooChunkIDMask) 23" for x by (simp add: bit_and_iff bit_or_iff m)
  then have "(wrapChunkID x OR oooChunkIDMask) AND oooChunkIDMask \<noteq> 0" for x by (metis bit_0_eq bot_apply bot_bool_def)
  then show ?thesis
    using new_unpack [OF assms i(1)] new_unpack [OF assms o(1)] i o unfolding mask_23 by (simp add: headChunkID_def oooHeadChunkID_def)
qed

end
