(* ===== verification/Postings.thy ===== *)
theory Postings
  imports Go_Binary
begin

text \<open>
  Iterators over postings lists (\<open>tsdb/index/postings.go\<close>). The interface \<open>Postings\<close> is a record of its
  methods over the type of the iterator; each implementation is a record with its fields and a
  value of the interface. A method returns the new state of the iterator; \<open>None\<close> is a panic or a loop
  that does not end. A variable of the interface type that may hold one of two implementations is
  a sum, with the methods chosen by the tag. An iterator belongs to the one that wraps it.
\<close>

record 'p Postings =
  p_Next :: "'p \<Rightarrow> (bool \<times> 'p) option"
  p_Seek :: "uint64 \<Rightarrow> 'p \<Rightarrow> (bool \<times> 'p) option"
  p_At :: "'p \<Rightarrow> uint64"
  p_Err :: "'p \<Rightarrow> go_error option"

definition on_tag :: "('p \<Rightarrow> (bool \<times> 'p) option) \<Rightarrow> ('q \<Rightarrow> (bool \<times> 'q) option) \<Rightarrow> 'p + 'q \<Rightarrow> (bool \<times> ('p + 'q)) option" where
  "on_tag f g v = (case v of Inl p \<Rightarrow> map_option (map_prod id Inl) (f p) | Inr q \<Rightarrow> map_option (map_prod id Inr) (g q))"

definition sum_postings :: "'p Postings \<Rightarrow> 'q Postings \<Rightarrow> ('p + 'q) Postings" where
  "sum_postings P Q = \<lparr>p_Next = on_tag (p_Next P) (p_Next Q), p_Seek = (\<lambda>x. on_tag (p_Seek P x) (p_Seek Q x)),
     p_At = case_sum (p_At P) (p_At Q), p_Err = case_sum (p_Err P) (p_Err Q)\<rparr>"

text \<open>\<open>ExpandPostings\<close> reads an iterator to its end.\<close>

partial_function (option) ExpandPostings :: "'p Postings \<Rightarrow> 'p \<Rightarrow> (uint64 list \<times> go_error option) option" where
  "ExpandPostings P p =
     Option.bind (p_Next P p) (\<lambda>(ok, p).
       if ok then Option.bind (ExpandPostings P p) (\<lambda>(res, err). Some (p_At P p # res, err))
       else Some ([], p_Err P p))"

section \<open>Empty and failed postings\<close>

record errPostings =
  ep_err :: "go_error option"

definition err_postings :: "errPostings Postings" where
  "err_postings = \<lparr>p_Next = (\<lambda>p. Some (False, p)), p_Seek = (\<lambda>x p. Some (False, p)), p_At = (\<lambda>p. 0), p_Err = ep_err\<rparr>"

definition EmptyPostings :: errPostings where
  "EmptyPostings = \<lparr>ep_err = None\<rparr>"

definition ErrPostings :: "go_error \<Rightarrow> errPostings" where
  "ErrPostings err = \<lparr>ep_err = Some err\<rparr>"

section \<open>Lists\<close>

record listPostings =
  lp_list :: "uint64 list"
  lp_cur :: uint64

definition NewListPostings :: "uint64 list \<Rightarrow> listPostings" where
  "NewListPostings xs = \<lparr>lp_list = xs, lp_cur = 0\<rparr>"

definition list_Next :: "listPostings \<Rightarrow> bool \<times> listPostings" where
  "list_Next it =
     (case lp_list it of
        x # xs \<Rightarrow> (True, it\<lparr>lp_cur := x, lp_list := xs\<rparr>)
      | [] \<Rightarrow> (False, it\<lparr>lp_cur := 0\<rparr>))"

text \<open>The position that \<open>slices.BinarySearch\<close> returns; its loop is that of \<open>sort.Search\<close>.\<close>

definition BinarySearch :: "uint64 list \<Rightarrow> uint64 \<Rightarrow> nat" where
  "BinarySearch xs x = Search (length xs) (\<lambda>i. \<not> xs ! i < x)"

definition list_Seek :: "uint64 \<Rightarrow> listPostings \<Rightarrow> bool \<times> listPostings" where
  "list_Seek x it =
     (if x \<le> lp_cur it then (True, it)
      else if lp_list it = [] then (False, it)
      else let i = (if lp_list it ! 0 < x then BinarySearch (lp_list it) x else 0) in
           if lp_list it ! 0 < x \<and> length (lp_list it) \<le> i then (False, it\<lparr>lp_list := []\<rparr>)
           else (True, it\<lparr>lp_cur := lp_list it ! i, lp_list := drop (i + 1) (lp_list it)\<rparr>))"

definition list_Len :: "listPostings \<Rightarrow> nat" where
  "list_Len it = length (lp_list it)"

definition list_postings :: "listPostings Postings" where
  "list_postings = \<lparr>p_Next = Some \<circ> list_Next, p_Seek = (\<lambda>x. Some \<circ> list_Seek x), p_At = lp_cur, p_Err = (\<lambda>_. None)\<rparr>"

section \<open>Big-endian lists\<close>

record bigEndianPostings =
  be_list :: "byte list"
  be_cur :: uint32

definition newBigEndianPostings :: "byte list \<Rightarrow> bigEndianPostings" where
  "newBigEndianPostings xs = \<lparr>be_list = xs, be_cur = 0\<rparr>"

definition be_Next :: "bigEndianPostings \<Rightarrow> (bool \<times> bigEndianPostings) option" where
  "be_Next it =
     (if 4 \<le> length (be_list it)
      then map_option (\<lambda>v. (True, it\<lparr>be_cur := v, be_list := drop 4 (be_list it)\<rparr>)) (Uint32 (be_list it))
      else Some (False, it))"

text \<open>The comparison truncates the target to 32 bits. The function that \<open>sort.Search\<close> calls stays in range.\<close>

definition be_Seek :: "uint64 \<Rightarrow> bigEndianPostings \<Rightarrow> (bool \<times> bigEndianPostings) option" where
  "be_Seek x it =
     (if x \<le> ucast (be_cur it) then Some (True, it)
      else let num = length (be_list it) div 4;
               i = Search num (\<lambda>i. ucast x \<le> the (Uint32 (drop (i * 4) (be_list it))))
           in if i < num
              then map_option (\<lambda>v. (True, it\<lparr>be_cur := v, be_list := drop (i * 4 + 4) (be_list it)\<rparr>)) (Uint32 (drop (i * 4) (be_list it)))
              else Some (False, it\<lparr>be_list := []\<rparr>))"

definition be_postings :: "bigEndianPostings Postings" where
  "be_postings = \<lparr>p_Next = be_Next, p_Seek = be_Seek, p_At = (\<lambda>it. ucast (be_cur it)), p_Err = (\<lambda>_. None)\<rparr>"

section \<open>Intersection\<close>

record 'p intersectPostings =
  ip_postings :: "'p list"
  ip_current :: uint64

definition newIntersectPostings :: "'p list \<Rightarrow> 'p intersectPostings" where
  "newIntersectPostings its = \<lparr>ip_postings = its, ip_current = 0\<rparr>"

text \<open>
  One pass of the loop in \<open>Seek\<close>: whether all seeks succeeded, the iterators, the target and
  \<open>allEqual\<close> at the end.
\<close>

fun seek_round :: "'p Postings \<Rightarrow> 'p list \<Rightarrow> uint64 \<Rightarrow> bool \<Rightarrow> (bool \<times> 'p list \<times> uint64 \<times> bool) option" where
  "seek_round P [] target allEqual = Some (True, [], target, allEqual)"
| "seek_round P (p # ps) target allEqual =
     Option.bind (p_Seek P target p) (\<lambda>(ok, p).
       if \<not> ok then Some (False, p # ps, target, allEqual)
       else map_option (\<lambda>(ok, ps, target, allEqual). (ok, p # ps, target, allEqual))
              (if target < p_At P p then seek_round P ps (p_At P p) False else seek_round P ps target allEqual))"

partial_function (option) intersect_Seek :: "'p Postings \<Rightarrow> uint64 \<Rightarrow> 'p intersectPostings \<Rightarrow> (bool \<times> 'p intersectPostings) option" where
  "intersect_Seek P target it =
     Option.bind (seek_round P (ip_postings it) target True) (\<lambda>(ok, ps, target, allEqual).
       let it = it\<lparr>ip_postings := ps\<rparr> in
       if \<not> ok then Some (False, it)
       else if allEqual then Some (True, it\<lparr>ip_current := target\<rparr>)
       else intersect_Seek P target it)"

text \<open>The loop of \<open>Next\<close> over the iterators after the first.\<close>

fun next_round :: "'p Postings \<Rightarrow> 'p list \<Rightarrow> uint64 \<Rightarrow> bool \<Rightarrow> (bool \<times> 'p list \<times> uint64 \<times> bool) option" where
  "next_round P [] target allEqual = Some (True, [], target, allEqual)"
| "next_round P (p # ps) target allEqual =
     Option.bind (p_Next P p) (\<lambda>(ok, p).
       if \<not> ok then Some (False, p # ps, target, allEqual)
       else map_option (\<lambda>(ok, ps, target, allEqual). (ok, p # ps, target, allEqual))
              (if target < p_At P p then next_round P ps (p_At P p) False
               else if p_At P p < target then next_round P ps target False
               else next_round P ps target allEqual))"

definition intersect_Next :: "'p Postings \<Rightarrow> 'p intersectPostings \<Rightarrow> (bool \<times> 'p intersectPostings) option" where
  "intersect_Next P it =
     (case ip_postings it of
        [] \<Rightarrow> None
      | p # ps \<Rightarrow>
          Option.bind (p_Next P p) (\<lambda>(ok, p).
            if \<not> ok then Some (False, it\<lparr>ip_postings := p # ps\<rparr>)
            else Option.bind (next_round P ps (p_At P p) True) (\<lambda>(ok, ps, target, allEqual).
              let it = it\<lparr>ip_postings := p # ps\<rparr> in
              if \<not> ok then Some (False, it)
              else if allEqual then Some (True, it\<lparr>ip_current := target\<rparr>)
              else intersect_Seek P target it)))"

definition intersect_Err :: "'p Postings \<Rightarrow> 'p intersectPostings \<Rightarrow> go_error option" where
  "intersect_Err P it = (case filter (\<lambda>p. p_Err P p \<noteq> None) (ip_postings it) of [] \<Rightarrow> None | p # _ \<Rightarrow> p_Err P p)"

definition intersect_postings :: "'p Postings \<Rightarrow> 'p intersectPostings Postings" where
  "intersect_postings P = \<lparr>p_Next = intersect_Next P, p_Seek = intersect_Seek P, p_At = ip_current, p_Err = intersect_Err P\<rparr>"

text \<open>
  \<open>Intersect\<close> compares its operands with the sentinel for empty postings, here \<open>sentinel\<close>: the value
  \<open>EmptyPostings\<close> in the type of the operands.
\<close>

definition Intersect :: "'p \<Rightarrow> 'p list \<Rightarrow> 'p + 'p intersectPostings" where
  "Intersect sentinel its =
     (if its = [] then Inl sentinel
      else if length its = 1 then Inl (hd its)
      else if sentinel \<in> set its then Inl sentinel
      else Inr (newIntersectPostings its))"

section \<open>Difference\<close>

record ('f, 'r) removedPostings =
  rp_full :: 'f
  rp_remove :: 'r
  rp_cur :: uint64
  rp_initialized :: bool
  rp_fok :: bool
  rp_rok :: bool

definition newRemovedPostings :: "'f \<Rightarrow> 'r \<Rightarrow> ('f, 'r) removedPostings" where
  "newRemovedPostings full remove =
     \<lparr>rp_full = full, rp_remove = remove, rp_cur = 0, rp_initialized = False, rp_fok = False, rp_rok = False\<rparr>"

definition next_full :: "'f Postings \<Rightarrow> ('f, 'r) removedPostings \<Rightarrow> ('f, 'r) removedPostings option" where
  "next_full F rp = map_option (\<lambda>(ok, p). rp\<lparr>rp_fok := ok, rp_full := p\<rparr>) (p_Next F (rp_full rp))"

partial_function (option) removed_loop ::
  "'f Postings \<Rightarrow> 'r Postings \<Rightarrow> ('f, 'r) removedPostings \<Rightarrow> (bool \<times> ('f, 'r) removedPostings) option" where
  "removed_loop F R rp =
     (if \<not> rp_fok rp then Some (False, rp)
      else if \<not> rp_rok rp
      then Option.bind (next_full F (rp\<lparr>rp_cur := p_At F (rp_full rp)\<rparr>)) (\<lambda>rp. Some (True, rp))
      else let fcur = p_At F (rp_full rp); rcur = p_At R (rp_remove rp) in
           if fcur < rcur then Option.bind (next_full F (rp\<lparr>rp_cur := fcur\<rparr>)) (\<lambda>rp. Some (True, rp))
           else if rcur < fcur
           then Option.bind (p_Seek R fcur (rp_remove rp)) (\<lambda>(ok, p). removed_loop F R (rp\<lparr>rp_rok := ok, rp_remove := p\<rparr>))
           else Option.bind (next_full F rp) (\<lambda>rp. removed_loop F R rp))"

definition removed_Next :: "'f Postings \<Rightarrow> 'r Postings \<Rightarrow> ('f, 'r) removedPostings \<Rightarrow> (bool \<times> ('f, 'r) removedPostings) option" where
  "removed_Next F R rp =
     (if \<not> rp_initialized rp
      then Option.bind (next_full F rp) (\<lambda>rp.
             Option.bind (p_Next R (rp_remove rp)) (\<lambda>(ok, p).
               removed_loop F R (rp\<lparr>rp_rok := ok, rp_remove := p, rp_initialized := True\<rparr>)))
      else removed_loop F R rp)"

definition removed_Seek :: "'f Postings \<Rightarrow> 'r Postings \<Rightarrow> uint64 \<Rightarrow> ('f, 'r) removedPostings \<Rightarrow> (bool \<times> ('f, 'r) removedPostings) option" where
  "removed_Seek F R x rp =
     (if x \<le> rp_cur rp then Some (True, rp)
      else Option.bind (p_Seek F x (rp_full rp)) (\<lambda>(fok, full).
           Option.bind (p_Seek R x (rp_remove rp)) (\<lambda>(rok, remove).
             removed_Next F R (rp\<lparr>rp_fok := fok, rp_full := full, rp_rok := rok, rp_remove := remove, rp_initialized := True\<rparr>))))"

definition removed_Err :: "'f Postings \<Rightarrow> 'r Postings \<Rightarrow> ('f, 'r) removedPostings \<Rightarrow> go_error option" where
  "removed_Err F R rp = (if p_Err F (rp_full rp) \<noteq> None then p_Err F (rp_full rp) else p_Err R (rp_remove rp))"

definition removed_postings :: "'f Postings \<Rightarrow> 'r Postings \<Rightarrow> ('f, 'r) removedPostings Postings" where
  "removed_postings F R = \<lparr>p_Next = removed_Next F R, p_Seek = removed_Seek F R, p_At = rp_cur, p_Err = removed_Err F R\<rparr>"

definition Without :: "'f \<Rightarrow> 'r \<Rightarrow> 'f \<Rightarrow> 'r \<Rightarrow> 'f + ('f, 'r) removedPostings" where
  "Without emptyF emptyR full dropped =
     (if full = emptyF then Inl emptyF
      else if dropped = emptyR then Inl full
      else Inr (newRemovedPostings full dropped))"

end
