(* ===== verification/PostingsCorrect.thy ===== *)
theory PostingsCorrect
  imports Postings
begin

text \<open>
  The contract of a postings iterator and its implementations. An iterator stands for a strictly
  increasing list of positive references: \<open>live p c xs\<close> says that \<open>p\<close> is at \<open>c\<close> (0 before the first
  call) and that \<open>xs\<close> is still to come. References are up to a bound \<open>B\<close>. Lists, intersections and
  differences keep the contract.
\<close>

section \<open>The contract\<close>

locale postings =
  fixes P :: "'p Postings" and B :: uint64 and live :: "'p \<Rightarrow> uint64 \<Rightarrow> uint64 list \<Rightarrow> bool"
  assumes live_sorted: "live p c xs \<Longrightarrow> sorted_wrt (<) (c # xs)"
    and live_le: "live p c xs \<Longrightarrow> y \<in> set (c # xs) \<Longrightarrow> y \<le> B"
    and next_live: "live p c (x # xs) \<Longrightarrow> \<exists>p'. p_Next P p = Some (True, p') \<and> live p' x xs \<and> p_At P p' = x"
    and next_end: "live p c [] \<Longrightarrow> \<exists>p'. p_Next P p = Some (False, p') \<and> p_Err P p' = None"
    and seek_live: "live p c xs \<Longrightarrow> 0 < x \<Longrightarrow> x \<le> B \<Longrightarrow> filter (\<lambda>y. x \<le> y) (c # xs) = y # ys \<Longrightarrow>
      \<exists>p'. p_Seek P x p = Some (True, p') \<and> live p' y ys \<and> p_At P p' = y"
    and seek_end: "live p c xs \<Longrightarrow> 0 < x \<Longrightarrow> x \<le> B \<Longrightarrow> filter (\<lambda>y. x \<le> y) (c # xs) = [] \<Longrightarrow>
      \<exists>p'. p_Seek P x p = Some (False, p') \<and> p_Err P p' = None"
    and live_err: "live p c xs \<Longrightarrow> p_Err P p = None"
begin

text \<open>A client that reads to the end gets the list.\<close>

lemma expand: "live p c xs \<Longrightarrow> ExpandPostings P p = Some (xs, None)"
proof (induction xs arbitrary: p c)
  case Nil
  then show ?case using next_end [OF Nil] by (auto simp: ExpandPostings.simps [of P p])
next
  case (Cons x xs)
  from next_live [OF Cons.prems] obtain p' where "p_Next P p = Some (True, p')" "live p' x xs" "p_At P p' = x" by blast
  with Cons.IH [OF this(2)] show ?case by (simp add: ExpandPostings.simps [of P p])
qed

text \<open>A seek that starts from a live iterator, in one rule.\<close>

lemma seek:
  assumes "live p c xs" "0 < x" "x \<le> B"
  obtains p' where "p_Seek P x p = Some (False, p')" "p_Err P p' = None" "\<forall>y \<in> set (c # xs). y < x"
  | p' y ys where "p_Seek P x p = Some (True, p')" "live p' y ys" "p_At P p' = y" "filter (\<lambda>y. x \<le> y) (c # xs) = y # ys" "x \<le> y"
proof (cases "filter (\<lambda>y. x \<le> y) (c # xs)")
  case Nil
  moreover have "\<forall>y \<in> set (c # xs). y < x" using Nil unfolding filter_empty_conv by (simp add: not_le)
  ultimately show thesis using seek_end [OF assms] that(1) by blast
next
  case (Cons y ys)
  then have "y \<in> set (filter (\<lambda>y. x \<le> y) (c # xs))" by simp
  then have "x \<le> y" unfolding set_filter by blast
  then show thesis using seek_live [OF assms Cons] Cons that(2) by blast
qed

end

text \<open>
  After \<open>Next\<close> came to the end of an iterator at \<open>c\<close> it is \<open>ended\<close>: a client may still seek, and does
  not get a reference above \<open>c\<close>.
\<close>

locale resumable_postings = postings +
  fixes ended :: "'a \<Rightarrow> uint64 \<Rightarrow> bool"
  assumes ended_next: "live p c [] \<Longrightarrow> p_Next P p = Some (ok, p') \<Longrightarrow> ended p' c"
    and next_ended: "ended p c \<Longrightarrow> \<exists>p'. p_Next P p = Some (False, p') \<and> ended p' c"
    and seek_ended: "ended p c \<Longrightarrow> 0 < x \<Longrightarrow> x \<le> B \<Longrightarrow>
      \<exists>ok p'. p_Seek P x p = Some (ok, p') \<and> p_Err P p' = None \<and> (ok \<longrightarrow> x \<le> c \<and> p_At P p' = c \<and> ended p' c)"
    and ended_le: "ended p c \<Longrightarrow> c \<le> B"
    and ended_err: "ended p c \<Longrightarrow> p_Err P p = None"

text \<open>
  After a seek for \<open>h\<close> that found nothing a tame iterator is \<open>dead\<close>: no later seek finds a reference at or
  above \<open>h\<close>.
\<close>

locale tame_postings = resumable_postings +
  fixes dead :: "'a \<Rightarrow> uint64 \<Rightarrow> bool"
  assumes dead_seek: "live p c xs \<Longrightarrow> 0 < x \<Longrightarrow> x \<le> B \<Longrightarrow> \<forall>y \<in> set (c # xs). y < x \<Longrightarrow> p_Seek P x p = Some (ok, p') \<Longrightarrow> dead p' x"
    and dead_ended: "ended p c \<Longrightarrow> c < h \<Longrightarrow> dead p h"
    and next_dead: "dead p h \<Longrightarrow> \<exists>p'. p_Next P p = Some (False, p') \<and> dead p' h"
    and seek_dead: "dead p h \<Longrightarrow> 0 < x \<Longrightarrow> x \<le> B \<Longrightarrow>
      \<exists>ok p'. p_Seek P x p = Some (ok, p') \<and> dead p' h \<and> (ok \<longrightarrow> x \<le> p_At P p' \<and> p_At P p' < h \<and> p_At P p' \<le> B)"
    and dead_err: "dead p h \<Longrightarrow> p_Err P p = None"

section \<open>Lists\<close>

definition list_live :: "listPostings \<Rightarrow> uint64 \<Rightarrow> uint64 list \<Rightarrow> bool" where
  "list_live p c xs \<longleftrightarrow> lp_cur p = c \<and> lp_list p = xs \<and> sorted_wrt (<) (c # xs)"

definition list_ended :: "listPostings \<Rightarrow> uint64 \<Rightarrow> bool" where
  "list_ended p c \<longleftrightarrow> lp_list p = [] \<and> (lp_cur p = 0 \<or> lp_cur p = c)"

definition list_dead :: "listPostings \<Rightarrow> uint64 \<Rightarrow> bool" where
  "list_dead p h \<longleftrightarrow> lp_list p = [] \<and> lp_cur p < h"

lemma sorted_filter_ge:
  assumes "sorted_wrt (<) (xs :: uint64 list)"
  shows "filter (\<lambda>y. x \<le> y) xs = drop (length (takeWhile (\<lambda>y. y < x) xs)) xs"
  using assms
proof (induction xs)
  case (Cons y ys)
  then have "filter (\<lambda>z. x \<le> z) ys = ys" if "x \<le> y" using that by (intro filter_True) (auto intro: order_trans)
  with Cons show ?case by (cases "x \<le> y") auto
qed simp

lemma BinarySearch_sorted:
  assumes "sorted_wrt (<) (xs :: uint64 list)"
  shows "BinarySearch xs x = length (takeWhile (\<lambda>y. y < x) xs)"
  unfolding BinarySearch_def
proof (rule Search_eqI)
  let ?k = "length (takeWhile (\<lambda>y. y < x) xs)"
  show "?k \<le> length xs" by (rule length_takeWhile_le)
  show "\<not> \<not> xs ! i < x" if "i < ?k" for i using that by (metis nth_mem set_takeWhileD takeWhile_nth)
  show "\<not> xs ! i < x" if "?k \<le> i" "i < length xs" for i
  proof -
    have "\<not> xs ! ?k < x" using that by (intro nth_length_takeWhile) simp
    then show ?thesis using sorted_wrt_nth_less [OF assms, of ?k i] that by (cases "i = ?k") auto
  qed
qed

lemma list_Seek_filter:
  assumes "list_live p c xs"
  shows "list_Seek x p = (case filter (\<lambda>y. x \<le> y) (c # xs) of [] \<Rightarrow> (False, p\<lparr>lp_list := []\<rparr>) | y # ys \<Rightarrow> (True, p\<lparr>lp_cur := y, lp_list := ys\<rparr>))"
proof (cases "x \<le> c")
  case True
  have "filter (\<lambda>y. x \<le> y) (c # xs) = c # xs" using assms True by (intro filter_True) (auto simp: list_live_def)
  then show ?thesis using assms True by (auto simp: list_Seek_def list_live_def)
next
  case False
  have s: "sorted_wrt (<) xs" and f: "lp_cur p = c" "lp_list p = xs" using assms by (simp_all add: list_live_def)
  let ?k = "length (takeWhile (\<lambda>y. y < x) xs)"
  have "filter (\<lambda>y. x \<le> y) (c # xs) = drop ?k xs" using False sorted_filter_ge [OF s] by simp
  moreover have "drop ?k xs = (if ?k < length xs then xs ! ?k # drop (Suc ?k) xs else [])" by (simp add: Cons_nth_drop_Suc)
  ultimately have flt: "filter (\<lambda>y. x \<le> y) (c # xs) = (if ?k < length xs then xs ! ?k # drop (Suc ?k) xs else [])" by simp
  show ?thesis
  proof (cases "xs = []")
    case True
    then show ?thesis using False f by (auto simp: list_Seek_def)
  next
    case ne: False
    have idx: "(if xs ! 0 < x then BinarySearch xs x else 0) = ?k" using ne BinarySearch_sorted [OF s] by (cases xs) auto
    have "xs ! 0 < x \<and> length xs \<le> ?k \<longleftrightarrow> \<not> ?k < length xs" using ne by (cases xs) (auto split: if_splits)
    then show ?thesis unfolding list_Seek_def f Let_def idx flt using False ne by simp
  qed
qed

lemma list_seek_stays: "lp_list p = [] \<Longrightarrow> p_Seek list_postings x p = Some (x \<le> lp_cur p, p)"
  by (simp add: list_postings_def list_Seek_def)

lemma list_no_err: "p_Err list_postings p = None" "p_At list_postings p = lp_cur p"
  by (simp_all add: list_postings_def)

interpretation lp: tame_postings list_postings "- 1" list_live list_ended list_dead
proof
  fix p c xs and x y :: uint64 and ys ok p' h
  show "list_live p c xs \<Longrightarrow> sorted_wrt (<) (c # xs)" by (simp add: list_live_def)
  show "y \<le> - 1" by simp
  show "list_live p c (x # xs) \<Longrightarrow> \<exists>p'. p_Next list_postings p = Some (True, p') \<and> list_live p' x xs \<and> p_At list_postings p' = x"
    by (auto simp: list_live_def list_postings_def list_Next_def)
  show "list_live p c [] \<Longrightarrow> \<exists>p'. p_Next list_postings p = Some (False, p') \<and> p_Err list_postings p' = None"
    by (auto simp: list_live_def list_postings_def list_Next_def)
  show "list_live p c [] \<Longrightarrow> p_Next list_postings p = Some (ok, p') \<Longrightarrow> list_ended p' c"
    by (auto simp: list_live_def list_postings_def list_Next_def list_ended_def)
  show "\<exists>p'. p_Seek list_postings x p = Some (True, p') \<and> list_live p' y ys \<and> p_At list_postings p' = y"
    if l: "list_live p c xs" and f: "filter (\<lambda>y. x \<le> y) (c # xs) = y # ys"
  proof -
    have "sorted_wrt (<) (y # ys)" using l sorted_wrt_filter [of "(<)" "c # xs"] unfolding f [symmetric] by (simp add: list_live_def)
    then show ?thesis using list_Seek_filter [OF l, of x] f by (simp add: list_postings_def list_live_def)
  qed
  show "\<exists>p'. p_Seek list_postings x p = Some (False, p') \<and> p_Err list_postings p' = None"
    if "list_live p c xs" "filter (\<lambda>y. x \<le> y) (c # xs) = []"
    using list_Seek_filter [OF that(1), of x] that(2) by (simp add: list_postings_def)
  show "list_ended p c \<Longrightarrow> \<exists>p'. p_Next list_postings p = Some (False, p') \<and> list_ended p' c"
    by (auto simp: list_ended_def list_postings_def list_Next_def)
  show "\<exists>ok p'. p_Seek list_postings x p = Some (ok, p') \<and> p_Err list_postings p' = None \<and>
      (ok \<longrightarrow> x \<le> c \<and> p_At list_postings p' = c \<and> list_ended p' c)" if "list_ended p c" "0 < x"
    using that list_seek_stays [of p x] by (auto simp: list_ended_def list_no_err)
  show "c \<le> - 1" by simp
  show "p_Err list_postings p = None" by (rule list_no_err)
  show "p_Err list_postings p = None" by (rule list_no_err)
  show "p_Err list_postings p = None" by (rule list_no_err)
  show "list_dead p' x" if "list_live p c xs" "\<forall>y \<in> set (c # xs). y < x" "p_Seek list_postings x p = Some (ok, p')"
  proof -
    have "filter (\<lambda>y. x \<le> y) (c # xs) = []" using that(2) by (intro filter_False) (simp add: not_le)
    then show ?thesis using list_Seek_filter [OF that(1), of x] that by (auto simp: list_postings_def list_dead_def list_live_def)
  qed
  show "list_ended p c \<Longrightarrow> c < h \<Longrightarrow> list_dead p h" by (auto simp: list_ended_def list_dead_def word_neq_0_conv [symmetric])
  show "list_dead p h \<Longrightarrow> \<exists>p'. p_Next list_postings p = Some (False, p') \<and> list_dead p' h"
    by (auto simp: list_dead_def list_postings_def list_Next_def word_neq_0_conv [symmetric])
  show "\<exists>ok p'. p_Seek list_postings x p = Some (ok, p') \<and> list_dead p' h \<and>
      (ok \<longrightarrow> x \<le> p_At list_postings p' \<and> p_At list_postings p' < h \<and> p_At list_postings p' \<le> - 1)" if "list_dead p h"
    using that list_seek_stays [of p x] by (auto simp: list_dead_def list_no_err)
qed

section \<open>Big-endian lists\<close>

definition be_bytes :: "uint32 list \<Rightarrow> byte list" where
  "be_bytes vs = concat (map PutUint32 vs)"

lemma be_bytes_simps [simp]: "be_bytes [] = []" "be_bytes (v # vs) = PutUint32 v @ be_bytes vs"
  by (simp_all add: be_bytes_def)

lemma length_be_bytes [simp]: "length (be_bytes vs) = 4 * length vs"
  by (induction vs) simp_all

lemma drop_be_bytes: "drop (4 * i) (be_bytes vs) = be_bytes (drop i vs)"
proof (induction vs arbitrary: i)
  case (Cons v vs)
  then show ?case by (cases i) simp_all
qed simp

lemma Uint32_be_bytes: "i < length vs \<Longrightarrow> Uint32 (drop (4 * i) (be_bytes vs)) = Some (vs ! i)"
  unfolding drop_be_bytes by (simp add: Cons_nth_drop_Suc [symmetric])

abbreviation wide :: "uint32 \<Rightarrow> uint64" where "wide \<equiv> ucast"

lemma unat32_less: "unat (v :: uint32) < 2 ^ 32"
proof -
  have "unat v < 2 ^ LENGTH(32)" by (rule unsigned_less)
  then show ?thesis by simp
qed

lemma unat_wide: "unat (wide v) = unat v"
proof -
  have "unat v < 2 ^ 64" using unat32_less [of v] by simp
  then show ?thesis by (simp add: unsigned_ucast_eq take_bit_nat_eq_self)
qed

lemma wide_le: "wide v \<le> wide w \<longleftrightarrow> v \<le> w" "wide v < wide w \<longleftrightarrow> v < w"
  by (simp_all add: word_le_nat_alt word_less_nat_alt unat_wide)

lemma narrow: "x \<le> 0xffffffff \<Longrightarrow> wide (ucast x) = x"
  by (rule word_unat_eq_iff [THEN iffD2]) (simp add: unat_wide unsigned_ucast_eq unsigned_take_bit_eq word_le_nat_alt take_bit_nat_eq_self)

definition be_live :: "bigEndianPostings \<Rightarrow> uint64 \<Rightarrow> uint64 list \<Rightarrow> bool" where
  "be_live p c xs \<longleftrightarrow> (\<exists>vs. be_list p = be_bytes vs \<and> xs = map wide vs \<and> c = wide (be_cur p) \<and> sorted_wrt (<) (c # xs))"

definition be_ended :: "bigEndianPostings \<Rightarrow> uint64 \<Rightarrow> bool" where
  "be_ended p c \<longleftrightarrow> be_list p = [] \<and> wide (be_cur p) = c"

definition be_dead :: "bigEndianPostings \<Rightarrow> uint64 \<Rightarrow> bool" where
  "be_dead p h \<longleftrightarrow> be_list p = [] \<and> wide (be_cur p) < h"

lemma be_Seek_filter:
  assumes l: "be_live p c xs" and x: "x \<le> 0xffffffff"
  shows "case filter (\<lambda>y. x \<le> y) (c # xs) of [] \<Rightarrow> be_Seek x p = Some (False, p\<lparr>be_list := []\<rparr>)
    | y # ys \<Rightarrow> \<exists>p'. be_Seek x p = Some (True, p') \<and> be_live p' y ys \<and> wide (be_cur p') = y"
proof (cases "x \<le> c")
  case True
  have "filter (\<lambda>y. x \<le> y) (c # xs) = c # xs" using l True by (intro filter_True) (auto simp: be_live_def)
  then show ?thesis using l True by (auto simp: be_Seek_def be_live_def)
next
  case False
  obtain vs where vs: "be_list p = be_bytes vs" "xs = map wide vs" "c = wide (be_cur p)" "sorted_wrt (<) (c # xs)" using l by (auto simp: be_live_def)
  have s: "sorted_wrt (<) xs" using vs(4) by simp
  let ?k = "length (takeWhile (\<lambda>y. y < x) xs)"
  have cmp: "ucast x \<le> v \<longleftrightarrow> x \<le> wide v" for v :: uint32 using wide_le(1) [of "ucast x" v] narrow [OF x] by simp
  have k: "Search (length vs) (\<lambda>i. ucast x \<le> the (Uint32 (drop (i * 4) (be_bytes vs)))) = ?k"
  proof (rule Search_eqI)
    show "?k \<le> length vs" using length_takeWhile_le [of _ xs] by (simp add: vs(2))
    show "\<not> ucast x \<le> the (Uint32 (drop (i * 4) (be_bytes vs)))" if i: "i < ?k" for i
    proof -
      have b: "i < length vs" using i length_takeWhile_le [of "\<lambda>y. y < x" xs] by (simp add: vs(2))
      have "xs ! i < x" using i by (metis nth_mem set_takeWhileD takeWhile_nth)
      then show ?thesis using b Uint32_be_bytes [OF b] cmp by (simp add: vs(2) mult.commute not_le)
    qed
    show "ucast x \<le> the (Uint32 (drop (i * 4) (be_bytes vs)))" if i: "?k \<le> i" "i < length vs" for i
    proof -
      have "\<not> xs ! ?k < x" using i by (intro nth_length_takeWhile) (simp add: vs(2))
      then have "\<not> xs ! i < x" using sorted_wrt_nth_less [OF s, of ?k i] i by (cases "i = ?k") (auto simp: vs(2))
      then show ?thesis using i Uint32_be_bytes [OF i(2)] cmp by (simp add: vs(2) mult.commute not_less)
    qed
  qed
  have f: "filter (\<lambda>y. x \<le> y) (c # xs) = drop ?k xs" using False sorted_filter_ge [OF s] by simp
  show ?thesis
  proof (cases "?k < length vs")
    case True
    then have d: "drop ?k xs = wide (vs ! ?k) # map wide (drop (Suc ?k) vs)" by (simp add: vs(2) drop_map Cons_nth_drop_Suc [symmetric])
    have "be_Seek x p = Some (True, p\<lparr>be_cur := vs ! ?k, be_list := be_bytes (drop (Suc ?k) vs)\<rparr>)"
      using False True Uint32_be_bytes [OF True] drop_be_bytes [of "Suc ?k" vs] by (simp add: be_Seek_def vs(1,3) Let_def k mult.commute add.commute)
    moreover have "sorted_wrt (<) (wide (vs ! ?k) # map wide (drop (Suc ?k) vs))" unfolding d [symmetric] by (rule sorted_wrt_drop [OF s])
    ultimately show ?thesis unfolding f d by (auto simp: be_live_def)
  next
    case nk: False
    then have d: "drop ?k xs = []" by (simp add: vs(2))
    show ?thesis unfolding f d using False nk by (simp add: be_Seek_def vs(1,3) Let_def k)
  qed
qed

lemma be_seek_stays: "be_list p = [] \<Longrightarrow> p_Seek be_postings x p = Some (x \<le> wide (be_cur p), p)"
  by (auto simp: be_postings_def be_Seek_def Let_def Search_def Search_loop_done)

lemma be_no_err: "p_Err be_postings p = None" "p_At be_postings p = wide (be_cur p)"
  by (simp_all add: be_postings_def)

lemma wide_bound: "wide v \<le> 0xffffffff"
  using unat32_less [of v] by (simp add: word_le_nat_alt unat_wide)

interpretation bp: tame_postings be_postings "0xffffffff" be_live be_ended be_dead
proof
  fix p c xs and x y :: uint64 and ys ok p' h
  show "be_live p c xs \<Longrightarrow> sorted_wrt (<) (c # xs)" by (auto simp: be_live_def)
  show "be_live p c xs \<Longrightarrow> y \<in> set (c # xs) \<Longrightarrow> y \<le> 0xffffffff" by (auto simp: be_live_def wide_bound)
  show "\<exists>p'. p_Next be_postings p = Some (True, p') \<and> be_live p' x xs \<and> p_At be_postings p' = x" if l: "be_live p c (x # xs)"
  proof -
    obtain v vs where "be_list p = be_bytes (v # vs)" "x = wide v" "xs = map wide vs" "sorted_wrt (<) (x # xs)" using l by (auto simp: be_live_def)
    then show ?thesis by (auto simp: be_postings_def be_Next_def be_live_def)
  qed
  show "be_live p c [] \<Longrightarrow> \<exists>p'. p_Next be_postings p = Some (False, p') \<and> p_Err be_postings p' = None"
    by (auto simp: be_live_def be_postings_def be_Next_def)
  show "be_live p c [] \<Longrightarrow> p_Next be_postings p = Some (ok, p') \<Longrightarrow> be_ended p' c"
    by (auto simp: be_live_def be_postings_def be_Next_def be_ended_def)
  show "\<exists>p'. p_Seek be_postings x p = Some (True, p') \<and> be_live p' y ys \<and> p_At be_postings p' = y"
    if "be_live p c xs" "x \<le> 0xffffffff" "filter (\<lambda>y. x \<le> y) (c # xs) = y # ys"
    using be_Seek_filter [OF that(1,2)] that(3) by (auto simp: be_postings_def)
  show "\<exists>p'. p_Seek be_postings x p = Some (False, p') \<and> p_Err be_postings p' = None"
    if "be_live p c xs" "x \<le> 0xffffffff" "filter (\<lambda>y. x \<le> y) (c # xs) = []"
    using be_Seek_filter [OF that(1,2)] that(3) by (auto simp: be_postings_def)
  show "be_ended p c \<Longrightarrow> \<exists>p'. p_Next be_postings p = Some (False, p') \<and> be_ended p' c"
    by (auto simp: be_ended_def be_postings_def be_Next_def)
  show "\<exists>ok p'. p_Seek be_postings x p = Some (ok, p') \<and> p_Err be_postings p' = None \<and>
      (ok \<longrightarrow> x \<le> c \<and> p_At be_postings p' = c \<and> be_ended p' c)" if "be_ended p c"
    using that be_seek_stays [of p x] by (auto simp: be_ended_def be_no_err)
  show "be_ended p c \<Longrightarrow> c \<le> 0xffffffff" using wide_bound by (auto simp: be_ended_def)
  show "p_Err be_postings p = None" by (rule be_no_err)
  show "p_Err be_postings p = None" by (rule be_no_err)
  show "p_Err be_postings p = None" by (rule be_no_err)
  show "be_dead p' x" if "be_live p c xs" "x \<le> 0xffffffff" "\<forall>y \<in> set (c # xs). y < x" "p_Seek be_postings x p = Some (ok, p')"
  proof -
    have "filter (\<lambda>y. x \<le> y) (c # xs) = []" using that(3) by (intro filter_False) (simp add: not_le)
    then show ?thesis using be_Seek_filter [OF that(1,2)] that by (auto simp: be_postings_def be_dead_def be_live_def)
  qed
  show "be_ended p c \<Longrightarrow> c < h \<Longrightarrow> be_dead p h" by (auto simp: be_ended_def be_dead_def)
  show "be_dead p h \<Longrightarrow> \<exists>p'. p_Next be_postings p = Some (False, p') \<and> be_dead p' h"
    by (auto simp: be_dead_def be_postings_def be_Next_def)
  show "\<exists>ok p'. p_Seek be_postings x p = Some (ok, p') \<and> be_dead p' h \<and>
      (ok \<longrightarrow> x \<le> p_At be_postings p' \<and> p_At be_postings p' < h \<and> p_At be_postings p' \<le> 0xffffffff)" if "be_dead p h"
    using that be_seek_stays [of p x] wide_bound by (auto simp: be_dead_def be_no_err)
qed

section \<open>Intersections\<close>

text \<open>What is left of an iterator in a state, with the reference it is at.\<close>

abbreviation elems :: "uint64 \<times> uint64 list \<Rightarrow> uint64 list" where
  "elems s \<equiv> fst s # snd s"

definition common :: "(uint64 \<times> uint64 list) list \<Rightarrow> uint64 \<Rightarrow> bool" where
  "common sts z \<longleftrightarrow> (\<forall>s \<in> set sts. z \<in> set (elems s))"

definition cut :: "uint64 \<Rightarrow> uint64 \<Rightarrow> uint64 \<times> uint64 list \<Rightarrow> uint64 \<times> uint64 list \<Rightarrow> bool" where
  "cut t t' s s' \<longleftrightarrow> (\<exists>u. t \<le> u \<and> u \<le> t' \<and> elems s' = filter (\<lambda>z. u \<le> z) (elems s))"

definition landed :: "uint64 \<Rightarrow> uint64 \<times> uint64 list \<Rightarrow> uint64 \<times> uint64 list \<Rightarrow> bool" where
  "landed y s s' \<longleftrightarrow> fst s' = y \<and> elems s' = filter (\<lambda>z. y \<le> z) (elems s)"

lemma filter_filter_ge: "u \<le> (y :: uint64) \<Longrightarrow> filter (\<lambda>z. y \<le> z) (filter (\<lambda>z. u \<le> z) xs) = filter (\<lambda>z. y \<le> z) xs"
  by (induction xs) auto

lemma cut_mono: "cut y t' s s' \<Longrightarrow> t \<le> y \<Longrightarrow> cut t t' s s'"
  unfolding cut_def by (meson order_trans)

lemma cut_elems: "cut t t' s s' \<Longrightarrow> t' \<le> z \<Longrightarrow> z \<in> set (elems s') \<longleftrightarrow> z \<in> set (elems s)"
  unfolding cut_def by (elim exE conjE) (simp only: set_filter, auto)

lemma cut_landed: "cut t t' s s' \<Longrightarrow> landed y s' s'' \<Longrightarrow> t' \<le> y \<Longrightarrow> landed y s s''"
  unfolding cut_def landed_def by (elim exE conjE) (simp only: filter_filter_ge order_trans)

lemma cut_exact: "cut t t s s' \<Longrightarrow> fst s' = t \<Longrightarrow> landed t s s'"
  unfolding cut_def landed_def by (elim exE conjE) (metis antisym)

lemma common_cut:
  assumes "list_all2 (cut t t') sts sts'" "t' \<le> z"
  shows "common sts' z \<longleftrightarrow> common sts z"
  using assms unfolding common_def by (induction sts sts' rule: list_all2_induct) (auto simp only: list.set ball_simps dest: cut_elems)

context postings
begin

abbreviation at :: "'p \<Rightarrow> uint64 \<times> uint64 list \<Rightarrow> bool" where
  "at p s \<equiv> live p (fst s) (snd s)"

lemma all_err: "list_all2 at ps sts \<Longrightarrow> \<forall>p \<in> set ps. p_Err P p = None"
  by (induction ps sts rule: list_all2_induct) (auto dest: live_err)

lemma seek_round_live:
  assumes "list_all2 at ps sts" "0 < t" "t \<le> B"
  obtains (fail) ps' t' eq' where "seek_round P ps t eq = Some (False, ps', t', eq')" "\<forall>p \<in> set ps'. p_Err P p = None"
    "\<forall>z \<ge> t. \<not> common sts z"
  | (ok) ps' t' eq' sts' where "seek_round P ps t eq = Some (True, ps', t', eq')" "list_all2 at ps' sts'" "t \<le> t'" "t' \<le> B"
    "eq' \<longleftrightarrow> eq \<and> t' = t" "\<forall>z \<ge> t. common sts z \<longrightarrow> t' \<le> z" "\<forall>s \<in> set sts'. t \<le> fst s \<and> fst s \<le> t'"
    "list_all2 (cut t t') sts sts'" "sts \<noteq> [] \<Longrightarrow> t' \<in> fst ` set sts'"
proof -
  have "(\<exists>ps' t' eq'. seek_round P ps t eq = Some (False, ps', t', eq') \<and> (\<forall>p \<in> set ps'. p_Err P p = None) \<and> (\<forall>z \<ge> t. \<not> common sts z)) \<or>
    (\<exists>ps' t' eq' sts'. seek_round P ps t eq = Some (True, ps', t', eq') \<and> list_all2 at ps' sts' \<and> t \<le> t' \<and> t' \<le> B \<and>
      (eq' \<longleftrightarrow> eq \<and> t' = t) \<and> (\<forall>z \<ge> t. common sts z \<longrightarrow> t' \<le> z) \<and> (\<forall>s \<in> set sts'. t \<le> fst s \<and> fst s \<le> t') \<and>
      list_all2 (cut t t') sts sts' \<and> (sts \<noteq> [] \<longrightarrow> t' \<in> fst ` set sts'))"
    using assms
  proof (induction ps arbitrary: sts t eq)
    case Nil
    then show ?case by (intro disjI2) (auto simp: common_def)
  next
    case (Cons p ps)
    obtain s sts1 where sts: "sts = s # sts1" "at p s" "list_all2 at ps sts1" using Cons.prems(1) by (auto simp: list_all2_Cons1)
    show ?case
    proof (rule seek [OF sts(2) Cons.prems(2,3)])
      fix p' assume "p_Seek P t p = Some (False, p')" "p_Err P p' = None" "\<forall>y \<in> set (elems s). y < t"
      moreover have "\<forall>p \<in> set ps. p_Err P p = None" by (rule all_err [OF sts(3)])
      ultimately show ?thesis by (intro disjI1) (auto simp: sts(1) common_def)
    next
      fix p' y ys assume y: "p_Seek P t p = Some (True, p')" "live p' y ys" "p_At P p' = y" "filter (\<lambda>y. t \<le> y) (elems s) = y # ys" "t \<le> y"
      have yB: "y \<le> B" using live_le [OF y(2)] by simp
      have srt: "\<forall>z \<in> set ys. y < z" using live_sorted [OF y(2)] by simp
      have min: "y \<le> z" if "common sts z" "t \<le> z" for z
      proof -
        have "z \<in> set (filter (\<lambda>y. t \<le> y) (elems s))" using that by (auto simp: sts(1) common_def)
        then show ?thesis unfolding y(4) using srt by auto
      qed
      have sub: "common sts1 z" if "common sts z" for z using that by (simp add: sts(1) common_def)
      have step: "seek_round P (p # ps) t eq = map_option (\<lambda>(ok, ps, t, eq). (ok, p' # ps, t, eq)) (seek_round P ps y (eq \<and> y = t))"
        using y(1,3,5) by (cases "y = t") auto
      have "0 < y" using Cons.prems(2) y(5) by simp
      from Cons.IH [OF sts(3) this yB, of "eq \<and> y = t"] show ?thesis
      proof (elim disjE exE conjE)
        fix ps' t' eq' assume "seek_round P ps y (eq \<and> y = t) = Some (False, ps', t', eq')" "\<forall>p \<in> set ps'. p_Err P p = None" "\<forall>z \<ge> y. \<not> common sts1 z"
        then show ?thesis using step live_err [OF y(2)] min sub by (intro disjI1) auto
      next
        fix ps' t' eq' sts' assume h: "seek_round P ps y (eq \<and> y = t) = Some (True, ps', t', eq')" "list_all2 at ps' sts'" "y \<le> t'" "t' \<le> B"
          "eq' \<longleftrightarrow> (eq \<and> y = t) \<and> t' = y" "\<forall>z \<ge> y. common sts1 z \<longrightarrow> t' \<le> z" "\<forall>s \<in> set sts'. y \<le> fst s \<and> fst s \<le> t'"
          "list_all2 (cut y t') sts1 sts'" "sts1 \<noteq> [] \<longrightarrow> t' \<in> fst ` set sts'"
        have "seek_round P (p # ps) t eq = Some (True, p' # ps', t', eq')" using step h(1) by simp
        moreover have "list_all2 at (p' # ps') ((y, ys) # sts')" using h(2) y(2) by simp
        moreover have "t \<le> t'" using y(5) h(3) by simp
        moreover have "eq' \<longleftrightarrow> eq \<and> t' = t" using h(3,5) y(5) by auto
        moreover have "\<forall>z \<ge> t. common sts z \<longrightarrow> t' \<le> z" using h(6) min sub by blast
        moreover have "\<forall>s \<in> set ((y, ys) # sts'). t \<le> fst s \<and> fst s \<le> t'" using h(3,7) y(5) by auto
        moreover have "list_all2 (cut t t') sts ((y, ys) # sts')"
          unfolding sts(1) list_all2_Cons
        proof
          show "cut t t' s (y, ys)" using y(4,5) h(3) by (auto simp: cut_def intro!: exI [of _ t])
          show "list_all2 (cut t t') sts1 sts'" by (rule list_all2_mono [OF h(8)]) (rule cut_mono [OF _ y(5)])
        qed
        moreover have "t' \<in> fst ` set ((y, ys) # sts')"
        proof (cases sts1)
          case Nil
          then show ?thesis using sts(3) h(1) by simp
        qed (use h(9) in simp)
        ultimately show ?thesis using h(4) by blast
      qed
    qed
  qed
  then show thesis using that by blast
qed

lemma set_tl_subset: "set (tl xs) \<subseteq> set xs"
  by (cases xs) auto

lemma inter_err: "\<forall>p \<in> set ps. p_Err P p = None \<Longrightarrow> intersect_Err P (it\<lparr>ip_postings := ps, ip_current := y\<rparr>) = None"
  "\<forall>p \<in> set ps. p_Err P p = None \<Longrightarrow> intersect_Err P (it\<lparr>ip_postings := ps\<rparr>) = None"
  by (simp_all add: intersect_Err_def)

lemma unat64_less: "unat (v :: uint64) < 2 ^ 64"
proof -
  have "unat v < 2 ^ LENGTH(64)" by (rule unsigned_less)
  then show ?thesis by simp
qed

text \<open>The loop of \<open>Seek\<close>: it ends, at the least common reference from the target on.\<close>

lemma seek_loop:
  assumes "list_all2 at (ip_postings it) sts" "0 < t" "t \<le> B"
  obtains (fail) it' where "intersect_Seek P t it = Some (False, it')" "\<forall>z \<ge> t. \<not> common sts z" "intersect_Err P it' = None"
  | (ok) it' y sts' where "intersect_Seek P t it = Some (True, it')" "list_all2 at (ip_postings it') sts'" "ip_current it' = y" "t \<le> y"
    "common sts y" "\<forall>z \<ge> t. common sts z \<longrightarrow> y \<le> z"
    "list_all2 (landed y) sts sts'"
proof -
  have "(\<exists>it'. intersect_Seek P t it = Some (False, it') \<and> (\<forall>z \<ge> t. \<not> common sts z) \<and> intersect_Err P it' = None) \<or>
    (\<exists>it' y sts'. intersect_Seek P t it = Some (True, it') \<and> list_all2 at (ip_postings it') sts' \<and> ip_current it' = y \<and> t \<le> y \<and>
      common sts y \<and> (\<forall>z \<ge> t. common sts z \<longrightarrow> y \<le> z) \<and>
      list_all2 (landed y) sts sts')"
    using assms
  proof (induction "2 ^ 64 - unat t" arbitrary: t it sts rule: less_induct)
    case less
    show ?case
    proof (rule seek_round_live [OF less.prems, of True])
      fix ps' t' eq' assume "seek_round P (ip_postings it) t True = Some (False, ps', t', eq')" "\<forall>p \<in> set ps'. p_Err P p = None" "\<forall>z \<ge> t. \<not> common sts z"
      then show ?thesis by (intro disjI1) (simp add: intersect_Seek.simps [of P t it] Let_def inter_err)
    next
      fix ps' t' eq' sts' assume h: "seek_round P (ip_postings it) t True = Some (True, ps', t', eq')" "list_all2 at ps' sts'" "t \<le> t'" "t' \<le> B"
        "eq' \<longleftrightarrow> True \<and> t' = t" "\<forall>z \<ge> t. common sts z \<longrightarrow> t' \<le> z" "\<forall>s \<in> set sts'. t \<le> fst s \<and> fst s \<le> t'"
        "list_all2 (cut t t') sts sts'"
      let ?it = "it\<lparr>ip_postings := ps'\<rparr>"
      show ?thesis
      proof (cases "t' = t")
        case True
        then have l: "intersect_Seek P t it = Some (True, ?it\<lparr>ip_current := t\<rparr>)" using h(1,5) by (simp add: intersect_Seek.simps [of P t it] Let_def)
        have f: "\<forall>s \<in> set sts'. fst s = t" using h(7) True by fastforce
        have "list_all2 (\<lambda>s s'. s' \<in> set sts' \<and> cut t t s s') sts sts'" using h(8) unfolding True by (auto simp: list_all2_conv_all_nth)
        then have e: "list_all2 (landed t) sts sts'" by (rule list_all2_mono) (use f cut_exact in blast)
        have "common sts' t" using f by (auto simp: common_def)
        then have "common sts t" using common_cut [OF h(8), of t] True by simp
        then show ?thesis using l e h(2) by (intro disjI2 exI [of _ "?it\<lparr>ip_current := t\<rparr>"] exI [of _ t] exI [of _ sts']) auto
      next
        case False
        then have lt: "t < t'" using h(3) by simp
        then have m: "2 ^ 64 - unat t' < 2 ^ 64 - unat t" using unat64_less [of t] by (auto simp: word_less_nat_alt)
        have step: "intersect_Seek P t it = intersect_Seek P t' ?it" using h(1,5) False by (simp add: intersect_Seek.simps [of P t it] Let_def)
        have p: "list_all2 at (ip_postings ?it) sts'" "0 < t'" using h(2) lt less.prems(2) by auto
        from less.hyps [OF m p h(4)] show ?thesis
        proof (elim disjE exE conjE)
          fix it' assume "intersect_Seek P t' ?it = Some (False, it')" "\<forall>z \<ge> t'. \<not> common sts' z" "intersect_Err P it' = None"
          then show ?thesis using step h(6) common_cut [OF h(8)] by (intro disjI1) auto
        next
          fix it' y sts'' assume g: "intersect_Seek P t' ?it = Some (True, it')" "list_all2 at (ip_postings it') sts''" "ip_current it' = y" "t' \<le> y"
            "common sts' y" "\<forall>z \<ge> t'. common sts' z \<longrightarrow> y \<le> z"
            "list_all2 (landed y) sts' sts''"
          have "list_all2 (landed y) sts sts''"
            by (rule list_all2_trans [OF _ h(8) g(7)]) (rule cut_landed [OF _ _ g(4)])
          moreover have "common sts y" using common_cut [OF h(8) g(4)] g(5) by simp
          moreover have "\<forall>z \<ge> t. common sts z \<longrightarrow> y \<le> z" using g(6) h(6) common_cut [OF h(8)] by blast
          ultimately show ?thesis using step g(1,2,3,4) lt by (intro disjI2) (auto intro: order_trans)
        qed
      qed
    qed
  qed
  then show thesis using that by blast
qed

lemma next_round_live:
  assumes "list_all2 (\<lambda>p ys. live p c ys) ps rs" "t \<le> B"
  obtains (fail) ps' t' eq' where "next_round P ps t eq = Some (False, ps', t', eq')" "\<forall>p \<in> set ps'. p_Err P p = None" "[] \<in> set rs"
  | (ok) ps' t' eq' where "next_round P ps t eq = Some (True, ps', t', eq')" "list_all2 at ps' (map (\<lambda>ys. (hd ys, tl ys)) rs)"
    "[] \<notin> set rs" "t \<le> t'" "t' \<le> B" "t' \<in> insert t (hd ` set rs)" "\<forall>ys \<in> set rs. hd ys \<le> t'" "eq' \<longleftrightarrow> eq \<and> (\<forall>ys \<in> set rs. hd ys = t)"
proof -
  have "(\<exists>ps' t' eq'. next_round P ps t eq = Some (False, ps', t', eq') \<and> (\<forall>p \<in> set ps'. p_Err P p = None) \<and> [] \<in> set rs) \<or>
    (\<exists>ps' t' eq'. next_round P ps t eq = Some (True, ps', t', eq') \<and> list_all2 at ps' (map (\<lambda>ys. (hd ys, tl ys)) rs) \<and> [] \<notin> set rs \<and>
      t \<le> t' \<and> t' \<le> B \<and> t' \<in> insert t (hd ` set rs) \<and> (\<forall>ys \<in> set rs. hd ys \<le> t') \<and> (eq' \<longleftrightarrow> eq \<and> (\<forall>ys \<in> set rs. hd ys = t)))"
    using assms
  proof (induction ps arbitrary: rs t eq)
    case Nil
    then show ?case by auto
  next
    case (Cons p ps)
    obtain ys rs1 where rs: "rs = ys # rs1" "live p c ys" "list_all2 (\<lambda>p ys. live p c ys) ps rs1" using Cons.prems(1) by (auto simp: list_all2_Cons1)
    show ?case
    proof (cases ys)
      case Nil
      have "list_all2 at ps (map (\<lambda>ys. (c, ys)) rs1)" using rs(3) by (simp add: list_all2_map2)
      then show ?thesis using next_end [of p c] all_err rs Nil by (intro disjI1) auto
    next
      case (Cons y ys')
      obtain p' where y: "p_Next P p = Some (True, p')" "live p' y ys'" "p_At P p' = y" using next_live [of p c y ys'] rs(2) Cons by blast
      define t1 where "t1 = (if t < y then y else t)"
      have t1: "t1 \<le> B" "t \<le> t1" "y \<le> t1" "t1 = t \<or> t1 = y" using live_le [OF y(2)] Cons.prems(2) by (auto simp: t1_def)
      have step: "next_round P (p # ps) t eq = map_option (\<lambda>(ok, ps, t, eq). (ok, p' # ps, t, eq)) (next_round P ps t1 (eq \<and> y = t))"
        using y by (cases "y = t"; cases "t < y") (auto simp: t1_def)
      from Cons.IH [OF rs(3) t1(1), of "eq \<and> y = t"] show ?thesis
      proof (elim disjE exE conjE)
        fix ps' t' eq' assume "next_round P ps t1 (eq \<and> y = t) = Some (False, ps', t', eq')" "\<forall>p \<in> set ps'. p_Err P p = None" "[] \<in> set rs1"
        then show ?thesis using step live_err [OF y(2)] rs(1) by (intro disjI1) auto
      next
        fix ps' t' eq' assume h: "next_round P ps t1 (eq \<and> y = t) = Some (True, ps', t', eq')"
          "list_all2 at ps' (map (\<lambda>ys. (hd ys, tl ys)) rs1)" "[] \<notin> set rs1" "t1 \<le> t'" "t' \<le> B" "t' \<in> insert t1 (hd ` set rs1)"
          "\<forall>ys \<in> set rs1. hd ys \<le> t'" "eq' \<longleftrightarrow> (eq \<and> y = t) \<and> (\<forall>ys \<in> set rs1. hd ys = t1)"
        have "next_round P (p # ps) t eq = Some (True, p' # ps', t', eq')" using step h(1) by simp
        moreover have "eq' \<longleftrightarrow> eq \<and> (\<forall>ys \<in> set rs. hd ys = t)" using h(8) by (auto simp: rs(1) Cons t1_def)
        moreover have "list_all2 at (p' # ps') (map (\<lambda>ys. (hd ys, tl ys)) rs)" using h(2) y(2) by (simp add: rs(1) Cons)
        moreover have "t \<le> t'" "y \<le> t'" using t1(2,3) h(4) by auto
        moreover have "t' \<in> insert t (hd ` set rs)" using h(6) t1(4) by (auto simp: rs(1) Cons)
        ultimately show ?thesis using h(3,5,7) by (auto simp: rs(1) Cons)
      qed
    qed
  qed
  then show thesis using that by blast
qed

end

definition inter_live :: "('p \<Rightarrow> uint64 \<Rightarrow> uint64 list \<Rightarrow> bool) \<Rightarrow> 'p intersectPostings \<Rightarrow> uint64 \<Rightarrow> uint64 list \<Rightarrow> bool" where
  "inter_live live it c xs \<longleftrightarrow> (\<exists>rs. list_all2 (\<lambda>p ys. live p c ys) (ip_postings it) rs \<and> 2 \<le> length rs \<and>
     sorted_wrt (<) (c # xs) \<and> set xs = \<Inter> (set ` set rs))"

context postings
begin

lemma common_at:
  assumes "list_all2 (\<lambda>p ys. live p c ys) ps rs" "rs \<noteq> []" "set xs = \<Inter> (set ` set rs)"
  shows "list_all2 at ps (map (\<lambda>ys. (c, ys)) rs)" "common (map (\<lambda>ys. (c, ys)) rs) z \<longleftrightarrow> z \<in> set (c # xs)"
proof -
  show "list_all2 at ps (map (\<lambda>ys. (c, ys)) rs)" using assms(1) by (simp add: list_all2_map2)
  show "common (map (\<lambda>ys. (c, ys)) rs) z \<longleftrightarrow> z \<in> set (c # xs)" using assms(2,3) by (auto simp: common_def neq_Nil_conv)
qed

lemma land:
  assumes "list_all2 at ps' sts'" "list_all2 (landed y) sts sts'" "sts \<noteq> []"
  shows "list_all2 (\<lambda>p ys. live p y ys) ps' (map snd sts')" "\<Inter> (set ` set (map snd sts')) = {z. common sts z \<and> y < z}"
proof -
  have f: "\<forall>s' \<in> set sts'. fst s' = y" using assms(2) by (induction sts sts' rule: list_all2_induct) (auto simp: landed_def)
  have "list_all2 (\<lambda>p s'. s' \<in> set sts' \<and> at p s') ps' sts'" using assms(1) by (auto simp: list_all2_conv_all_nth)
  then have "list_all2 (\<lambda>p s'. live p y (snd s')) ps' sts'" by (rule list_all2_mono) (use f in auto)
  then show "list_all2 (\<lambda>p ys. live p y ys) ps' (map snd sts')" by (simp add: list_all2_map2)
  have srt: "\<forall>s' \<in> set sts'. sorted_wrt (<) (elems s')" using assms(1) by (induction ps' sts' rule: list_all2_induct) (auto dest: live_sorted)
  have "list_all2 (\<lambda>s s'. s' \<in> set sts' \<and> landed y s s') sts sts'" using assms(2) by (auto simp: list_all2_conv_all_nth)
  moreover have "z \<in> set (snd s') \<longleftrightarrow> z \<in> set (elems s) \<and> y < z" if "s' \<in> set sts' \<and> landed y s s'" for s s' z
  proof -
    have e: "elems s' = filter (\<lambda>z. y \<le> z) (elems s)" using that unfolding landed_def by blast
    have "z \<in> set (elems s') \<longleftrightarrow> z \<in> set (elems s) \<and> y \<le> z" unfolding e by auto
    moreover have "\<forall>z \<in> set (snd s'). y < z" using srt f that by auto
    moreover have "fst s' = y" using f that by blast
    ultimately show ?thesis by (auto simp: less_le)
  qed
  ultimately have "list_all2 (\<lambda>s s'. \<forall>z. z \<in> set (snd s') \<longleftrightarrow> z \<in> set (elems s) \<and> y < z) sts sts'" by (auto elim: list_all2_mono)
  then have "(\<forall>s' \<in> set sts'. z \<in> set (snd s')) \<longleftrightarrow> (\<forall>s \<in> set sts. z \<in> set (elems s) \<and> y < z)" for z
    by (induction sts sts' rule: list_all2_induct) (auto simp del: set_ConsD)
  then show "\<Inter> (set ` set (map snd sts')) = {z. common sts z \<and> y < z}" using assms(3) by (auto simp: common_def neq_Nil_conv)
qed

lemma inter_seek:
  assumes l: "inter_live live it c xs" and x: "0 < x" "x \<le> B"
  obtains (fail) it' where "intersect_Seek P x it = Some (False, it')" "intersect_Err P it' = None" "filter (\<lambda>y. x \<le> y) (c # xs) = []"
  | (ok) it' y ys where "intersect_Seek P x it = Some (True, it')" "inter_live live it' y ys" "ip_current it' = y" "filter (\<lambda>y. x \<le> y) (c # xs) = y # ys"
proof -
  obtain rs where rs: "list_all2 (\<lambda>p ys. live p c ys) (ip_postings it) rs" "2 \<le> length rs" "sorted_wrt (<) (c # xs)" "set xs = \<Inter> (set ` set rs)"
    using l by (auto simp: inter_live_def)
  have ne: "rs \<noteq> []" using rs(2) by auto
  let ?sts = "map (\<lambda>ys. (c, ys)) rs"
  note cm = common_at(2) [OF rs(1) ne rs(4)]
  show thesis
  proof (rule seek_loop [OF common_at(1) [OF rs(1) ne rs(4)] x])
    fix it' assume "intersect_Seek P x it = Some (False, it')" "\<forall>z \<ge> x. \<not> common ?sts z" "intersect_Err P it' = None"
    then show thesis using cm by (intro fail) (auto simp: filter_empty_conv)
  next
    fix it' y sts' assume h: "intersect_Seek P x it = Some (True, it')" "list_all2 at (ip_postings it') sts'" "ip_current it' = y" "x \<le> y"
      "common ?sts y" "\<forall>z \<ge> x. common ?sts z \<longrightarrow> y \<le> z" "list_all2 (landed y) ?sts sts'"
    have y: "y \<in> set (filter (\<lambda>y. x \<le> y) (c # xs))" using h(4,5) cm by auto
    then obtain y0 ys where f: "filter (\<lambda>y. x \<le> y) (c # xs) = y0 # ys" by (cases "filter (\<lambda>y. x \<le> y) (c # xs)") auto
    have srt: "sorted_wrt (<) (y0 # ys)" unfolding f [symmetric] by (rule sorted_wrt_filter [OF rs(3)])
    have "y0 \<in> set (filter (\<lambda>y. x \<le> y) (c # xs))" unfolding f by simp
    then have y0: "y0 \<in> set (c # xs)" "x \<le> y0" unfolding set_filter by blast+
    then have "y \<le> y0" using h(6) cm by blast
    moreover have "y0 \<le> y" using y srt unfolding f by auto
    ultimately have yy: "y0 = y" by simp
    have ys: "set ys = {z. common ?sts z \<and> y < z}"
    proof (rule set_eqI)
      fix z
      have "z \<in> set ys \<longleftrightarrow> z \<in> set (filter (\<lambda>y. x \<le> y) (c # xs)) \<and> y < z" unfolding f yy using srt yy by auto
      also have "\<dots> \<longleftrightarrow> (common ?sts z \<and> x \<le> z) \<and> y < z" unfolding set_filter cm by blast
      finally show "z \<in> set ys \<longleftrightarrow> z \<in> {z. common ?sts z \<and> y < z}" using h(4) by auto
    qed
    have ls: "length sts' = length rs" using h(7) by (simp add: list_all2_lengthD [symmetric])
    have "inter_live live it' y ys"
      unfolding inter_live_def using land [OF h(2,7)] ne rs(2) srt yy ys ls by (intro exI [of _ "map snd sts'"]) simp
    then show thesis using h(1,3) f yy by (intro ok) auto
  qed
qed

lemma inter_next_live:
  assumes l: "inter_live live it c (x # xs)"
  shows "\<exists>it'. intersect_Next P it = Some (True, it') \<and> inter_live live it' x xs \<and> ip_current it' = x"
proof -
  obtain rs where rs: "list_all2 (\<lambda>p ys. live p c ys) (ip_postings it) rs" "2 \<le> length rs" "sorted_wrt (<) (c # x # xs)" "set (x # xs) = \<Inter> (set ` set rs)"
    using l unfolding inter_live_def by blast
  obtain r rs1 where r: "rs = r # rs1" "rs1 \<noteq> []" using rs(2) that by (metis length_Cons list.size(3) neq_Nil_conv not_less_eq_eq numeral_2_eq_2 zero_le)
  obtain p ps where p: "ip_postings it = p # ps" "live p c r" "list_all2 (\<lambda>p ys. live p c ys) ps rs1" using rs(1) r by (auto simp: list_all2_Cons2)
  have mem: "z \<in> set (x # xs) \<longleftrightarrow> (\<forall>ys \<in> set rs. z \<in> set ys)" for z unfolding rs(4) by auto
  have srt: "\<forall>ys \<in> set rs. sorted_wrt (<) (c # ys)" using rs(1) by (induction rule: list_all2_induct) (auto dest: live_sorted)
  have ne: "\<forall>ys \<in> set rs. ys \<noteq> []" using mem [of x] by auto
  have hd_le: "hd ys \<le> x" if "ys \<in> set rs" for ys
  proof -
    have "x \<in> set ys" using mem [of x] that by simp
    moreover have "sorted_wrt (<) (c # ys)" using srt that by blast
    ultimately show ?thesis by (cases ys) auto
  qed
  obtain y ys where y: "r = y # ys" using ne r by (cases r) auto
  obtain p' where p': "p_Next P p = Some (True, p')" "live p' y ys" "p_At P p' = y" using next_live [of p c y ys] p(2) y by blast
  have yB: "y \<le> B" using live_le [OF p'(2)] by simp
  have "intersect_Next P it = Option.bind (next_round P ps y True) (\<lambda>(ok, ps, target, allEqual).
      let it = it\<lparr>ip_postings := p' # ps\<rparr> in
      if \<not> ok then Some (False, it) else if allEqual then Some (True, it\<lparr>ip_current := target\<rparr>) else intersect_Seek P target it)"
    using p'(1,3) by (simp add: intersect_Next_def p(1))
  note step = this
  show ?thesis
  proof (rule next_round_live [OF p(3) yB, of True])
    assume "[] \<in> set rs1" then show ?thesis using ne r by auto
  next
    fix ps' t' eq' assume h: "next_round P ps y True = Some (True, ps', t', eq')" "list_all2 at ps' (map (\<lambda>ys. (hd ys, tl ys)) rs1)"
      "y \<le> t'" "t' \<le> B" "t' \<in> insert y (hd ` set rs1)" "\<forall>ys \<in> set rs1. hd ys \<le> t'" "eq' \<longleftrightarrow> True \<and> (\<forall>ys \<in> set rs1. hd ys = y)"
    let ?sts = "map (\<lambda>ys. (hd ys, tl ys)) rs" and ?it = "it\<lparr>ip_postings := p' # ps'\<rparr>"
    have at: "list_all2 at (ip_postings ?it) ?sts" using h(2) p'(2) by (simp add: r y)
    have e: "set (elems (hd ys, tl ys)) = set ys" if "ys \<in> set rs" for ys using ne that by (cases ys) auto
    have cm: "common ?sts z \<longleftrightarrow> z \<in> set (x # xs)" for z
    proof -
      have "common ?sts z \<longleftrightarrow> (\<forall>ys \<in> set rs. z \<in> set (elems (hd ys, tl ys)))" by (simp add: common_def)
      also have "\<dots> \<longleftrightarrow> (\<forall>ys \<in> set rs. z \<in> set ys)" by (intro ball_cong refl) (simp only: e)
      finally show ?thesis unfolding mem .
    qed
    have "y \<le> x" using hd_le [of r] r y by simp
    then have "t' \<le> x" using h(5) hd_le r by auto
    have "0 < t'" using h(3) srt r y by (auto simp: word_greater_zero_iff intro: less_le_trans)
    show ?thesis
    proof (cases eq')
      case True
      then have all: "\<forall>ys \<in> set rs. hd ys = y" using h(7) r y by auto
      have "common ?sts y" using all by (auto simp: common_def)
      then have "y \<in> set (x # xs)" by (simp only: cm)
      then have "x \<le> y" using rs(3) by auto
      then have yx: "y = x" using \<open>y \<le> x\<close> by simp
      have "t' = y" using h(5) all r by auto
      then have res: "intersect_Next P it = Some (True, ?it\<lparr>ip_current := y\<rparr>)" using step h(1) True by simp
      have "landed y (hd ys, tl ys) (hd ys, tl ys)" if m: "ys \<in> set rs" for ys
      proof -
        obtain ys' where "ys = y # ys'" using all ne m by (cases ys) auto
        moreover have "sorted_wrt (<) ys" using srt m by auto
        ultimately show ?thesis by (auto simp: landed_def intro!: filter_True [symmetric])
      qed
      then have lnd: "list_all2 (landed y) ?sts ?sts" by (auto simp: list_all2_same)
      have ne': "?sts \<noteq> []" using r by simp
      have "set xs = {z. common ?sts z \<and> y < z}" using rs(3) yx by (auto simp: cm)
      then have "inter_live live ?it x xs"
        unfolding inter_live_def using land [OF at lnd ne'] rs(2,3) yx by (intro exI [of _ "map snd ?sts"]) simp
      then show ?thesis using res yx by (auto simp: inter_live_def)
    next
      case False
      then have res: "intersect_Next P it = intersect_Seek P t' ?it" using step h(1) by simp
      show ?thesis
      proof (rule seek_loop [OF at \<open>0 < t'\<close> h(4)])
        assume "\<forall>z \<ge> t'. \<not> common ?sts z"
        then show ?thesis using cm [of x] \<open>t' \<le> x\<close> by auto
      next
        fix it' y' sts' assume g: "intersect_Seek P t' ?it = Some (True, it')" "list_all2 at (ip_postings it') sts'" "ip_current it' = y'" "t' \<le> y'"
          "common ?sts y'" "\<forall>z \<ge> t'. common ?sts z \<longrightarrow> y' \<le> z" "list_all2 (landed y') ?sts sts'"
        have "y' \<le> x" using g(6) cm [of x] \<open>t' \<le> x\<close> by auto
        moreover have "x \<le> y'" using g(5) rs(3) unfolding cm by auto
        ultimately have yx: "y' = x" by simp
        have "set xs = {z. common ?sts z \<and> y' < z}" using rs(3) yx by (auto simp: cm)
        moreover have "length sts' = length rs" using list_all2_lengthD [OF g(7)] by simp
        moreover have "?sts \<noteq> []" using r by simp
        ultimately have "inter_live live it' x xs"
          unfolding inter_live_def using land [OF g(2,7)] rs(2,3) yx by (intro exI [of _ "map snd sts'"]) simp
        then show ?thesis using res g(1,3) yx by auto
      qed
    qed
  qed
qed

text \<open>The ways in which \<open>Next\<close> comes to the end of an intersection.\<close>

lemma inter_end_cases:
  assumes l: "inter_live live it c []"
  obtains (first) p' ps rs1 where "list_all2 (\<lambda>p ys. live p c ys) ps rs1" "rs1 \<noteq> []" "p_Next P (hd (ip_postings it)) = Some (False, p')"
      "live (hd (ip_postings it)) c []" "intersect_Next P it = Some (False, it\<lparr>ip_postings := p' # ps\<rparr>)" "p_Err P p' = None"
  | (other) p' ps rs1 y ys ps' t' eq' where "list_all2 (\<lambda>p ys. live p c ys) ps rs1" "live p' y ys" "c < y"
      "next_round P ps y True = Some (False, ps', t', eq')" "intersect_Next P it = Some (False, it\<lparr>ip_postings := p' # ps'\<rparr>)" "\<forall>p \<in> set ps'. p_Err P p = None"
  | (apart) sts t' it1 where "list_all2 at (ip_postings it1) sts" "0 < t'" "t' \<le> B" "t' \<in> fst ` set sts" "\<forall>z. \<not> common sts z"
      "intersect_Next P it = intersect_Seek P t' it1"
proof -
  obtain rs where rs: "list_all2 (\<lambda>p ys. live p c ys) (ip_postings it) rs" "2 \<le> length rs" "{} = \<Inter> (set ` set rs)"
    using l by (auto simp: inter_live_def)
  obtain r rs1 where r: "rs = r # rs1" "rs1 \<noteq> []" using rs(2) by (metis length_Cons list.size(3) neq_Nil_conv not_less_eq_eq numeral_2_eq_2 zero_le)
  obtain p ps where p: "ip_postings it = p # ps" "live p c r" "list_all2 (\<lambda>p ys. live p c ys) ps rs1" using rs(1) r by (auto simp: list_all2_Cons2)
  show thesis
  proof (cases r)
    case Nil
    then obtain p' where "p_Next P p = Some (False, p')" "p_Err P p' = None" using next_end [of p c] p(2) by blast
    then show thesis using p Nil r(2) by (intro first) (auto simp: intersect_Next_def)
  next
    case (Cons y ys)
    obtain p' where p': "p_Next P p = Some (True, p')" "live p' y ys" "p_At P p' = y" using next_live [of p c y ys] p(2) Cons by blast
    have y: "y \<le> B" "c < y" using live_le [OF p'(2)] live_sorted [OF p(2)] Cons by auto
    then have y0: "0 < y" by (auto intro: le_less_trans [of 0 c])
    show thesis
    proof (rule next_round_live [OF p(3) y(1), of True])
      fix ps' t' eq' assume "next_round P ps y True = Some (False, ps', t', eq')" "\<forall>p \<in> set ps'. p_Err P p = None"
      then show thesis using p(3) p' y(2) by (intro other) (auto simp: intersect_Next_def p(1))
    next
      fix ps' t' eq' assume h: "next_round P ps y True = Some (True, ps', t', eq')" "list_all2 at ps' (map (\<lambda>ys. (hd ys, tl ys)) rs1)"
        "[] \<notin> set rs1" "y \<le> t'" "t' \<le> B" "t' \<in> insert y (hd ` set rs1)" "eq' \<longleftrightarrow> True \<and> (\<forall>ys \<in> set rs1. hd ys = y)"
      let ?sts = "map (\<lambda>ys. (hd ys, tl ys)) rs" and ?it = "it\<lparr>ip_postings := p' # ps'\<rparr>"
      have "hd zs \<in> set zs \<and> set (tl zs) \<subseteq> set zs" if m: "zs \<in> set rs" for zs
      proof -
        have "zs \<noteq> []" using m h(3) r Cons by auto
        then show ?thesis by (simp add: set_tl_subset)
      qed
      then have "z \<in> set zs" if "common ?sts z" "zs \<in> set rs" for z zs using that by (fastforce simp: common_def)
      then have cm: "\<forall>z. \<not> common ?sts z" using rs(3) by blast
      have "\<not> eq'"
      proof
        assume eq'
        then have "common ?sts y" using h(7) r Cons by (auto simp: common_def)
        then show False using cm by blast
      qed
      then have "intersect_Next P it = intersect_Seek P t' ?it" using h(1) p' by (simp add: intersect_Next_def p(1))
      moreover have "list_all2 at (ip_postings ?it) ?sts" using h(2) p'(2) by (simp add: r Cons)
      moreover have "t' \<in> fst ` set ?sts" using h(6) r Cons by (auto simp: image_image)
      moreover have "0 < t'" using y0 h(4) by simp
      ultimately show thesis using h(5) cm by (intro apart [of ?it ?sts t']) auto
    qed
  qed
qed

lemma inter_next_end:
  assumes l: "inter_live live it c []"
  shows "\<exists>it'. intersect_Next P it = Some (False, it') \<and> intersect_Err P it' = None"
proof (rule inter_end_cases [OF l])
  fix p' ps rs1 assume "list_all2 (\<lambda>p ys. live p c ys) ps rs1" "intersect_Next P it = Some (False, it\<lparr>ip_postings := p' # ps\<rparr>)" "p_Err P p' = None"
  moreover from this have "\<forall>p \<in> set ps. p_Err P p = None" using all_err [of ps "map (\<lambda>ys. (c, ys)) rs1"] by (simp add: list_all2_map2)
  ultimately show ?thesis using inter_err(2) [of "p' # ps" it] by simp
next
  fix p' y ys ps' assume "live p' y ys" "intersect_Next P it = Some (False, it\<lparr>ip_postings := p' # ps'\<rparr>)" "\<forall>p \<in> set ps'. p_Err P p = None"
  then show ?thesis using live_err [of p' y ys] inter_err(2) [of "p' # ps'" it] by simp
next
  fix sts t' it1 assume h: "list_all2 at (ip_postings it1) sts" "0 < t'" "t' \<le> B" "\<forall>z. \<not> common sts z" "intersect_Next P it = intersect_Seek P t' it1"
  show ?thesis unfolding h(5) by (rule seek_loop [OF h(1,2,3)]) (use h(4) in auto)
qed

lemma intersect_postings_ok: "postings (intersect_postings P) B (inter_live live)"
proof
  fix it c xs and x y :: uint64 and ys
  show "inter_live live it c xs \<Longrightarrow> sorted_wrt (<) (c # xs)" by (auto simp: inter_live_def)
  show "y \<le> B" if l: "inter_live live it c xs" and y: "y \<in> set (c # xs)"
  proof -
    obtain rs where rs: "list_all2 (\<lambda>p ys. live p c ys) (ip_postings it) rs" "2 \<le> length rs" "set xs = \<Inter> (set ` set rs)" using l unfolding inter_live_def by blast
    then obtain p ps r rs1 where "live p c r" "rs = r # rs1" by (cases rs) (auto simp: list_all2_Cons2)
    then show ?thesis using live_le [of p c r y] y rs(3) by auto
  qed
  show "inter_live live it c (x # xs) \<Longrightarrow>
      \<exists>it'. p_Next (intersect_postings P) it = Some (True, it') \<and> inter_live live it' x xs \<and> p_At (intersect_postings P) it' = x"
    using inter_next_live by (simp add: intersect_postings_def)
  show "inter_live live it c [] \<Longrightarrow> \<exists>it'. p_Next (intersect_postings P) it = Some (False, it') \<and> p_Err (intersect_postings P) it' = None"
    using inter_next_end by (simp add: intersect_postings_def)
  show "\<exists>it'. p_Seek (intersect_postings P) x it = Some (True, it') \<and> inter_live live it' y ys \<and> p_At (intersect_postings P) it' = y"
    if "inter_live live it c xs" "0 < x" "x \<le> B" and f: "filter (\<lambda>y. x \<le> y) (c # xs) = y # ys"
    by (rule inter_seek [OF that(1,2,3)]) (use f in \<open>auto simp: intersect_postings_def simp del: filter.simps\<close>)
  show "\<exists>it'. p_Seek (intersect_postings P) x it = Some (False, it') \<and> p_Err (intersect_postings P) it' = None"
    if "inter_live live it c xs" "0 < x" "x \<le> B" and f: "filter (\<lambda>y. x \<le> y) (c # xs) = []"
    by (rule inter_seek [OF that(1,2,3)]) (use f in \<open>auto simp: intersect_postings_def simp del: filter.simps\<close>)
  show "p_Err (intersect_postings P) it = None" if l: "inter_live live it c xs"
  proof -
    obtain rs where "list_all2 (\<lambda>p ys. live p c ys) (ip_postings it) rs" using l by (auto simp: inter_live_def)
    then have "\<forall>p \<in> set (ip_postings it). p_Err P p = None" using all_err [of _ "map (\<lambda>ys. (c, ys)) rs"] by (simp add: list_all2_map2)
    then show ?thesis by (simp add: intersect_postings_def intersect_Err_def)
  qed
qed

end

end
