(* ===== verification/PostingsNested.thy ===== *)
theory PostingsNested
  imports PostingsCorrect
begin

text \<open>
  Iterators inside differences. A difference may seek on an iterator that has come to its end, so
  its operands need more of the contract: an intersection of tame iterators is resumable, and the
  difference of a resumable and a tame iterator is resumable again.
\<close>

section \<open>Intersections of tame iterators\<close>

text \<open>
  What is known of an iterator of an intersection that has come to an end: it is at a reference, it
  ended at one by \<open>Next\<close>, or a seek for \<open>h\<close> failed.
\<close>

datatype status = Live uint64 "uint64 list" | Ended uint64 | Dead uint64

fun low :: "status \<Rightarrow> uint64" where
  "low (Live c ys) = c" | "low (Ended c) = c" | "low (Dead h) = 0"

fun settled :: "status \<Rightarrow> bool" where
  "settled (Live c ys) = False" | "settled (Ended c) = True" | "settled (Dead h) = True"

text \<open>An iterator in this state cannot land on \<open>z\<close> or above.\<close>

fun below :: "status \<Rightarrow> uint64 \<Rightarrow> bool" where
  "below (Live c ys) z = False" | "below (Ended c) z = (c < z)" | "below (Dead h) z = (h \<le> z)"

fun within :: "uint64 \<Rightarrow> status \<Rightarrow> bool" where
  "within a (Live c ys) = (a = c)" | "within a (Ended c) = (a = c)" | "within a (Dead h) = (a < h)"

fun evolve :: "status \<Rightarrow> status \<Rightarrow> bool" where
  "evolve (Live c ys) s' = (case s' of Live c' _ \<Rightarrow> c \<le> c' | Ended c' \<Rightarrow> c' = c | Dead _ \<Rightarrow> False)"
| "evolve s s' = (s' = s)"

definition conflict :: "status list \<Rightarrow> bool" where
  "conflict sts \<longleftrightarrow> (\<exists>D \<in> set sts. \<exists>E \<in> set sts. below D (low E) \<and> (\<forall>h. E \<noteq> Dead h))"

lemma evolve_keeps:
  "evolve s s' \<Longrightarrow> below s z \<Longrightarrow> below s' z" "evolve s s' \<Longrightarrow> low s \<le> low s'" "evolve s s' \<Longrightarrow> (\<forall>h. s \<noteq> Dead h) \<Longrightarrow> (\<forall>h. s' \<noteq> Dead h)"
  "below s z \<Longrightarrow> z \<le> z' \<Longrightarrow> below s z'" "evolve s s"
  by (cases s; auto split: status.splits)+

lemma list_all2_mem: "list_all2 R xs ys \<Longrightarrow> x \<in> set xs \<Longrightarrow> \<exists>y \<in> set ys. R x y"
  by (induction rule: list_all2_induct) auto

lemma conflict_evolve:
  assumes "list_all2 evolve sts sts'" "conflict sts"
  shows "conflict sts'"
proof -
  obtain D E where d: "D \<in> set sts" "E \<in> set sts" "below D (low E)" "\<forall>h. E \<noteq> Dead h" using assms(2) by (auto simp: conflict_def)
  obtain D' where D': "D' \<in> set sts'" "evolve D D'" using list_all2_mem [OF assms(1) d(1)] by blast
  obtain E' where E': "E' \<in> set sts'" "evolve E E'" using list_all2_mem [OF assms(1) d(2)] by blast
  have "below D' (low E')" using evolve_keeps(1) [OF D'(2) d(3)] evolve_keeps(2) [OF E'(2)] evolve_keeps(4) by blast
  then show ?thesis using D'(1) E' evolve_keeps(3) [OF E'(2) d(4)] by (auto simp: conflict_def)
qed

lemma conflict_apart:
  assumes "conflict sts" "list_all2 within ats sts" "\<forall>a \<in> set ats. a = t"
  shows False
proof -
  obtain D E where d: "D \<in> set sts" "E \<in> set sts" "below D (low E)" "\<forall>h. E \<noteq> Dead h" using assms(1) by (auto simp: conflict_def)
  have w: "list_all2 (\<lambda>s a. within a s) sts ats" using assms(2) by (simp add: list_all2_conv_all_nth)
  have "within t D" "within t E" using list_all2_mem [OF w d(1)] list_all2_mem [OF w d(2)] assms(3) by auto
  then show False using d(3,4) by (cases D; cases E) auto
qed

lemma conflict_settled: "conflict sts \<Longrightarrow> \<exists>D \<in> set sts. settled D"
  unfolding conflict_def by (metis below.simps(1) settled.elims(3))

context tame_postings
begin

fun stat :: "'a \<Rightarrow> status \<Rightarrow> bool" where
  "stat p (Live c ys) = live p c ys" | "stat p (Ended c) = ended p c" | "stat p (Dead h) = dead p h"

lemma stat_err: "stat p s \<Longrightarrow> p_Err P p = None"
  by (cases s) (auto dest: live_err ended_err dead_err)

lemma stats_err: "list_all2 stat ps sts \<Longrightarrow> \<forall>p \<in> set ps. p_Err P p = None"
  by (induction rule: list_all2_induct) (auto dest: stat_err)

lemma seek_stat:
  assumes "stat p s" "0 < t" "t \<le> B"
  obtains (fail) p' where "p_Seek P t p = Some (False, p')" "p_Err P p' = None"
  | (ok) p' s' where "p_Seek P t p = Some (True, p')" "stat p' s'" "evolve s s'" "within (p_At P p') s'" "t \<le> p_At P p'" "p_At P p' \<le> B"
proof (cases s)
  case (Live c ys)
  then have l: "live p c ys" using assms(1) by simp
  show thesis
  proof (rule seek [OF l assms(2,3)])
    fix p' assume "p_Seek P t p = Some (False, p')" "p_Err P p' = None"
    then show thesis by (rule fail)
  next
    fix p' y zs assume h: "p_Seek P t p = Some (True, p')" "live p' y zs" "p_At P p' = y" "filter (\<lambda>y. t \<le> y) (c # ys) = y # zs" "t \<le> y"
    then have "y \<in> set (filter (\<lambda>y. t \<le> y) (c # ys))" by simp
    then have "y \<in> set (c # ys)" unfolding set_filter by blast
    then have "c \<le> y" using live_sorted [OF l] by auto
    moreover have "y \<le> B" using live_le [OF h(2)] by simp
    ultimately show thesis using h Live by (intro ok [of p' "Live y zs"]) auto
  qed
next
  case (Ended c)
  then obtain b p' where "p_Seek P t p = Some (b, p')" "p_Err P p' = None" "b \<longrightarrow> t \<le> c \<and> p_At P p' = c \<and> ended p' c"
    using seek_ended [of p c t] assms by auto
  then show thesis using Ended ended_le [of p c] assms(1) by (cases b) (auto intro: fail ok [of p' "Ended c"])
next
  case (Dead h)
  then obtain b p' where "p_Seek P t p = Some (b, p')" "dead p' h" "b \<longrightarrow> t \<le> p_At P p' \<and> p_At P p' < h \<and> p_At P p' \<le> B"
    using seek_dead [of p h t] assms by auto
  then show thesis using Dead dead_err by (cases b) (auto intro: fail ok [of p' "Dead h"])
qed

lemma seek_round_stat:
  assumes "list_all2 stat ps sts" "0 < t" "t \<le> B"
  shows "(\<exists>ps' t' eq'. seek_round P ps t eq = Some (False, ps', t', eq') \<and> (\<forall>p \<in> set ps'. p_Err P p = None)) \<or>
    (\<exists>ps' t' eq' sts' ats. seek_round P ps t eq = Some (True, ps', t', eq') \<and> list_all2 stat ps' sts' \<and> list_all2 evolve sts sts' \<and>
      t \<le> t' \<and> t' \<le> B \<and> (eq' \<longleftrightarrow> eq \<and> t' = t) \<and> list_all2 within ats sts' \<and> (\<forall>a \<in> set ats. t \<le> a \<and> a \<le> t'))"
  using assms
proof (induction ps arbitrary: sts t eq)
  case Nil
  then show ?case by auto
next
  case (Cons p ps)
  obtain s sts1 where sts: "sts = s # sts1" "stat p s" "list_all2 stat ps sts1" using Cons.prems(1) by (auto simp: list_all2_Cons1)
  show ?case
  proof (rule seek_stat [OF sts(2) Cons.prems(2,3)])
    fix p' assume "p_Seek P t p = Some (False, p')" "p_Err P p' = None"
    then show ?thesis using stats_err [OF sts(3)] by (intro disjI1) auto
  next
    fix p' s' assume h: "p_Seek P t p = Some (True, p')" "stat p' s'" "evolve s s'" "within (p_At P p') s'" "t \<le> p_At P p'" "p_At P p' \<le> B"
    let ?y = "p_At P p'"
    have step: "seek_round P (p # ps) t eq = map_option (\<lambda>(ok, ps, t, eq). (ok, p' # ps, t, eq)) (seek_round P ps ?y (eq \<and> ?y = t))"
      using h(1,5) by (cases "?y = t") auto
    have "0 < ?y" using Cons.prems(2) h(5) by simp
    from Cons.IH [OF sts(3) this h(6), of "eq \<and> ?y = t"] show ?thesis
    proof (elim disjE exE conjE)
      fix ps' t' eq' assume "seek_round P ps ?y (eq \<and> ?y = t) = Some (False, ps', t', eq')" "\<forall>p \<in> set ps'. p_Err P p = None"
      then show ?thesis using step stat_err [OF h(2)] by (intro disjI1) auto
    next
      fix ps' t' eq' sts' ats assume g: "seek_round P ps ?y (eq \<and> ?y = t) = Some (True, ps', t', eq')" "list_all2 stat ps' sts'" "list_all2 evolve sts1 sts'"
        "?y \<le> t'" "t' \<le> B" "eq' \<longleftrightarrow> (eq \<and> ?y = t) \<and> t' = ?y" "list_all2 within ats sts'" "\<forall>a \<in> set ats. ?y \<le> a \<and> a \<le> t'"
      have "seek_round P (p # ps) t eq = Some (True, p' # ps', t', eq')" using step g(1) by simp
      moreover have "eq' \<longleftrightarrow> eq \<and> t' = t" using g(4,6) h(5) by auto
      moreover have "list_all2 within (?y # ats) (s' # sts')" "\<forall>a \<in> set (?y # ats). t \<le> a \<and> a \<le> t'" using g(4,7,8) h(4,5) by auto
      moreover have "list_all2 stat (p' # ps') (s' # sts')" "list_all2 evolve sts (s' # sts')" using g(2,3) h(2,3) sts(1) by auto
      moreover have "t \<le> t'" using g(4) h(5) by simp
      ultimately show ?thesis using g(5) by blast
    qed
  qed
qed

lemma seek_conflict:
  assumes "list_all2 stat (ip_postings it) sts" "conflict sts" "0 < t" "t \<le> B"
  shows "\<exists>it'. intersect_Seek P t it = Some (False, it') \<and> intersect_Err P it' = None"
  using assms
proof (induction "2 ^ 64 - unat t" arbitrary: t it sts rule: less_induct)
  case less
  from seek_round_stat [OF less.prems(1,3,4), of True] show ?case
  proof (elim disjE exE conjE)
    fix ps' t' eq' assume "seek_round P (ip_postings it) t True = Some (False, ps', t', eq')" "\<forall>p \<in> set ps'. p_Err P p = None"
    then show ?thesis by (simp add: intersect_Seek.simps [of P t it] Let_def inter_err)
  next
    fix ps' t' eq' sts' ats assume h: "seek_round P (ip_postings it) t True = Some (True, ps', t', eq')" "list_all2 stat ps' sts'" "list_all2 evolve sts sts'"
      "t \<le> t'" "t' \<le> B" "eq' \<longleftrightarrow> True \<and> t' = t" "list_all2 within ats sts'" "\<forall>a \<in> set ats. t \<le> a \<and> a \<le> t'"
    have c: "conflict sts'" by (rule conflict_evolve [OF h(3) less.prems(2)])
    have ne: "t' \<noteq> t"
    proof
      assume "t' = t"
      then have "\<forall>a \<in> set ats. a = t" using h(8) by auto
      then show False using conflict_apart [OF c h(7)] by blast
    qed
    then have lt: "t < t'" using h(4) by simp
    then have m: "2 ^ 64 - unat t' < 2 ^ 64 - unat t" using unat64_less [of t] by (auto simp: word_less_nat_alt)
    have "intersect_Seek P t it = intersect_Seek P t' (it\<lparr>ip_postings := ps'\<rparr>)" using h(1,6) ne by (simp add: intersect_Seek.simps [of P t it] Let_def)
    then show ?thesis using less.hyps [OF m _ c _ h(5), of "it\<lparr>ip_postings := ps'\<rparr>"] h(2) lt less.prems(3) by auto
  qed
qed

lemma next_stat:
  assumes "stat p s"
  obtains b p' s' where "p_Next P p = Some (b, p')" "stat p' s'" "evolve s s'" "settled s \<longrightarrow> \<not> b" "\<not> b \<longrightarrow> settled s'"
proof (cases s)
  case (Live c ys)
  show thesis
  proof (cases ys)
    case Nil
    then have l: "live p c []" using assms Live by simp
    then obtain p' where "p_Next P p = Some (False, p')" using next_end by blast
    then show thesis using ended_next [OF l] Live by (intro that [of False p' "Ended c"]) auto
  next
    case (Cons y zs)
    then have l: "live p c (y # zs)" using assms Live by simp
    then obtain p' where "p_Next P p = Some (True, p')" "live p' y zs" using next_live by blast
    then show thesis using live_sorted [OF l] Live by (intro that [of True p' "Live y zs"]) auto
  qed
next
  case (Ended c)
  then obtain p' where "p_Next P p = Some (False, p')" "ended p' c" using next_ended assms by auto
  then show thesis using Ended by (intro that [of False p' "Ended c"]) auto
next
  case (Dead h)
  then obtain p' where "p_Next P p = Some (False, p')" "dead p' h" using next_dead assms by auto
  then show thesis using Dead by (intro that [of False p' "Dead h"]) auto
qed

lemma evolve_refl: "list_all2 evolve sts sts"
  by (simp add: list_all2_same evolve_keeps(5))

lemma next_round_stat:
  assumes "list_all2 stat ps sts"
  shows "\<exists>b ps' t' eq' sts'. next_round P ps t eq = Some (b, ps', t', eq') \<and> list_all2 stat ps' sts' \<and> list_all2 evolve sts sts' \<and>
    (b \<longrightarrow> (\<forall>s \<in> set sts. \<not> settled s)) \<and> (\<not> b \<longrightarrow> (\<exists>s \<in> set sts'. settled s))"
  using assms
proof (induction ps arbitrary: sts t eq)
  case (Cons p ps)
  obtain s sts1 where sts: "sts = s # sts1" "stat p s" "list_all2 stat ps sts1" using Cons.prems(1) by (auto simp: list_all2_Cons1)
  obtain b p' s' where n: "p_Next P p = Some (b, p')" "stat p' s'" "evolve s s'" "settled s \<longrightarrow> \<not> b" "\<not> b \<longrightarrow> settled s'" by (rule next_stat [OF sts(2)])
  show ?case
  proof (cases b)
    case False
    then show ?thesis using n sts evolve_refl by (intro exI [of _ False] exI [of _ "p' # ps"] exI [of _ t] exI [of _ eq] exI [of _ "s' # sts1"]) auto
  next
    case True
    define t1 eq1 where "t1 = (if t < p_At P p' then p_At P p' else t)" "eq1 \<longleftrightarrow> eq \<and> p_At P p' = t"
    then have step: "next_round P (p # ps) t eq = map_option (\<lambda>(ok, ps, t, eq). (ok, p' # ps, t, eq)) (next_round P ps t1 eq1)"
      using n(1) True by (cases "p_At P p' = t"; cases "t < p_At P p'") auto
    from Cons.IH [OF sts(3), of t1 eq1] obtain b' ps' t' eq' sts' where "next_round P ps t1 eq1 = Some (b', ps', t', eq')" "list_all2 stat ps' sts'"
      "list_all2 evolve sts1 sts'" "b' \<longrightarrow> (\<forall>s \<in> set sts1. \<not> settled s)" "\<not> b' \<longrightarrow> (\<exists>s \<in> set sts'. settled s)" by blast
    then show ?thesis using step n sts True
      by (intro exI [of _ b'] exI [of _ "p' # ps'"] exI [of _ t'] exI [of _ eq'] exI [of _ "s' # sts'"]) auto
  qed
qed auto

text \<open>A seek on live iterators that fails leaves a conflict behind, if an iterator had reached the target.\<close>

lemma live_stats: "list_all2 at ps sts \<Longrightarrow> list_all2 stat ps (map (\<lambda>s. Live (fst s) (snd s)) sts)"
  by (simp add: list_all2_map2)

lemma seek_round_fail:
  assumes "list_all2 at ps sts" "0 < t" "t \<le> B" "seek_round P ps t eq = Some (False, ps', t', eq')"
  shows "\<exists>sts'. list_all2 stat ps' sts' \<and> Dead t' \<in> set sts' \<and> (\<forall>s \<in> set sts. t' \<le> fst s \<longrightarrow> (\<exists>e ys. Live e ys \<in> set sts' \<and> t' \<le> e)) \<and>
    (t' = t \<or> (\<exists>e ys. Live e ys \<in> set sts' \<and> t' \<le> e))"
  using assms
proof (induction ps arbitrary: sts t eq ps')
  case (Cons p ps)
  obtain s sts1 where sts: "sts = s # sts1" "at p s" "list_all2 at ps sts1" using Cons.prems(1) by (auto simp: list_all2_Cons1)
  show ?case
  proof (rule seek [OF sts(2) Cons.prems(2,3)])
    fix p' assume h: "p_Seek P t p = Some (False, p')" "\<forall>y \<in> set (elems s). y < t"
    then have e: "ps' = p' # ps" "t' = t" using Cons.prems(4) by auto
    have "dead p' t" by (rule dead_seek [OF sts(2) Cons.prems(2,3) h(2,1)])
    then have "list_all2 stat ps' (Dead t # map (\<lambda>s. Live (fst s) (snd s)) sts1)" using live_stats [OF sts(3)] e by simp
    moreover have "\<exists>e ys. Live e ys \<in> set (Dead t # map (\<lambda>s. Live (fst s) (snd s)) sts1) \<and> t \<le> e" if "z \<in> set sts" "t \<le> fst z" for z
    proof -
      have "z \<in> set sts1" using that h(2) sts(1) by auto
      then show ?thesis using that(2) by (intro exI [of _ "fst z"] exI [of _ "snd z"]) auto
    qed
    ultimately show ?thesis using e by (intro exI [of _ "Dead t # map (\<lambda>s. Live (fst s) (snd s)) sts1"]) auto
  next
    fix p' y ys assume y: "p_Seek P t p = Some (True, p')" "live p' y ys" "p_At P p' = y" "filter (\<lambda>y. t \<le> y) (elems s) = y # ys" "t \<le> y"
    have yB: "y \<le> B" using live_le [OF y(2)] by simp
    have "y \<in> set (filter (\<lambda>y. t \<le> y) (elems s))" using y(4) by simp
    then have "y \<in> set (elems s)" unfolding set_filter by blast
    then have le: "fst s \<le> y" using live_sorted [OF sts(2)] by auto
    have "seek_round P (p # ps) t eq = map_option (\<lambda>(ok, ps, t, eq). (ok, p' # ps, t, eq)) (seek_round P ps y (eq \<and> y = t))"
      using y(1,3,5) by (cases "y = t") auto
    then obtain ps1 where g: "seek_round P ps y (eq \<and> y = t) = Some (False, ps1, t', eq')" "ps' = p' # ps1" using Cons.prems(4) by auto
    have "0 < y" using Cons.prems(2) y(5) by simp
    from Cons.IH [OF sts(3) this yB g(1)] obtain sts' where i: "list_all2 stat ps1 sts'" "Dead t' \<in> set sts'"
      "\<forall>s \<in> set sts1. t' \<le> fst s \<longrightarrow> (\<exists>e ys. Live e ys \<in> set sts' \<and> t' \<le> e)" "t' = y \<or> (\<exists>e ys. Live e ys \<in> set sts' \<and> t' \<le> e)" by blast
    have "\<exists>e zs. Live e zs \<in> set (Live y ys # sts') \<and> t' \<le> e" using i(4) by auto
    then show ?thesis using i(1,2) y(2) g(2) by (intro exI [of _ "Live y ys # sts'"]) auto
  qed
qed simp

lemma seek_fail_conflict:
  assumes "list_all2 at (ip_postings it) sts" "0 < t" "t \<le> B" "t \<in> fst ` set sts" "intersect_Seek P t it = Some (False, it')"
  shows "\<exists>sts'. list_all2 stat (ip_postings it') sts' \<and> conflict sts'"
  using assms
proof (induction "2 ^ 64 - unat t" arbitrary: t it sts rule: less_induct)
  case less
  have ne: "sts \<noteq> []" using less.prems(4) by auto
  show ?case
  proof (rule seek_round_live [OF less.prems(1,2,3), of True])
    fix ps' t' eq' assume h: "seek_round P (ip_postings it) t True = Some (False, ps', t', eq')"
    then have e: "it' = it\<lparr>ip_postings := ps'\<rparr>" using less.prems(5) by (simp add: intersect_Seek.simps [of P t it] Let_def)
    obtain sts' where s: "list_all2 stat ps' sts'" "Dead t' \<in> set sts'" "\<forall>s \<in> set sts. t' \<le> fst s \<longrightarrow> (\<exists>e ys. Live e ys \<in> set sts' \<and> t' \<le> e)"
      "t' = t \<or> (\<exists>e ys. Live e ys \<in> set sts' \<and> t' \<le> e)" using seek_round_fail [OF less.prems(1,2,3) h] by blast
    then obtain e ys where "Live e ys \<in> set sts'" "t' \<le> e" using less.prems(4) by force
    then have "conflict sts'" unfolding conflict_def using s(2) by (intro bexI [of _ "Dead t'"] bexI [of _ "Live e ys"]) auto
    then show ?thesis using s(1) e by auto
  next
    fix ps' t' eq' sts' assume h: "seek_round P (ip_postings it) t True = Some (True, ps', t', eq')" "list_all2 at ps' sts'" "t \<le> t'" "t' \<le> B"
      "eq' \<longleftrightarrow> True \<and> t' = t" "sts \<noteq> [] \<Longrightarrow> t' \<in> fst ` set sts'"
    have "t' \<noteq> t" using less.prems(5) h(1,5) by (auto simp: intersect_Seek.simps [of P t it] Let_def)
    then have lt: "t < t'" using h(3) by simp
    then have m: "2 ^ 64 - unat t' < 2 ^ 64 - unat t" using unat64_less [of t] by (auto simp: word_less_nat_alt)
    have "intersect_Seek P t' (it\<lparr>ip_postings := ps'\<rparr>) = Some (False, it')" using less.prems(5) h(1,5) \<open>t' \<noteq> t\<close> by (simp add: intersect_Seek.simps [of P t it] Let_def)
    then show ?thesis using less.hyps [OF m _ _ h(4) h(6) [OF ne], of "it\<lparr>ip_postings := ps'\<rparr>"] h(2) lt less.prems(2) by auto
  qed
qed

definition inter_ended :: "'a intersectPostings \<Rightarrow> uint64 \<Rightarrow> bool" where
  "inter_ended it c \<longleftrightarrow> c \<le> B \<and> (\<exists>sts. list_all2 stat (ip_postings it) sts \<and>
     (conflict sts \<or> (\<exists>rs. rs \<noteq> [] \<and> sts = Ended c # map (Live c) rs)))"

lemma live_stat: "list_all2 (\<lambda>p ys. live p c ys) ps rs \<Longrightarrow> list_all2 stat ps (map (Live c) rs)"
  by (simp add: list_all2_map2)

lemma inter_ended_next:
  assumes l: "inter_live live it c []" and n: "intersect_Next P it = Some (b, it')"
  shows "inter_ended it' c"
proof -
  have cB: "c \<le> B" by (rule postings.live_le [OF intersect_postings_ok l]) simp
  show ?thesis
  proof (rule inter_end_cases [OF l])
    fix p' ps rs1 assume h: "list_all2 (\<lambda>p ys. live p c ys) ps rs1" "rs1 \<noteq> []" "p_Next P (hd (ip_postings it)) = Some (False, p')" "live (hd (ip_postings it)) c []"
      "intersect_Next P it = Some (False, it\<lparr>ip_postings := p' # ps\<rparr>)"
    have "ended p' c" by (rule ended_next [OF h(4,3)])
    then have "list_all2 stat (p' # ps) (Ended c # map (Live c) rs1)" using live_stat [OF h(1)] by simp
    moreover have "it' = it\<lparr>ip_postings := p' # ps\<rparr>" using n h(5) by simp
    ultimately show ?thesis unfolding inter_ended_def using h(2) cB by (intro conjI exI [of _ "Ended c # map (Live c) rs1"]) auto
  next
    fix p' ps rs1 y ys ps' t' eq' assume h: "list_all2 (\<lambda>p ys. live p c ys) ps rs1" "live p' y ys" "c < y"
      "next_round P ps y True = Some (False, ps', t', eq')" "intersect_Next P it = Some (False, it\<lparr>ip_postings := p' # ps'\<rparr>)"
    from next_round_stat [OF live_stat [OF h(1)], of y True] h(4) obtain sts' where
      s: "list_all2 stat ps' sts'" "list_all2 evolve (map (Live c) rs1) sts'" "\<exists>s \<in> set sts'. settled s" by auto
    have "s = Ended c" if "s \<in> set sts'" "settled s" for s
    proof -
      from s(2) have "list_all2 (\<lambda>s' s. evolve s s') sts' (map (Live c) rs1)" by (simp add: list_all2_conv_all_nth)
      from list_all2_mem [OF this that(1)] obtain zs where "evolve (Live c zs) s" by auto
      then show ?thesis using that(2) by (cases s) auto
    qed
    then have "Ended c \<in> set sts'" using s(3) by blast
    then have "conflict (Live y ys # sts')"
      unfolding conflict_def using h(3) by (intro bexI [of _ "Ended c"] bexI [of _ "Live y ys"]) auto
    moreover have "it' = it\<lparr>ip_postings := p' # ps'\<rparr>" using n h(5) by simp
    ultimately show ?thesis unfolding inter_ended_def using s(1) h(2) cB by (intro conjI exI [of _ "Live y ys # sts'"]) auto
  next
    fix sts t' it1 assume h: "list_all2 at (ip_postings it1) sts" "0 < t'" "t' \<le> B" "t' \<in> fst ` set sts" "\<forall>z. \<not> common sts z"
      "intersect_Next P it = intersect_Seek P t' it1"
    obtain it2 where "intersect_Seek P t' it1 = Some (False, it2)" by (rule seek_loop [OF h(1,2,3)]) (use h(5) in auto)
    then have "intersect_Seek P t' it1 = Some (False, it')" using n h(6) by simp
    then show ?thesis using seek_fail_conflict [OF h(1,2,3,4)] cB by (auto simp: inter_ended_def)
  qed
qed

lemma round_same:
  assumes "list_all2 (\<lambda>p ys. live p c ys) ps rs" "0 < c" "c \<le> B"
  shows "\<exists>ps'. seek_round P ps c eq = Some (True, ps', c, eq) \<and> list_all2 (\<lambda>p ys. live p c ys) ps' rs"
  using assms
proof (induction ps arbitrary: rs)
  case (Cons p ps)
  obtain r rs1 where r: "rs = r # rs1" "live p c r" "list_all2 (\<lambda>p ys. live p c ys) ps rs1" using Cons.prems(1) by (auto simp: list_all2_Cons1)
  have "filter (\<lambda>y. c \<le> y) (c # r) = c # r" using live_sorted [OF r(2)] by (intro filter_True) auto
  from seek_live [OF r(2) Cons.prems(2,3) this] obtain p' where "p_Seek P c p = Some (True, p')" "live p' c r" "p_At P p' = c" by blast
  then show ?case using Cons.IH [OF r(3) Cons.prems(2,3)] r(1) by auto
qed simp

lemma inter_seek_first:
  assumes st: "list_all2 stat (ip_postings it) (Ended c # map (Live c) rs)" and x: "0 < x" "x \<le> B" and ne: "rs \<noteq> []"
  shows "\<exists>b it'. intersect_Seek P x it = Some (b, it') \<and> intersect_Err P it' = None \<and> (b \<longrightarrow> x \<le> c \<and> ip_current it' = c \<and> inter_ended it' c)"
  using st x
proof (induction "unat (c - x)" arbitrary: it x rule: less_induct)
  case less
  obtain p ps where p: "ip_postings it = p # ps" "ended p c" "list_all2 (\<lambda>p ys. live p c ys) ps rs"
    using less.prems(1) by (auto simp: list_all2_Cons2 list_all2_map2)
  obtain b p' where h: "p_Seek P x p = Some (b, p')" "p_Err P p' = None" "b \<longrightarrow> x \<le> c \<and> p_At P p' = c \<and> ended p' c"
    using seek_ended [OF p(2) less.prems(2,3)] by auto
  show ?case
  proof (cases b)
    case False
    have "\<forall>p \<in> set ps. p_Err P p = None" using stats_err [OF live_stat [OF p(3)]] .
    then show ?thesis using False h(1,2) inter_err(2) [of "p' # ps" it] by (intro exI [of _ False]) (simp add: intersect_Seek.simps [of P x it] p(1) Let_def)
  next
    case True
    then have c: "x \<le> c" "p_At P p' = c" "ended p' c" using h(3) by auto
    have cB: "c \<le> B" "0 < c" using ended_le [OF c(3)] less.prems(2) c(1) by auto
    obtain ps' where r: "seek_round P ps c (x = c) = Some (True, ps', c, x = c)" "list_all2 (\<lambda>p ys. live p c ys) ps' rs"
      using round_same [OF p(3) cB(2,1), of "x = c"] by blast
    have step: "seek_round P (p # ps) x True = Some (True, p' # ps', c, x = c)"
      using h(1) True c(1,2) r(1) by (cases "x = c") (auto simp: less_le)
    let ?it = "it\<lparr>ip_postings := p' # ps'\<rparr>"
    have st': "list_all2 stat (ip_postings ?it) (Ended c # map (Live c) rs)" using c(3) live_stat [OF r(2)] by simp
    then have en: "inter_ended (?it\<lparr>ip_current := c\<rparr>) c"
      unfolding inter_ended_def using cB ne by (intro conjI exI [of _ "Ended c # map (Live c) rs"]) auto
    show ?thesis
    proof (cases "x = c")
      case True
      have "\<forall>p \<in> set (p' # ps'). p_Err P p = None" using stats_err [OF st'] by simp
      moreover have "intersect_Seek P x it = Some (True, ?it\<lparr>ip_current := c\<rparr>)"
        unfolding intersect_Seek.simps [of P x it] p(1) step using True by simp
      ultimately show ?thesis using c en inter_err(1) [of "p' # ps'"] by (intro exI [of _ True] exI [of _ "?it\<lparr>ip_current := c\<rparr>"]) simp
    next
      case False
      then have m: "unat (c - c) < unat (c - x)" using c(1) by (simp add: unat_gt_0)
      have "intersect_Seek P x it = intersect_Seek P c ?it" using step False by (simp add: intersect_Seek.simps [of P x it] p(1) Let_def)
      then show ?thesis using less.hyps [OF m st' cB(2,1)] c(1) by auto
    qed
  qed
qed

lemma inter_next_ended:
  assumes "inter_ended it c"
  shows "\<exists>it'. intersect_Next P it = Some (False, it') \<and> inter_ended it' c"
proof -
  obtain sts where s: "list_all2 stat (ip_postings it) sts" "conflict sts \<or> (\<exists>rs. rs \<noteq> [] \<and> sts = Ended c # map (Live c) rs)" and cB: "c \<le> B"
    using assms by (auto simp: inter_ended_def)
  then have "sts \<noteq> []" by (auto simp: conflict_def)
  then obtain p ps s1 sts1 where p: "ip_postings it = p # ps" "sts = s1 # sts1" "stat p s1" "list_all2 stat ps sts1"
    using s(1) by (cases sts) (auto simp: list_all2_Cons2)
  obtain b p' s' where n: "p_Next P p = Some (b, p')" "stat p' s'" "evolve s1 s'" "settled s1 \<longrightarrow> \<not> b" "\<not> b \<longrightarrow> settled s'" by (rule next_stat [OF p(3)])
  show ?thesis
  proof (cases b)
    case False
    have ev: "list_all2 evolve sts (s' # sts1)" using n(3) p(2) evolve_refl by simp
    have "conflict (s' # sts1) \<or> (\<exists>rs. rs \<noteq> [] \<and> s' # sts1 = Ended c # map (Live c) rs)"
      using s(2) conflict_evolve [OF ev] n(3) p(2) by auto
    moreover have "list_all2 stat (p' # ps) (s' # sts1)" using n(2) p(4) by simp
    ultimately have "inter_ended (it\<lparr>ip_postings := p' # ps\<rparr>) c" unfolding inter_ended_def using cB by (intro conjI exI [of _ "s' # sts1"]) auto
    then show ?thesis using n(1) False by (simp add: intersect_Next_def p(1))
  next
    case True
    obtain b' ps' t' eq' sts' where r: "next_round P ps (p_At P p') True = Some (b', ps', t', eq')" "list_all2 stat ps' sts'" "list_all2 evolve sts1 sts'"
      "b' \<longrightarrow> (\<forall>s \<in> set sts1. \<not> settled s)" using next_round_stat [OF p(4), of "p_At P p'" True] by blast
    have "\<not> settled s1" using n(4) True by auto
    then have c: "conflict sts" using s(2) p(2) by auto
    from conflict_settled [OF c] have "\<exists>D \<in> set sts1. settled D" using p(2) \<open>\<not> settled s1\<close> by auto
    then have "\<not> b'" using r(4) by blast
    moreover have "conflict (s' # sts')" using conflict_evolve [OF _ c, of "s' # sts'"] n(3) r(3) p(2) by simp
    moreover have "list_all2 stat (p' # ps') (s' # sts')" using n(2) r(2) by simp
    ultimately have "inter_ended (it\<lparr>ip_postings := p' # ps'\<rparr>) c" unfolding inter_ended_def using cB by (intro conjI exI [of _ "s' # sts'"]) auto
    then show ?thesis using n(1) True r(1) \<open>\<not> b'\<close> by (simp add: intersect_Next_def p(1))
  qed
qed

lemma intersect_resumable: "resumable_postings (intersect_postings P) B (inter_live live) inter_ended"
proof (intro resumable_postings.intro intersect_postings_ok resumable_postings_axioms.intro)
  fix it it' c x and b
  show "inter_live live it c [] \<Longrightarrow> p_Next (intersect_postings P) it = Some (b, it') \<Longrightarrow> inter_ended it' c"
    by (simp add: intersect_postings_def inter_ended_next)
  show "inter_ended it c \<Longrightarrow> \<exists>it'. p_Next (intersect_postings P) it = Some (False, it') \<and> inter_ended it' c"
    using inter_next_ended by (simp add: intersect_postings_def)
  show "\<exists>b it'. p_Seek (intersect_postings P) x it = Some (b, it') \<and> p_Err (intersect_postings P) it' = None \<and>
      (b \<longrightarrow> x \<le> c \<and> p_At (intersect_postings P) it' = c \<and> inter_ended it' c)" if e: "inter_ended it c" and x: "0 < x" "x \<le> B"
  proof -
    obtain sts where "list_all2 stat (ip_postings it) sts" "conflict sts \<or> (\<exists>rs. rs \<noteq> [] \<and> sts = Ended c # map (Live c) rs)"
      using e by (auto simp: inter_ended_def)
    then show ?thesis
    proof (elim disjE exE conjE)
      assume "list_all2 stat (ip_postings it) sts" "conflict sts"
      from seek_conflict [OF this x] show ?thesis by (intro exI [of _ False]) (auto simp: intersect_postings_def)
    next
      fix rs assume "list_all2 stat (ip_postings it) sts" "rs \<noteq> []" "sts = Ended c # map (Live c) rs"
      then show ?thesis using inter_seek_first [of it c rs x] x by (simp add: intersect_postings_def)
    qed
  qed
  show "inter_ended it c \<Longrightarrow> c \<le> B" by (simp add: inter_ended_def)
  show "p_Err (intersect_postings P) it = None" if "inter_ended it c"
    using that stats_err by (auto simp: inter_ended_def intersect_postings_def intersect_Err_def)
qed

end

section \<open>Differences\<close>

locale difference = F: resumable_postings F B liveF endedF + R: tame_postings R B liveR endedR deadR
  for F :: "'f Postings" and B liveF endedF and R :: "'r Postings" and liveR endedR deadR
begin

text \<open>
  What the iterator to subtract removes from the references from \<open>f\<close> on; \<open>b\<close> is the result of its last
  call.
\<close>

definition rem :: "'r \<Rightarrow> bool \<Rightarrow> uint64 \<Rightarrow> uint64 set \<Rightarrow> bool" where
  "rem p b f M \<longleftrightarrow> (b \<and> (\<exists>r rs. liveR p r rs \<and> p_At R p = r \<and> M = set (r # rs))) \<or>
     ((\<exists>h. deadR p h \<and> h \<le> f \<and> (b \<longrightarrow> p_At R p < h)) \<and> M = {})"

definition any :: "'r \<Rightarrow> bool" where
  "any p \<longleftrightarrow> (\<exists>r rs. liveR p r rs) \<or> (\<exists>h. deadR p h)"

lemma any_err: "any p \<Longrightarrow> p_Err R p = None"
  unfolding any_def using R.live_err R.dead_err by blast

lemma rem_any: "rem p b f M \<Longrightarrow> any p"
  by (auto simp: rem_def any_def)

lemma rem_mono: "rem p b f M \<Longrightarrow> f \<le> g \<Longrightarrow> rem p b g M"
  unfolding rem_def by (meson order_trans)

lemma rem_seek_live:
  assumes "liveR p r rs" "0 < x" "x \<le> B"
  obtains b p' M' where "p_Seek R x p = Some (b, p')" "rem p' b x M'" "\<forall>z \<ge> x. z \<in> M' \<longleftrightarrow> z \<in> set (r # rs)"
    "b \<and> (\<exists>r' rs'. liveR p' r' rs' \<and> p_At R p' = r' \<and> x \<le> r') \<or> \<not> b"
proof (rule R.seek [OF assms])
  fix p' assume h: "p_Seek R x p = Some (False, p')" "\<forall>y \<in> set (r # rs). y < x"
  have "rem p' False x {}" using R.dead_seek [OF assms h(2,1)] by (auto simp: rem_def)
  moreover have "\<forall>z \<ge> x. z \<in> {} \<longleftrightarrow> z \<in> set (r # rs)" using h(2) by fastforce
  ultimately show thesis using h(1) by (intro that [of False p' "{}"]) auto
next
  fix p' y ys assume h: "p_Seek R x p = Some (True, p')" "liveR p' y ys" "p_At R p' = y" "filter (\<lambda>y. x \<le> y) (r # rs) = y # ys" "x \<le> y"
  have "rem p' True x (set (y # ys))" using h by (auto simp: rem_def)
  moreover have "\<forall>z \<ge> x. z \<in> set (y # ys) \<longleftrightarrow> z \<in> set (r # rs)" unfolding h(4) [symmetric] set_filter by blast
  ultimately show thesis using h by (intro that [of True p' "set (y # ys)"]) auto
qed

lemma rem_seek:
  assumes "rem p b f M" "0 < x" "x \<le> B" "f \<le> f'" "x \<le> f'"
  obtains b' p' M' where "p_Seek R x p = Some (b', p')" "rem p' b' f' M'" "\<forall>z \<ge> x. z \<in> M' \<longleftrightarrow> z \<in> M"
proof (cases "\<exists>r rs. liveR p r rs \<and> M = set (r # rs)")
  case True
  then obtain r rs where r: "liveR p r rs" "M = set (r # rs)" by blast
  show thesis by (rule rem_seek_live [OF r(1) assms(2,3)]) (use that rem_mono [OF _ assms(5)] r(2) in blast)
next
  case False
  then obtain h where h: "deadR p h" "h \<le> f" "M = {}" using assms(1) by (auto simp: rem_def)
  obtain b' p' where "p_Seek R x p = Some (b', p')" "deadR p' h" "b' \<longrightarrow> x \<le> p_At R p' \<and> p_At R p' < h" using R.seek_dead [OF h(1) assms(2,3)] by blast
  moreover from this have "rem p' b' f' {}" using h(2) assms(4) by (auto simp: rem_def intro: order_trans)
  ultimately show thesis using h(3) by (intro that [of b' p' "{}"]) auto
qed

lemma seek_target:
  assumes "rem p b f M" "0 < f" "f \<le> B"
  obtains b' p' M' where "p_Seek R f p = Some (b', p')" "rem p' b' f M'" "\<forall>z \<ge> f. z \<in> M' \<longleftrightarrow> z \<in> M" "b' \<longrightarrow> \<not> p_At R p' < f"
proof (cases "\<exists>r rs. liveR p r rs \<and> M = set (r # rs)")
  case True
  then obtain r rs where r: "liveR p r rs" "M = set (r # rs)" by blast
  show thesis by (rule rem_seek_live [OF r(1) assms(2,3)]) (use that r(2) not_less in blast)
next
  case False
  then obtain h where h: "deadR p h" "h \<le> f" "M = {}" using assms(1) by (auto simp: rem_def)
  obtain b' p' where d: "p_Seek R f p = Some (b', p')" "deadR p' h" "b' \<longrightarrow> f \<le> p_At R p' \<and> p_At R p' < h" using R.seek_dead [OF h(1) assms(2,3)] by blast
  have "rem p' b' f {}" using d h(2) by (auto simp: rem_def)
  then show thesis using d h(3) by (intro that [of b' p' "{}"]) (auto simp: not_less)
qed

lemma any_seek:
  assumes "any p" "0 < x" "x \<le> B"
  obtains b p' where "p_Seek R x p = Some (b, p')" "any p'"
proof (cases "\<exists>r rs. liveR p r rs")
  case True
  then obtain r rs where r: "liveR p r rs" by blast
  show thesis by (rule rem_seek_live [OF r assms(2,3)]) (use that rem_any in blast)
next
  case False
  then obtain h where "deadR p h" using assms(1) by (auto simp: any_def)
  from R.seek_dead [OF this assms(2,3)] show thesis using that unfolding any_def by blast
qed

definition removed_live :: "('f, 'r) removedPostings \<Rightarrow> uint64 \<Rightarrow> uint64 list \<Rightarrow> bool" where
  "removed_live rp c xs \<longleftrightarrow> rp_cur rp = c \<and>
     (if \<not> rp_initialized rp
      then c = 0 \<and> (\<exists>fs rs. liveF (rp_full rp) 0 fs \<and> liveR (rp_remove rp) 0 rs \<and> xs = filter (\<lambda>z. z \<notin> set rs) fs)
      else if rp_fok rp
      then \<exists>f fs M. liveF (rp_full rp) f fs \<and> p_At F (rp_full rp) = f \<and> c < f \<and> rem (rp_remove rp) (rp_rok rp) f M \<and>
             xs = filter (\<lambda>z. z \<notin> M) (f # fs)
      else xs = [] \<and> endedF (rp_full rp) c \<and> any (rp_remove rp))"

definition removed_ended :: "('f, 'r) removedPostings \<Rightarrow> uint64 \<Rightarrow> bool" where
  "removed_ended rp c \<longleftrightarrow> rp_cur rp = c \<and> rp_initialized rp \<and> \<not> rp_fok rp \<and> c \<le> B \<and>
     (endedF (rp_full rp) c \<and> any (rp_remove rp) \<or>
      (\<exists>f rs. c < f \<and> endedF (rp_full rp) f \<and> liveR (rp_remove rp) f rs \<and> p_At R (rp_remove rp) = f))"

text \<open>The result of a call that should deliver the next of the references \<open>ys\<close>.\<close>

definition outcome :: "(bool \<times> ('f, 'r) removedPostings) option \<Rightarrow> uint64 \<Rightarrow> uint64 list \<Rightarrow> bool" where
  "outcome res c ys \<longleftrightarrow> (case ys of
      [] \<Rightarrow> \<exists>rp'. res = Some (False, rp') \<and> removed_ended rp' c
    | x # xs \<Rightarrow> \<exists>rp'. res = Some (True, rp') \<and> removed_live rp' x xs)"

lemma outcome_simps [simp]:
  "outcome res c [] \<longleftrightarrow> (\<exists>rp'. res = Some (False, rp') \<and> removed_ended rp' c)"
  "outcome res c (x # xs) \<longleftrightarrow> (\<exists>rp'. res = Some (True, rp') \<and> removed_live rp' x xs)"
  by (auto simp: outcome_def)

text \<open>Advancing the full iterator behind the current reference.\<close>

lemma next_full_emit:
  assumes "liveF (rp_full rp) f fs" "rem (rp_remove rp) (rp_rok rp) f M" "rp_initialized rp" "rp_cur rp = f"
  shows "\<exists>rp'. next_full F rp = Some rp' \<and> removed_live rp' f (filter (\<lambda>z. z \<notin> M) fs)"
proof (cases fs)
  case Nil
  then obtain p' where "p_Next F (rp_full rp) = Some (False, p')" "endedF p' f" using F.next_end [of "rp_full rp" f] F.ended_next assms(1) by blast
  then show ?thesis using assms(3,4) rem_any [OF assms(2)] Nil by (simp add: next_full_def removed_live_def)
next
  case (Cons g gs)
  then have l: "liveF (rp_full rp) f (g # gs)" using assms(1) by simp
  then obtain p' where "p_Next F (rp_full rp) = Some (True, p')" "liveF p' g gs" "p_At F p' = g" using F.next_live by blast
  moreover have "f < g" using F.live_sorted [OF l] by simp
  moreover from this have "rem (rp_remove rp) (rp_rok rp) g M" using rem_mono [OF assms(2), of g] by simp
  ultimately show ?thesis using assms(3,4) Cons by (auto simp: next_full_def removed_live_def)
qed

lemma removed_loop_ok:
  assumes "rp_initialized rp" "rp_fok rp" "liveF (rp_full rp) f fs" "p_At F (rp_full rp) = f" "rp_cur rp < f"
    and "rem (rp_remove rp) (rp_rok rp) f M"
  shows "outcome (removed_loop F R rp) (rp_cur rp) (filter (\<lambda>z. z \<notin> M) (f # fs))"
  using assms
proof (induction "2 * length fs + (if rp_rok rp \<and> p_At R (rp_remove rp) < f then 1 else 0)" arbitrary: rp f fs M rule: less_induct)
  case less
  note l = less.prems
  have fB: "f \<le> B" "0 < f" using F.live_le [OF l(3)] l(5) by (auto intro: le_less_trans [of 0 "rp_cur rp"])
  have srt: "\<forall>z \<in> set fs. f < z" using F.live_sorted [OF l(3)] by simp
  have emit: "\<exists>rp'. Option.bind (next_full F (rp\<lparr>rp_cur := f\<rparr>)) (\<lambda>rp. Some (True, rp)) = Some (True, rp') \<and> removed_live rp' f (filter (\<lambda>z. z \<notin> M) fs)"
    using next_full_emit [of "rp\<lparr>rp_cur := f\<rparr>" f fs M] l(1,3,6) by auto
  show ?case
  proof (cases "rp_rok rp")
    case False
    then have "M = {}" using l(6) by (auto simp: rem_def)
    then show ?thesis using emit False l(2,4) by (simp add: removed_loop.simps [of F R rp])
  next
    case rok: True
    let ?r = "p_At R (rp_remove rp)"
    consider "f < ?r" | "?r < f" | "?r = f" by (metis linorder_less_linear)
    then show ?thesis
    proof cases
      case 1
      then have "f \<notin> M" using l(6) R.live_sorted by (fastforce simp: rem_def)
      then show ?thesis using emit rok 1 l(2,4) by (simp add: removed_loop.simps [of F R rp] Let_def)
    next
      case 2
      obtain b p' M' where s: "p_Seek R f (rp_remove rp) = Some (b, p')" "rem p' b f M'" "\<forall>z \<ge> f. z \<in> M' \<longleftrightarrow> z \<in> M" "b \<longrightarrow> \<not> p_At R p' < f"
        by (rule seek_target [OF l(6) fB(2,1)])
      let ?rp = "rp\<lparr>rp_rok := b, rp_remove := p'\<rparr>"
      have step: "removed_loop F R rp = removed_loop F R ?rp" using s(1) 2 less_not_sym [OF 2] rok l(2,4) by (simp add: removed_loop.simps [of F R rp] Let_def)
      have eq: "filter (\<lambda>z. z \<notin> M') (f # fs) = filter (\<lambda>z. z \<notin> M) (f # fs)" using s(3) srt by (intro filter_cong refl) auto
      have "2 * length fs + (if rp_rok ?rp \<and> p_At R (rp_remove ?rp) < f then 1 else 0) < 2 * length fs + (if rp_rok rp \<and> ?r < f then 1 else 0)"
        using s(4) rok 2 by auto
      from less.hyps [OF this, of M'] l s(2) have "outcome (removed_loop F R ?rp) (rp_cur ?rp) (filter (\<lambda>z. z \<notin> M') (f # fs))" by simp
      moreover have "rp_cur ?rp = rp_cur rp" by simp
      ultimately show ?thesis unfolding step eq by (simp only:)
    next
      case 3
      obtain rs where r: "liveR (rp_remove rp) f rs" "M = set (f # rs)" using l(6) 3 rok by (auto simp: rem_def)
      have step: "removed_loop F R rp = Option.bind (next_full F rp) (removed_loop F R)" using 3 rok l(2,4) by (simp add: removed_loop.simps [of F R rp] Let_def)
      show ?thesis
      proof (cases fs)
        case Nil
        then obtain q where q: "p_Next F (rp_full rp) = Some (False, q)" "endedF q f" using F.next_end [of "rp_full rp" f] F.ended_next l(3) by blast
        have "removed_ended (rp\<lparr>rp_fok := False, rp_full := q\<rparr>) (rp_cur rp)"
          unfolding removed_ended_def using q(2) r(1) l(1,5) fB 3 by auto
        then show ?thesis using step q(1) Nil r(2) by (simp add: next_full_def removed_loop.simps [of F R "rp\<lparr>rp_fok := False, rp_full := q\<rparr>"])
      next
        case (Cons g gs)
        then have lg: "liveF (rp_full rp) f (g # gs)" using l(3) by simp
        then obtain q where q: "p_Next F (rp_full rp) = Some (True, q)" "liveF q g gs" "p_At F q = g" using F.next_live by blast
        have fg: "f < g" using srt Cons by simp
        let ?rp = "rp\<lparr>rp_fok := True, rp_full := q\<rparr>"
        have m: "2 * length gs + (if rp_rok ?rp \<and> p_At R (rp_remove ?rp) < g then 1 else 0) < 2 * length fs + (if rp_rok rp \<and> ?r < f then 1 else 0)"
          using Cons by auto
        have "rem (rp_remove ?rp) (rp_rok ?rp) g M" using rem_mono [OF l(6), of g] fg by simp
        from less.hyps [OF m, of M] this q l(1,5) fg have "outcome (removed_loop F R ?rp) (rp_cur rp) (filter (\<lambda>z. z \<notin> M) (g # gs))" by simp
        moreover have "removed_loop F R rp = removed_loop F R ?rp" using step q(1) by (simp add: next_full_def)
        ultimately show ?thesis using Cons r(2) by simp
      qed
    qed
  qed
qed

lemma removed_err: "p_Err F (rp_full rp) = None \<Longrightarrow> p_Err R (rp_remove rp) = None \<Longrightarrow> removed_Err F R rp = None"
  by (simp add: removed_Err_def)

lemma removed_ended_err: "removed_ended rp c \<Longrightarrow> removed_Err F R rp = None"
  by (rule removed_err) (auto simp: removed_ended_def any_err dest: F.ended_err R.live_err)

lemma removed_live_err: "removed_live rp c xs \<Longrightarrow> removed_Err F R rp = None"
  by (rule removed_err) (auto simp: removed_live_def any_err rem_any dest: F.live_err F.ended_err R.live_err split: if_splits intro: any_err [OF rem_any])

lemma removed_sorted: "removed_live rp c xs \<Longrightarrow> sorted_wrt (<) (c # xs)" "removed_live rp c xs \<Longrightarrow> y \<in> set (c # xs) \<Longrightarrow> y \<le> B"
proof -
  assume l: "removed_live rp c xs"
  have "\<exists>ys. set xs \<subseteq> set ys \<and> sorted_wrt (<) (c # xs) \<and> (\<forall>y \<in> set (c # ys). y \<le> B)"
  proof (cases "rp_initialized rp")
    case False
    then obtain fs rs where "liveF (rp_full rp) 0 fs" "xs = filter (\<lambda>z. z \<notin> set rs) fs" "c = 0" using l by (auto simp: removed_live_def)
    then show ?thesis using F.live_sorted [of "rp_full rp" 0 fs] F.live_le [of "rp_full rp" 0 fs]
      by (intro exI [of _ fs]) (auto simp: sorted_wrt_filter)
  next
    case init: True
    show ?thesis
    proof (cases "rp_fok rp")
      case True
      then obtain f fs M where f: "liveF (rp_full rp) f fs" "c < f" "xs = filter (\<lambda>z. z \<notin> M) (f # fs)" using l init by (auto simp: removed_live_def)
      have s: "sorted_wrt (<) (c # f # fs)" using F.live_sorted [OF f(1)] f(2) by auto
      have "sorted_wrt (<) xs" unfolding f(3) by (rule sorted_wrt_filter) (use s in simp)
      then have "sorted_wrt (<) (c # xs)" unfolding f(3) using s by auto
      moreover have "\<forall>y \<in> set (c # f # fs). y \<le> B" using F.live_le [OF f(1)] f(2) by (auto intro: order.trans [OF less_imp_le])
      moreover have "set xs \<subseteq> set (f # fs)" unfolding f(3) by auto
      ultimately show ?thesis by blast
    next
      case False
      then show ?thesis using l init F.ended_le by (auto simp: removed_live_def intro!: exI [of _ "[]"])
    qed
  qed
  then show "sorted_wrt (<) (c # xs)" "y \<in> set (c # xs) \<Longrightarrow> y \<le> B" by auto
qed

lemma removed_next:
  assumes "removed_live rp c xs"
  shows "outcome (removed_Next F R rp) c xs"
proof (cases "rp_initialized rp")
  case True
  show ?thesis
  proof (cases "rp_fok rp")
    case fok: True
    then obtain f fs M where "liveF (rp_full rp) f fs" "p_At F (rp_full rp) = f" "c < f" "rem (rp_remove rp) (rp_rok rp) f M" "xs = filter (\<lambda>z. z \<notin> M) (f # fs)"
      "rp_cur rp = c" using assms True by (auto simp: removed_live_def)
    then show ?thesis using removed_loop_ok [of rp f fs M] True fok by (simp only: removed_Next_def if_False simp_thms)
  next
    case False
    then have "xs = []" "endedF (rp_full rp) c" "any (rp_remove rp)" "rp_cur rp = c" using assms True by (auto simp: removed_live_def)
    then show ?thesis using True False F.ended_le by (auto simp: removed_Next_def removed_loop.simps [of F R rp] removed_ended_def)
  qed
next
  case False
  then obtain fs rs where l: "liveF (rp_full rp) 0 fs" "liveR (rp_remove rp) 0 rs" "xs = filter (\<lambda>z. z \<notin> set rs) fs" "c = 0" "rp_cur rp = 0"
    using assms by (auto simp: removed_live_def)
  have remove: "\<exists>b p' M. p_Next R (rp_remove rp) = Some (b, p') \<and> (\<forall>f > 0. rem p' b f M) \<and> (\<forall>z. z \<in> M \<longleftrightarrow> z \<in> set rs) \<and> any p'"
  proof (cases rs)
    case Nil
    then obtain p' where n: "p_Next R (rp_remove rp) = Some (False, p')" using R.next_end l(2) by blast
    then have "endedR p' 0" using R.ended_next l(2) Nil by blast
    then have "deadR p' 1" by (rule R.dead_ended) simp
    then have "rem p' False f {}" if "0 < f" for f using that by (auto simp: rem_def word_less_nat_alt word_le_nat_alt)
    then show ?thesis using n Nil \<open>deadR p' 1\<close> by (intro exI [of _ False] exI [of _ p'] exI [of _ "{}"]) (auto simp: any_def)
  next
    case (Cons r rs')
    then obtain p' where "p_Next R (rp_remove rp) = Some (True, p')" "liveR p' r rs'" "p_At R p' = r" using R.next_live l(2) by blast
    then show ?thesis using Cons by (intro exI [of _ True] exI [of _ p'] exI [of _ "set rs"]) (auto simp: rem_def any_def)
  qed
  then obtain b p' M where p': "p_Next R (rp_remove rp) = Some (b, p')" "\<forall>f > 0. rem p' b f M" "\<forall>z. z \<in> M \<longleftrightarrow> z \<in> set rs" "any p'" by blast
  show ?thesis
  proof (cases fs)
    case Nil
    then obtain q where q: "p_Next F (rp_full rp) = Some (False, q)" "endedF q 0" using F.next_end F.ended_next l(1) by blast
    then show ?thesis using False p'(1,4) l Nil
      by (auto simp: removed_Next_def next_full_def removed_loop.simps [of F R] removed_ended_def)
  next
    case (Cons f fs')
    then have lf: "liveF (rp_full rp) 0 (f # fs')" using l(1) by simp
    then obtain q where q: "p_Next F (rp_full rp) = Some (True, q)" "liveF q f fs'" "p_At F q = f" using F.next_live by blast
    have f0: "0 < f" using F.live_sorted [OF lf] by simp
    let ?rp = "rp\<lparr>rp_fok := True, rp_full := q, rp_rok := b, rp_remove := p', rp_initialized := True\<rparr>"
    have xs: "xs = filter (\<lambda>z. z \<notin> M) (f # fs')" unfolding l(3) Cons using p'(3) by (intro filter_cong refl) auto
    have step: "removed_Next F R rp = removed_loop F R ?rp" using False q(1) p'(1) by (simp add: removed_Next_def next_full_def)
    have "outcome (removed_loop F R ?rp) (rp_cur ?rp) (filter (\<lambda>z. z \<notin> M) (f # fs'))"
      by (rule removed_loop_ok) (use q f0 p'(2) l(5) in auto)
    moreover have "rp_cur ?rp = c" using l(4,5) by simp
    ultimately show ?thesis unfolding step xs by (simp only:)
  qed
qed

text \<open>Seeking past the current reference, from the position of the full iterator.\<close>

definition seek_outcome :: "(bool \<times> ('f, 'r) removedPostings) option \<Rightarrow> uint64 list \<Rightarrow> bool" where
  "seek_outcome res ys \<longleftrightarrow> (case ys of
      [] \<Rightarrow> \<exists>rp'. res = Some (False, rp') \<and> removed_Err F R rp' = None
    | x # xs \<Rightarrow> \<exists>rp'. res = Some (True, rp') \<and> removed_live rp' x xs)"

lemma outcome_seek: "outcome res c ys \<Longrightarrow> seek_outcome res ys"
  by (cases ys) (auto simp: seek_outcome_def intro: removed_ended_err)

lemma seek_not_ok:
  assumes "p_Seek F x (rp_full rp) = Some (False, q)" "p_Err F q = None" "any (rp_remove rp)" "rp_cur rp < x" "0 < x" "x \<le> B"
  shows "\<exists>rp'. removed_Seek F R x rp = Some (False, rp') \<and> removed_Err F R rp' = None"
proof -
  obtain b p' where "p_Seek R x (rp_remove rp) = Some (b, p')" "any p'" by (rule any_seek [OF assms(3,5,6)])
  then show ?thesis using assms any_err
    by (simp add: removed_Seek_def removed_Next_def removed_loop.simps [of F R] removed_err)
qed

lemma removed_seek_past:
  assumes "rp_cur rp < x" "0 < x" "x \<le> B" "liveF (rp_full rp) f fs" "any (rp_remove rp)"
    and "p_Seek R x (rp_remove rp) = Some (b, p')" "\<forall>f'. f \<le> f' \<longrightarrow> x \<le> f' \<longrightarrow> rem p' b f' M"
  shows "seek_outcome (removed_Seek F R x rp) (filter (\<lambda>z. z \<notin> M) (filter (\<lambda>z. x \<le> z) (f # fs)))"
proof (rule F.seek [OF assms(4,2,3)])
  fix q assume q: "p_Seek F x (rp_full rp) = Some (False, q)" "p_Err F q = None" "\<forall>y \<in> set (f # fs). y < x"
  have "filter (\<lambda>z. x \<le> z) (f # fs) = []" using q(3) by (intro filter_False) (simp add: not_le)
  then show ?thesis using seek_not_ok [OF q(1,2) assms(5,1,2,3)] unfolding seek_outcome_def by simp
next
  fix q f' fs' assume q: "p_Seek F x (rp_full rp) = Some (True, q)" "liveF q f' fs'" "p_At F q = f'" "filter (\<lambda>z. x \<le> z) (f # fs) = f' # fs'" "x \<le> f'"
  let ?rp = "rp\<lparr>rp_fok := True, rp_full := q, rp_rok := b, rp_remove := p', rp_initialized := True\<rparr>"
  have "f' \<in> set (filter (\<lambda>z. x \<le> z) (f # fs))" unfolding q(4) by simp
  then have "f' \<in> set (f # fs)" unfolding set_filter by blast
  then have "f \<le> f'" using F.live_sorted [OF assms(4)] by auto
  moreover have "rp_cur rp < f'" using assms(1) q(5) by simp
  ultimately have "outcome (removed_loop F R ?rp) (rp_cur ?rp) (filter (\<lambda>z. z \<notin> M) (f' # fs'))"
    using q assms(7) by (intro removed_loop_ok) auto
  moreover have "removed_Seek F R x rp = removed_loop F R ?rp" using q(1) assms(6) assms(1) [unfolded not_le [symmetric]] by (simp add: removed_Seek_def removed_Next_def del: not_le)
  ultimately show ?thesis unfolding q(4) by (simp only: outcome_seek)
qed

lemma removed_seek:
  assumes "removed_live rp c xs" "0 < x" "x \<le> B"
  shows "seek_outcome (removed_Seek F R x rp) (filter (\<lambda>z. x \<le> z) (c # xs))"
proof (cases "x \<le> c")
  case True
  then have "filter (\<lambda>z. x \<le> z) (c # xs) = c # xs" using removed_sorted(1) [OF assms(1)] by (intro filter_True) auto
  moreover have "rp_cur rp = c" using assms(1) by (simp add: removed_live_def)
  ultimately show ?thesis using True assms(1) by (simp add: removed_Seek_def seek_outcome_def)
next
  case False
  then have past: "rp_cur rp < x" and drop: "filter (\<lambda>z. x \<le> z) (c # xs) = filter (\<lambda>z. x \<le> z) xs"
    using assms(1) by (auto simp: removed_live_def)
  have same: "filter (\<lambda>z. z \<notin> M') (filter (\<lambda>z. x \<le> z) fs) = filter (\<lambda>z. x \<le> z) (filter (\<lambda>z. z \<notin> M) fs)"
    if "\<forall>z \<ge> x. z \<in> M' \<longleftrightarrow> z \<in> M" for M' M fs using that by (induction fs) auto
  consider (new) fs rs where "liveF (rp_full rp) 0 fs" "liveR (rp_remove rp) 0 rs" "xs = filter (\<lambda>z. z \<notin> set rs) fs"
    | (at) f fs M where "liveF (rp_full rp) f fs" "rem (rp_remove rp) (rp_rok rp) f M" "xs = filter (\<lambda>z. z \<notin> M) (f # fs)"
    | (over) "xs = []" "endedF (rp_full rp) c" "any (rp_remove rp)"
    using assms(1) unfolding removed_live_def by (auto split: if_splits)
  then show ?thesis
  proof cases
    case new
    obtain b p' M' where s: "p_Seek R x (rp_remove rp) = Some (b, p')" "rem p' b x M'" "\<forall>z \<ge> x. z \<in> M' \<longleftrightarrow> z \<in> set (0 # rs)"
      by (rule rem_seek_live [OF new(2) assms(2,3)])
    have "any (rp_remove rp)" using new(2) by (auto simp: any_def)
    from removed_seek_past [OF past assms(2,3) new(1) this s(1), of M'] rem_mono [OF s(2)]
    have out: "seek_outcome (removed_Seek F R x rp) (filter (\<lambda>z. z \<notin> M') (filter (\<lambda>z. x \<le> z) (0 # fs)))" by blast
    have "filter (\<lambda>z. x \<le> z) (0 # fs) = filter (\<lambda>z. x \<le> z) fs" using assms(2) by simp
    moreover have "\<forall>z \<ge> x. z \<in> M' \<longleftrightarrow> z \<in> set rs" using s(3) assms(2) by auto
    ultimately show ?thesis using out unfolding drop unfolding new(3) by (simp only: same)
  next
    case at
    have f: "0 < f \<or> f = 0" by (simp add: word_neq_0_conv [symmetric])
    obtain b p' M' where s: "p_Seek R x (rp_remove rp) = Some (b, p')" "\<forall>f'. f \<le> f' \<longrightarrow> x \<le> f' \<longrightarrow> rem p' b f' M'" "\<forall>z \<ge> x. z \<in> M' \<longleftrightarrow> z \<in> M"
    proof -
      obtain b p' M' where "p_Seek R x (rp_remove rp) = Some (b, p')" "rem p' b (max f x) M'" "\<forall>z \<ge> x. z \<in> M' \<longleftrightarrow> z \<in> M"
        by (rule rem_seek [OF at(2) assms(2,3), of "max f x"]) auto
      then show thesis using rem_mono by (intro that [of b p' M']) auto
    qed
    from removed_seek_past [OF past assms(2,3) at(1) rem_any [OF at(2)] s(1,2)] show ?thesis
      unfolding drop unfolding at(3) by (simp only: same [OF s(3)])
  next
    case over
    then obtain q where "p_Seek F x (rp_full rp) = Some (False, q)" "p_Err F q = None"
      using F.seek_ended [OF over(2) assms(2,3)] False by auto
    from seek_not_ok [OF this over(3) past assms(2,3)] show ?thesis unfolding drop unfolding over(1) by (simp add: seek_outcome_def)
  qed
qed

lemma removed_seek_ended:
  assumes "removed_ended rp c" "0 < x" "x \<le> B"
  shows "\<exists>ok rp'. removed_Seek F R x rp = Some (ok, rp') \<and> removed_Err F R rp' = None \<and> (ok \<longrightarrow> x \<le> c \<and> rp_cur rp' = c \<and> removed_ended rp' c)"
proof (cases "x \<le> c")
  case True
  then show ?thesis using assms(1) removed_ended_err [OF assms(1)] by (auto simp: removed_Seek_def removed_ended_def)
next
  case False
  then have past: "rp_cur rp < x" using assms(1) by (simp add: removed_ended_def)
  obtain f where f: "endedF (rp_full rp) f" "any (rp_remove rp)" "f = c \<or> (\<exists>rs. liveR (rp_remove rp) f rs)"
    using assms(1) by (auto simp: removed_ended_def any_def)
  obtain b q where q: "p_Seek F x (rp_full rp) = Some (b, q)" "p_Err F q = None" "b \<longrightarrow> x \<le> f \<and> p_At F q = f \<and> endedF q f"
    using F.seek_ended [OF f(1) assms(2,3)] by blast
  show ?thesis
  proof (cases b)
    case False
    then show ?thesis using seek_not_ok [OF _ q(2) f(2) past assms(2,3)] q(1) by auto
  next
    case True
    then have x: "x \<le> f" "p_At F q = f" "endedF q f" using q(3) by auto
    then obtain rs where l: "liveR (rp_remove rp) f rs" using f(3) False by auto
    have "filter (\<lambda>z. x \<le> z) (f # rs) = f # rs" using x(1) R.live_sorted [OF l] by (intro filter_True) auto
    then obtain p' where p': "p_Seek R x (rp_remove rp) = Some (True, p')" "liveR p' f rs" "p_At R p' = f" using R.seek_live [OF l assms(2,3)] by blast
    obtain q' where q': "p_Next F q = Some (False, q')" "endedF q' f" using F.next_ended [OF x(3)] by blast
    let ?rp = "rp\<lparr>rp_fok := False, rp_full := q', rp_rok := True, rp_remove := p', rp_initialized := True\<rparr>"
    let ?mid = "rp\<lparr>rp_fok := True, rp_full := q, rp_rok := True, rp_remove := p', rp_initialized := True\<rparr>"
    have "removed_loop F R ?rp = Some (False, ?rp)" by (simp add: removed_loop.simps [of F R ?rp])
    moreover have "next_full F ?mid = Some ?rp" using q'(1) by (cases rp) (simp add: next_full_def)
    ultimately have "removed_loop F R ?mid = Some (False, ?rp)" using x(2) p'(3) by (simp add: removed_loop.simps [of F R ?mid])
    then have "removed_Seek F R x rp = Some (False, ?rp)" using q(1) True p'(1) past by (simp add: removed_Seek_def removed_Next_def)
    then show ?thesis using F.ended_err [OF q'(2)] R.live_err [OF p'(2)] by (auto simp: removed_err)
  qed
qed

lemma removed_cur: "removed_live rp c xs \<Longrightarrow> rp_cur rp = c"
  by (simp add: removed_live_def)

lemma removed_resumable: "resumable_postings (removed_postings F R) B removed_live removed_ended"
proof
  fix rp c xs and x y :: uint64 and ys ok rp'
  show "removed_live rp c xs \<Longrightarrow> sorted_wrt (<) (c # xs)" by (rule removed_sorted)
  show "removed_live rp c xs \<Longrightarrow> y \<in> set (c # xs) \<Longrightarrow> y \<le> B" by (rule removed_sorted)
  show "removed_live rp c (x # xs) \<Longrightarrow> \<exists>rp'. p_Next (removed_postings F R) rp = Some (True, rp') \<and> removed_live rp' x xs \<and> p_At (removed_postings F R) rp' = x"
    using removed_next [of rp c "x # xs"] removed_cur by (auto simp: removed_postings_def)
  show "removed_live rp c [] \<Longrightarrow> \<exists>rp'. p_Next (removed_postings F R) rp = Some (False, rp') \<and> p_Err (removed_postings F R) rp' = None"
    using removed_next [of rp c "[]"] removed_ended_err by (auto simp: removed_postings_def)
  show "\<exists>rp'. p_Seek (removed_postings F R) x rp = Some (True, rp') \<and> removed_live rp' y ys \<and> p_At (removed_postings F R) rp' = y"
    if h: "removed_live rp c xs" "0 < x" "x \<le> B" "filter (\<lambda>y. x \<le> y) (c # xs) = y # ys"
    using removed_seek [OF h(1,2,3)] removed_cur unfolding h(4) by (auto simp: removed_postings_def seek_outcome_def)
  show "\<exists>rp'. p_Seek (removed_postings F R) x rp = Some (False, rp') \<and> p_Err (removed_postings F R) rp' = None"
    if h: "removed_live rp c xs" "0 < x" "x \<le> B" "filter (\<lambda>y. x \<le> y) (c # xs) = []"
    using removed_seek [OF h(1,2,3)] unfolding h(4) by (auto simp: removed_postings_def seek_outcome_def)
  show "removed_live rp c xs \<Longrightarrow> p_Err (removed_postings F R) rp = None" by (simp add: removed_postings_def removed_live_err)
  show "removed_live rp c [] \<Longrightarrow> p_Next (removed_postings F R) rp = Some (ok, rp') \<Longrightarrow> removed_ended rp' c"
    using removed_next [of rp c "[]"] by (auto simp: removed_postings_def)
  show "removed_ended rp c \<Longrightarrow> \<exists>rp'. p_Next (removed_postings F R) rp = Some (False, rp') \<and> removed_ended rp' c"
    by (auto simp: removed_postings_def removed_Next_def removed_ended_def removed_loop.simps [of F R rp])
  show "removed_ended rp c \<Longrightarrow> 0 < x \<Longrightarrow> x \<le> B \<Longrightarrow> \<exists>ok rp'. p_Seek (removed_postings F R) x rp = Some (ok, rp') \<and>
      p_Err (removed_postings F R) rp' = None \<and> (ok \<longrightarrow> x \<le> c \<and> p_At (removed_postings F R) rp' = c \<and> removed_ended rp' c)"
    using removed_seek_ended [of rp c x] by (simp add: removed_postings_def)
  show "removed_ended rp c \<Longrightarrow> c \<le> B" by (simp add: removed_ended_def)
  show "removed_ended rp c \<Longrightarrow> p_Err (removed_postings F R) rp = None" by (simp add: removed_postings_def removed_ended_err)
qed

end

end
