(* ===== verification/PostingsAlgebra.thy ===== *)
theory PostingsAlgebra
  imports PostingsNested
begin

text \<open>
  The constructors \<open>Intersect\<close> and \<open>Without\<close> on lists: the interface contract for a variable that holds one of
  two implementations, and what a client sees of the combined iterators, reading to the end or by
  any sequence of \<open>Next\<close> and \<open>Seek\<close>.
\<close>

section \<open>Clients\<close>

text \<open>A client calls \<open>Next\<close> and \<open>Seek\<close> in some order, until a call fails, and reads \<open>At\<close> after each.\<close>

datatype call = CallNext | CallSeek uint64

fun target :: "call \<Rightarrow> uint64 option" where
  "target CallNext = None" | "target (CallSeek x) = Some x"

fun run_calls :: "'p Postings \<Rightarrow> call list \<Rightarrow> 'p \<Rightarrow> uint64 list option" where
  "run_calls P [] p = Some []"
| "run_calls P (op # ops) p =
     Option.bind (case op of CallNext \<Rightarrow> p_Next P p | CallSeek x \<Rightarrow> p_Seek P x p) (\<lambda>(ok, p).
       if ok then map_option ((#) (p_At P p)) (run_calls P ops p) else Some [])"

text \<open>The same calls on a list of references: \<open>c\<close> is the current one.\<close>

fun spec_calls :: "call list \<Rightarrow> uint64 \<Rightarrow> uint64 list \<Rightarrow> uint64 list" where
  "spec_calls [] c xs = []"
| "spec_calls (op # ops) c xs =
     (case (case op of CallNext \<Rightarrow> xs | CallSeek x \<Rightarrow> filter (\<lambda>y. x \<le> y) (c # xs)) of
        [] \<Rightarrow> [] | y # ys \<Rightarrow> y # spec_calls ops y ys)"

definition valid_calls :: "uint64 \<Rightarrow> call list \<Rightarrow> bool" where
  "valid_calls B ops \<longleftrightarrow> (\<forall>x. CallSeek x \<in> set ops \<longrightarrow> 0 < x \<and> x \<le> B)"

context postings
begin

lemma run: "live p c xs \<Longrightarrow> valid_calls B ops \<Longrightarrow> run_calls P ops p = Some (spec_calls ops c xs)"
proof (induction ops arbitrary: p c xs)
  case (Cons op ops)
  have v: "valid_calls B ops" using Cons.prems(2) by (simp add: valid_calls_def)
  show ?case
  proof (cases op)
    case CallNext
    then show ?thesis using Cons.IH [OF _ v] Cons.prems(1) next_live [of p c] next_end [of p c] by (cases xs) fastforce+
  next
    case (CallSeek x)
    then have x: "0 < x" "x \<le> B" using Cons.prems(2) by (auto simp: valid_calls_def)
    show ?thesis
    proof (cases "filter (\<lambda>y. x \<le> y) (c # xs)")
      case Nil
      then have "spec_calls (op # ops) c xs = []" unfolding CallSeek spec_calls.simps call.case by (simp only: list.case)
      then show ?thesis using CallSeek seek_end [OF Cons.prems(1) x Nil] by auto
    next
      case (Cons y ys)
      then have "spec_calls (op # ops) c xs = y # spec_calls ops y ys" unfolding CallSeek spec_calls.simps call.case by (simp only: list.case)
      then show ?thesis using CallSeek seek_live [OF Cons.prems(1) x Cons] Cons.IH [OF _ v] by auto
    qed
  qed
qed simp

end

section \<open>One of two implementations\<close>

definition empty_live :: "errPostings \<Rightarrow> uint64 \<Rightarrow> uint64 list \<Rightarrow> bool" where
  "empty_live p c xs \<longleftrightarrow> p = EmptyPostings \<and> c = 0 \<and> xs = []"

definition empty_ended :: "errPostings \<Rightarrow> uint64 \<Rightarrow> bool" where
  "empty_ended p c \<longleftrightarrow> p = EmptyPostings \<and> c = 0"

lemmas empty_defs = empty_live_def empty_ended_def err_postings_def EmptyPostings_def

lemma empty_tame: "tame_postings err_postings B empty_live empty_ended (\<lambda>p h. p = EmptyPostings)"
  by unfold_locales (auto simp: empty_defs split: if_splits)

lemma sum_simps [simp]:
  "p_Next (sum_postings P Q) (Inl p) = map_option (map_prod id Inl) (p_Next P p)"
  "p_Next (sum_postings P Q) (Inr q) = map_option (map_prod id Inr) (p_Next Q q)"
  "p_Seek (sum_postings P Q) x (Inl p) = map_option (map_prod id Inl) (p_Seek P x p)"
  "p_Seek (sum_postings P Q) x (Inr q) = map_option (map_prod id Inr) (p_Seek Q x q)"
  "p_At (sum_postings P Q) (Inl p) = p_At P p" "p_At (sum_postings P Q) (Inr q) = p_At Q q"
  "p_Err (sum_postings P Q) (Inl p) = p_Err P p" "p_Err (sum_postings P Q) (Inr q) = p_Err Q q"
  by (simp_all add: sum_postings_def on_tag_def)

lemma case_sum2: "case_sum f g p x = (case p of Inl a \<Rightarrow> f a x | Inr b \<Rightarrow> g b x)"
  by (cases p) simp_all

locale two_postings = P: postings P B liveP + Q: postings Q B liveQ
  for P :: "'p Postings" and B liveP and Q :: "'q Postings" and liveQ
begin

lemma sum_postings_ok: "postings (sum_postings P Q) B (case_sum liveP liveQ)"
proof
  fix p :: "'p + 'q" and c xs and x y :: uint64 and ys
  show "case_sum liveP liveQ p c xs \<Longrightarrow> sorted_wrt (<) (c # xs)"
    by (cases p) (auto dest: P.live_sorted Q.live_sorted)
  show "case_sum liveP liveQ p c xs \<Longrightarrow> y \<in> set (c # xs) \<Longrightarrow> y \<le> B"
    using P.live_le Q.live_le by (cases p) fastforce+
  show "case_sum liveP liveQ p c (x # xs) \<Longrightarrow> \<exists>p'. p_Next (sum_postings P Q) p = Some (True, p') \<and> case_sum liveP liveQ p' x xs \<and> p_At (sum_postings P Q) p' = x"
    using P.next_live Q.next_live by (cases p) fastforce+
  show "case_sum liveP liveQ p c [] \<Longrightarrow> \<exists>p'. p_Next (sum_postings P Q) p = Some (False, p') \<and> p_Err (sum_postings P Q) p' = None"
    using P.next_end Q.next_end by (cases p) fastforce+
  show "\<exists>p'. p_Seek (sum_postings P Q) x p = Some (True, p') \<and> case_sum liveP liveQ p' y ys \<and> p_At (sum_postings P Q) p' = y"
    if "case_sum liveP liveQ p c xs" "0 < x" "x \<le> B" "filter (\<lambda>y. x \<le> y) (c # xs) = y # ys"
  proof (cases p)
    case (Inl a) then show ?thesis using P.seek_live [of a c xs x y ys] that by fastforce
  next
    case (Inr b) then show ?thesis using Q.seek_live [of b c xs x y ys] that by fastforce
  qed
  show "\<exists>p'. p_Seek (sum_postings P Q) x p = Some (False, p') \<and> p_Err (sum_postings P Q) p' = None"
    if "case_sum liveP liveQ p c xs" "0 < x" "x \<le> B" "filter (\<lambda>y. x \<le> y) (c # xs) = []"
  proof (cases p)
    case (Inl a) then show ?thesis using P.seek_end [of a c xs x] that by fastforce
  next
    case (Inr b) then show ?thesis using Q.seek_end [of b c xs x] that by fastforce
  qed
  show "case_sum liveP liveQ p c xs \<Longrightarrow> p_Err (sum_postings P Q) p = None"
    by (cases p) (auto dest: P.live_err Q.live_err)
qed

end

locale two_resumable = P: resumable_postings P B liveP endedP + Q: resumable_postings Q B liveQ endedQ
  for P :: "'p Postings" and B liveP endedP and Q :: "'q Postings" and liveQ endedQ
begin

lemma sum_resumable: "resumable_postings (sum_postings P Q) B (case_sum liveP liveQ) (case_sum endedP endedQ)"
proof (intro resumable_postings.intro resumable_postings_axioms.intro)
  fix p p' :: "'p + 'q" and c and x :: uint64 and ok
  show "postings (sum_postings P Q) B (case_sum liveP liveQ)"
    by (intro two_postings.sum_postings_ok two_postings.intro P.postings_axioms Q.postings_axioms)
  show "case_sum liveP liveQ p c [] \<Longrightarrow> p_Next (sum_postings P Q) p = Some (ok, p') \<Longrightarrow> case_sum endedP endedQ p' c"
    by (cases p) (auto dest: P.ended_next Q.ended_next)
  show "case_sum endedP endedQ p c \<Longrightarrow> \<exists>p'. p_Next (sum_postings P Q) p = Some (False, p') \<and> case_sum endedP endedQ p' c"
    using P.next_ended Q.next_ended by (cases p) fastforce+
  show "\<exists>ok p'. p_Seek (sum_postings P Q) x p = Some (ok, p') \<and> p_Err (sum_postings P Q) p' = None \<and>
      (ok \<longrightarrow> x \<le> c \<and> p_At (sum_postings P Q) p' = c \<and> case_sum endedP endedQ p' c)"
    if h: "case_sum endedP endedQ p c" "0 < x" "x \<le> B"
  proof (cases p)
    case (Inl a)
    then obtain ok q where "p_Seek P x a = Some (ok, q)" "p_Err P q = None" "ok \<longrightarrow> x \<le> c \<and> p_At P q = c \<and> endedP q c"
      using P.seek_ended [of a c x] h by auto
    then show ?thesis using Inl by (intro exI [of _ ok] exI [of _ "Inl q"]) simp
  next
    case (Inr b)
    then obtain ok q where "p_Seek Q x b = Some (ok, q)" "p_Err Q q = None" "ok \<longrightarrow> x \<le> c \<and> p_At Q q = c \<and> endedQ q c"
      using Q.seek_ended [of b c x] h by auto
    then show ?thesis using Inr by (intro exI [of _ ok] exI [of _ "Inr q"]) simp
  qed
  show "case_sum endedP endedQ p c \<Longrightarrow> c \<le> B" by (cases p) (auto dest: P.ended_le Q.ended_le)
  show "case_sum endedP endedQ p c \<Longrightarrow> p_Err (sum_postings P Q) p = None" by (cases p) (auto dest: P.ended_err Q.ended_err)
qed

end

locale two_tame = P: tame_postings P B liveP endedP deadP + Q: tame_postings Q B liveQ endedQ deadQ
  for P :: "'p Postings" and B liveP endedP deadP and Q :: "'q Postings" and liveQ endedQ deadQ
begin

lemma sum_tame: "tame_postings (sum_postings P Q) B (case_sum liveP liveQ) (case_sum endedP endedQ) (case_sum deadP deadQ)"
proof (intro tame_postings.intro tame_postings_axioms.intro)
  fix p p' :: "'p + 'q" and c xs and x h :: uint64 and ok
  show "resumable_postings (sum_postings P Q) B (case_sum liveP liveQ) (case_sum endedP endedQ)"
    by (intro two_resumable.sum_resumable two_resumable.intro P.resumable_postings_axioms Q.resumable_postings_axioms)
  show "case_sum liveP liveQ p c xs \<Longrightarrow> 0 < x \<Longrightarrow> x \<le> B \<Longrightarrow> \<forall>y \<in> set (c # xs). y < x \<Longrightarrow>
      p_Seek (sum_postings P Q) x p = Some (ok, p') \<Longrightarrow> case_sum deadP deadQ p' x"
    using P.dead_seek Q.dead_seek by (cases p) fastforce+
  show "case_sum endedP endedQ p c \<Longrightarrow> c < h \<Longrightarrow> case_sum deadP deadQ p h"
    by (cases p) (auto intro: P.dead_ended Q.dead_ended)
  show "case_sum deadP deadQ p h \<Longrightarrow> \<exists>p'. p_Next (sum_postings P Q) p = Some (False, p') \<and> case_sum deadP deadQ p' h"
    using P.next_dead Q.next_dead by (cases p) fastforce+
  show "\<exists>ok p'. p_Seek (sum_postings P Q) x p = Some (ok, p') \<and> case_sum deadP deadQ p' h \<and>
      (ok \<longrightarrow> x \<le> p_At (sum_postings P Q) p' \<and> p_At (sum_postings P Q) p' < h \<and> p_At (sum_postings P Q) p' \<le> B)"
    if d: "case_sum deadP deadQ p h" "0 < x" "x \<le> B"
  proof (cases p)
    case (Inl a)
    then obtain ok q where "p_Seek P x a = Some (ok, q)" "deadP q h" "ok \<longrightarrow> x \<le> p_At P q \<and> p_At P q < h \<and> p_At P q \<le> B"
      using P.seek_dead [of a h x] d by auto
    then show ?thesis using Inl by (intro exI [of _ ok] exI [of _ "Inl q"]) simp
  next
    case (Inr b)
    then obtain ok q where "p_Seek Q x b = Some (ok, q)" "deadQ q h" "ok \<longrightarrow> x \<le> p_At Q q \<and> p_At Q q < h \<and> p_At Q q \<le> B"
      using Q.seek_dead [of b h x] d by auto
    then show ?thesis using Inr by (intro exI [of _ ok] exI [of _ "Inr q"]) simp
  qed
  show "case_sum deadP deadQ p h \<Longrightarrow> p_Err (sum_postings P Q) p = None" by (cases p) (auto dest: P.dead_err Q.dead_err)
qed

end

section \<open>Intersections and differences of lists\<close>

text \<open>An operand: the sentinel, a list, or another iterator \<open>M\<close> that does not occur here.\<close>

definition leaf_postings :: "'m Postings \<Rightarrow> (errPostings + listPostings + 'm) Postings" where
  "leaf_postings M = sum_postings err_postings (sum_postings list_postings M)"

lemma void_tame: "tame_postings M B (\<lambda>_ _ _. False) (\<lambda>_ _. False) (\<lambda>_ _. False)"
  by unfold_locales auto

abbreviation "leaf_live \<equiv> case_sum empty_live (case_sum list_live (\<lambda>_ _ _. False))"
abbreviation "leaf_ended \<equiv> case_sum empty_ended (case_sum list_ended (\<lambda>_ _. False))"
abbreviation "leaf_dead \<equiv> case_sum (\<lambda>p (h :: uint64). p = EmptyPostings) (case_sum list_dead (\<lambda>_ _. False))"

interpretation lm: two_tame list_postings "- 1" list_live list_ended list_dead M "\<lambda>_ _ _. False" "\<lambda>_ _. False" "\<lambda>_ _. False" for M :: "'m Postings"
  by (intro two_tame.intro void_tame lp.tame_postings_axioms)

interpretation lf: two_tame err_postings "- 1" empty_live empty_ended "\<lambda>p h. p = EmptyPostings" "sum_postings list_postings M"
  "case_sum list_live (\<lambda>_ _ _. False)" "case_sum list_ended (\<lambda>_ _. False)" "case_sum list_dead (\<lambda>_ _. False)" for M :: "'m Postings"
  by (intro two_tame.intro empty_tame lm.sum_tame)

interpretation leaf: tame_postings "leaf_postings M" "- 1" leaf_live leaf_ended leaf_dead for M :: "'m Postings"
  unfolding leaf_postings_def by (rule lf.sum_tame)

text \<open>What \<open>Intersect\<close> returns: an operand or an intersection.\<close>

definition conj_postings where
  "conj_postings M = sum_postings (leaf_postings M) (intersect_postings (leaf_postings M))"

abbreviation "conj_live \<equiv> case_sum leaf_live (inter_live leaf_live)"
abbreviation "conj_ended \<equiv> case_sum leaf_ended leaf.inter_ended"

interpretation cj: two_resumable "leaf_postings M" "- 1" leaf_live leaf_ended "intersect_postings (leaf_postings M)" "inter_live leaf_live" leaf.inter_ended for M :: "'m Postings"
  by (intro two_resumable.intro leaf.resumable_postings_axioms leaf.intersect_resumable)

interpretation conj: resumable_postings "conj_postings M" "- 1" conj_live conj_ended for M :: "'m Postings"
  unfolding conj_postings_def by (rule cj.sum_resumable)

interpretation cj_pair: two_postings "leaf_postings M" "- 1" leaf_live "intersect_postings (leaf_postings M)" "inter_live leaf_live" for M :: "'m Postings"
  by (intro two_postings.intro leaf.postings_axioms leaf.intersect_postings_ok)

text \<open>What \<open>Without\<close> returns for an intersection and a list.\<close>

interpretation diff: difference "conj_postings M" "- 1" conj_live conj_ended "leaf_postings M" leaf_live leaf_ended leaf_dead for M :: "'m Postings"
  by (intro difference.intro conj.resumable_postings_axioms leaf.tame_postings_axioms)

definition diff_postings where
  "diff_postings M = sum_postings (conj_postings M) (removed_postings (conj_postings M) (leaf_postings M))"

interpretation df: two_resumable "conj_postings M" "- 1" conj_live conj_ended "removed_postings (conj_postings M) (leaf_postings M)"
  "diff.removed_live M" "diff.removed_ended M" for M :: "'m Postings"
  by (intro two_resumable.intro conj.resumable_postings_axioms diff.removed_resumable)

interpretation without: resumable_postings "diff_postings M" "- 1" "case_sum conj_live (diff.removed_live M)" "case_sum conj_ended (diff.removed_ended M)" for M :: "'m Postings"
  unfolding diff_postings_def by (rule df.sum_resumable)

definition leaf_of :: "uint64 list \<Rightarrow> errPostings + listPostings + 'm" where
  "leaf_of xs = (if xs = [] then Inl EmptyPostings else Inr (Inl (NewListPostings xs)))"

definition refs :: "uint64 list \<Rightarrow> bool" where
  "refs xs \<longleftrightarrow> sorted_wrt (<) xs \<and> 0 \<notin> set xs"

definition common_refs :: "uint64 list list \<Rightarrow> uint64 list" where
  "common_refs xss = (case xss of [] \<Rightarrow> [] | xs # yss \<Rightarrow> filter (\<lambda>x. \<forall>ys \<in> set yss. x \<in> set ys) xs)"

lemma leaf_of_live: "refs xs \<Longrightarrow> leaf_live (leaf_of xs) 0 xs"
  by (auto simp: leaf_of_def empty_live_def list_live_def NewListPostings_def refs_def word_neq_0_conv [symmetric] intro: gr0I)

lemma Intersect_live:
  assumes "\<forall>xs \<in> set xss. refs xs"
  shows "conj_live (Intersect (Inl EmptyPostings) (map leaf_of xss)) 0 (common_refs xss)"
proof -
  consider "xss = []" | xs where "xss = [xs]" | "2 \<le> length xss" by (cases xss rule: remdups_adj.cases) auto
  then show ?thesis
  proof cases
    case 3
    show ?thesis
    proof (cases "[] \<in> set xss")
      case True
      then have "common_refs xss = []" using 3 by (cases xss) (auto simp: common_refs_def filter_empty_conv intro: bexI [of _ "[]"])
      moreover have "Inl EmptyPostings \<in> set (map leaf_of xss)" using True by (auto simp: leaf_of_def)
      ultimately show ?thesis using 3 by (auto simp: Intersect_def empty_live_def)
    next
      case False
      then have "Inl EmptyPostings \<notin> set (map leaf_of xss)" by (auto simp: leaf_of_def split: if_splits)
      moreover have "inter_live leaf_live (newIntersectPostings (map leaf_of xss)) 0 (common_refs xss)"
        unfolding inter_live_def
      proof (intro exI [of _ xss] conjI)
        show "list_all2 (\<lambda>p ys. leaf_live p 0 ys) (ip_postings (newIntersectPostings (map leaf_of xss))) xss"
          using assms by (auto simp: newIntersectPostings_def list_all2_map1 list.rel_refl_strong leaf_of_live)
        show "sorted_wrt (<) (0 # common_refs xss)" using assms 3
          by (cases xss) (auto simp: common_refs_def refs_def sorted_wrt_filter word_neq_0_conv [symmetric])
        show "set (common_refs xss) = \<Inter> (set ` set xss)" using 3 by (cases xss) (auto simp: common_refs_def)
      qed (use 3 in simp)
      ultimately show ?thesis using 3 by (auto simp: Intersect_def)
    qed
  qed (use assms leaf_of_live in \<open>auto simp: Intersect_def common_refs_def empty_live_def\<close>)
qed

lemma Without_live:
  assumes "conj_live full 0 xs" "refs ys"
  shows "case_sum conj_live (diff.removed_live M) (Without (Inl (Inl EmptyPostings)) (Inl EmptyPostings) full (leaf_of ys)) 0 (filter (\<lambda>x. x \<notin> set ys) xs)"
proof (cases "full = Inl (Inl EmptyPostings) \<or> ys = []")
  case True
  then show ?thesis using assms(1) by (auto simp: Without_def leaf_of_def empty_live_def)
next
  case False
  have "diff.removed_live M (newRemovedPostings full (leaf_of ys)) 0 (filter (\<lambda>x. x \<notin> set ys) xs)"
    using assms leaf_of_live [OF assms(2)] by (auto simp: diff.removed_live_def newRemovedPostings_def)
  then show ?thesis using False by (simp add: Without_def leaf_of_def)
qed

section \<open>Properties\<close>

text \<open>
  C22. Reading the iterator that \<open>Intersect\<close> returns for any number of postings lists to its end takes
  finitely many steps, fails with no error and gives the references that are in all of the lists, in
  their order. The lists are strictly increasing and hold no reference 0; an empty one is the sentinel.
\<close>

theorem intersect_expands:
  assumes "\<forall>xs \<in> set xss. refs xs"
  shows "ExpandPostings (conj_postings M) (Intersect (Inl EmptyPostings) (map leaf_of xss)) = Some (common_refs xss, None)"
  by (rule conj.expand [OF Intersect_live [OF assms]])

theorem intersect_expands_witness:
  "ExpandPostings (conj_postings err_postings) (Intersect (Inl EmptyPostings) (map leaf_of [[1, 3, 5, 9], [3, 4, 9], [2, 3, 9]])) = Some ([3, 9], None)"
proof -
  have "\<forall>xs \<in> set [[1, 3, 5, 9], [3, 4, 9], [2, 3, 9]]. refs xs" by (simp add: refs_def)
  from intersect_expands [OF this] show ?thesis by (simp add: common_refs_def)
qed

text \<open>
  C21. A client that calls \<open>Next\<close> and \<open>Seek\<close> in any order on \<open>Without(Intersect(lists), list)\<close> sees what it would see
  on a plain list of the references that are in all of the first lists and not in the second. The
  sentinel stands for an empty list; targets are positive.
\<close>

theorem without_refines_list:
  assumes "\<forall>xs \<in> set xss. refs xs" "refs ys" "valid_calls (- 1) ops"
  shows "run_calls (diff_postings M) ops
      (Without (Inl (Inl EmptyPostings)) (Inl EmptyPostings) (Intersect (Inl EmptyPostings) (map leaf_of xss)) (leaf_of ys)) =
    run_calls list_postings ops (NewListPostings (filter (\<lambda>x. x \<notin> set ys) (common_refs xss)))"
proof -
  note w = Without_live [OF Intersect_live [OF assms(1)] assms(2)]
  have "list_live (NewListPostings (filter (\<lambda>x. x \<notin> set ys) (common_refs xss))) 0 (filter (\<lambda>x. x \<notin> set ys) (common_refs xss))"
    using without.live_sorted [OF w] by (simp add: list_live_def NewListPostings_def)
  from lp.run [OF this assms(3)] without.run [OF w assms(3)] show ?thesis by simp
qed

theorem without_refines_list_witness:
  "run_calls (diff_postings err_postings) [CallSeek 2, CallNext, CallSeek 6, CallNext]
      (Without (Inl (Inl EmptyPostings)) (Inl EmptyPostings) (Intersect (Inl EmptyPostings) (map leaf_of [[1, 3, 5, 7, 9], [1, 3, 5, 6, 7, 9]])) (leaf_of [5, 6, 8])) =
    Some [3, 7, 7, 9]"
proof -
  have "\<forall>xs \<in> set [[1, 3, 5, 7, 9], [1, 3, 5, 6, 7, 9]]. refs xs" "refs [5, 6, 8]" "valid_calls (- 1) [CallSeek 2, CallNext, CallSeek 6, CallNext]"
    by (simp_all add: refs_def valid_calls_def)
  from without_refines_list [OF this] show ?thesis
    by (simp add: common_refs_def list_postings_def NewListPostings_def list_Next_def list_Seek_def BinarySearch_def Search_def Search_loop.simps)
qed

text \<open>
  The iterator over big-endian bytes behaves, for every sequence of calls with targets below 2^32,
  as the iterator over the list of the numbers those bytes hold.
\<close>

theorem big_endian_refines_list:
  assumes "refs (map wide vs)" "valid_calls 0xffffffff ops"
  shows "run_calls be_postings ops (newBigEndianPostings (be_bytes vs)) = run_calls list_postings ops (NewListPostings (map wide vs))"
proof -
  have s: "sorted_wrt (<) (0 # map wide vs)" using assms(1) by (auto simp: refs_def word_neq_0_conv [symmetric])
  have "be_live (newBigEndianPostings (be_bytes vs)) 0 (map wide vs)" using s by (auto simp: be_live_def newBigEndianPostings_def)
  moreover have "list_live (NewListPostings (map wide vs)) 0 (map wide vs)" using s by (simp add: list_live_def NewListPostings_def)
  moreover have "valid_calls (- 1) ops" using assms(2) by (auto simp: valid_calls_def)
  ultimately show ?thesis using bp.run [OF _ assms(2)] lp.run by metis
qed

text \<open>
  Seeking above the 32-bit range on the big-endian iterator compares only the low 32 bits of the
  target: the call succeeds and leaves the iterator at a reference below the target, where the
  interface promises one that is not.
\<close>

theorem big_endian_seek_truncates:
  assumes "be_list it = be_bytes (v # vs)" "sorted_wrt (<) (v # vs)" "0xffffffff < x" "ucast x \<le> v"
  shows "be_Seek x it = Some (True, it\<lparr>be_cur := v, be_list := be_bytes vs\<rparr>) \<and> p_At be_postings (it\<lparr>be_cur := v\<rparr>) < x"
proof
  have big: "wide w < x" for w using wide_bound [of w] assms(3) by simp
  have at: "Uint32 (drop (4 * i) (PutUint32 v @ be_bytes vs)) = Some ((v # vs) ! i)" if "i < Suc (length vs)" for i
    using Uint32_be_bytes [of i "v # vs"] that by simp
  have "Search (Suc (length vs)) (\<lambda>i. ucast x \<le> the (Uint32 (drop (i * 4) (PutUint32 v @ be_bytes vs)))) = 0"
  proof (rule Search_eqI)
    fix i assume i: "i < Suc (length vs)"
    have "(v # vs) ! i \<in> set (v # vs)" using i by (intro nth_mem) simp
    then have "v \<le> (v # vs) ! i" using assms(2) by auto
    then show "ucast x \<le> the (Uint32 (drop (i * 4) (PutUint32 v @ be_bytes vs)))" using at [OF i] assms(4) by (simp add: mult.commute)
  qed simp_all
  then show "be_Seek x it = Some (True, it\<lparr>be_cur := v, be_list := be_bytes vs\<rparr>)"
    using assms(1) big [of "be_cur it"] at [of 0] by (simp add: be_Seek_def Let_def not_le)
  show "p_At be_postings (it\<lparr>be_cur := v\<rparr>) < x" using big by (simp add: be_no_err)
qed

end
