(* ===== verification/MemPostings.thy ===== *)
theory MemPostings
  imports WalRecord Postings "HOL-Library.AList" "HOL-Library.Multiset" "HOL-Library.List_Lexorder" "HOL-Library.Product_Lexorder"
begin

text \<open>
  The in-memory index from labels to series (\<open>MemPostings\<close> of \<open>tsdb/index/postings.go\<close>). A Go map is an
  association list with distinct keys; the order in which a \<open>range\<close> loop visits its keys is arbitrary,
  so it is an argument: either the list of keys itself or a function \<open>ord\<close> that permutes keys. A label name
  or value is its bytes.
\<close>

type_synonym go_string = "byte list"

record MemPostings =
  mp_m :: "(go_string \<times> (go_string \<times> uint64 list) list) list"
  mp_lvs :: "(go_string \<times> go_string list) list"
  mp_ordered :: bool

definition allPostingsKey :: Label where
  "allPostingsKey = \<lparr>Name = [], Value = []\<rparr>"

definition NewMemPostings :: MemPostings where
  "NewMemPostings = \<lparr>mp_m = [], mp_lvs = [], mp_ordered = True\<rparr>"

definition NewUnorderedMemPostings :: MemPostings where
  "NewUnorderedMemPostings = \<lparr>mp_m = [], mp_lvs = [], mp_ordered = False\<rparr>"

text \<open>Reading a missing key gives the zero value: a nil map or a nil slice.\<close>

definition map_at :: "('k \<times> 'v list) list \<Rightarrow> 'k \<Rightarrow> 'v list" where
  "map_at m k = (case map_of m k of None \<Rightarrow> [] | Some v \<Rightarrow> v)"

section \<open>Adding series\<close>

definition appendWithExponentialGrowth :: "'a list \<Rightarrow> 'a \<Rightarrow> 'a list" where
  "appendWithExponentialGrowth a v = a @ [v]"

text \<open>The loop of \<open>addFor\<close>, which moves the last reference down to its place; \<open>i\<close> is its position.\<close>

fun repair_order :: "nat \<Rightarrow> uint64 list \<Rightarrow> uint64 list" where
  "repair_order 0 xs = xs"
| "repair_order (Suc i) xs =
     (if xs ! i \<le> xs ! Suc i then xs else repair_order i (xs[Suc i := xs ! i, i := xs ! Suc i]))"

definition addFor :: "uint64 \<Rightarrow> Label \<Rightarrow> MemPostings \<Rightarrow> MemPostings" where
  "addFor i l p =
     (let nm = map_at (mp_m p) (Name l);
          lvs = (if map_of nm (Value l) = None
                 then AList.update (Name l) (appendWithExponentialGrowth (map_at (mp_lvs p) (Name l)) (Value l)) (mp_lvs p)
                 else mp_lvs p);
          xs = appendWithExponentialGrowth (map_at nm (Value l)) i;
          xs = (if mp_ordered p then repair_order (length xs - 1) xs else xs)
      in p\<lparr>mp_m := AList.update (Name l) (AList.update (Value l) xs nm) (mp_m p), mp_lvs := lvs\<rparr>)"

definition Add :: "uint64 \<Rightarrow> Label list \<Rightarrow> MemPostings \<Rightarrow> MemPostings" where
  "Add i lset p = addFor i allPostingsKey (fold (addFor i) lset p)"

text \<open>The workers sort the lists in place, each list in one job.\<close>

definition EnsureOrder :: "MemPostings \<Rightarrow> MemPostings" where
  "EnsureOrder p =
     (if mp_ordered p then p
      else p\<lparr>mp_m := map (\<lambda>(n, e). (n, map (\<lambda>(v, xs). (v, sort xs)) e)) (mp_m p), mp_ordered := True\<rparr>)"

section \<open>Deleting series\<close>

text \<open>
  \<open>Delete\<close> gives up the lock from time to time. What other goroutines do meanwhile is an argument: the list
  of the series they add, one list for every pause to come.
\<close>

type_synonym adds = "(uint64 \<times> Label list) list"

fun unlockWaitAndLockAgain :: "MemPostings \<times> adds list \<Rightarrow> MemPostings \<times> adds list" where
  "unlockWaitAndLockAgain (p, []) = (p, [])"
| "unlockWaitAndLockAgain (p, as # pauses) = (fold (\<lambda>(i, lset). Add i lset) as p, pauses)"

definition process :: "uint64 list \<Rightarrow> Label \<Rightarrow> MemPostings \<times> go_string list \<Rightarrow> MemPostings \<times> go_string list" where
  "process deleted l = (\<lambda>(p, names).
     let orig = map_at (map_at (mp_m p) (Name l)) (Value l);
         repl = filter (\<lambda>i. i \<notin> set deleted) orig
     in if repl \<noteq> []
        then (p\<lparr>mp_m := AList.update (Name l) (AList.update (Value l) repl (map_at (mp_m p) (Name l))) (mp_m p)\<rparr>, names)
        else (p\<lparr>mp_m := AList.map_entry (Name l) (AList.delete (Value l)) (mp_m p)\<rparr>, List.insert (Name l) names))"

text \<open>The loop over the affected labels; \<open>i\<close> counts them.\<close>

fun process_all :: "uint64 list \<Rightarrow> nat \<Rightarrow> Label list \<Rightarrow> MemPostings \<times> go_string list \<times> adds list \<Rightarrow> MemPostings \<times> go_string list \<times> adds list" where
  "process_all deleted i [] st = st"
| "process_all deleted i (l # ls) (p, names, pauses) =
     (let (p, names) = process deleted l (p, names);
          (p, pauses) = (if Suc i mod 512 = 0 then unlockWaitAndLockAgain (p, pauses) else (p, pauses))
      in process_all deleted (Suc i) ls (p, names, pauses))"

text \<open>Rebuilding the values of one label name.\<close>

definition update_values :: "(go_string list \<Rightarrow> go_string list) \<Rightarrow> go_string \<Rightarrow> MemPostings \<Rightarrow> MemPostings" where
  "update_values ord name p =
     (if map_at (mp_m p) name = [] then p\<lparr>mp_m := AList.delete name (mp_m p), mp_lvs := AList.delete name (mp_lvs p)\<rparr>
      else p\<lparr>mp_lvs := AList.update name (ord (map fst (map_at (mp_m p) name))) (mp_lvs p)\<rparr>)"

fun update_all :: "(go_string list \<Rightarrow> go_string list) \<Rightarrow> nat \<Rightarrow> go_string list \<Rightarrow> MemPostings \<times> adds list \<Rightarrow> MemPostings \<times> adds list" where
  "update_all ord i [] st = st"
| "update_all ord i (name # names) st =
     (let (p, pauses) = (if Suc i mod 512 = 0 then unlockWaitAndLockAgain st else st)
      in update_all ord (Suc i) names (update_values ord name p, pauses))"

definition Delete :: "(go_string list \<Rightarrow> go_string list) \<Rightarrow> uint64 list \<Rightarrow> Label list \<Rightarrow> MemPostings \<times> adds list \<Rightarrow> MemPostings \<times> adds list" where
  "Delete ord deleted affected = (\<lambda>(p, pauses).
     let (p, names, pauses) = process_all deleted 0 affected (p, [], pauses);
         (p, names) = process deleted allPostingsKey (p, names)
     in update_all ord 0 (ord names) (p, pauses))"

section \<open>Reading\<close>

definition Symbols :: "MemPostings \<Rightarrow> go_string list" where
  "Symbols p = sort (remdups (concat (map (\<lambda>(n, vs). n # vs) (mp_lvs p))))"

definition SortedKeys :: "MemPostings \<Rightarrow> Label list" where
  "SortedKeys p = map (\<lambda>(n, v). \<lparr>Name = n, Value = v\<rparr>) (sort (concat (map (\<lambda>(n, e). map (\<lambda>(v, _). (n, v)) e) (mp_m p))))"

definition LabelNames :: "(go_string list \<Rightarrow> go_string list) \<Rightarrow> MemPostings \<Rightarrow> go_string list" where
  "LabelNames ord p = filter (\<lambda>n. n \<noteq> Name allPostingsKey) (ord (map fst (mp_m p)))"

text \<open>\<open>limit\<close> is the limit of the hints; without hints it is 0.\<close>

definition LabelValues :: "go_string \<Rightarrow> int \<Rightarrow> MemPostings \<Rightarrow> go_string list" where
  "LabelValues name limit p =
     (let values = map_at (mp_lvs p) name in if 0 < limit \<and> limit < int (length values) then take (nat limit) values else values)"

text \<open>\<open>Iter\<close> calls \<open>f\<close>, which may change a state, until it returns an error.\<close>

fun Iter_loop :: "(Label \<Rightarrow> listPostings \<Rightarrow> 's \<Rightarrow> go_error option \<times> 's) \<Rightarrow> (Label \<times> uint64 list) list \<Rightarrow> 's \<Rightarrow> go_error option \<times> 's" where
  "Iter_loop f [] s = (None, s)"
| "Iter_loop f ((l, xs) # rest) s =
     (case f l (NewListPostings xs) s of (Some err, s) \<Rightarrow> (Some err, s) | (None, s) \<Rightarrow> Iter_loop f rest s)"

definition Iter ::
  "(Label \<Rightarrow> listPostings \<Rightarrow> 's \<Rightarrow> go_error option \<times> 's) \<Rightarrow> (go_string list \<Rightarrow> go_string list) \<Rightarrow> MemPostings \<Rightarrow> 's \<Rightarrow> go_error option \<times> 's" where
  "Iter f ord p =
     Iter_loop f (concat (map (\<lambda>n. map (\<lambda>v. (\<lparr>Name = n, Value = v\<rparr>, map_at (map_at (mp_m p) n) v)) (ord (map fst (map_at (mp_m p) n))))
       (ord (map fst (mp_m p)))))"

text \<open>
  \<open>Merge\<close> returns the sentinel, its only operand, or the iterator \<open>merged\<close> over the third-party loser tree,
  which is a parameter.
\<close>

definition Merge :: "('p list \<Rightarrow> 'm) \<Rightarrow> 'p list \<Rightarrow> errPostings + 'p + 'm" where
  "Merge merged its =
     (if its = [] then Inl EmptyPostings else if length its = 1 then Inr (Inl (hd its)) else Inr (Inr (merged its)))"

definition MemPostings_Postings ::
  "(listPostings list \<Rightarrow> 'm) \<Rightarrow> go_string \<Rightarrow> go_string list \<Rightarrow> MemPostings \<Rightarrow> errPostings + listPostings + 'm" where
  "MemPostings_Postings merged name values p =
     (let e = map_at (mp_m p) name
      in Merge merged (map (\<lambda>v. NewListPostings (map_at e v)) (filter (\<lambda>v. map_at e v \<noteq> []) values)))"

definition MemPostings_All :: "(listPostings list \<Rightarrow> 'm) \<Rightarrow> MemPostings \<Rightarrow> errPostings + listPostings + 'm" where
  "MemPostings_All merged p = MemPostings_Postings merged (Name allPostingsKey) [Value allPostingsKey] p"

definition PostingsForAllLabelValues ::
  "(listPostings list \<Rightarrow> 'm) \<Rightarrow> (go_string list \<Rightarrow> go_string list) \<Rightarrow> go_string \<Rightarrow> MemPostings \<Rightarrow> errPostings + listPostings + 'm" where
  "PostingsForAllLabelValues merged ord name p =
     (let e = map_at (mp_m p) name
      in Merge merged (map (\<lambda>v. NewListPostings (map_at e v)) (filter (\<lambda>v. 0 < length (map_at e v)) (ord (map fst e)))))"

text \<open>The values that match; \<open>ctx i\<close> is the error of the context when value \<open>i\<close> is looked at.\<close>

definition checkContextEveryNIterations :: nat where
  "checkContextEveryNIterations = 128"

fun match_values :: "(nat \<Rightarrow> go_error option) \<Rightarrow> (go_string \<Rightarrow> bool) \<Rightarrow> nat \<Rightarrow> go_string list \<Rightarrow> go_error + go_string list" where
  "match_values ctx match i [] = Inr []"
| "match_values ctx match i (v # vs) =
     (case (if i mod checkContextEveryNIterations = 0 then ctx i else None) of
        Some err \<Rightarrow> Inl err
      | None \<Rightarrow> map_sum id (\<lambda>vals. if match v then v # vals else vals) (match_values ctx match (Suc i) vs))"

text \<open>The lock is free while the values are matched: \<open>p\<close> is the index before that and \<open>p'\<close> the one after it.\<close>

definition PostingsForLabelMatching ::
  "(listPostings list \<Rightarrow> 'm) \<Rightarrow> (nat \<Rightarrow> go_error option) \<Rightarrow> go_string \<Rightarrow> (go_string \<Rightarrow> bool) \<Rightarrow> MemPostings \<Rightarrow> MemPostings \<Rightarrow>
   errPostings + listPostings + 'm" where
  "PostingsForLabelMatching merged ctx name match p p' =
     (case match_values ctx match 0 (map_at (mp_lvs p) name) of
        Inl err \<Rightarrow> Inl (ErrPostings err)
      | Inr vals \<Rightarrow>
          if vals = [] then Inl EmptyPostings
          else let e = map_at (mp_m p') name
               in Merge merged (map (\<lambda>v. NewListPostings (map_at e v)) (filter (\<lambda>v. map_of e v \<noteq> None) vals)))"

end
