(* ===== verification/MemPostingsCorrect.thy ===== *)
theory MemPostingsCorrect
  imports MemPostings
begin

text \<open>
  The index \<open>MemPostings\<close>: every operation keeps the label values in step with the postings lists and the
  lists sorted, also when series are added while a deletion has given up its lock.
\<close>

section \<open>Maps\<close>

lemma map_at_simps [simp]:
  "map_at (AList.update k v m) k' = (if k' = k then v else map_at m k')"
  "map_at (AList.delete k m) k' = (if k' = k then [] else map_at m k')"
  "map_at [] k = []"
  by (simp_all add: map_at_def AList.update_conv' AList.delete_conv')

lemma map_at_entry: "f [] = [] \<Longrightarrow> map_at (AList.map_entry k f m) k' = (if k' = k then f (map_at m k) else map_at m k')"
  by (simp add: map_at_def AList.map_of_map_entry split: option.splits)

lemma map_at_Some: "map_of m k = Some v \<Longrightarrow> map_at m k = v"
  by (simp add: map_at_def)

lemma map_at_None: "map_of m k = None \<Longrightarrow> map_at m k = []"
  by (simp add: map_at_def)

lemma map_at_key: "map_at m k \<noteq> [] \<Longrightarrow> map_of m k \<noteq> None"
  by (cases "map_of m k") (simp_all add: map_at_def)

definition refs_of :: "MemPostings \<Rightarrow> go_string \<Rightarrow> go_string \<Rightarrow> uint64 list" where
  "refs_of p n v = map_at (map_at (mp_m p) n) v"

section \<open>The place of a new reference\<close>

lemma insort_above:
  assumes "sorted xs" "\<forall>y \<in> set xs. y \<le> (x :: uint64)"
  shows "insort x xs = xs @ [x]"
proof -
  have "sort (xs @ [x]) = insort x xs" by (rule properties_for_sort) (use assms in \<open>simp_all add: sorted_insort\<close>)
  moreover have "sort (xs @ [x]) = xs @ [x]" by (rule properties_for_sort) (use assms in \<open>simp_all add: sorted_append\<close>)
  ultimately show ?thesis by simp
qed

lemma insort_below: "(x :: uint64) < y \<Longrightarrow> insort x (xs @ [y]) = insort x xs @ [y]"
  by (induction xs) auto

lemma repair_order_insort: "sorted xs \<Longrightarrow> repair_order (length xs) (xs @ x # ys) = insort x xs @ ys"
proof (induction xs arbitrary: ys rule: rev_induct)
  case (snoc y xs)
  have s: "sorted xs" "\<forall>z \<in> set xs. z \<le> y" using snoc.prems by (auto simp: sorted_append)
  show ?case
  proof (cases "y \<le> x")
    case True
    then have "insort x (xs @ [y]) = xs @ [y, x]" using s(2) snoc.prems insort_above [of "xs @ [y]" x] by (auto intro: order_trans)
    then show ?thesis using True by (simp add: nth_append)
  next
    case False
    have "(xs @ y # x # ys)[Suc (length xs) := y, length xs := x] = xs @ x # y # ys" by (simp add: list_update_append)
    then show ?thesis using False snoc.IH [OF s(1), of "y # ys"] insort_below [of x y xs] by (simp add: nth_append not_le)
  qed
qed simp

section \<open>The invariant\<close>

definition shape :: "MemPostings \<Rightarrow> bool" where
  "shape p \<longleftrightarrow> distinct (map fst (mp_m p)) \<and> distinct (map fst (mp_lvs p)) \<and> (\<forall>n. distinct (map fst (map_at (mp_m p) n))) \<and>
     (\<forall>n v. map_of (map_at (mp_m p) n) v \<noteq> Some [] \<and> (mp_ordered p \<longrightarrow> sorted (refs_of p n v)))"

definition indexed :: "go_string \<Rightarrow> MemPostings \<Rightarrow> bool" where
  "indexed n p \<longleftrightarrow> (map_of (mp_m p) n = None \<longleftrightarrow> map_of (mp_lvs p) n = None) \<and> map_of (mp_m p) n \<noteq> Some [] \<and>
     distinct (map_at (mp_lvs p) n) \<and> set (map_at (mp_lvs p) n) = fst ` set (map_at (mp_m p) n)"

definition mem_ok :: "MemPostings \<Rightarrow> bool" where
  "mem_ok p \<longleftrightarrow> shape p \<and> (\<forall>n. indexed n p)"

lemmas map_facts = AList.update_conv' AList.delete_conv' AList.map_of_map_entry AList.distinct_update AList.distinct_delete AList.distinct_map_entry
  AList.dom_update AList.dom_map_entry AList.delete_keys

declare map_of_eq_Some_iff [simp del] Some_eq_map_of_iff [simp del]

lemma shape_sorted: "shape p \<Longrightarrow> mp_ordered p \<Longrightarrow> sorted (refs_of p n v)"
  by (simp add: shape_def)

lemma shape_refs:
  assumes "shape p"
  shows "v \<in> fst ` set (map_at (mp_m p) n) \<longleftrightarrow> refs_of p n v \<noteq> []"
proof -
  have "map_of (map_at (mp_m p) n) v \<noteq> Some []" using assms by (simp add: shape_def)
  then show ?thesis using map_of_eq_None_iff [of "map_at (mp_m p) n" v]
    by (cases "map_of (map_at (mp_m p) n) v") (auto simp: refs_of_def map_at_None map_at_Some)
qed

lemma mem_ok_new: "mem_ok NewMemPostings" "mem_ok NewUnorderedMemPostings"
  by (simp_all add: mem_ok_def shape_def indexed_def refs_of_def NewMemPostings_def NewUnorderedMemPostings_def)

subsection \<open>Adding\<close>

lemma addFor_ordered [simp]: "mp_ordered (addFor i l p) = mp_ordered p"
  by (simp add: addFor_def Let_def)

lemma addFor_list:
  assumes "shape p"
  shows "mp_m (addFor i l p) = AList.update (Name l) (AList.update (Value l)
      (if mp_ordered p then insort i (refs_of p (Name l) (Value l)) else refs_of p (Name l) (Value l) @ [i]) (map_at (mp_m p) (Name l))) (mp_m p)"
  using repair_order_insort [OF shape_sorted [OF assms], of "Name l" "Value l" i "[]"]
  by (simp add: addFor_def Let_def appendWithExponentialGrowth_def refs_of_def)

lemma refs_of_addFor:
  assumes "shape p"
  shows "refs_of (addFor i l p) n v =
    (if n = Name l \<and> v = Value l then (if mp_ordered p then insort i (refs_of p n v) else refs_of p n v @ [i]) else refs_of p n v)"
  unfolding refs_of_def [of "addFor i l p"] addFor_list [OF assms] by (auto simp: refs_of_def)

lemma addFor_lvs:
  "mp_lvs (addFor i l p) = (if map_of (map_at (mp_m p) (Name l)) (Value l) = None
     then AList.update (Name l) (map_at (mp_lvs p) (Name l) @ [Value l]) (mp_lvs p) else mp_lvs p)"
  by (simp add: addFor_def Let_def appendWithExponentialGrowth_def)

lemma addFor_shape:
  assumes "shape p"
  shows "shape (addFor i l p)"
proof -
  have "insort i xs \<noteq> []" for xs :: "uint64 list" by (cases xs) auto
  then have "map_of (map_at (mp_m (addFor i l p)) n) v \<noteq> Some []" for n v
    using assms by (auto simp: addFor_list shape_def map_facts)
  moreover have "sorted (refs_of (addFor i l p) n v)" if "mp_ordered p" for n v
    using shape_sorted [OF assms that] that by (simp add: refs_of_addFor [OF assms] sorted_insort)
  ultimately show ?thesis using assms unfolding shape_def addFor_list [OF assms] addFor_lvs by (auto simp: map_facts)
qed

lemma addFor_indexed:
  assumes "shape p" "indexed n p"
  shows "indexed n (addFor i l p)"
proof (cases "n = Name l")
  case True
  note m = addFor_list [OF assms(1), of i l]
  show ?thesis
  proof (cases "map_of (map_at (mp_m p) n) (Value l)")
    case None
    then have "Value l \<notin> set (map_at (mp_lvs p) n)" using assms(2) by (simp add: indexed_def map_of_eq_None_iff)
    then show ?thesis using None True assms(2) unfolding indexed_def m addFor_lvs by (simp add: map_facts)
  next
    case (Some xs)
    then have "map_of (mp_m p) n \<noteq> None" by (cases "map_of (mp_m p) n") (simp_all add: map_at_None)
    moreover have "Value l \<in> fst ` set (map_at (mp_m p) n)" using Some by (auto dest: map_of_SomeD intro: rev_image_eqI)
    ultimately show ?thesis using Some True assms(2) unfolding indexed_def m addFor_lvs by (auto simp: map_facts)
  qed
next
  case False
  then show ?thesis using assms(2) unfolding indexed_def addFor_list [OF assms(1)] addFor_lvs by (simp add: map_facts)
qed

lemma addFor_ok: "mem_ok p \<Longrightarrow> mem_ok (addFor i l p)"
  by (simp add: mem_ok_def addFor_shape addFor_indexed)

lemma fold_inv: "P s \<Longrightarrow> (\<And>x s. P s \<Longrightarrow> P (f x s)) \<Longrightarrow> P (fold f xs s)"
  by (induction xs arbitrary: s) simp_all

lemma Add_shape: "shape p \<Longrightarrow> shape (Add i ls p)"
  unfolding Add_def by (intro addFor_shape fold_inv [of shape])

lemma Add_indexed: "shape p \<Longrightarrow> indexed n p \<Longrightarrow> indexed n (Add i ls p)"
  unfolding Add_def using fold_inv [of "\<lambda>p. shape p \<and> indexed n p" p "addFor i" ls] by (simp add: addFor_shape addFor_indexed)

lemma Add_ordered [simp]: "mp_ordered (Add i ls p) = mp_ordered p"
  unfolding Add_def using fold_inv [of "\<lambda>q. mp_ordered q = mp_ordered p" p "addFor i" ls] by simp

text \<open>How often a series has a label, the one of all series included.\<close>

definition has_label :: "Label list \<Rightarrow> go_string \<Rightarrow> go_string \<Rightarrow> nat" where
  "has_label ls n v = length (filter (\<lambda>l. Name l = n \<and> Value l = v) (ls @ [allPostingsKey]))"

definition added :: "adds \<Rightarrow> go_string \<Rightarrow> go_string \<Rightarrow> uint64 multiset" where
  "added as n v = (\<Sum>(i, ls) \<leftarrow> as. replicate_mset (has_label ls n v) i)"

lemma added_simps [simp]:
  "added [] n v = {#}" "added ((i, ls) # as) n v = replicate_mset (has_label ls n v) i + added as n v" "added (as @ bs) n v = added as n v + added bs n v"
  by (simp_all add: added_def)

lemma set_added: "set_mset (added as n v) \<subseteq> fst ` set as"
  by (induction as) (auto split: if_splits)

lemma mset_addFor: "shape p \<Longrightarrow> mset (refs_of (addFor i l p) n v) = mset (refs_of p n v) + (if Name l = n \<and> Value l = v then {#i#} else {#})"
  by (auto simp: refs_of_addFor)

lemma mset_fold_addFor:
  "shape p \<Longrightarrow> mset (refs_of (fold (addFor i) ls p) n v) = mset (refs_of p n v) + replicate_mset (length (filter (\<lambda>l. Name l = n \<and> Value l = v) ls)) i"
  by (induction ls arbitrary: p) (simp_all add: addFor_shape mset_addFor)

lemma mset_Add: "shape p \<Longrightarrow> mset (refs_of (Add i ls p) n v) = mset (refs_of p n v) + replicate_mset (has_label ls n v) i"
  unfolding Add_def by (simp add: mset_addFor mset_fold_addFor fold_inv [of shape] addFor_shape has_label_def)

definition add_all :: "adds \<Rightarrow> MemPostings \<Rightarrow> MemPostings" where
  "add_all as = fold (\<lambda>(i, ls). Add i ls) as"

lemma add_all_simps [simp]: "add_all [] p = p" "add_all ((i, ls) # as) p = add_all as (Add i ls p)"
  by (simp_all add: add_all_def)

lemma add_all_facts:
  assumes "shape p"
  shows "shape (add_all as p)" "indexed n p \<Longrightarrow> indexed n (add_all as p)" "mp_ordered (add_all as p) = mp_ordered p"
    "mset (refs_of (add_all as p) n v) = mset (refs_of p n v) + added as n v"
  using assms by (induction as arbitrary: p) (auto simp: Add_shape Add_indexed mset_Add)

subsection \<open>Deleting\<close>

text \<open>
  What a part of a deletion does to the lists: \<open>ls\<close> are the labels it has processed and \<open>as\<close> the series added
  meanwhile.
\<close>

definition survivors :: "uint64 list \<Rightarrow> Label list \<Rightarrow> go_string \<Rightarrow> go_string \<Rightarrow> uint64 multiset \<Rightarrow> uint64 multiset" where
  "survivors deleted ls n v M = (if \<lparr>Name = n, Value = v\<rparr> \<in> set ls then filter_mset (\<lambda>i. i \<notin> set deleted) M else M)"

definition deletes :: "uint64 list \<Rightarrow> Label list \<Rightarrow> adds \<Rightarrow> MemPostings \<Rightarrow> MemPostings \<Rightarrow> bool" where
  "deletes deleted ls as p p' \<longleftrightarrow> shape p' \<and> mp_ordered p' = mp_ordered p \<and>
     (\<forall>n v. mset (refs_of p' n v) = survivors deleted ls n v (mset (refs_of p n v)) + added as n v)"

lemma survivors_added: "fst ` set as \<inter> set deleted = {} \<Longrightarrow> survivors deleted ls n v (M + added as n v) = survivors deleted ls n v M + added as n v"
  using set_added [of as n v] by (auto simp: survivors_def filter_mset_eq_conv)

lemma deletes_trans:
  assumes "deletes deleted ls as p q" "deletes deleted ls' as' q r" "fst ` set as \<inter> set deleted = {}"
  shows "deletes deleted (ls @ ls') (as @ as') p r"
proof -
  have "survivors deleted ls' n v (survivors deleted ls n v M) = survivors deleted (ls @ ls') n v M" for n v M
    by (simp add: survivors_def filter_filter_mset)
  then show ?thesis using assms(1,2) by (simp add: deletes_def survivors_added [OF assms(3)] add.assoc)
qed

lemma deletes_add_all: "shape p \<Longrightarrow> deletes deleted [] as p (add_all as p)"
  by (simp add: deletes_def survivors_def add_all_facts)

lemma unlock_add_all:
  obtains as where "unlockWaitAndLockAgain (p, pauses) = (add_all as p, drop 1 pauses)" "as = concat (take 1 pauses)"
  by (cases pauses) (simp_all add: add_all_def)

lemma process_cases:
  obtains (keep) "filter (\<lambda>i. i \<notin> set deleted) (refs_of p (Name l) (Value l)) \<noteq> []"
      "process deleted l (p, names) = (p\<lparr>mp_m := AList.update (Name l) (AList.update (Value l)
         (filter (\<lambda>i. i \<notin> set deleted) (refs_of p (Name l) (Value l))) (map_at (mp_m p) (Name l))) (mp_m p)\<rparr>, names)"
  | (drop) "filter (\<lambda>i. i \<notin> set deleted) (refs_of p (Name l) (Value l)) = []"
      "process deleted l (p, names) = (p\<lparr>mp_m := AList.map_entry (Name l) (AList.delete (Value l)) (mp_m p)\<rparr>, List.insert (Name l) names)"
  by (cases "filter (\<lambda>i. i \<notin> set deleted) (refs_of p (Name l) (Value l)) = []") (auto simp: process_def Let_def refs_of_def)

lemma refs_of_process:
  assumes "process deleted l (p, names) = (p', names')"
  shows "refs_of p' n v = (if n = Name l \<and> v = Value l then filter (\<lambda>i. i \<notin> set deleted) (refs_of p n v) else refs_of p n v)"
  by (cases rule: process_cases [of deleted p l names]) (use assms in \<open>auto simp: refs_of_def map_at_entry\<close>)

lemma process_ordered: "process deleted l (p, names) = (p', names') \<Longrightarrow> mp_ordered p' = mp_ordered p"
  by (auto simp: process_def Let_def split: if_splits)

lemma process_shape:
  assumes "process deleted l (p, names) = (p', names')" "shape p"
  shows "shape p'"
proof -
  have "sorted (refs_of p' n v)" if "mp_ordered p'" for n v
    using shape_sorted [OF assms(2)] that process_ordered [OF assms(1)] by (auto simp: refs_of_process [OF assms(1)] sorted_filter [of "\<lambda>x. x", simplified])
  moreover have "map_of (map_at (mp_m p') n) v \<noteq> Some []" for n v
    by (cases rule: process_cases [of deleted p l names]) (use assms in \<open>auto simp: shape_def map_facts map_at_entry\<close>)
  moreover have "mp_lvs p' = mp_lvs p" using assms(1) by (auto simp: process_def Let_def split: if_splits)
  moreover have "distinct (map fst (mp_m p'))"
  proof (cases rule: process_cases [of deleted p l names])
    case keep
    then show ?thesis using assms by (simp add: shape_def AList.distinct_update)
  next
    case drop
    then show ?thesis using assms by (simp add: shape_def AList.distinct_map_entry)
  qed
  moreover have "distinct (map fst (map_at (mp_m p') n))" for n
  proof (cases rule: process_cases [of deleted p l names])
    case keep
    then show ?thesis using assms by (auto simp: shape_def AList.distinct_update)
  next
    case drop
    then show ?thesis using assms by (auto simp: shape_def map_at_entry AList.distinct_delete)
  qed
  ultimately show ?thesis using assms(2) by (simp add: shape_def)
qed

lemma process_indexed:
  assumes "process deleted l (p, names) = (p', names')" "n \<notin> set names \<Longrightarrow> indexed n p" "n \<notin> set names'"
  shows "indexed n p'"
proof (cases rule: process_cases [of deleted p l names])
  case keep
  then have i: "indexed n p" using assms by simp
  show ?thesis
  proof (cases "n = Name l")
    case True
    have "map_at (map_at (mp_m p) n) (Value l) \<noteq> []" using keep(1) True by (auto simp: refs_of_def)
    then have k: "map_of (map_at (mp_m p) n) (Value l) \<noteq> None" by (rule map_at_key)
    then have "Value l \<in> fst ` set (map_at (mp_m p) n)" by (simp only: map_of_eq_None_iff not_not)
    moreover from k have "map_of (mp_m p) n \<noteq> None" by (intro map_at_key) auto
    moreover note i
    ultimately
    show ?thesis using keep(2) assms(1) True by (auto simp: indexed_def map_facts)
  next
    case False
    then show ?thesis using keep(2) assms(1) i by (auto simp: indexed_def map_facts)
  qed
next
  case drop
  then have "n \<noteq> Name l" "indexed n p" using assms by auto
  then show ?thesis using drop(2) assms(1) by (auto simp: indexed_def map_facts map_at_entry)
qed

lemma process_deletes:
  assumes "process deleted l (p, names) = (p', names')" "shape p"
  shows "deletes deleted [l] [] p p'"
proof -
  have "l = \<lparr>Name = n, Value = v\<rparr> \<longleftrightarrow> n = Name l \<and> v = Value l" for n v by (cases l) auto
  then show ?thesis using process_shape [OF assms] process_ordered [OF assms(1)]
    by (auto simp: deletes_def survivors_def refs_of_process [OF assms(1)] mset_filter)
qed

text \<open>The pauses that are used up, and the names that still have to be rebuilt.\<close>

definition fresh :: "adds list \<Rightarrow> uint64 list \<Rightarrow> bool" where
  "fresh pauses deleted \<longleftrightarrow> fst ` set (concat pauses) \<inter> set deleted = {}"

lemma fresh_take: "fresh pauses deleted \<Longrightarrow> fresh (take k pauses) deleted" "fresh pauses deleted \<Longrightarrow> fresh (drop k pauses) deleted"
  unfolding fresh_def by (auto dest: in_set_takeD in_set_dropD)

lemma pause_deletes:
  assumes "shape p" "(if b then unlockWaitAndLockAgain (p, pauses) else (p, pauses)) = (q, rest)"
  shows "\<exists>k. rest = drop k pauses \<and> deletes deleted [] (concat (take k pauses)) p q \<and> (\<forall>n. indexed n p \<longrightarrow> indexed n q)"
proof (cases b)
  case True
  obtain as where "unlockWaitAndLockAgain (p, pauses) = (add_all as p, drop 1 pauses)" "as = concat (take 1 pauses)" by (rule unlock_add_all)
  then show ?thesis using assms True by (intro exI [of _ 1]) (auto simp: deletes_add_all add_all_facts)
next
  case False
  then show ?thesis using assms by (intro exI [of _ 0]) (auto simp: deletes_def survivors_def)
qed

lemma take_drop_concat: "concat (take j xss) @ concat (take k (drop j xss)) = concat (take (j + k) xss)"
  by (simp add: take_add)

lemma process_all_deletes:
  assumes "process_all deleted i ls (p, names, pauses) = (p', names', rest)" "shape p" "\<forall>n. n \<notin> set names \<longrightarrow> indexed n p" "fresh pauses deleted"
  shows "\<exists>k. rest = drop k pauses \<and> deletes deleted ls (concat (take k pauses)) p p' \<and> (\<forall>n. n \<notin> set names' \<longrightarrow> indexed n p')"
  using assms
proof (induction ls arbitrary: i p names pauses)
  case Nil
  then show ?case by (intro exI [of _ 0]) (auto simp: deletes_def survivors_def)
next
  case (Cons l ls)
  obtain q ns where q: "process deleted l (p, names) = (q, ns)" by force
  obtain q' ps where q': "(if Suc i mod 512 = 0 then unlockWaitAndLockAgain (q, pauses) else (q, pauses)) = (q', ps)" by force
  have r: "process_all deleted (Suc i) ls (q', ns, ps) = (p', names', rest)" using Cons.prems(1) q q' by (simp add: Let_def split: if_splits)
  have d1: "deletes deleted [l] [] p q" by (rule process_deletes [OF q Cons.prems(2)])
  have ix: "\<forall>n. n \<notin> set ns \<longrightarrow> indexed n q" using process_indexed [OF q] Cons.prems(3) by blast
  obtain j where j: "ps = drop j pauses" "deletes deleted [] (concat (take j pauses)) q q'" "\<forall>n. indexed n q \<longrightarrow> indexed n q'"
    using pause_deletes [OF process_shape [OF q Cons.prems(2)] q'] by blast
  have sh: "shape q'" using j(2) by (simp add: deletes_def)
  have ix': "\<forall>n. n \<notin> set ns \<longrightarrow> indexed n q'" using ix j(3) by blast
  have fr: "fresh ps deleted" using fresh_take(2) [OF Cons.prems(4)] j(1) by simp
  obtain k where k: "rest = drop k ps" "deletes deleted ls (concat (take k ps)) q' p'" "\<forall>n. n \<notin> set names' \<longrightarrow> indexed n p'"
    using Cons.IH [OF r sh ix' fr] by blast
  have "deletes deleted [l] (concat (take j pauses)) p q'" using deletes_trans [OF d1 j(2)] by simp
  from deletes_trans [OF this k(2)] have "deletes deleted (l # ls) (concat (take (j + k) pauses)) p p'"
    using fresh_take(1) [OF Cons.prems(4), of j] take_drop_concat [of j pauses k] by (simp add: fresh_def j(1))
  then show ?case using k(1,3) j(1) by (intro exI [of _ "j + k"]) (simp add: add.commute)
qed

lemma update_values_facts:
  assumes "shape p" "\<forall>ks. mset (ord ks) = mset ks"
  shows "deletes deleted [] [] p (update_values ord name p)" "indexed name (update_values ord name p)"
    "n \<noteq> name \<Longrightarrow> indexed n p \<Longrightarrow> indexed n (update_values ord name p)"
proof -
  have ord: "set (ord ks) = set ks" "distinct (ord ks) = distinct ks" for ks
    using assms(2) by (metis mset_eq_setD, metis mset_eq_imp_distinct_iff)
  let ?q = "update_values ord name p"
  have at: "map_at (mp_m ?q) n = map_at (mp_m p) n" for n by (simp add: update_values_def)
  have r: "refs_of ?q n v = refs_of p n v" for n v by (simp add: refs_of_def at)
  have "distinct (map fst (mp_m ?q))" "distinct (map fst (mp_lvs ?q))" using assms(1) by (simp_all add: update_values_def shape_def AList.distinct_update AList.distinct_delete)
  moreover have o: "mp_ordered ?q = mp_ordered p" by (simp add: update_values_def)
  ultimately have "shape ?q" using assms(1) unfolding shape_def at r by simp
  then show "deletes deleted [] [] p ?q" by (simp add: deletes_def survivors_def r o)
  show "indexed name ?q"
  proof (cases "map_at (mp_m p) name = []")
    case True
    then show ?thesis by (simp add: update_values_def indexed_def map_facts)
  next
    case False
    then show ?thesis using assms(1) map_at_key [OF False]
      by (auto simp: update_values_def indexed_def map_facts ord shape_def map_at_Some)
  qed
  show "n \<noteq> name \<Longrightarrow> indexed n p \<Longrightarrow> indexed n ?q" by (auto simp: update_values_def indexed_def map_facts)
qed

lemma update_all_deletes:
  assumes "update_all ord i names (p, pauses) = (p', rest)" "shape p" "\<forall>n. n \<notin> set names \<longrightarrow> indexed n p" "fresh pauses deleted"
    "\<forall>ks. mset (ord ks) = mset ks"
  shows "\<exists>k. rest = drop k pauses \<and> deletes deleted [] (concat (take k pauses)) p p' \<and> (\<forall>n. indexed n p')"
  using assms(1-4)
proof (induction names arbitrary: i p pauses)
  case Nil
  then show ?case by (intro exI [of _ 0]) (auto simp: deletes_def survivors_def)
next
  case (Cons name names)
  obtain q ps where q: "(if Suc i mod 512 = 0 then unlockWaitAndLockAgain (p, pauses) else (p, pauses)) = (q, ps)" by force
  let ?q = "update_values ord name q"
  have r: "update_all ord (Suc i) names (?q, ps) = (p', rest)" using Cons.prems(1) q by (simp add: Let_def split: if_splits)
  obtain j where j: "ps = drop j pauses" "deletes deleted [] (concat (take j pauses)) p q" "\<forall>n. indexed n p \<longrightarrow> indexed n q"
    using pause_deletes [OF Cons.prems(2) q] by blast
  have sh: "shape q" using j(2) by (simp add: deletes_def)
  note u = update_values_facts [OF sh assms(5)]
  have ix: "\<forall>n. n \<notin> set names \<longrightarrow> indexed n ?q" using Cons.prems(3) j(3) u(2,3) by (metis set_ConsD)
  have fr: "fresh ps deleted" using fresh_take(2) [OF Cons.prems(4)] j(1) by simp
  have sh': "shape ?q" using u(1) by (simp add: deletes_def)
  obtain k where k: "rest = drop k ps" "deletes deleted [] (concat (take k ps)) ?q p'" "\<forall>n. indexed n p'"
    using Cons.IH [OF r sh' ix fr] by blast
  have f: "fst ` set (concat (take j pauses)) \<inter> set deleted = {}" using fresh_take(1) [OF Cons.prems(4), of j] by (simp add: fresh_def)
  have "deletes deleted [] (concat (take j pauses)) p ?q" using deletes_trans [OF j(2) u(1) f] by simp
  from deletes_trans [OF this k(2) f] have "deletes deleted [] (concat (take (j + k) pauses)) p p'"
    using take_drop_concat [of j pauses k] by (simp add: j(1))
  then show ?case using k(1,3) j(1) by (intro exI [of _ "j + k"]) (simp add: add.commute)
qed

lemma Delete_deletes:
  assumes "Delete ord deleted affected (p, pauses) = (p', rest)" "mem_ok p" "fresh pauses deleted" "\<forall>ks. mset (ord ks) = mset ks"
  shows "\<exists>k. rest = drop k pauses \<and> deletes deleted (affected @ [allPostingsKey]) (concat (take k pauses)) p p' \<and> mem_ok p'"
proof -
  obtain q names ps where q: "process_all deleted 0 affected (p, [], pauses) = (q, names, ps)" by (metis prod_cases3)
  obtain r names' where r: "process deleted allPostingsKey (q, names) = (r, names')" by force
  have u: "update_all ord 0 (ord names') (r, ps) = (p', rest)" using assms(1) q r by (simp add: Delete_def Let_def)
  have sh: "shape p" "\<forall>n. n \<notin> set [] \<longrightarrow> indexed n p" using assms(2) by (simp_all add: mem_ok_def)
  obtain j where j: "ps = drop j pauses" "deletes deleted affected (concat (take j pauses)) p q" "\<forall>n. n \<notin> set names \<longrightarrow> indexed n q"
    using process_all_deletes [OF q sh assms(3)] by blast
  have sq: "shape q" using j(2) by (simp add: deletes_def)
  have d: "deletes deleted [allPostingsKey] [] q r" by (rule process_deletes [OF r sq])
  have "set (ord names') = set names'" using assms(4) by (metis mset_eq_setD)
  then have ix: "\<forall>n. n \<notin> set (ord names') \<longrightarrow> indexed n r" using process_indexed [OF r] j(3) by blast
  have fr: "fresh ps deleted" using fresh_take(2) [OF assms(3)] j(1) by simp
  have sr: "shape r" using d by (simp add: deletes_def)
  obtain k where k: "rest = drop k ps" "deletes deleted [] (concat (take k ps)) r p'" "\<forall>n. indexed n p'"
    using update_all_deletes [OF u sr ix fr assms(4)] by blast
  have f: "fst ` set (concat (take j pauses)) \<inter> set deleted = {}" using fresh_take(1) [OF assms(3), of j] by (simp add: fresh_def)
  have "deletes deleted (affected @ [allPostingsKey]) (concat (take j pauses)) p r" using deletes_trans [OF j(2) d f] by simp
  from deletes_trans [OF this k(2) f] have "deletes deleted (affected @ [allPostingsKey]) (concat (take (j + k) pauses)) p p'"
    using take_drop_concat [of j pauses k] by (simp add: j(1))
  moreover from this have "mem_ok p'" using k(3) by (simp add: mem_ok_def deletes_def)
  ultimately show ?thesis using k(1) j(1) by (intro exI [of _ "j + k"]) (simp add: add.commute)
qed

subsection \<open>Ordering\<close>

lemma map_at_map: "f [] = [] \<Longrightarrow> map_at (map (\<lambda>(k, v). (k, f v)) m) k = f (map_at m k)"
  by (simp add: map_at_def map_of_map split: option.splits)

lemma sort_Nil: "sort (xs :: uint64 list) = [] \<longleftrightarrow> xs = []"
  by (metis length_0_conv length_sort)

lemma EnsureOrder_lists: "\<not> mp_ordered p \<Longrightarrow> map_at (mp_m (EnsureOrder p)) n = map (\<lambda>(v, xs). (v, sort xs)) (map_at (mp_m p) n)"
  by (simp add: EnsureOrder_def map_at_map)

lemma refs_of_EnsureOrder: "\<not> mp_ordered p \<Longrightarrow> refs_of (EnsureOrder p) n v = sort (refs_of p n v)"
  by (simp add: refs_of_def EnsureOrder_lists map_at_map)

lemma EnsureOrder_ok:
  assumes "mem_ok p"
  shows "mem_ok (EnsureOrder p)"
proof (cases "mp_ordered p")
  case True
  then show ?thesis using assms by (simp add: EnsureOrder_def)
next
  case False
  note ls = EnsureOrder_lists [OF False]
  have m: "mp_m (EnsureOrder p) = map (\<lambda>(n, e). (n, map (\<lambda>(v, xs). (v, sort xs)) e)) (mp_m p)" "mp_lvs (EnsureOrder p) = mp_lvs p"
    using False by (simp_all add: EnsureOrder_def)
  have keys: "map fst (map (\<lambda>(k, x). (k, f x)) xs) = map fst xs" for f and xs :: "('x \<times> 'y) list" by (induction xs) auto
  have "shape (EnsureOrder p)" unfolding shape_def ls refs_of_EnsureOrder [OF False] unfolding m keys
    using assms by (auto simp: mem_ok_def shape_def map_of_map sort_Nil)
  moreover have "indexed n (EnsureOrder p)" for n
  proof -
    have "fst ` set (map_at (mp_m (EnsureOrder p)) n) = fst ` set (map_at (mp_m p) n)" unfolding ls by (force simp: image_image)
    moreover have "map_of (mp_m (EnsureOrder p)) n = map_option (map (\<lambda>(v, xs). (v, sort xs))) (map_of (mp_m p) n)" unfolding m by (simp add: map_of_map)
    ultimately show ?thesis using assms by (auto simp: mem_ok_def indexed_def m(2))
  qed
  ultimately show ?thesis by (simp add: mem_ok_def)
qed

section \<open>Reachable indexes\<close>

text \<open>Every index that the operations can make, with any interleaving of additions into deletions.\<close>

inductive reachable :: "MemPostings \<Rightarrow> bool" where
  new: "reachable NewMemPostings"
| new_unordered: "reachable NewUnorderedMemPostings"
| add: "reachable p \<Longrightarrow> reachable (Add i ls p)"
| order: "reachable p \<Longrightarrow> reachable (EnsureOrder p)"
| delete: "reachable p \<Longrightarrow> fresh pauses deleted \<Longrightarrow> \<forall>ks. mset (ord ks) = mset ks \<Longrightarrow>
    Delete ord deleted affected (p, pauses) = (p', rest) \<Longrightarrow> reachable p'"

lemma reachable_ok: "reachable p \<Longrightarrow> mem_ok p"
proof (induction rule: reachable.induct)
  case (add p i ls)
  then show ?case by (simp add: mem_ok_def Add_shape Add_indexed)
next
  case (delete p pauses deleted ord affected p' rest)
  then show ?case using Delete_deletes [OF delete(4) delete.IH delete(2,3)] by blast
qed (simp_all add: mem_ok_new EnsureOrder_ok)

lemma mem_label_values:
  assumes "mem_ok p"
  shows "distinct (map_at (mp_lvs p) n)" "v \<in> set (map_at (mp_lvs p) n) \<longleftrightarrow> refs_of p n v \<noteq> []"
  using assms shape_refs [of p v n] by (simp_all add: mem_ok_def indexed_def)

lemma distinct_pairs:
  "distinct (map fst m) \<Longrightarrow> \<forall>(n, e) \<in> set m. distinct (map fst e) \<Longrightarrow> distinct (concat (map (\<lambda>(n, e). map (\<lambda>(v, _). (n, v)) e) m))"
proof (induction m)
  case (Cons a m)
  obtain n e where a: "a = (n, e)" by force
  have p: "map (\<lambda>(v, _). (n, v)) e = map (Pair n) (map fst e)" by auto
  have "distinct (map (\<lambda>(v, _). (n, v)) e)" unfolding p distinct_map [of "Pair n"] using Cons.prems(2) a by (simp add: inj_on_def)
  moreover have "set (map (\<lambda>(v, _). (n, v)) e) \<inter> set (concat (map (\<lambda>(n, e). map (\<lambda>(v, _). (n, v)) e) m)) = {}" using Cons.prems(1) a by force
  ultimately show ?case using Cons a by simp
qed simp

lemma mem_keys:
  assumes "mem_ok p"
  shows "distinct (concat (map (\<lambda>(n, e). map (\<lambda>(v, _). (n, v)) e) (mp_m p)))"
    "(n, v) \<in> set (concat (map (\<lambda>(n, e). map (\<lambda>(v, _). (n, v)) e) (mp_m p))) \<longleftrightarrow> refs_of p n v \<noteq> []"
proof -
  have d: "distinct (map fst (mp_m p))" "\<forall>n. distinct (map fst (map_at (mp_m p) n))" using assms by (simp_all add: mem_ok_def shape_def)
  have e: "map_at (mp_m p) n = e" if "(n, e) \<in> set (mp_m p)" for n e using map_of_is_SomeI [OF d(1) that] by (rule map_at_Some)
  have "\<forall>(n, e) \<in> set (mp_m p). distinct (map fst e)" using d(2) e by auto
  with d(1) show "distinct (concat (map (\<lambda>(n, e). map (\<lambda>(v, _). (n, v)) e) (mp_m p)))" by (rule distinct_pairs)
  have "v \<in> fst ` set (map_at (mp_m p) n) \<longleftrightarrow> (\<exists>e. (n, e) \<in> set (mp_m p) \<and> v \<in> fst ` set e)"
    using e map_at_key [of "mp_m p" n] by (metis empty_iff image_empty list.set(1) map_at_Some map_of_SomeD not_None_eq)
  moreover have "(n, v) \<in> set (concat (map (\<lambda>(n, e). map (\<lambda>(v, _). (n, v)) e) (mp_m p))) \<longleftrightarrow> (\<exists>e. (n, e) \<in> set (mp_m p) \<and> v \<in> fst ` set e)"
    by force
  ultimately show "(n, v) \<in> set (concat (map (\<lambda>(n, e). map (\<lambda>(v, _). (n, v)) e) (mp_m p))) \<longleftrightarrow> refs_of p n v \<noteq> []"
    using shape_refs [of p v n] assms by (simp add: mem_ok_def)
qed

lemma Postings_single: "MemPostings_Postings merged n [v] p = (if refs_of p n v = [] then Inl EmptyPostings else Inr (Inl (NewListPostings (refs_of p n v))))"
  by (simp add: MemPostings_Postings_def Merge_def refs_of_def Let_def)

section \<open>Properties\<close>

text \<open>
  C20. \<open>Delete\<close> takes the deleted references out of the lists of the affected labels and of the list of all
  series and out of no other list, and leaves the label values in step with the lists. This holds
  also when other goroutines add series whenever \<open>Delete\<close> gives up the lock: what they add (\<open>k\<close> pauses are used)
  is in the lists as well. Added series are not among the deleted ones; the order of map iteration is
  arbitrary.
\<close>

theorem mem_postings_delete:
  assumes "reachable p" "fresh pauses deleted" "\<forall>ks. mset (ord ks) = mset ks" "Delete ord deleted affected (p, pauses) = (p', rest)"
  shows "mem_ok p' \<and> (\<exists>k. rest = drop k pauses \<and>
    (\<forall>n v. mset (refs_of p' n v) = survivors deleted (affected @ [allPostingsKey]) n v (mset (refs_of p n v)) + added (concat (take k pauses)) n v))"
  using Delete_deletes [OF assms(4) reachable_ok [OF assms(1)] assms(2,3)] by (auto simp: deletes_def)

theorem mem_postings_delete_witness:
  "mem_ok (fst (Delete rev [1, 2] [\<lparr>Name = [97], Value = [98]\<rparr>] (Add 3 [\<lparr>Name = [97], Value = [99]\<rparr>] (Add 1 [\<lparr>Name = [97], Value = [98]\<rparr>] NewMemPostings), [])))"
proof -
  let ?p = "Add 3 [\<lparr>Name = [97], Value = [99]\<rparr>] (Add 1 [\<lparr>Name = [97], Value = [98]\<rparr>] NewMemPostings)"
  obtain p' rest where d: "Delete rev [1, 2] [\<lparr>Name = [97], Value = [98]\<rparr>] (?p, []) = (p', rest)" by force
  have "reachable ?p" by (intro reachable.add reachable.new)
  moreover have "fresh [] [1, 2]" "\<forall>ks. mset (rev ks) = mset ks" by (simp_all add: fresh_def)
  ultimately have "mem_ok p'" using mem_postings_delete [OF _ _ _ d] by blast
  then show ?thesis using d by simp
qed

text \<open>
  In every index that the operations can make, the readers agree with the postings lists: \<open>LabelValues\<close>
  returns each value that has a list once, \<open>SortedKeys\<close> returns the labels that have a list, strictly
  ordered by name and value, \<open>LabelNames\<close> returns the names other than that of the list of all series, \<open>Postings\<close>
  is the sentinel exactly for labels without a list, and the lists are sorted once the index is ordered.
\<close>

theorem mem_postings_readers:
  assumes "reachable p" "\<forall>ks. mset (ord ks) = mset ks"
  shows "distinct (LabelValues n 0 p) \<and> set (LabelValues n 0 p) = {v. refs_of p n v \<noteq> []} \<and>
    sorted_wrt (<) (map (\<lambda>l. (Name l, Value l)) (SortedKeys p)) \<and> set (SortedKeys p) = {l. refs_of p (Name l) (Value l) \<noteq> []} \<and>
    set (LabelNames ord p) = {n. n \<noteq> [] \<and> (\<exists>v. refs_of p n v \<noteq> [])} \<and>
    MemPostings_Postings merged n [v] p = (if refs_of p n v = [] then Inl EmptyPostings else Inr (Inl (NewListPostings (refs_of p n v)))) \<and>
    (mp_ordered p \<longrightarrow> sorted (refs_of p n v))"
proof (intro conjI impI)
  have ok: "mem_ok p" by (rule reachable_ok [OF assms(1)])
  show "distinct (LabelValues n 0 p)" "set (LabelValues n 0 p) = {v. refs_of p n v \<noteq> []}"
    using mem_label_values [OF ok] by (auto simp: LabelValues_def Let_def)
  let ?keys = "concat (map (\<lambda>(n, e). map (\<lambda>(v, _). (n, v)) e) (mp_m p))"
  have "map (\<lambda>l. (Name l, Value l)) (SortedKeys p) = sort ?keys" by (simp add: SortedKeys_def comp_def case_prod_unfold)
  then show "sorted_wrt (<) (map (\<lambda>l. (Name l, Value l)) (SortedKeys p))" using mem_keys(1) [OF ok] by (simp add: strict_sorted_iff)
  have "l \<in> set (SortedKeys p) \<longleftrightarrow> (Name l, Value l) \<in> set ?keys" for l
    unfolding SortedKeys_def by (cases l) (auto simp: image_iff split: prod.splits)
  then show "set (SortedKeys p) = {l. refs_of p (Name l) (Value l) \<noteq> []}" using mem_keys(2) [OF ok] by blast
  have "n \<in> fst ` set (mp_m p) \<longleftrightarrow> (\<exists>v. refs_of p n v \<noteq> [])" for n
  proof
    assume "n \<in> fst ` set (mp_m p)"
    then obtain e where e: "map_of (mp_m p) n = Some e" by (metis map_of_eq_None_iff not_None_eq)
    moreover have "e \<noteq> []" using ok e by (auto simp: mem_ok_def indexed_def)
    ultimately have "\<exists>v. v \<in> fst ` set (map_at (mp_m p) n)" by (cases e) (auto simp: map_at_Some)
    then show "\<exists>v. refs_of p n v \<noteq> []" using shape_refs ok unfolding mem_ok_def by blast
  next
    assume "\<exists>v. refs_of p n v \<noteq> []"
    then have "map_at (mp_m p) n \<noteq> []" by (auto simp: refs_of_def)
    then show "n \<in> fst ` set (mp_m p)" using map_at_key map_of_eq_None_iff by metis
  qed
  moreover have "set (ord (map fst (mp_m p))) = fst ` set (mp_m p)" using assms(2) by (metis list.set_map mset_eq_setD)
  ultimately show "set (LabelNames ord p) = {n. n \<noteq> [] \<and> (\<exists>v. refs_of p n v \<noteq> [])}"
    by (auto simp: LabelNames_def allPostingsKey_def)
  show "sorted (refs_of p n v)" if "mp_ordered p" using ok that by (auto simp: mem_ok_def shape_sorted)
qed (rule Postings_single)

text \<open>
  Filling an index without order and sorting it at the end gives the same postings lists as keeping
  them in order at every addition.
\<close>

theorem ensure_order_equivalent:
  "refs_of (EnsureOrder (fold (\<lambda>(i, ls). Add i ls) as NewUnorderedMemPostings)) n v = refs_of (fold (\<lambda>(i, ls). Add i ls) as NewMemPostings) n v"
proof -
  note s = mem_ok_new [unfolded mem_ok_def, THEN conjunct1]
  note u = add_all_facts [OF s(2), where as = as] and o = add_all_facts [OF s(1), where as = as]
  have "\<not> mp_ordered (add_all as NewUnorderedMemPostings)" "mp_ordered (add_all as NewMemPostings)"
    using u(3) o(3) by (simp_all add: NewUnorderedMemPostings_def NewMemPostings_def)
  moreover have "sort (refs_of (add_all as NewUnorderedMemPostings) n v) = refs_of (add_all as NewMemPostings) n v"
  proof (rule properties_for_sort)
    show "mset (refs_of (add_all as NewMemPostings) n v) = mset (refs_of (add_all as NewUnorderedMemPostings) n v)"
      using u(4) o(4) by (simp add: refs_of_def NewUnorderedMemPostings_def NewMemPostings_def)
    show "sorted (refs_of (add_all as NewMemPostings) n v)" using shape_sorted [OF o(1)] o(3) by (simp add: NewMemPostings_def)
  qed
  ultimately show ?thesis using refs_of_EnsureOrder by (simp add: add_all_def)
qed

end
