(* ===== verification/SeriesSelection.thy ===== *)
theory SeriesSelection
  imports PostingsAlgebra MemPostingsCorrect
begin

text \<open>
  Selecting series by labels: the index and the iterators together, as a query uses them.
\<close>

text \<open>The labels of a series, with the one that all series have.\<close>

abbreviation with_all :: "Label list \<Rightarrow> Label set" where
  "with_all ls \<equiv> insert allPostingsKey (set ls)"

definition series_ok :: "adds \<Rightarrow> bool" where
  "series_ok as \<longleftrightarrow> distinct (map fst as) \<and> 0 \<notin> fst ` set as \<and> (\<forall>(i, ls) \<in> set as. distinct ls \<and> allPostingsKey \<notin> set ls)"

lemma series_ok_Cons: "series_ok ((i, ls) # as) \<longleftrightarrow> series_ok as \<and> i \<notin> fst ` set as \<and> i \<noteq> 0 \<and> distinct ls \<and> allPostingsKey \<notin> set ls"
  by (auto simp: series_ok_def)

definition labelled :: "adds \<Rightarrow> Label \<Rightarrow> uint64 list" where
  "labelled as l = map fst (filter (\<lambda>(i, ls). l \<in> with_all ls) as)"

lemma filter_distinct: "distinct ls \<Longrightarrow> filter (\<lambda>k. k = l) ls = (if l \<in> set ls then [l] else [])"
  by (induction ls) auto

lemma has_label_once:
  assumes "distinct ls" "allPostingsKey \<notin> set ls"
  shows "has_label ls (Name l) (Value l) = (if l \<in> with_all ls then 1 else 0)"
proof -
  have "filter (\<lambda>k. Name k = Name l \<and> Value k = Value l) (ls @ [allPostingsKey]) = filter (\<lambda>k. k = l) (ls @ [allPostingsKey])"
    by (rule filter_cong) (auto intro: Label.equality)
  then show ?thesis unfolding has_label_def using filter_distinct [of "ls @ [allPostingsKey]" l] assms by auto
qed

lemma added_labelled: "series_ok as \<Longrightarrow> added as (Name l) (Value l) = mset (labelled as l)"
  by (induction as) (auto simp: labelled_def series_ok_Cons has_label_once split: if_splits)

lemma labelled_refs:
  assumes "series_ok as"
  shows "refs_of (add_all as NewMemPostings) (Name l) (Value l) = sort (labelled as l)" "refs (sort (labelled as l))"
proof -
  note s = mem_ok_new(1) [unfolded mem_ok_def, THEN conjunct1]
  note f = add_all_facts [OF s, where as = as]
  have o: "mp_ordered (add_all as NewMemPostings)" using f(3) by (simp add: NewMemPostings_def)
  show "refs_of (add_all as NewMemPostings) (Name l) (Value l) = sort (labelled as l)"
    using f(4) [of "Name l" "Value l"] added_labelled [OF assms] shape_sorted [OF f(1) o]
    by (intro properties_for_sort [symmetric]) (simp_all add: refs_of_def NewMemPostings_def)
  have "distinct (labelled as l)" "0 \<notin> set (labelled as l)"
    using assms by (auto simp: series_ok_def labelled_def distinct_map_filter)
  then show "refs (sort (labelled as l))" by (simp add: refs_def strict_sorted_iff)
qed

lemma select_leaf:
  assumes "series_ok as"
  shows "MemPostings_Postings merged (Name l) [Value l] (add_all as NewMemPostings) = leaf_of (sort (labelled as l))"
  unfolding Postings_single labelled_refs(1) [OF assms] leaf_of_def by simp

lemma selected_sorted:
  assumes "series_ok as" "eqs \<noteq> []"
  shows "filter (\<lambda>x. x \<notin> set (sort (labelled as l))) (common_refs (map (\<lambda>l. sort (labelled as l)) eqs)) =
    sort (map fst (filter (\<lambda>(i, ls). set eqs \<subseteq> with_all ls \<and> l \<notin> with_all ls) as))" (is "?xs = ?ys")
proof -
  obtain e es where e: "eqs = e # es" using assms(2) by (cases eqs) auto
  have d: "distinct (map fst as)" using assms(1) by (simp add: series_ok_def)
  have uniq: "ls = ls'" if "(i, ls) \<in> set as" "(i, ls') \<in> set as" for i ls ls'
    using map_of_is_SomeI [OF d that(1)] map_of_is_SomeI [OF d that(2)] by simp
  have mem: "i \<in> set (labelled as k) \<longleftrightarrow> (\<exists>ls. (i, ls) \<in> set as \<and> k \<in> with_all ls)" for i k by (force simp: labelled_def)
  have "set ?xs = set ?ys"
  proof (rule set_eqI)
    fix i
    have "i \<in> set ?xs \<longleftrightarrow> (\<forall>k \<in> set eqs. i \<in> set (labelled as k)) \<and> i \<notin> set (labelled as l)" by (auto simp: e common_refs_def)
    also have "\<dots> \<longleftrightarrow> (\<exists>ls. (i, ls) \<in> set as \<and> set eqs \<subseteq> with_all ls \<and> l \<notin> with_all ls)"
    proof
      assume h: "(\<forall>k \<in> set eqs. i \<in> set (labelled as k)) \<and> i \<notin> set (labelled as l)"
      then obtain ls where ls: "(i, ls) \<in> set as" unfolding mem e by auto
      have "k \<in> with_all ls \<longleftrightarrow> i \<in> set (labelled as k)" for k unfolding mem using ls uniq by blast
      then show "\<exists>ls. (i, ls) \<in> set as \<and> set eqs \<subseteq> with_all ls \<and> l \<notin> with_all ls" using ls h by blast
    next
      assume "\<exists>ls. (i, ls) \<in> set as \<and> set eqs \<subseteq> with_all ls \<and> l \<notin> with_all ls"
      then obtain ls where ls: "(i, ls) \<in> set as" "set eqs \<subseteq> with_all ls" "l \<notin> with_all ls" by blast
      have "k \<in> with_all ls \<longleftrightarrow> i \<in> set (labelled as k)" for k unfolding mem using ls(1) uniq by blast
      then show "(\<forall>k \<in> set eqs. i \<in> set (labelled as k)) \<and> i \<notin> set (labelled as l)" using ls by blast
    qed
    finally show "i \<in> set ?xs \<longleftrightarrow> i \<in> set ?ys" by force
  qed
  moreover have "sorted_wrt (<) ?xs" using labelled_refs(2) [OF assms(1), of e] by (simp add: e common_refs_def refs_def sorted_wrt_filter)
  moreover have "distinct (map fst (filter (\<lambda>(i, ls). set eqs \<subseteq> with_all ls \<and> l \<notin> with_all ls) as))"
    using assms(1) by (auto simp: series_ok_def distinct_map_filter)
  then have "sorted_wrt (<) ?ys" by (simp add: strict_sorted_iff)
  ultimately show ?thesis by (intro strict_sorted_equal) auto
qed

end
