(* ===== verification/Wlog.thy ===== *)
theory Wlog
  imports Go_Binary
begin

text \<open>
  The write-ahead log (\<open>tsdb/wlog\<close>): records are cut into fragments that fill pages of 32 KiB, pages are
  appended to segment files, and a reader puts the fragments together again. Files are their bytes. A
  result \<open>None\<close> is a panic or a loop that does not end. An error that wraps another one is that other
  error, since the code only asks whether \<open>io.EOF\<close> is inside.
\<close>

definition pageSize :: nat where "pageSize = 32 * 1024"
definition recordHeaderSize :: nat where "recordHeaderSize = 7"

section \<open>Compression\<close>

text \<open>
  \<open>util/compression\<close>: the functions of the snappy and zstd packages are parameters. The log passes
  buffers to both, so the errors for a missing buffer do not occur. The empty type is the one for none.
\<close>

datatype compression_Type = NoCompression | Snappy | Zstd | OtherCompression string

record codecs =
  snappy_MaxEncodedLen :: "nat \<Rightarrow> int"
  snappy_Encode :: "byte list \<Rightarrow> byte list"
  snappy_Decode :: "byte list \<Rightarrow> go_error + byte list"
  zstd_EncodeAll :: "byte list \<Rightarrow> byte list"
  zstd_DecodeAll :: "byte list \<Rightarrow> go_error + byte list"

definition compression_Encode :: "codecs \<Rightarrow> compression_Type \<Rightarrow> byte list \<Rightarrow> go_error + byte list" where
  "compression_Encode C t src =
     (if src = [] \<or> t = NoCompression then Inr src
      else case t of
        Snappy \<Rightarrow> if snappy_MaxEncodedLen C (length src) < 0 then Inl (ErrInvalid ''message too large'') else Inr (snappy_Encode C src)
      | Zstd \<Rightarrow> Inr (zstd_EncodeAll C src)
      | _ \<Rightarrow> Inl (ErrInvalid ''unsupported compression type''))"

definition compression_Decode :: "codecs \<Rightarrow> compression_Type \<Rightarrow> byte list \<Rightarrow> go_error + byte list" where
  "compression_Decode C t src =
     (if src = [] \<or> t = NoCompression then Inr src
      else case t of
        Snappy \<Rightarrow> snappy_Decode C src
      | Zstd \<Rightarrow> zstd_DecodeAll C src
      | _ \<Rightarrow> Inl (ErrInvalid ''unsupported compression type''))"

section \<open>Pages\<close>

record page =
  pg_alloc :: nat
  pg_flushed :: nat
  pg_buf :: "byte list"

definition new_page :: page where
  "new_page = \<lparr>pg_alloc = 0, pg_flushed = 0, pg_buf = replicate pageSize 0\<rparr>"

definition page_remaining :: "page \<Rightarrow> int" where
  "page_remaining p = int pageSize - int (pg_alloc p)"

definition page_full :: "page \<Rightarrow> bool" where
  "page_full p \<longleftrightarrow> int pageSize - int (pg_alloc p) < int recordHeaderSize"

definition page_reset :: "page \<Rightarrow> page" where
  "page_reset p = \<lparr>pg_alloc = 0, pg_flushed = 0, pg_buf = map (\<lambda>_. 0) (pg_buf p)\<rparr>"

section \<open>Writing\<close>

text \<open>
  \<open>wl_files\<close> are the segments, the active one last. A write to the active segment succeeds, or it stores
  some bytes and fails: \<open>wl_faults\<close> tells for the writes to come whether and after how many bytes they
  fail, and all writes after those succeed.
\<close>

record WL =
  wl_segmentSize :: int
  wl_files :: "byte list list"
  wl_donePages :: int
  wl_page :: page
  wl_closed :: bool
  wl_compress :: compression_Type
  wl_faults :: "nat option list"

definition segment_Write :: "byte list \<Rightarrow> WL \<Rightarrow> nat \<times> go_error option \<times> WL" where
  "segment_Write b w =
     (let (n, err, faults) = (case wl_faults w of
            Some n # fs \<Rightarrow> (min n (length b), Some (ErrInvalid ''write''), fs)
          | None # fs \<Rightarrow> (length b, None, fs)
          | [] \<Rightarrow> (length b, None, []))
      in (n, err, w\<lparr>wl_files := butlast (wl_files w) @ [last (wl_files w) @ take n b], wl_faults := faults\<rparr>))"

definition flushPage :: "bool \<Rightarrow> WL \<Rightarrow> go_error option \<times> WL" where
  "flushPage forceClear w =
     (let p = wl_page w;
          shouldClear = (forceClear \<or> page_full p);
          p = (if shouldClear then p\<lparr>pg_alloc := pageSize\<rparr> else p);
          (n, err, w) = segment_Write (take (pg_alloc p - pg_flushed p) (drop (pg_flushed p) (pg_buf p))) w;
          p = p\<lparr>pg_flushed := pg_flushed p + n\<rparr>
      in if err \<noteq> None then (err, w\<lparr>wl_page := p\<rparr>)
         else if shouldClear then (None, w\<lparr>wl_page := page_reset p, wl_donePages := wl_donePages w + 1\<rparr>)
         else (None, w\<lparr>wl_page := p\<rparr>))"

definition setSegment :: "WL \<Rightarrow> WL" where
  "setSegment w = w\<lparr>wl_donePages := int (length (last (wl_files w)) div pageSize)\<rparr>"

text \<open>The new segment is an empty file; its number is returned. Syncing and closing of the previous one is not modelled.\<close>

definition nextSegment :: "WL \<Rightarrow> (go_error + nat) \<times> WL" where
  "nextSegment w =
     (if wl_closed w then (Inl (ErrInvalid ''wlog is closed''), w)
      else let (err, w) = (if 0 < pg_alloc (wl_page w) then flushPage True w else (None, w)) in
           case err of
             Some e \<Rightarrow> (Inl e, w)
           | None \<Rightarrow> (Inr (length (wl_files w)), setSegment (w\<lparr>wl_files := wl_files w @ [[]]\<rparr>)))"

definition snappyMask :: byte where "snappyMask = 8"
definition zstdMask :: byte where "zstdMask = 16"
definition recTypeMask :: byte where "recTypeMask = snappyMask - 1"

datatype recType = recPageTerm | recFull | recFirst | recMiddle | recLast | recOther byte

fun rec_byte :: "recType \<Rightarrow> byte" where
  "rec_byte recPageTerm = 0"
| "rec_byte recFull = 1"
| "rec_byte recFirst = 2"
| "rec_byte recMiddle = 3"
| "rec_byte recLast = 4"
| "rec_byte (recOther b) = b"

definition recTypeFromHeader :: "byte \<Rightarrow> recType" where
  "recTypeFromHeader header =
     (let t = header AND recTypeMask in
      if t = 0 then recPageTerm else if t = 1 then recFull else if t = 2 then recFirst
      else if t = 3 then recMiddle else if t = 4 then recLast else recOther t)"

fun recType_String :: "recType \<Rightarrow> string" where
  "recType_String recPageTerm = ''zero''"
| "recType_String recFull = ''full''"
| "recType_String recFirst = ''first''"
| "recType_String recMiddle = ''middle''"
| "recType_String recLast = ''last''"
| "recType_String (recOther _) = ''<invalid>''"

definition pagesPerSegment :: "WL \<Rightarrow> int" where
  "pagesPerSegment w = wl_segmentSize w div int pageSize"

fun compression_flag :: "compression_Type \<Rightarrow> byte option" where
  "compression_flag NoCompression = Some 0"
| "compression_flag Snappy = Some snappyMask"
| "compression_flag Zstd = Some zstdMask"
| "compression_flag (OtherCompression _) = None"

definition overwrite :: "nat \<Rightarrow> byte list \<Rightarrow> byte list \<Rightarrow> byte list" where
  "overwrite i bs buf = take i buf @ bs @ drop (i + length bs) buf"

text \<open>
  The loop of \<open>log\<close> over the fragments of a record; \<open>i\<close> counts them. A slice with a negative length panics.
\<close>

partial_function (option) log_loop :: "compression_Type \<Rightarrow> nat \<Rightarrow> byte list \<Rightarrow> WL \<Rightarrow> (go_error option \<times> WL) option" where
  "log_loop compr i enc w =
     (let p = wl_page w;
          l = min (int (length enc)) (int pageSize - int (pg_alloc p) - int recordHeaderSize)
      in if l < 0 then None
         else let part = take (nat l) enc;
                  rt = (if i = 0 \<and> length part = length enc then recFull
                        else if length part = length enc then recLast
                        else if i = 0 then recFirst else recMiddle)
              in case compression_flag compr of
                   None \<Rightarrow> Some (Some (ErrInvalid ''unsupported compression type''), w)
                 | Some flag \<Rightarrow>
                     let hdr = [rec_byte rt OR flag] @ PutUint16 (of_nat (length part)) @ PutUint32 (crc32_Checksum part);
                         p = p\<lparr>pg_buf := overwrite (pg_alloc p) (hdr @ part) (pg_buf p), pg_alloc := pg_alloc p + length part + recordHeaderSize\<rparr>;
                         w = w\<lparr>wl_page := p\<rparr>;
                         (err, w) = (if page_full p then flushPage True w else (None, w));
                         enc = drop (nat l) enc
                     in if err \<noteq> None then Some (err, w)
                        else if enc \<noteq> [] then log_loop compr (Suc i) enc w
                        else Some (None, w))"

definition WL_log :: "codecs \<Rightarrow> byte list \<Rightarrow> bool \<Rightarrow> WL \<Rightarrow> (go_error option \<times> WL) option" where
  "WL_log C r final w =
     (case (if page_full (wl_page w) then flushPage True w else (None, w)) of
        (Some e, w) \<Rightarrow> Some (Some e, w)
      | (None, w) \<Rightarrow>
          case compression_Encode C (wl_compress w) r of
            Inl e \<Rightarrow> Some (Some e, w)
          | Inr enc \<Rightarrow>
              let skip = (wl_compress w \<noteq> NoCompression \<and> int (length r) - int (length enc) \<le> 0);
                  enc = (if skip then r else enc);
                  finalCompression = (if skip then NoCompression else wl_compress w);
                  left = page_remaining (wl_page w) - int recordHeaderSize
                       + (int pageSize - int recordHeaderSize) * (pagesPerSegment w - wl_donePages w - 1)
              in case (if int (length enc) > left then nextSegment w else (Inr 0, w)) of
                   (Inl e, w) \<Rightarrow> Some (Some e, w)
                 | (Inr _, w) \<Rightarrow>
                     Option.bind (log_loop finalCompression 0 enc w) (\<lambda>(err, w).
                       if err \<noteq> None then Some (err, w)
                       else if final \<and> 0 < pg_alloc (wl_page w) then Some (flushPage False w)
                       else Some (None, w)))"

fun WL_Log :: "codecs \<Rightarrow> byte list list \<Rightarrow> WL \<Rightarrow> (go_error option \<times> WL) option" where
  "WL_Log C [] w = Some (None, w)"
| "WL_Log C (r # rs) w =
     Option.bind (WL_log C r (rs = []) w) (\<lambda>(err, w). if err \<noteq> None then Some (err, w) else WL_Log C rs w)"

text \<open>A log in an empty directory.\<close>

definition NewSize :: "int \<Rightarrow> compression_Type \<Rightarrow> go_error + WL" where
  "NewSize segmentSize compr =
     (if segmentSize mod int pageSize \<noteq> 0 then Inl (ErrInvalid ''invalid segment size'')
      else Inr (setSegment \<lparr>wl_segmentSize = segmentSize, wl_files = [[]], wl_donePages = 0, wl_page = new_page, wl_closed = False,
        wl_compress = compr, wl_faults = []\<rparr>))"

definition WL_Close :: "WL \<Rightarrow> go_error option \<times> WL" where
  "WL_Close w =
     (if wl_closed w then (Some (ErrInvalid ''wlog already closed''), w)
      else case (if 0 < pg_alloc (wl_page w) then flushPage True w else (None, w)) of
             (Some e, w) \<Rightarrow> (Some e, w)
           | (None, w) \<Rightarrow> (None, w\<lparr>wl_closed := True\<rparr>))"

definition LastOffset :: "WL \<Rightarrow> int" where
  "LastOffset w = wl_donePages w * int pageSize + int (pg_alloc (wl_page w))"

section \<open>Reading\<close>

text \<open>
  An \<open>io.Reader\<close> is a function that takes the number of bytes asked for and returns bytes, an error and
  the new state. \<open>io.ReadFull\<close> calls it until it has all bytes or gets an error.
\<close>

type_synonym 'r io_Reader = "nat \<Rightarrow> 'r \<Rightarrow> byte list \<times> go_error option \<times> 'r"

partial_function (option) ReadFull_loop :: "'r io_Reader \<Rightarrow> nat \<Rightarrow> byte list \<Rightarrow> 'r \<Rightarrow> (byte list \<times> go_error option \<times> 'r) option" where
  "ReadFull_loop rd n got r =
     (if n \<le> length got then Some (got, None, r)
      else let (bs, err, r) = rd (n - length got) r; got = got @ bs in
           case err of
             None \<Rightarrow> ReadFull_loop rd n got r
           | Some e \<Rightarrow> Some (got, if n \<le> length got then None else if got \<noteq> [] \<and> e = EOF then Some ErrUnexpectedEOF else Some e, r))"

definition ReadFull :: "'r io_Reader \<Rightarrow> nat \<Rightarrow> 'r \<Rightarrow> (byte list \<times> go_error option \<times> 'r) option" where
  "ReadFull rd n r = ReadFull_loop rd n [] r"

text \<open>
  The reader of Go's library over a file, or over bytes in memory: it ends with the file. \<open>Repair\<close> reads through
  it, without the zeros that the reader over segments adds.
\<close>

definition bytes_Read :: "byte list io_Reader" where
  "bytes_Read n s = (if s = [] then ([], Some EOF, []) else (take n s, None, drop n s))"

text \<open>The reader over segments; \<open>sbr_buf\<close> is what is left of the current segment.\<close>

record segmentBufReader =
  sbr_buf :: "byte list"
  sbr_segs :: "byte list list"
  sbr_cur :: nat
  sbr_off :: nat

definition NewSegmentBufReader :: "byte list list \<Rightarrow> segmentBufReader" where
  "NewSegmentBufReader segs =
     \<lparr>sbr_buf = (if segs = [] then [] else hd segs), sbr_segs = segs, sbr_cur = 0, sbr_off = 0\<rparr>"

definition segmentBufReader_Read :: "segmentBufReader io_Reader" where
  "segmentBufReader_Read m r =
     (if sbr_segs r = [] then ([], Some EOF, r)
      else let (bs, err, rest) = bytes_Read m (sbr_buf r);
               n = length bs;
               r = r\<lparr>sbr_buf := rest, sbr_off := sbr_off r + n\<rparr>
           in if err = None \<or> err \<noteq> Some EOF then (bs, err, r)
              else if sbr_off r mod pageSize \<noteq> 0
              then let i = min (m - n) (pageSize - sbr_off r mod pageSize)
                   in (bs @ replicate i 0, None, r\<lparr>sbr_off := sbr_off r + i\<rparr>)
              else if length (sbr_segs r) \<le> sbr_cur r + 1 then (bs, Some EOF, r)
              else (bs, None, r\<lparr>sbr_cur := sbr_cur r + 1, sbr_off := 0, sbr_buf := sbr_segs r ! (sbr_cur r + 1)\<rparr>))"

definition validateRecord :: "recType \<Rightarrow> nat \<Rightarrow> go_error option" where
  "validateRecord t i =
     (case t of
        recFull \<Rightarrow> if i \<noteq> 0 then Some (ErrInvalid ''unexpected full record'') else None
      | recFirst \<Rightarrow> if i \<noteq> 0 then Some (ErrInvalid ''unexpected first record'') else None
      | recMiddle \<Rightarrow> if i = 0 then Some (ErrInvalid ''unexpected middle record'') else None
      | recLast \<Rightarrow> if i = 0 then Some (ErrInvalid ''unexpected last record'') else None
      | _ \<Rightarrow> Some (ErrInvalid ''unexpected record type''))"

record 'r Reader =
  rd_rdr :: 'r
  rd_err :: "go_error option"
  rd_rec :: "byte list"
  rd_precomprBuf :: "byte list"
  rd_total :: nat
  rd_curRecTyp :: recType

definition NewReader :: "'r \<Rightarrow> 'r Reader" where
  "NewReader r = \<lparr>rd_rdr = r, rd_err = None, rd_rec = [], rd_precomprBuf = [], rd_total = 0, rd_curRecTyp = recPageTerm\<rparr>"

definition header_compression :: "byte \<Rightarrow> compression_Type" where
  "header_compression h =
     (if h AND snappyMask = snappyMask then Snappy else if h AND zstdMask = zstdMask then Zstd else NoCompression)"

text \<open>One call of \<open>io.ReadFull\<close> on the reader below.\<close>

definition read_bytes :: "'r io_Reader \<Rightarrow> nat \<Rightarrow> 'r Reader \<Rightarrow> (byte list \<times> go_error option \<times> 'r Reader) option" where
  "read_bytes rd n r = map_option (\<lambda>(bs, err, s). (bs, err, r\<lparr>rd_rdr := s\<rparr>)) (ReadFull rd n (rd_rdr r))"

definition read_fragment :: "codecs \<Rightarrow> 'r io_Reader \<Rightarrow> byte \<Rightarrow> nat \<Rightarrow> 'r Reader \<Rightarrow> (go_error option \<times> bool \<times> 'r Reader) option" where
  "read_fragment C rd h i r =
     Option.bind (read_bytes rd (recordHeaderSize - 1) r) (\<lambda>(hdr, err, r).
       if err \<noteq> None then Some (err, True, r)
       else let r = r\<lparr>rd_total := rd_total r + length hdr\<rparr> in
         Option.bind (Uint16 hdr) (\<lambda>len. Option.bind (Uint32 (drop 2 hdr)) (\<lambda>crc.
           if pageSize - recordHeaderSize < unat len then Some (Some (ErrInvalid ''invalid record size''), True, r)
           else Option.bind (read_bytes rd (unat len) r) (\<lambda>(buf, err, r).
             if err \<noteq> None then Some (err, True, r)
             else let r = r\<lparr>rd_total := rd_total r + length buf\<rparr> in
               if length buf \<noteq> unat len then Some (Some (ErrInvalid ''invalid size''), True, r)
               else if crc32_Checksum buf \<noteq> crc then Some (Some (ErrInvalid ''unexpected checksum''), True, r)
               else case validateRecord (rd_curRecTyp r) i of
                 Some e \<Rightarrow> Some (Some e, True, r)
               | None \<Rightarrow>
                   let r = r\<lparr>rd_precomprBuf := rd_precomprBuf r @ buf\<rparr> in
                   if rd_curRecTyp r = recLast \<or> rd_curRecTyp r = recFull
                   then (case compression_Decode C (header_compression h) (rd_precomprBuf r) of
                           Inl e \<Rightarrow> Some (Some e, True, r\<lparr>rd_rec := []\<rparr>)
                         | Inr x \<Rightarrow> Some (None, True, r\<lparr>rd_rec := x\<rparr>))
                   else Some (None, False, r)))))"

text \<open>The loop of \<open>nextNew\<close>; the flag of \<open>read_fragment\<close> says that the function returns.\<close>

partial_function (option) nextNew_loop :: "codecs \<Rightarrow> 'r io_Reader \<Rightarrow> nat \<Rightarrow> 'r Reader \<Rightarrow> (go_error option \<times> 'r Reader) option" where
  "nextNew_loop C rd i r =
     Option.bind (read_bytes rd 1 r) (\<lambda>(h, err, r).
       if err \<noteq> None then Some (err, r)
       else let r = r\<lparr>rd_total := rd_total r + 1, rd_curRecTyp := recTypeFromHeader (hd h)\<rparr> in
         if rd_curRecTyp r = recPageTerm
         then let k = pageSize - rd_total r mod pageSize in
           if k = pageSize then nextNew_loop C rd i r
           else Option.bind (read_bytes rd k r) (\<lambda>(buf, err, r).
             if err \<noteq> None then Some (err, r)
             else let r = r\<lparr>rd_total := rd_total r + length buf\<rparr> in
               if \<exists>c \<in> set buf. c \<noteq> 0 then Some (Some (ErrInvalid ''unexpected non-zero byte in padded page''), r)
               else nextNew_loop C rd i r)
         else Option.bind (read_fragment C rd (hd h) i r) (\<lambda>(err, ret, r).
           if ret then Some (err, r) else nextNew_loop C rd (Suc i) r))"

definition nextNew :: "codecs \<Rightarrow> 'r io_Reader \<Rightarrow> 'r Reader \<Rightarrow> (go_error option \<times> 'r Reader) option" where
  "nextNew C rd r = nextNew_loop C rd 0 (r\<lparr>rd_precomprBuf := []\<rparr>)"

definition Reader_Next :: "codecs \<Rightarrow> 'r io_Reader \<Rightarrow> 'r Reader \<Rightarrow> (bool \<times> 'r Reader) option" where
  "Reader_Next C rd r =
     map_option (\<lambda>(err, r).
       if err = Some EOF
       then (False, if rd_curRecTyp r = recFirst \<or> rd_curRecTyp r = recMiddle
                    then r\<lparr>rd_err := Some (ErrInvalid ''last record is torn'')\<rparr> else r)
       else (err = None, r\<lparr>rd_err := err\<rparr>)) (nextNew C rd r)"

text \<open>A client reads all records; the second result is \<open>Err\<close> at the end, without the position it adds.\<close>

partial_function (option) read_all :: "codecs \<Rightarrow> 'r io_Reader \<Rightarrow> 'r Reader \<Rightarrow> (byte list list \<times> go_error option) option" where
  "read_all C rd r =
     Option.bind (Reader_Next C rd r) (\<lambda>(ok, r).
       if ok then Option.bind (read_all C rd r) (\<lambda>(recs, err). Some (rd_rec r # recs, err))
       else Some ([], rd_err r))"

section \<open>Repairing\<close>

text \<open>
  The loop of \<open>Repair\<close>, which logs again the records in front of offset \<open>off\<close>.
\<close>

partial_function (option) repair_loop :: "codecs \<Rightarrow> 'r io_Reader \<Rightarrow> int \<Rightarrow> 'r Reader \<Rightarrow> WL \<Rightarrow> (go_error option \<times> WL) option" where
  "repair_loop C rd off r w =
     Option.bind (Reader_Next C rd r) (\<lambda>(ok, r).
       if \<not> ok then Some (None, w)
       else if off \<le> int (rd_total r) then Some (None, w)
       else Option.bind (WL_Log C [rd_rec r] w) (\<lambda>(err, w).
         if err \<noteq> None then Some (err, w) else repair_loop C rd off r w))"

text \<open>
  The error that is repaired is the segment and the offset of a \<open>CorruptionErr\<close>, or \<open>None\<close> for any other error. The
  segments behind the corrupted one are deleted, it is replaced by an empty one that becomes active, and its
  records are logged again. Files can be created, opened and deleted, but there may be none of that number.
  The log goes on with the segment behind the corrupted one. That is the last file, unless the records needed
  more than one further segment; \<open>CreateSegment\<close> opens it when it exists.
\<close>

definition Repair :: "codecs \<Rightarrow> (int \<times> int) option \<Rightarrow> WL \<Rightarrow> (go_error option \<times> WL) option" where
  "Repair C origErr w =
     (case origErr of
        None \<Rightarrow> Some (Some (ErrInvalid ''cannot handle error''), w)
      | Some (seg, off) \<Rightarrow>
          if seg < 0 then Some (Some (ErrInvalid ''corruption error does not specify position''), w)
          else let i = nat seg;
                   corrupted = wl_files w ! i
               in if length (wl_files w) \<le> i then Some (Some (ErrInvalid ''rename''), w)
                  else Option.bind (repair_loop C bytes_Read off (NewReader corrupted) (setSegment (w\<lparr>wl_files := take i (wl_files w) @ [[]]\<rparr>)))
                    (\<lambda>(err, w).
                      if err \<noteq> None then Some (err, w)
                      else case flushPage True w of
                        (Some e, w) \<Rightarrow> Some (Some e, w)
                      | (None, w) \<Rightarrow>
                          let segs = (if length (wl_files w) \<le> i + 1 then wl_files w @ [[]] else wl_files w)
                          in Some (None, w\<lparr>wl_files := segs, wl_donePages := int (length (segs ! (i + 1)) div pageSize)\<rparr>)))"

end
