(* ===== verification/WlogCorrect.thy ===== *)
theory WlogCorrect
  imports Wlog
begin

text \<open>
  The write-ahead log: what the writer puts on disk, what the reader makes of it, and that records come
  back in order, also after a torn write.
\<close>

section \<open>The format\<close>

lemma pageSize_facts: "7 < pageSize" "pageSize - 7 < 2 ^ 16" "0 < pageSize"
  by (simp_all add: pageSize_def)

declare recordHeaderSize_def [simp]

definition frag :: "byte \<Rightarrow> recType \<Rightarrow> byte list \<Rightarrow> byte list" where
  "frag flag t part = [rec_byte t OR flag] @ PutUint16 (of_nat (length part)) @ PutUint32 (crc32_Checksum part) @ part"

lemma length_frag [simp]: "length (frag flag t part) = 7 + length part"
  by (simp add: frag_def)

text \<open>The zeros behind a fragment that ends at \<open>x\<close>, and the position in the page after them.\<close>

definition pad :: "nat \<Rightarrow> nat" where
  "pad x = (if pageSize < x + 7 then pageSize - x else 0)"

definition norm :: "nat \<Rightarrow> nat" where
  "norm x = (if pageSize < x + 7 then 0 else x)"

text \<open>
  The fragments of a record that starts at position \<open>a\<close> of a page, without the zeros at the end; \<open>i\<close> counts
  the fragments before and \<open>x\<close> is the position where the last one ends.
\<close>

inductive fragments :: "byte \<Rightarrow> nat \<Rightarrow> nat \<Rightarrow> byte list \<Rightarrow> byte list \<Rightarrow> nat \<Rightarrow> bool" for flag where
  last: "a + 7 + length enc \<le> pageSize \<Longrightarrow> fragments flag a i enc (frag flag (if i = 0 then recFull else recLast) enc) (a + 7 + length enc)"
| more: "pageSize < a + 7 + length enc \<Longrightarrow> a + 7 \<le> pageSize \<Longrightarrow> fragments flag 0 (Suc i) (drop (pageSize - a - 7) enc) bs x \<Longrightarrow>
    fragments flag a i enc (frag flag (if i = 0 then recFirst else recMiddle) (take (pageSize - a - 7) enc) @ bs) x"

text \<open>A sequence of records from position \<open>a\<close> to position \<open>b\<close>; a page may be filled up with zeros.\<close>

inductive logged :: "nat \<Rightarrow> (byte \<times> byte list) list \<Rightarrow> byte list \<Rightarrow> nat \<Rightarrow> bool" where
  none: "logged a [] [] a"
| fill: "0 < a \<Longrightarrow> a < pageSize \<Longrightarrow> logged 0 its bs b \<Longrightarrow> logged a its (replicate (pageSize - a) 0 @ bs) b"
| item: "fragments flag a 0 enc fs x \<Longrightarrow> logged (norm x) its bs b \<Longrightarrow> logged a ((flag, enc) # its) (fs @ replicate (pad x) 0 @ bs) b"

lemma logged_append: "logged a its bs b \<Longrightarrow> logged b its' bs' c \<Longrightarrow> logged a (its @ its') (bs @ bs') c"
proof (induction rule: logged.induct)
  case (fill a its bs b)
  then show ?case using logged.fill [of a "its @ its'" "bs @ bs'" c] by simp
next
  case (item flag a enc fs x its bs b)
  then show ?case using logged.item [OF item.hyps(1), of "its @ its'" "bs @ bs'" c] by simp
qed simp

lemma logged_item: "logged a its bs b \<Longrightarrow> fragments flag b 0 enc fs x \<Longrightarrow> logged a (its @ [(flag, enc)]) (bs @ fs @ replicate (pad x) 0) (norm x)"
  using logged_append [OF _ logged.item [OF _ logged.none]] by fastforce

lemma logged_fill: "logged a its bs b \<Longrightarrow> 0 < b \<Longrightarrow> b < pageSize \<Longrightarrow> logged a its (bs @ replicate (pageSize - b) 0) 0"
  using logged_append [OF _ logged.fill [OF _ _ logged.none]] by fastforce

lemma fragments_bounds: "fragments flag a i enc bs x \<Longrightarrow> 7 \<le> x \<and> x \<le> pageSize \<and> (a + length bs) mod pageSize = x mod pageSize \<and> a + 7 \<le> pageSize \<and> bs \<noteq> []"
proof (induction rule: fragments.induct)
  case (last a enc i)
  then show ?case by (simp add: frag_def add.assoc)
next
  case (more a enc i bs x)
  have "a + length (frag flag (if i = 0 then recFirst else recMiddle) (take (pageSize - a - 7) enc) @ bs) = pageSize + length bs"
    using more.hyps(1,2) by simp
  then show ?case using more by (auto simp: frag_def)
qed

lemma norm_pad: "x \<le> pageSize \<Longrightarrow> (x + pad x) mod pageSize = norm x mod pageSize" "norm x + 7 \<le> pageSize" "pad x < 7"
  using pageSize_facts by (auto simp: norm_def pad_def)

lemma logged_bounds: "logged a its bs b \<Longrightarrow> a + 7 \<le> pageSize \<Longrightarrow> (a + length bs) mod pageSize = b mod pageSize \<and> b + 7 \<le> pageSize"
proof (induction rule: logged.induct)
  case (fill a its bs b)
  then show ?case using pageSize_facts by (simp add: mod_simps flip: add.assoc)
next
  case (item flag a enc fs x its bs b)
  note x = fragments_bounds [OF item.hyps(1)]
  have "(a + length fs + (pad x + length bs)) mod pageSize = (x + (pad x + length bs)) mod pageSize" using x by (intro mod_add_cong) auto
  also have "\<dots> = (x + pad x + length bs) mod pageSize" by (simp add: add.assoc)
  also have "\<dots> = (norm x + length bs) mod pageSize" using x norm_pad(1) by (intro mod_add_cong) auto
  finally show ?case using item norm_pad(2) by (simp add: add.assoc)
qed simp

section \<open>Readers\<close>

text \<open>
  An \<open>io.Reader\<close> delivers its content piece by piece and the end of file after it. It may return no bytes
  without an error, but not forever: \<open>wait\<close> goes down.
\<close>

locale io_reader =
  fixes rd :: "'r io_Reader" and content :: "'r \<Rightarrow> byte list" and wait :: "'r \<Rightarrow> nat" and ok :: "'r \<Rightarrow> bool"
  assumes read: "ok r \<Longrightarrow> content r \<noteq> [] \<Longrightarrow> 0 < n \<Longrightarrow>
      \<exists>k r'. rd n r = (take k (content r), None, r') \<and> k \<le> n \<and> content r' = drop k (content r) \<and> ok r' \<and> (0 < k \<or> wait r' < wait r)"
    and read_end: "ok r \<Longrightarrow> content r = [] \<Longrightarrow> 0 < n \<Longrightarrow>
      \<exists>r'. content r' = [] \<and> ok r' \<and> (rd n r = ([], Some EOF, r') \<or> rd n r = ([], None, r') \<and> wait r' < wait r)"
begin

lemma read_full_loop:
  assumes "ok r" "length got \<le> n"
  shows "\<exists>r'. ok r' \<and> content r' = drop (n - length got) (content r) \<and>
    ReadFull_loop rd n got r = Some (got @ take (n - length got) (content r),
      if n \<le> length got + length (content r) then None else Some (if got @ content r = [] then EOF else ErrUnexpectedEOF), r')"
  using assms
proof (induction "(n - length got, wait r)" arbitrary: got r rule: wf_induct_rule [OF wf_lex_prod [OF wf_less_than wf_less_than]])
  case (1 got r)
  let ?m = "n - length got"
  show ?case
  proof (cases "n \<le> length got")
    case True
    then show ?thesis using 1(2,3) unfolding ReadFull_loop.simps [of rd n got r] by (intro exI [of _ r]) simp
  next
    case more: False
    then have m: "0 < ?m" by simp
    show ?thesis
    proof (cases "content r = []")
      case True
      obtain r' where r': "content r' = []" "ok r'" "rd ?m r = ([], Some EOF, r') \<or> rd ?m r = ([], None, r') \<and> wait r' < wait r"
        using read_end [OF 1(2) True m] by blast
      show ?thesis
      proof (cases "rd ?m r = ([], Some EOF, r')")
        case eof: True
        then show ?thesis using more True r'(1,2) by (simp add: ReadFull_loop.simps [of rd n got r])
      next
        case False
        then have s: "rd ?m r = ([], None, r')" "wait r' < wait r" using r'(3) by auto
        have eq: "ReadFull_loop rd n got r = ReadFull_loop rd n got r'" using s(1) more by (simp add: ReadFull_loop.simps [of rd n got r])
        have "((n - length got, wait r'), (n - length got, wait r)) \<in> less_than <*lex*> less_than" using s(2) by simp
        from 1(1) [OF this r'(2) 1(3)] show ?thesis unfolding eq by (simp only: r'(1) True)
      qed
    next
      case False
      obtain k r' where s: "rd ?m r = (take k (content r), None, r')" "k \<le> ?m" "content r' = drop k (content r)" "ok r'" "0 < k \<or> wait r' < wait r"
        using read [OF 1(2) False m] by blast
      let ?got = "got @ take k (content r)"
      have step: "ReadFull_loop rd n got r = ReadFull_loop rd n ?got r'" using s(1) more by (simp add: ReadFull_loop.simps [of rd n got r])
      have len: "length ?got \<le> n" using s(2) 1(3) by simp
      have "((n - length ?got, wait r'), (n - length got, wait r)) \<in> less_than <*lex*> less_than"
        using s(5) False m by (cases "k = 0") (auto simp: neq_Nil_conv)
      moreover have "k + (n - (length got + k)) = n - length got" "n - (length got + k) + k = n - length got" using s(2) more by auto
      ultimately show ?thesis using 1(1) [OF _ s(4) len] unfolding step s(3) using s(2) False
        by (cases "k \<le> length (content r)") (auto simp: take_drop [symmetric] take_add [symmetric] split: if_splits)
    qed
  qed
qed

text \<open>What a record reader has before it, and how much it has read.\<close>

definition view :: "'r Reader \<Rightarrow> byte list \<Rightarrow> nat \<Rightarrow> bool" where
  "view r c t \<longleftrightarrow> ok (rd_rdr r) \<and> content (rd_rdr r) = c \<and> rd_total r = t"

lemma read_bytes_ok:
  assumes "view r c t" "n \<le> length c"
  shows "\<exists>s. read_bytes rd n r = Some (take n c, None, r\<lparr>rd_rdr := s\<rparr>) \<and> view (r\<lparr>rd_rdr := s\<rparr>) (drop n c) t"
  using read_full_loop [of "rd_rdr r" "[]" n] assms by (auto simp: read_bytes_def ReadFull_def view_def)

lemma read_bytes_short:
  assumes "view r c t" "length c < n"
  shows "\<exists>s. read_bytes rd n r = Some (c, Some (if c = [] then EOF else ErrUnexpectedEOF), r\<lparr>rd_rdr := s\<rparr>) \<and> view (r\<lparr>rd_rdr := s\<rparr>) [] t"
  using read_full_loop [of "rd_rdr r" "[]" n] assms by (auto simp: read_bytes_def ReadFull_def view_def)

end

definition flag_ok :: "byte \<Rightarrow> bool" where
  "flag_ok f \<longleftrightarrow> f \<in> {0, 8, 16}"

lemma header_facts:
  assumes "flag_ok f" "t \<in> {recFull, recFirst, recMiddle, recLast}"
  shows "recTypeFromHeader (rec_byte t OR f) = t" "header_compression (rec_byte t OR f) = header_compression f"
proof -
  have f: "f = 0 \<or> f = 8 \<or> f = 16" using assms(1) by (simp add: flag_ok_def)
  have t: "t = recFull \<or> t = recFirst \<or> t = recMiddle \<or> t = recLast" using assms(2) by simp
  from f t show "recTypeFromHeader (rec_byte t OR f) = t" "header_compression (rec_byte t OR f) = header_compression f"
    by (elim disjE; simp add: recTypeFromHeader_def header_compression_def recTypeMask_def snappyMask_def zstdMask_def Let_def)+
qed

context io_reader
begin

definition fragment_end :: "codecs \<Rightarrow> byte \<Rightarrow> byte list \<Rightarrow> 'r Reader \<Rightarrow> (go_error option \<times> bool \<times> 'r Reader) option" where
  "fragment_end C h part r =
     (let r = r\<lparr>rd_precomprBuf := rd_precomprBuf r @ part\<rparr> in
      if rd_curRecTyp r = recLast \<or> rd_curRecTyp r = recFull
      then (case compression_Decode C (header_compression h) (rd_precomprBuf r) of
              Inl e \<Rightarrow> Some (Some e, True, r\<lparr>rd_rec := []\<rparr>)
            | Inr x \<Rightarrow> Some (None, True, r\<lparr>rd_rec := x\<rparr>))
      else Some (None, False, r))"

lemma fragment_bytes:
  assumes "view r (drop 1 (frag f t part) @ rest) tot" "length part \<le> pageSize - 7" "validateRecord (rd_curRecTyp r) i = None"
  obtains s where "read_fragment C rd h i r = fragment_end C h part (r\<lparr>rd_rdr := s, rd_total := tot + 6 + length part\<rparr>)" "ok s" "content s = rest"
proof -
  let ?hdr = "PutUint16 (of_nat (length part)) @ PutUint32 (crc32_Checksum part)"
  have c: "drop 1 (frag f t part) @ rest = ?hdr @ part @ rest" by (simp add: frag_def)
  have len: "unat (of_nat (length part) :: uint16) = length part" using assms(2) pageSize_facts(2) by (simp add: unsigned_of_nat take_bit_nat_eq_self)
  obtain s where s: "read_bytes rd 6 r = Some (?hdr, None, r\<lparr>rd_rdr := s\<rparr>)" "view (r\<lparr>rd_rdr := s\<rparr>) (part @ rest) tot"
    using read_bytes_ok [OF assms(1), of 6] unfolding c by auto
  let ?r = "r\<lparr>rd_rdr := s, rd_total := tot + 6\<rparr>"
  have v: "view ?r (part @ rest) (tot + 6)" "rd_total r = tot" using s(2) assms(1) by (simp_all add: view_def)
  obtain s' where s': "read_bytes rd (length part) ?r = Some (part, None, ?r\<lparr>rd_rdr := s'\<rparr>)" "view (?r\<lparr>rd_rdr := s'\<rparr>) rest (tot + 6)"
    using read_bytes_ok [OF v(1), of "length part"] by auto
  have u: "Uint16 ?hdr = Some (of_nat (length part))" "Uint32 (drop 2 ?hdr) = Some (crc32_Checksum part)"
    using Uint32_PutUint32 [of "crc32_Checksum part" "[]"] by simp_all
  have "\<not> pageSize - 7 < length part" using assms(2) by simp
  then have "read_fragment C rd h i r = fragment_end C h part (r\<lparr>rd_rdr := s', rd_total := tot + 6 + length part\<rparr>)"
    using s(1) s'(1) u v(2) len assms(3) by (simp add: read_fragment_def fragment_end_def Let_def)
  moreover have "ok s'" "content s' = rest" using s'(2) by (simp_all add: view_def)
  ultimately show thesis by (rule that)
qed

text \<open>One fragment in the loop.\<close>

lemma loop_first_byte:
  assumes "view r (b # c) tot"
  obtains s where "read_bytes rd 1 r = Some ([b], None, r\<lparr>rd_rdr := s\<rparr>)" "view (r\<lparr>rd_rdr := s, rd_total := tot + 1, rd_curRecTyp := t\<rparr>) c (tot + 1)" "rd_total r = tot"
  using read_bytes_ok [OF assms, of 1] assms by (auto simp: view_def)

lemma loop_fragment:
  assumes "view r (frag f t part @ rest) tot" "length part \<le> pageSize - 7" "flag_ok f" "t \<in> {recFull, recFirst, recMiddle, recLast}" "validateRecord t i = None"
  shows "t \<in> {recFirst, recMiddle} \<Longrightarrow>
      \<exists>r'. nextNew_loop C rd i r = nextNew_loop C rd (Suc i) r' \<and> view r' rest (tot + 7 + length part) \<and> rd_precomprBuf r' = rd_precomprBuf r @ part"
    and "t \<in> {recFull, recLast} \<Longrightarrow> compression_Decode C (header_compression f) (rd_precomprBuf r @ part) = Inr y \<Longrightarrow>
      \<exists>r'. nextNew_loop C rd i r = Some (None, r') \<and> view r' rest (tot + 7 + length part) \<and> rd_rec r' = y \<and> rd_curRecTyp r' = t"
proof -
  have fr: "frag f t part @ rest = (rec_byte t OR f) # (drop 1 (frag f t part) @ rest)" by (simp add: frag_def)
  obtain s where s: "read_bytes rd 1 r = Some ([rec_byte t OR f], None, r\<lparr>rd_rdr := s\<rparr>)"
      "view (r\<lparr>rd_rdr := s, rd_total := tot + 1, rd_curRecTyp := t\<rparr>) (drop 1 (frag f t part) @ rest) (tot + 1)" "rd_total r = tot"
    using loop_first_byte [of r "rec_byte t OR f" "drop 1 (frag f t part) @ rest" tot t] assms(1) unfolding fr by blast
  note h = header_facts [OF assms(3,4)]
  let ?r = "r\<lparr>rd_rdr := s, rd_total := tot + 1, rd_curRecTyp := t\<rparr>"
  obtain s' where rf: "read_fragment C rd (rec_byte t OR f) i ?r = fragment_end C (rec_byte t OR f) part (?r\<lparr>rd_rdr := s', rd_total := tot + 1 + 6 + length part\<rparr>)"
    and s': "ok s'" "content s' = rest"
    by (rule fragment_bytes [OF s(2) assms(2), of i C "rec_byte t OR f"]) (use assms(5) in auto)
  have ne: "t \<noteq> recPageTerm" using assms(4) by auto
  have step: "nextNew_loop C rd i r = Option.bind (read_fragment C rd (rec_byte t OR f) i ?r)
      (\<lambda>(err, ret, r). if ret then Some (err, r) else nextNew_loop C rd (Suc i) r)"
    using s(1,3) h(1) ne by (simp add: nextNew_loop.simps [of C rd i r])
  show "\<exists>r'. nextNew_loop C rd i r = nextNew_loop C rd (Suc i) r' \<and> view r' rest (tot + 7 + length part) \<and> rd_precomprBuf r' = rd_precomprBuf r @ part"
    if "t \<in> {recFirst, recMiddle}" unfolding step rf using that s' h(2) by (auto simp: view_def fragment_end_def Let_def)
  show "\<exists>r'. nextNew_loop C rd i r = Some (None, r') \<and> view r' rest (tot + 7 + length part) \<and> rd_rec r' = y \<and> rd_curRecTyp r' = t"
    if "t \<in> {recFull, recLast}" "compression_Decode C (header_compression f) (rd_precomprBuf r @ part) = Inr y"
    unfolding step rf using that s' h(2) by (auto simp: view_def fragment_end_def Let_def)
qed

lemma read_record:
  assumes "fragments f a i enc bs x" "flag_ok f" "view r (bs @ rest) tot" "compression_Decode C (header_compression f) (rd_precomprBuf r @ enc) = Inr y"
  shows "\<exists>r'. nextNew_loop C rd i r = Some (None, r') \<and> view r' rest (tot + length bs) \<and> rd_rec r' = y \<and> rd_curRecTyp r' \<in> {recFull, recLast}"
  using assms
proof (induction arbitrary: r tot rule: fragments.induct)
  case (last a enc i)
  let ?t = "if i = 0 then recFull else recLast"
  have "\<exists>r'. nextNew_loop C rd i r = Some (None, r') \<and> view r' rest (tot + 7 + length enc) \<and> rd_rec r' = y \<and> rd_curRecTyp r' = ?t"
    by (rule loop_fragment(2) [OF last(3)]) (use last in \<open>auto simp: validateRecord_def\<close>)
  then show ?case by (auto simp: add.assoc)
next
  case (more a enc i bs x)
  let ?t = "if i = 0 then recFirst else recMiddle" and ?p = "take (pageSize - a - 7) enc"
  have v: "view r (frag f ?t ?p @ (bs @ rest)) tot" using more.prems(2) by simp
  have "\<exists>r'. nextNew_loop C rd i r = nextNew_loop C rd (Suc i) r' \<and> view r' (bs @ rest) (tot + 7 + length ?p) \<and> rd_precomprBuf r' = rd_precomprBuf r @ ?p"
    by (rule loop_fragment(1) [OF v]) (use more.prems in \<open>auto simp: validateRecord_def\<close>)
  then obtain r' where r': "nextNew_loop C rd i r = nextNew_loop C rd (Suc i) r'" "view r' (bs @ rest) (tot + 7 + length ?p)" "rd_precomprBuf r' = rd_precomprBuf r @ ?p" by blast
  have "compression_Decode C (header_compression f) (rd_precomprBuf r' @ drop (pageSize - a - 7) enc) = Inr y" using r'(3) more.prems(3) by simp
  from more.IH [OF more.prems(1) r'(2) this] show ?case unfolding r'(1) by (auto simp: add.assoc)
qed

lemma pad_arith:
  assumes "0 < k" "k \<le> pageSize" "(t + k) mod pageSize = 0"
  shows "pageSize - Suc t mod pageSize = (if k = 1 then pageSize else k - 1)"
proof (cases "k = 1")
  case True
  then show ?thesis using assms(3) by simp
next
  case False
  let ?m = "Suc t mod pageSize"
  have m: "?m < pageSize" using pageSize_facts(3) by simp
  have "(?m + (k - 1)) mod pageSize = (Suc t + (k - 1)) mod pageSize" by (rule mod_add_left_eq)
  then have d: "(?m + (k - 1)) mod pageSize = 0" using assms(1,3) by simp
  have "?m + (k - 1) < pageSize + pageSize" using m assms(2) by linarith
  moreover have "0 < ?m + (k - 1)" using assms(1) False by simp
  ultimately have "?m + (k - 1) = pageSize" using d by (metis (no_types) le_mod_geq linorder_not_less mod_less neq0_conv add_diff_cancel_left' less_diff_conv2 nat_diff_split_asm diff_is_0_eq le_antisym)
  then show ?thesis using False by simp
qed

lemma skip_zeros:
  assumes "view r (replicate k 0 @ rest) tot" "0 < k" "k \<le> pageSize" "(tot + k) mod pageSize = 0"
  shows "\<exists>r'. nextNew_loop C rd i r = nextNew_loop C rd i r' \<and> view r' rest (tot + k) \<and> rd_precomprBuf r' = rd_precomprBuf r \<and> rd_err r' = rd_err r \<and> rd_curRecTyp r' = recPageTerm"
proof -
  have c: "replicate k 0 @ rest = 0 # (replicate (k - 1) 0 @ rest)" using assms(2) by (cases k) simp_all
  obtain s where s: "read_bytes rd 1 r = Some ([0], None, r\<lparr>rd_rdr := s\<rparr>)" "view (r\<lparr>rd_rdr := s, rd_total := tot + 1, rd_curRecTyp := recPageTerm\<rparr>) (replicate (k - 1) 0 @ rest) (tot + 1)"
      "rd_total r = tot" using loop_first_byte [of r 0 "replicate (k - 1) 0 @ rest" tot recPageTerm] assms(1) unfolding c by blast
  let ?r = "r\<lparr>rd_rdr := s, rd_total := tot + 1, rd_curRecTyp := recPageTerm\<rparr>"
  have h: "recTypeFromHeader 0 = recPageTerm" by (simp add: recTypeFromHeader_def)
  note arith = pad_arith [OF assms(2,3,4)]
  show ?thesis
  proof (cases "k = 1")
    case True
    then have "nextNew_loop C rd i r = nextNew_loop C rd i ?r" using s(1,3) h arith by (simp add: nextNew_loop.simps [of C rd i r])
    then show ?thesis using s(2) True by auto
  next
    case False
    obtain s' where s': "read_bytes rd (k - 1) ?r = Some (replicate (k - 1) 0, None, ?r\<lparr>rd_rdr := s'\<rparr>)" "view (?r\<lparr>rd_rdr := s'\<rparr>) rest (tot + 1)"
      using read_bytes_ok [OF s(2), of "k - 1"] by auto
    let ?r' = "?r\<lparr>rd_rdr := s', rd_total := tot + k\<rparr>"
    have "k - 1 \<noteq> pageSize" using assms(2,3) by simp
    then have "nextNew_loop C rd i r = nextNew_loop C rd i ?r'" using s(1,3) h arith False s'(1) assms(2) by (simp add: nextNew_loop.simps [of C rd i r])
    moreover have "view ?r' rest (tot + k)" using s'(2) by (simp add: view_def)
    ultimately show ?thesis by auto
  qed
qed

text \<open>The position in the page when \<open>k\<close> zeros are still to be skipped.\<close>

definition pending :: "nat \<Rightarrow> nat \<Rightarrow> nat \<Rightarrow> bool" where
  "pending k tot a \<longleftrightarrow> (if k = 0 then tot mod pageSize = a else k \<le> pageSize \<and> (tot + k) mod pageSize = 0 \<and> a = 0)"

lemma skip_pending:
  assumes "view r (replicate k 0 @ rest) tot" "pending k tot a"
  shows "\<exists>r'. nextNew_loop C rd i r = nextNew_loop C rd i r' \<and> view r' rest (tot + k) \<and> (tot + k) mod pageSize = a \<and>
    rd_precomprBuf r' = rd_precomprBuf r \<and> rd_err r' = rd_err r \<and> rd_curRecTyp r' \<in> {rd_curRecTyp r, recPageTerm}"
proof (cases "k = 0")
  case True
  then show ?thesis using assms by (auto simp: pending_def)
next
  case False
  then show ?thesis using skip_zeros [OF assms(1), of C i] assms(2) by (auto simp: pending_def)
qed

definition settled :: "'r Reader \<Rightarrow> bool" where
  "settled r \<longleftrightarrow> rd_err r = None \<and> rd_curRecTyp r \<noteq> recFirst \<and> rd_curRecTyp r \<noteq> recMiddle"

lemma next_end:
  assumes "view r (replicate k 0) tot" "pending k tot a" "settled r"
  shows "\<exists>r'. Reader_Next C rd r = Some (False, r') \<and> rd_err r' = None"
proof -
  let ?r = "r\<lparr>rd_precomprBuf := []\<rparr>"
  have v: "view ?r (replicate k 0 @ []) tot" using assms(1) by (simp add: view_def)
  obtain r' where r': "nextNew_loop C rd 0 ?r = nextNew_loop C rd 0 r'" "view r' [] (tot + k)" "rd_err r' = None" "rd_curRecTyp r' \<noteq> recFirst" "rd_curRecTyp r' \<noteq> recMiddle"
    using skip_pending [OF v assms(2), of C 0] assms(3) by (auto simp: settled_def)
  obtain s where "read_bytes rd 1 r' = Some ([], Some EOF, r'\<lparr>rd_rdr := s\<rparr>)" using read_bytes_short [OF r'(2), of 1] by auto
  then have "nextNew_loop C rd 0 r' = Some (Some EOF, r'\<lparr>rd_rdr := s\<rparr>)" by (simp add: nextNew_loop.simps [of C rd 0 r'])
  then show ?thesis using r' by (auto simp: Reader_Next_def nextNew_def)
qed

lemma next_item:
  assumes "view r (replicate k 0 @ fs @ rest) tot" "pending k tot a" "fragments f a 0 enc fs x" "flag_ok f" "compression_Decode C (header_compression f) enc = Inr y"
  shows "\<exists>r'. Reader_Next C rd r = Some (True, r') \<and> view r' rest (tot + k + length fs) \<and> rd_rec r' = y \<and> settled r' \<and> (tot + k) mod pageSize = a"
proof -
  let ?r = "r\<lparr>rd_precomprBuf := []\<rparr>"
  have v: "view ?r (replicate k 0 @ fs @ rest) tot" using assms(1) by (simp add: view_def)
  obtain r' where r': "nextNew_loop C rd 0 ?r = nextNew_loop C rd 0 r'" "view r' (fs @ rest) (tot + k)" "rd_precomprBuf r' = []" "(tot + k) mod pageSize = a"
    using skip_pending [OF v assms(2), of C 0] by auto
  have "compression_Decode C (header_compression f) (rd_precomprBuf r' @ enc) = Inr y" using assms(5) r'(3) by simp
  from read_record [OF assms(3,4) r'(2) this] obtain r'' where
    "nextNew_loop C rd 0 r' = Some (None, r'')" "view r'' rest (tot + k + length fs)" "rd_rec r'' = y" "rd_curRecTyp r'' \<in> {recFull, recLast}" by blast
  then show ?thesis using r'(1,4) by (auto simp: Reader_Next_def nextNew_def view_def settled_def)
qed

lemma pending_after:
  assumes "fragments f a i enc fs x" "t mod pageSize = a"
  shows "pending (pad x) (t + length fs) (norm x)"
proof -
  note b = fragments_bounds [OF assms(1)]
  have "(t + length fs) mod pageSize = (a + length fs) mod pageSize" unfolding assms(2) [symmetric] by (rule mod_add_left_eq [symmetric])
  then have t: "(t + length fs) mod pageSize = x mod pageSize" using b by simp
  have "(t + length fs + pad x) mod pageSize = (x + pad x) mod pageSize" by (rule mod_add_cong [OF t refl])
  then show ?thesis using t b pageSize_facts norm_pad(1) [of x] by (auto simp: pending_def pad_def norm_def split: if_splits)
qed

lemma read_logged:
  assumes "logged a its bs b" "view r (replicate k 0 @ bs) tot" "pending k tot a" "settled r" "a + 7 \<le> pageSize"
    and "\<forall>(f, enc) \<in> set its. flag_ok f \<and> compression_Decode C (header_compression f) enc = Inr (dec (f, enc))"
  shows "read_all C rd r = Some (map dec its, None)"
  using assms
proof (induction arbitrary: r k tot rule: logged.induct)
  case (none a)
  then show ?case using next_end [of r k tot a C] by (auto simp: read_all.simps [of C rd r])
next
  case (fill a its bs b)
  have k: "k = 0" "tot mod pageSize = a" using fill.hyps(1) fill.prems(2) by (auto simp: pending_def split: if_splits)
  have "(tot + (pageSize - a)) mod pageSize = (a + (pageSize - a)) mod pageSize" by (rule mod_add_cong) (use k(2) fill.hyps(2) in auto)
  then have "pending (pageSize - a) tot 0" using fill.hyps(2) by (auto simp: pending_def)
  then show ?case using fill.IH [of r "pageSize - a" tot] fill.prems k(1) pageSize_facts by simp
next
  case (item f a enc fs x its bs b)
  have v: "view r (replicate k 0 @ fs @ (replicate (pad x) 0 @ bs)) tot" using item.prems(1) by simp
  have d: "flag_ok f" "compression_Decode C (header_compression f) enc = Inr (dec (f, enc))" using item.prems(5) by auto
  obtain r' where r': "Reader_Next C rd r = Some (True, r')" "view r' (replicate (pad x) 0 @ bs) (tot + k + length fs)" "rd_rec r' = dec (f, enc)" "settled r'" "(tot + k) mod pageSize = a"
    using next_item [OF v item.prems(2) item.hyps(1) d] by blast
  have "read_all C rd r' = Some (map dec its, None)"
    using item.IH [OF r'(2) pending_after [OF item.hyps(1) r'(5)] r'(4) norm_pad(2)] item.prems(5) by simp
  then show ?case using r'(1,3) by (simp add: read_all.simps [of C rd r])
qed

end

subsection \<open>Bytes and segments\<close>

interpretation plain: io_reader bytes_Read "\<lambda>s. s" "\<lambda>_. 0" "\<lambda>_. True"
proof
  fix r :: "byte list" and n :: nat
  show "\<exists>k r'. bytes_Read n r = (take k r, None, r') \<and> k \<le> n \<and> r' = drop k r \<and> True \<and> (0 < k \<or> (0 :: nat) < 0)" if "r \<noteq> []" "0 < n"
    using that by (intro exI [of _ n]) (simp add: bytes_Read_def)
  show "\<exists>r'. r' = [] \<and> True \<and> (bytes_Read n r = ([], Some EOF, r') \<or> bytes_Read n r = ([], None, r') \<and> (0 :: nat) < 0)" if "r = []"
    using that by (simp add: bytes_Read_def)
qed

text \<open>Zeros up to a page boundary.\<close>

definition padding :: "nat \<Rightarrow> nat" where
  "padding n = (pageSize - n mod pageSize) mod pageSize"

definition padded :: "byte list \<Rightarrow> byte list" where
  "padded s = s @ replicate (padding (length s)) 0"

lemma padding_cases: "padding n = (if n mod pageSize = 0 then 0 else pageSize - n mod pageSize)"
  using pageSize_facts(3) by (simp add: padding_def)

lemma padding_add: "i \<le> padding n \<Longrightarrow> padding (n + i) = padding n - i"
proof -
  assume i: "i \<le> padding n"
  let ?m = "n mod pageSize"
  have e: "(n + i) mod pageSize = (?m + i) mod pageSize" by (rule mod_add_left_eq [symmetric])
  have "?m < pageSize" using pageSize_facts(3) by simp
  then show ?thesis using i unfolding padding_cases e by (cases "?m + i = pageSize") (auto split: if_splits)
qed

definition seg_content :: "segmentBufReader \<Rightarrow> byte list" where
  "seg_content r = sbr_buf r @ replicate (padding (sbr_off r + length (sbr_buf r))) 0 @ concat (map padded (drop (Suc (sbr_cur r)) (sbr_segs r)))"

definition seg_ok :: "segmentBufReader \<Rightarrow> bool" where
  "seg_ok r \<longleftrightarrow> (if sbr_segs r = [] then sbr_buf r = [] \<and> sbr_off r = 0 else sbr_cur r < length (sbr_segs r))"

lemma seg_read_data:
  assumes "sbr_segs r \<noteq> []" "sbr_buf r \<noteq> []" "0 < n"
  shows "\<exists>k r'. segmentBufReader_Read n r = (take k (seg_content r), None, r') \<and> k \<le> n \<and> 0 < k \<and> seg_content r' = drop k (seg_content r) \<and>
    sbr_segs r' = sbr_segs r \<and> sbr_cur r' = sbr_cur r"
proof -
  let ?k = "min n (length (sbr_buf r))"
  have "take ?k (seg_content r) = take n (sbr_buf r)" by (simp add: seg_content_def min_def)
  moreover have "sbr_off r + ?k + (length (sbr_buf r) - n) = sbr_off r + length (sbr_buf r)" by simp
  ultimately show ?thesis using assms
    by (intro exI [of _ ?k] exI [of _ "r\<lparr>sbr_buf := drop n (sbr_buf r), sbr_off := sbr_off r + ?k\<rparr>"])
       (auto simp: segmentBufReader_Read_def bytes_Read_def Let_def seg_content_def min_def)
qed

lemma seg_read_zeros:
  assumes "sbr_segs r \<noteq> []" "sbr_buf r = []" "sbr_off r mod pageSize \<noteq> 0" "0 < n"
  shows "\<exists>k r'. segmentBufReader_Read n r = (take k (seg_content r), None, r') \<and> k \<le> n \<and> 0 < k \<and> seg_content r' = drop k (seg_content r) \<and>
    sbr_segs r' = sbr_segs r \<and> sbr_cur r' = sbr_cur r"
proof -
  let ?k = "min n (padding (sbr_off r))"
  have p: "padding (sbr_off r) = pageSize - sbr_off r mod pageSize" "0 < padding (sbr_off r)" using assms(3) pageSize_facts(3) by (simp_all add: padding_cases)
  have "padding (sbr_off r + ?k) = padding (sbr_off r) - ?k" by (rule padding_add) simp
  then show ?thesis using assms p
    by (intro exI [of _ ?k] exI [of _ "r\<lparr>sbr_buf := [], sbr_off := sbr_off r + ?k\<rparr>"])
       (auto simp: segmentBufReader_Read_def bytes_Read_def Let_def seg_content_def)
qed

lemma seg_read_next:
  assumes "sbr_segs r \<noteq> []" "sbr_buf r = []" "sbr_off r mod pageSize = 0" "Suc (sbr_cur r) < length (sbr_segs r)"
  shows "\<exists>r'. segmentBufReader_Read n r = ([], None, r') \<and> seg_content r' = seg_content r \<and> sbr_segs r' = sbr_segs r \<and> sbr_cur r' = Suc (sbr_cur r)"
proof -
  have "drop (Suc (sbr_cur r)) (sbr_segs r) = sbr_segs r ! Suc (sbr_cur r) # drop (Suc (Suc (sbr_cur r))) (sbr_segs r)"
    using assms(4) by (simp add: Cons_nth_drop_Suc)
  then show ?thesis using assms by (auto simp: segmentBufReader_Read_def bytes_Read_def Let_def seg_content_def padding_cases padded_def)
qed

interpretation segs: io_reader segmentBufReader_Read seg_content "\<lambda>r. length (sbr_segs r) - sbr_cur r" seg_ok
proof
  fix r and n :: nat
  assume n: "0 < n" and ok: "seg_ok r"
  show "\<exists>k r'. segmentBufReader_Read n r = (take k (seg_content r), None, r') \<and> k \<le> n \<and> seg_content r' = drop k (seg_content r) \<and> seg_ok r' \<and>
      (0 < k \<or> length (sbr_segs r') - sbr_cur r' < length (sbr_segs r) - sbr_cur r)" if c: "seg_content r \<noteq> []"
  proof -
    have ne: "sbr_segs r \<noteq> []" using c ok by (auto simp: seg_content_def seg_ok_def padding_cases)
    then have cur: "sbr_cur r < length (sbr_segs r)" using ok by (simp add: seg_ok_def)
    consider "sbr_buf r \<noteq> []" | "sbr_buf r = []" "sbr_off r mod pageSize \<noteq> 0" | "sbr_buf r = []" "sbr_off r mod pageSize = 0" by blast
    then show ?thesis
    proof cases
      case 1
      then show ?thesis using seg_read_data [OF ne 1 n] ok unfolding seg_ok_def by (metis cur ne)
    next
      case 2
      then show ?thesis using seg_read_zeros [OF ne 2 n] ok unfolding seg_ok_def by (metis cur ne)
    next
      case 3
      have "Suc (sbr_cur r) < length (sbr_segs r)" using c 3 by (cases "Suc (sbr_cur r) < length (sbr_segs r)") (simp_all add: seg_content_def padding_cases)
      then show ?thesis using seg_read_next [OF ne 3, of n] by (intro exI [of _ 0]) (auto simp: seg_ok_def)
    qed
  qed
  show "\<exists>r'. seg_content r' = [] \<and> seg_ok r' \<and> (segmentBufReader_Read n r = ([], Some EOF, r') \<or>
      segmentBufReader_Read n r = ([], None, r') \<and> length (sbr_segs r') - sbr_cur r' < length (sbr_segs r) - sbr_cur r)" if c: "seg_content r = []"
  proof (cases "sbr_segs r = []")
    case True
    then show ?thesis using c ok by (auto simp: segmentBufReader_Read_def)
  next
    case ne: False
    have b: "sbr_buf r = []" "sbr_off r mod pageSize = 0" using c mod_less_divisor [OF pageSize_facts(3), of "sbr_off r"] by (auto simp: seg_content_def padding_cases split: if_splits)
    show ?thesis
    proof (cases "Suc (sbr_cur r) < length (sbr_segs r)")
      case True
      then show ?thesis using seg_read_next [OF ne b True, of n] c by (auto simp: seg_ok_def)
    next
      case False
      then have "segmentBufReader_Read n r = ([], Some EOF, r)" using ne b by (cases r) (simp add: segmentBufReader_Read_def bytes_Read_def Let_def)
      then show ?thesis using c ok by blast
    qed
  qed
qed

end
