(* ===== verification/WlogWriter.thy ===== *)
theory WlogWriter
  imports WlogCorrect
begin

text \<open>
  The writing side of the log: every call appends fragments to the active segment in the format that the
  readers understand.
\<close>

section \<open>Pages and segments\<close>

text \<open>The bytes of the active page that are not yet in the file, and the active segment with them.\<close>

definition unflushed :: "WL \<Rightarrow> byte list" where
  "unflushed w = take (pg_alloc (wl_page w) - pg_flushed (wl_page w)) (drop (pg_flushed (wl_page w)) (pg_buf (wl_page w)))"

definition stream :: "WL \<Rightarrow> byte list" where
  "stream w = last (wl_files w) @ unflushed w"

definition page_ok :: "page \<Rightarrow> bool" where
  "page_ok p \<longleftrightarrow> length (pg_buf p) = pageSize \<and> pg_flushed p \<le> pg_alloc p \<and> pg_alloc p \<le> pageSize \<and>
     drop (pg_alloc p) (pg_buf p) = replicate (pageSize - pg_alloc p) 0"

definition wal_ok :: "WL \<Rightarrow> bool" where
  "wal_ok w \<longleftrightarrow> wl_files w \<noteq> [] \<and> wl_faults w = [] \<and> \<not> wl_closed w \<and> page_ok (wl_page w) \<and>
     int (length (stream w)) = wl_donePages w * int pageSize + int (pg_alloc (wl_page w))"

text \<open>The parts of the log that an append leaves alone.\<close>

definition same_frame :: "WL \<Rightarrow> WL \<Rightarrow> bool" where
  "same_frame w w' \<longleftrightarrow> wl_segmentSize w' = wl_segmentSize w \<and> wl_compress w' = wl_compress w"

lemma page_ok_new: "page_ok new_page" "page_ok p \<Longrightarrow> page_ok (page_reset p)"
proof -
  have z: "map (\<lambda>_. 0) xs = replicate (length xs) (0 :: byte)" for xs :: "byte list" by (induction xs) simp_all
  show "page_ok new_page" "page_ok p \<Longrightarrow> page_ok (page_reset p)" by (simp_all add: page_ok_def new_page_def page_reset_def z)
qed

lemma flushPage_clear:
  assumes "wal_ok w"
  shows "\<exists>w'. flushPage True w = (None, w') \<and> wal_ok w' \<and> wl_files w' = butlast (wl_files w) @ [stream w @ replicate (pageSize - pg_alloc (wl_page w)) 0] \<and>
    pg_alloc (wl_page w') = 0 \<and> unflushed w' = [] \<and> same_frame w w'"
proof -
  let ?p = "wl_page w"
  have p: "length (pg_buf ?p) = pageSize" "pg_flushed ?p \<le> pg_alloc ?p" "pg_alloc ?p \<le> pageSize"
      "drop (pg_alloc ?p) (pg_buf ?p) = replicate (pageSize - pg_alloc ?p) 0" using assms by (simp_all add: wal_ok_def page_ok_def)
  have "take (pageSize - pg_flushed ?p) (drop (pg_flushed ?p) (pg_buf ?p)) = drop (pg_flushed ?p) (pg_buf ?p)" using p(1) by simp
  also have "\<dots> = unflushed w @ drop (pg_alloc ?p - pg_flushed ?p) (drop (pg_flushed ?p) (pg_buf ?p))" by (simp only: unflushed_def append_take_drop_id)
  also have "drop (pg_alloc ?p - pg_flushed ?p) (drop (pg_flushed ?p) (pg_buf ?p)) = replicate (pageSize - pg_alloc ?p) 0" using p(2,4) by simp
  finally have b: "take (pageSize - pg_flushed ?p) (drop (pg_flushed ?p) (pg_buf ?p)) = unflushed w @ replicate (pageSize - pg_alloc ?p) 0" .
  have r: "page_ok (page_reset (?p\<lparr>pg_alloc := pageSize, pg_flushed := n\<rparr>))" for n
    using page_ok_new(2) [of ?p] assms by (simp add: wal_ok_def page_reset_def page_ok_def)
  have "length (unflushed w) = pg_alloc ?p - pg_flushed ?p" using p(1-3) by (simp add: unflushed_def)
  then have "int (length (last (wl_files w))) + int (pageSize - pg_flushed ?p) = wl_donePages w * int pageSize + int pageSize"
    using assms p(2,3) by (simp add: wal_ok_def stream_def)
  then have pos: "int (length (last (wl_files w))) + int (pageSize - pg_flushed ?p) = (wl_donePages w + 1) * int pageSize" by (simp add: algebra_simps)
  show ?thesis using assms b r p(1) pos
    by (simp add: flushPage_def Let_def segment_Write_def wal_ok_def same_frame_def stream_def unflushed_def page_reset_def)
qed

lemma flushPage_keep:
  assumes "wal_ok w" "pg_alloc (wl_page w) + 7 \<le> pageSize"
  shows "\<exists>w'. flushPage False w = (None, w') \<and> wal_ok w' \<and> wl_files w' = butlast (wl_files w) @ [stream w] \<and>
    pg_alloc (wl_page w') = pg_alloc (wl_page w) \<and> unflushed w' = [] \<and> same_frame w w'"
proof -
  let ?p = "wl_page w"
  have p: "length (pg_buf ?p) = pageSize" "pg_flushed ?p \<le> pg_alloc ?p" "pg_alloc ?p \<le> pageSize"
      "drop (pg_alloc ?p) (pg_buf ?p) = replicate (pageSize - pg_alloc ?p) 0" using assms by (simp_all add: wal_ok_def page_ok_def)
  have "\<not> page_full ?p" using assms(2) by (simp add: page_full_def)
  moreover have "length (unflushed w) = pg_alloc ?p - pg_flushed ?p" using p(1-3) by (simp add: unflushed_def)
  ultimately show ?thesis using assms p
    by (simp add: flushPage_def Let_def segment_Write_def wal_ok_def same_frame_def stream_def unflushed_def page_ok_def)
qed

text \<open>Writing a fragment into the page.\<close>

definition put_bytes :: "byte list \<Rightarrow> WL \<Rightarrow> WL" where
  "put_bytes bs w = w\<lparr>wl_page := (wl_page w)\<lparr>pg_buf := overwrite (pg_alloc (wl_page w)) bs (pg_buf (wl_page w)), pg_alloc := pg_alloc (wl_page w) + length bs\<rparr>\<rparr>"

lemma put_bytes_simps [simp]:
  "pg_alloc (wl_page (put_bytes bs w)) = pg_alloc (wl_page w) + length bs" "wl_files (put_bytes bs w) = wl_files w"
  "same_frame (put_bytes bs w) w' \<longleftrightarrow> same_frame w w'"
  by (simp_all add: put_bytes_def same_frame_def)

lemma put_in_page:
  assumes "wal_ok w" "pg_alloc (wl_page w) + length bs \<le> pageSize"
  shows "wal_ok (put_bytes bs w)" "unflushed (put_bytes bs w) = unflushed w @ bs"
proof -
  let ?p = "wl_page w"
  have p: "length (pg_buf ?p) = pageSize" "pg_flushed ?p \<le> pg_alloc ?p" "pg_alloc ?p \<le> pageSize"
      "drop (pg_alloc ?p) (pg_buf ?p) = replicate (pageSize - pg_alloc ?p) 0" using assms by (simp_all add: wal_ok_def page_ok_def)
  have "drop (pg_alloc ?p + length bs) (pg_buf ?p) = drop (length bs) (drop (pg_alloc ?p) (pg_buf ?p))" by (simp add: add.commute)
  also have "\<dots> = replicate (pageSize - pg_alloc ?p - length bs) 0" by (simp only: p(4) drop_replicate)
  finally have buf: "overwrite (pg_alloc ?p) bs (pg_buf ?p) = take (pg_alloc ?p) (pg_buf ?p) @ bs @ replicate (pageSize - pg_alloc ?p - length bs) 0"
    by (simp only: overwrite_def)
  show u: "unflushed (put_bytes bs w) = unflushed w @ bs" using p(1-3) by (simp add: put_bytes_def unflushed_def buf drop_take)
  have "page_ok (wl_page (put_bytes bs w))" using assms(2) p buf by (simp add: put_bytes_def page_ok_def)
  moreover have "int (length (stream (put_bytes bs w))) = wl_donePages w * int pageSize + int (pg_alloc ?p + length bs)"
    using assms(1) u by (simp add: stream_def wal_ok_def)
  ultimately show "wal_ok (put_bytes bs w)" using assms(1) by (simp add: wal_ok_def put_bytes_def)
qed

text \<open>The loop over the fragments of a record.\<close>

lemma norm_pad_full:
  assumes "wal_ok w" "page_full (wl_page w) \<longleftrightarrow> pageSize < pg_alloc (wl_page w) + 7"
  shows "\<exists>w'. (if page_full (wl_page w) then flushPage True w else (None, w)) = (None, w') \<and> wal_ok w' \<and> pg_alloc (wl_page w') = norm (pg_alloc (wl_page w)) \<and>
    stream w' = stream w @ replicate (pad (pg_alloc (wl_page w))) 0 \<and> butlast (wl_files w') = butlast (wl_files w) \<and> same_frame w w'"
proof (cases "page_full (wl_page w)")
  case True
  obtain w' where "flushPage True w = (None, w')" "wal_ok w'" "wl_files w' = butlast (wl_files w) @ [stream w @ replicate (pageSize - pg_alloc (wl_page w)) 0]"
      "pg_alloc (wl_page w') = 0" "unflushed w' = []" "same_frame w w'" using flushPage_clear [OF assms(1)] by blast
  then show ?thesis using True assms(2) by (auto simp: norm_def pad_def stream_def [of w'])
next
  case False
  then show ?thesis using assms by (auto simp: norm_def pad_def same_frame_def)
qed

lemma page_full_iff: "page_full p \<longleftrightarrow> pageSize < pg_alloc p + 7"
  by (auto simp: page_full_def)

definition frag_type :: "nat \<Rightarrow> byte list \<Rightarrow> byte list \<Rightarrow> recType" where
  "frag_type i part enc = (if i = 0 \<and> length part = length enc then recFull
     else if length part = length enc then recLast else if i = 0 then recFirst else recMiddle)"

lemma log_loop_step:
  assumes "compression_flag c = Some f" "min (int (length enc)) (int pageSize - int (pg_alloc (wl_page w)) - int recordHeaderSize) = int l"
    and w1: "w1 = put_bytes (frag f (frag_type i (take l enc) enc) (take l enc)) w"
    and fl: "(if page_full (wl_page w1) then flushPage True w1 else (None, w1)) = (None, w2)"
  shows "log_loop c i enc w = (if drop l enc \<noteq> [] then log_loop c (Suc i) (drop l enc) w2 else Some (None, w2))"
proof -
  let ?part = "take l enc"
  have p: "(wl_page w)\<lparr>pg_buf := overwrite (pg_alloc (wl_page w)) (([rec_byte (frag_type i ?part enc) OR f] @ PutUint16 (of_nat (length ?part)) @
        PutUint32 (crc32_Checksum ?part)) @ ?part) (pg_buf (wl_page w)), pg_alloc := pg_alloc (wl_page w) + length ?part + recordHeaderSize\<rparr> = wl_page w1"
    unfolding w1 put_bytes_def frag_def by simp
  have w: "w\<lparr>wl_page := wl_page w1\<rparr> = w1" unfolding w1 put_bytes_def by simp
  have l: "\<not> int l < 0" by simp
  show ?thesis
    unfolding log_loop.simps [of c i enc w] Let_def assms(1,2) if_not_P [OF l] option.case nat_int frag_type_def [symmetric] p w fl prod.case by simp
qed

lemma log_loop_ok:
  assumes "wal_ok w" "pg_alloc (wl_page w) + 7 \<le> pageSize" "compression_flag c = Some f"
  shows "\<exists>w' fs x. log_loop c i enc w = Some (None, w') \<and> fragments f (pg_alloc (wl_page w)) i enc fs x \<and> wal_ok w' \<and> pg_alloc (wl_page w') = norm x \<and>
    stream w' = stream w @ fs @ replicate (pad x) 0 \<and> butlast (wl_files w') = butlast (wl_files w) \<and> same_frame w w'"
  using assms(1,2)
proof (induction "2 * length enc + (if pg_alloc (wl_page w) = 0 then 0 else 1)" arbitrary: i enc w rule: less_induct)
  case less
  let ?a = "pg_alloc (wl_page w)"
  define l where "l = min (length enc) (pageSize - ?a - 7)"
  define t where "t = frag_type i (take l enc) enc"
  define w1 where "w1 = put_bytes (frag f t (take l enc)) w"
  have l: "min (int (length enc)) (int pageSize - int ?a - int recordHeaderSize) = int l" using less.prems(2) by (auto simp: l_def)
  have len: "length (take l enc) = l" by (simp add: l_def)
  have fit: "?a + length (frag f t (take l enc)) \<le> pageSize" using less.prems(2) by (auto simp: l_def)
  note put = put_in_page [OF less.prems(1) fit, folded w1_def]
  have s1: "stream w1 = stream w @ frag f t (take l enc)" "butlast (wl_files w1) = butlast (wl_files w)" "pg_alloc (wl_page w1) = ?a + 7 + l"
    using put(2) len by (simp_all add: stream_def w1_def)
  obtain w2 where w2: "(if page_full (wl_page w1) then flushPage True w1 else (None, w1)) = (None, w2)" "wal_ok w2" "pg_alloc (wl_page w2) = norm (?a + 7 + l)"
      "stream w2 = stream w @ frag f t (take l enc) @ replicate (pad (?a + 7 + l)) 0" "butlast (wl_files w2) = butlast (wl_files w)" "same_frame w1 w2"
    using norm_pad_full [OF put(1) page_full_iff] s1 by (metis append.assoc)
  have fr: "same_frame w w2" using w2(6) by (simp add: w1_def)
  have step: "log_loop c i enc w = (if drop l enc \<noteq> [] then log_loop c (Suc i) (drop l enc) w2 else Some (None, w2))"
    by (rule log_loop_step [OF assms(3) l _ w2(1)]) (simp add: w1_def t_def)
  show ?case
  proof (cases "length enc \<le> pageSize - ?a - 7")
    case True
    then have e: "?a + 7 + length enc \<le> pageSize" "l = length enc" "t = (if i = 0 then recFull else recLast)"
      using less.prems(2) by (auto simp: l_def t_def frag_type_def)
    show ?thesis using step w2 fragments.last [OF e(1), of f i] fr e(2,3) by (intro exI [of _ w2] exI conjI) auto
  next
    case False
    let ?n = "pageSize - ?a - 7"
    have n: "l = ?n" "drop l enc \<noteq> []" "?a + 7 + l = pageSize" "t = (if i = 0 then recFirst else recMiddle)"
      using False less.prems(2) len by (auto simp: l_def t_def frag_type_def)
    have e: "norm pageSize = 0" "pad pageSize = 0" using pageSize_facts by (simp_all add: norm_def pad_def)
    have a2: "pg_alloc (wl_page w2) = 0" using w2(3) n(3) e by simp
    have m: "2 * length (drop ?n enc) + (if pg_alloc (wl_page w2) = 0 then 0 else 1) < 2 * length enc + (if ?a = 0 then 0 else 1)"
      using a2 False pageSize_facts(1) by auto
    have "pg_alloc (wl_page w2) + 7 \<le> pageSize" using a2 pageSize_facts(1) by simp
    from less.hyps [OF m w2(2) this, of "Suc i"] obtain w' fs x where w': "log_loop c (Suc i) (drop ?n enc) w2 = Some (None, w')"
      "fragments f 0 (Suc i) (drop ?n enc) fs x" "wal_ok w'" "pg_alloc (wl_page w') = norm x" "stream w' = stream w2 @ fs @ replicate (pad x) 0"
      "butlast (wl_files w') = butlast (wl_files w2)" "same_frame w2 w'" unfolding a2 by blast
    have "fragments f ?a i enc (frag f (if i = 0 then recFirst else recMiddle) (take ?n enc) @ fs) x"
      by (rule fragments.more) (use False less.prems(2) w'(2) in auto)
    moreover have "log_loop c i enc w = Some (None, w')" using step n(1,2) w'(1) by simp
    moreover have "stream w' = stream w @ (frag f (if i = 0 then recFirst else recMiddle) (take ?n enc) @ fs) @ replicate (pad x) 0"
      using w'(5) w2(4) e(2) unfolding n(3) n(4) unfolding n(1) by simp
    moreover have "same_frame w w'" using fr w'(7) by (simp add: same_frame_def)
    ultimately show ?thesis using w' w2(5) by (intro exI conjI) auto
  qed
qed

section \<open>Records on disk\<close>

text \<open>
  A segment of several records, none of them empty, is not longer than the segment size \<open>S\<close>. The segments before the
  active one are complete: they end with a page.
\<close>

definition fits :: "int \<Rightarrow> byte list \<Rightarrow> (byte \<times> byte list) list \<Rightarrow> bool" where
  "fits S sg its \<longleftrightarrow> (\<forall>it \<in> set its. snd it \<noteq> []) \<longrightarrow> length its \<le> 1 \<or> int (length sg) \<le> S"

definition complete :: "int \<Rightarrow> byte list \<Rightarrow> (byte \<times> byte list) list \<Rightarrow> bool" where
  "complete S sg its \<longleftrightarrow> logged 0 its sg 0 \<and> fits S sg its"

definition on_disk :: "WL \<Rightarrow> (byte \<times> byte list) list \<Rightarrow> bool" where
  "on_disk w its \<longleftrightarrow> wal_ok w \<and> pg_alloc (wl_page w) + 7 \<le> pageSize \<and> wl_segmentSize w mod int pageSize = 0 \<and>
     (\<exists>iss cur. list_all2 (complete (wl_segmentSize w)) (butlast (wl_files w)) iss \<and> logged 0 cur (stream w) (pg_alloc (wl_page w)) \<and>
        fits (wl_segmentSize w) (stream w) cur \<and> its = concat iss @ cur)"

lemma fits_few: "length its \<le> 1 \<Longrightarrow> fits S sg its"
  by (simp add: fits_def)

text \<open>A record of no more than the room in the pages that are left ends within them.\<close>

lemma fragments_pages:
  assumes "fragments f a i enc fs x" "length enc \<le> (pageSize - a - 7) + (pageSize - 7) * m"
  shows "a + length fs + pad x \<le> pageSize * Suc m"
  using assms
proof (induction arbitrary: m rule: fragments.induct)
  case (last a enc i)
  then show ?case by (auto simp: pad_def)
next
  case (more a enc i bs x)
  obtain m' where m: "m = Suc m'" using more.hyps(1,2) more.prems by (cases m) auto
  have "length (drop (pageSize - a - 7) enc) \<le> pageSize - 0 - 7 + (pageSize - 7) * m'" using more.prems by (simp add: m)
  from more.IH [OF this] show ?case using more.hyps(1,2) by (simp add: m)
qed

lemma logged_nothing: "logged a its bs b \<Longrightarrow> bs = [] \<Longrightarrow> its = []"
  by (induction rule: logged.induct) (auto dest: fragments_bounds)

text \<open>So a record is added to a segment that has others only if it fits.\<close>

lemma fits_item:
  assumes "wal_ok w" "wl_segmentSize w mod int pageSize = 0" "pg_alloc (wl_page w) + 7 \<le> pageSize" "fragments f (pg_alloc (wl_page w)) 0 enc fs x"
    "int (length enc) \<le> page_remaining (wl_page w) - int recordHeaderSize + (int pageSize - int recordHeaderSize) * (pagesPerSegment w - wl_donePages w - 1)"
  shows "fits (wl_segmentSize w) (stream w @ fs @ replicate (pad x) 0) (cur @ [(f, enc)])"
proof (cases "enc = []")
  case True
  then show ?thesis by (simp add: fits_def)
next
  case False
  let ?a = "pg_alloc (wl_page w)" and ?m = "pagesPerSegment w - wl_donePages w - 1"
  have len: "int (length enc) \<le> int (pageSize - ?a - 7) + (int pageSize - 7) * ?m"
    using assms(3,5) by (simp add: page_remaining_def recordHeaderSize_def of_nat_diff)
  have m: "0 \<le> ?m"
  proof (rule ccontr)
    assume "\<not> 0 \<le> ?m"
    then have "(int pageSize - 7) * ?m \<le> (int pageSize - 7) * (- 1)" using pageSize_facts(1) by (intro mult_left_mono) auto
    moreover have "1 \<le> int (length enc)" using False by (cases enc) simp_all
    ultimately show False using len assms(3) by (simp add: of_nat_diff)
  qed
  have "int (length enc) \<le> int ((pageSize - ?a - 7) + (pageSize - 7) * nat ?m)" using len m pageSize_facts(1) by (simp add: of_nat_diff)
  then have "?a + length fs + pad x \<le> pageSize * Suc (nat ?m)" by (intro fragments_pages [OF assms(4)]) linarith
  then have "int (?a + length fs + pad x) \<le> int (pageSize * Suc (nat ?m))" by (simp only: of_nat_le_iff)
  also have "\<dots> = int pageSize * (?m + 1)" using m by (simp only: of_nat_mult of_nat_Suc int_nat_eq if_True add.commute)
  finally have "int (?a + length fs + pad x) \<le> int pageSize * (?m + 1)" .
  then have "int (length (stream w)) + int (length fs + pad x) \<le> int pageSize * pagesPerSegment w" using assms(1) by (simp add: wal_ok_def algebra_simps)
  also have "int pageSize * pagesPerSegment w = wl_segmentSize w" using assms(2) by (simp add: pagesPerSegment_def mult.commute mod_0_imp_dvd)
  finally show ?thesis by (simp add: fits_def)
qed

text \<open>Zeros up to the end of the page keep a segment within its size.\<close>

lemma fits_fill:
  assumes "wal_ok w" "wl_segmentSize w mod int pageSize = 0" "fits (wl_segmentSize w) (stream w) its" "0 < pg_alloc (wl_page w)" "pg_alloc (wl_page w) < pageSize"
  shows "fits (wl_segmentSize w) (stream w @ replicate (pageSize - pg_alloc (wl_page w)) 0) its"
proof -
  obtain q where q: "wl_segmentSize w = int pageSize * q" using assms(2) by (auto simp: mod_eq_0_iff_dvd elim: dvdE)
  let ?d = "wl_donePages w"
  have l: "int (length (stream w)) = int pageSize * ?d + int (pg_alloc (wl_page w))" using assms(1) by (simp add: wal_ok_def mult.commute)
  have "int pageSize * ?d + int pageSize \<le> int pageSize * q" if "int (length (stream w)) \<le> int pageSize * q"
  proof -
    have "int pageSize * ?d < int pageSize * q" using that l assms(4) by linarith
    then have "?d + 1 \<le> q" by (simp add: mult_less_cancel_left)
    then have "int pageSize * (?d + 1) \<le> int pageSize * q" by (intro mult_left_mono) simp_all
    then show ?thesis by (simp add: algebra_simps)
  qed
  then show ?thesis using assms(3,5) l q by (auto simp: fits_def of_nat_diff)
qed

text \<open>
  The segments with what is in the page, and how they grow: segments before the active one stay as they are,
  and records are added behind the ones in the active segment. All added records are \<open>Q\<close>.
\<close>

definition all_files :: "WL \<Rightarrow> byte list list" where
  "all_files w = butlast (wl_files w) @ [stream w]"

definition follows :: "(byte \<times> byte list \<Rightarrow> bool) \<Rightarrow> WL \<Rightarrow> WL \<Rightarrow> bool" where
  "follows Q w w' \<longleftrightarrow> length (all_files w) \<le> length (all_files w') \<and> take (length (all_files w) - 1) (all_files w') = butlast (wl_files w) \<and>
     (\<exists>its bs b. logged (pg_alloc (wl_page w)) its bs b \<and> (\<forall>it \<in> set its. Q it) \<and> all_files w' ! (length (all_files w) - 1) = stream w @ bs \<and>
        (length (all_files w) = length (all_files w') \<longrightarrow> b = pg_alloc (wl_page w')))"

lemma followsI:
  assumes "butlast (wl_files w') = butlast (wl_files w)" "stream w' = stream w @ bs" "logged (pg_alloc (wl_page w)) its bs (pg_alloc (wl_page w'))" "\<forall>it \<in> set its. Q it"
  shows "follows Q w w'"
  unfolding follows_def all_files_def using assms by (auto simp: nth_append)

lemma follows_refl: "follows Q w w"
  by (rule followsI [of _ _ "[]" "[]"]) (auto intro: logged.none)

lemma follows_trans:
  assumes "follows Q w w1" "follows Q w1 w2"
  shows "follows Q w w2"
proof -
  let ?n = "length (all_files w)" and ?n1 = "length (all_files w1)"
  have pos: "0 < ?n" "0 < ?n1" "length (butlast (wl_files w1)) = ?n1 - 1" by (simp_all add: all_files_def)
  obtain its bs b where a: "?n \<le> ?n1" "take (?n - 1) (all_files w1) = butlast (wl_files w)" "logged (pg_alloc (wl_page w)) its bs b" "\<forall>it \<in> set its. Q it"
    "all_files w1 ! (?n - 1) = stream w @ bs" "?n = ?n1 \<longrightarrow> b = pg_alloc (wl_page w1)" using assms(1) by (auto simp: follows_def)
  obtain its' bs' b' where c: "?n1 \<le> length (all_files w2)" "take (?n1 - 1) (all_files w2) = butlast (wl_files w1)" "logged (pg_alloc (wl_page w1)) its' bs' b'" "\<forall>it \<in> set its'. Q it"
    "all_files w2 ! (?n1 - 1) = stream w1 @ bs'" "?n1 = length (all_files w2) \<longrightarrow> b' = pg_alloc (wl_page w2)" using assms(2) by (auto simp: follows_def)
  have "take (?n - 1) (all_files w2) = take (?n - 1) (take (?n1 - 1) (all_files w2))" using a(1) by simp
  also have "\<dots> = take (?n - 1) (all_files w1)" unfolding c(2) using a(1) pos by (simp add: all_files_def [of w1])
  finally have t: "take (?n - 1) (all_files w2) = butlast (wl_files w)" using a(2) by simp
  show ?thesis
  proof (cases "?n = ?n1")
    case True
    have s: "all_files w1 ! (?n1 - 1) = stream w1" by (simp add: all_files_def nth_append)
    have "logged (pg_alloc (wl_page w)) (its @ its') (bs @ bs') b'" using logged_append [OF a(3)] a(6) c(3) True by simp
    moreover have "all_files w2 ! (?n - 1) = stream w @ (bs @ bs')" using c(5) a(5) s True by simp
    ultimately show ?thesis unfolding follows_def using a(1,4) c(1,4,6) t True by (intro conjI exI [of _ "its @ its'"] exI [of _ "bs @ bs'"] exI [of _ b']) auto
  next
    case False
    then have lt: "?n - 1 < ?n1 - 1" using a(1) pos by linarith
    have "all_files w2 ! (?n - 1) = take (?n1 - 1) (all_files w2) ! (?n - 1)" using lt by simp
    also have "\<dots> = all_files w1 ! (?n - 1)" unfolding c(2) using lt pos(3) by (simp add: all_files_def [of w1] nth_append)
    finally show ?thesis unfolding follows_def using a c(1) t False lt by (intro conjI exI [of _ its] exI [of _ bs] exI [of _ b]) auto
  qed
qed

lemma nextSegment_ok:
  assumes "on_disk w its"
  shows "\<exists>n w'. nextSegment w = (Inr n, w') \<and> on_disk w' its \<and> same_frame w w' \<and> follows Q w w' \<and> stream w' = []"
proof -
  obtain iss cur where d: "wal_ok w" "pg_alloc (wl_page w) + 7 \<le> pageSize" "list_all2 (complete (wl_segmentSize w)) (butlast (wl_files w)) iss"
    "logged 0 cur (stream w) (pg_alloc (wl_page w))" "its = concat iss @ cur" "wl_segmentSize w mod int pageSize = 0" "fits (wl_segmentSize w) (stream w) cur" using assms by (auto simp: on_disk_def)
  obtain w1 where w1: "(if 0 < pg_alloc (wl_page w) then flushPage True w else (None, w)) = (None, w1)" "wal_ok w1" "pg_alloc (wl_page w1) = 0" "unflushed w1 = []" "same_frame w w1"
      "\<exists>sg bs. wl_files w1 = butlast (wl_files w) @ [sg] \<and> complete (wl_segmentSize w) sg cur \<and> sg = stream w @ bs \<and> logged (pg_alloc (wl_page w)) [] bs 0"
  proof (cases "0 < pg_alloc (wl_page w)")
    case True
    have "complete (wl_segmentSize w) (stream w @ replicate (pageSize - pg_alloc (wl_page w)) 0) cur"
      unfolding complete_def using logged_fill [OF d(4) True] fits_fill [OF d(1,6,7) True] d(2) by simp
    moreover have "logged (pg_alloc (wl_page w)) [] (replicate (pageSize - pg_alloc (wl_page w)) 0) 0"
      using logged_fill [OF logged.none True] d(2) by simp
    ultimately show thesis using flushPage_clear [OF d(1)] True that by auto
  next
    case False
    then have "unflushed w = []" "wl_files w = butlast (wl_files w) @ [last (wl_files w)]" using d(1) by (simp_all add: unflushed_def wal_ok_def)
    then show thesis using False d(1,4,7) logged.none [of 0] by (intro that [of w]) (auto simp: same_frame_def stream_def complete_def)
  qed
  then obtain sg bs where sg: "wl_files w1 = butlast (wl_files w) @ [sg]" "complete (wl_segmentSize w) sg cur" "sg = stream w @ bs" "logged (pg_alloc (wl_page w)) [] bs 0" by blast
  let ?w = "setSegment (w1\<lparr>wl_files := wl_files w1 @ [[]]\<rparr>)"
  have "nextSegment w = (Inr (length (wl_files w1)), ?w)" using d(1) w1(1) by (simp add: nextSegment_def wal_ok_def)
  moreover have "all_files ?w = butlast (wl_files w) @ [stream w @ bs, stream ?w]"
    using sg(1,3) by (simp add: all_files_def setSegment_def butlast_append)
  then have "follows Q w ?w" unfolding follows_def using sg(4)
    by (intro conjI exI [of _ "[] :: (byte \<times> byte list) list"] exI [of _ bs] exI [of _ 0]) (simp_all add: all_files_def [of w] nth_append)
  moreover have "on_disk ?w its"
  proof -
    have "stream ?w = []" "wal_ok ?w" "pg_alloc (wl_page ?w) = 0" "wl_files ?w = wl_files w1 @ [[]]" "wl_segmentSize ?w = wl_segmentSize w"
      using w1(2,3,4,5) by (simp_all add: stream_def unflushed_def setSegment_def wal_ok_def same_frame_def)
    moreover have "list_all2 (complete (wl_segmentSize w)) (wl_files w1) (iss @ [cur])" using d(3) sg by (simp add: list_all2_appendI)
    ultimately show ?thesis unfolding on_disk_def using logged.none [of 0] d(5,6) pageSize_facts(1) fits_few [of "[]"] by (intro conjI exI [of _ "iss @ [cur]"] exI [of _ "[]"]) simp_all
  qed
  moreover have "same_frame w ?w" using w1(5) by (simp add: same_frame_def setSegment_def)
  moreover have "stream ?w = []" using w1(3) by (simp add: stream_def unflushed_def setSegment_def)
  ultimately show ?thesis by blast
qed

text \<open>How a record is stored: compressed only when that makes it shorter.\<close>

definition stored :: "codecs \<Rightarrow> compression_Type \<Rightarrow> byte list \<Rightarrow> byte \<times> byte list" where
  "stored C c r = (let enc = projr (compression_Encode C c r) in
     if c \<noteq> NoCompression \<and> length r \<le> length enc then (0, r) else (the (compression_flag c), enc))"

lemma WL_log_ok:
  assumes "on_disk w its" "compression_Encode C (wl_compress w) r = Inr enc" "compression_flag (wl_compress w) = Some f" "Q (stored C (wl_compress w) r)"
  shows "\<exists>w'. WL_log C r final w = Some (None, w') \<and> on_disk w' (its @ [stored C (wl_compress w) r]) \<and> same_frame w w' \<and> (final \<longrightarrow> unflushed w' = []) \<and> follows Q w w'"
proof -
  define skip where "skip \<longleftrightarrow> wl_compress w \<noteq> NoCompression \<and> int (length r) - int (length enc) \<le> 0"
  define enc' where "enc' = (if skip then r else enc)"
  define c where "c = (if skip then NoCompression else wl_compress w)"
  define f' where "f' = (if skip then 0 else f)"
  have st: "stored C (wl_compress w) r = (f', enc')" using assms(2,3) by (simp add: stored_def skip_def enc'_def f'_def)
  have cf: "compression_flag c = Some f'" using assms(3) by (simp add: c_def f'_def)
  have nf: "\<not> page_full (wl_page w)" using assms(1) by (simp add: on_disk_def page_full_iff)
  define left where "left = page_remaining (wl_page w) - int recordHeaderSize + (int pageSize - int recordHeaderSize) * (pagesPerSegment w - wl_donePages w - 1)"
  obtain n w1 where w1: "(if int (length enc') > left then nextSegment w else (Inr 0, w)) = (Inr n, w1)" "on_disk w1 its" "same_frame w w1" "follows Q w w1" "stream w1 = [] \<or> w1 = w \<and> int (length enc') \<le> left"
  proof (cases "int (length enc') > left")
    case True
    then show thesis using nextSegment_ok [OF assms(1), of Q] that by auto
  next
    case False
    then show thesis using assms(1) that [of 0 w] by (simp add: same_frame_def follows_refl)
  qed
  from w1(2) obtain iss cur where d: "wal_ok w1" "pg_alloc (wl_page w1) + 7 \<le> pageSize" "list_all2 (complete (wl_segmentSize w1)) (butlast (wl_files w1)) iss"
    "logged 0 cur (stream w1) (pg_alloc (wl_page w1))" "its = concat iss @ cur" "wl_segmentSize w1 mod int pageSize = 0" by (auto simp: on_disk_def)
  obtain w2 fs x where w2: "log_loop c 0 enc' w1 = Some (None, w2)" "fragments f' (pg_alloc (wl_page w1)) 0 enc' fs x" "wal_ok w2" "pg_alloc (wl_page w2) = norm x"
    "stream w2 = stream w1 @ fs @ replicate (pad x) 0" "butlast (wl_files w2) = butlast (wl_files w1)" "same_frame w1 w2"
    using log_loop_ok [OF d(1,2) cf, of 0 enc'] by blast
  have lg: "logged 0 (cur @ [(f', enc')]) (stream w2) (norm x)" using logged_item [OF d(4) w2(2)] w2(5) by simp
  have ft: "fits (wl_segmentSize w1) (stream w2) (cur @ [(f', enc')])"
  proof (cases "stream w1 = []")
    case True
    then show ?thesis using logged_nothing [OF d(4)] by (intro fits_few) simp
  next
    case False
    then show ?thesis using fits_item [OF d(1,6,2) w2(2)] w1(5) by (simp add: left_def w2(5))
  qed
  have it: "its @ [(f', enc')] = concat iss @ (cur @ [(f', enc')])" using d(5) by simp
  have d2: "on_disk w2 (its @ [(f', enc')])" unfolding on_disk_def it using w2(3,4,6,7) lg ft d(3,6) norm_pad(2) by (auto simp: same_frame_def)
  have body: "WL_log C r final w = (if final \<and> 0 < pg_alloc (wl_page w2) then Some (flushPage False w2) else Some (None, w2))"
    unfolding WL_log_def if_not_P [OF nf] prod.case option.case assms(2) sum.case Let_def skip_def [symmetric] enc'_def [symmetric] c_def [symmetric] left_def [symmetric] w1(1) w2(1)
    by simp
  have fr: "same_frame w w2" using w1(3) w2(7) by (simp add: same_frame_def)
  have "logged (pg_alloc (wl_page w1)) [(f', enc')] (fs @ replicate (pad x) 0) (pg_alloc (wl_page w2))"
    using logged_item [OF logged.none w2(2)] w2(4) by simp
  then have "follows Q w1 w2" using w2(5,6) assms(4) st by (intro followsI) auto
  then have fo: "follows Q w w2" by (rule follows_trans [OF w1(4)])
  show ?thesis
  proof (cases "final \<and> 0 < pg_alloc (wl_page w2)")
    case True
    have n7: "pg_alloc (wl_page w2) + 7 \<le> pageSize" using w2(4) norm_pad(2) by simp
    obtain w3 where w3: "flushPage False w2 = (None, w3)" "wal_ok w3" "wl_files w3 = butlast (wl_files w2) @ [stream w2]"
      "pg_alloc (wl_page w3) = pg_alloc (wl_page w2)" "unflushed w3 = []" "same_frame w2 w3" using flushPage_keep [OF w2(3) n7] by blast
    have "stream w3 = stream w2" "butlast (wl_files w3) = butlast (wl_files w2)" using w3(3,5) by (simp_all add: stream_def)
    then have "on_disk w3 (its @ [(f', enc')])" "follows Q w2 w3" using d2 w3(2,4,6) logged.none followsI [of w3 w2 "[]" "[]"] by (simp_all add: on_disk_def same_frame_def)
    then show ?thesis using body True w3(1,5,6) fr st follows_trans [OF fo] by (auto simp: same_frame_def)
  next
    case False
    then have "final \<longrightarrow> unflushed w2 = []" by (simp add: unflushed_def)
    then show ?thesis unfolding st using body False d2 fr fo by simp
  qed
qed

lemma WL_Log_ok:
  assumes "on_disk w its" "\<forall>r \<in> set rs. \<exists>enc. compression_Encode C (wl_compress w) r = Inr enc" "compression_flag (wl_compress w) = Some f" "unflushed w = [] \<or> rs \<noteq> []"
    "\<forall>r \<in> set rs. Q (stored C (wl_compress w) r)"
  shows "\<exists>w'. WL_Log C rs w = Some (None, w') \<and> on_disk w' (its @ map (stored C (wl_compress w)) rs) \<and> same_frame w w' \<and> unflushed w' = [] \<and> follows Q w w'"
  using assms
proof (induction rs arbitrary: w its)
  case Nil
  then show ?case by (simp add: same_frame_def follows_refl)
next
  case (Cons r rs)
  obtain enc where "compression_Encode C (wl_compress w) r = Inr enc" using Cons.prems(2) by auto
  from WL_log_ok [OF Cons.prems(1) this Cons.prems(3), of Q "rs = []"] Cons.prems(5) obtain w1 where w1: "WL_log C r (rs = []) w = Some (None, w1)"
    "on_disk w1 (its @ [stored C (wl_compress w) r])" "same_frame w w1" "rs = [] \<longrightarrow> unflushed w1 = []" "follows Q w w1" by auto
  have c: "wl_compress w1 = wl_compress w" using w1(3) by (simp add: same_frame_def)
  from Cons.IH [OF w1(2)] obtain w' where "WL_Log C rs w1 = Some (None, w')" "on_disk w' ((its @ [stored C (wl_compress w) r]) @ map (stored C (wl_compress w)) rs)"
    "same_frame w1 w'" "unflushed w' = []" "follows Q w1 w'" using Cons.prems(2,3,5) w1(4) unfolding c by auto
  then show ?case using w1(1,3) follows_trans [OF w1(5)] by (auto simp: same_frame_def)
qed

end
