(* ===== verification/WlogProps.thy ===== *)
theory WlogProps
  imports WlogWriter
begin

text \<open>
  The write-ahead log as a whole: records come back as they were logged, segments are complete in
  themselves, and a torn write loses only the records that were being written.
\<close>

text \<open>Logging batches of records, none of which fails.\<close>

fun log_batches :: "codecs \<Rightarrow> byte list list list \<Rightarrow> WL \<Rightarrow> WL option" where
  "log_batches C [] w = Some w"
| "log_batches C (rs # rss) w = Option.bind (WL_Log C rs w) (\<lambda>(err, w). if err = None then log_batches C rss w else None)"

section \<open>Torn writes\<close>

context io_reader
begin

lemma torn_fragment:
  assumes "view r (take n (frag f t part)) tot" "n < 7 + length part" "length part \<le> pageSize - 7" "flag_ok f" "t \<in> {recFull, recFirst, recMiddle, recLast}"
  shows "\<exists>e r'. nextNew_loop C rd i r = Some (Some e, r')"
proof (cases n)
  case 0
  then obtain s where "read_bytes rd 1 r = Some ([], Some EOF, r\<lparr>rd_rdr := s\<rparr>)" using read_bytes_short [OF assms(1), of 1] by auto
  then show ?thesis by (simp add: nextNew_loop.simps [of C rd i r])
next
  case (Suc m)
  let ?hdr = "PutUint16 (of_nat (length part)) @ PutUint32 (crc32_Checksum part)"
  have c: "take n (frag f t part) = (rec_byte t OR f) # take m (?hdr @ part)" by (simp add: frag_def Suc)
  obtain s where s: "read_bytes rd 1 r = Some ([rec_byte t OR f], None, r\<lparr>rd_rdr := s\<rparr>)"
      "view (r\<lparr>rd_rdr := s, rd_total := tot + 1, rd_curRecTyp := t\<rparr>) (take m (?hdr @ part)) (tot + 1)" "rd_total r = tot"
    using loop_first_byte [of r "rec_byte t OR f" "take m (?hdr @ part)" tot t] assms(1) unfolding c by blast
  let ?r = "r\<lparr>rd_rdr := s, rd_total := tot + 1, rd_curRecTyp := t\<rparr>"
  have ne: "t \<noteq> recPageTerm" using assms(5) by auto
  have step: "nextNew_loop C rd i r = Option.bind (read_fragment C rd (rec_byte t OR f) i ?r)
      (\<lambda>(err, ret, r). if ret then Some (err, r) else nextNew_loop C rd (Suc i) r)"
    using s(1,3) header_facts(1) [OF assms(4,5)] ne by (simp add: nextNew_loop.simps [of C rd i r])
  have "\<exists>e r'. read_fragment C rd (rec_byte t OR f) i ?r = Some (Some e, True, r')"
  proof (cases "m < 6")
    case True
    then have "length (take m (?hdr @ part)) < 6" by (simp only: length_take min_less_iff_disj simp_thms)
    from read_bytes_short [OF s(2) this] obtain e s' where "read_bytes rd 6 ?r = Some (take m (?hdr @ part), Some e, ?r\<lparr>rd_rdr := s'\<rparr>)" by blast
    then show ?thesis by (simp add: read_fragment_def)
  next
    case False
    have t: "take m (?hdr @ part) = ?hdr @ take (m - 6) part" using False by simp
    obtain s' where s': "read_bytes rd 6 ?r = Some (?hdr, None, ?r\<lparr>rd_rdr := s'\<rparr>)" "view (?r\<lparr>rd_rdr := s'\<rparr>) (take (m - 6) part) (tot + 1)"
      using read_bytes_ok [OF s(2), of 6] unfolding t by auto
    have len: "unat (of_nat (length part) :: uint16) = length part" using assms(3) pageSize_facts(2) by (simp add: unsigned_of_nat take_bit_nat_eq_self)
    have u: "Uint16 ?hdr = Some (of_nat (length part))" "Uint32 (drop 2 ?hdr) = Some (crc32_Checksum part)"
      using Uint32_PutUint32 [of "crc32_Checksum part" "[]"] by simp_all
    let ?r' = "?r\<lparr>rd_rdr := s', rd_total := tot + 1 + 6\<rparr>"
    have "view ?r' (take (m - 6) part) (tot + 1 + 6)" using s'(2) by (simp add: view_def)
    then obtain e s'' where "read_bytes rd (length part) ?r' = Some (take (m - 6) part, Some e, ?r'\<lparr>rd_rdr := s''\<rparr>)"
      using read_bytes_short [of ?r' "take (m - 6) part" "tot + 1 + 6" "length part"] assms(2) Suc False by fastforce
    moreover have "\<not> pageSize - 7 < length part" using assms(3) by simp
    ultimately show ?thesis using s'(1) u len by (simp add: read_fragment_def Let_def)
  qed
  then show ?thesis unfolding step by auto
qed

lemma torn_record:
  assumes "fragments f a i enc bs x" "flag_ok f" "view r (take n bs) tot" "n < length bs"
  shows "\<exists>e r'. nextNew_loop C rd i r = Some (Some e, r')"
  using assms
proof (induction arbitrary: r tot n rule: fragments.induct)
  case (last a enc i)
  then show ?case by (intro torn_fragment [of r n f "if i = 0 then recFull else recLast" enc tot]) auto
next
  case (more a enc i bs x)
  let ?t = "if i = 0 then recFirst else recMiddle" and ?p = "take (pageSize - a - 7) enc"
  show ?case
  proof (cases "n < 7 + length ?p")
    case True
    then have "take n (frag f ?t ?p @ bs) = take n (frag f ?t ?p)" by simp
    then show ?thesis using True more.prems by (intro torn_fragment [of r n f ?t ?p tot]) auto
  next
    case False
    then have t: "take n (frag f ?t ?p @ bs) = frag f ?t ?p @ take (n - (7 + length ?p)) bs" by simp
    have v: "view r (frag f ?t ?p @ take (n - (7 + length ?p)) bs) tot" using more.prems(2) unfolding t .
    have "\<exists>r'. nextNew_loop C rd i r = nextNew_loop C rd (Suc i) r' \<and> view r' (take (n - (7 + length ?p)) bs) (tot + 7 + length ?p) \<and> rd_precomprBuf r' = rd_precomprBuf r @ ?p"
      by (rule loop_fragment(1) [OF v]) (use more.prems in \<open>auto simp: validateRecord_def\<close>)
    then obtain r' where r': "nextNew_loop C rd i r = nextNew_loop C rd (Suc i) r'" "view r' (take (n - (7 + length ?p)) bs) (tot + 7 + length ?p)" by blast
    have "n - (7 + length ?p) < length bs" using more.prems(3) False by simp
    from more.IH [OF more.prems(1) r'(2) this] show ?thesis unfolding r'(1) .
  qed
qed

lemma torn_zeros:
  assumes "view r (replicate m 0) tot" "m < k" "k \<le> pageSize" "(tot + k) mod pageSize = 0"
  shows "\<exists>e r'. nextNew_loop C rd i r = Some (Some e, r')"
proof (cases m)
  case 0
  then obtain s where "read_bytes rd 1 r = Some ([], Some EOF, r\<lparr>rd_rdr := s\<rparr>)" using read_bytes_short [OF assms(1), of 1] by auto
  then show ?thesis by (simp add: nextNew_loop.simps [of C rd i r])
next
  case (Suc j)
  have c: "replicate m 0 = 0 # replicate j 0" by (simp add: Suc)
  obtain s where s: "read_bytes rd 1 r = Some ([0], None, r\<lparr>rd_rdr := s\<rparr>)" "view (r\<lparr>rd_rdr := s, rd_total := tot + 1, rd_curRecTyp := recPageTerm\<rparr>) (replicate j 0) (tot + 1)"
      "rd_total r = tot" using loop_first_byte [of r 0 "replicate j 0" tot recPageTerm] assms(1) unfolding c by blast
  let ?r = "r\<lparr>rd_rdr := s, rd_total := tot + 1, rd_curRecTyp := recPageTerm\<rparr>"
  have k: "pageSize - Suc tot mod pageSize = k - 1" "k - 1 \<noteq> pageSize" using pad_arith [of k tot] assms Suc by auto
  obtain e s' where "read_bytes rd (k - 1) ?r = Some (replicate j 0, Some e, ?r\<lparr>rd_rdr := s'\<rparr>)"
    using read_bytes_short [OF s(2), of "k - 1"] assms(2) Suc by fastforce
  moreover have "recTypeFromHeader 0 = recPageTerm" by (simp add: recTypeFromHeader_def)
  ultimately show ?thesis using s(1,3) k by (simp add: nextNew_loop.simps [of C rd i r])
qed

lemma next_fails:
  assumes "\<And>r. view r c tot \<Longrightarrow> \<exists>e r'. nextNew_loop C rd 0 r = Some (Some e, r')" "view r c tot"
  shows "\<exists>err. read_all C rd r = Some ([], err)"
proof -
  have "view (r\<lparr>rd_precomprBuf := []\<rparr>) c tot" using assms(2) by (simp add: view_def)
  from assms(1) [OF this] show ?thesis by (auto simp: read_all.simps [of C rd r] Reader_Next_def nextNew_def split: if_splits)
qed

text \<open>Cutting the log off anywhere leaves a prefix of the records.\<close>

lemma read_torn:
  assumes "logged a its bs b" "view r (take n (replicate k 0 @ bs)) tot" "pending k tot a" "settled r" "a + 7 \<le> pageSize"
    and "\<forall>(f, enc) \<in> set its. flag_ok f \<and> compression_Decode C (header_compression f) enc = Inr (dec (f, enc))"
  shows "\<exists>j err. read_all C rd r = Some (map dec (take j its), err)"
  using assms
proof (induction arbitrary: r k tot n rule: logged.induct)
  case (none a)
  show ?case
  proof (cases "n < k")
    case True
    have "\<exists>err. read_all C rd r = Some ([], err)"
      by (rule next_fails [of "replicate n 0" tot]) (use True none.prems torn_zeros [of _ n tot k] in \<open>auto simp: pending_def split: if_splits\<close>)
    then show ?thesis by auto
  next
    case False
    then have "view r (replicate k 0) tot" using none.prems(1) by simp
    then show ?thesis using next_end [of r k tot a C] none.prems by (auto simp: read_all.simps [of C rd r])
  qed
next
  case (fill a its bs b)
  have k: "k = 0" "tot mod pageSize = a" using fill.hyps(1) fill.prems(2) by (auto simp: pending_def split: if_splits)
  have "(tot + (pageSize - a)) mod pageSize = (a + (pageSize - a)) mod pageSize" by (rule mod_add_cong) (use k(2) fill.hyps(2) in auto)
  then have "pending (pageSize - a) tot 0" using fill.hyps(2) by (auto simp: pending_def)
  then show ?case using fill.IH [of r n "pageSize - a" tot] fill.prems k(1) pageSize_facts by simp
next
  case (item f a enc fs x its bs b)
  have d: "flag_ok f" "compression_Decode C (header_compression f) enc = Inr (dec (f, enc))" using item.prems(5) by auto
  consider "n < k" | "k \<le> n" "n < k + length fs" | "k + length fs \<le> n" by linarith
  then show ?case
  proof cases
    case 1
    then have t: "take n (replicate k 0 @ fs @ replicate (pad x) 0 @ bs) = replicate n 0" by simp
    have "\<exists>err. read_all C rd r = Some ([], err)"
      by (rule next_fails [of "replicate n 0" tot]) (use 1 item.prems(1,2) torn_zeros [of _ n tot k] in \<open>auto simp: t pending_def split: if_splits\<close>)
    then show ?thesis using exI [of _ 0] by auto
  next
    case 2
    then have t: "take n (replicate k 0 @ fs @ replicate (pad x) 0 @ bs) = replicate k 0 @ take (n - k) fs" by simp
    have "\<exists>e r'. nextNew_loop C rd 0 q = Some (Some e, r')" if q: "view q (replicate k 0 @ take (n - k) fs) tot" for q
    proof -
      obtain q' where q': "nextNew_loop C rd 0 q = nextNew_loop C rd 0 q'" "view q' (take (n - k) fs) (tot + k)" using skip_pending [OF q item.prems(2), of C 0] by blast
      have "n - k < length fs" using 2 by simp
      from torn_record [OF item.hyps(1) d(1) q'(2) this, of C] show ?thesis unfolding q'(1) .
    qed
    then have "\<exists>err. read_all C rd r = Some ([], err)" using item.prems(1) unfolding t by (rule next_fails)
    then show ?thesis using exI [of _ 0] by auto
  next
    case 3
    then have t: "take n (replicate k 0 @ fs @ replicate (pad x) 0 @ bs) = replicate k 0 @ fs @ take (n - k - length fs) (replicate (pad x) 0 @ bs)" by simp
    obtain r' where r': "Reader_Next C rd r = Some (True, r')" "view r' (take (n - k - length fs) (replicate (pad x) 0 @ bs)) (tot + k + length fs)" "rd_rec r' = dec (f, enc)"
        "settled r'" "(tot + k) mod pageSize = a"
      using next_item [OF item.prems(1) [unfolded t] item.prems(2) item.hyps(1) d] by blast
    obtain j err where "read_all C rd r' = Some (map dec (take j its), err)"
      using item.IH [OF r'(2) pending_after [OF item.hyps(1) r'(5)] r'(4) norm_pad(2)] item.prems(5) by auto
    then have "read_all C rd r = Some (map dec (take (Suc j) ((f, enc) # its)), err)" using r'(1,3) by (simp add: read_all.simps [of C rd r])
    then show ?thesis by blast
  qed
qed

text \<open>Reading some records and then what follows them.\<close>

lemma read_logged_then:
  assumes "logged a its bs b" "view r (replicate k 0 @ bs @ rest) tot" "pending k tot a" "settled r" "a + 7 \<le> pageSize"
    and "\<forall>(f, enc) \<in> set its. flag_ok f \<and> compression_Decode C (header_compression f) enc = Inr (dec (f, enc))"
  shows "\<exists>r' k' tot'. view r' (replicate k' 0 @ rest) tot' \<and> pending k' tot' b \<and> settled r' \<and>
    read_all C rd r = map_option (map_prod ((@) (map dec its)) id) (read_all C rd r')"
  using assms
proof (induction arbitrary: r k tot rule: logged.induct)
  case (none a)
  have "map_prod ((@) []) id = (id :: byte list list \<times> go_error option \<Rightarrow> _)" by (auto simp: fun_eq_iff)
  then have e: "read_all C rd r = map_option (map_prod ((@) (map dec [])) id) (read_all C rd r)" by (simp add: option.map_id0)
  have "view r (replicate k 0 @ rest) tot" using none.prems(1) by simp
  then show ?case using none.prems(2,3) e by blast
next
  case (fill a its bs b)
  have k: "k = 0" "tot mod pageSize = a" using fill.hyps(1) fill.prems(2) by (auto simp: pending_def split: if_splits)
  have "(tot + (pageSize - a)) mod pageSize = (a + (pageSize - a)) mod pageSize" by (rule mod_add_cong) (use k(2) fill.hyps(2) in auto)
  then have "pending (pageSize - a) tot 0" using fill.hyps(2) by (auto simp: pending_def)
  then show ?case using fill.IH [of r "pageSize - a" tot] fill.prems k(1) pageSize_facts by simp
next
  case (item f a enc fs x its bs b)
  have v: "view r (replicate k 0 @ fs @ (replicate (pad x) 0 @ bs @ rest)) tot" using item.prems(1) by simp
  have d: "flag_ok f" "compression_Decode C (header_compression f) enc = Inr (dec (f, enc))" using item.prems(5) by auto
  obtain r' where r': "Reader_Next C rd r = Some (True, r')" "view r' (replicate (pad x) 0 @ bs @ rest) (tot + k + length fs)" "rd_rec r' = dec (f, enc)" "settled r'" "(tot + k) mod pageSize = a"
    using next_item [OF v item.prems(2) item.hyps(1) d] by blast
  have "\<forall>(f, enc) \<in> set its. flag_ok f \<and> compression_Decode C (header_compression f) enc = Inr (dec (f, enc))" using item.prems(5) by simp
  from item.IH [OF r'(2) pending_after [OF item.hyps(1) r'(5)] r'(4) norm_pad(2) this] obtain r'' k' tot' where
    r'': "view r'' (replicate k' 0 @ rest) tot'" "pending k' tot' b" "settled r''" "read_all C rd r' = map_option (map_prod ((@) (map dec its)) id) (read_all C rd r'')" by blast
  have "read_all C rd r = map_option (map_prod ((@) (map dec ((f, enc) # its))) id) (read_all C rd r'')"
    using r'(1,3) r''(4) by (cases "read_all C rd r''") (auto simp: read_all.simps [of C rd r])
  then show ?case using r''(1-3) by blast
qed

lemma read_torn_after:
  assumes "logged a its bs b" "logged b its' bs' b'" "view r (bs @ take n bs') tot" "tot mod pageSize = a" "settled r" "a + 7 \<le> pageSize"
    and "\<forall>(f, enc) \<in> set (its @ its'). flag_ok f \<and> compression_Decode C (header_compression f) enc = Inr (dec (f, enc))"
  shows "\<exists>j err. read_all C rd r = Some (map dec its @ map dec (take j its'), err)"
proof -
  have v: "view r (replicate 0 0 @ bs @ take n bs') tot" using assms(3) by simp
  have p: "pending 0 tot a" using assms(4) by (simp add: pending_def)
  have d: "\<forall>(f, enc) \<in> set its. flag_ok f \<and> compression_Decode C (header_compression f) enc = Inr (dec (f, enc))"
      "\<forall>(f, enc) \<in> set its'. flag_ok f \<and> compression_Decode C (header_compression f) enc = Inr (dec (f, enc))" using assms(7) by auto
  obtain r' k' tot' where r': "view r' (replicate k' 0 @ take n bs') tot'" "pending k' tot' b" "settled r'"
      "read_all C rd r = map_option (map_prod ((@) (map dec its)) id) (read_all C rd r')"
    using read_logged_then [OF assms(1) v p assms(5,6) d(1)] by blast
  have b: "b + 7 \<le> pageSize" using logged_bounds [OF assms(1,6)] by simp
  have "view r' (take (k' + n) (replicate k' 0 @ bs')) tot'" using r'(1) by simp
  from read_torn [OF assms(2) this r'(2,3) b d(2)] show ?thesis using r'(4) by auto
qed

text \<open>A full page of zeros behind the records is skipped, too.\<close>

lemma read_logged_zero_page:
  assumes "logged 0 its bs 0" "view r (bs @ replicate pageSize 0) 0" "settled r"
    and "\<forall>(f, enc) \<in> set its. flag_ok f \<and> compression_Decode C (header_compression f) enc = Inr (dec (f, enc))"
  shows "read_all C rd r = Some (map dec its, None)"
proof -
  have v: "view r (replicate 0 0 @ bs @ replicate pageSize 0) 0" using assms(2) by simp
  have p: "pending 0 0 0" by (simp add: pending_def)
  obtain r' k tot where r': "view r' (replicate k 0 @ replicate pageSize 0) tot" "pending k tot 0" "settled r'"
      "read_all C rd r = map_option (map_prod ((@) (map dec its)) id) (read_all C rd r')"
    using read_logged_then [OF assms(1) v p assms(3) _ assms(4)] pageSize_facts(1) by auto
  let ?r = "r'\<lparr>rd_precomprBuf := []\<rparr>"
  have v': "view ?r (replicate k 0 @ replicate pageSize 0) tot" using r'(1) by (simp add: view_def)
  obtain q where q: "nextNew_loop C rd 0 ?r = nextNew_loop C rd 0 q" "view q (replicate pageSize 0) (tot + k)" "(tot + k) mod pageSize = 0"
      "rd_precomprBuf q = []" "settled q"
    using skip_pending [OF v' r'(2), of C 0] r'(3) by (auto simp: settled_def)
  have pq: "pending pageSize (tot + k) 0" using q(3) pageSize_facts(3) by (simp add: pending_def)
  obtain q' where q': "Reader_Next C rd q = Some (False, q')" "rd_err q' = None" using next_end [OF q(2) pq q(5), of C] by blast
  have "q\<lparr>rd_precomprBuf := []\<rparr> = q" using q(4) by (cases q) simp
  then have "Reader_Next C rd r' = Reader_Next C rd q" using q(1) by (simp add: Reader_Next_def nextNew_def)
  then have "read_all C rd r' = Some ([], None)" using q' by (simp add: read_all.simps [of C rd r'])
  then show ?thesis using r'(4) by simp
qed

text \<open>
  Repairing: the records in front of the offset are logged again, one by one; what the reader can still
  deliver behind them is logged up to some point.
\<close>

lemma repair_kept:
  assumes "logged a its bs b" "view r (replicate k 0 @ bs @ rest) tot" "pending k tot a" "settled r" "a + 7 \<le> pageSize"
    and "\<forall>(f, enc) \<in> set its. flag_ok f \<and> compression_Decode C (header_compression f) enc = Inr (dec (f, enc))"
    and "int (tot + k + length bs) < off"
  shows "\<exists>r' k' tot'. view r' (replicate k' 0 @ rest) tot' \<and> pending k' tot' b \<and> settled r' \<and>
    (\<forall>w w'. log_batches C (map (\<lambda>x. [x]) (map dec its)) w = Some w' \<longrightarrow> repair_loop C rd off r w = repair_loop C rd off r' w')"
  using assms
proof (induction arbitrary: r k tot rule: logged.induct)
  case (none a)
  then have "view r (replicate k 0 @ rest) tot" by simp
  then show ?case using none.prems(2,3) by (intro exI [of _ r] exI [of _ k] exI [of _ tot]) simp
next
  case (fill a its bs b)
  have k: "k = 0" "tot mod pageSize = a" using fill.hyps(1) fill.prems(2) by (auto simp: pending_def split: if_splits)
  have "(tot + (pageSize - a)) mod pageSize = (a + (pageSize - a)) mod pageSize" by (rule mod_add_cong) (use k(2) fill.hyps(2) in auto)
  then have "pending (pageSize - a) tot 0" using fill.hyps(2) by (auto simp: pending_def)
  then show ?case using fill.IH [of r "pageSize - a" tot] fill.prems k(1) pageSize_facts by simp
next
  case (item f a enc fs x its bs b)
  have v: "view r (replicate k 0 @ fs @ (replicate (pad x) 0 @ bs @ rest)) tot" using item.prems(1) by simp
  have d: "flag_ok f" "compression_Decode C (header_compression f) enc = Inr (dec (f, enc))" using item.prems(5) by auto
  obtain r' where r': "Reader_Next C rd r = Some (True, r')" "view r' (replicate (pad x) 0 @ bs @ rest) (tot + k + length fs)" "rd_rec r' = dec (f, enc)" "settled r'" "(tot + k) mod pageSize = a"
    using next_item [OF v item.prems(2) item.hyps(1) d] by blast
  have "\<forall>(f, enc) \<in> set its. flag_ok f \<and> compression_Decode C (header_compression f) enc = Inr (dec (f, enc))" using item.prems(5) by simp
  moreover have "int (tot + k + length fs + pad x + length bs) < off" using item.prems(6) by simp
  ultimately obtain r'' k' tot' where r'': "view r'' (replicate k' 0 @ rest) tot'" "pending k' tot' b" "settled r''"
      "\<forall>w w'. log_batches C (map (\<lambda>x. [x]) (map dec its)) w = Some w' \<longrightarrow> repair_loop C rd off r' w = repair_loop C rd off r'' w'"
    using item.IH [OF r'(2) pending_after [OF item.hyps(1) r'(5)] r'(4) norm_pad(2)] by blast
  have t: "\<not> off \<le> int (rd_total r')" using r'(2) item.prems(6) by (simp add: view_def)
  have "repair_loop C rd off r w = repair_loop C rd off r'' w'" if l: "log_batches C (map (\<lambda>x. [x]) (map dec ((f, enc) # its))) w = Some w'" for w w'
  proof -
    obtain w1 where w1: "WL_Log C [dec (f, enc)] w = Some (None, w1)" "log_batches C (map (\<lambda>x. [x]) (map dec its)) w1 = Some w'"
      using l by (auto simp del: WL_Log.simps simp: bind_eq_Some_conv split: if_splits)
    then have "repair_loop C rd off r w = repair_loop C rd off r' w1"
      using r'(1,3) t by (simp add: repair_loop.simps [of C rd off r w] del: WL_Log.simps)
    then show ?thesis using r''(4) w1(2) by simp
  qed
  then show ?case using r''(1-3) by blast
qed

end

lemma repair_rest:
  assumes "read_all C rd r = Some (recs, err)"
  shows "\<exists>j. \<forall>w w'. log_batches C (map (\<lambda>x. [x]) (take j recs)) w = Some w' \<longrightarrow> repair_loop C rd off r w = Some (None, w')"
  using assms
proof (induction recs arbitrary: r)
  case Nil
  then obtain r' where "Reader_Next C rd r = Some (False, r')"
    by (subst (asm) read_all.simps) (auto simp: bind_eq_Some_conv split: if_splits)
  then show ?case by (simp add: repair_loop.simps [of C rd off r])
next
  case (Cons x recs)
  then obtain r' where r': "Reader_Next C rd r = Some (True, r')" "rd_rec r' = x" "read_all C rd r' = Some (recs, err)"
    by (subst (asm) read_all.simps) (auto simp: bind_eq_Some_conv split: if_splits)
  show ?case
  proof (cases "off \<le> int (rd_total r')")
    case True
    then show ?thesis using r'(1) by (intro exI [of _ 0]) (simp add: repair_loop.simps [of C rd off r])
  next
    case False
    obtain j where j: "\<forall>w w'. log_batches C (map (\<lambda>x. [x]) (take j recs)) w = Some w' \<longrightarrow> repair_loop C rd off r' w = Some (None, w')"
      using Cons.IH [OF r'(3)] by blast
    have "repair_loop C rd off r w = Some (None, w')" if "log_batches C (map (\<lambda>x. [x]) (take (Suc j) (x # recs))) w = Some w'" for w w'
      using that j r'(1,2) False
      by (auto simp del: WL_Log.simps simp: repair_loop.simps [of C rd off r w] bind_eq_Some_conv split: if_splits)
    then show ?thesis by blast
  qed
qed

section \<open>The whole log\<close>

text \<open>What the log relies on in the compression packages.\<close>

definition lossless :: "codecs \<Rightarrow> bool" where
  "lossless C \<longleftrightarrow> (\<forall>x. x \<noteq> [] \<longrightarrow> snappy_Encode C x \<noteq> [] \<and> snappy_Decode C (snappy_Encode C x) = Inr x \<and>
     zstd_EncodeAll C x \<noteq> [] \<and> zstd_DecodeAll C (zstd_EncodeAll C x) = Inr x)"

definition can_encode :: "codecs \<Rightarrow> compression_Type \<Rightarrow> byte list \<Rightarrow> bool" where
  "can_encode C c r \<longleftrightarrow> c \<in> {NoCompression, Zstd} \<or> c = Snappy \<and> 0 \<le> snappy_MaxEncodedLen C (length r)"

definition dec :: "codecs \<Rightarrow> byte \<times> byte list \<Rightarrow> byte list" where
  "dec C it = projr (compression_Decode C (header_compression (fst it)) (snd it))"

lemma can_encode_Inr: "can_encode C c r \<Longrightarrow> \<exists>enc. compression_Encode C c r = Inr enc"
  by (auto simp: can_encode_def compression_Encode_def)

lemma stored_decodes:
  assumes "lossless C" "can_encode C c r"
  shows "flag_ok (fst (stored C c r))" "compression_Decode C (header_compression (fst (stored C c r))) (snd (stored C c r)) = Inr r"
proof -
  have h: "header_compression 0 = NoCompression" "header_compression 8 = Snappy" "header_compression 16 = Zstd"
    by (simp_all add: header_compression_def snappyMask_def zstdMask_def)
  show "flag_ok (fst (stored C c r))" using assms(2)
    by (auto simp: can_encode_def stored_def flag_ok_def snappyMask_def zstdMask_def Let_def)
  show "compression_Decode C (header_compression (fst (stored C c r))) (snd (stored C c r)) = Inr r"
  proof (cases "r = []")
    case True
    then show ?thesis using assms(2) h by (cases c) (simp_all add: stored_def Let_def compression_Decode_def compression_Encode_def can_encode_def)
  next
    case False
    then have l: "snappy_Encode C r \<noteq> []" "snappy_Decode C (snappy_Encode C r) = Inr r" "zstd_EncodeAll C r \<noteq> []" "zstd_DecodeAll C (zstd_EncodeAll C r) = Inr r"
      using assms(1) by (simp_all add: lossless_def)
    show ?thesis using assms(2) h l False
      by (cases c) (simp_all add: stored_def Let_def snappyMask_def zstdMask_def compression_Decode_def compression_Encode_def can_encode_def)
  qed
qed

lemma stored_not_empty:
  assumes "lossless C" "can_encode C c r" "r \<noteq> []"
  shows "snd (stored C c r) \<noteq> []"
proof -
  have "snappy_Encode C r \<noteq> []" "zstd_EncodeAll C r \<noteq> []" using assms(1,3) by (simp_all add: lossless_def)
  then have "projr (compression_Encode C c r) \<noteq> []" using assms(2,3) by (auto simp: compression_Encode_def can_encode_def)
  then show ?thesis using assms(3) by (simp add: stored_def Let_def)
qed

lemma decodes_all:
  assumes "lossless C" "\<forall>r \<in> set rs. can_encode C c r"
  shows "\<forall>(f, enc) \<in> set (map (stored C c) rs). flag_ok f \<and> compression_Decode C (header_compression f) enc = Inr (dec C (f, enc))"
    "map (dec C) (map (stored C c) rs) = rs"
proof -
  show "\<forall>(f, enc) \<in> set (map (stored C c) rs). flag_ok f \<and> compression_Decode C (header_compression f) enc = Inr (dec C (f, enc))"
    unfolding case_prod_unfold using assms(2) by (simp add: dec_def stored_decodes [OF assms(1)])
  show "map (dec C) (map (stored C c) rs) = rs" unfolding map_map using assms(2) by (intro map_idI) (simp add: dec_def stored_decodes [OF assms(1)])
qed

lemma log_batches_ok:
  assumes "on_disk w its" "unflushed w = []" "\<forall>r \<in> set (concat rss). can_encode C (wl_compress w) r" "compression_flag (wl_compress w) = Some f"
    "\<forall>r \<in> set (concat rss). Q (stored C (wl_compress w) r)"
  shows "\<exists>w'. log_batches C rss w = Some w' \<and> on_disk w' (its @ map (stored C (wl_compress w)) (concat rss)) \<and> unflushed w' = [] \<and> same_frame w w' \<and> follows Q w w'"
  using assms
proof (induction rss arbitrary: w its)
  case Nil
  then show ?case by (simp add: same_frame_def follows_refl)
next
  case (Cons rs rss)
  have "\<forall>r \<in> set rs. \<exists>enc. compression_Encode C (wl_compress w) r = Inr enc" using Cons.prems(3) can_encode_Inr by auto
  from WL_Log_ok [OF Cons.prems(1) this Cons.prems(4), of Q] Cons.prems(2,5) obtain w1 where w1: "WL_Log C rs w = Some (None, w1)" "on_disk w1 (its @ map (stored C (wl_compress w)) rs)"
    "same_frame w w1" "unflushed w1 = []" "follows Q w w1" by auto
  have c: "wl_compress w1 = wl_compress w" using w1(3) by (simp add: same_frame_def)
  from Cons.IH [OF w1(2,4)] obtain w' where "log_batches C rss w1 = Some w'" "on_disk w' ((its @ map (stored C (wl_compress w)) rs) @ map (stored C (wl_compress w)) (concat rss))"
    "unflushed w' = []" "same_frame w1 w'" "follows Q w1 w'" using Cons.prems(3,4,5) unfolding c by auto
  then show ?case using w1(1,3) follows_trans [OF w1(5)] by (auto simp: same_frame_def)
qed

lemma NewSize_on_disk: "NewSize n c = Inr w \<Longrightarrow> on_disk w [] \<and> unflushed w = [] \<and> wl_compress w = c \<and> stream w = [] \<and> wl_segmentSize w = n"
  using page_ok_new(1) pageSize_facts(1)
  by (auto simp: NewSize_def setSegment_def on_disk_def wal_ok_def unflushed_def stream_def new_page_def logged.none fits_few split: if_splits)

lemma can_encode_flag: "can_encode C c r \<Longrightarrow> \<exists>f. compression_flag c = Some f"
  by (auto simp: can_encode_def)

lemma logged_padded:
  assumes "logged 0 its sg b"
  shows "logged 0 its (padded sg) 0"
proof -
  have b: "length sg mod pageSize = b" "b + 7 \<le> pageSize" using logged_bounds [OF assms] pageSize_facts(1) by auto
  show ?thesis
  proof (cases "b = 0")
    case True
    then show ?thesis using assms b(1) by (simp add: padded_def padding_cases)
  next
    case False
    then show ?thesis using logged_fill [OF assms] b by (simp add: padded_def padding_cases)
  qed
qed

lemma logged_concat: "list_all2 (\<lambda>sg is. logged 0 is (padded sg) 0) sgs iss \<Longrightarrow> logged 0 (concat iss) (concat (map padded sgs)) 0"
  by (induction rule: list_all2_induct) (auto intro: logged.none logged_append)

lemma on_disk_segments:
  assumes "on_disk w its" "unflushed w = []"
  obtains iss where "list_all2 (\<lambda>sg is. \<exists>b. logged 0 is sg b \<and> fits (wl_segmentSize w) sg is) (wl_files w) iss" "concat iss = its" "wl_files w \<noteq> []"
proof -
  obtain iss cur where d: "wal_ok w" "list_all2 (complete (wl_segmentSize w)) (butlast (wl_files w)) iss" "fits (wl_segmentSize w) (stream w) cur" "logged 0 cur (stream w) (pg_alloc (wl_page w))" "its = concat iss @ cur"
    using assms(1) by (auto simp: on_disk_def)
  let ?P = "\<lambda>sg is. \<exists>b. logged 0 is sg b \<and> fits (wl_segmentSize w) sg is"
  have ne: "wl_files w \<noteq> []" using d(1) by (simp add: wal_ok_def)
  have "list_all2 ?P (butlast (wl_files w)) iss" using d(2) by (rule list_all2_mono) (auto simp: complete_def)
  moreover have "?P (last (wl_files w)) cur" using d(3,4) assms(2) by (auto simp: stream_def)
  ultimately have "list_all2 ?P (butlast (wl_files w) @ [last (wl_files w)]) (iss @ [cur])" by (intro list_all2_appendI) simp_all
  then show thesis using ne d(5) by (intro that [of "iss @ [cur]"]) simp_all
qed

lemma on_disk_padded:
  assumes "on_disk w its" "unflushed w = []"
  shows "logged 0 its (concat (map padded (wl_files w))) 0"
proof -
  obtain iss where s: "list_all2 (\<lambda>sg is. \<exists>b. logged 0 is sg b \<and> fits (wl_segmentSize w) sg is) (wl_files w) iss" "concat iss = its"
    by (rule on_disk_segments [OF assms])
  have "list_all2 (\<lambda>sg is. logged 0 is (padded sg) 0) (wl_files w) iss" using s(1) by (rule list_all2_mono) (use logged_padded in blast)
  from logged_concat [OF this] show ?thesis unfolding s(2) .
qed

lemma NewReader_view: "segs.view (NewReader (NewSegmentBufReader sgs)) (concat (map padded sgs)) 0" "segs.settled (NewReader s)" "plain.view (NewReader bs) bs 0" "plain.settled (NewReader bs)"
  by (cases sgs; simp add: segs.view_def plain.view_def segs.settled_def plain.settled_def NewReader_def NewSegmentBufReader_def seg_ok_def seg_content_def padded_def padding_cases)+

text \<open>Packages that store the bytes as they are satisfy what the log relies on.\<close>

definition identity_codecs :: codecs where
  "identity_codecs = \<lparr>snappy_MaxEncodedLen = int, snappy_Encode = (\<lambda>x. x), snappy_Decode = Inr, zstd_EncodeAll = (\<lambda>x. x), zstd_DecodeAll = Inr\<rparr>"

lemma identity_codecs: "lossless identity_codecs" "can_encode identity_codecs NoCompression r"
  by (simp_all add: lossless_def can_encode_def identity_codecs_def)

section \<open>Crashes and repair\<close>

definition decodable :: "codecs \<Rightarrow> byte \<times> byte list \<Rightarrow> bool" where
  "decodable C it \<longleftrightarrow> flag_ok (fst it) \<and> compression_Decode C (header_compression (fst it)) (snd it) = Inr (dec C it)"

lemma decodable_all: "\<forall>it \<in> set its. decodable C it \<Longrightarrow> \<forall>(f, enc) \<in> set its. flag_ok f \<and> compression_Decode C (header_compression f) enc = Inr (dec C (f, enc))"
  by (auto simp: decodable_def)

lemma decodable_stored: "lossless C \<Longrightarrow> \<forall>r \<in> set rs. can_encode C c r \<Longrightarrow> \<forall>it \<in> set (map (stored C c) rs). decodable C it"
  by (simp add: decodable_def dec_def stored_decodes)

text \<open>The bytes of a segment determine its records.\<close>

lemma logged_unique:
  assumes "logged 0 is sg b" "logged 0 is' sg b'" "\<forall>it \<in> set is \<union> set is'. decodable C it"
  shows "map (dec C) is = map (dec C) is'"
proof -
  have "read_all C bytes_Read (NewReader sg) = Some (map (dec C) x, None)" if "logged 0 x sg y" "\<forall>it \<in> set x. decodable C it" for x y
    by (rule plain.read_logged [OF that(1), where k = 0 and tot = 0])
       (use NewReader_view decodable_all [OF that(2)] pageSize_facts(1) in \<open>simp_all add: plain.pending_def\<close>)
  from this [OF assms(1)] this [OF assms(2)] assms(3) show ?thesis by auto
qed

lemma logged_unique_all:
  assumes "list_all2 (\<lambda>sg is. \<exists>b. logged 0 is sg b) sgs iss" "list_all2 (\<lambda>sg is. \<exists>b. logged 0 is sg b) sgs iss'"
    "\<forall>it \<in> set (concat iss) \<union> set (concat iss'). decodable C it"
  shows "map (dec C) (concat iss) = map (dec C) (concat iss')"
  using assms
proof (induction sgs arbitrary: iss iss')
  case (Cons sg sgs)
  obtain x xs y ys where e: "iss = x # xs" "iss' = y # ys" using Cons.prems(1,2) by (auto simp: list_all2_Cons1)
  have "map (dec C) x = map (dec C) y" using Cons.prems e by (auto intro!: logged_unique [of _ sg])
  moreover have "map (dec C) (concat xs) = map (dec C) (concat ys)" using Cons.prems e by (intro Cons.IH) auto
  ultimately show ?case using e by simp
qed simp

lemma log_batches_append: "log_batches C (rss @ rss') w = Option.bind (log_batches C rss w) (log_batches C rss')"
proof (induction rss arbitrary: w)
  case (Cons rs rss)
  then show ?case by (cases "WL_Log C rs w") (auto simp del: WL_Log.simps)
qed simp

text \<open>
  The files before and after some more records have been logged: the segment that was active has grown, and
  the records in it are the first ones of those.
\<close>

lemma crash_files:
  assumes "NewSize segmentSize c = Inr w0" "lossless C" "\<forall>r \<in> set (concat rss1 @ concat rss2). can_encode C c r" "c \<in> {NoCompression, Snappy, Zstd}"
    and "log_batches C rss1 w0 = Some w1" "log_batches C rss2 w1 = Some w2" "seg = length (wl_files w1) - 1"
  obtains iss cur a its bs b more where "take seg (wl_files w2) = butlast (wl_files w1)" "wl_files w2 ! seg = last (wl_files w1) @ bs"
    "list_all2 (complete segmentSize) (butlast (wl_files w1)) iss" "logged 0 cur (last (wl_files w1)) a" "logged a its bs b"
    "concat rss1 = map (dec C) (concat iss @ cur)" "concat rss2 = map (dec C) its @ more" "\<forall>it \<in> set (concat iss @ cur @ its). decodable C it"
proof -
  note n = NewSize_on_disk [OF assms(1)]
  obtain f where f: "compression_flag (wl_compress w0) = Some f" using n assms(4) by auto
  have Q: "\<forall>it \<in> set (map (stored C c) (concat rss1 @ concat rss2)). decodable C it" by (rule decodable_stored [OF assms(2,3)])
  then have Q': "\<forall>r \<in> set (concat rss1). decodable C (stored C c r)" "\<forall>r \<in> set (concat rss2). decodable C (stored C c r)" unfolding set_map by auto
  have w1: "on_disk w1 (map (stored C c) (concat rss1))" "unflushed w1 = []" "same_frame w0 w1"
    using log_batches_ok [of w0 "[]" rss1 C f "decodable C"] f Q'(1) assms(3,5) n by auto
  have cw1: "wl_compress w1 = c" "wl_segmentSize w1 = segmentSize" using w1(3) n by (simp_all add: same_frame_def)
  have w2: "unflushed w2 = []" "follows (decodable C) w1 w2" "on_disk w2 (map (stored C c) (concat rss1) @ map (stored C c) (concat rss2))"
    using log_batches_ok [OF w1(1,2), of rss2 C f "decodable C"] f n Q'(2) assms(3,6) cw1 by auto
  obtain iss cur where d: "list_all2 (complete segmentSize) (butlast (wl_files w1)) iss" "logged 0 cur (last (wl_files w1)) (pg_alloc (wl_page w1))"
      "map (stored C c) (concat rss1) = concat iss @ cur" "wl_files w1 \<noteq> []"
    using w1(1,2) cw1(2) by (auto simp: on_disk_def stream_def wal_ok_def)
  have files: "all_files w1 = wl_files w1" "all_files w2 = wl_files w2" "stream w1 = last (wl_files w1)"
    using w1(2) w2(1) d(4) w2(3) by (simp_all add: all_files_def stream_def on_disk_def wal_ok_def)
  obtain its bs b where g: "logged (pg_alloc (wl_page w1)) its bs b" "\<forall>it \<in> set its. decodable C it" "wl_files w2 ! seg = last (wl_files w1) @ bs"
      "take seg (wl_files w2) = butlast (wl_files w1)" "length (wl_files w1) \<le> length (wl_files w2)"
    using w2(2) unfolding follows_def files assms(7) by auto
  have dc: "\<forall>it \<in> set (concat iss @ cur). decodable C it" using Q unfolding map_append d(3) by auto
  obtain iss2 where i2: "list_all2 (\<lambda>sg is. \<exists>b. logged 0 is sg b \<and> fits (wl_segmentSize w2) sg is) (wl_files w2) iss2"
      "concat iss2 = map (stored C c) (concat rss1 @ concat rss2)"
    using on_disk_segments [OF w2(3,1)] by auto
  have dc2: "\<forall>it \<in> set (concat iss2). decodable C it" using Q i2(2) by simp
  have seg: "seg < length (wl_files w2)" "length iss2 = length (wl_files w2)" using assms(7) d(4) g(5) list_all2_lengthD [OF i2(1)] by (cases "wl_files w1"; auto)+
  have split: "concat iss2 = concat (take seg iss2) @ iss2 ! seg @ concat (drop (Suc seg) iss2)"
    using seg by (metis concat.simps(2) concat_append id_take_nth_drop)
  have "map (dec C) (concat iss) = map (dec C) (concat (take seg iss2))"
  proof (rule logged_unique_all)
    show "list_all2 (\<lambda>sg is. \<exists>b. logged 0 is sg b) (butlast (wl_files w1)) iss" using d(1) by (rule list_all2_mono) (auto simp: complete_def)
    have "list_all2 (\<lambda>sg is. \<exists>b. logged 0 is sg b) (take seg (wl_files w2)) (take seg iss2)" by (rule list_all2_takeI, rule list_all2_mono [OF i2(1)]) auto
    then show "list_all2 (\<lambda>sg is. \<exists>b. logged 0 is sg b) (butlast (wl_files w1)) (take seg iss2)" unfolding g(4) .
    show "\<forall>it \<in> set (concat iss) \<union> set (concat (take seg iss2)). decodable C it" using dc dc2 unfolding split by auto
  qed
  moreover have "map (dec C) (cur @ its) = map (dec C) (iss2 ! seg)"
  proof -
    obtain y where "logged 0 (iss2 ! seg) (last (wl_files w1) @ bs) y" using list_all2_nthD [OF i2(1) seg(1)] unfolding g(3) by blast
    moreover have "\<forall>it \<in> set (cur @ its) \<union> set (iss2 ! seg). decodable C it" using dc dc2 g(2) unfolding split by auto
    ultimately show ?thesis using logged_unique [OF logged_append [OF d(2) g(1)]] by blast
  qed
  moreover have "map (dec C) (concat iss2) = concat rss1 @ concat rss2" unfolding i2(2) by (rule decodes_all(2) [OF assms(2,3)])
  moreover have r1: "concat rss1 = map (dec C) (concat iss @ cur)"
    using decodes_all(2) [of C "concat rss1" c] assms(2,3) unfolding d(3) by auto
  ultimately have "map (dec C) (concat iss) @ map (dec C) cur @ concat rss2 =
      map (dec C) (concat iss) @ map (dec C) (cur @ its) @ map (dec C) (concat (drop (Suc seg) iss2))"
    unfolding split by (simp only: map_append append.assoc)
  then have "concat rss2 = map (dec C) its @ map (dec C) (concat (drop (Suc seg) iss2))" by simp
  then show thesis using that [OF g(4,3) d(1,2) g(1) r1] dc g(2) by auto
qed

lemma repair_reads:
  assumes "logged 0 cur F a" "logged a its bs b" "\<forall>it \<in> set (cur @ its). decodable C it" "length F \<le> k" "int (length F) < off"
  shows "\<exists>j. \<forall>w w'. log_batches C (map (\<lambda>x. [x]) (map (dec C) cur @ take j (map (dec C) its))) w = Some w' \<longrightarrow>
    repair_loop C bytes_Read off (NewReader (take k (F @ bs))) w = Some (None, w')"
proof -
  let ?n = "k - length F"
  have d: "\<forall>it \<in> set cur. decodable C it" "\<forall>it \<in> set its. decodable C it" using assms(3) by auto
  have "plain.view (NewReader (take k (F @ bs))) (replicate 0 0 @ F @ take ?n bs) 0" using NewReader_view(3) assms(4) by simp
  from plain.repair_kept [OF assms(1) this _ NewReader_view(4) _ decodable_all [OF d(1)], of off] obtain r k' tot where
    r: "plain.view r (replicate k' 0 @ take ?n bs) tot" "plain.pending k' tot a" "plain.settled r"
      "\<forall>w w'. log_batches C (map (\<lambda>x. [x]) (map (dec C) cur)) w = Some w' \<longrightarrow>
        repair_loop C bytes_Read off (NewReader (take k (F @ bs))) w = repair_loop C bytes_Read off r w'"
    using assms(5) pageSize_facts(1) by (auto simp: plain.pending_def)
  have a: "a + 7 \<le> pageSize" using logged_bounds [OF assms(1)] pageSize_facts(1) by simp
  have "plain.view r (take (k' + ?n) (replicate k' 0 @ bs)) tot" using r(1) by simp
  from plain.read_torn [OF assms(2) this r(2,3) a decodable_all [OF d(2)]] obtain j err where
    "read_all C bytes_Read r = Some (map (dec C) (take j its), err)" by blast
  from repair_rest [OF this, of off] obtain i where
    i: "\<forall>w w'. log_batches C (map (\<lambda>x. [x]) (take i (map (dec C) (take j its)))) w = Some w' \<longrightarrow> repair_loop C bytes_Read off r w = Some (None, w')" by blast
  have t: "take i (map (dec C) (take j its)) = take (min i j) (map (dec C) its)" by (simp add: take_map)
  show ?thesis
    by (rule exI [of _ "min i j"]) (use r(4) i in \<open>auto simp: t log_batches_append bind_eq_Some_conv\<close>)
qed

lemma restarted_on_disk:
  assumes "list_all2 (complete (wl_segmentSize w)) sgs iss" "wl_segmentSize w mod int pageSize = 0" "wl_page w = new_page" "wl_faults w = []" "\<not> wl_closed w"
  shows "on_disk (setSegment (w\<lparr>wl_files := sgs @ [[]]\<rparr>)) (concat iss)" "unflushed (setSegment (w\<lparr>wl_files := sgs @ [[]]\<rparr>)) = []"
proof -
  show u: "unflushed (setSegment (w\<lparr>wl_files := sgs @ [[]]\<rparr>)) = []" using assms(3) by (simp add: unflushed_def setSegment_def new_page_def)
  have "stream (setSegment (w\<lparr>wl_files := sgs @ [[]]\<rparr>)) = []" using u by (simp add: stream_def setSegment_def)
  then show "on_disk (setSegment (w\<lparr>wl_files := sgs @ [[]]\<rparr>)) (concat iss)"
    unfolding on_disk_def using assms page_ok_new(1) pageSize_facts(1) logged.none [of 0] fits_few [of "[]"]
    by (intro conjI exI [of _ iss] exI [of _ "[]"]) (simp_all add: setSegment_def wal_ok_def new_page_def)
qed

definition readable :: "codecs \<Rightarrow> byte list list \<Rightarrow> byte list list \<Rightarrow> bool" where
  "readable C sgs rs \<longleftrightarrow> read_all C segmentBufReader_Read (NewReader (NewSegmentBufReader sgs)) = Some (rs, None)"

text \<open>The last step of a repair pads the active page, or adds a page of zeros when it is empty. That leaves the records as they are.\<close>

lemma padded_readable:
  assumes "on_disk w its" "unflushed w = []" "\<forall>it \<in> set its. decodable C it"
    and "sgs = butlast (wl_files w) @ [last (wl_files w) @ replicate (pageSize - pg_alloc (wl_page w)) 0]"
  shows "readable C sgs (map (dec C) its)" "readable C (sgs @ [[]]) (map (dec C) its)"
proof -
  let ?a = "pg_alloc (wl_page w)" and ?F = "last (wl_files w)"
  obtain iss cur where d: "list_all2 (complete (wl_segmentSize w)) (butlast (wl_files w)) iss" "logged 0 cur ?F ?a" "its = concat iss @ cur" "?a + 7 \<le> pageSize"
    using assms(1,2) by (auto simp: on_disk_def stream_def)
  have full: "length (?F @ replicate (pageSize - ?a) 0) mod pageSize = 0"
  proof -
    have "length ?F mod pageSize = ?a" using logged_bounds [OF d(2)] d(4) pageSize_facts(1) by simp
    then have "(length ?F + (pageSize - ?a)) mod pageSize = (?a + (pageSize - ?a)) mod pageSize" by (intro mod_add_cong) (use d(4) in auto)
    then show ?thesis using d(4) by simp
  qed
  have pd: "padded xs = xs" if "length xs mod pageSize = 0" for xs :: "byte list" using that by (simp add: padded_def padding_cases)
  have pre: "logged 0 (concat iss) (concat (map padded (butlast (wl_files w)))) 0"
    by (rule logged_concat, rule list_all2_mono [OF d(1)]) (auto simp: complete_def intro: logged_padded)
  have bytes: "concat (map padded sgs) = concat (map padded (butlast (wl_files w))) @ ?F @ replicate (pageSize - ?a) 0"
    unfolding assms(4) using pd [OF full] by simp
  have "readable C x (map (dec C) its)" if x: "concat (map padded x) = concat (map padded sgs)" for x
  proof (cases "?a = 0")
    case True
    have "logged 0 its (concat (map padded (butlast (wl_files w))) @ ?F) 0" using logged_append [OF pre d(2)] d(3) True by simp
    then show ?thesis unfolding readable_def
      by (rule segs.read_logged_zero_page) (use NewReader_view(1) [of x] NewReader_view(2) decodable_all [OF assms(3)] bytes x True in simp_all)
  next
    case False
    have "logged 0 its (concat (map padded sgs)) 0" using logged_append [OF pre logged_fill [OF d(2)]] d(3,4) False bytes by simp
    then show ?thesis unfolding readable_def
      by (rule segs.read_logged [where k = 0 and tot = 0])
         (use NewReader_view(1) [of x] NewReader_view(2) decodable_all [OF assms(3)] pageSize_facts(1) x in \<open>simp_all add: segs.pending_def\<close>)
  qed
  moreover have "padded [] = []" by (simp add: padded_def padding_cases)
  ultimately show "readable C sgs (map (dec C) its)" "readable C (sgs @ [[]]) (map (dec C) its)" by simp_all
qed

lemma repair_readable:
  assumes "repair_loop C bytes_Read off (NewReader (wl_files w ! seg)) (setSegment (w\<lparr>wl_files := take seg (wl_files w) @ [[]]\<rparr>)) = Some (None, w1)"
    and "on_disk w1 its" "unflushed w1 = []" "seg < length (wl_files w)" "\<forall>it \<in> set its. decodable C it"
  shows "\<exists>w'. Repair C (Some (int seg, off)) w = Some (None, w') \<and> readable C (wl_files w') (map (dec C) its)"
proof -
  have ok: "wal_ok w1" using assms(2) by (simp add: on_disk_def)
  obtain w2 where w2: "flushPage True w1 = (None, w2)" "wl_files w2 = butlast (wl_files w1) @ [stream w1 @ replicate (pageSize - pg_alloc (wl_page w1)) 0]"
    using flushPage_clear [OF ok] by blast
  have "stream w1 = last (wl_files w1)" using assms(3) by (simp add: stream_def)
  note r = padded_readable [OF assms(2,3,5) w2(2) [unfolded this]]
  let ?segs = "if length (wl_files w2) \<le> seg + 1 then wl_files w2 @ [[]] else wl_files w2"
  have "Repair C (Some (int seg, off)) w = Some (None, w2\<lparr>wl_files := ?segs, wl_donePages := int (length (?segs ! (seg + 1)) div pageSize)\<rparr>)"
    unfolding Repair_def using assms(1,4) w2(1) by (simp add: Let_def)
  moreover have "readable C ?segs (map (dec C) its)" using r by simp
  ultimately show ?thesis by auto
qed

section \<open>Properties\<close>

text \<open>
  C2. Records come back as they were logged: after any batches of records, of any size, have been logged in a
  new log with any page-aligned segment size and any of the supported compressions, reading its
  segments gives all records in order and ends without an error. No write fails; the compression
  packages are lossless and accept the records.
\<close>

theorem wal_roundtrip:
  assumes "NewSize segmentSize c = Inr w" "lossless C" "\<forall>r \<in> set (concat rss). can_encode C c r" "c \<in> {NoCompression, Snappy, Zstd}"
  shows "\<exists>w'. log_batches C rss w = Some w' \<and>
    read_all C segmentBufReader_Read (NewReader (NewSegmentBufReader (wl_files w'))) = Some (concat rss, None)"
proof -
  note n = NewSize_on_disk [OF assms(1)]
  obtain f where f: "compression_flag (wl_compress w) = Some f" using n assms(4) by auto
  obtain w' where w': "log_batches C rss w = Some w'" "on_disk w' (map (stored C c) (concat rss))" "unflushed w' = []"
    using log_batches_ok [of w "[]" rss C, OF _ _ _ f, of "\<lambda>_. True"] n assms(3) by auto
  obtain iss where s: "list_all2 (\<lambda>sg is. \<exists>b. logged 0 is sg b \<and> fits (wl_segmentSize w') sg is) (wl_files w') iss" "concat iss = map (stored C c) (concat rss)"
    by (rule on_disk_segments [OF w'(2,3)])
  have i: "list_all2 (\<lambda>sg is. logged 0 is (padded sg) 0) (wl_files w') iss" using s(1) by (rule list_all2_mono) (use logged_padded in blast)
  have "read_all C segmentBufReader_Read (NewReader (NewSegmentBufReader (wl_files w'))) = Some (map (dec C) (map (stored C c) (concat rss)), None)"
    unfolding s(2) [symmetric]
    by (rule segs.read_logged [OF logged_concat [OF i], where k = 0 and tot = 0])
       (use NewReader_view decodes_all(1) [OF assms(2,3)] pageSize_facts(1) s(2) in \<open>simp_all add: segs.pending_def\<close>)
  then show ?thesis using w'(1) decodes_all(2) [OF assms(2,3)] by simp
qed

theorem wal_roundtrip_witness:
  "\<exists>w w'. NewSize (32768 * 4) NoCompression = Inr w \<and>
    log_batches identity_codecs [[[1, 2, 3], []], [[7]]] w = Some w' \<and>
    read_all identity_codecs
      segmentBufReader_Read (NewReader (NewSegmentBufReader (wl_files w'))) = Some ([[1, 2, 3], [], [7]], None)"
proof -
  obtain w where w: "NewSize (32768 * 4) NoCompression = Inr w" by (simp add: NewSize_def pageSize_def)
  have c: "concat [[[1, 2, 3], []], [[7]]] = [[1, 2, 3], [], [7 :: byte]]" by simp
  have "\<forall>r \<in> set (concat [[[1, 2, 3], []], [[7]]]). can_encode identity_codecs NoCompression r" by (simp add: identity_codecs)
  from wal_roundtrip [OF w identity_codecs(1) this] obtain w' where "log_batches identity_codecs [[[1, 2, 3], []], [[7]]] w = Some w'"
    "read_all identity_codecs segmentBufReader_Read (NewReader (NewSegmentBufReader (wl_files w'))) = Some ([[1, 2, 3], [], [7]], None)" unfolding c by blast
  then show ?thesis using w by blast
qed

text \<open>
  C3. Repairing the log after a crash loses none of the records that were logged before. Let \<open>rss1\<close> be logged, and \<open>rss2\<close>
  next, and let the crash leave only the first \<open>k\<close> bytes of the segment that was active in between, at least
  those that were there before \<open>rss2\<close>; the segments behind it may be anything. The log \<open>w\<close> that is opened on these files,
  possibly with another compression, is repaired for an error in that segment, at an offset behind the records
  \<open>rss1\<close>. This succeeds, and reading the repaired log gives all records of \<open>rss1\<close> and the first \<open>j\<close> of \<open>rss2\<close>, in
  order and without an error.
\<close>

theorem wal_repair:
  assumes "NewSize segmentSize c = Inr w0" "lossless C" "\<forall>r \<in> set (concat rss1 @ concat rss2). can_encode C c r \<and> can_encode C c' r"
    and "c \<in> {NoCompression, Snappy, Zstd}" "c' \<in> {NoCompression, Snappy, Zstd}"
    and "log_batches C rss1 w0 = Some w1" "log_batches C rss2 w1 = Some w2"
    and "seg = length (wl_files w1) - 1" "length (last (wl_files w1)) \<le> k" "int (length (last (wl_files w1))) < off"
    and "w = \<lparr>wl_segmentSize = segmentSize, wl_files = take seg (wl_files w2) @ take k (wl_files w2 ! seg) # later, wl_donePages = dp,
      wl_page = new_page, wl_closed = False, wl_compress = c', wl_faults = []\<rparr>"
  shows "\<exists>w' j. Repair C (Some (int seg, off)) w = Some (None, w') \<and>
    read_all C segmentBufReader_Read (NewReader (NewSegmentBufReader (wl_files w'))) = Some (concat rss1 @ take j (concat rss2), None)"
proof -
  obtain iss cur a its bs b more where d: "take seg (wl_files w2) = butlast (wl_files w1)" "wl_files w2 ! seg = last (wl_files w1) @ bs"
      "list_all2 (complete segmentSize) (butlast (wl_files w1)) iss" "logged 0 cur (last (wl_files w1)) a" "logged a its bs b"
      "concat rss1 = map (dec C) (concat iss @ cur)" "concat rss2 = map (dec C) its @ more" "\<forall>it \<in> set (concat iss @ cur @ its). decodable C it"
    by (rule crash_files [OF assms(1,2) _ assms(4,6,7,8)]) (use assms(3) in auto)
  let ?F = "take k (last (wl_files w1) @ bs)"
  obtain j where j: "\<forall>v v'. log_batches C (map (\<lambda>x. [x]) (map (dec C) cur @ take j (map (dec C) its))) v = Some v' \<longrightarrow>
      repair_loop C bytes_Read off (NewReader ?F) v = Some (None, v')"
    using repair_reads [OF d(4,5) _ assms(9,10), where C = C] d(8) by (metis UnCI set_append)
  let ?recs = "map (dec C) cur @ take j (map (dec C) its)"
  let ?v = "setSegment (w\<lparr>wl_files := take seg (wl_files w) @ [[]]\<rparr>)"
  have seg: "seg = length (butlast (wl_files w1))" using assms(8) by simp
  have files: "take seg (wl_files w) = butlast (wl_files w1)" "wl_files w ! seg = ?F" "seg < length (wl_files w)"
    using d(1,2) seg by (simp_all add: assms(11) nth_append)
  have S: "segmentSize mod int pageSize = 0" using NewSize_on_disk [OF assms(1)] unfolding on_disk_def by metis
  have v: "on_disk ?v (concat iss)" "unflushed ?v = []" "wl_compress ?v = c'"
    using restarted_on_disk [of w "butlast (wl_files w1)" iss] d(3) S unfolding files(1) by (simp_all add: assms(11) setSegment_def)
  have enc: "\<forall>r \<in> set ?recs. can_encode C c' r" using assms(3) d(6,7) by (auto dest: in_set_takeD)
  obtain f where "compression_flag (wl_compress ?v) = Some f" using v(3) assms(5) by auto
  then obtain v' where v': "repair_loop C bytes_Read off (NewReader ?F) ?v = Some (None, v')" "on_disk v' (concat iss @ map (stored C c') ?recs)" "unflushed v' = []"
    using log_batches_ok [OF v(1,2), of "map (\<lambda>x. [x]) ?recs" C f "\<lambda>_. True"] v(3) enc j by (auto simp only: concat_map_singleton map_ident)
  have dc: "\<forall>it \<in> set (concat iss @ map (stored C c') ?recs). decodable C it"
    using decodable_stored [OF assms(2) enc] d(8) unfolding set_append by blast
  obtain w' where w': "Repair C (Some (int seg, off)) w = Some (None, w')" "readable C (wl_files w') (map (dec C) (concat iss @ map (stored C c') ?recs))"
    using repair_readable [of C off w seg, OF _ v'(2,3) files(3) dc] v'(1) files(2) by metis
  have "map (dec C) (concat iss @ map (stored C c') ?recs) = concat rss1 @ take j (map (dec C) its)"
    using decodes_all(2) [OF assms(2) enc] d(6) by simp
  moreover have t: "take j (map (dec C) its) = take (min j (length its)) (concat rss2)" unfolding d(7) by (cases "j \<le> length its") (simp_all add: min_def)
  ultimately have "readable C (wl_files w') (concat rss1 @ take (min j (length its)) (concat rss2))" using w'(2) by argo
  then show ?thesis using w'(1) unfolding readable_def by blast
qed

theorem wal_repair_witness:
  "\<exists>w0 w1 w2 w w' j. NewSize (32768 * 4) NoCompression = Inr w0 \<and>
    log_batches identity_codecs [[[1, 2, 3]]] w0 = Some w1 \<and> log_batches identity_codecs [[[7], [8, 9]]] w1 = Some w2 \<and>
    wl_files w = take (length (wl_files w1) - 1) (wl_files w2) @ take (length (last (wl_files w1)) + 4) (wl_files w2 ! (length (wl_files w1) - 1)) # [[5, 5]] \<and>
    Repair identity_codecs (Some (int (length (wl_files w1) - 1), int (length (last (wl_files w1))) + 1)) w = Some (None, w') \<and>
    read_all identity_codecs segmentBufReader_Read (NewReader (NewSegmentBufReader (wl_files w'))) = Some ([[1, 2, 3]] @ take j [[7], [8, 9]], None)"
proof -
  obtain w0 where w0: "NewSize (32768 * 4) NoCompression = Inr w0" by (simp add: NewSize_def pageSize_def)
  note n = NewSize_on_disk [OF w0]
  obtain w1 where w1: "log_batches identity_codecs [[[1, 2, 3]]] w0 = Some w1" "on_disk w1 (map (stored identity_codecs NoCompression) [[1, 2, 3]])" "unflushed w1 = []" "same_frame w0 w1"
    using log_batches_ok [of w0 "[]" "[[[1, 2, 3]]]" identity_codecs 0 "\<lambda>_. True"] n identity_codecs by auto
  then have c: "wl_compress w1 = NoCompression" using n by (simp add: same_frame_def)
  obtain w2 where w2: "log_batches identity_codecs [[[7], [8, 9]]] w1 = Some w2"
    using log_batches_ok [OF w1(2,3), of "[[[7], [8, 9]]]" identity_codecs 0 "\<lambda>_. True"] c identity_codecs by auto
  have e: "\<forall>r \<in> set (concat [[[1, 2, 3]]] @ concat [[[7], [8, 9]]]). can_encode identity_codecs NoCompression r \<and> can_encode identity_codecs NoCompression r"
    by (simp add: identity_codecs)
  have recs: "concat [[[1, 2, 3]]] = [[1, 2, 3 :: byte]]" "concat [[[7], [8, 9]]] = [[7], [8, 9 :: byte]]" by simp_all
  let ?seg = "length (wl_files w1) - 1" and ?k = "length (last (wl_files w1)) + 4"
  define w where "w = \<lparr>wl_segmentSize = 32768 * 4, wl_files = take ?seg (wl_files w2) @ take ?k (wl_files w2 ! ?seg) # [[5, 5]], wl_donePages = 0,
    wl_page = new_page, wl_closed = False, wl_compress = NoCompression, wl_faults = []\<rparr>"
  from wal_repair [OF w0 identity_codecs(1) e _ _ w1(1) w2 refl _ _ w_def, of "int (length (last (wl_files w1))) + 1"] obtain w' j where
    "Repair identity_codecs (Some (int ?seg, int (length (last (wl_files w1))) + 1)) w = Some (None, w')"
    "read_all identity_codecs segmentBufReader_Read (NewReader (NewSegmentBufReader (wl_files w'))) = Some ([[1, 2, 3]] @ take j [[7], [8, 9]], None)"
    unfolding recs by auto
  moreover have "wl_files w = take ?seg (wl_files w2) @ take ?k (wl_files w2 ! ?seg) # [[5, 5]]" by (simp add: w_def)
  ultimately show ?thesis using w0 w1(1) w2 by blast
qed

text \<open>
  C4. Every segment is complete in itself: when none of the logged records is empty, each file can be read alone and
  gives its own part of the records, without an error and without a record that is cut off at its end, and
  together they give all records. And a file is not larger than the segment size, unless it holds no more than
  one record, which then is too long for any segment. With empty records a file may be larger: the room that is left
  does not count their headers.
\<close>

theorem wal_segments_complete:
  assumes "NewSize segmentSize c = Inr w" "lossless C" "\<forall>r \<in> set (concat rss). can_encode C c r" "c \<in> {NoCompression, Snappy, Zstd}" "[] \<notin> set (concat rss)"
  shows "\<exists>w' rss'. log_batches C rss w = Some w' \<and> concat rss' = concat rss \<and>
    list_all2 (\<lambda>sg rs. read_all C segmentBufReader_Read (NewReader (NewSegmentBufReader [sg])) = Some (rs, None) \<and>
      (length rs \<le> 1 \<or> int (length sg) \<le> segmentSize)) (wl_files w') rss'"
proof -
  note n = NewSize_on_disk [OF assms(1)]
  obtain f where f: "compression_flag (wl_compress w) = Some f" using n assms(4) by auto
  obtain w' where w': "log_batches C rss w = Some w'" "on_disk w' (map (stored C c) (concat rss))" "unflushed w' = []" "same_frame w w'"
    using log_batches_ok [of w "[]" rss C, OF _ _ _ f, of "\<lambda>_. True"] n assms(3) by auto
  obtain iss where s: "list_all2 (\<lambda>sg is. \<exists>b. logged 0 is sg b \<and> fits (wl_segmentSize w') sg is) (wl_files w') iss" "concat iss = map (stored C c) (concat rss)"
    by (rule on_disk_segments [OF w'(2,3)])
  have S: "wl_segmentSize w' = segmentSize" using n w'(4) by (simp add: same_frame_def)
  have its: "set is \<subseteq> set (map (stored C c) (concat rss))" if "is \<in> set iss" for "is" unfolding s(2) [symmetric] using that by auto
  have one: "read_all C segmentBufReader_Read (NewReader (NewSegmentBufReader [sg])) = Some (map (dec C) is, None) \<and> (length (map (dec C) is) \<le> 1 \<or> int (length sg) \<le> segmentSize)"
    if i: "is \<in> set iss" and l: "logged 0 is sg b" "fits segmentSize sg is" for sg "is" b
  proof
    have d: "\<forall>(f, enc) \<in> set is. flag_ok f \<and> compression_Decode C (header_compression f) enc = Inr (dec C (f, enc))"
      using its [OF i] decodes_all(1) [OF assms(2,3)] by blast
    show "read_all C segmentBufReader_Read (NewReader (NewSegmentBufReader [sg])) = Some (map (dec C) is, None)"
      by (rule segs.read_logged [OF logged_padded [OF l(1)], where k = 0 and tot = 0])
         (use NewReader_view(1) [of "[sg]"] NewReader_view(2) d pageSize_facts(1) in \<open>simp_all add: segs.pending_def\<close>)
    have "\<forall>r \<in> set (concat rss). snd (stored C c r) \<noteq> []" using stored_not_empty [OF assms(2)] assms(3,5) by metis
    then have "\<forall>it \<in> set (map (stored C c) (concat rss)). snd it \<noteq> []" by (simp only: set_map ball_simps)
    then have "\<forall>it \<in> set is. snd it \<noteq> []" using its [OF i] by blast
    then show "length (map (dec C) is) \<le> 1 \<or> int (length sg) \<le> segmentSize" using l(2) by (simp add: fits_def)
  qed
  have "list_all2 (\<lambda>sg rs. read_all C segmentBufReader_Read (NewReader (NewSegmentBufReader [sg])) = Some (rs, None) \<and> (length rs \<le> 1 \<or> int (length sg) \<le> segmentSize)) (wl_files w') (map (map (dec C)) iss)"
    unfolding list_all2_map2 using s(1) unfolding S by (rule list.rel_mono_strong) (use one in blast)
  moreover have "concat (map (map (dec C)) iss) = concat rss" unfolding map_concat [symmetric] s(2) by (rule decodes_all(2) [OF assms(2,3)])
  ultimately show ?thesis using w'(1) by blast
qed

theorem wal_segments_complete_witness:
  "\<exists>w w' rss'. NewSize (32768 * 4) NoCompression = Inr w \<and>
    log_batches identity_codecs [[[1, 2, 3], [4]], [[7]]] w = Some w' \<and>
    concat rss' = [[1, 2, 3], [4], [7]] \<and>
    list_all2 (\<lambda>sg rs. read_all identity_codecs segmentBufReader_Read
      (NewReader (NewSegmentBufReader [sg])) = Some (rs, None) \<and> (length rs \<le> 1 \<or> int (length sg) \<le> 32768 * 4)) (wl_files w') rss'"
proof -
  obtain w where w: "NewSize (32768 * 4) NoCompression = Inr w" by (simp add: NewSize_def pageSize_def)
  have c: "concat [[[1, 2, 3], [4]], [[7]]] = [[1, 2, 3], [4], [7 :: byte]]" by simp
  have "\<forall>r \<in> set (concat [[[1, 2, 3], [4]], [[7]]]). can_encode identity_codecs NoCompression r" "[] \<notin> set (concat [[[1, 2, 3], [4]], [[7 :: byte]]])"
      "NoCompression \<in> {NoCompression, Snappy, Zstd}"
    by (simp_all add: identity_codecs)
  from wal_segments_complete [OF w identity_codecs(1) this(1,3,2)] show ?thesis using w unfolding c by blast
qed

text \<open>A record that fits in the active page, and what its first byte looks like with zeros behind it.\<close>

definition room_left :: "WL \<Rightarrow> int" where
  "room_left w = page_remaining (wl_page w) - int recordHeaderSize + (int pageSize - int recordHeaderSize) * (pagesPerSegment w - wl_donePages w - 1)"

lemma flushPage_files: "wl_files w \<noteq> [] \<Longrightarrow> flushPage forceClear w = (err, w') \<Longrightarrow> length (wl_files w') = length (wl_files w)"
  by (auto simp: flushPage_def segment_Write_def Let_def split: if_splits list.splits option.splits)

lemma nextSegment_files: "wl_files w \<noteq> [] \<Longrightarrow> nextSegment w = (Inr n, w') \<Longrightarrow> length (wl_files w') = length (wl_files w) + 1"
  using flushPage_files [of w True] by (auto simp: nextSegment_def setSegment_def split: if_splits prod.splits option.splits)

lemma log_record_in_page:
  assumes "on_disk w its" "unflushed w = []" "wl_compress w = NoCompression" "pg_alloc (wl_page w) + 7 + length r \<le> pageSize"
  shows "\<exists>w'. WL_Log C [r] w = Some (None, w') \<and>
    (if room_left w < int (length r) then length (wl_files w') = length (wl_files w) + 1
     else (\<exists>zs. wl_files w' = butlast (wl_files w) @ [last (wl_files w) @ frag 0 recFull r @ zs]))"
proof -
  have nf: "\<not> page_full (wl_page w)" using assms(4) by (simp add: page_full_iff)
  obtain n v where v: "(if int (length r) > room_left w then nextSegment w else (Inr 0, w)) = (Inr n, v)" "wal_ok v" "pg_alloc (wl_page v) + 7 \<le> pageSize"
      "if room_left w < int (length r) then length (wl_files v) = length (wl_files w) + 1 else v = w"
  proof (cases "int (length r) > room_left w")
    case True
    obtain n v where v: "nextSegment w = (Inr n, v)" "on_disk v its" using nextSegment_ok [OF assms(1), of "\<lambda>_. True"] by blast
    have "length (wl_files v) = length (wl_files w) + 1" using nextSegment_files [OF _ v(1)] assms(1) by (simp add: on_disk_def wal_ok_def)
    then show thesis using that [of n v] True v by (simp add: on_disk_def)
  next
    case False
    then show thesis using that [of 0 w] assms(1) by (simp add: on_disk_def)
  qed
  have ne: "wl_files v \<noteq> []" using v(2) by (simp add: wal_ok_def)
  obtain w1 fs x where w1: "log_loop NoCompression 0 r v = Some (None, w1)" "fragments 0 (pg_alloc (wl_page v)) 0 r fs x" "wal_ok w1" "pg_alloc (wl_page w1) = norm x"
      "stream w1 = stream v @ fs @ replicate (pad x) 0" "butlast (wl_files w1) = butlast (wl_files v)"
    using log_loop_ok [OF v(2,3), of NoCompression 0 0 r] by auto
  obtain w2 where w2: "(if 0 < pg_alloc (wl_page w1) then flushPage False w1 else (None, w1)) = (None, w2)" "wl_files w2 = butlast (wl_files v) @ [stream w1]"
  proof (cases "0 < pg_alloc (wl_page w1)")
    case True
    then show thesis using flushPage_keep [OF w1(3)] w1(4,6) norm_pad(2) that by auto
  next
    case False
    have "wl_files w1 = butlast (wl_files w1) @ [last (wl_files w1)]" using w1(3) by (simp add: wal_ok_def)
    then show thesis using that [of w1] False w1(6) by (simp add: stream_def unflushed_def)
  qed
  have "WL_log C r True w = Some (if 0 < pg_alloc (wl_page w1) then flushPage False w1 else (None, w1))"
    unfolding WL_log_def if_not_P [OF nf] prod.case option.case assms(3) room_left_def [symmetric] using v(1) w1(1) by (simp add: compression_Encode_def Let_def)
  then have log: "WL_Log C [r] w = Some (None, w2)" unfolding w2(1) by simp
  show ?thesis
  proof (cases "room_left w < int (length r)")
    case True
    then show ?thesis using log v(4) w2(2) ne by simp
  next
    case False
    then have e: "v = w" using v(4) by simp
    have "fs = frag 0 recFull r" by (rule fragments.cases [OF w1(2)]) (use e assms(4) in auto)
    then show ?thesis using False log w2(2) w1(5) e assms(2) by (simp add: stream_def)
  qed
qed

lemma torn_header_looks_empty:
  assumes "logged 0 its sg a"
  shows "logged 0 (its @ [(0, [])]) (padded (sg @ [1])) 0"
proof -
  have a: "length sg mod pageSize = a" "a + 7 \<le> pageSize" using logged_bounds [OF assms] pageSize_facts(1) by auto
  have "fragments 0 a 0 [] (frag 0 recFull []) (a + 7)" using fragments.last [of a "[]" 0 0] a(2) by simp
  from logged_padded [OF logged_item [OF assms this]]
  have "logged 0 (its @ [(0, [])]) (padded (sg @ frag 0 recFull [] @ replicate (pad (a + 7)) 0)) 0" .
  moreover have "PutUint16 0 @ PutUint32 (crc32_Checksum []) = replicate 6 0" by code_simp
  then have f: "frag 0 recFull [] = 1 # replicate 6 0" by (simp add: frag_def)
  have "padded (sg @ frag 0 recFull [] @ replicate (pad (a + 7)) 0) = sg @ 1 # replicate (pageSize - a - 1) 0"
  proof (cases "pageSize < a + 14")
    case True
    then have p: "pad (a + 7) = pageSize - (a + 7)" by (simp add: pad_def)
    let ?xs = "sg @ frag 0 recFull [] @ replicate (pageSize - (a + 7)) 0"
    have "length ?xs mod pageSize = (a + (7 + (pageSize - (a + 7)))) mod pageSize"
      unfolding length_append length_frag length_replicate list.size(3) add_0_right by (rule mod_add_cong) (use a in auto)
    also have "\<dots> = 0" using a(2) by simp
    finally have "padded ?xs = ?xs" by (simp only: padded_def padding_cases if_P replicate_0 append_Nil2 if_True)
    moreover have "6 + (pageSize - (a + 7)) = pageSize - a - 1" using a(2) by simp
    ultimately show ?thesis unfolding p by (simp add: f flip: replicate_add)
  next
    case False
    have "(length sg + 7) mod pageSize = (a + 7) mod pageSize" by (intro mod_add_cong) (use a in auto)
    then show ?thesis using False by (simp add: f padded_def padding_cases pad_def add.commute flip: replicate_add)
  qed
  moreover have "(length sg + 1) mod pageSize = (a + 1) mod pageSize" by (intro mod_add_cong) (use a in auto)
  then have "padded (sg @ [1]) = sg @ 1 # replicate (pageSize - a - 1) 0" using a(2) by (simp add: padded_def padding_cases)
  ultimately show ?thesis by simp
qed

text \<open>
  C38. A write that is torn inside a record header is not always noticed. When a record that is not compressed and
  fits in the rest of the active page has been added to any log, and the segment ends right behind the first byte of
  that record, the segment is read with zeros behind that byte, which make it an empty record with a correct
  checksum. The reader returns an empty record that was never logged behind the records before it, and no
  error, instead of the record \<open>r\<close>.
\<close>

theorem wal_torn_header_accepted:
  assumes "NewSize segmentSize NoCompression = Inr w0" "log_batches C rss w0 = Some w" "WL_Log C [r] w = Some (None, w')"
    and "length (wl_files w') = length (wl_files w)" "length (last (wl_files w)) mod pageSize + 7 + length r \<le> pageSize" "r \<noteq> []"
  shows "read_all C segmentBufReader_Read (NewReader (NewSegmentBufReader (wl_files w'))) = Some (concat rss @ [r], None) \<and>
    read_all C segmentBufReader_Read (NewReader (NewSegmentBufReader
      (butlast (wl_files w') @ [take (length (last (wl_files w)) + 1) (last (wl_files w'))]))) = Some (concat rss @ [[]], None)"
proof
  note n = NewSize_on_disk [OF assms(1)]
  have plain: "stored C NoCompression x = (0, x)" "decodable C (0, x)" "dec C (0, x) = x" for x
    by (simp_all add: stored_def compression_Encode_def decodable_def dec_def flag_ok_def header_compression_def snappyMask_def zstdMask_def compression_Decode_def)
  have w: "on_disk w (map (stored C NoCompression) (concat rss))" "unflushed w = []" "same_frame w0 w"
    using log_batches_ok [of w0 "[]" rss C 0 "\<lambda>_. True"] assms(2) n by (auto simp: can_encode_def)
  have c: "wl_compress w = NoCompression" using w(3) n by (simp add: same_frame_def)
  have w': "on_disk w' (map (stored C NoCompression) (concat rss @ [r]))" "unflushed w' = []"
    using WL_Log_ok [OF w(1), of "[r]" C 0 "\<lambda>_. True"] c assms(3) by (auto simp: compression_Encode_def)
  have recs: "map (dec C) (map (stored C NoCompression) xs) = xs" "\<forall>it \<in> set (map (stored C NoCompression) xs). decodable C it" for xs
    using plain by (simp_all add: map_idI)
  have rd: "readable C sgs (map (dec C) its)" if "logged 0 its (concat (map padded sgs)) 0" "\<forall>it \<in> set its. decodable C it" for its sgs
    unfolding readable_def
    by (rule segs.read_logged [OF that(1), where k = 0 and tot = 0])
       (use NewReader_view(1) [of sgs] NewReader_view(2) decodable_all [OF that(2)] pageSize_facts(1) in \<open>simp_all add: segs.pending_def\<close>)
  have "readable C (wl_files w') (map (dec C) (map (stored C NoCompression) (concat rss @ [r])))"
    using on_disk_padded [OF w'] recs(2) [of "concat rss @ [r]"] by (intro rd) simp_all
  then show "read_all C segmentBufReader_Read (NewReader (NewSegmentBufReader (wl_files w'))) = Some (concat rss @ [r], None)"
    unfolding recs readable_def .
  obtain iss cur where d: "list_all2 (complete (wl_segmentSize w)) (butlast (wl_files w)) iss" "logged 0 cur (last (wl_files w)) (pg_alloc (wl_page w))"
      "map (stored C NoCompression) (concat rss) = concat iss @ cur" using w(1,2) by (auto simp: on_disk_def stream_def)
  have "pg_alloc (wl_page w) = length (last (wl_files w)) mod pageSize" using logged_bounds [OF d(2)] pageSize_facts(1) by simp
  then have "pg_alloc (wl_page w) + 7 + length r \<le> pageSize" using assms(5) by simp
  from log_record_in_page [OF w(1,2) c this, of C] assms(3,4) obtain zs where zs: "wl_files w' = butlast (wl_files w) @ [last (wl_files w) @ frag 0 recFull r @ zs]"
    by (auto simp del: WL_Log.simps split: if_splits)
  then have torn: "butlast (wl_files w') @ [take (length (last (wl_files w)) + 1) (last (wl_files w'))] = butlast (wl_files w) @ [last (wl_files w) @ [1]]"
    by (simp add: frag_def)
  have pre: "logged 0 (concat iss) (concat (map padded (butlast (wl_files w)))) 0"
    by (rule logged_concat, rule list_all2_mono [OF d(1)]) (auto simp: complete_def intro: logged_padded)
  have "logged 0 (map (stored C NoCompression) (concat rss @ [[]])) (concat (map padded (butlast (wl_files w) @ [last (wl_files w) @ [1]]))) 0"
    using logged_append [OF pre torn_header_looks_empty [OF d(2)]] d(3) plain(1) by simp
  from rd [OF this recs(2)] show "read_all C segmentBufReader_Read (NewReader (NewSegmentBufReader
      (butlast (wl_files w') @ [take (length (last (wl_files w)) + 1) (last (wl_files w'))]))) = Some (concat rss @ [[]], None)"
    unfolding recs torn readable_def .
qed

theorem wal_torn_header_accepted_witness:
  "\<exists>w0 w w'. NewSize (32768 * 4) NoCompression = Inr w0 \<and> log_batches identity_codecs [] w0 = Some w \<and> WL_Log identity_codecs [[1, 2, 3]] w = Some (None, w') \<and>
    read_all identity_codecs segmentBufReader_Read (NewReader (NewSegmentBufReader (wl_files w'))) = Some ([[1, 2, 3]], None) \<and>
    read_all identity_codecs segmentBufReader_Read (NewReader (NewSegmentBufReader
      (butlast (wl_files w') @ [take (length (last (wl_files w)) + 1) (last (wl_files w'))]))) = Some ([[]], None)"
proof -
  obtain w0 where w0: "NewSize (32768 * 4) NoCompression = Inr w0" by (simp add: NewSize_def pageSize_def)
  then have w: "w0 = \<lparr>wl_segmentSize = 32768 * 4, wl_files = [[]], wl_donePages = 0, wl_page = new_page, wl_closed = False, wl_compress = NoCompression, wl_faults = []\<rparr>"
    by (simp add: NewSize_def setSegment_def pageSize_def)
  have "\<not> room_left w0 < int (length [1, 2, 3 :: byte])" by (simp add: w room_left_def page_remaining_def pagesPerSegment_def pageSize_def new_page_def)
  then obtain w' where w': "WL_Log identity_codecs [[1, 2, 3]] w0 = Some (None, w')" "length (wl_files w') = length (wl_files w0)"
    using log_record_in_page [of w0 "[]" "[1, 2, 3]" identity_codecs] NewSize_on_disk [OF w0] w
    by (auto simp del: WL_Log.simps simp: new_page_def pageSize_def)
  have "log_batches identity_codecs [] w0 = Some w0" by simp
  from wal_torn_header_accepted [OF w0 this w'] w0 w'(1) show ?thesis using w by (auto simp: pageSize_def simp del: WL_Log.simps)
qed

lemma flush_fails:
  assumes "wl_faults w = Some n # faults"
  shows "\<exists>e w'. flushPage forceClear w = (Some e, w') \<and> wl_faults w' = faults \<and> flushPage forceClear (w'\<lparr>wl_faults := []\<rparr>) = flushPage forceClear (w\<lparr>wl_faults := []\<rparr>)"
proof -
  let ?p = "wl_page w"
  define clear where "clear \<longleftrightarrow> forceClear \<or> page_full ?p"
  define q where "q = (if clear then ?p\<lparr>pg_alloc := pageSize\<rparr> else ?p)"
  define bs where "bs = take (pg_alloc q - pg_flushed q) (drop (pg_flushed q) (pg_buf q))"
  define m where "m = min n (length bs)"
  define q' where "q' = q\<lparr>pg_flushed := pg_flushed q + m\<rparr>"
  let ?w' = "w\<lparr>wl_files := butlast (wl_files w) @ [last (wl_files w) @ take m bs], wl_faults := faults, wl_page := q'\<rparr>"
  have m: "m \<le> length bs" by (simp add: m_def)
  have "flushPage forceClear w = (Some (ErrInvalid ''write''), ?w')"
    using assms unfolding flushPage_def Let_def clear_def [symmetric] q_def [symmetric] bs_def [symmetric] segment_Write_def by (simp add: m_def q'_def)
  moreover have "flushPage forceClear (?w'\<lparr>wl_faults := []\<rparr>) = flushPage forceClear (w\<lparr>wl_faults := []\<rparr>)"
  proof -
    have pg: "wl_page (?w'\<lparr>wl_faults := []\<rparr>) = q'" "wl_page (w\<lparr>wl_faults := []\<rparr>) = ?p" by simp_all
    have c: "(forceClear \<or> page_full q') = clear" "(if clear then q'\<lparr>pg_alloc := pageSize\<rparr> else q') = q'"
      by (auto simp: clear_def q'_def q_def page_full_def)
    have r: "take (pg_alloc q' - pg_flushed q') (drop (pg_flushed q') (pg_buf q')) = drop m bs" by (simp add: q'_def bs_def drop_take add.commute)
    have s: "segment_Write (drop m bs) (?w'\<lparr>wl_faults := []\<rparr>) = (length bs - m, None, w\<lparr>wl_files := butlast (wl_files w) @ [last (wl_files w) @ bs], wl_faults := [], wl_page := q'\<rparr>)"
      "segment_Write bs (w\<lparr>wl_faults := []\<rparr>) = (length bs, None, w\<lparr>wl_files := butlast (wl_files w) @ [last (wl_files w) @ bs], wl_faults := []\<rparr>)"
      by (simp_all add: segment_Write_def)
    have "q'\<lparr>pg_flushed := pg_flushed q' + (length bs - m)\<rparr> = q\<lparr>pg_flushed := pg_flushed q + length bs\<rparr>" using m by (simp add: q'_def)
    then show ?thesis unfolding flushPage_def Let_def pg c r s clear_def [symmetric] q_def [symmetric] bs_def [symmetric] prod.case by simp
  qed
  ultimately show ?thesis by simp
qed

text \<open>
  C29. A flush that fails can be repeated: the bytes that reached the file are counted, so that the next flush
  writes the ones that are left. After any number of failed writes, each of which may have stored any number of bytes and
  each of which is reported, the flush that succeeds leaves the log as if none had failed.
\<close>

theorem wal_flush_retry:
  assumes "wl_faults w = map Some ns"
  shows "flushPage forceClear (((snd \<circ> flushPage forceClear) ^^ length ns) w) = flushPage forceClear (w\<lparr>wl_faults := []\<rparr>) \<and>
    (ns \<noteq> [] \<longrightarrow> fst (flushPage forceClear w) \<noteq> None)"
  using assms
proof (induction ns arbitrary: w)
  case Nil
  then show ?case by (cases w) simp
next
  case (Cons n ns)
  then have "wl_faults w = Some n # map Some ns" by simp
  from flush_fails [OF this, of forceClear] obtain e w' where w': "flushPage forceClear w = (Some e, w')" "wl_faults w' = map Some ns"
    "flushPage forceClear (w'\<lparr>wl_faults := []\<rparr>) = flushPage forceClear (w\<lparr>wl_faults := []\<rparr>)" by blast
  have "((snd \<circ> flushPage forceClear) ^^ length (n # ns)) w = ((snd \<circ> flushPage forceClear) ^^ length ns) w'"
    using w'(1) by (simp add: funpow_swap1)
  then show ?case using Cons.IH [OF w'(2)] w'(1,3) by (simp only:) simp
qed

theorem wal_flush_retry_witness:
  "\<exists>w. wl_faults w = [Some 1, Some 2] \<and> unflushed w = [7, 7, 7, 7, 7] \<and>
    flushPage False (((snd \<circ> flushPage False) ^^ 2) w) = flushPage False (w\<lparr>wl_faults := []\<rparr>) \<and> fst (flushPage False w) \<noteq> None"
proof -
  define buf where "buf = replicate 5 (7 :: byte) @ replicate 32763 0"
  define w where "w = \<lparr>wl_segmentSize = 32768, wl_files = [[]], wl_donePages = 0, wl_page = \<lparr>pg_alloc = 5, pg_flushed = 0, pg_buf = buf\<rparr>,
    wl_closed = False, wl_compress = NoCompression, wl_faults = [Some 1, Some 2]\<rparr>"
  have f: "wl_faults w = map Some [1, 2]" by (simp add: w_def)
  have "take 5 buf = replicate 5 7" by (simp add: buf_def)
  then have "unflushed w = [7, 7, 7, 7, 7]" by (simp add: unflushed_def w_def numeral_eq_Suc)
  then show ?thesis using wal_flush_retry [OF f, of False] f by (intro exI [of _ w]) (simp add: numeral_2_eq_2)
qed

end
