(* ===== verification/Blocks.thy ===== *)
theory Blocks
  imports Go_Prelude "HOL-Library.Signed_Division" "HOL-Library.Multiset" "HOL-Library.Char_ord" "HOL-Library.List_Lexorder"
begin

text \<open>
  Blocks on disk: their metadata (\<open>tsdb/block.go\<close>), which of them are compacted together
  (\<open>tsdb/compact.go\<close>), and which of them are loaded and deleted (\<open>tsdb/db.go\<close>).

  ULIDs come from another package; they are values of a linearly ordered type. \<open>slices.SortFunc\<close> is not stable,
  so the functions take what it returns as an argument \<open>srt\<close>, and theorems only use that it sorts. Arithmetic
  on floats is an argument too. \<open>None\<close> is a panic.
\<close>

section \<open>Block metadata\<close>

record BlockStats =
  NumSamples :: uint64
  NumFloatSamples :: uint64
  NumHistogramSamples :: uint64
  NumSeries :: uint64
  NumChunks :: uint64
  NumTombstones :: uint64

record 'u BlockDesc =
  bd_ULID :: 'u
  bd_MinTime :: int64
  bd_MaxTime :: int64

record 'u BlockMetaCompaction =
  Level :: int64
  Sources :: "'u list"
  Deletable :: bool
  Parents :: "'u BlockDesc list"
  Failed :: bool
  Hints :: "string list"

record 'u BlockMeta =
  ULID :: 'u
  MinTime :: int64
  MaxTime :: int64
  Stats :: BlockStats
  Compaction :: "'u BlockMetaCompaction"
  Version :: int64

definition CompactionHintFromOutOfOrder :: string where "CompactionHintFromOutOfOrder = ''from-out-of-order''"
definition CompactionHintFromStaleSeries :: string where "CompactionHintFromStaleSeries = ''from-stale-series''"
definition CompactionHintFromSelectedSeries :: string where "CompactionHintFromSelectedSeries = ''from-selected-series''"

definition FromOutOfOrder :: "'u BlockMetaCompaction \<Rightarrow> bool" where
  "FromOutOfOrder bm \<longleftrightarrow> CompactionHintFromOutOfOrder \<in> set (Hints bm)"

definition FromStaleSeries :: "'u BlockMetaCompaction \<Rightarrow> bool" where
  "FromStaleSeries bm \<longleftrightarrow> CompactionHintFromStaleSeries \<in> set (Hints bm)"

definition FromSelectedSeries :: "'u BlockMetaCompaction \<Rightarrow> bool" where
  "FromSelectedSeries bm \<longleftrightarrow> CompactionHintFromSelectedSeries \<in> set (Hints bm)"

definition SetOutOfOrder :: "'u BlockMetaCompaction \<Rightarrow> 'u BlockMetaCompaction" where
  "SetOutOfOrder bm = (if FromOutOfOrder bm then bm else bm\<lparr>Hints := sort (Hints bm @ [CompactionHintFromOutOfOrder])\<rparr>)"

definition SetStaleSeries :: "'u BlockMetaCompaction \<Rightarrow> 'u BlockMetaCompaction" where
  "SetStaleSeries bm = (if FromStaleSeries bm then bm else bm\<lparr>Hints := sort (Hints bm @ [CompactionHintFromStaleSeries])\<rparr>)"

definition SetSelectedSeries :: "'u BlockMetaCompaction \<Rightarrow> 'u BlockMetaCompaction" where
  "SetSelectedSeries bm = (if FromSelectedSeries bm then bm else bm\<lparr>Hints := sort (Hints bm @ [CompactionHintFromSelectedSeries])\<rparr>)"

section \<open>Planning compactions\<close>

fun ExponentialBlockRanges :: "int64 \<Rightarrow> nat \<Rightarrow> int64 \<Rightarrow> int64 list" where
  "ExponentialBlockRanges curRange 0 stepSize = []"
| "ExponentialBlockRanges curRange (Suc steps) stepSize = curRange # ExponentialBlockRanges (curRange * stepSize) steps stepSize"

record 'u LeveledCompactor =
  ranges :: "int64 list"
  enableOverlappingCompaction :: bool
  blockExcludeFunc :: "('u BlockMeta \<Rightarrow> bool) option"

definition NewLeveledCompactor :: "int64 list \<Rightarrow> go_error + 'u LeveledCompactor" where
  "NewLeveledCompactor rs =
     (if rs = [] then Inl (ErrInvalid ''at least one range must be provided'')
      else Inr \<lparr>ranges = rs, enableOverlappingCompaction = True, blockExcludeFunc = None\<rparr>)"

record 'u dirMeta =
  dm_dir :: string
  dm_meta :: "'u BlockMeta"

text \<open>Go's division of signed integers: towards zero.\<close>

definition quot64 :: "int64 \<Rightarrow> int64 \<Rightarrow> int64" where
  "quot64 a b = word_of_int (sint a sdiv sint b)"

definition range_start :: "int64 \<Rightarrow> int64 \<Rightarrow> int64" where
  "range_start tr mint = (if 0 \<le>s mint then tr * quot64 mint tr else tr * quot64 (mint - tr + 1) tr)"

text \<open>Blocks are split at aligned ranges; a range of zero divides by zero.\<close>

function splitByRange :: "'u dirMeta list \<Rightarrow> int64 \<Rightarrow> 'u dirMeta list list option" where
  "splitByRange [] tr = Some []"
| "splitByRange (d # ds) tr =
     (if tr = 0 then None
      else let t0 = range_start tr (MinTime (dm_meta d)) in
        if t0 + tr <s MaxTime (dm_meta d) then splitByRange ds tr
        else map_option (Cons (takeWhile (\<lambda>d. \<not> t0 + tr <s MaxTime (dm_meta d)) (d # ds)))
               (splitByRange (dropWhile (\<lambda>d. \<not> t0 + tr <s MaxTime (dm_meta d)) (d # ds)) tr))"
  by pat_completeness auto
termination
  by (relation "measure (length \<circ> fst)") (auto simp: length_dropWhile_le le_imp_less_Suc)

definition pick_part :: "int64 \<Rightarrow> int64 \<Rightarrow> 'u dirMeta list \<Rightarrow> bool" where
  "pick_part iv highTime p \<longleftrightarrow>
     (\<forall>dm \<in> set p. \<not> Failed (Compaction (dm_meta dm))) \<and>
     (let mint = MinTime (dm_meta (hd p)); maxt = MaxTime (dm_meta (last p)) in (maxt - mint = iv \<or> maxt \<le>s highTime) \<and> 1 < length p)"

fun select_loop :: "int64 list \<Rightarrow> int64 \<Rightarrow> 'u dirMeta list \<Rightarrow> 'u dirMeta list option" where
  "select_loop [] highTime ds = Some []"
| "select_loop (iv # ivs) highTime ds =
     (case splitByRange ds iv of
        None \<Rightarrow> None
      | Some parts \<Rightarrow> (case find (pick_part iv highTime) parts of Some p \<Rightarrow> Some p | None \<Rightarrow> select_loop ivs highTime ds))"

definition selectDirs :: "'u LeveledCompactor \<Rightarrow> 'u dirMeta list \<Rightarrow> 'u dirMeta list option" where
  "selectDirs c ds =
     (if length (ranges c) < 2 \<or> length ds < 1 then Some []
      else select_loop (tl (ranges c)) (MinTime (dm_meta (last ds))) ds)"

fun overlap_loop :: "'u dirMeta \<Rightarrow> int64 \<Rightarrow> string list \<Rightarrow> 'u dirMeta list \<Rightarrow> string list" where
  "overlap_loop prev globalMaxt overlappingDirs [] = overlappingDirs"
| "overlap_loop prev globalMaxt overlappingDirs (d # ds) =
     (let globalMaxt' = (if globalMaxt <s MaxTime (dm_meta d) then MaxTime (dm_meta d) else globalMaxt) in
      if MinTime (dm_meta d) <s globalMaxt
      then overlap_loop d globalMaxt' ((if overlappingDirs = [] then [dm_dir prev] else overlappingDirs) @ [dm_dir d]) ds
      else if overlappingDirs \<noteq> [] then overlappingDirs
      else overlap_loop d globalMaxt' overlappingDirs ds)"

definition selectOverlappingDirs :: "'u LeveledCompactor \<Rightarrow> 'u dirMeta list \<Rightarrow> string list" where
  "selectOverlappingDirs c ds =
     (if \<not> enableOverlappingCompaction c \<or> length ds < 2 then []
      else overlap_loop (hd ds) (MaxTime (dm_meta (hd ds))) [] (tl ds))"

text \<open>The scan for blocks with many tombstones, newest first; \<open>heavy\<close> is the comparison of floats.\<close>

fun tombstone_scan :: "(uint64 \<Rightarrow> uint64 \<Rightarrow> bool) \<Rightarrow> int64 \<Rightarrow> 'u dirMeta list \<Rightarrow> string list" where
  "tombstone_scan heavy big [] = []"
| "tombstone_scan heavy big (v # vs) =
     (let meta = dm_meta v in
      if MaxTime meta - MinTime meta <s big
      then (if 0 < NumTombstones (Stats meta) \<and> NumSeries (Stats meta) \<le> NumTombstones (Stats meta) then [dm_dir v] else [])
      else if heavy (NumTombstones (Stats meta)) (NumSeries (Stats meta) + 1) then [dm_dir v]
      else tombstone_scan heavy big vs)"

definition planClass :: "(uint64 \<Rightarrow> uint64 \<Rightarrow> bool) \<Rightarrow> ('u dirMeta list \<Rightarrow> 'u dirMeta list) \<Rightarrow> 'u LeveledCompactor \<Rightarrow> 'u dirMeta list \<Rightarrow> string list option" where
  "planClass heavy srt c dms =
     (if dms = [] then Some []
      else let dms = srt dms; res = selectOverlappingDirs c dms in
        if res \<noteq> [] then Some res
        else let dms = butlast dms in
          Option.bind (selectDirs c dms) (\<lambda>sel.
            if sel \<noteq> [] then Some (map dm_dir sel)
            else if dms = [] then Some []
            else if length (ranges c) \<le> length (ranges c) div 2 then None
            else Some (tombstone_scan heavy (ranges c ! (length (ranges c) div 2)) (rev dms))))"

definition plan :: "(uint64 \<Rightarrow> uint64 \<Rightarrow> bool) \<Rightarrow> ('u dirMeta list \<Rightarrow> 'u dirMeta list) \<Rightarrow> 'u LeveledCompactor \<Rightarrow> 'u dirMeta list \<Rightarrow> string list option" where
  "plan heavy srt c dms =
     (if dms = [] then Some []
      else let stale = filter (\<lambda>dm. FromStaleSeries (Compaction (dm_meta dm))) dms;
               selected = filter (\<lambda>dm. \<not> FromStaleSeries (Compaction (dm_meta dm)) \<and> FromSelectedSeries (Compaction (dm_meta dm))) dms;
               nonHint = filter (\<lambda>dm. \<not> FromStaleSeries (Compaction (dm_meta dm)) \<and> \<not> FromSelectedSeries (Compaction (dm_meta dm))) dms;
               classes = length (filter (\<lambda>cls. 0 < length cls) [stale, selected, nonHint])
           in if 1 < classes
              then Option.bind (planClass heavy srt c nonHint) (\<lambda>res.
                     if res \<noteq> [] then Some res
                     else Option.bind (planClass heavy srt c stale) (\<lambda>res.
                       if res \<noteq> [] then Some res else planClass heavy srt c selected))
              else planClass heavy srt c dms)"

text \<open>The metadata files in the order of the directories; reading one may fail.\<close>

fun read_metas :: "('u BlockMeta \<Rightarrow> bool) option \<Rightarrow> (string \<times> (go_error + 'u BlockMeta)) list \<Rightarrow> go_error + 'u dirMeta list" where
  "read_metas excl [] = Inr []"
| "read_metas excl ((d, Inl e) # ds) = Inl e"
| "read_metas excl ((d, Inr m) # ds) =
     (if (case excl of Some f \<Rightarrow> f m | None \<Rightarrow> False) then Inr []
      else map_sum id (Cons \<lparr>dm_dir = d, dm_meta = m\<rparr>) (read_metas excl ds))"

definition Plan :: "(uint64 \<Rightarrow> uint64 \<Rightarrow> bool) \<Rightarrow> ('u dirMeta list \<Rightarrow> 'u dirMeta list) \<Rightarrow> 'u LeveledCompactor \<Rightarrow>
    (string \<times> (go_error + 'u BlockMeta)) list \<Rightarrow> (go_error + string list) option" where
  "Plan heavy srt c dirs =
     (if length dirs < 1 then Some (Inr [])
      else case read_metas (blockExcludeFunc c) dirs of
        Inl e \<Rightarrow> Some (Inl e)
      | Inr dms \<Rightarrow> map_option Inr (plan heavy srt c dms))"

section \<open>Compacting\<close>

definition merge_meta :: "'u BlockMeta \<Rightarrow> 'u BlockMetaCompaction \<Rightarrow> 'u BlockMetaCompaction" where
  "merge_meta b res =
     (let res = (if Level res <s Level (Compaction b) then res\<lparr>Level := Level (Compaction b)\<rparr> else res);
          res = (if FromStaleSeries (Compaction b) then SetStaleSeries res else res);
          res = (if FromSelectedSeries (Compaction b) then SetSelectedSeries res else res)
      in res\<lparr>Parents := Parents res @ [\<lparr>bd_ULID = ULID b, bd_MinTime = MinTime b, bd_MaxTime = MaxTime b\<rparr>]\<rparr>)"

definition empty_stats :: BlockStats where
  "empty_stats = \<lparr>NumSamples = 0, NumFloatSamples = 0, NumHistogramSamples = 0, NumSeries = 0, NumChunks = 0, NumTombstones = 0\<rparr>"

definition CompactBlockMetas :: "'u::linorder \<Rightarrow> 'u BlockMeta list \<Rightarrow> 'u BlockMeta option" where
  "CompactBlockMetas uid blocks =
     (case blocks of
        [] \<Rightarrow> None
      | b0 # _ \<Rightarrow>
          let mint = fold (\<lambda>b t. if MinTime b <s t then MinTime b else t) blocks (MinTime b0);
              maxt = fold (\<lambda>b t. if t <s MaxTime b then MaxTime b else t) blocks (MaxTime b0);
              sources = remdups (concat (map (\<lambda>b. Sources (Compaction b)) blocks));
              allOutOfOrder = (\<forall>b \<in> set blocks. FromOutOfOrder (Compaction b));
              res = fold merge_meta blocks \<lparr>Level = 0, Sources = [], Deletable = False, Parents = [], Failed = False, Hints = []\<rparr>;
              res = (if allOutOfOrder then SetOutOfOrder res else res);
              res = res\<lparr>Level := Level res + 1, Sources := sort sources\<rparr>
          in Some \<lparr>ULID = uid, MinTime = mint, MaxTime = maxt, Stats = empty_stats, Compaction = res, Version = 0\<rparr>)"

text \<open>
  \<open>populate\<close> writes the new block: it fails, or returns the statistics and the size of the block. It does not touch the number
  of tombstones. An error other than a cancellation marks the sources.
\<close>

record 'u Block =
  bl_meta :: "'u BlockMeta"
  bl_Size :: int64

definition metaVersion1 :: int64 where "metaVersion1 = 1"

definition setCompactionFailed :: "'u Block \<Rightarrow> 'u Block" where
  "setCompactionFailed b = b\<lparr>bl_meta := (bl_meta b)\<lparr>Compaction := (Compaction (bl_meta b))\<lparr>Failed := True\<rparr>, Version := metaVersion1\<rparr>\<rparr>"

definition set_deletable :: "'u Block \<Rightarrow> 'u Block" where
  "set_deletable b = b\<lparr>bl_meta := (bl_meta b)\<lparr>Compaction := (Compaction (bl_meta b))\<lparr>Deletable := True\<rparr>, Version := metaVersion1\<rparr>\<rparr>"

definition context_Canceled :: go_error where "context_Canceled = ErrInvalid ''context canceled''"

definition CompactWithBlockPopulator ::
    "('u BlockMeta \<Rightarrow> 'u Block list \<Rightarrow> go_error + BlockStats \<times> int64) \<Rightarrow> 'u::linorder \<Rightarrow> 'u Block list \<Rightarrow> ((go_error + 'u Block list) \<times> 'u Block list) option" where
  "CompactWithBlockPopulator populate uid bs =
     map_option (\<lambda>meta.
       case populate meta bs of
         Inl err \<Rightarrow> (Inl err, if err \<noteq> context_Canceled then map setCompactionFailed bs else bs)
       | Inr (stats, sz) \<Rightarrow>
           let meta = meta\<lparr>Stats := stats\<lparr>NumTombstones := NumTombstones (Stats meta)\<rparr>\<rparr> in
           if NumSamples (Stats meta) = 0 then (Inr [], map set_deletable bs)
           else (Inr [\<lparr>bl_meta = meta\<lparr>Version := metaVersion1\<rparr>, bl_Size = sz\<rparr>], bs))
       (CompactBlockMetas uid (map bl_meta bs))"

section \<open>Retention and reloading\<close>

text \<open>
  The options that retention looks at. \<open>db_fsSize\<close> is the size of the file system, and \<open>db_percent\<close> computes
  the given percentage of it, with floats.
\<close>

record DB =
  db_RetentionDuration :: int64
  db_MaxBytes :: int64
  db_MaxPercentage :: float64
  db_fsSize :: uint64
  db_headSize :: int64
  db_percent :: "uint64 \<Rightarrow> float64 \<Rightarrow> int64"

definition float_positive :: "float64 \<Rightarrow> bool" where
  "float_positive f \<longleftrightarrow> 0 < f \<and> f \<le> 0x7FF0000000000000"

fun time_scan :: "int64 \<Rightarrow> int64 \<Rightarrow> 'u Block list \<Rightarrow> 'u Block list" where
  "time_scan newest retention [] = []"
| "time_scan newest retention (b # bs) =
     (if retention \<le>s newest - MaxTime (bl_meta b) then b # bs else time_scan newest retention bs)"

definition BeyondTimeRetention :: "DB \<Rightarrow> 'u Block list \<Rightarrow> 'u set" where
  "BeyondTimeRetention db blocks =
     (if blocks = [] \<or> db_RetentionDuration db = 0 then {}
      else (\<lambda>b. ULID (bl_meta b)) ` set (time_scan (MaxTime (bl_meta (hd blocks))) (db_RetentionDuration db) (tl blocks)))"

fun size_scan :: "int64 \<Rightarrow> int64 \<Rightarrow> 'u Block list \<Rightarrow> 'u Block list" where
  "size_scan maxBytes blocksSize [] = []"
| "size_scan maxBytes blocksSize (b # bs) =
     (let blocksSize = blocksSize + bl_Size b in if maxBytes <s blocksSize then b # bs else size_scan maxBytes blocksSize bs)"

definition size_limit :: "DB \<Rightarrow> int64" where
  "size_limit db = (if float_positive (db_MaxPercentage db) \<and> 0 < db_fsSize db then db_percent db (db_fsSize db) (db_MaxPercentage db) else db_MaxBytes db)"

definition BeyondSizeRetention :: "DB \<Rightarrow> 'u Block list \<Rightarrow> 'u set" where
  "BeyondSizeRetention db blocks =
     (if blocks = [] \<or> size_limit db \<le>s 0 then {}
      else (\<lambda>b. ULID (bl_meta b)) ` set (size_scan (size_limit db) (db_headSize db) blocks))"

definition deletableBlocks :: "('u Block list \<Rightarrow> 'u Block list) \<Rightarrow> DB \<Rightarrow> 'u Block list \<Rightarrow> 'u set" where
  "deletableBlocks newest_first db blocks =
     (let blocks = newest_first blocks in
      (\<lambda>b. ULID (bl_meta b)) ` set (filter (\<lambda>b. Deletable (Compaction (bl_meta b))) blocks) \<union> BeyondTimeRetention db blocks \<union> BeyondSizeRetention db blocks)"

text \<open>
  The blocks that could be opened and the ones that are corrupted, with their errors. The result is an error or the blocks that are
  loaded from now on, and the ULIDs of the blocks that are removed from disk.
\<close>

definition parent_ids :: "'u Block list \<Rightarrow> 'u set" where
  "parent_ids bs = bd_ULID ` set (concat (map (\<lambda>b. Parents (Compaction (bl_meta b))) bs))"

definition reloadBlocks :: "('u Block list \<Rightarrow> 'u Block list) \<Rightarrow> ('u Block list \<Rightarrow> 'u Block list) \<Rightarrow> DB \<Rightarrow> 'u Block list \<Rightarrow> ('u \<times> go_error) list \<Rightarrow>
    go_error list + 'u Block list \<times> 'u set" where
  "reloadBlocks newest_first by_time db loadable corrupted =
     (let deletable = deletableBlocks newest_first db loadable \<union> parent_ids loadable;
          loadable = newest_first loadable;
          corrupted = filter (\<lambda>(u, _). u \<notin> parent_ids loadable) corrupted
      in if corrupted \<noteq> [] then Inl (map snd corrupted)
         else Inr (by_time (filter (\<lambda>b. ULID (bl_meta b) \<notin> deletable) loadable), deletable))"

definition inOrderBlocksMaxTime :: "'u Block list \<Rightarrow> int64 \<times> bool" where
  "inOrderBlocksMaxTime blocks =
     fold (\<lambda>b (maxt, ok).
       let c = Compaction (bl_meta b) in
       if \<not> FromOutOfOrder c \<and> \<not> FromStaleSeries c \<and> \<not> FromSelectedSeries c \<and> maxt <s MaxTime (bl_meta b)
       then (MaxTime (bl_meta b), True) else (maxt, ok)) blocks (MinInt64, False)"

definition rangeForTimestamp :: "int64 \<Rightarrow> int64 \<Rightarrow> int64 option" where
  "rangeForTimestamp t width = (if width = 0 then None else Some (quot64 t width * width + width))"

text \<open>
  The loop that compacts all blocks that are due. \<open>disk\<close> are the blocks on disk, all of them readable; \<open>name\<close> is the
  directory of a block, and \<open>uids\<close> gives the new ULIDs. The code may also leave the loop early, to persist the head or to
  shut down.
\<close>

record 'u environment =
  env_heavy :: "uint64 \<Rightarrow> uint64 \<Rightarrow> bool"
  env_sort_dirs :: "'u dirMeta list \<Rightarrow> 'u dirMeta list"
  env_sort_newest :: "'u Block list \<Rightarrow> 'u Block list"
  env_sort_time :: "'u Block list \<Rightarrow> 'u Block list"
  env_populate :: "'u BlockMeta \<Rightarrow> 'u Block list \<Rightarrow> go_error + BlockStats \<times> int64"
  env_name :: "'u \<Rightarrow> string"
  env_uids :: "nat \<Rightarrow> 'u"

definition find_block :: "('u \<Rightarrow> string) \<Rightarrow> 'u Block list \<Rightarrow> string \<Rightarrow> 'u Block" where
  "find_block name disk d = hd (filter (\<lambda>b. name (ULID (bl_meta b)) = d) disk)"

text \<open>\<open>os.ReadDir\<close> returns the directories sorted by name.\<close>

definition blockDirs :: "('u \<Rightarrow> string) \<Rightarrow> 'u Block list \<Rightarrow> (string \<times> (go_error + 'u BlockMeta)) list" where
  "blockDirs name disk = map (\<lambda>b. (name (ULID (bl_meta b)), Inr (bl_meta b))) (sort_key (\<lambda>b. name (ULID (bl_meta b))) disk)"

partial_function (option) compactBlocks :: "'u::linorder environment \<Rightarrow> 'u LeveledCompactor \<Rightarrow> DB \<Rightarrow> nat \<Rightarrow> 'u Block list \<Rightarrow> (go_error list option \<times> 'u Block list) option" where
  "compactBlocks E c db i disk =
     Option.bind (Plan (env_heavy E) (env_sort_dirs E) c (blockDirs (env_name E) disk)) (\<lambda>p.
       case p of
         Inl e \<Rightarrow> Some (Some [e], disk)
       | Inr dirs \<Rightarrow>
           if dirs = [] then Some (None, disk)
           else let bs = map (find_block (env_name E) disk) dirs;
                    rest = filter (\<lambda>b. b \<notin> set bs) disk
             in Option.bind (CompactWithBlockPopulator (env_populate E) (env_uids E i) bs) (\<lambda>(res, bs).
                  case res of
                    Inl e \<Rightarrow> Some (Some [e], rest @ bs)
                  | Inr new \<Rightarrow>
                      case reloadBlocks (env_sort_newest E) (env_sort_time E) db (rest @ bs @ new) [] of
                        Inl es \<Rightarrow> Some (Some es, rest @ bs)
                      | Inr (loaded, deleted) \<Rightarrow> compactBlocks E c db (Suc i) (filter (\<lambda>b. ULID (bl_meta b) \<notin> deleted) (rest @ bs @ new))))"

section \<open>Overlapping blocks\<close>

record TimeRange =
  tr_Min :: int64
  tr_Max :: int64

fun overlaps_loop :: "'u BlockMeta list \<Rightarrow> bool \<Rightarrow> 'u BlockMeta list list \<Rightarrow> 'u BlockMeta list \<Rightarrow> 'u BlockMeta list list" where
  "overlaps_loop pending continuousPending overlaps [] = overlaps"
| "overlaps_loop pending continuousPending overlaps (b # bm) =
     (let newPending = filter (\<lambda>p. \<not> MaxTime p \<le>s MinTime b) pending;
          continuousPending = (continuousPending \<and> newPending = pending);
          pending = newPending @ [b]
      in if newPending = [] then overlaps_loop pending continuousPending overlaps bm
         else if continuousPending \<and> overlaps \<noteq> []
         then overlaps_loop pending continuousPending (butlast overlaps @ [last overlaps @ [b]]) bm
         else overlaps_loop pending True (overlaps @ [newPending @ [b]]) bm)"

definition min_range :: "'u BlockMeta list \<Rightarrow> TimeRange" where
  "min_range overlap =
     fold (\<lambda>b r. let r = (if MaxTime b <s tr_Max r then r\<lparr>tr_Max := MaxTime b\<rparr> else r)
                  in if tr_Min r <s MinTime b then r\<lparr>tr_Min := MinTime b\<rparr> else r) overlap \<lparr>tr_Min = 0, tr_Max = MaxInt64\<rparr>"

definition OverlappingBlocks :: "'u BlockMeta list \<Rightarrow> TimeRange \<rightharpoonup> 'u BlockMeta list" where
  "OverlappingBlocks bm =
     (if length bm \<le> 1 then Map.empty
      else fold (\<lambda>overlap m. m(min_range overlap \<mapsto> overlap)) (overlaps_loop [hd bm] True [] (tl bm)) Map.empty)"

end
