(* ===== verification/BlocksPlan.thy ===== *)
theory BlocksPlan
  imports Blocks
begin

text \<open>
  Which blocks the planner selects: aligned ranges, overlapping blocks, and classes of blocks that are never mixed.
\<close>

section \<open>Times\<close>

abbreviation mint :: "'u dirMeta \<Rightarrow> int" where "mint d \<equiv> sint (MinTime (dm_meta d))"
abbreviation maxt :: "'u dirMeta \<Rightarrow> int" where "maxt d \<equiv> sint (MaxTime (dm_meta d))"

text \<open>Times are far from the ends of the integer range, and a block covers a time range that is not empty.\<close>

definition time_ok :: "'u BlockMeta \<Rightarrow> bool" where
  "time_ok m \<longleftrightarrow> - (2 ^ 62) \<le> sint (MinTime m) \<and> sint (MinTime m) < sint (MaxTime m) \<and> sint (MaxTime m) < 2 ^ 62"

definition range_ok :: "int64 \<Rightarrow> bool" where
  "range_ok tr \<longleftrightarrow> 0 < sint tr \<and> sint tr \<le> 2 ^ 62"

definition sorts :: "('a list \<Rightarrow> 'a list) \<Rightarrow> ('a \<Rightarrow> int) \<Rightarrow> bool" where
  "sorts srt key \<longleftrightarrow> (\<forall>xs. mset (srt xs) = mset xs \<and> sorted (map key (srt xs)))"

lemma sortsD:
  assumes "sorts srt key"
  shows "mset (srt xs) = mset xs" "set (srt xs) = set xs" "length (srt xs) = length xs" "sorted (map key (srt xs))" "distinct (map f (srt xs)) \<longleftrightarrow> distinct (map f xs)"
proof -
  show m: "mset (srt xs) = mset xs" and "sorted (map key (srt xs))" using assms by (auto simp: sorts_def)
  show "set (srt xs) = set xs" "length (srt xs) = length xs" using m by (auto dest: mset_eq_setD mset_eq_length)
  show "distinct (map f (srt xs)) \<longleftrightarrow> distinct (map f xs)" by (rule mset_eq_imp_distinct_iff) (simp add: m)
qed

lemma sdiv_floor:
  assumes "0 < (r :: int)"
  shows "0 \<le> m \<Longrightarrow> m sdiv r = m div r" "m < 0 \<Longrightarrow> (m - r + 1) sdiv r = m div r"
proof -
  show "m sdiv r = m div r" if "0 \<le> m" using that assms by (cases "m = 0") (simp_all add: signed_divide_int_def)
  assume m: "m < 0"
  have "m = r * (m div r) + m mod r" "0 \<le> m mod r" "m mod r < r" using assms by simp_all
  then have e: "r - m - 1 = (r - 1 - m mod r) + r * (- (m div r))" by (simp add: algebra_simps)
  have "(r - 1 - m mod r) div r = 0" using assms \<open>m mod r < r\<close> \<open>0 \<le> m mod r\<close> by (intro div_pos_pos_trivial) auto
  then have "(r - m - 1) div r = - (m div r)" unfolding e using assms by (simp only: div_mult_self2)
  then show "(m - r + 1) sdiv r = m div r" using m assms by (simp add: signed_divide_int_def sgn_if)
qed

text \<open>The start of the aligned range: the code rounds down, also for times before zero.\<close>

lemma range_start_floor:
  assumes "- (2 ^ 62) \<le> sint m" "sint m < 2 ^ 62" "range_ok tr"
  shows "sint (range_start tr m + tr) = sint tr * (sint m div sint tr) + sint tr"
proof -
  let ?r = "sint tr" and ?m = "sint m"
  have r: "0 < ?r" "?r \<le> 2 ^ 62" using assms(3) by (auto simp: range_ok_def)
  have q: "range_start tr m = word_of_int (?r * (?m div ?r))"
  proof (cases "0 \<le> ?m")
    case True
    then have "quot64 m tr = word_of_int (?m div ?r)" using sdiv_floor(1) [OF r(1)] by (simp add: quot64_def)
    then show ?thesis using True by (simp add: range_start_def word_sle_eq)
  next
    case False
    have "m - tr + 1 = word_of_int (?m - ?r + 1)" by simp
    then have "sint (m - tr + 1) = ?m - ?r + 1" using False assms(1) r by (simp only:) (rule sint_word_of_int_range; simp)
    then have "quot64 (m - tr + 1) tr = word_of_int (?m div ?r)" using sdiv_floor(2) [OF r(1)] False by (simp add: quot64_def)
    then show ?thesis using False by (simp add: range_start_def word_sle_eq)
  qed
  have bound: "- (2 ^ 63) \<le> q + r \<and> q + r < 2 ^ 63" if "q + b = x" "0 \<le> b" "b < r" "r \<le> 2 ^ 62" "- (2 ^ 62) \<le> x" "x < 2 ^ 62" for q b r x :: int
    using that by auto
  have "- (2 ^ 63) \<le> ?r * (?m div ?r) + ?r \<and> ?r * (?m div ?r) + ?r < 2 ^ 63"
    by (rule bound [of _ "?m mod ?r" ?m]) (use assms(1,2) r in simp_all)
  moreover have "range_start tr m + tr = word_of_int (?r * (?m div ?r) + ?r)" by (simp add: q)
  ultimately show ?thesis by (simp only: sint_word_of_int_range)
qed

section \<open>Splitting by range\<close>

text \<open>The block lies within the aligned range of its start.\<close>

definition fits_range :: "int64 \<Rightarrow> 'u dirMeta \<Rightarrow> bool" where
  "fits_range tr d \<longleftrightarrow> maxt d \<le> sint tr * (mint d div sint tr) + sint tr"

definition in_window :: "int64 \<Rightarrow> int \<Rightarrow> 'u dirMeta list \<Rightarrow> bool" where
  "in_window tr k g \<longleftrightarrow> (\<forall>d \<in> set g. sint tr * k \<le> mint d \<and> maxt d \<le> sint tr * k + sint tr)"

lemma in_window_fits: "in_window tr k g \<Longrightarrow> range_ok tr \<Longrightarrow> \<forall>d \<in> set g. time_ok (dm_meta d) \<Longrightarrow> \<forall>d \<in> set g. fits_range tr d"
proof
  fix d assume a: "in_window tr k g" "range_ok tr" "\<forall>d \<in> set g. time_ok (dm_meta d)" "d \<in> set g"
  then have d: "sint tr * k \<le> mint d" "mint d < sint tr * k + sint tr" "maxt d \<le> sint tr * k + sint tr" "0 < sint tr"
    unfolding in_window_def time_ok_def range_ok_def by (blast, fastforce, blast, blast)
  then have "mint d div sint tr = k" by (intro int_div_pos_eq [of _ _ _ "mint d - sint tr * k"]) auto
  then show "fits_range tr d" using d(3) by (simp add: fits_range_def)
qed

lemma split_by_range:
  assumes "range_ok tr" "\<forall>d \<in> set ds. time_ok (dm_meta d)" "sorted (map mint ds)"
  shows "\<exists>gs. splitByRange ds tr = Some gs \<and> concat gs = filter (fits_range tr) ds \<and> (\<forall>g \<in> set gs. g \<noteq> [] \<and> (\<exists>k. in_window tr k g))"
  using assms
proof (induction "length ds" arbitrary: ds rule: less_induct)
  case less
  show ?case
  proof (cases ds)
    case Nil
    then show ?thesis by simp
  next
    case (Cons d rest)
    define e where "e = range_start tr (MinTime (dm_meta d)) + tr"
    let ?k = "mint d div sint tr" and ?P = "\<lambda>d. \<not> e <s MaxTime (dm_meta d)"
    have r: "0 < sint tr" "tr \<noteq> 0" using less.prems(1) by (auto simp: range_ok_def)
    have e: "sint e = sint tr * ?k + sint tr"
      unfolding e_def using less.prems(1,2) Cons by (intro range_start_floor) (auto simp: time_ok_def)
    have P: "?P x \<longleftrightarrow> maxt x \<le> sint tr * ?k + sint tr" for x by (auto simp: word_sless_alt e)
    have fit: "fits_range tr d \<longleftrightarrow> ?P d" by (simp add: P fits_range_def)
    show ?thesis
    proof (cases "?P d")
      case False
      then have "splitByRange ds tr = splitByRange rest tr" using Cons r by (simp add: Let_def e_def)
      then show ?thesis using less.hyps [of rest] less.prems Cons False fit by auto
    next
      case True
      let ?g = "takeWhile ?P ds" and ?rest = "dropWhile ?P ds"
      have eq: "splitByRange ds tr = map_option (Cons ?g) (splitByRange ?rest tr)" using Cons r True by (simp add: Let_def e_def)
      have m: "mint d \<le> mint x" if "x \<in> set ds" for x using that less.prems(3) Cons by auto
      have "sint tr * ?k \<le> mint d" using r(1) by (metis mult.commute div_mult_mod_eq pos_mod_sign le_add_same_cancel1)
      then have w: "in_window tr ?k ?g" unfolding in_window_def using m P by (fastforce dest: set_takeWhileD)
      have f: "filter (fits_range tr) ?g = ?g" using in_window_fits [OF w less.prems(1)] less.prems(2) by (auto simp: filter_id_conv dest: set_takeWhileD)
      have "length ?rest < length ds" using Cons True by (simp add: length_dropWhile_le le_imp_less_Suc)
      moreover have "sorted (map mint ?rest)" using less.prems(3) by (simp add: dropWhile_eq_drop sorted_wrt_drop flip: drop_map)
      moreover have "\<forall>d \<in> set ?rest. time_ok (dm_meta d)" using less.prems(2) by (auto dest: set_dropWhileD)
      ultimately obtain gs where gs: "splitByRange ?rest tr = Some gs" "concat gs = filter (fits_range tr) ?rest" "\<forall>g \<in> set gs. g \<noteq> [] \<and> (\<exists>k. in_window tr k g)"
        using less.hyps [of ?rest] less.prems(1) by blast
      have "filter (fits_range tr) ds = ?g @ filter (fits_range tr) ?rest" by (metis f filter_append takeWhile_dropWhile_id)
      moreover have "?g \<noteq> []" using Cons True by simp
      ultimately show ?thesis using eq gs w by auto
    qed
  qed
qed

section \<open>Overlapping blocks\<close>

text \<open>The longest run of blocks that each start before the end of what came before.\<close>

fun run :: "int \<Rightarrow> 'u dirMeta list \<Rightarrow> 'u dirMeta list" where
  "run g [] = []"
| "run g (d # ds) = (if mint d < g then d # run (max g (maxt d)) ds else [])"

lemma sint_later: "sint (if g <s MaxTime (dm_meta d) then MaxTime (dm_meta d) else g) = max (sint g) (maxt d)"
  by (auto simp: word_sless_alt max_def)

lemma overlap_loop_run: "acc \<noteq> [] \<Longrightarrow> overlap_loop prev g acc ds = acc @ map dm_dir (run (sint g) ds)"
proof (induction ds arbitrary: prev g acc)
  case (Cons d ds)
  show ?case
  proof (cases "MinTime (dm_meta d) <s g")
    case True
    then have "overlap_loop prev g acc (d # ds) = overlap_loop d (if g <s MaxTime (dm_meta d) then MaxTime (dm_meta d) else g) (acc @ [dm_dir d]) ds"
      using Cons.prems by simp
    also have "\<dots> = (acc @ [dm_dir d]) @ map dm_dir (run (max (sint g) (maxt d)) ds)" by (subst Cons.IH) (simp_all only: sint_later, simp)
    finally show ?thesis using True by (simp add: word_sless_alt)
  next
    case False
    then show ?thesis using Cons.prems by (simp add: word_sless_alt)
  qed
qed simp

text \<open>Blocks that overlap: a run, with gaps before and behind it.\<close>

definition chained :: "'u dirMeta list \<Rightarrow> bool" where
  "chained ys \<longleftrightarrow> (\<forall>i < length ys. 0 < i \<longrightarrow> (\<exists>j < i. mint (ys ! i) < maxt (ys ! j)))"

lemma run_splits:
  assumes "sorted (map mint ds)"
  shows "\<exists>zs. ds = run g ds @ zs \<and> (\<forall>z \<in> set zs. g \<le> mint z \<and> (\<forall>y \<in> set (run g ds). maxt y \<le> mint z))"
  using assms
proof (induction ds arbitrary: g)
  case (Cons d ds)
  show ?case
  proof (cases "mint d < g")
    case True
    have "sorted (map mint ds)" using Cons.prems by simp
    from Cons.IH [OF this, of "max g (maxt d)"] obtain zs where
      "ds = run (max g (maxt d)) ds @ zs" "\<forall>z \<in> set zs. max g (maxt d) \<le> mint z \<and> (\<forall>y \<in> set (run (max g (maxt d)) ds). maxt y \<le> mint z)" by blast
    then show ?thesis using True by (intro exI [of _ zs]) auto
  next
    case False
    then show ?thesis using Cons.prems by auto
  qed
qed simp

lemma run_chained:
  assumes "g = Max (maxt ` set pre)" "pre \<noteq> []" "chained pre"
  shows "chained (pre @ run g ds)"
  using assms
proof (induction ds arbitrary: pre g)
  case (Cons d ds)
  show ?case
  proof (cases "mint d < g")
    case True
    have "\<exists>x \<in> set pre. mint d < maxt x" using True Cons.prems(1,2) by (simp add: Max_gr_iff)
    then obtain j where j: "j < length pre" "mint d < maxt (pre ! j)" by (auto simp: in_set_conv_nth)
    have "chained (pre @ [d])" using Cons.prems(3) j by (fastforce simp: chained_def nth_append less_Suc_eq)
    moreover have "max g (maxt d) = Max (maxt ` set (pre @ [d]))" using Cons.prems(1,2) by (simp add: max.commute)
    ultimately have "chained ((pre @ [d]) @ run (max g (maxt d)) ds)" by (intro Cons.IH) auto
    then show ?thesis using True by simp
  next
    case False
    then show ?thesis using Cons.prems by simp
  qed
qed simp

lemma chained_one: "chained [d]"
  by (simp add: chained_def)

lemma overlap_loop_none:
  assumes "sorted (map mint (prev # ds))" "\<forall>d \<in> set (prev # ds). mint d < maxt d" "sint g = maxt prev"
  shows "(overlap_loop prev g [] ds = [] \<and> sorted_wrt (\<lambda>d e. maxt d \<le> mint e) (prev # ds)) \<or>
    (\<exists>xs ys zs. prev # ds = xs @ ys @ zs \<and> overlap_loop prev g [] ds = map dm_dir ys \<and> 2 \<le> length ys \<and> chained ys \<and>
      (\<forall>x \<in> set xs. \<forall>y \<in> set (ys @ zs). maxt x \<le> mint y) \<and> (\<forall>y \<in> set (xs @ ys). \<forall>z \<in> set zs. maxt y \<le> mint z))"
  using assms
proof (induction ds arbitrary: prev g)
  case (Cons d ds)
  show ?case
  proof (cases "MinTime (dm_meta d) <s g")
    case True
    then have m: "mint d < maxt prev" using Cons.prems(3) by (simp add: word_sless_alt)
    let ?g = "max (maxt prev) (maxt d)"
    have "overlap_loop prev g [] (d # ds) = overlap_loop d (if g <s MaxTime (dm_meta d) then MaxTime (dm_meta d) else g) [dm_dir prev, dm_dir d] ds"
      using True by simp
    also have "\<dots> = map dm_dir ([prev, d] @ run ?g ds)" by (subst overlap_loop_run) (simp_all only: sint_later Cons.prems(3), simp_all)
    finally have eq: "overlap_loop prev g [] (d # ds) = map dm_dir ([prev, d] @ run ?g ds)" .
    obtain zs where zs: "ds = run ?g ds @ zs" "\<forall>z \<in> set zs. ?g \<le> mint z \<and> (\<forall>y \<in> set (run ?g ds). maxt y \<le> mint z)" using run_splits [of ds ?g] Cons.prems(1) by auto
    have "chained [prev, d]" using m by (simp add: chained_def less_Suc_eq)
    then have "chained ([prev, d] @ run ?g ds)" by (intro run_chained) (simp_all add: max.commute)
    then show ?thesis using eq zs by (intro disjI2 exI [of _ "[]"] exI [of _ "[prev, d] @ run ?g ds"] exI [of _ zs]) auto
  next
    case False
    then have m: "maxt prev \<le> mint d" using Cons.prems(3) by (simp add: word_sless_alt)
    have d: "mint d < maxt d" using Cons.prems(2) by simp
    let ?g = "if g <s MaxTime (dm_meta d) then MaxTime (dm_meta d) else g"
    have g: "sint ?g = maxt d" unfolding sint_later using m d Cons.prems(3) by simp
    have eq: "overlap_loop prev g [] (d # ds) = overlap_loop d ?g [] ds" using False by simp
    have later: "maxt prev \<le> mint e" if "e \<in> set (d # ds)" for e using that m Cons.prems(1) by auto
    have "sorted (map mint (d # ds))" "\<forall>x \<in> set (d # ds). mint x < maxt x" using Cons.prems(1,2) by auto
    from Cons.IH [OF this g] consider
        "overlap_loop d ?g [] ds = []" "sorted_wrt (\<lambda>d e. maxt d \<le> mint e) (d # ds)"
      | xs ys zs where "d # ds = xs @ ys @ zs" "overlap_loop d ?g [] ds = map dm_dir ys" "2 \<le> length ys" "chained ys"
          "\<forall>x \<in> set xs. \<forall>y \<in> set (ys @ zs). maxt x \<le> mint y" "\<forall>y \<in> set (xs @ ys). \<forall>z \<in> set zs. maxt y \<le> mint z" by blast
    then show ?thesis
    proof cases
      case 1
      then show ?thesis using eq later by (intro disjI1) simp
    next
      case 2
      have "set (d # ds) = set (xs @ ys @ zs)" using 2(1) by simp
      then have "\<forall>e \<in> set (xs @ ys @ zs). maxt prev \<le> mint e" using later by blast
      then show ?thesis using eq 2 by (intro disjI2 exI [of _ "prev # xs"] exI [of _ ys] exI [of _ zs]) auto
    qed
  qed
qed simp

section \<open>Blocks that are selected\<close>

lemma select_loop_ok:
  assumes "\<forall>iv \<in> set ivs. range_ok iv" "\<forall>d \<in> set ds. time_ok (dm_meta d)" "sorted (map mint ds)"
  shows "\<exists>sel. select_loop ivs high ds = Some sel \<and>
    (sel = [] \<or> (\<exists>iv \<in> set ivs. \<exists>k us vs. in_window iv k sel \<and> pick_part iv high sel \<and> filter (fits_range iv) ds = us @ sel @ vs))"
    (is "\<exists>sel. _ \<and> ?post ivs sel")
  using assms(1)
proof (induction ivs)
  case (Cons iv ivs)
  have "range_ok iv" using Cons.prems by simp
  from split_by_range [OF this assms(2,3)] obtain gs where gs: "splitByRange ds iv = Some gs" "concat gs = filter (fits_range iv) ds"
    "\<forall>g \<in> set gs. g \<noteq> [] \<and> (\<exists>k. in_window iv k g)" by blast
  show ?case
  proof (cases "find (pick_part iv high) gs")
    case None
    then have "select_loop (iv # ivs) high ds = select_loop ivs high ds" using gs(1) by simp
    moreover obtain sel where "select_loop ivs high ds = Some sel" "?post ivs sel" using Cons by auto
    moreover have "?post (iv # ivs) sel" using \<open>?post ivs sel\<close> by (metis list.set_intros(2))
    ultimately show ?thesis by metis
  next
    case (Some p)
    then have p: "p \<in> set gs" "pick_part iv high p" by (auto simp: find_Some_iff)
    then obtain g1 g2 where "gs = g1 @ p # g2" by (auto simp: in_set_conv_decomp)
    then have "filter (fits_range iv) ds = concat g1 @ p @ concat g2" using gs(2) by simp
    moreover obtain k where "in_window iv k p" using p(1) gs(3) by blast
    ultimately show ?thesis using gs(1) Some p(2) by (intro exI [of _ p]) auto
  qed
qed simp

lemma tombstone_scan_ok:
  "tombstone_scan heavy big vs = [] \<or> (\<exists>v \<in> set vs. tombstone_scan heavy big vs = [dm_dir v] \<and>
     (0 < NumTombstones (Stats (dm_meta v)) \<or> heavy (NumTombstones (Stats (dm_meta v))) (NumSeries (Stats (dm_meta v)) + 1)))"
  by (induction vs) (simp_all add: Let_def, blast)

text \<open>What the planner is given and what it relies on.\<close>

definition plan_setup :: "('u dirMeta list \<Rightarrow> 'u dirMeta list) \<Rightarrow> 'u LeveledCompactor \<Rightarrow> 'u dirMeta list \<Rightarrow> bool" where
  "plan_setup srt c dms \<longleftrightarrow> sorts srt mint \<and> ranges c \<noteq> [] \<and> (\<forall>r \<in> set (tl (ranges c)). range_ok r) \<and>
     (\<forall>d \<in> set dms. time_ok (dm_meta d)) \<and> distinct (map dm_dir dms)"

text \<open>The three reasons to compact: overlapping blocks, an aligned range of blocks, or a block with many tombstones.\<close>

definition overlap_sel :: "'u dirMeta list \<Rightarrow> 'u dirMeta list \<Rightarrow> bool" where
  "overlap_sel dms sel \<longleftrightarrow> 2 \<le> length sel \<and> chained sel \<and> (\<forall>d \<in> set dms - set sel. \<forall>e \<in> set sel. maxt d \<le> mint e \<or> maxt e \<le> mint d)"

definition range_sel :: "'u LeveledCompactor \<Rightarrow> 'u dirMeta list \<Rightarrow> 'u dirMeta list \<Rightarrow> bool" where
  "range_sel c dms sel \<longleftrightarrow> 2 \<le> length sel \<and> (\<forall>d \<in> set sel. \<not> Failed (Compaction (dm_meta d))) \<and> (\<exists>iv \<in> set (tl (ranges c)). \<exists>k. in_window iv k sel) \<and>
     (\<exists>d \<in> set dms - set sel. \<forall>e \<in> set dms. mint e \<le> mint d)"

definition tombstone_sel :: "(uint64 \<Rightarrow> uint64 \<Rightarrow> bool) \<Rightarrow> 'u dirMeta list \<Rightarrow> bool" where
  "tombstone_sel heavy sel \<longleftrightarrow> (\<exists>v. sel = [v] \<and>
     (0 < NumTombstones (Stats (dm_meta v)) \<or> heavy (NumTombstones (Stats (dm_meta v))) (NumSeries (Stats (dm_meta v)) + 1)))"

text \<open>
  When the planner finds nothing to do in the blocks of a class, sorted by time: none of them overlap; at no range a part of the blocks
  but the newest is due; and going back from the newest of these, no block of at least half the largest range has many tombstones, and the first smaller
  one is not deleted completely.
\<close>

definition block_size :: "'u dirMeta \<Rightarrow> int64" where
  "block_size d = MaxTime (dm_meta d) - MinTime (dm_meta d)"

definition nothing_due :: "(uint64 \<Rightarrow> uint64 \<Rightarrow> bool) \<Rightarrow> 'u LeveledCompactor \<Rightarrow> 'u dirMeta list \<Rightarrow> bool" where
  "nothing_due heavy c ds \<longleftrightarrow>
     (enableOverlappingCompaction c \<longrightarrow> sorted_wrt (\<lambda>d e. maxt d \<le> mint e) ds) \<and>
     (\<forall>iv \<in> set (tl (ranges c)). \<forall>p \<in> set (the (splitByRange (butlast ds) iv)). \<not> pick_part iv (MinTime (dm_meta (last (butlast ds)))) p) \<and>
     (\<forall>older v newer. butlast ds = older @ v # newer \<longrightarrow> (\<forall>u \<in> set newer. \<not> block_size u <s ranges c ! (length (ranges c) div 2)) \<longrightarrow>
        (if block_size v <s ranges c ! (length (ranges c) div 2)
         then NumTombstones (Stats (dm_meta v)) = 0 \<or> NumTombstones (Stats (dm_meta v)) < NumSeries (Stats (dm_meta v))
         else \<not> heavy (NumTombstones (Stats (dm_meta v))) (NumSeries (Stats (dm_meta v)) + 1)))"

lemma sorts_Nil: "plan_setup srt c dms \<Longrightarrow> srt [] = []"
  using sortsD(1) [of srt mint "[]"] by (simp add: plan_setup_def)

lemma nothing_due_Nil: "nothing_due heavy c []"
  by (simp add: nothing_due_def)

lemma select_loop_none: "select_loop ivs high ds = Some [] \<Longrightarrow> \<forall>iv \<in> set ivs. \<forall>p \<in> set (the (splitByRange ds iv)). \<not> pick_part iv high p"
proof (induction ivs)
  case (Cons iv ivs)
  obtain parts where parts: "splitByRange ds iv = Some parts" using Cons.prems by (auto split: option.split_asm)
  have "\<not> pick_part iv high []" by (simp add: pick_part_def)
  then have none: "find (pick_part iv high) parts = None" using Cons.prems parts by (auto simp: find_Some_iff split: option.split_asm)
  then have "select_loop ivs high ds = Some []" using Cons.prems parts by simp
  then show ?case using Cons.IH none parts by (auto simp: find_None_iff)
qed simp

lemma selectDirs_none:
  assumes "selectDirs c ds = Some []"
  shows "\<forall>iv \<in> set (tl (ranges c)). \<forall>p \<in> set (the (splitByRange ds iv)). \<not> pick_part iv (MinTime (dm_meta (last ds))) p"
proof (cases "length (ranges c) < 2 \<or> length ds < 1")
  case True
  then show ?thesis by (cases "ranges c" rule: remdups_adj.cases) auto
next
  case False
  then show ?thesis using assms select_loop_none [of "tl (ranges c)"] by (simp add: selectDirs_def)
qed

lemma tombstone_scan_none:
  assumes "tombstone_scan heavy big vs = []" "vs = newer @ v # older" "\<forall>u \<in> set newer. \<not> block_size u <s big"
  shows "if block_size v <s big then NumTombstones (Stats (dm_meta v)) = 0 \<or> NumTombstones (Stats (dm_meta v)) < NumSeries (Stats (dm_meta v))
    else \<not> heavy (NumTombstones (Stats (dm_meta v))) (NumSeries (Stats (dm_meta v)) + 1)"
  using assms
proof (induction newer arbitrary: vs)
  case Nil
  then show ?case by (auto simp: block_size_def Let_def not_le word_gt_0 split: if_split_asm)
next
  case (Cons u newer)
  then show ?case by (auto simp: block_size_def Let_def split: if_split_asm)
qed

lemma overlapping_dirs:
  assumes "sorted (map mint ds)" "\<forall>d \<in> set ds. time_ok (dm_meta d)" "distinct (map dm_dir ds)"
  shows "\<exists>sel. selectOverlappingDirs c ds = map dm_dir sel \<and> set sel \<subseteq> set ds \<and> distinct (map dm_dir sel) \<and> (sel \<noteq> [] \<longrightarrow> overlap_sel ds sel) \<and>
    (sel = [] \<longrightarrow> enableOverlappingCompaction c \<longrightarrow> sorted_wrt (\<lambda>d e. maxt d \<le> mint e) ds)"
proof (cases "\<not> enableOverlappingCompaction c \<or> length ds < 2")
  case True
  then have "sorted_wrt (\<lambda>d e. maxt d \<le> mint e) ds" if "enableOverlappingCompaction c" using that by (cases ds rule: remdups_adj.cases) auto
  then show ?thesis using True by (intro exI [of _ "[]"]) (auto simp: selectOverlappingDirs_def)
next
  case False
  then obtain p rest where ds: "ds = p # rest" by (cases ds) auto
  have eq: "selectOverlappingDirs c ds = overlap_loop p (MaxTime (dm_meta p)) [] rest" using False by (simp add: selectOverlappingDirs_def ds)
  have "\<forall>d \<in> set (p # rest). mint d < maxt d" using assms(2) by (simp add: time_ok_def ds)
  from overlap_loop_none [OF _ this refl, folded ds eq] assms(1) consider
      "selectOverlappingDirs c ds = []" "sorted_wrt (\<lambda>d e. maxt d \<le> mint e) ds"
    | xs ys zs where "ds = xs @ ys @ zs" "selectOverlappingDirs c ds = map dm_dir ys" "2 \<le> length ys" "chained ys"
        "\<forall>x \<in> set xs. \<forall>y \<in> set (ys @ zs). maxt x \<le> mint y" "\<forall>y \<in> set (xs @ ys). \<forall>z \<in> set zs. maxt y \<le> mint z" by blast
  then show ?thesis
  proof cases
    case 1
    then show ?thesis by (intro exI [of _ "[]"]) simp
  next
    case 2
    then have "overlap_sel ds ys" by (auto simp: overlap_sel_def)
    then show ?thesis using 2 assms(3) by (intro exI [of _ ys]) auto
  qed
qed

lemma selectDirs_ok:
  assumes "ds \<noteq> []" "\<forall>r \<in> set (tl (ranges c)). range_ok r" "sorted (map mint ds)" "\<forall>d \<in> set ds. time_ok (dm_meta d)" "distinct (map dm_dir ds)"
  shows "\<exists>sel. selectDirs c (butlast ds) = Some sel \<and> set sel \<subseteq> set ds \<and> distinct (map dm_dir sel) \<and> (sel \<noteq> [] \<longrightarrow> range_sel c ds sel)"
proof -
  let ?ds = "butlast ds"
  have ds: "ds = ?ds @ [last ds]" using assms(1) by simp
  have b: "set ?ds \<subseteq> set ds" "sorted (map mint ?ds)" "distinct (map dm_dir ?ds)" "last ds \<notin> set ?ds" "\<forall>e \<in> set ds. mint e \<le> mint (last ds)"
    using assms(3,5) by (subst (asm) (1 2) ds, subst ds; auto simp: sorted_append)+
  show ?thesis
  proof (cases "length (ranges c) < 2 \<or> length ?ds < 1")
    case True
    then show ?thesis by (simp add: selectDirs_def)
  next
    case False
    have "\<forall>d \<in> set ?ds. time_ok (dm_meta d)" using assms(4) b(1) by blast
    from select_loop_ok [OF assms(2) this b(2), of "MinTime (dm_meta (last ?ds))"] obtain sel where
      sel: "selectDirs c ?ds = Some sel" "sel = [] \<or> (\<exists>iv \<in> set (tl (ranges c)). \<exists>k us vs. in_window iv k sel \<and> pick_part iv (MinTime (dm_meta (last ?ds))) sel \<and>
        filter (fits_range iv) ?ds = us @ sel @ vs)" using False by (auto simp: selectDirs_def)
    show ?thesis
    proof (cases "sel = []")
      case True
      then show ?thesis using sel(1) by simp
    next
      case False
      then obtain iv k us vs where i: "iv \<in> set (tl (ranges c))" "in_window iv k sel" "pick_part iv (MinTime (dm_meta (last ?ds))) sel" "filter (fits_range iv) ?ds = us @ sel @ vs"
        using sel(2) by blast
      have "set (us @ sel @ vs) \<subseteq> set ?ds" "distinct (map dm_dir (us @ sel @ vs))" unfolding i(4) [symmetric] using b(3) by (auto intro: distinct_map_filter)
      then have "set sel \<subseteq> set ?ds" "distinct (map dm_dir sel)" by auto
      moreover have "range_sel c ds sel" unfolding range_sel_def using i(1-3) b(4,5) assms(1) \<open>set sel \<subseteq> set ?ds\<close>
        by (auto simp: pick_part_def Let_def intro!: bexI [of _ "last ds"])
      ultimately show ?thesis using sel(1) b(1) by blast
    qed
  qed
qed

lemma planClass_ok:
  assumes "plan_setup srt c dms"
  shows "\<exists>sel. planClass heavy srt c dms = Some (map dm_dir sel) \<and> set sel \<subseteq> set dms \<and> distinct (map dm_dir sel) \<and>
    (if sel = [] then nothing_due heavy c (srt dms) else overlap_sel dms sel \<or> range_sel c dms sel \<or> tombstone_sel heavy sel)"
proof (cases "dms = []")
  case True
  then show ?thesis using sorts_Nil [OF assms] by (simp add: planClass_def nothing_due_Nil)
next
  case False
  let ?ds = "srt dms"
  note p = assms [unfolded plan_setup_def]
  note s = sortsD [OF p [THEN conjunct1], where xs = dms]
  have ds: "?ds \<noteq> []" "\<forall>d \<in> set ?ds. time_ok (dm_meta d)" "distinct (map dm_dir ?ds)" using s False p by auto
  obtain ov where ov: "selectOverlappingDirs c ?ds = map dm_dir ov" "set ov \<subseteq> set ?ds" "distinct (map dm_dir ov)" "ov \<noteq> [] \<longrightarrow> overlap_sel ?ds ov"
      "ov = [] \<longrightarrow> enableOverlappingCompaction c \<longrightarrow> sorted_wrt (\<lambda>d e. maxt d \<le> mint e) ?ds"
    using overlapping_dirs [OF s(4) ds(2,3), of c] by blast
  obtain rs where rs: "selectDirs c (butlast ?ds) = Some rs" "set rs \<subseteq> set ?ds" "distinct (map dm_dir rs)" "rs \<noteq> [] \<longrightarrow> range_sel c ?ds rs"
    using selectDirs_ok [OF ds(1) _ s(4) ds(2,3), of c] p by blast
  have set: "overlap_sel ?ds = overlap_sel dms" "range_sel c ?ds = range_sel c dms" by (simp_all add: overlap_sel_def range_sel_def s(2) fun_eq_iff)
  let ?big = "ranges c ! (length (ranges c) div 2)"
  consider "ov \<noteq> []" | "ov = []" "rs \<noteq> []" | "ov = []" "rs = []" by blast
  then show ?thesis
  proof cases
    case 1
    then show ?thesis using False ov s(2) set by (intro exI [of _ ov]) (simp add: planClass_def)
  next
    case 2
    then show ?thesis using False ov(1) rs s(2) set by (intro exI [of _ rs]) (simp add: planClass_def)
  next
    case 3
    have "\<not> length (ranges c) \<le> length (ranges c) div 2" using p by (cases "ranges c") auto
    then have eq: "planClass heavy srt c dms = Some (if butlast ?ds = [] then [] else tombstone_scan heavy ?big (rev (butlast ?ds)))"
      using False 3 ov(1) rs(1) by (simp add: planClass_def)
    consider "tombstone_scan heavy ?big (rev (butlast ?ds)) = []" | v where "v \<in> set (butlast ?ds)" "tombstone_scan heavy ?big (rev (butlast ?ds)) = [dm_dir v]" "tombstone_sel heavy [v]"
      using tombstone_scan_ok [of heavy ?big "rev (butlast ?ds)"] by (auto simp: tombstone_sel_def)
    then show ?thesis
    proof cases
      case 1
      have "nothing_due heavy c ?ds" unfolding nothing_due_def
      proof (intro conjI impI allI)
        show "sorted_wrt (\<lambda>d e. maxt d \<le> mint e) ?ds" if "enableOverlappingCompaction c" using that ov(5) 3(1) by blast
        show "\<forall>iv \<in> set (tl (ranges c)). \<forall>p \<in> set (the (splitByRange (butlast ?ds) iv)). \<not> pick_part iv (MinTime (dm_meta (last (butlast ?ds)))) p"
          by (rule selectDirs_none) (use rs(1) 3(2) in simp)
        show "if block_size v <s ?big then NumTombstones (Stats (dm_meta v)) = 0 \<or> NumTombstones (Stats (dm_meta v)) < NumSeries (Stats (dm_meta v))
            else \<not> heavy (NumTombstones (Stats (dm_meta v))) (NumSeries (Stats (dm_meta v)) + 1)"
          if "butlast ?ds = older @ v # newer" "\<forall>u \<in> set newer. \<not> block_size u <s ?big" for older v newer
          using tombstone_scan_none [OF 1, of "rev newer" v "rev older"] that by simp
      qed
      then show ?thesis unfolding eq using 1 by (intro exI [of _ "[]"]) simp
    next
      case (2 v)
      have "butlast ?ds \<noteq> []" using 2(1) by auto
      moreover have "v \<in> set dms" using in_set_butlastD [OF 2(1)] s(2) by simp
      ultimately show ?thesis unfolding eq using 2 by (intro exI [of _ "[v]"]) simp
    qed
  qed
qed

text \<open>The classes that are never mixed.\<close>

definition partial_class :: "'u BlockMeta \<Rightarrow> nat" where
  "partial_class m = (if FromStaleSeries (Compaction m) then 1 else if FromSelectedSeries (Compaction m) then 2 else 0)"

definition of_class :: "nat \<Rightarrow> 'u dirMeta list \<Rightarrow> 'u dirMeta list" where
  "of_class k = filter (\<lambda>d. partial_class (dm_meta d) = k)"

lemma plan_setup_class: "plan_setup srt c dms \<Longrightarrow> plan_setup srt c (of_class k dms)"
  by (auto simp: plan_setup_def of_class_def distinct_map_filter)

lemma plan_eq:
  "plan heavy srt c dms =
    (if dms = [] then Some []
     else if 1 < length (filter (\<lambda>k. of_class k dms \<noteq> []) [1, 2, 0])
     then Option.bind (planClass heavy srt c (of_class 0 dms)) (\<lambda>res. if res \<noteq> [] then Some res
       else Option.bind (planClass heavy srt c (of_class 1 dms)) (\<lambda>res. if res \<noteq> [] then Some res else planClass heavy srt c (of_class 2 dms)))
     else planClass heavy srt c dms)"
proof -
  have c: "of_class 1 dms = filter (\<lambda>dm. FromStaleSeries (Compaction (dm_meta dm))) dms"
      "of_class 2 dms = filter (\<lambda>dm. \<not> FromStaleSeries (Compaction (dm_meta dm)) \<and> FromSelectedSeries (Compaction (dm_meta dm))) dms"
      "of_class 0 dms = filter (\<lambda>dm. \<not> FromStaleSeries (Compaction (dm_meta dm)) \<and> \<not> FromSelectedSeries (Compaction (dm_meta dm))) dms"
    unfolding of_class_def by (rule filter_cong; simp add: partial_class_def)+
  show ?thesis unfolding plan_def Let_def c [symmetric] by simp
qed

lemma plan_ok:
  assumes "plan_setup srt c dms"
  shows "\<exists>sel k. plan heavy srt c dms = Some (map dm_dir sel) \<and> set sel \<subseteq> set (of_class k dms) \<and> distinct (map dm_dir sel) \<and>
    (if sel = [] then \<forall>k. nothing_due heavy c (srt (of_class k dms)) else overlap_sel (of_class k dms) sel \<or> range_sel c (of_class k dms) sel \<or> tombstone_sel heavy sel)"
proof (cases "1 < length (filter (\<lambda>k. of_class k dms \<noteq> []) [1, 2, 0 :: nat])")
  case True
  then have ne: "dms \<noteq> []" by (auto simp: of_class_def)
  note cl = planClass_ok [OF plan_setup_class [OF assms], of heavy]
  obtain s0 where s0: "planClass heavy srt c (of_class 0 dms) = Some (map dm_dir s0)" "set s0 \<subseteq> set (of_class 0 dms)" "distinct (map dm_dir s0)"
    "if s0 = [] then nothing_due heavy c (srt (of_class 0 dms)) else overlap_sel (of_class 0 dms) s0 \<or> range_sel c (of_class 0 dms) s0 \<or> tombstone_sel heavy s0" using cl [of 0] by blast
  obtain s1 where s1: "planClass heavy srt c (of_class 1 dms) = Some (map dm_dir s1)" "set s1 \<subseteq> set (of_class 1 dms)" "distinct (map dm_dir s1)"
    "if s1 = [] then nothing_due heavy c (srt (of_class 1 dms)) else overlap_sel (of_class 1 dms) s1 \<or> range_sel c (of_class 1 dms) s1 \<or> tombstone_sel heavy s1" using cl [of 1] by blast
  obtain s2 where s2: "planClass heavy srt c (of_class 2 dms) = Some (map dm_dir s2)" "set s2 \<subseteq> set (of_class 2 dms)" "distinct (map dm_dir s2)"
    "if s2 = [] then nothing_due heavy c (srt (of_class 2 dms)) else overlap_sel (of_class 2 dms) s2 \<or> range_sel c (of_class 2 dms) s2 \<or> tombstone_sel heavy s2" using cl [of 2] by blast
  have "plan heavy srt c dms = Some (map dm_dir (if s0 \<noteq> [] then s0 else if s1 \<noteq> [] then s1 else s2))"
    unfolding plan_eq if_P [OF True] if_not_P [OF ne] s0(1) s1(1) s2(1) by simp
  moreover have "nothing_due heavy c (srt (of_class k dms))" if e: "s0 = []" "s1 = []" "s2 = []" for k
  proof (cases "k \<in> {0, 1, 2}")
    case True
    then show ?thesis using e s0(4) s1(4) s2(4) by auto
  next
    case False
    then have "of_class k dms = []" by (auto simp: of_class_def partial_class_def filter_empty_conv)
    then show ?thesis using sorts_Nil [OF assms] nothing_due_Nil by simp
  qed
  ultimately show ?thesis
    using s0 s1 s2 by (intro exI [of _ "if s0 \<noteq> [] then s0 else if s1 \<noteq> [] then s1 else s2"] exI [of _ "if s0 \<noteq> [] then 0 else if s1 \<noteq> [] then 1 else 2"]) auto
next
  case False
  have one: "\<exists>k. of_class k dms = dms"
  proof (cases "dms = []")
    case True
    then show ?thesis by (simp add: of_class_def)
  next
    case ne: False
    let ?k = "partial_class (dm_meta (hd dms))"
    have "partial_class (dm_meta d) = ?k" if "d \<in> set dms" for d
    proof (rule ccontr)
      assume "partial_class (dm_meta d) \<noteq> ?k"
      moreover have "of_class (partial_class (dm_meta d)) dms \<noteq> []" "of_class ?k dms \<noteq> []" using that ne by (auto simp: of_class_def filter_empty_conv intro: hd_in_set)
      moreover have "partial_class (dm_meta e) \<in> {0, 1, 2}" for e :: "'a dirMeta" by (simp add: partial_class_def)
      ultimately show False using False \<open>partial_class (dm_meta d) \<noteq> ?k\<close>
        by (cases "of_class 0 dms = []"; cases "of_class 1 dms = []"; cases "of_class 2 dms = []") (auto, metis+)
    qed
    then show ?thesis by (intro exI [of _ ?k]) (simp add: of_class_def)
  qed
  then obtain k where k: "of_class k dms = dms" by blast
  have "of_class k' dms = []" if "k' \<noteq> k" for k' using k that unfolding of_class_def by (metis (mono_tags, lifting) filter_False filter_id_conv)
  then have all: "nothing_due heavy c (srt (of_class k' dms))" if "nothing_due heavy c (srt dms)" for k' using that k sorts_Nil [OF assms] nothing_due_Nil by (cases "k' = k") simp_all
  have "plan heavy srt c dms = planClass heavy srt c dms" unfolding plan_eq if_not_P [OF False] by (simp add: planClass_def)
  moreover obtain sel where "planClass heavy srt c dms = Some (map dm_dir sel)" "set sel \<subseteq> set dms" "distinct (map dm_dir sel)"
    "if sel = [] then nothing_due heavy c (srt dms) else overlap_sel dms sel \<or> range_sel c dms sel \<or> tombstone_sel heavy sel" using planClass_ok [OF assms, of heavy] by blast
  ultimately show ?thesis using k all by (intro exI [of _ sel] exI [of _ k]) (simp split: if_split_asm)
qed

end
