(* ===== verification/BlocksCompact.thy ===== *)
theory BlocksCompact
  imports BlocksPlan
begin

text \<open>
  The metadata of a compacted block, and the blocks after compactions and reloads: the hints of blocks survive, the time up to
  which in-order data is persisted does not move, and the loop that compacts blocks ends.
\<close>

section \<open>Merged metadata\<close>

lemma hint_names: "CompactionHintFromOutOfOrder \<noteq> CompactionHintFromStaleSeries" "CompactionHintFromOutOfOrder \<noteq> CompactionHintFromSelectedSeries"
    "CompactionHintFromStaleSeries \<noteq> CompactionHintFromSelectedSeries"
  by (simp_all add: CompactionHintFromOutOfOrder_def CompactionHintFromStaleSeries_def CompactionHintFromSelectedSeries_def)

lemma set_hints [simp]:
  "FromStaleSeries (SetStaleSeries c)" "FromSelectedSeries (SetStaleSeries c) = FromSelectedSeries c" "FromOutOfOrder (SetStaleSeries c) = FromOutOfOrder c"
  "FromStaleSeries (SetSelectedSeries c) = FromStaleSeries c" "FromSelectedSeries (SetSelectedSeries c)" "FromOutOfOrder (SetSelectedSeries c) = FromOutOfOrder c"
  "FromStaleSeries (SetOutOfOrder c) = FromStaleSeries c" "FromSelectedSeries (SetOutOfOrder c) = FromSelectedSeries c" "FromOutOfOrder (SetOutOfOrder c)"
  "Parents (SetStaleSeries c) = Parents c" "Parents (SetSelectedSeries c) = Parents c" "Parents (SetOutOfOrder c) = Parents c"
  "Deletable (SetStaleSeries c) = Deletable c" "Deletable (SetSelectedSeries c) = Deletable c" "Deletable (SetOutOfOrder c) = Deletable c"
  "Failed (SetStaleSeries c) = Failed c" "Failed (SetSelectedSeries c) = Failed c" "Failed (SetOutOfOrder c) = Failed c"
  "Level (SetStaleSeries c) = Level c" "Level (SetSelectedSeries c) = Level c" "Level (SetOutOfOrder c) = Level c"
  using hint_names by (auto simp: SetStaleSeries_def SetSelectedSeries_def SetOutOfOrder_def FromStaleSeries_def FromSelectedSeries_def FromOutOfOrder_def)

lemma hints_updates [simp]:
  "FromStaleSeries (c\<lparr>Level := x\<rparr>) = FromStaleSeries c" "FromSelectedSeries (c\<lparr>Level := x\<rparr>) = FromSelectedSeries c" "FromOutOfOrder (c\<lparr>Level := x\<rparr>) = FromOutOfOrder c"
  "FromStaleSeries (c\<lparr>Parents := p\<rparr>) = FromStaleSeries c" "FromSelectedSeries (c\<lparr>Parents := p\<rparr>) = FromSelectedSeries c" "FromOutOfOrder (c\<lparr>Parents := p\<rparr>) = FromOutOfOrder c"
  "FromStaleSeries (c\<lparr>Sources := s\<rparr>) = FromStaleSeries c" "FromSelectedSeries (c\<lparr>Sources := s\<rparr>) = FromSelectedSeries c" "FromOutOfOrder (c\<lparr>Sources := s\<rparr>) = FromOutOfOrder c"
  by (simp_all add: FromStaleSeries_def FromSelectedSeries_def FromOutOfOrder_def)

lemma merge_meta_facts [simp]:
  "FromStaleSeries (merge_meta b c) \<longleftrightarrow> FromStaleSeries c \<or> FromStaleSeries (Compaction b)"
  "FromSelectedSeries (merge_meta b c) \<longleftrightarrow> FromSelectedSeries c \<or> FromSelectedSeries (Compaction b)"
  "FromOutOfOrder (merge_meta b c) = FromOutOfOrder c"
  "map bd_ULID (Parents (merge_meta b c)) = map bd_ULID (Parents c) @ [ULID b]"
  "Deletable (merge_meta b c) = Deletable c" "Failed (merge_meta b c) = Failed c"
  "sint (Level (merge_meta b c)) = max (sint (Level c)) (sint (Level (Compaction b)))"
  by (auto simp: merge_meta_def Let_def word_sless_alt max_def)

lemma merge_fold:
  "FromStaleSeries (fold merge_meta bs c) \<longleftrightarrow> FromStaleSeries c \<or> (\<exists>b \<in> set bs. FromStaleSeries (Compaction b))"
  "FromSelectedSeries (fold merge_meta bs c) \<longleftrightarrow> FromSelectedSeries c \<or> (\<exists>b \<in> set bs. FromSelectedSeries (Compaction b))"
  "FromOutOfOrder (fold merge_meta bs c) = FromOutOfOrder c"
  "map bd_ULID (Parents (fold merge_meta bs c)) = map bd_ULID (Parents c) @ map ULID bs"
  "Deletable (fold merge_meta bs c) = Deletable c" "Failed (fold merge_meta bs c) = Failed c"
  "sint (Level (fold merge_meta bs c)) = Max (insert (sint (Level c)) ((\<lambda>b. sint (Level (Compaction b))) ` set bs))"
proof (induction bs arbitrary: c)
  case (Cons b bs)
  { case 7 then show ?case by (simp add: Cons.IH(7) max.assoc) (cases "bs = []"; simp add: max.commute max.left_commute) }
qed auto

lemma fold_earliest: "sint (fold (\<lambda>b t. if MinTime b <s t then MinTime b else t) bs t) = Min (insert (sint t) ((\<lambda>b. sint (MinTime b)) ` set bs))"
proof (induction bs arbitrary: t)
  case (Cons b bs)
  have "sint (if MinTime b <s t then MinTime b else t) = min (sint (MinTime b)) (sint t)" by (auto simp: word_sless_alt)
  then show ?case by (cases "bs = []") (simp_all add: Cons.IH min.commute min.left_commute min.assoc)
qed simp

lemma fold_latest: "sint (fold (\<lambda>b t. if t <s MaxTime b then MaxTime b else t) bs t) = Max (insert (sint t) ((\<lambda>b. sint (MaxTime b)) ` set bs))"
proof (induction bs arbitrary: t)
  case (Cons b bs)
  have "sint (if t <s MaxTime b then MaxTime b else t) = max (sint (MaxTime b)) (sint t)" by (auto simp: word_sless_alt)
  then show ?case by (cases "bs = []") (simp_all add: Cons.IH max.commute max.left_commute max.assoc)
qed simp

lemma compact_metas:
  assumes "bs \<noteq> []"
  obtains m where "CompactBlockMetas uid bs = Some m" "ULID m = uid"
    "sint (MinTime m) = Min ((\<lambda>b. sint (MinTime b)) ` set bs)" "sint (MaxTime m) = Max ((\<lambda>b. sint (MaxTime b)) ` set bs)"
    "FromStaleSeries (Compaction m) \<longleftrightarrow> (\<exists>b \<in> set bs. FromStaleSeries (Compaction b))"
    "FromSelectedSeries (Compaction m) \<longleftrightarrow> (\<exists>b \<in> set bs. FromSelectedSeries (Compaction b))"
    "FromOutOfOrder (Compaction m) \<longleftrightarrow> (\<forall>b \<in> set bs. FromOutOfOrder (Compaction b))"
    "map bd_ULID (Parents (Compaction m)) = map ULID bs" "NumTombstones (Stats m) = 0"
    "Sources (Compaction m) = sorted_list_of_set (\<Union>b \<in> set bs. set (Sources (Compaction b)))"
    "\<not> Deletable (Compaction m)" "\<not> Failed (Compaction m)"
    "Level (Compaction m) = word_of_int (Max (insert 0 ((\<lambda>b. sint (Level (Compaction b))) ` set bs))) + 1"
proof -
  obtain b0 bs' where bs: "bs = b0 # bs'" using assms by (cases bs) auto
  let ?c0 = "\<lparr>Level = 0, Sources = [], Deletable = False, Parents = [], Failed = False, Hints = []\<rparr> :: 'a BlockMetaCompaction"
  have c0: "\<not> FromStaleSeries ?c0" "\<not> FromSelectedSeries ?c0" "\<not> FromOutOfOrder ?c0" by (simp_all add: FromStaleSeries_def FromSelectedSeries_def FromOutOfOrder_def)
  define r where "r = fold merge_meta bs ?c0"
  define res where "res = (if \<forall>b \<in> set bs. FromOutOfOrder (Compaction b) then SetOutOfOrder r else r)"
  define m where "m = \<lparr>ULID = uid, MinTime = fold (\<lambda>b t. if MinTime b <s t then MinTime b else t) bs (MinTime b0),
    MaxTime = fold (\<lambda>b t. if t <s MaxTime b then MaxTime b else t) bs (MaxTime b0), Stats = empty_stats,
    Compaction = res\<lparr>Level := Level res + 1, Sources := sort (remdups (concat (map (\<lambda>b. Sources (Compaction b)) bs)))\<rparr>, Version = 0\<rparr>"
  have eq: "CompactBlockMetas uid bs = Some m" unfolding m_def res_def r_def CompactBlockMetas_def Let_def by (simp only: bs list.case)
  have src: "sort (remdups (concat (map (\<lambda>b. Sources (Compaction b)) bs))) = sorted_list_of_set (\<Union>b \<in> set bs. set (Sources (Compaction b)))"
    unfolding sorted_list_of_set_sort_remdups [symmetric] by simp
  have "sint (Level r) = Max (insert 0 ((\<lambda>b. sint (Level (Compaction b))) ` set bs))" using merge_fold(7) [of bs ?c0] by (simp add: r_def)
  from this [symmetric] have lev: "word_of_int (Max (insert 0 ((\<lambda>b. sint (Level (Compaction b))) ` set bs))) = Level r" by simp
  have t: "insert (sint (MinTime b0)) ((\<lambda>b. sint (MinTime b)) ` set bs) = (\<lambda>b. sint (MinTime b)) ` set bs"
      "insert (sint (MaxTime b0)) ((\<lambda>b. sint (MaxTime b)) ` set bs) = (\<lambda>b. sint (MaxTime b)) ` set bs" by (auto simp: bs)
  have r: "FromStaleSeries r \<longleftrightarrow> (\<exists>b \<in> set bs. FromStaleSeries (Compaction b))" "FromSelectedSeries r \<longleftrightarrow> (\<exists>b \<in> set bs. FromSelectedSeries (Compaction b))"
      "\<not> FromOutOfOrder r" "map bd_ULID (Parents r) = map ULID bs" "\<not> Deletable r" "\<not> Failed r"
    unfolding r_def using c0 merge_fold(1-6) [of bs ?c0] by simp_all
  have c: "FromStaleSeries res = FromStaleSeries r" "FromSelectedSeries res = FromSelectedSeries r" "FromOutOfOrder res \<longleftrightarrow> (\<forall>b \<in> set bs. FromOutOfOrder (Compaction b))"
      "Parents res = Parents r" "Deletable res = Deletable r" "Failed res = Failed r" "Level res = Level r"
    unfolding res_def using r(3) by auto
  show thesis by (rule that [OF eq]) (simp_all add: m_def c r fold_earliest fold_latest t empty_stats_def src lev)
qed

section \<open>The end of in-order data\<close>

definition in_order :: "'u BlockMeta \<Rightarrow> bool" where
  "in_order m \<longleftrightarrow> \<not> FromOutOfOrder (Compaction m) \<and> \<not> FromStaleSeries (Compaction m) \<and> \<not> FromSelectedSeries (Compaction m)"

lemma Max_insert_below: "finite A \<Longrightarrow> x \<in> A \<Longrightarrow> t \<le> x \<Longrightarrow> Max (insert t A) = Max (A :: int set)"
  by (metis Max_ge Max_insert empty_iff max_absorb2 order_trans)

lemma in_order_fold:
  "\<exists>w. fold (\<lambda>b (maxt, ok). let c = Compaction (bl_meta b) in
       if \<not> FromOutOfOrder c \<and> \<not> FromStaleSeries c \<and> \<not> FromSelectedSeries c \<and> maxt <s MaxTime (bl_meta b)
       then (MaxTime (bl_meta b), True) else (maxt, ok)) bs (t, ok) = (w, ok \<or> (\<exists>b \<in> set bs. in_order (bl_meta b) \<and> t <s MaxTime (bl_meta b))) \<and>
     sint w = Max (insert (sint t) ((\<lambda>b. sint (MaxTime (bl_meta b))) ` {b \<in> set bs. in_order (bl_meta b)}))"
proof (induction bs arbitrary: t ok)
  case (Cons b bs)
  let ?S = "(\<lambda>b. sint (MaxTime (bl_meta b))) ` {b \<in> set bs. in_order (bl_meta b)}"
  show ?case
  proof (cases "in_order (bl_meta b) \<and> t <s MaxTime (bl_meta b)")
    case True
    then have i: "{x \<in> set (b # bs). in_order (bl_meta x)} = insert b {x \<in> set bs. in_order (bl_meta x)}" by auto
    have "Max (insert (sint (MaxTime (bl_meta b))) ?S) = Max (insert (sint t) (insert (sint (MaxTime (bl_meta b))) ?S))"
      using True by (intro Max_insert_below [symmetric, of _ "sint (MaxTime (bl_meta b))"]) (auto simp: word_sless_alt)
    then show ?thesis unfolding i using True Cons.IH [of "MaxTime (bl_meta b)" True] by (auto simp: in_order_def Let_def)
  next
    case False
    have m: "Max (insert (sint t) ((\<lambda>b. sint (MaxTime (bl_meta b))) ` {x \<in> set (b # bs). in_order (bl_meta x)})) = Max (insert (sint t) ?S)"
    proof (cases "in_order (bl_meta b)")
      case True
      then have i: "{x \<in> set (b # bs). in_order (bl_meta x)} = insert b {x \<in> set bs. in_order (bl_meta x)}" by auto
      have "sint (MaxTime (bl_meta b)) \<le> sint t" using False True by (simp add: word_sless_alt)
      then show ?thesis unfolding i image_insert by (subst insert_commute, intro Max_insert_below [of _ "sint t"]) auto
    next
      case False
      then have "{x \<in> set (b # bs). in_order (bl_meta x)} = {x \<in> set bs. in_order (bl_meta x)}" by auto
      then show ?thesis by simp
    qed
    show ?thesis unfolding m using False Cons.IH [of t ok] by (auto simp: in_order_def Let_def)
  qed
qed simp

text \<open>The result depends only on the ends of the in-order blocks.\<close>

lemma in_order_max_cong:
  assumes "(\<lambda>b. sint (MaxTime (bl_meta b))) ` {b \<in> set bs. in_order (bl_meta b)} = A"
    "(\<lambda>b. sint (MaxTime (bl_meta b))) ` {b \<in> set bs'. in_order (bl_meta b)} = A'"
    "Max (insert (sint MinInt64) A) = Max (insert (sint MinInt64) A')" "A = {} \<longleftrightarrow> A' = {}"
    "\<forall>x \<in> A \<union> A'. sint MinInt64 < x"
  shows "inOrderBlocksMaxTime bs = inOrderBlocksMaxTime bs'"
proof -
  obtain w where w: "inOrderBlocksMaxTime bs = (w, \<exists>b \<in> set bs. in_order (bl_meta b) \<and> MinInt64 <s MaxTime (bl_meta b))" "sint w = Max (insert (sint MinInt64) A)"
    using in_order_fold [of bs MinInt64 False] assms(1) by (auto simp: inOrderBlocksMaxTime_def)
  obtain w' where w': "inOrderBlocksMaxTime bs' = (w', \<exists>b \<in> set bs'. in_order (bl_meta b) \<and> MinInt64 <s MaxTime (bl_meta b))" "sint w' = Max (insert (sint MinInt64) A')"
    using in_order_fold [of bs' MinInt64 False] assms(2) by (auto simp: inOrderBlocksMaxTime_def)
  have "word_of_int (sint w) = (word_of_int (sint w') :: int64)" using w(2) w'(2) assms(3) by simp
  then have "w = w'" by simp
  moreover have "(\<exists>b \<in> set bs. in_order (bl_meta b) \<and> MinInt64 <s MaxTime (bl_meta b)) \<longleftrightarrow> A \<noteq> {}"
      "(\<exists>b \<in> set bs'. in_order (bl_meta b) \<and> MinInt64 <s MaxTime (bl_meta b)) \<longleftrightarrow> A' \<noteq> {}"
    using assms(1,2,5) by (auto simp: word_sless_alt)
  ultimately show ?thesis using w(1) w'(1) assms(4) by simp
qed

section \<open>Blocks that are planned\<close>

definition dir_of :: "('u \<Rightarrow> string) \<Rightarrow> 'u Block \<Rightarrow> 'u dirMeta" where
  "dir_of name b = \<lparr>dm_dir = name (ULID (bl_meta b)), dm_meta = bl_meta b\<rparr>"

lemma dir_of_simps [simp]: "dm_dir (dir_of name b) = name (ULID (bl_meta b))" "dm_meta (dir_of name b) = bl_meta b"
  by (simp_all add: dir_of_def)

lemma find_block:
  assumes "distinct (map (\<lambda>b. name (ULID (bl_meta b))) bs)" "b \<in> set bs"
  shows "find_block name bs (name (ULID (bl_meta b))) = b"
proof -
  let ?fs = "filter (\<lambda>x. name (ULID (bl_meta x)) = name (ULID (bl_meta b))) bs"
  have "?fs \<noteq> []" "\<forall>x \<in> set ?fs. x = b" using assms by (auto simp: filter_empty_conv distinct_map inj_on_def)
  then show ?thesis unfolding find_block_def by (metis hd_in_set)
qed

lemma plan_blocks:
  assumes "plan_setup srt c (map (dir_of name) bs)"
  shows "\<exists>dirs k. plan heavy srt c (map (dir_of name) bs) = Some dirs \<and> set (map (find_block name bs) dirs) = {b \<in> set bs. name (ULID (bl_meta b)) \<in> set dirs} \<and>
    distinct (map (find_block name bs) dirs) \<and> (\<forall>b \<in> set (map (find_block name bs) dirs). partial_class (bl_meta b) = k) \<and>
    set dirs \<subseteq> (\<lambda>b. name (ULID (bl_meta b))) ` set bs \<and>
    (dirs \<noteq> [] \<longrightarrow> 2 \<le> length dirs \<or> tombstone_sel heavy (map (dir_of name \<circ> find_block name bs) dirs))"
proof -
  obtain sel k where p: "plan heavy srt c (map (dir_of name) bs) = Some (map dm_dir sel)" "set sel \<subseteq> set (of_class k (map (dir_of name) bs))" "distinct (map dm_dir sel)"
    "sel \<noteq> [] \<longrightarrow> overlap_sel (of_class k (map (dir_of name) bs)) sel \<or> range_sel c (of_class k (map (dir_of name) bs)) sel \<or> tombstone_sel heavy sel"
    using plan_ok [OF assms, of heavy] by (metis (no_types))
  have dist: "distinct (map (\<lambda>b. name (ULID (bl_meta b))) bs)" using assms by (simp add: plan_setup_def comp_def)
  have sel: "\<exists>b \<in> set bs. d = dir_of name b \<and> find_block name bs (dm_dir d) = b \<and> partial_class (bl_meta b) = k" if "d \<in> set sel" for d
    using that p(2) find_block [OF dist] by (auto simp: of_class_def)
  let ?f = "find_block name bs"
  have m: "map (dir_of name \<circ> ?f) (map dm_dir sel) = sel" unfolding map_map by (rule map_idI) (use sel in auto)
  have "map (dm_dir \<circ> dir_of name) (map ?f (map dm_dir sel)) = map dm_dir sel" using arg_cong [OF m, of "map dm_dir"] by (simp add: comp_assoc)
  then have "distinct (map ?f (map dm_dir sel))" using p(3) by (metis distinct_map)
  moreover have "set (map ?f (map dm_dir sel)) = {b \<in> set bs. name (ULID (bl_meta b)) \<in> set (map dm_dir sel)}"
    using sel find_block [OF dist] by (auto simp: image_iff) (metis dir_of_simps(1))+
  moreover have "\<forall>b \<in> set (map ?f (map dm_dir sel)). partial_class (bl_meta b) = k" using sel by auto
  moreover have "set (map dm_dir sel) \<subseteq> (\<lambda>b. name (ULID (bl_meta b))) ` set bs" using sel by (auto simp: image_iff) (metis dir_of_simps(1))
  moreover have "sel \<noteq> [] \<longrightarrow> 2 \<le> length sel \<or> tombstone_sel heavy sel" using p(4) by (auto simp: overlap_sel_def range_sel_def)
  ultimately show ?thesis using p(1) m by (intro exI [of _ "map dm_dir sel"] exI [of _ k]) simp
qed

section \<open>The compaction loop\<close>

definition not_excluded :: "'u LeveledCompactor \<Rightarrow> 'u Block \<Rightarrow> bool" where
  "not_excluded c b \<longleftrightarrow> \<not> (case blockExcludeFunc c of Some f \<Rightarrow> f (bl_meta b) | None \<Rightarrow> False)"

lemma read_metas_blocks:
  "read_metas (blockExcludeFunc c) (map (\<lambda>b. (name (ULID (bl_meta b)), Inr (bl_meta b))) bs) = Inr (map (dir_of name) (takeWhile (not_excluded c) bs))"
  by (induction bs) (auto simp: not_excluded_def dir_of_def split: option.splits)

lemma Plan_blocks:
  "Plan heavy srt c (map (\<lambda>b. (name (ULID (bl_meta b)), Inr (bl_meta b))) bs) = map_option Inr (plan heavy srt c (map (dir_of name) (takeWhile (not_excluded c) bs)))"
  by (simp add: Plan_def read_metas_blocks plan_def)

text \<open>What the loop relies on: the sorting functions sort, names and new ULIDs are unique, and zero is not more than five percent of anything.\<close>

definition loop_env :: "'u environment \<Rightarrow> 'u LeveledCompactor \<Rightarrow> bool" where
  "loop_env E c \<longleftrightarrow> sorts (env_sort_dirs E) mint \<and> (\<forall>bs. mset (env_sort_newest E bs) = mset bs) \<and> (\<forall>n. \<not> env_heavy E 0 n) \<and>
     inj (env_name E) \<and> inj (env_uids E) \<and> ranges c \<noteq> [] \<and> (\<forall>r \<in> set (tl (ranges c)). range_ok r)"

definition disk_ok :: "'u environment \<Rightarrow> nat \<Rightarrow> 'u Block list \<Rightarrow> bool" where
  "disk_ok E i disk \<longleftrightarrow> (\<forall>b \<in> set disk. time_ok (bl_meta b)) \<and> distinct (map (\<lambda>b. ULID (bl_meta b)) disk) \<and>
     (\<forall>b \<in> set disk. \<forall>j \<ge> i. ULID (bl_meta b) \<noteq> env_uids E j)"

definition has_tombstones :: "'u Block \<Rightarrow> bool" where
  "has_tombstones b \<longleftrightarrow> 0 < NumTombstones (Stats (bl_meta b))"

definition work :: "'u Block list \<Rightarrow> nat" where
  "work disk = length disk + length (filter has_tombstones disk)"

lemma plan_on_list:
  assumes "loop_env E c" "disk_ok E i disk"
  shows "\<exists>dirs. Plan (env_heavy E) (env_sort_dirs E) c (map (\<lambda>b. (env_name E (ULID (bl_meta b)), Inr (bl_meta b))) disk) = Some (Inr dirs) \<and>
    set dirs \<subseteq> (\<lambda>b. env_name E (ULID (bl_meta b))) ` set disk \<and>
    (let bs = map (find_block (env_name E) disk) dirs in set bs \<subseteq> set disk \<and> distinct bs \<and>
       (dirs \<noteq> [] \<longrightarrow> 2 \<le> length bs \<or> (\<exists>b. bs = [b] \<and> has_tombstones b)))"
proof -
  let ?bs = "takeWhile (not_excluded c) disk" and ?name = "env_name E"
  have sub: "set ?bs \<subseteq> set disk" by (auto dest: set_takeWhileD)
  have dist: "distinct (map (\<lambda>b. ?name (ULID (bl_meta b))) disk)"
    using assms by (auto simp: loop_env_def disk_ok_def distinct_map inj_on_def)
  then have dist': "distinct (map (\<lambda>b. ?name (ULID (bl_meta b))) ?bs)" by (subst takeWhile_eq_take) (simp flip: take_map)
  have ps: "plan_setup (env_sort_dirs E) c (map (dir_of ?name) ?bs)"
    using assms dist' sub by (auto simp: plan_setup_def loop_env_def disk_ok_def comp_def)
  obtain dirs k where d: "plan (env_heavy E) (env_sort_dirs E) c (map (dir_of ?name) ?bs) = Some dirs"
    "set (map (find_block ?name ?bs) dirs) = {b \<in> set ?bs. ?name (ULID (bl_meta b)) \<in> set dirs}" "distinct (map (find_block ?name ?bs) dirs)"
    "dirs \<noteq> [] \<longrightarrow> 2 \<le> length dirs \<or> tombstone_sel (env_heavy E) (map (dir_of ?name \<circ> find_block ?name ?bs) dirs)"
    "set dirs \<subseteq> (\<lambda>b. ?name (ULID (bl_meta b))) ` set ?bs" using plan_blocks [OF ps] by blast
  have same: "map (find_block ?name disk) dirs = map (find_block ?name ?bs) dirs"
  proof (rule map_cong [OF refl])
    fix x assume "x \<in> set dirs"
    then obtain b where "b \<in> set ?bs" "x = ?name (ULID (bl_meta b))" using d(5) by blast
    then show "find_block ?name disk x = find_block ?name ?bs x" using find_block [OF dist] find_block [OF dist'] sub by auto
  qed
  have "2 \<le> length dirs \<or> (\<exists>b. map (find_block ?name ?bs) dirs = [b] \<and> has_tombstones b)" if ne: "dirs \<noteq> []"
  proof (cases "2 \<le> length dirs")
    case False
    then obtain x where x: "dirs = [x]" using ne by (cases dirs rule: remdups_adj.cases) auto
    have "\<not> env_heavy E 0 n" for n using assms(1) by (simp add: loop_env_def)
    then have "has_tombstones (find_block ?name ?bs x)"
      using d(4) False x by (auto simp: tombstone_sel_def has_tombstones_def word_gt_0)
    then show ?thesis using x by simp
  qed simp
  then have "let bs = map (find_block ?name disk) dirs in set bs \<subseteq> set disk \<and> distinct bs \<and> (dirs \<noteq> [] \<longrightarrow> 2 \<le> length bs \<or> (\<exists>b. bs = [b] \<and> has_tombstones b))"
    unfolding Let_def same using d(2,3) sub by auto
  moreover have "set dirs \<subseteq> (\<lambda>b. ?name (ULID (bl_meta b))) ` set disk" using d(5) sub by blast
  ultimately show ?thesis unfolding Plan_blocks using d(1) by auto
qed

lemma plan_on_disk:
  assumes "loop_env E c" "disk_ok E i disk"
  shows "\<exists>dirs. Plan (env_heavy E) (env_sort_dirs E) c (blockDirs (env_name E) disk) = Some (Inr dirs) \<and>
    (let bs = map (find_block (env_name E) disk) dirs in set bs \<subseteq> set disk \<and> distinct bs \<and>
       (dirs \<noteq> [] \<longrightarrow> 2 \<le> length bs \<or> (\<exists>b. bs = [b] \<and> has_tombstones b)))"
proof -
  let ?name = "\<lambda>b. env_name E (ULID (bl_meta b))"
  define sorted where "sorted = sort_key ?name disk"
  have perm: "mset sorted = mset disk" by (simp add: sorted_def)
  then have set: "set sorted = set disk" by (rule mset_eq_setD)
  have "distinct (map (\<lambda>b. ULID (bl_meta b)) sorted)" using assms(2) perm by (metis disk_ok_def mset_eq_imp_distinct_iff mset_map)
  then have ok: "disk_ok E i sorted" using assms(2) by (simp add: disk_ok_def set)
  have dist: "distinct (map ?name disk)" using assms by (auto simp: loop_env_def disk_ok_def distinct_map inj_on_def)
  have dist': "distinct (map ?name sorted)" using dist perm by (metis mset_eq_imp_distinct_iff mset_map)
  obtain dirs where d: "Plan (env_heavy E) (env_sort_dirs E) c (map (\<lambda>b. (?name b, Inr (bl_meta b))) sorted) = Some (Inr dirs)"
    "set dirs \<subseteq> ?name ` set sorted"
    "let bs = map (find_block (env_name E) sorted) dirs in set bs \<subseteq> set sorted \<and> distinct bs \<and> (dirs \<noteq> [] \<longrightarrow> 2 \<le> length bs \<or> (\<exists>b. bs = [b] \<and> has_tombstones b))"
    using plan_on_list [OF assms(1) ok] by blast
  have same: "map (find_block (env_name E) sorted) dirs = map (find_block (env_name E) disk) dirs"
  proof (rule map_cong [OF refl])
    fix x assume "x \<in> set dirs"
    then obtain b where "b \<in> set sorted" "x = ?name b" using d(2) by blast
    then show "find_block (env_name E) sorted x = find_block (env_name E) disk x" using find_block [OF dist] find_block [OF dist'] set by auto
  qed
  have dir: "blockDirs (env_name E) disk = map (\<lambda>b. (?name b, Inr (bl_meta b))) sorted" by (simp add: blockDirs_def sorted_def)
  show ?thesis unfolding dir by (intro exI conjI; rule d(1) d(3) [unfolded same set])
qed

text \<open>One round: the selected blocks are gone, at most one new block is there, and there is less work left.\<close>

lemma reload_deletes:
  assumes "reloadBlocks newest by_time db bs [] = Inr (loaded, deleted)" "\<forall>bs. mset (newest bs) = mset bs"
  shows "b \<in> set bs \<Longrightarrow> Deletable (Compaction (bl_meta b)) \<Longrightarrow> ULID (bl_meta b) \<in> deleted" "b \<in> set bs \<Longrightarrow> bd_ULID ` set (Parents (Compaction (bl_meta b))) \<subseteq> deleted"
proof -
  have m: "set (newest xs) = set xs" for xs using assms(2) by (metis mset_eq_setD)
  have d: "deleted = deletableBlocks newest db bs \<union> parent_ids bs" using assms(1) by (simp add: reloadBlocks_def Let_def)
  show "b \<in> set bs \<Longrightarrow> Deletable (Compaction (bl_meta b)) \<Longrightarrow> ULID (bl_meta b) \<in> deleted" by (auto simp: d deletableBlocks_def Let_def m)
  show "b \<in> set bs \<Longrightarrow> bd_ULID ` set (Parents (Compaction (bl_meta b))) \<subseteq> deleted" by (auto simp: d parent_ids_def)
qed

lemma reload_no_error: "\<exists>loaded deleted. reloadBlocks newest by_time db bs [] = Inr (loaded, deleted)"
  by (simp add: reloadBlocks_def Let_def)

lemma compact_result:
  assumes "CompactWithBlockPopulator populate uid bs = Some (Inr new, bs')" "bs \<noteq> []" "\<forall>b \<in> set bs. time_ok (bl_meta b)"
  shows "(new = [] \<and> bs' = map set_deletable bs) \<or>
    (\<exists>nb. new = [nb] \<and> bs' = bs \<and> ULID (bl_meta nb) = uid \<and> \<not> has_tombstones nb \<and> time_ok (bl_meta nb) \<and>
       map bd_ULID (Parents (Compaction (bl_meta nb))) = map (\<lambda>b. ULID (bl_meta b)) bs)"
proof -
  have "map bl_meta bs \<noteq> []" using assms(2) by simp
  then obtain m where m: "CompactBlockMetas uid (map bl_meta bs) = Some m" "ULID m = uid"
    "sint (MinTime m) = Min ((\<lambda>b. sint (MinTime b)) ` set (map bl_meta bs))" "sint (MaxTime m) = Max ((\<lambda>b. sint (MaxTime b)) ` set (map bl_meta bs))"
    "map bd_ULID (Parents (Compaction m)) = map ULID (map bl_meta bs)" "NumTombstones (Stats m) = 0" by (rule compact_metas [of _ uid])
  have "time_ok m"
  proof -
    obtain b where b: "b \<in> set bs" using assms(2) by (cases bs) auto
    let ?A = "(\<lambda>b. sint (MinTime b)) ` set (map bl_meta bs)" and ?B = "(\<lambda>b. sint (MaxTime b)) ` set (map bl_meta bs)"
    have "Min ?A \<in> ?A" "Max ?B \<in> ?B" using b by (intro Min_in Max_in; auto)+
    then obtain b1 b2 where b12: "b1 \<in> set bs" "Min ?A = sint (MinTime (bl_meta b1))" "b2 \<in> set bs" "Max ?B = sint (MaxTime (bl_meta b2))" by auto
    have "Min ?A \<le> sint (MinTime (bl_meta b))" "sint (MaxTime (bl_meta b)) \<le> Max ?B" using b by auto
    moreover have "time_ok (bl_meta b)" "time_ok (bl_meta b1)" "time_ok (bl_meta b2)" using assms(3) b b12 by blast+
    ultimately show ?thesis unfolding time_ok_def m(3,4) b12(2,4) by linarith
  qed
  then show ?thesis using assms(1) m
    by (auto simp: CompactWithBlockPopulator_def Let_def time_ok_def has_tombstones_def comp_def split: sum.splits if_splits)
qed

lemma length_rest:
  assumes "distinct disk" "distinct bs" "set bs \<subseteq> set disk"
  shows "length (filter (\<lambda>b. b \<notin> set bs) disk) + length bs = length disk"
    "length (filter P (filter (\<lambda>b. b \<notin> set bs) disk)) + length (filter P bs) = length (filter P disk)"
proof -
  have gen: "length (filter Q (filter (\<lambda>b. b \<notin> set bs) disk)) + length (filter Q bs) = length (filter Q disk)" for Q
  proof -
    have "distinct (filter Q disk)" "distinct (filter Q (filter (\<lambda>b. b \<notin> set bs) disk) @ filter Q bs)" using assms by auto
    moreover have "set (filter Q disk) = set (filter Q (filter (\<lambda>b. b \<notin> set bs) disk) @ filter Q bs)" using assms(3) by auto
    ultimately show ?thesis by (metis distinct_card length_append)
  qed
  show "length (filter (\<lambda>b. b \<notin> set bs) disk) + length bs = length disk" using gen [of "\<lambda>_. True"] by simp
  show "length (filter P (filter (\<lambda>b. b \<notin> set bs) disk)) + length (filter P bs) = length (filter P disk)" by (rule gen)
qed

lemma work_filter: "work (filter P bs) \<le> work bs"
proof -
  have "filter has_tombstones (filter P bs) = filter P (filter has_tombstones bs)" by (simp add: conj_commute)
  then show ?thesis by (simp only: work_def add_mono length_filter_le)
qed

lemma round_progress:
  assumes "loop_env E c" "disk_ok E i disk" "set bs \<subseteq> set disk" "distinct bs" "2 \<le> length bs \<or> (\<exists>b. bs = [b] \<and> has_tombstones b)"
    "CompactWithBlockPopulator (env_populate E) (env_uids E i) bs = Some (Inr new, bs')" "rest = filter (\<lambda>b. b \<notin> set bs) disk"
    "reloadBlocks (env_sort_newest E) (env_sort_time E) db (rest @ bs' @ new) [] = Inr (loaded, deleted)"
    "disk' = filter (\<lambda>b. ULID (bl_meta b) \<notin> deleted) (rest @ bs' @ new)"
  shows "work disk' < work disk" "disk_ok E (Suc i) disk'"
proof -
  have ne: "bs \<noteq> []" and t: "\<forall>b \<in> set bs. time_ok (bl_meta b)" and newest: "\<forall>bs. mset (env_sort_newest E bs) = mset bs"
    using assms(1,2,3,5) by (auto simp: disk_ok_def loop_env_def)
  have dist: "distinct disk" using assms(2) by (simp add: disk_ok_def distinct_map)
  note del = reload_deletes [OF assms(8) newest]
  have gone: "ULID (bl_meta b) \<in> deleted" if "b \<in> set bs" for b
    using compact_result [OF assms(6) ne t]
  proof
    assume "new = [] \<and> bs' = map set_deletable bs"
    then have "set_deletable b \<in> set bs'" using that by simp
    then show ?thesis using del(1) [of "set_deletable b"] by (simp add: set_deletable_def)
  next
    assume "\<exists>nb. new = [nb] \<and> bs' = bs \<and> ULID (bl_meta nb) = env_uids E i \<and> \<not> has_tombstones nb \<and> time_ok (bl_meta nb) \<and>
       map bd_ULID (Parents (Compaction (bl_meta nb))) = map (\<lambda>b. ULID (bl_meta b)) bs"
    then obtain nb where "nb \<in> set new" "bd_ULID ` set (Parents (Compaction (bl_meta nb))) = (\<lambda>b. ULID (bl_meta b)) ` set bs" by (metis list.set_intros(1) set_map)
    then show ?thesis using del(2) [of nb] that by auto
  qed
  have same: "(\<lambda>b. ULID (bl_meta b)) ` set bs' = (\<lambda>b. ULID (bl_meta b)) ` set bs"
    using compact_result [OF assms(6) ne t] by (elim disjE exE) (simp_all add: set_deletable_def image_image)
  have "ULID (bl_meta b) \<in> deleted" if "b \<in> set bs'" for b
  proof -
    have "ULID (bl_meta b) \<in> (\<lambda>b. ULID (bl_meta b)) ` set bs" using that unfolding same [symmetric] by (rule imageI)
    then show ?thesis using gone by auto
  qed
  then have "filter (\<lambda>b. ULID (bl_meta b) \<notin> deleted) bs' = []" by (simp add: filter_empty_conv)
  then have d: "disk' = filter (\<lambda>b. ULID (bl_meta b) \<notin> deleted) (rest @ new)" by (simp add: assms(9))
  have new: "length new \<le> 1" "\<forall>b \<in> set new. \<not> has_tombstones b \<and> time_ok (bl_meta b) \<and> ULID (bl_meta b) = env_uids E i"
    using compact_result [OF assms(6) ne t] by auto
  note len = length_rest [OF dist assms(4,3), folded assms(7)]
  have "work disk' \<le> work (rest @ new)" unfolding d by (rule work_filter)
  also have "work (rest @ new) \<le> length rest + 1 + length (filter has_tombstones rest)" using new by (simp add: work_def filter_False)
  also have "\<dots> < work disk" using len(1) len(2) [of has_tombstones] assms(5) by (auto simp: work_def)
  finally show "work disk' < work disk" .
  have "distinct (map (\<lambda>b. ULID (bl_meta b)) (rest @ new))"
  proof -
    have "distinct (map (\<lambda>b. ULID (bl_meta b)) rest)" using assms(2,7) by (simp add: disk_ok_def distinct_map_filter)
    moreover have "distinct (map (\<lambda>b. ULID (bl_meta b)) new)" using new(1) by (cases new rule: remdups_adj.cases) auto
    moreover have "ULID (bl_meta b) \<noteq> env_uids E i" if "b \<in> set rest" for b using that assms(2,7) by (auto simp: disk_ok_def)
    ultimately show ?thesis using new(2) by auto
  qed
  moreover have "\<forall>b \<in> set (rest @ new). time_ok (bl_meta b) \<and> (\<forall>j \<ge> Suc i. ULID (bl_meta b) \<noteq> env_uids E j)"
  proof
    fix b assume "b \<in> set (rest @ new)"
    then consider "b \<in> set disk" | "b \<in> set new" using assms(7) by auto
    then show "time_ok (bl_meta b) \<and> (\<forall>j \<ge> Suc i. ULID (bl_meta b) \<noteq> env_uids E j)"
      using assms(2) new(2) assms(1) by cases (auto simp: disk_ok_def loop_env_def dest: injD)
  qed
  ultimately show "disk_ok E (Suc i) disk'" unfolding d disk_ok_def by (auto simp: distinct_map_filter)
qed

lemma compact_loop:
  assumes "loop_env E c" "disk_ok E i disk"
  shows "\<exists>err disk'. compactBlocks E c db i disk = Some (err, disk') \<and>
    (err = None \<longrightarrow> Plan (env_heavy E) (env_sort_dirs E) c (blockDirs (env_name E) disk') = Some (Inr []))"
  using assms(2)
proof (induction "work disk" arbitrary: i disk rule: less_induct)
  case less
  obtain dirs where p: "Plan (env_heavy E) (env_sort_dirs E) c (blockDirs (env_name E) disk) = Some (Inr dirs)"
    "let bs = map (find_block (env_name E) disk) dirs in set bs \<subseteq> set disk \<and> distinct bs \<and> (dirs \<noteq> [] \<longrightarrow> 2 \<le> length bs \<or> (\<exists>b. bs = [b] \<and> has_tombstones b))"
    using plan_on_disk [OF assms(1) less.prems] by blast
  define bs where "bs = map (find_block (env_name E) disk) dirs"
  define rest where "rest = filter (\<lambda>b. b \<notin> set bs) disk"
  show ?case
  proof (cases "dirs = []")
    case True
    then show ?thesis using p(1) by (simp add: compactBlocks.simps [of E c db i disk])
  next
    case False
    have bs: "set bs \<subseteq> set disk" "distinct bs" "2 \<le> length bs \<or> (\<exists>b. bs = [b] \<and> has_tombstones b)" using p(2) False by (auto simp: bs_def Let_def)
    have "map bl_meta bs \<noteq> []" using False by (simp add: bs_def)
    then obtain m where "CompactBlockMetas (env_uids E i) (map bl_meta bs) = Some m" by (rule compact_metas [of _ "env_uids E i"])
    then obtain res bs' where r: "CompactWithBlockPopulator (env_populate E) (env_uids E i) bs = Some (res, bs')"
      by (cases "CompactWithBlockPopulator (env_populate E) (env_uids E i) bs") (auto simp: CompactWithBlockPopulator_def)
    show ?thesis
    proof (cases res)
      case (Inl e)
      then have "compactBlocks E c db i disk = Some (Some [e], rest @ bs')"
        unfolding compactBlocks.simps [of E c db i disk] p(1) using False r by (simp add: bs_def rest_def)
      then show ?thesis by simp
    next
      case (Inr new)
      obtain loaded deleted where l: "reloadBlocks (env_sort_newest E) (env_sort_time E) db (rest @ bs' @ new) [] = Inr (loaded, deleted)" using reload_no_error by blast
      define disk' where "disk' = filter (\<lambda>b. ULID (bl_meta b) \<notin> deleted) (rest @ bs' @ new)"
      note step = round_progress [OF assms(1) less.prems bs r [unfolded Inr] rest_def l disk'_def]
      have "compactBlocks E c db i disk = compactBlocks E c db (Suc i) disk'"
        unfolding compactBlocks.simps [of E c db i disk] p(1) using False r l Inr by (simp add: bs_def rest_def disk'_def Let_def)
      then show ?thesis using less.hyps [OF step] by simp
    qed
  qed
qed

end
