(* ===== verification/BlocksProps.thy ===== *)
theory BlocksProps
  imports BlocksCompact
begin

text \<open>
  What holds of blocks and their compaction: the properties that clients of \<open>tsdb/compact.go\<close> and of the reload in \<open>tsdb/db.go\<close>
  rely on.
\<close>

section \<open>Retention\<close>

lemma sint_diff_times:
  assumes "time_ok m" "time_ok m'"
  shows "sint (MaxTime m - MaxTime m') = sint (MaxTime m) - sint (MaxTime m')"
proof -
  have "MaxTime m - MaxTime m' = word_of_int (sint (MaxTime m) - sint (MaxTime m'))" by simp
  moreover have "- (2 ^ 63) \<le> sint (MaxTime m) - sint (MaxTime m')" "sint (MaxTime m) - sint (MaxTime m') < 2 ^ 63" using assms by (auto simp: time_ok_def)
  ultimately show ?thesis by (simp only: sint_word_of_int_range)
qed

definition newest_key :: "'u Block \<Rightarrow> int" where
  "newest_key b = - sint (MaxTime (bl_meta b))"

lemma time_scan_set:
  assumes "sorted (map newest_key bs)" "\<forall>b \<in> set bs. sint (n - MaxTime (bl_meta b)) = sint n - sint (MaxTime (bl_meta b))"
  shows "set (time_scan n r bs) = {b \<in> set bs. sint r \<le> sint n - sint (MaxTime (bl_meta b))}"
  using assms by (induction bs) (auto simp: word_sle_eq newest_key_def)

lemma time_retention:
  assumes "sorts newest_first newest_key" "\<forall>b \<in> set blocks. time_ok (bl_meta b)" "0 < sint (db_RetentionDuration db)"
  shows "BeyondTimeRetention db (newest_first blocks) =
    (\<lambda>b. ULID (bl_meta b)) ` {b \<in> set blocks. \<exists>n \<in> set blocks. sint (db_RetentionDuration db) \<le> sint (MaxTime (bl_meta n)) - sint (MaxTime (bl_meta b))}"
proof (cases "blocks = []")
  case True
  then show ?thesis using sortsD(3) [OF assms(1), of "[]"] by (simp add: BeyondTimeRetention_def)
next
  case False
  note s = sortsD [OF assms(1), where xs = blocks]
  obtain n bs where nb: "newest_first blocks = n # bs" using s(3) False by (cases "newest_first blocks") auto
  have set: "set blocks = insert n (set bs)" using s(2) nb by simp
  have ok: "time_ok (bl_meta b)" if "b \<in> set (n # bs)" for b using that assms(2) set by auto
  have top: "sint (MaxTime (bl_meta b)) \<le> sint (MaxTime (bl_meta n))" if "b \<in> set (n # bs)" for b using that s(4) nb by (auto simp: newest_key_def)
  have "set (time_scan (MaxTime (bl_meta n)) (db_RetentionDuration db) bs) = {b \<in> set bs. sint (db_RetentionDuration db) \<le> sint (MaxTime (bl_meta n)) - sint (MaxTime (bl_meta b))}"
    by (rule time_scan_set) (use s(4) nb sint_diff_times [OF ok ok] in auto)
  also have "\<dots> = {b \<in> set blocks. \<exists>n \<in> set blocks. sint (db_RetentionDuration db) \<le> sint (MaxTime (bl_meta n)) - sint (MaxTime (bl_meta b))}"
    using top assms(3) by (fastforce simp: set)
  finally show ?thesis using assms(3) by (auto simp: BeyondTimeRetention_def nb)
qed

definition total_size :: "'u Block list \<Rightarrow> int" where
  "total_size bs = sum_list (map (\<lambda>b. sint (bl_Size b)) bs)"

lemma total_size_simps [simp]: "total_size [] = 0" "total_size (b # bs) = sint (bl_Size b) + total_size bs" "total_size (bs @ cs) = total_size bs + total_size cs"
  by (simp_all add: total_size_def)

lemma total_size_filter: "\<forall>b \<in> set bs. 0 \<le> sint (bl_Size b) \<Longrightarrow> 0 \<le> total_size (filter P bs) \<and> total_size (filter P bs) \<le> total_size bs"
  by (induction bs) auto

lemma size_scan_split:
  assumes "0 \<le> sint s" "\<forall>b \<in> set bs. 0 \<le> sint (bl_Size b)" "sint s + total_size bs < 2 ^ 63"
  shows "\<exists>keep. bs = keep @ size_scan limit s bs \<and> (keep = [] \<or> sint s + total_size keep \<le> sint limit) \<and>
    (size_scan limit s bs = [] \<or> sint limit < sint s + total_size keep + sint (bl_Size (hd (size_scan limit s bs))))"
  using assms
proof (induction bs arbitrary: s)
  case (Cons b bs)
  have pos: "0 \<le> total_size bs" using Cons.prems(2) total_size_filter [of bs "\<lambda>_. True"] by simp
  have "s + bl_Size b = word_of_int (sint s + sint (bl_Size b))" by simp
  moreover have "- (2 ^ 63) \<le> sint s + sint (bl_Size b)" "sint s + sint (bl_Size b) < 2 ^ 63" using Cons.prems pos by auto
  ultimately have a: "sint (s + bl_Size b) = sint s + sint (bl_Size b)" by (simp only: sint_word_of_int_range)
  show ?case
  proof (cases "limit <s s + bl_Size b")
    case True
    then show ?thesis using a by (intro exI [of _ "[]"]) (simp add: word_sless_alt)
  next
    case False
    have "\<exists>keep. bs = keep @ size_scan limit (s + bl_Size b) bs \<and> (keep = [] \<or> sint (s + bl_Size b) + total_size keep \<le> sint limit) \<and>
      (size_scan limit (s + bl_Size b) bs = [] \<or> sint limit < sint (s + bl_Size b) + total_size keep + sint (bl_Size (hd (size_scan limit (s + bl_Size b) bs))))"
      by (rule Cons.IH) (use Cons.prems a in auto)
    then obtain keep where k: "bs = keep @ size_scan limit (s + bl_Size b) bs" "keep = [] \<or> sint (s + bl_Size b) + total_size keep \<le> sint limit"
      "size_scan limit (s + bl_Size b) bs = [] \<or> sint limit < sint (s + bl_Size b) + total_size keep + sint (bl_Size (hd (size_scan limit (s + bl_Size b) bs)))" by blast
    have "size_scan limit s (b # bs) = size_scan limit (s + bl_Size b) bs" "sint (s + bl_Size b) \<le> sint limit" using False by (simp_all add: word_sless_alt)
    then show ?thesis using k a by (intro exI [of _ "b # keep"]) auto
  qed
qed simp

lemma size_kept:
  assumes "sorts newest_first newest_key" "\<forall>b \<in> set blocks. time_ok (bl_meta b) \<and> 0 \<le> sint (bl_Size b)"
    and "0 < sint (db_RetentionDuration db)" "0 < sint (size_limit db)" "0 \<le> sint (db_headSize db)" "sint (db_headSize db) + total_size blocks < 2 ^ 63"
  shows "\<exists>keep del. newest_first blocks = keep @ del \<and> (keep = [] \<or> sint (db_headSize db) + total_size keep \<le> sint (size_limit db)) \<and>
    (del = [] \<or> sint (size_limit db) < sint (db_headSize db) + total_size keep + sint (bl_Size (hd del))) \<and>
    deletableBlocks newest_first db blocks = (\<lambda>b. ULID (bl_meta b)) ` ({b \<in> set blocks. Deletable (Compaction (bl_meta b))} \<union>
      {b \<in> set blocks. \<exists>n \<in> set blocks. sint (db_RetentionDuration db) \<le> sint (MaxTime (bl_meta n)) - sint (MaxTime (bl_meta b))} \<union> set del)"
proof -
  note s = sortsD [OF assms(1), where xs = blocks]
  have tot: "total_size (newest_first blocks) = total_size blocks" unfolding total_size_def sum_mset_sum_list [symmetric] mset_map s(1) ..
  let ?del = "size_scan (size_limit db) (db_headSize db) (newest_first blocks)"
  obtain keep where k: "newest_first blocks = keep @ ?del" "keep = [] \<or> sint (db_headSize db) + total_size keep \<le> sint (size_limit db)"
    "?del = [] \<or> sint (size_limit db) < sint (db_headSize db) + total_size keep + sint (bl_Size (hd ?del))"
    using size_scan_split [of "db_headSize db" "newest_first blocks" "size_limit db"] assms(2,5,6) s(2) tot by auto
  have size: "BeyondSizeRetention db (newest_first blocks) = (\<lambda>b. ULID (bl_meta b)) ` set ?del"
    using assms(4) by (auto simp: BeyondSizeRetention_def word_sle_eq)
  have time: "BeyondTimeRetention db (newest_first blocks) =
      (\<lambda>b. ULID (bl_meta b)) ` {b \<in> set blocks. \<exists>n \<in> set blocks. sint (db_RetentionDuration db) \<le> sint (MaxTime (bl_meta n)) - sint (MaxTime (bl_meta b))}"
    by (rule time_retention [OF assms(1) _ assms(3)]) (use assms(2) in blast)
  have "deletableBlocks newest_first db blocks = (\<lambda>b. ULID (bl_meta b)) ` ({b \<in> set blocks. Deletable (Compaction (bl_meta b))} \<union>
      {b \<in> set blocks. \<exists>n \<in> set blocks. sint (db_RetentionDuration db) \<le> sint (MaxTime (bl_meta n)) - sint (MaxTime (bl_meta b))} \<union> set ?del)"
    unfolding deletableBlocks_def Let_def size time image_Un by (simp add: s(2))
  then show ?thesis using k by (intro exI [of _ keep] exI [of _ ?del]) simp
qed

section \<open>Properties\<close>

text \<open>
  C32. Splitting blocks by a range keeps exactly the blocks that lie within the aligned range of their start, in their order,
  and every group lies within one aligned range: it starts at a multiple of the range, also for times before zero.
\<close>

theorem split_by_range_aligned:
  assumes "range_ok tr" "\<forall>d \<in> set ds. time_ok (dm_meta d)" "sorted (map (\<lambda>d. sint (MinTime (dm_meta d))) ds)"
  shows "\<exists>groups. splitByRange ds tr = Some groups \<and>
    concat groups = filter (\<lambda>d. sint (MaxTime (dm_meta d)) \<le> sint tr * (sint (MinTime (dm_meta d)) div sint tr) + sint tr) ds \<and>
    (\<forall>g \<in> set groups. g \<noteq> [] \<and> (\<exists>k. \<forall>d \<in> set g. sint tr * k \<le> sint (MinTime (dm_meta d)) \<and> sint (MaxTime (dm_meta d)) \<le> sint tr * k + sint tr))"
  using split_by_range [OF assms] unfolding fits_range_def [abs_def] in_window_def .

text \<open>A block for the examples.\<close>

definition example_meta :: "nat \<Rightarrow> int64 \<Rightarrow> int64 \<Rightarrow> string list \<Rightarrow> nat BlockMeta" where
  "example_meta u t0 t1 hints = \<lparr>ULID = u, MinTime = t0, MaxTime = t1, Stats = empty_stats,
    Compaction = \<lparr>Level = 1, Sources = [u], Deletable = False, Parents = [], Failed = False, Hints = hints\<rparr>, Version = 1\<rparr>"

definition example_dir :: "nat BlockMeta \<Rightarrow> nat dirMeta" where
  "example_dir m = \<lparr>dm_dir = replicate (ULID m) CHR ''b'', dm_meta = m\<rparr>"

lemma example_simps [simp]:
  "ULID (example_meta u t0 t1 h) = u" "MinTime (example_meta u t0 t1 h) = t0" "MaxTime (example_meta u t0 t1 h) = t1" "Hints (Compaction (example_meta u t0 t1 h)) = h"
  "\<not> Failed (Compaction (example_meta u t0 t1 h))" "dm_meta (example_dir m) = m" "dm_dir (example_dir m) = replicate (ULID m) CHR ''b''"
  by (simp_all add: example_meta_def example_dir_def)

theorem split_by_range_aligned_witness:
  "\<exists>groups. splitByRange [example_dir (example_meta 1 (-30) (-10) []), example_dir (example_meta 2 0 10 []), example_dir (example_meta 3 10 20 []), example_dir (example_meta 4 50 60 [])] 30 = Some groups \<and>
    concat groups = [example_dir (example_meta 1 (-30) (-10) []), example_dir (example_meta 2 0 10 []), example_dir (example_meta 3 10 20 []), example_dir (example_meta 4 50 60 [])]"
proof -
  let ?ds = "[example_dir (example_meta 1 (-30) (-10) []), example_dir (example_meta 2 0 10 []), example_dir (example_meta 3 10 20 []), example_dir (example_meta 4 50 60 [])]"
  have t: "sint (- 30 :: int64) = - 30" "sint (- 10 :: int64) = - 10" by code_simp+
  have r: "range_ok 30" by (simp add: range_ok_def)
  from split_by_range_aligned [OF this, of ?ds] show ?thesis using t by (auto simp: time_ok_def)
qed

text \<open>
  C30. The planner always returns a plan, of directories that exist, and it selects blocks for one of three reasons. Either it is
  a run of overlapping blocks: each of them but the first starts before an earlier one ends, and no other block of their class overlaps any
  of them. Or there are at least two of them within one aligned range of the configured ones, none of which has failed, and the newest
  block of the class is not among them. Or it is a single block, for its tombstones. And the plan is empty only when nothing is
  due in any class: no blocks overlap, if they may be compacted then; no part of the blocks but the newest, split at any of the
  ranges, has two or more blocks and is complete; and none of them has too many tombstones.
\<close>

theorem plan_reasons:
  assumes "plan_setup srt c dms"
  shows "\<exists>sel k. plan heavy srt c dms = Some (map dm_dir sel) \<and> set sel \<subseteq> set (of_class k dms) \<and> distinct (map dm_dir sel) \<and>
    (if sel = [] then \<forall>k. nothing_due heavy c (srt (of_class k dms))
     else overlap_sel (of_class k dms) sel \<or> range_sel c (of_class k dms) sel \<or> tombstone_sel heavy sel)"
  by (rule plan_ok [OF assms])

lemma sorts_sort_key: "sorts (sort_key key) key"
  by (simp add: sorts_def)

definition example_compactor :: "nat LeveledCompactor" where
  "example_compactor = \<lparr>ranges = [10, 30], enableOverlappingCompaction = True, blockExcludeFunc = None\<rparr>"

definition example_dirs :: "nat dirMeta list" where
  "example_dirs = [example_dir (example_meta 1 0 10 []), example_dir (example_meta 2 10 20 []), example_dir (example_meta 3 20 30 []), example_dir (example_meta 4 30 40 [])]"

lemma example_setup: "plan_setup (sort_key mint) example_compactor example_dirs"
  by (simp add: plan_setup_def sorts_sort_key example_compactor_def example_dirs_def range_ok_def time_ok_def numeral_eq_Suc)

text \<open>
  C7. Hints survive compaction: the blocks that the planner puts together are all partial views of the head or none of them is. So the
  compacted block is marked as a partial view exactly when all of its sources are, and it is when any of them is;
  likewise it is marked as made of stale series when all of its sources are. It covers the time ranges of its sources, lists them as
  its parents, and its sources are theirs.
\<close>

theorem compaction_keeps_hints:
  assumes "plan_setup srt c dms" "plan heavy srt c dms = Some dirs" "dirs \<noteq> []"
  shows "\<exists>sel m. dirs = map dm_dir sel \<and> set sel \<subseteq> set dms \<and> CompactBlockMetas uid (map dm_meta sel) = Some m \<and>
    ((FromStaleSeries (Compaction m) \<or> FromSelectedSeries (Compaction m)) \<longleftrightarrow> (\<forall>d \<in> set sel. FromStaleSeries (Compaction (dm_meta d)) \<or> FromSelectedSeries (Compaction (dm_meta d)))) \<and>
    ((FromStaleSeries (Compaction m) \<or> FromSelectedSeries (Compaction m)) \<longleftrightarrow> (\<exists>d \<in> set sel. FromStaleSeries (Compaction (dm_meta d)) \<or> FromSelectedSeries (Compaction (dm_meta d)))) \<and>
    (FromStaleSeries (Compaction m) \<longleftrightarrow> (\<forall>d \<in> set sel. FromStaleSeries (Compaction (dm_meta d)))) \<and>
    (\<forall>d \<in> set sel. MinTime m \<le>s MinTime (dm_meta d) \<and> MaxTime (dm_meta d) \<le>s MaxTime m) \<and>
    map bd_ULID (Parents (Compaction m)) = map (\<lambda>d. ULID (dm_meta d)) sel \<and>
    Sources (Compaction m) = sorted_list_of_set (\<Union>d \<in> set sel. set (Sources (Compaction (dm_meta d))))"
proof -
  obtain sel k where p: "dirs = map dm_dir sel" "set sel \<subseteq> set (of_class k dms)" using plan_ok [OF assms(1), of heavy] assms(2) by auto
  then have ne: "map dm_meta sel \<noteq> []" using assms(3) by simp
  then obtain m where m: "CompactBlockMetas uid (map dm_meta sel) = Some m"
    "sint (MinTime m) = Min ((\<lambda>b. sint (MinTime b)) ` set (map dm_meta sel))" "sint (MaxTime m) = Max ((\<lambda>b. sint (MaxTime b)) ` set (map dm_meta sel))"
    "FromStaleSeries (Compaction m) \<longleftrightarrow> (\<exists>b \<in> set (map dm_meta sel). FromStaleSeries (Compaction b))"
    "FromSelectedSeries (Compaction m) \<longleftrightarrow> (\<exists>b \<in> set (map dm_meta sel). FromSelectedSeries (Compaction b))"
    "map bd_ULID (Parents (Compaction m)) = map ULID (map dm_meta sel)"
    "Sources (Compaction m) = sorted_list_of_set (\<Union>b \<in> set (map dm_meta sel). set (Sources (Compaction b)))"
    by (rule compact_metas [of _ uid])
  have k: "partial_class (dm_meta d) = k" if "d \<in> set sel" for d using that p(2) by (auto simp: of_class_def)
  have cl: "FromStaleSeries (Compaction (dm_meta d)) \<longleftrightarrow> k = 1" "FromStaleSeries (Compaction (dm_meta d)) \<or> FromSelectedSeries (Compaction (dm_meta d)) \<longleftrightarrow> k \<noteq> 0"
    if "d \<in> set sel" for d using k [OF that] by (auto simp: partial_class_def split: if_splits)
  obtain d0 where d0: "d0 \<in> set sel" using ne by (cases sel) auto
  have all: "(\<exists>d \<in> set sel. FromStaleSeries (Compaction (dm_meta d)) \<or> FromSelectedSeries (Compaction (dm_meta d))) \<longleftrightarrow> k \<noteq> 0"
      "(\<forall>d \<in> set sel. FromStaleSeries (Compaction (dm_meta d)) \<or> FromSelectedSeries (Compaction (dm_meta d))) \<longleftrightarrow> k \<noteq> 0"
      "(\<forall>d \<in> set sel. FromStaleSeries (Compaction (dm_meta d))) \<longleftrightarrow> k = 1" "(\<exists>d \<in> set sel. FromStaleSeries (Compaction (dm_meta d))) \<longleftrightarrow> k = 1" using cl d0 by blast+
  have h: "FromStaleSeries (Compaction m) \<longleftrightarrow> k = 1" "FromStaleSeries (Compaction m) \<or> FromSelectedSeries (Compaction m) \<longleftrightarrow> k \<noteq> 0"
    using m(4,5) all by auto
  have t: "\<forall>d \<in> set sel. MinTime m \<le>s MinTime (dm_meta d) \<and> MaxTime (dm_meta d) \<le>s MaxTime m" by (simp add: word_sle_eq m(2,3))
  have sub: "set sel \<subseteq> set dms" using p(2) by (auto simp: of_class_def)
  show ?thesis unfolding all by (intro exI [of _ sel] exI [of _ m]) (use p(1) sub m(1,6,7) h t all in \<open>simp add: comp_def\<close>)
qed

lemma example_plan: "plan (\<lambda>_ _. False) (sort_key mint) example_compactor example_dirs = Some [''b'', ''bb'', ''bbb'']"
proof -
  have "of_class 0 example_dirs = example_dirs" "of_class 1 example_dirs = []" "of_class 2 example_dirs = []"
    by (simp_all add: of_class_def example_dirs_def partial_class_def FromStaleSeries_def FromSelectedSeries_def)
  then have "plan (\<lambda>_ _. False) (sort_key mint) example_compactor example_dirs = planClass (\<lambda>_ _. False) (sort_key mint) example_compactor example_dirs"
    by (simp add: plan_eq example_dirs_def)
  moreover have "sort_key mint example_dirs = example_dirs" by (simp add: example_dirs_def)
  moreover have "selectOverlappingDirs example_compactor example_dirs = []"
    by (simp add: selectOverlappingDirs_def example_compactor_def example_dirs_def word_sless_alt)
  moreover have "selectDirs example_compactor (butlast example_dirs) = Some (take 3 example_dirs)"
    by (simp add: selectDirs_def example_compactor_def example_dirs_def word_sless_alt range_start_def quot64_def word_sle_eq Let_def pick_part_def)
  ultimately show ?thesis by (simp add: planClass_def) (simp add: example_dirs_def numeral_eq_Suc)
qed

theorem plan_reasons_witness:
  "\<exists>sel k. map dm_dir sel = [''b'', ''bb'', ''bbb''] \<and> set sel \<subseteq> set (of_class k example_dirs) \<and>
    (overlap_sel (of_class k example_dirs) sel \<or> range_sel example_compactor (of_class k example_dirs) sel \<or> tombstone_sel (\<lambda>_ _. False) sel)"
proof -
  obtain sel k where "plan (\<lambda>_ _. False) (sort_key mint) example_compactor example_dirs = Some (map dm_dir sel)" "set sel \<subseteq> set (of_class k example_dirs)"
    "if sel = [] then \<forall>k. nothing_due (\<lambda>_ _. False) example_compactor (sort_key mint (of_class k example_dirs))
     else overlap_sel (of_class k example_dirs) sel \<or> range_sel example_compactor (of_class k example_dirs) sel \<or> tombstone_sel (\<lambda>_ _. False) sel"
    using plan_reasons [OF example_setup, of "\<lambda>_ _. False"] by blast
  then show ?thesis unfolding example_plan by (intro exI [of _ sel] exI [of _ k]) auto
qed

theorem compaction_keeps_hints_witness:
  "\<exists>sel m. [''b'', ''bb'', ''bbb''] = map dm_dir sel \<and> set sel \<subseteq> set example_dirs \<and> CompactBlockMetas 9 (map dm_meta sel) = Some m \<and>
    map bd_ULID (Parents (Compaction m)) = map (\<lambda>d. ULID (dm_meta d)) sel"
proof -
  have "[''b'', ''bb'', ''bbb''] \<noteq> []" by simp
  from compaction_keeps_hints [OF example_setup example_plan this, of 9] show ?thesis by (elim exE conjE, intro exI conjI)
qed

lemma Max_insert_Max: "finite A \<Longrightarrow> A \<noteq> {} \<Longrightarrow> finite R \<Longrightarrow> Max (insert t (insert (Max A) R)) = Max (insert t (R \<union> A))" for A :: "int set"
  by (cases "R = {}") (simp_all add: Max_Un max.commute max.left_commute)

text \<open>
  When none of the blocks comes from out-of-order data, a compaction does not move the time up to which in-order data is known to be
  in blocks, from which the head truncates its log: replacing the planned blocks by the compacted one leaves it as it was.
\<close>

theorem compaction_keeps_in_order_max:
  assumes "plan_setup srt c (map (dir_of name) bs)" "\<forall>b \<in> set bs. \<not> FromOutOfOrder (Compaction (bl_meta b))"
    and "plan heavy srt c (map (dir_of name) bs) = Some dirs" "dirs \<noteq> []" "CompactBlockMetas uid (map bl_meta (map (find_block name bs) dirs)) = Some m"
  shows "inOrderBlocksMaxTime (filter (\<lambda>b. name (ULID (bl_meta b)) \<notin> set dirs) bs @ [\<lparr>bl_meta = m, bl_Size = sz\<rparr>]) = inOrderBlocksMaxTime bs"
proof -
  let ?sel = "map (find_block name bs) dirs" and ?t = "\<lambda>b. sint (MaxTime (bl_meta b))"
  obtain dirs' k where "plan heavy srt c (map (dir_of name) bs) = Some dirs'" "set (map (find_block name bs) dirs') = {b \<in> set bs. name (ULID (bl_meta b)) \<in> set dirs'}"
    "\<forall>b \<in> set (map (find_block name bs) dirs'). partial_class (bl_meta b) = k" using plan_blocks [OF assms(1), of heavy] by blast
  moreover from this have "dirs' = dirs" using assms(3) by simp
  ultimately have k: "set ?sel = {b \<in> set bs. name (ULID (bl_meta b)) \<in> set dirs}" "\<forall>b \<in> set ?sel. partial_class (bl_meta b) = k" by simp_all
  have "map bl_meta ?sel \<noteq> []" using assms(4) by simp
  then obtain m' where "CompactBlockMetas uid (map bl_meta ?sel) = Some m'" "sint (MaxTime m') = Max ((\<lambda>b. sint (MaxTime b)) ` set (map bl_meta ?sel))"
    "FromStaleSeries (Compaction m') \<longleftrightarrow> (\<exists>b \<in> set (map bl_meta ?sel). FromStaleSeries (Compaction b))"
    "FromSelectedSeries (Compaction m') \<longleftrightarrow> (\<exists>b \<in> set (map bl_meta ?sel). FromSelectedSeries (Compaction b))"
    "FromOutOfOrder (Compaction m') \<longleftrightarrow> (\<forall>b \<in> set (map bl_meta ?sel). FromOutOfOrder (Compaction b))" by (rule compact_metas [of _ uid])
  then have m: "sint (MaxTime m) = Max (?t ` set ?sel)" "FromStaleSeries (Compaction m) \<longleftrightarrow> (\<exists>b \<in> set ?sel. FromStaleSeries (Compaction (bl_meta b)))"
    "FromSelectedSeries (Compaction m) \<longleftrightarrow> (\<exists>b \<in> set ?sel. FromSelectedSeries (Compaction (bl_meta b)))"
    "FromOutOfOrder (Compaction m) \<longleftrightarrow> (\<forall>b \<in> set ?sel. FromOutOfOrder (Compaction (bl_meta b)))" using assms(5) by (simp_all add: image_image)
  obtain b0 where b0: "b0 \<in> set ?sel" using assms(4) by (cases dirs) auto
  have io: "in_order (bl_meta b) \<longleftrightarrow> k = 0" if "b \<in> set ?sel" for b
    using that assms(2) k by (auto simp: in_order_def partial_class_def split: if_splits)
  have cl: "FromStaleSeries (Compaction (bl_meta b)) \<or> FromSelectedSeries (Compaction (bl_meta b)) \<longleftrightarrow> k \<noteq> 0" if "b \<in> set ?sel" for b
    using that k(2) by (auto simp: partial_class_def split: if_splits)
  have "\<not> FromOutOfOrder (Compaction m)" using m(4) b0 assms(2) k(1) by blast
  moreover have "FromStaleSeries (Compaction m) \<or> FromSelectedSeries (Compaction m) \<longleftrightarrow> k \<noteq> 0" using m(2,3) cl b0 by blast
  ultimately have iom: "in_order m \<longleftrightarrow> k = 0" by (auto simp: in_order_def)
  let ?rest = "filter (\<lambda>b. name (ULID (bl_meta b)) \<notin> set dirs) bs"
  let ?R = "?t ` {b \<in> set ?rest. in_order (bl_meta b)}" and ?S = "?t ` {b \<in> set ?sel. in_order (bl_meta b)}"
  have split: "{b \<in> set bs. in_order (bl_meta b)} = {b \<in> set ?rest. in_order (bl_meta b)} \<union> {b \<in> set ?sel. in_order (bl_meta b)}" using k(1) by auto
  have big: "sint MinInt64 < ?t b" if "b \<in> set bs" for b
  proof -
    have "time_ok (bl_meta b)" using that assms(1) by (auto simp: plan_setup_def)
    moreover have "sint MinInt64 = - (2 ^ 63)" by (simp add: MinInt64_def)
    ultimately show ?thesis by (auto simp: time_ok_def)
  qed
  show ?thesis
  proof (cases "k = 0")
    case True
    have S: "?S = ?t ` set ?sel" using io True by auto
    have nb: "{b \<in> set (?rest @ [\<lparr>bl_meta = m, bl_Size = sz\<rparr>]). in_order (bl_meta b)} = insert \<lparr>bl_meta = m, bl_Size = sz\<rparr> {b \<in> set ?rest. in_order (bl_meta b)}"
      using iom True by auto
    have fin: "finite (?t ` set ?sel)" "?t ` set ?sel \<noteq> {}" "finite ?R" using b0 by auto
    show ?thesis
    proof (rule in_order_max_cong)
      show "?t ` {b \<in> set (?rest @ [\<lparr>bl_meta = m, bl_Size = sz\<rparr>]). in_order (bl_meta b)} = insert (Max (?t ` set ?sel)) ?R"
        unfolding nb image_insert m(1) [symmetric] by simp
      show "?t ` {b \<in> set bs. in_order (bl_meta b)} = ?R \<union> ?t ` set ?sel" unfolding split image_Un S ..
      show "Max (insert (sint MinInt64) (insert (Max (?t ` set ?sel)) ?R)) = Max (insert (sint MinInt64) (?R \<union> ?t ` set ?sel))"
        by (rule Max_insert_Max [OF fin])
      show "(insert (Max (?t ` set ?sel)) ?R = {}) = (?R \<union> ?t ` set ?sel = {})" using fin(2) by auto
      show "\<forall>x \<in> insert (Max (?t ` set ?sel)) ?R \<union> (?R \<union> ?t ` set ?sel). sint MinInt64 < x"
        using big k(1) Max_in [OF fin(1,2)] by fastforce
    qed
  next
    case False
    then have "?t ` {b \<in> set (?rest @ [\<lparr>bl_meta = m, bl_Size = sz\<rparr>]). in_order (bl_meta b)} = ?t ` {b \<in> set bs. in_order (bl_meta b)}"
      using iom io unfolding split by auto
    then show ?thesis by (rule in_order_max_cong [OF _ refl]) (use big in auto)
  qed
qed

definition example_blocks :: "nat Block list" where
  "example_blocks = map (\<lambda>m. \<lparr>bl_meta = m, bl_Size = 5\<rparr>) [example_meta 1 0 10 [], example_meta 2 10 20 [], example_meta 3 20 30 [], example_meta 4 30 40 []]"

definition example_name :: "nat \<Rightarrow> string" where
  "example_name u = replicate u CHR ''b''"

lemma example_blocks_dirs: "map (dir_of example_name) example_blocks = example_dirs"
  by (simp add: example_blocks_def example_dirs_def dir_of_def example_dir_def example_name_def)

text \<open>
  C39. With out-of-order blocks this fails. When the planner selects, among other blocks, an in-order block and an out-of-order block that ends
  after all in-order blocks, as it may when the head still holds the in-order data of that time, then the compacted block counts as
  in-order, and the time up to which in-order data is known to be in blocks moves past the end of the in-order blocks, to that of the out-of-order
  block or later.
\<close>

theorem out_of_order_block_moves_cutoff:
  assumes "plan_setup srt c (map (dir_of name) bs)" "plan heavy srt c (map (dir_of name) bs) = Some dirs"
    and "CompactBlockMetas uid (map bl_meta (map (find_block name bs) dirs)) = Some m"
    and "b \<in> set bs" "name (ULID (bl_meta b)) \<in> set dirs" "in_order (bl_meta b)"
    and "u \<in> set bs" "name (ULID (bl_meta u)) \<in> set dirs" "FromOutOfOrder (Compaction (bl_meta u))"
    and "inOrderBlocksMaxTime bs = (lim, True)" "lim <s MaxTime (bl_meta u)"
  shows "\<exists>lim'. inOrderBlocksMaxTime (filter (\<lambda>b. name (ULID (bl_meta b)) \<notin> set dirs) bs @ [\<lparr>bl_meta = m, bl_Size = sz\<rparr>]) = (lim', True) \<and>
    lim <s lim' \<and> MaxTime (bl_meta u) \<le>s lim'"
proof -
  let ?sel = "map (find_block name bs) dirs" and ?nb = "filter (\<lambda>b. name (ULID (bl_meta b)) \<notin> set dirs) bs @ [\<lparr>bl_meta = m, bl_Size = sz\<rparr>]"
  obtain dirs' k where "plan heavy srt c (map (dir_of name) bs) = Some dirs'" "set (map (find_block name bs) dirs') = {b \<in> set bs. name (ULID (bl_meta b)) \<in> set dirs'}"
    "\<forall>b \<in> set (map (find_block name bs) dirs'). partial_class (bl_meta b) = k" using plan_blocks [OF assms(1), of heavy] by blast
  moreover from this have "dirs' = dirs" using assms(2) by simp
  ultimately have k: "set ?sel = {b \<in> set bs. name (ULID (bl_meta b)) \<in> set dirs}" "\<forall>b \<in> set ?sel. partial_class (bl_meta b) = k" by simp_all
  have in_sel: "b \<in> set ?sel" "u \<in> set ?sel" using k(1) assms(4,5,7,8) by blast+
  then have "k = 0" using k(2) assms(6) by (auto simp: partial_class_def in_order_def)
  then have full: "\<not> FromStaleSeries (Compaction (bl_meta x)) \<and> \<not> FromSelectedSeries (Compaction (bl_meta x))" if "x \<in> set ?sel" for x
    using k(2) that by (auto simp: partial_class_def split: if_split_asm)
  have "map bl_meta ?sel \<noteq> []" using assms(5) by auto
  then obtain m' where m': "CompactBlockMetas uid (map bl_meta ?sel) = Some m'" "sint (MaxTime m') = Max ((\<lambda>b. sint (MaxTime b)) ` set (map bl_meta ?sel))"
    "FromStaleSeries (Compaction m') \<longleftrightarrow> (\<exists>b \<in> set (map bl_meta ?sel). FromStaleSeries (Compaction b))"
    "FromSelectedSeries (Compaction m') \<longleftrightarrow> (\<exists>b \<in> set (map bl_meta ?sel). FromSelectedSeries (Compaction b))"
    "FromOutOfOrder (Compaction m') \<longleftrightarrow> (\<forall>b \<in> set (map bl_meta ?sel). FromOutOfOrder (Compaction b))" by (rule compact_metas [of _ uid])
  have m: "m' = m" using m'(1) assms(3) by simp
  have meta: "bl_meta x \<in> set (map bl_meta ?sel)" if "x \<in> set ?sel" for x using that by (metis image_eqI set_map)
  have "\<not> FromOutOfOrder (Compaction m)" using m'(5) meta [OF in_sel(1)] assms(6) unfolding m in_order_def by blast
  moreover have "\<not> FromStaleSeries (Compaction m)" "\<not> FromSelectedSeries (Compaction m)" using m'(3,4) full unfolding m set_map by blast+
  ultimately have io: "in_order m" by (simp add: in_order_def)
  have u: "sint (MaxTime (bl_meta u)) \<le> sint (MaxTime m)" unfolding m'(2) [unfolded m] using meta [OF in_sel(2)] by (intro Max_ge) blast+
  obtain w where w: "inOrderBlocksMaxTime ?nb = (w, \<exists>b \<in> set ?nb. in_order (bl_meta b) \<and> MinInt64 <s MaxTime (bl_meta b))"
      "sint w = Max (insert (sint MinInt64) ((\<lambda>b. sint (MaxTime (bl_meta b))) ` {b \<in> set ?nb. in_order (bl_meta b)}))"
    using in_order_fold [of ?nb MinInt64 False] by (auto simp: inOrderBlocksMaxTime_def)
  have new: "\<lparr>bl_meta = m, bl_Size = sz\<rparr> \<in> {b \<in> set ?nb. in_order (bl_meta b)}" using io by simp
  have "sint (MaxTime m) \<le> sint w" unfolding w(2) using new by (intro Max_ge) force+
  then have "sint (MaxTime (bl_meta u)) \<le> sint w" "sint lim < sint w" using u assms(11) by (simp_all add: word_sless_alt)
  moreover have "sint MinInt64 \<le> sint lim" using sint_ge [of lim] by (simp add: MinInt64_def)
  then have "MinInt64 <s MaxTime m" using u assms(11) by (simp add: word_sless_alt)
  then have "\<exists>b \<in> set ?nb. in_order (bl_meta b) \<and> MinInt64 <s MaxTime (bl_meta b)" using io by auto
  ultimately show ?thesis unfolding w(1) by (simp add: word_sless_alt word_sle_eq)
qed

definition example_mixed :: "nat Block list" where
  "example_mixed = map (\<lambda>m. \<lparr>bl_meta = m, bl_Size = 5\<rparr>)
     [example_meta 1 0 10 [], example_meta 2 10 20 [], example_meta 3 20 30 [CompactionHintFromOutOfOrder], example_meta 4 30 40 [CompactionHintFromOutOfOrder]]"

lemma example_mixed_plan: "plan (\<lambda>_ _. False) (sort_key mint) example_compactor (map (dir_of example_name) example_mixed) = Some [''b'', ''bb'', ''bbb'']"
proof -
  let ?o = "[CompactionHintFromOutOfOrder]"
  define ds where "ds = [example_dir (example_meta 1 0 10 []), example_dir (example_meta 2 10 20 []), example_dir (example_meta 3 20 30 ?o), example_dir (example_meta 4 30 40 ?o)]"
  have "of_class 0 ds = ds" "of_class 1 ds = []" "of_class 2 ds = []"
    using hint_names by (auto simp: of_class_def ds_def partial_class_def FromStaleSeries_def FromSelectedSeries_def)
  then have "plan (\<lambda>_ _. False) (sort_key mint) example_compactor ds = planClass (\<lambda>_ _. False) (sort_key mint) example_compactor ds" by (simp add: plan_eq ds_def)
  moreover have "sort_key mint ds = ds" by (simp add: ds_def)
  moreover have "selectOverlappingDirs example_compactor ds = []" by (simp add: selectOverlappingDirs_def example_compactor_def ds_def word_sless_alt)
  moreover have "selectDirs example_compactor (butlast ds) = Some (take 3 ds)"
    by (simp add: selectDirs_def example_compactor_def ds_def word_sless_alt range_start_def quot64_def word_sle_eq Let_def pick_part_def)
  ultimately have p: "plan (\<lambda>_ _. False) (sort_key mint) example_compactor ds = Some [''b'', ''bb'', ''bbb'']" by (simp add: planClass_def) (simp add: ds_def numeral_eq_Suc)
  have "map (dir_of example_name) example_mixed = ds" by (simp add: ds_def dir_of_def example_dir_def example_name_def example_mixed_def)
  then show ?thesis using p by simp
qed

theorem out_of_order_block_moves_cutoff_witness:
  "\<exists>m lim'. plan (\<lambda>_ _. False) (sort_key mint) example_compactor (map (dir_of example_name) example_mixed) = Some [''b'', ''bb'', ''bbb''] \<and>
    inOrderBlocksMaxTime example_mixed = (20, True) \<and>
    CompactBlockMetas 9 (map bl_meta (map (find_block example_name example_mixed) [''b'', ''bb'', ''bbb''])) = Some m \<and>
    inOrderBlocksMaxTime (filter (\<lambda>b. example_name (ULID (bl_meta b)) \<notin> set [''b'', ''bb'', ''bbb'']) example_mixed @ [\<lparr>bl_meta = m, bl_Size = 15\<rparr>]) = (lim', True) \<and>
    20 <s lim' \<and> 30 \<le>s lim'"
proof -
  let ?b = "\<lparr>bl_meta = example_meta 1 0 10 [], bl_Size = 5\<rparr>" and ?u = "\<lparr>bl_meta = example_meta 3 20 30 [CompactionHintFromOutOfOrder], bl_Size = 5\<rparr>"
  let ?dirs = "[''b'', ''bb'', ''bbb'']"
  have h: "FromOutOfOrder (Compaction (example_meta i s e [CompactionHintFromOutOfOrder]))" "in_order (example_meta i s e [])" for i s e
    using hint_names by (auto simp: FromOutOfOrder_def FromStaleSeries_def FromSelectedSeries_def in_order_def)
  have su: "plan_setup (sort_key mint) example_compactor (map (dir_of example_name) example_mixed)"
    by (simp add: plan_setup_def sorts_sort_key example_compactor_def example_mixed_def range_ok_def time_ok_def dir_of_def example_name_def numeral_eq_Suc)
  have cut: "inOrderBlocksMaxTime example_mixed = (20, True)"
    using h by (simp add: inOrderBlocksMaxTime_def example_mixed_def word_sless_alt MinInt64_def in_order_def)
  have "map bl_meta (map (find_block example_name example_mixed) ?dirs) \<noteq> []" by simp
  then obtain m where m: "CompactBlockMetas 9 (map bl_meta (map (find_block example_name example_mixed) ?dirs)) = Some m" by (rule compact_metas [of _ 9])
  have mem: "?b \<in> set example_mixed" "?u \<in> set example_mixed" by (simp_all add: example_mixed_def)
  have dirs: "example_name (ULID (bl_meta ?b)) \<in> set ?dirs" "example_name (ULID (bl_meta ?u)) \<in> set ?dirs" by (simp_all add: example_name_def numeral_eq_Suc)
  have "20 <s MaxTime (bl_meta ?u)" by (simp add: word_sless_alt)
  from out_of_order_block_moves_cutoff [OF su example_mixed_plan m mem(1) dirs(1) _ mem(2) dirs(2) _ cut this, of 15] show ?thesis
    using h cut m example_mixed_plan by auto
qed

text \<open>
  C6. The loop that compacts blocks ends: from any blocks it comes, after finitely many compactions, to a point where the planner finds
  nothing more to do, or it stops with the error of a compaction. Every compaction leaves fewer blocks, or as many with
  fewer that have tombstones.
\<close>

theorem compact_blocks_ends:
  assumes "loop_env E c" "disk_ok E i disk"
  shows "\<exists>err disk'. compactBlocks E c db i disk = Some (err, disk') \<and>
    (err = None \<longrightarrow> Plan (env_heavy E) (env_sort_dirs E) c (blockDirs (env_name E) disk') = Some (Inr []))"
  by (rule compact_loop [OF assms])

definition example_env :: "nat environment" where
  "example_env = \<lparr>env_heavy = (\<lambda>_ _. False), env_sort_dirs = sort_key mint, env_sort_newest = sort_key newest_key, env_sort_time = sort_key (\<lambda>b. sint (MinTime (bl_meta b))),
    env_populate = (\<lambda>m bs. Inr (empty_stats\<lparr>NumSamples := 100\<rparr>, 12)), env_name = example_name, env_uids = (\<lambda>i. i + 10)\<rparr>"

definition example_db :: DB where
  "example_db = \<lparr>db_RetentionDuration = 0, db_MaxBytes = 0, db_MaxPercentage = 0, db_fsSize = 0, db_headSize = 0, db_percent = (\<lambda>_ _. 0)\<rparr>"

lemma example_loop: "loop_env example_env example_compactor" "disk_ok example_env 0 example_blocks"
proof -
  have "inj example_name" by (rule injI) (metis example_name_def length_replicate)
  then show "loop_env example_env example_compactor"
    by (simp add: loop_env_def example_env_def example_compactor_def sorts_sort_key range_ok_def inj_def)
  show "disk_ok example_env 0 example_blocks" by (simp add: disk_ok_def example_blocks_def example_env_def time_ok_def)
qed

theorem compact_blocks_ends_witness:
  "\<exists>err disk'. compactBlocks example_env example_compactor example_db 0 example_blocks = Some (err, disk')"
  using compact_blocks_ends [OF example_loop, of example_db] by blast

text \<open>
  C9. Retention deletes what it must and no more. By time, it deletes exactly the blocks that end at least the retention period before
  the end of the newest block. By size, it deletes the oldest blocks: the ones that are kept, with the head, fit in the limit
  unless none is kept, and with the newest one that is deleted they would not.
\<close>

theorem retention_exact:
  assumes "sorts newest_first newest_key" "\<forall>b \<in> set blocks. time_ok (bl_meta b) \<and> 0 \<le> sint (bl_Size b)"
    and "0 < sint (db_RetentionDuration db)" "0 < sint (size_limit db)" "0 \<le> sint (db_headSize db)" "sint (db_headSize db) + total_size blocks < 2 ^ 63"
  shows "\<exists>keep del. newest_first blocks = keep @ del \<and> (keep = [] \<or> sint (db_headSize db) + total_size keep \<le> sint (size_limit db)) \<and>
    (del = [] \<or> sint (size_limit db) < sint (db_headSize db) + total_size keep + sint (bl_Size (hd del))) \<and>
    deletableBlocks newest_first db blocks = (\<lambda>b. ULID (bl_meta b)) ` ({b \<in> set blocks. Deletable (Compaction (bl_meta b))} \<union>
      {b \<in> set blocks. \<exists>n \<in> set blocks. sint (db_RetentionDuration db) \<le> sint (MaxTime (bl_meta n)) - sint (MaxTime (bl_meta b))} \<union> set del)"
  by (rule size_kept [OF assms])

theorem retention_exact_witness:
  "\<exists>keep del. sort_key newest_key example_blocks = keep @ del \<and> (keep = [] \<or> 3 + total_size keep \<le> 14) \<and>
    (del = [] \<or> 14 < 3 + total_size keep + sint (bl_Size (hd del))) \<and>
    deletableBlocks (sort_key newest_key) (example_db\<lparr>db_RetentionDuration := 15, db_MaxBytes := 14, db_headSize := 3\<rparr>) example_blocks =
      (\<lambda>b. ULID (bl_meta b)) ` ({b \<in> set example_blocks. Deletable (Compaction (bl_meta b))} \<union>
      {b \<in> set example_blocks. \<exists>n \<in> set example_blocks. 15 \<le> sint (MaxTime (bl_meta n)) - sint (MaxTime (bl_meta b))} \<union> set del)"
proof -
  let ?db = "example_db\<lparr>db_RetentionDuration := 15, db_MaxBytes := 14, db_headSize := 3\<rparr>"
  have d: "sint (db_RetentionDuration ?db) = 15" "sint (size_limit ?db) = 14" "sint (db_headSize ?db) = 3"
    by (simp_all add: example_db_def size_limit_def float_positive_def)
  have b: "\<forall>b \<in> set example_blocks. time_ok (bl_meta b) \<and> 0 \<le> sint (bl_Size b)" "sint (db_headSize ?db) + total_size example_blocks < 2 ^ 63"
    unfolding d by (simp_all add: example_blocks_def time_ok_def)
  have p: "0 < sint (db_RetentionDuration ?db)" "0 < sint (size_limit ?db)" "0 \<le> sint (db_headSize ?db)" unfolding d by simp_all
  show ?thesis using retention_exact [OF sorts_sort_key b(1) p b(2)] unfolding d .
qed

text \<open>
  C8. Reloading blocks survives a crash between writing a compacted block and deleting its sources: no block is loaded that
  is a parent of another one, so no data is there twice, and a corrupted block is no error when a compacted block
  replaces it. The blocks that are loaded are the others that could be opened, except those that are marked for deletion or beyond
  retention; they are sorted by time, and with the head they fit in the size limit unless there is none.
\<close>

theorem reload_blocks:
  assumes "sorts newest_first newest_key" "sorts by_time (\<lambda>b. sint (MinTime (bl_meta b)))" "\<forall>b \<in> set loadable. time_ok (bl_meta b) \<and> 0 \<le> sint (bl_Size b)"
    and "0 < sint (db_RetentionDuration db)" "0 < sint (size_limit db)" "0 \<le> sint (db_headSize db)" "sint (db_headSize db) + total_size loadable < 2 ^ 63"
  shows "(case reloadBlocks newest_first by_time db loadable corrupted of
      Inl errs \<Rightarrow> errs \<noteq> [] \<and> set errs = {e. \<exists>u. (u, e) \<in> set corrupted \<and> u \<notin> parent_ids loadable}
    | Inr (loaded, deleted) \<Rightarrow> fst ` set corrupted \<subseteq> parent_ids loadable \<and>
        deleted = deletableBlocks newest_first db loadable \<union> parent_ids loadable \<and>
        mset loaded = mset (filter (\<lambda>b. ULID (bl_meta b) \<notin> deleted) loadable) \<and>
        sorted (map (\<lambda>b. sint (MinTime (bl_meta b))) loaded) \<and>
        (\<forall>b \<in> set loaded. \<forall>c \<in> set loadable. \<forall>p \<in> set (Parents (Compaction (bl_meta c))). ULID (bl_meta b) \<noteq> bd_ULID p) \<and>
        (loaded = [] \<or> sint (db_headSize db) + total_size loaded \<le> sint (size_limit db)))"
proof -
  let ?del = "deletableBlocks newest_first db loadable \<union> parent_ids loadable" and ?cor = "filter (\<lambda>(u, _). u \<notin> parent_ids loadable) corrupted"
  let ?loaded = "by_time (filter (\<lambda>b. ULID (bl_meta b) \<notin> ?del) (newest_first loadable))"
  note s = sortsD [OF assms(1), where xs = loadable] and t = sortsD [OF assms(2), where xs = "filter (\<lambda>b. ULID (bl_meta b) \<notin> ?del) (newest_first loadable)"]
  have p: "parent_ids (newest_first loadable) = parent_ids loadable" by (simp add: parent_ids_def s(2))
  have r: "reloadBlocks newest_first by_time db loadable corrupted = (if ?cor \<noteq> [] then Inl (map snd ?cor) else Inr (?loaded, ?del))"
    by (simp add: reloadBlocks_def Let_def p)
  obtain keep del where k: "newest_first loadable = keep @ del" "keep = [] \<or> sint (db_headSize db) + total_size keep \<le> sint (size_limit db)"
    "(\<lambda>b. ULID (bl_meta b)) ` set del \<subseteq> ?del" using size_kept [OF assms(1,3-7)] by (elim exE conjE) blast
  have fd: "filter (\<lambda>b. ULID (bl_meta b) \<notin> ?del) del = []" using k(3) by (auto simp: filter_empty_conv)
  have "total_size ?loaded = total_size (filter (\<lambda>b. ULID (bl_meta b) \<notin> ?del) (newest_first loadable))"
    unfolding total_size_def sum_mset_sum_list [symmetric] mset_map t(1) ..
  then have tot: "total_size ?loaded = total_size (filter (\<lambda>b. ULID (bl_meta b) \<notin> ?del) keep)" unfolding k(1) filter_append fd by simp
  have keep: "\<forall>b \<in> set keep. 0 \<le> sint (bl_Size b)" using assms(3) s(2) k(1) by auto
  have size: "?loaded = [] \<or> sint (db_headSize db) + total_size ?loaded \<le> sint (size_limit db)"
  proof (cases "keep = []")
    case True
    then have "filter (\<lambda>b. ULID (bl_meta b) \<notin> ?del) (newest_first loadable) = []" using k(1) fd by simp
    then show ?thesis using t(3) by simp
  next
    case False
    then show ?thesis unfolding tot using total_size_filter [OF keep, of "\<lambda>b. ULID (bl_meta b) \<notin> ?del"] k(2) by simp
  qed
  have "mset ?loaded = mset (filter (\<lambda>b. ULID (bl_meta b) \<notin> ?del) loadable)" unfolding t(1) using s(1) by (simp add: mset_filter)
  moreover have "\<forall>b \<in> set ?loaded. \<forall>c \<in> set loadable. \<forall>p \<in> set (Parents (Compaction (bl_meta c))). ULID (bl_meta b) \<noteq> bd_ULID p"
    unfolding t(2) by (auto simp: parent_ids_def)
  moreover have "set (map snd ?cor) = {e. \<exists>u. (u, e) \<in> set corrupted \<and> u \<notin> parent_ids loadable}" by force
  moreover have "fst ` set corrupted \<subseteq> parent_ids loadable" if "?cor = []" using that by (auto simp: filter_empty_conv)
  ultimately show ?thesis unfolding r using t(4) size by (cases "?cor = []") (simp_all only: if_P if_not_P simp_thms sum.case prod.case map_is_Nil_conv)
qed

theorem reload_blocks_witness:
  "\<exists>loaded deleted. reloadBlocks (sort_key newest_key) (sort_key (\<lambda>b. sint (MinTime (bl_meta b))))
      (example_db\<lparr>db_RetentionDuration := 15, db_MaxBytes := 14, db_headSize := 3\<rparr>) example_blocks [] = Inr (loaded, deleted) \<and>
    mset loaded = mset (filter (\<lambda>b. ULID (bl_meta b) \<notin> deleted) example_blocks) \<and> (loaded = [] \<or> 3 + total_size loaded \<le> 14)"
proof -
  let ?db = "example_db\<lparr>db_RetentionDuration := 15, db_MaxBytes := 14, db_headSize := 3\<rparr>"
  have d: "sint (db_RetentionDuration ?db) = 15" "sint (size_limit ?db) = 14" "sint (db_headSize ?db) = 3"
    by (simp_all add: example_db_def size_limit_def float_positive_def)
  have b: "\<forall>b \<in> set example_blocks. time_ok (bl_meta b) \<and> 0 \<le> sint (bl_Size b)" "sint (db_headSize ?db) + total_size example_blocks < 2 ^ 63"
    unfolding d by (simp_all add: example_blocks_def time_ok_def)
  have p: "0 < sint (db_RetentionDuration ?db)" "0 < sint (size_limit ?db)" "0 \<le> sint (db_headSize ?db)" unfolding d by simp_all
  obtain loaded deleted where r: "reloadBlocks (sort_key newest_key) (sort_key (\<lambda>b. sint (MinTime (bl_meta b)))) ?db example_blocks [] = Inr (loaded, deleted)"
    using reload_no_error by blast
  show ?thesis using reload_blocks [OF sorts_sort_key sorts_sort_key b(1) p b(2), of "[]"] r unfolding d by auto
qed

section \<open>Overlapping blocks\<close>

text \<open>The loop: blocks that have not ended are pending, and a group goes on as long as none of them has ended.\<close>

abbreviation start :: "'u BlockMeta \<Rightarrow> int" where "start b \<equiv> sint (MinTime b)"
abbreviation stop :: "'u BlockMeta \<Rightarrow> int" where "stop b \<equiv> sint (MaxTime b)"

definition group_end :: "'u BlockMeta list \<Rightarrow> int" where
  "group_end g = Min (stop ` set g)"

definition overlaps_inv :: "'u BlockMeta list \<Rightarrow> 'u BlockMeta list \<Rightarrow> bool \<Rightarrow> 'u BlockMeta list list \<Rightarrow> bool" where
  "overlaps_inv seen pending cont ov \<longleftrightarrow> seen \<noteq> [] \<and> pending = filter (\<lambda>p. start (last seen) < stop p) seen \<and>
     (\<forall>g \<in> set ov. g \<noteq> [] \<and> set g \<subseteq> set seen \<and> (\<exists>t. \<forall>b \<in> set g. start b \<le> t \<and> t < stop b)) \<and>
     (\<forall>i j. i < j \<longrightarrow> j < length seen \<longrightarrow> start (seen ! j) < stop (seen ! i) \<longrightarrow> (\<exists>g \<in> set ov. {seen ! i, seen ! j} \<subseteq> set g)) \<and>
     sorted_wrt (<) (map group_end ov) \<and> (\<forall>g \<in> set (butlast ov). group_end g \<le> start (last seen)) \<and>
     (ov \<noteq> [] \<longrightarrow> (if cont then pending = last ov else group_end (last ov) \<le> start (last seen)))"

lemma group_end_le: "p \<in> set g \<Longrightarrow> stop p \<le> t \<Longrightarrow> group_end g \<le> t"
  unfolding group_end_def by (meson List.finite_set Min_le finite_imageI imageI order_trans)

lemma group_end_gr: "g \<noteq> [] \<Longrightarrow> \<forall>p \<in> set g. t < stop p \<Longrightarrow> t < group_end g"
  by (simp add: group_end_def)

lemma overlaps_step:
  assumes "overlaps_inv seen pending cont ov" "\<forall>p \<in> set (seen @ [b]). start p < stop p" "start (last seen) \<le> start b" "\<forall>p \<in> set seen. start p \<le> start b"
    and "new = filter (\<lambda>p. \<not> MaxTime p \<le>s MinTime b) pending" "cont' = (cont \<and> new = pending)"
  shows "overlaps_inv (seen @ [b]) (new @ [b]) (if new = [] then cont' else True)
    (if new = [] then ov else if cont' \<and> ov \<noteq> [] then butlast ov @ [last ov @ [b]] else ov @ [new @ [b]])"
proof -
  note inv = assms(1) [unfolded overlaps_inv_def]
  have new: "new = filter (\<lambda>p. start b < stop p) seen" using assms(3,5) inv by (auto simp: word_sle_eq intro!: filter_cong)
  have b: "start b < stop b" using assms(2) by simp
  have pend: "new @ [b] = filter (\<lambda>p. start b < stop p) (seen @ [b])" using new b by simp
  have "last seen \<in> set pending" using inv assms(2) by simp
  then have ne: "pending \<noteq> []" by auto
  let ?g = "new @ [b]"
  have g: "set ?g \<subseteq> set (seen @ [b])" "\<forall>p \<in> set ?g. start p \<le> start b \<and> start b < stop p" using new b assms(4) by auto
  have ge: "start b < group_end ?g" using g(2) by (intro group_end_gr) auto
  have old: "\<forall>x \<in> set (butlast ov). group_end x \<le> start b" using inv assms(3) by fastforce
  have oldlast: "group_end (last ov) \<le> start b" if "ov \<noteq> []" "\<not> cont'"
  proof (cases cont)
    case True
    then have "pending = last ov" "new \<noteq> pending" using inv that assms(6) by auto
    then obtain p where "p \<in> set (last ov)" "stop p \<le> start b" unfolding assms(5) by (auto simp: filter_id_conv word_sle_eq)
    then show ?thesis by (rule group_end_le)
  next
    case False
    then show ?thesis using inv that assms(3) by auto
  qed
  have inv_groups: "\<forall>x \<in> set ov. x \<noteq> [] \<and> set x \<subseteq> set seen \<and> (\<exists>t. \<forall>b \<in> set x. start b \<le> t \<and> t < stop b)"
    using inv by (elim conjE)
  have inv_cont: "ov \<noteq> [] \<longrightarrow> (if cont then pending = last ov else group_end (last ov) \<le> start (last seen))" using inv by (elim conjE)
  have inv_sorted: "sorted_wrt (<) (map group_end ov)" using inv by (elim conjE)
  have inv_pairs: "\<forall>i j. i < j \<longrightarrow> j < length seen \<longrightarrow> start (seen ! j) < stop (seen ! i) \<longrightarrow> (\<exists>g \<in> set ov. {seen ! i, seen ! j} \<subseteq> set g)"
    using inv by (elim conjE)
  have pairs: "\<forall>i j. i < j \<longrightarrow> j < length (seen @ [b]) \<longrightarrow> start ((seen @ [b]) ! j) < stop ((seen @ [b]) ! i) \<longrightarrow> (\<exists>g \<in> set ov'. {(seen @ [b]) ! i, (seen @ [b]) ! j} \<subseteq> set g)"
    if h: "\<forall>g \<in> set ov. \<exists>g' \<in> set ov'. set g \<subseteq> set g'" "new \<noteq> [] \<longrightarrow> (\<exists>g' \<in> set ov'. set ?g \<subseteq> set g')" for ov'
  proof (intro allI impI)
    fix i j assume ij: "i < j" "j < length (seen @ [b])" "start ((seen @ [b]) ! j) < stop ((seen @ [b]) ! i)"
    show "\<exists>g \<in> set ov'. {(seen @ [b]) ! i, (seen @ [b]) ! j} \<subseteq> set g"
    proof (cases "j < length seen")
      case True
      then have e: "(seen @ [b]) ! i = seen ! i" "(seen @ [b]) ! j = seen ! j" using ij(1) by (simp_all add: nth_append)
      obtain x where "x \<in> set ov" "{seen ! i, seen ! j} \<subseteq> set x" using inv_pairs ij(1,3) True unfolding e by blast
      then show ?thesis using h(1) unfolding e by (meson subset_trans)
    next
      case False
      then have e: "(seen @ [b]) ! i = seen ! i" "(seen @ [b]) ! j = b" "i < length seen" using ij(1,2) by (simp_all add: nth_append)
      then have m: "seen ! i \<in> set new" using ij(3) unfolding new e by simp
      then have "new \<noteq> []" by auto
      then obtain x where "x \<in> set ov'" "set ?g \<subseteq> set x" using h(2) by blast
      then show ?thesis using m unfolding e by (intro bexI [of _ x]) auto
    qed
  qed
  consider "new = []" | "new \<noteq> []" "cont'" "ov \<noteq> []" | "new \<noteq> []" "\<not> (cont' \<and> ov \<noteq> [])" by blast
  then show ?thesis
  proof cases
    case 1
    then have "\<not> cont'" using ne assms(6) by auto
    then have all: "\<forall>x \<in> set (butlast ov). group_end x \<le> start b" "ov \<noteq> [] \<longrightarrow> group_end (last ov) \<le> start b" using old oldlast by auto
    have "overlaps_inv (seen @ [b]) ?g False ov"
      unfolding overlaps_inv_def
    proof (intro conjI)
      show "\<forall>x \<in> set ov. x \<noteq> [] \<and> set x \<subseteq> set (seen @ [b]) \<and> (\<exists>t. \<forall>b \<in> set x. start b \<le> t \<and> t < stop b)" using inv_groups by auto
      show "\<forall>i j. i < j \<longrightarrow> j < length (seen @ [b]) \<longrightarrow> start ((seen @ [b]) ! j) < stop ((seen @ [b]) ! i) \<longrightarrow> (\<exists>g \<in> set ov. {(seen @ [b]) ! i, (seen @ [b]) ! j} \<subseteq> set g)"
        by (rule pairs) (auto simp: 1)
      show "sorted_wrt (<) (map group_end ov)" by (rule inv_sorted)
    qed (use pend all in simp_all)
    then show ?thesis using 1 \<open>\<not> cont'\<close> by simp
  next
    case 2
    then have "pending = last ov" "new = pending" using inv_cont assms(6) by auto
    then have l: "last ov = new" by (simp only:)
    obtain ov0 where ov: "ov = ov0 @ [new]" using 2(3) l by (metis append_butlast_last_id)
    have "overlaps_inv (seen @ [b]) ?g True (ov0 @ [?g])"
      unfolding overlaps_inv_def
    proof (intro conjI)
      show "\<forall>x \<in> set (ov0 @ [?g]). x \<noteq> [] \<and> set x \<subseteq> set (seen @ [b]) \<and> (\<exists>t. \<forall>b \<in> set x. start b \<le> t \<and> t < stop b)" using inv_groups g unfolding ov by auto
      show "\<forall>i j. i < j \<longrightarrow> j < length (seen @ [b]) \<longrightarrow> start ((seen @ [b]) ! j) < stop ((seen @ [b]) ! i) \<longrightarrow> (\<exists>g \<in> set (ov0 @ [?g]). {(seen @ [b]) ! i, (seen @ [b]) ! j} \<subseteq> set g)"
        by (rule pairs) (auto simp: ov)
      show "sorted_wrt (<) (map group_end (ov0 @ [?g]))" using inv_sorted ge old unfolding ov by (fastforce simp: sorted_wrt_append)
    qed (use pend old ov in auto)
    then show ?thesis using 2 by (simp add: ov)
  next
    case 3
    have all: "\<forall>x \<in> set ov. group_end x \<le> start b"
    proof (cases "ov = []")
      case False
      then have "set ov = insert (last ov) (set (butlast ov))" by (metis append_butlast_last_id list.set(2) rotate1.simps(2) set_rotate1)
      then show ?thesis using old oldlast 3 False by auto
    qed simp
    have "overlaps_inv (seen @ [b]) ?g True (ov @ [?g])"
      unfolding overlaps_inv_def
    proof (intro conjI)
      show "\<forall>x \<in> set (ov @ [?g]). x \<noteq> [] \<and> set x \<subseteq> set (seen @ [b]) \<and> (\<exists>t. \<forall>b \<in> set x. start b \<le> t \<and> t < stop b)" using inv_groups g by auto
      show "\<forall>i j. i < j \<longrightarrow> j < length (seen @ [b]) \<longrightarrow> start ((seen @ [b]) ! j) < stop ((seen @ [b]) ! i) \<longrightarrow> (\<exists>g \<in> set (ov @ [?g]). {(seen @ [b]) ! i, (seen @ [b]) ! j} \<subseteq> set g)"
        by (rule pairs) auto
      show "sorted_wrt (<) (map group_end (ov @ [?g]))" using inv_sorted ge all by (fastforce simp: sorted_wrt_append)
    qed (use pend all in auto)
    then show ?thesis by (simp only: 3 if_False)
  qed
qed

lemma overlaps_loop_inv:
  assumes "overlaps_inv seen pending cont ov" "sorted (map start (seen @ bm))" "\<forall>p \<in> set (seen @ bm). start p < stop p"
  shows "\<exists>pending' cont'. overlaps_inv (seen @ bm) pending' cont' (overlaps_loop pending cont ov bm)"
  using assms
proof (induction bm arbitrary: seen pending cont ov)
  case Nil
  then show ?case by auto
next
  case (Cons b bm)
  let ?new = "filter (\<lambda>p. \<not> MaxTime p \<le>s MinTime b) pending"
  let ?c = "cont \<and> ?new = pending"
  let ?c' = "if ?new = [] then ?c else True" and ?ov = "if ?new = [] then ov else if ?c \<and> ov \<noteq> [] then butlast ov @ [last ov @ [b]] else ov @ [?new @ [b]]"
  have seen: "seen \<noteq> []" using Cons.prems(1) by (auto simp: overlaps_inv_def)
  have le: "start (last seen) \<le> start b" "\<forall>p \<in> set seen. start p \<le> start b" using Cons.prems(2) seen by (auto simp: sorted_append)
  have inv: "overlaps_inv (seen @ [b]) (?new @ [b]) ?c' ?ov" by (rule overlaps_step [OF Cons.prems(1) _ le refl refl]) (use Cons.prems(3) in auto)
  have "overlaps_loop pending cont ov (b # bm) = overlaps_loop (?new @ [b]) ?c' ?ov bm" by (simp add: Let_def)
  moreover have "\<exists>pending' cont'. overlaps_inv ((seen @ [b]) @ bm) pending' cont' (overlaps_loop (?new @ [b]) ?c' ?ov bm)"
    by (rule Cons.IH [OF inv]) (use Cons.prems(2,3) in auto)
  ultimately show ?case by simp
qed

lemma min_range_end:
  assumes "g \<noteq> []" "\<forall>b \<in> set g. stop b < 2 ^ 62"
  shows "sint (tr_Max (min_range g)) = group_end g"
proof -
  let ?f = "\<lambda>b r. let r = (if MaxTime b <s tr_Max r then r\<lparr>tr_Max := MaxTime b\<rparr> else r) in if tr_Min r <s MinTime b then r\<lparr>tr_Min := MinTime b\<rparr> else r"
  have "sint (tr_Max (fold ?f xs r)) = Min (insert (sint (tr_Max r)) (stop ` set xs))" for xs :: "'a BlockMeta list" and r :: TimeRange
  proof (induction xs arbitrary: r)
    case (Cons b xs)
    have "sint (tr_Max (?f b r)) = min (stop b) (sint (tr_Max r))" by (auto simp: Let_def word_sless_alt)
    then show ?case by (cases "xs = []") (simp_all add: Cons.IH min.commute min.left_commute min.assoc)
  qed simp
  then have "sint (tr_Max (min_range g)) = Min (insert (sint MaxInt64) (stop ` set g))" unfolding min_range_def by simp
  also have "\<dots> = min (sint MaxInt64) (group_end g)" using assms(1) by (simp add: group_end_def)
  also have "\<dots> = group_end g"
  proof -
    obtain b where b: "b \<in> set g" using assms(1) by (cases g) auto
    have "sint MaxInt64 = 2 ^ 63 - 1" by (simp add: MaxInt64_def)
    then have "group_end g \<le> sint MaxInt64" using group_end_le [OF b, of "2 ^ 62"] assms(2) b by auto
    then show ?thesis by simp
  qed
  finally show ?thesis .
qed

lemma fold_updates:
  "distinct (map key xs) \<Longrightarrow> fold (\<lambda>x m. m(key x \<mapsto> x)) xs m r = Some g \<longleftrightarrow> g \<in> set xs \<and> key g = r \<or> r \<notin> key ` set xs \<and> m r = Some g"
  by (induction xs arbitrary: m) auto

text \<open>
  C31. The report of overlapping blocks is complete and correct: for blocks sorted by their start, two of them are reported in the same group
  exactly when their time ranges overlap, and no group is lost when groups are stored under the time ranges they have in
  common.
\<close>

theorem overlapping_blocks_exact:
  assumes "sorted (map (\<lambda>b. sint (MinTime b)) bm)" "\<forall>b \<in> set bm. time_ok b" "distinct bm" "b \<in> set bm" "b' \<in> set bm" "b \<noteq> b'"
  shows "(\<exists>r g. OverlappingBlocks bm r = Some g \<and> b \<in> set g \<and> b' \<in> set g) \<longleftrightarrow> sint (MinTime b) < sint (MaxTime b') \<and> sint (MinTime b') < sint (MaxTime b)"
proof -
  obtain b0 rest where bm: "bm = b0 # rest" "rest \<noteq> []" using assms(4,5,6) by (cases bm rule: remdups_adj.cases) auto
  have ok: "\<forall>p \<in> set bm. start p < stop p \<and> stop p < 2 ^ 62" using assms(2) by (auto simp: time_ok_def)
  have "overlaps_inv [b0] [b0] True []" using ok bm by (auto simp: overlaps_inv_def)
  then obtain pending cont where inv: "overlaps_inv bm pending cont (overlaps_loop [b0] True [] rest)"
    using overlaps_loop_inv [of "[b0]" "[b0]" True "[]" rest] assms(1) ok bm(1) by auto
  define ov where "ov = overlaps_loop [b0] True [] rest"
  note I = inv [folded ov_def, unfolded overlaps_inv_def]
  have mr: "sint (tr_Max (min_range g)) = group_end g" if "g \<in> set ov" for g using that I ok by (intro min_range_end) auto
  have "distinct (map group_end ov)" using I strict_sorted_iff [of "map group_end ov"] by simp
  then have dist: "distinct (map min_range ov)" using mr by (simp add: distinct_map inj_on_def) metis
  have M: "OverlappingBlocks bm r = Some g \<longleftrightarrow> g \<in> set ov \<and> min_range g = r" for r g
    using fold_updates [OF dist, of Map.empty] bm by (simp add: OverlappingBlocks_def ov_def)
  have one: "\<exists>g \<in> set ov. x \<in> set g \<and> y \<in> set g" if x: "x = bm ! i" "y = bm ! j" "i < j" "j < length bm" "start y < stop x" for x y i j
    using I x by auto
  show ?thesis
  proof
    assume "\<exists>r g. OverlappingBlocks bm r = Some g \<and> b \<in> set g \<and> b' \<in> set g"
    then obtain g where "g \<in> set ov" "b \<in> set g" "b' \<in> set g" using M by blast
    then show "start b < stop b' \<and> start b' < stop b" using I by (meson order_le_less_trans)
  next
    assume o: "start b < stop b' \<and> start b' < stop b"
    obtain i j where ij: "b = bm ! i" "b' = bm ! j" "i < length bm" "j < length bm" "i \<noteq> j" using assms(4-6) by (metis in_set_conv_nth)
    then have "\<exists>g \<in> set ov. b \<in> set g \<and> b' \<in> set g" using one [of b i b' j] one [of b' j b i] o by (cases "i < j") auto
    then show "\<exists>r g. OverlappingBlocks bm r = Some g \<and> b \<in> set g \<and> b' \<in> set g" using M by blast
  qed
qed

theorem overlapping_blocks_exact_witness:
  "\<exists>r g. OverlappingBlocks [example_meta 1 0 10 [], example_meta 2 5 20 []] r = Some g \<and> example_meta 1 0 10 [] \<in> set g \<and> example_meta 2 5 20 [] \<in> set g"
proof -
  have "example_meta 1 0 10 [] \<noteq> example_meta 2 5 20 []" by (simp add: example_meta_def)
  then show ?thesis using overlapping_blocks_exact [of "[example_meta 1 0 10 [], example_meta 2 5 20 []]" "example_meta 1 0 10 []" "example_meta 2 5 20 []"]
    by (simp add: time_ok_def)
qed

end
