(* ===== verification/Labels.thy ===== *)
theory Labels
  imports LabelSet "HOL-Library.List_Lexorder"
begin

text \<open>
  Label sets (\<open>model/labels\<close>). The default implementation (\<open>labels_stringlabels.go\<close>) keeps them as one string of
  length-prefixed names and values; the operations walk over that string. The implementation behind the build tag
  \<open>slicelabels\<close> keeps a slice of labels; its operations have the prefix \<open>slice\<close>. The builder is common to both.

  A panic is \<open>None\<close>. Loops over positions are \<open>partial_function\<close>s, which are shown to return. \<open>slices.SortFunc\<close> is not
  stable; label names are unique where it is called, so that this makes no difference.
\<close>

section \<open>Encoding\<close>

definition MetricName :: "byte list" where "MetricName = [95, 95, 110, 97, 109, 101, 95, 95]"
definition AlertName :: "byte list" where "AlertName = [97, 108, 101, 114, 116, 110, 97, 109, 101]"
definition sep :: byte where "sep = 0xff"

definition at :: "byte list \<Rightarrow> nat \<Rightarrow> byte option" where
  "at data i = (if i < length data then Some (data ! i) else None)"

definition slice :: "byte list \<Rightarrow> nat \<Rightarrow> nat \<Rightarrow> byte list option" where
  "slice data i j = (if i \<le> j \<and> j \<le> length data then Some (take (j - i) (drop i data)) else None)"

definition decodeSize :: "byte list \<Rightarrow> nat \<Rightarrow> (nat \<times> nat) option" where
  "decodeSize data index =
     Option.bind (at data index) (\<lambda>b.
       if b = 255
       then Option.bind (at data (index + 1)) (\<lambda>b0. Option.bind (at data (index + 2)) (\<lambda>b1. Option.bind (at data (index + 3)) (\<lambda>b2.
              Some (unat b0 + unat b1 * 2 ^ 8 + unat b2 * 2 ^ 16, index + 4))))
       else Some (unat b, index + 1))"

definition decodeString :: "byte list \<Rightarrow> nat \<Rightarrow> (byte list \<times> nat) option" where
  "decodeString data index =
     Option.bind (decodeSize data index) (\<lambda>(size, index). Option.bind (slice data index (index + size)) (\<lambda>s. Some (s, index + size)))"

definition sizeWhenEncoded :: "nat \<Rightarrow> nat option" where
  "sizeWhenEncoded x = (if x < 255 then Some 1 else if x \<le> 2 ^ 24 then Some 4 else None)"

definition labelSize :: "Label \<Rightarrow> nat option" where
  "labelSize m =
     Option.bind (sizeWhenEncoded (length (Name m))) (\<lambda>sn. Option.bind (sizeWhenEncoded (length (Value m))) (\<lambda>sv.
       Some (length (Name m) + sn + (length (Value m) + sv))))"

fun labelsSize :: "Label list \<Rightarrow> nat option" where
  "labelsSize [] = Some 0"
| "labelsSize (e # lbls) = Option.bind (labelSize e) (\<lambda>n. map_option ((+) n) (labelsSize lbls))"

text \<open>Fields are written into a buffer of the right size, from the back; \<open>copy_into\<close> is Go's \<open>copy(data[i:], s)\<close>.\<close>

definition copy_into :: "byte list \<Rightarrow> nat \<Rightarrow> byte list \<Rightarrow> byte list" where
  "copy_into data i s = take i data @ take (length data - i) s @ drop (i + length s) data"

definition encodeSize :: "byte list \<Rightarrow> nat \<Rightarrow> nat \<Rightarrow> (nat \<times> byte list) option" where
  "encodeSize data offset v =
     (if v < 255 then (if offset < 1 then None else Some (offset - 1, data[offset - 1 := of_nat v]))
      else if offset < 4 then None
      else Some (offset - 4, data[offset - 4 := 255, offset - 3 := of_nat v, offset - 2 := of_nat (v div 2 ^ 8), offset - 1 := of_nat (v div 2 ^ 16)]))"

definition marshalLabelToSizedBuffer :: "Label \<Rightarrow> byte list \<Rightarrow> (nat \<times> byte list) option" where
  "marshalLabelToSizedBuffer m data =
     (if length data < length (Value m) then None
      else let i = length data - length (Value m); buf = copy_into data i (Value m) in
        Option.bind (encodeSize buf i (length (Value m))) (\<lambda>(i, buf).
          if i < length (Name m) then None
          else let i = i - length (Name m); buf = copy_into buf i (Name m) in
            map_option (\<lambda>(i, buf). (length data - i, buf)) (encodeSize buf i (length (Name m)))))"

fun marshal_loop :: "Label list \<Rightarrow> byte list \<Rightarrow> nat \<Rightarrow> (nat \<times> byte list) option" where
  "marshal_loop [] data i = Some (i, data)"
| "marshal_loop (v # vs) data i =
     Option.bind (marshalLabelToSizedBuffer v (take i data)) (\<lambda>(size, buf). marshal_loop vs (buf @ drop i data) (i - size))"

definition marshalLabelsToSizedBuffer :: "Label list \<Rightarrow> byte list \<Rightarrow> (nat \<times> byte list) option" where
  "marshalLabelsToSizedBuffer lbls data = map_option (\<lambda>(i, buf). (length data - i, buf)) (marshal_loop (rev lbls) data (length data))"

definition New :: "Label list \<Rightarrow> byte list option" where
  "New ls =
     (let ls = sort_key Name ls in
      Option.bind (labelsSize ls) (\<lambda>size. map_option snd (marshalLabelsToSizedBuffer ls (replicate size 0))))"

definition appendLabelTo :: "byte list \<Rightarrow> Label \<Rightarrow> byte list option" where
  "appendLabelTo buf m = Option.bind (labelSize m) (\<lambda>size. map_option snd (marshalLabelToSizedBuffer m (buf @ replicate size 0)))"

section \<open>Operations on encoded labels\<close>

partial_function (option) Range_loop :: "byte list \<Rightarrow> nat \<Rightarrow> Label list option" where
  "Range_loop data i =
     (if i < length data
      then Option.bind (decodeString data i) (\<lambda>(lName, i). Option.bind (decodeString data i) (\<lambda>(lValue, i).
             Option.bind (Range_loop data i) (\<lambda>ls. Some (\<lparr>Name = lName, Value = lValue\<rparr> # ls))))
      else Some [])"

text \<open>The labels that \<open>Range\<close> calls its argument with.\<close>

definition Labels_Range :: "byte list \<Rightarrow> Label list option" where
  "Labels_Range data = Range_loop data 0"

partial_function (option) Len_loop :: "byte list \<Rightarrow> nat \<Rightarrow> nat \<Rightarrow> nat option" where
  "Len_loop data i count =
     (if i < length data
      then Option.bind (decodeSize data i) (\<lambda>(size, i). Option.bind (decodeSize data (i + size)) (\<lambda>(size, i). Len_loop data (i + size) (count + 1)))
      else Some count)"

definition Labels_Len :: "byte list \<Rightarrow> nat option" where
  "Labels_Len data = Len_loop data 0 0"

partial_function (option) Get_loop :: "byte list \<Rightarrow> byte list \<Rightarrow> nat \<Rightarrow> byte list option option" where
  "Get_loop data name i =
     (if i < length data
      then Option.bind (decodeSize data i) (\<lambda>(size, i). Option.bind (at data i) (\<lambda>c.
             if c = hd name
             then Option.bind (slice data i (i + size)) (\<lambda>lName.
                    if lName = name then Option.bind (decodeString data (i + size)) (\<lambda>(lValue, i). Some (Some lValue))
                    else Option.bind (decodeSize data (i + size)) (\<lambda>(size, i). Get_loop data name (i + size)))
             else if hd name < c then Some None
             else Option.bind (decodeSize data (i + size)) (\<lambda>(size, i). Get_loop data name (i + size))))
      else Some None)"

definition Labels_Get :: "byte list \<Rightarrow> byte list \<Rightarrow> byte list option" where
  "Labels_Get data name = (if name = [] then Some [] else map_option (\<lambda>r. case r of Some v \<Rightarrow> v | None \<Rightarrow> []) (Get_loop data name 0))"

partial_function (option) Has_loop :: "byte list \<Rightarrow> byte list \<Rightarrow> nat \<Rightarrow> bool option" where
  "Has_loop data name i =
     (if i < length data
      then Option.bind (decodeSize data i) (\<lambda>(size, i). Option.bind (at data i) (\<lambda>c.
             if c = hd name
             then Option.bind (slice data i (i + size)) (\<lambda>lName.
                    if lName = name then Some True
                    else Option.bind (decodeSize data (i + size)) (\<lambda>(size, i). Has_loop data name (i + size)))
             else if hd name < c then Some False
             else Option.bind (decodeSize data (i + size)) (\<lambda>(size, i). Has_loop data name (i + size))))
      else Some False)"

definition Labels_Has :: "byte list \<Rightarrow> byte list \<Rightarrow> bool option" where
  "Labels_Has data name = (if name = [] then Some False else Has_loop data name 0)"

partial_function (option) dup_loop :: "byte list \<Rightarrow> byte list \<Rightarrow> nat \<Rightarrow> (byte list \<times> bool) option" where
  "dup_loop data prevName i =
     (if i < length data
      then Option.bind (decodeString data i) (\<lambda>(lName, i). Option.bind (decodeString data i) (\<lambda>(_, i).
             if lName = prevName then Some (lName, True) else dup_loop data lName i))
      else Some ([], False))"

definition HasDuplicateLabelNames :: "byte list \<Rightarrow> (byte list \<times> bool) option" where
  "HasDuplicateLabelNames data = dup_loop data [] 0"

partial_function (option) copy_loop :: "byte list \<Rightarrow> byte list \<Rightarrow> nat \<Rightarrow> byte list option" where
  "copy_loop data buf pos =
     (if pos < length data
      then Option.bind (decodeString data pos) (\<lambda>(_, newPos). Option.bind (decodeString data newPos) (\<lambda>(lValue, newPos).
             if lValue \<noteq> [] then Option.bind (slice data pos newPos) (\<lambda>s. copy_loop data (buf @ s) newPos) else copy_loop data buf newPos))
      else Some buf)"

partial_function (option) blank_loop :: "byte list \<Rightarrow> nat \<Rightarrow> byte list option" where
  "blank_loop data pos =
     (if pos < length data
      then Option.bind (decodeString data pos) (\<lambda>(_, newPos). Option.bind (decodeString data newPos) (\<lambda>(lValue, newPos).
             if lValue \<noteq> [] then blank_loop data newPos else copy_loop data (take pos data) newPos))
      else Some data)"

definition WithoutEmpty :: "byte list \<Rightarrow> byte list option" where
  "WithoutEmpty data = blank_loop data 0"

partial_function (option) DropReserved_loop :: "(byte list \<Rightarrow> bool) \<Rightarrow> byte list \<Rightarrow> nat \<Rightarrow> byte list option" where
  "DropReserved_loop shouldDropFn data i =
     (if i < length data
      then Option.bind (decodeString data i) (\<lambda>(lName, i2). Option.bind (decodeSize data i2) (\<lambda>(size, i2).
             Option.bind (at lName 0) (\<lambda>c.
               if 95 < c then Some data
               else if shouldDropFn lName
               then Option.bind (slice data (i2 + size) (length data)) (\<lambda>rest. DropReserved_loop shouldDropFn (if i = 0 then rest else take i data @ rest) i)
               else DropReserved_loop shouldDropFn data (i2 + size))))
      else Some data)"

definition DropReserved :: "(byte list \<Rightarrow> bool) \<Rightarrow> byte list \<Rightarrow> byte list option" where
  "DropReserved shouldDropFn data = DropReserved_loop shouldDropFn data 0"

definition DropMetricName :: "byte list \<Rightarrow> byte list option" where
  "DropMetricName = DropReserved (\<lambda>n. n = MetricName)"

text \<open>Subsets by sorted names. \<open>skip_names\<close> is the inner loop that advances the position in the names; it is kept as the rest of the names.\<close>

definition skip_names :: "byte list \<Rightarrow> byte list list \<Rightarrow> byte list list" where
  "skip_names name names = dropWhile (\<lambda>n. n < name) names"

definition hash_part :: "byte list \<Rightarrow> byte list \<Rightarrow> byte list" where
  "hash_part name value = name @ [sep] @ value @ [sep]"

partial_function (option) HashForLabels_loop :: "byte list \<Rightarrow> byte list \<Rightarrow> byte list list \<Rightarrow> nat \<Rightarrow> byte list option" where
  "HashForLabels_loop data b names i =
     (if i < length data
      then Option.bind (decodeString data i) (\<lambda>(name, i). Option.bind (decodeString data i) (\<lambda>(value, i).
             if skip_names name names = [] then Some b
             else HashForLabels_loop data (if name = hd (skip_names name names) then b @ hash_part name value else b) (skip_names name names) i))
      else Some b)"

partial_function (option) HashWithoutLabels_loop :: "byte list \<Rightarrow> byte list \<Rightarrow> byte list list \<Rightarrow> nat \<Rightarrow> byte list option" where
  "HashWithoutLabels_loop data b names i =
     (if i < length data
      then Option.bind (decodeString data i) (\<lambda>(name, i). Option.bind (decodeString data i) (\<lambda>(value, i).
             HashWithoutLabels_loop data
               (if name = MetricName \<or> (skip_names name names \<noteq> [] \<and> name = hd (skip_names name names)) then b else b @ hash_part name value)
               (skip_names name names) i))
      else Some b)"

partial_function (option) BytesWithLabels_loop :: "byte list \<Rightarrow> byte list \<Rightarrow> byte list list \<Rightarrow> nat \<Rightarrow> byte list option" where
  "BytesWithLabels_loop data b names pos =
     (if pos < length data
      then Option.bind (decodeString data pos) (\<lambda>(lName, newPos). Option.bind (decodeString data newPos) (\<lambda>(_, newPos).
             if skip_names lName names = [] then Some b
             else if lName = hd (skip_names lName names)
             then Option.bind (slice data pos newPos) (\<lambda>s. BytesWithLabels_loop data (b @ s) (skip_names lName names) newPos)
             else BytesWithLabels_loop data b (skip_names lName names) newPos))
      else Some b)"

partial_function (option) BytesWithoutLabels_loop :: "byte list \<Rightarrow> byte list \<Rightarrow> byte list list \<Rightarrow> nat \<Rightarrow> byte list option" where
  "BytesWithoutLabels_loop data b names pos =
     (if pos < length data
      then Option.bind (decodeString data pos) (\<lambda>(lName, newPos). Option.bind (decodeString data newPos) (\<lambda>(_, newPos).
             if skip_names lName names = [] \<or> lName \<noteq> hd (skip_names lName names)
             then Option.bind (slice data pos newPos) (\<lambda>s. BytesWithoutLabels_loop data (b @ s) (skip_names lName names) newPos)
             else BytesWithoutLabels_loop data b (skip_names lName names) newPos))
      else Some b)"

text \<open>The hash is a parameter; it is applied to the bytes that are collected.\<close>

definition Labels_Hash :: "(byte list \<Rightarrow> uint64) \<Rightarrow> byte list \<Rightarrow> uint64" where
  "Labels_Hash xxhash data = xxhash data"

definition HashForLabels :: "(byte list \<Rightarrow> uint64) \<Rightarrow> byte list \<Rightarrow> byte list list \<Rightarrow> (uint64 \<times> byte list) option" where
  "HashForLabels xxhash data names = map_option (\<lambda>b. (xxhash b, b)) (HashForLabels_loop data [] names 0)"

definition HashWithoutLabels :: "(byte list \<Rightarrow> uint64) \<Rightarrow> byte list \<Rightarrow> byte list list \<Rightarrow> (uint64 \<times> byte list) option" where
  "HashWithoutLabels xxhash data names = map_option (\<lambda>b. (xxhash b, b)) (HashWithoutLabels_loop data [] names 0)"

definition BytesWithLabels :: "byte list \<Rightarrow> byte list list \<Rightarrow> byte list option" where
  "BytesWithLabels data names = BytesWithLabels_loop data [] names 0"

definition BytesWithoutLabels :: "byte list \<Rightarrow> byte list list \<Rightarrow> byte list option" where
  "BytesWithoutLabels data names = BytesWithoutLabels_loop data [] names 0"

section \<open>Comparison\<close>

text \<open>Eight bytes at a time, then single bytes, then back to the field with the difference.\<close>

function compare_words :: "byte list \<Rightarrow> byte list \<Rightarrow> nat \<Rightarrow> nat" where
  "compare_words shorter longer i =
     (if i + 8 < length shorter \<and> take 8 (drop i shorter) = take 8 (drop i longer) then compare_words shorter longer (i + 8) else i)"
  by pat_completeness auto
termination
  by (relation "measure (\<lambda>(s, l, i). length s - i)") auto

function compare_bytes :: "byte list \<Rightarrow> byte list \<Rightarrow> nat \<Rightarrow> nat" where
  "compare_bytes shorter longer i = (if i < length shorter \<and> shorter ! i = longer ! i then compare_bytes shorter longer (i + 1) else i)"
  by pat_completeness auto
termination
  by (relation "measure (\<lambda>(s, l, i). length s - i)") auto

declare compare_words.simps [simp del] compare_bytes.simps [simp del]

partial_function (option) field_loop :: "byte list \<Rightarrow> nat \<Rightarrow> nat \<Rightarrow> nat \<Rightarrow> nat \<Rightarrow> nat option" where
  "field_loop data firstCharDifferent i sz nextI =
     (if nextI + sz \<le> firstCharDifferent
      then Option.bind (decodeSize data (nextI + sz)) (\<lambda>(sz', nextI'). field_loop data firstCharDifferent (nextI + sz) sz' nextI')
      else Some i)"

definition Compare :: "byte list \<Rightarrow> byte list \<Rightarrow> int option" where
  "Compare a b =
     (let shorter = (if length b < length a then b else a); longer = (if length b < length a then a else b);
          i = compare_bytes shorter longer (compare_words shorter longer 0)
      in if i = length shorter then Some (int (length a) - int (length b))
         else Option.bind (decodeSize a 0) (\<lambda>(size, nextI). Option.bind (field_loop a i 0 size nextI) (\<lambda>j.
                Option.bind (decodeString a j) (\<lambda>(aStr, _). Option.bind (decodeString b j) (\<lambda>(bStr, _).
                  Some (if aStr < bStr then - 1 else 1))))))"

section \<open>Labels in a slice\<close>

fun slice_Get :: "Labels \<Rightarrow> byte list \<Rightarrow> byte list" where
  "slice_Get [] name = []"
| "slice_Get (l # ls) name = (if Name l = name then Value l else slice_Get ls name)"

fun slice_Has :: "Labels \<Rightarrow> byte list \<Rightarrow> bool" where
  "slice_Has [] name = False"
| "slice_Has (l # ls) name = (if Name l = name then True else slice_Has ls name)"

fun slice_HasDuplicateLabelNames :: "Labels \<Rightarrow> byte list \<times> bool" where
  "slice_HasDuplicateLabelNames (l # l' # ls) = (if Name l' = Name l then (Name l', True) else slice_HasDuplicateLabelNames (l' # ls))"
| "slice_HasDuplicateLabelNames ls = ([], False)"

definition slice_WithoutEmpty :: "Labels \<Rightarrow> Labels" where
  "slice_WithoutEmpty ls = (if \<forall>v \<in> set ls. Value v \<noteq> [] then ls else filter (\<lambda>v. Value v \<noteq> []) ls)"

fun slice_Compare :: "Labels \<Rightarrow> Labels \<Rightarrow> int" where
  "slice_Compare (x # a) (y # b) =
     (if Name x \<noteq> Name y then (if Name x < Name y then - 1 else 1)
      else if Value x \<noteq> Value y then (if Value x < Value y then - 1 else 1)
      else slice_Compare a b)"
| "slice_Compare a b = int (length a) - int (length b)"

fun slice_HashForLabels :: "Labels \<Rightarrow> byte list list \<Rightarrow> byte list" where
  "slice_HashForLabels (l # ls) (n # ns) =
     (if n < Name l then slice_HashForLabels (l # ls) ns
      else if Name l < n then slice_HashForLabels ls (n # ns)
      else hash_part (Name l) (Value l) @ slice_HashForLabels ls ns)"
| "slice_HashForLabels ls ns = []"

fun slice_HashWithoutLabels :: "Labels \<Rightarrow> byte list list \<Rightarrow> byte list" where
  "slice_HashWithoutLabels [] names = []"
| "slice_HashWithoutLabels (l # ls) names =
     (let names = skip_names (Name l) names in
      (if Name l = MetricName \<or> (names \<noteq> [] \<and> Name l = hd names) then [] else hash_part (Name l) (Value l)) @ slice_HashWithoutLabels ls names)"

fun slice_DropReserved :: "(byte list \<Rightarrow> bool) \<Rightarrow> Labels \<Rightarrow> Labels option" where
  "slice_DropReserved shouldDropFn [] = Some []"
| "slice_DropReserved shouldDropFn (l # ls) =
     Option.bind (at (Name l) 0) (\<lambda>c.
       if 95 < c then Some (l # ls)
       else if shouldDropFn (Name l) then slice_DropReserved shouldDropFn ls
       else map_option (Cons l) (slice_DropReserved shouldDropFn ls))"

section \<open>Builder\<close>

record 'l Builder =
  base :: 'l
  del :: "byte list list"
  add :: "Label list"

definition contains :: "Label list \<Rightarrow> byte list \<Rightarrow> bool" where
  "contains s n \<longleftrightarrow> (\<exists>a \<in> set s. Name a = n)"

text \<open>\<open>Reset\<close> with the labels that \<open>Range\<close> visits. Names in \<open>add\<close> are distinct, so that \<open>Del\<close> removes at most one of them.\<close>

definition Reset :: "'l \<Rightarrow> Labels \<Rightarrow> 'l Builder" where
  "Reset ls rng = \<lparr>base = ls, del = map Name (filter (\<lambda>l. Value l = []) rng), add = []\<rparr>"

definition Del :: "byte list list \<Rightarrow> 'l Builder \<Rightarrow> 'l Builder" where
  "Del ns b = fold (\<lambda>n b. b\<lparr>add := filter (\<lambda>a. Name a \<noteq> n) (add b), del := del b @ [n]\<rparr>) ns b"

definition Builder_Keep :: "Labels \<Rightarrow> byte list list \<Rightarrow> 'l Builder \<Rightarrow> 'l Builder" where
  "Builder_Keep rng ns b = b\<lparr>del := del b @ map Name (filter (\<lambda>l. Name l \<notin> set ns) rng)\<rparr>"

fun set_value :: "byte list \<Rightarrow> byte list \<Rightarrow> Label list \<Rightarrow> Label list" where
  "set_value n v [] = [\<lparr>Name = n, Value = v\<rparr>]"
| "set_value n v (a # as) = (if Name a = n then a\<lparr>Value := v\<rparr> # as else a # set_value n v as)"

definition Set :: "byte list \<Rightarrow> byte list \<Rightarrow> 'l Builder \<Rightarrow> 'l Builder" where
  "Set n v b = (if v = [] then Del [n] b else b\<lparr>add := set_value n v (add b)\<rparr>)"

definition Builder_Get :: "('l \<Rightarrow> byte list \<Rightarrow> byte list) \<Rightarrow> byte list \<Rightarrow> 'l Builder \<Rightarrow> byte list" where
  "Builder_Get get n b =
     (case find (\<lambda>a. Name a = n) (add b) of
        Some a \<Rightarrow> Value a
      | None \<Rightarrow> if n \<in> set (del b) then [] else get (base b) n)"

definition Builder_Range :: "('l \<Rightarrow> Labels) \<Rightarrow> 'l Builder \<Rightarrow> Labels" where
  "Builder_Range rng b = filter (\<lambda>l. Name l \<notin> set (del b) \<and> \<not> contains (add b) (Name l)) (rng (base b)) @ add b"

definition slice_Builder_Labels :: "Labels Builder \<Rightarrow> Labels" where
  "slice_Builder_Labels b =
     (if del b = [] \<and> add b = [] then base b
      else let res = filter (\<lambda>l. Name l \<notin> set (del b) \<and> \<not> contains (add b) (Name l)) (base b)
        in if add b \<noteq> [] then sort_key Name (res @ add b) else res)"

text \<open>The merge of the encoded base with the sorted additions and deletions; positions in these are kept as their rests.\<close>

fun append_data :: "byte list \<Rightarrow> Label list \<Rightarrow> byte list option" where
  "append_data buf [] = Some buf"
| "append_data buf (m # ms) = Option.bind (appendLabelTo buf m) (\<lambda>buf. append_data buf ms)"

partial_function (option) merge_loop :: "byte list \<Rightarrow> byte list \<Rightarrow> Label list \<Rightarrow> byte list list \<Rightarrow> nat \<Rightarrow> byte list option" where
  "merge_loop data buf a d pos =
     (if pos < length data
      then Option.bind (decodeString data pos) (\<lambda>(lName, pos'). Option.bind (decodeString data pos') (\<lambda>(_, pos').
             if skip_names lName d \<noteq> [] \<and> hd (skip_names lName d) = lName then merge_loop data buf a (skip_names lName d) pos'
             else Option.bind (append_data buf (takeWhile (\<lambda>m. Name m < lName) a)) (\<lambda>buf'.
               if dropWhile (\<lambda>m. Name m < lName) a \<noteq> [] \<and> Name (hd (dropWhile (\<lambda>m. Name m < lName) a)) = lName
               then Option.bind (appendLabelTo buf' (hd (dropWhile (\<lambda>m. Name m < lName) a))) (\<lambda>buf''.
                      merge_loop data buf'' (tl (dropWhile (\<lambda>m. Name m < lName) a)) (skip_names lName d) pos')
               else Option.bind (slice data pos pos') (\<lambda>s.
                      merge_loop data (buf' @ s) (dropWhile (\<lambda>m. Name m < lName) a) (skip_names lName d) pos'))))
      else append_data buf a)"

definition Builder_Labels :: "byte list Builder \<Rightarrow> byte list option" where
  "Builder_Labels b =
     (if del b = [] \<and> add b = [] then Some (base b)
      else Option.bind (labelsSize (sort_key Name (add b))) (\<lambda>_. merge_loop (base b) [] (sort_key Name (add b)) (sort (del b)) 0))"

definition MatchLabels :: "bool \<Rightarrow> byte list list \<Rightarrow> byte list \<Rightarrow> byte list option" where
  "MatchLabels on names data =
     Option.bind (Labels_Range data) (\<lambda>rng.
       let b = Reset data rng in Builder_Labels (if on then Builder_Keep rng names b else Del names (Del [MetricName] b)))"

text \<open>Labels built from scratch.\<close>

record ScratchBuilder =
  sb_add :: "Label list"
  sb_output :: "byte list"

definition ScratchBuilder_Reset :: "ScratchBuilder \<Rightarrow> ScratchBuilder" where
  "ScratchBuilder_Reset b = b\<lparr>sb_add := [], sb_output := []\<rparr>"

definition ScratchBuilder_Add :: "byte list \<Rightarrow> byte list \<Rightarrow> ScratchBuilder \<Rightarrow> ScratchBuilder" where
  "ScratchBuilder_Add name value b = b\<lparr>sb_add := sb_add b @ [\<lparr>Name = name, Value = value\<rparr>]\<rparr>"

definition ScratchBuilder_Sort :: "ScratchBuilder \<Rightarrow> ScratchBuilder" where
  "ScratchBuilder_Sort b = b\<lparr>sb_add := sort_key Name (sb_add b)\<rparr>"

definition ScratchBuilder_Assign :: "byte list \<Rightarrow> ScratchBuilder \<Rightarrow> ScratchBuilder" where
  "ScratchBuilder_Assign l b = b\<lparr>sb_output := l\<rparr>"

definition ScratchBuilder_Labels :: "ScratchBuilder \<Rightarrow> (byte list \<times> ScratchBuilder) option" where
  "ScratchBuilder_Labels b =
     (if sb_output b = []
      then Option.bind (labelsSize (sb_add b)) (\<lambda>size. Option.bind (marshalLabelsToSizedBuffer (sb_add b) (replicate size 0)) (\<lambda>(_, buf).
             Some (buf, b\<lparr>sb_output := buf\<rparr>)))
      else Some (sb_output b, b))"

end
