(* ===== verification/LabelsCorrect.thy ===== *)
theory LabelsCorrect
  imports Labels
begin

text \<open>
  The encoding of label sets as a function of a list of labels, and that every operation on the encoding computes what the
  operation on the list computes.
\<close>

section \<open>The encoding\<close>

definition enc_size :: "nat \<Rightarrow> byte list" where
  "enc_size n = (if n < 255 then [of_nat n] else [255, of_nat n, of_nat (n div 2 ^ 8), of_nat (n div 2 ^ 16)])"

definition enc_str :: "byte list \<Rightarrow> byte list" where
  "enc_str s = enc_size (length s) @ s"

definition enc_label :: "Label \<Rightarrow> byte list" where
  "enc_label l = enc_str (Name l) @ enc_str (Value l)"

definition encode :: "Labels \<Rightarrow> byte list" where
  "encode ls = concat (map enc_label ls)"

definition label_ok :: "Label \<Rightarrow> bool" where
  "label_ok l \<longleftrightarrow> Name l \<noteq> [] \<and> length (Name l) < 2 ^ 24 \<and> length (Value l) < 2 ^ 24"

definition labels_ok :: "Labels \<Rightarrow> bool" where
  "labels_ok ls \<longleftrightarrow> (\<forall>l \<in> set ls. label_ok l) \<and> sorted_wrt (<) (map Name ls)"

lemma encode_simps [simp]: "encode [] = []" "encode (l # ls) = enc_label l @ encode ls" "encode (ls @ ms) = encode ls @ encode ms"
  by (simp_all add: encode_def)

lemma enc_ne [simp]: "enc_size n \<noteq> []" "enc_str s \<noteq> []" "enc_label l \<noteq> []"
  by (simp_all add: enc_size_def enc_str_def enc_label_def)

lemma at_append [simp]: "at (p @ q) (length p + i) = at q i" "at (p @ q) (length p) = at q 0"
  by (simp_all add: at_def nth_append)

lemma slice_append [simp]: "slice (p @ s @ q) (length p) (length p + length s) = Some s"
  by (simp add: slice_def)

lemma byte_sum:
  assumes "n < 2 ^ 24"
  shows "n mod 2 ^ 8 + (n div 2 ^ 8) mod 2 ^ 8 * 2 ^ 8 + (n div 2 ^ 16) mod 2 ^ 8 * 2 ^ 16 = (n :: nat)"
proof -
  define m where "m = n div 2 ^ 8"
  have "n div 2 ^ 16 = m div 2 ^ 8" by (simp add: m_def div_mult2_eq [symmetric])
  moreover have "n div 2 ^ 16 < 2 ^ 8" using assms less_mult_imp_div_less [of n "2 ^ 8" "2 ^ 16"] by simp
  ultimately have "(n div 2 ^ 16) mod 2 ^ 8 = m div 2 ^ 8" by simp
  moreover have "n = m * 2 ^ 8 + n mod 2 ^ 8" "m = (m div 2 ^ 8) * 2 ^ 8 + m mod 2 ^ 8" unfolding m_def by (rule div_mult_mod_eq [symmetric])+
  moreover have "a + b * 2 ^ 8 + c * 2 ^ 16 = k" if "k = j * 2 ^ 8 + a" "j = c * 2 ^ 8 + b" for a b c j k :: nat using that by simp
  ultimately show ?thesis unfolding m_def [symmetric] by metis
qed

lemma at_first: "at (b # q) 0 = Some b" "at (b # b0 # q) 1 = Some b0" "at (b # b0 # b1 # q) 2 = Some b1" "at (b # b0 # b1 # b2 # q) 3 = Some b2"
  by (simp_all add: at_def numeral_2_eq_2 numeral_3_eq_3)

lemma decode_size:
  assumes "n < 2 ^ 24"
  shows "decodeSize (p @ enc_size n @ q) (length p) = Some (n, length p + length (enc_size n))"
proof (cases "n < 255")
  case True
  then have "(of_nat n :: byte) \<noteq> 255" "unat (of_nat n :: byte) = n" by (auto simp: word_unat_eq_iff unat_of_nat)
  then show ?thesis using True by (simp add: decodeSize_def enc_size_def at_first)
next
  case False
  let ?d = "p @ 255 # of_nat n # of_nat (n div 2 ^ 8) # of_nat (n div 2 ^ 16) # q"
  have u: "unat (of_nat k :: byte) = k mod 2 ^ 8" for k by (simp add: unat_of_nat)
  have "at ?d (length p) = Some 255" "at ?d (length p + 1) = Some (of_nat n)" "at ?d (length p + 2) = Some (of_nat (n div 2 ^ 8))" "at ?d (length p + 3) = Some (of_nat (n div 2 ^ 16))"
    unfolding at_append by (rule at_first)+
  then have "decodeSize ?d (length p) = Some (n mod 2 ^ 8 + (n div 2 ^ 8) mod 2 ^ 8 * 2 ^ 8 + (n div 2 ^ 16) mod 2 ^ 8 * 2 ^ 16, length p + 4)"
    unfolding decodeSize_def by (simp only: bind.bind_lunit if_True u simp_thms)
  then show ?thesis unfolding byte_sum [OF assms] using False by (simp add: enc_size_def)
qed

lemma decode_str:
  assumes "length s < 2 ^ 24"
  shows "decodeString (p @ enc_str s @ q) (length p) = Some (s, length p + length (enc_str s))"
  using decode_size [OF assms, of p "s @ q"] slice_append [of "p @ enc_size (length s)" s q]
  by (simp add: decodeString_def enc_str_def add.assoc)

text \<open>The bytes from a position on are the given labels.\<close>

definition rest_is :: "byte list \<Rightarrow> nat \<Rightarrow> Labels \<Rightarrow> bool" where
  "rest_is data i ls \<longleftrightarrow> i \<le> length data \<and> drop i data = encode ls \<and> (\<forall>l \<in> set ls. label_ok l)"

lemma rest_start: "\<forall>l \<in> set ls. label_ok l \<Longrightarrow> rest_is (encode ls) 0 ls"
  by (simp add: rest_is_def)

lemma rest_end: "rest_is data i [] \<Longrightarrow> \<not> i < length data" "rest_is data i [] \<Longrightarrow> take i data = data"
  by (auto simp: rest_is_def)

lemma label_at:
  assumes "rest_is data i (l # ls)"
  obtains s v w n where "decodeSize data i = Some (length (Name l), s)" "s + length (Name l) = v" "decodeString data i = Some (Name l, v)"
    "decodeSize data v = Some (length (Value l), w)" "w + length (Value l) = n" "decodeString data v = Some (Value l, n)"
    "at data s = Some (hd (Name l))" "slice data s v = Some (Name l)" "slice data i n = Some (enc_label l)"
    "i < length data" "rest_is data n ls" "take n data = take i data @ enc_label l" "slice data n (length data) = Some (encode ls)"
proof
  let ?n = "enc_size (length (Name l))" and ?v = "enc_size (length (Value l))"
  define p where "p = take i data"
  have ok: "length (Name l) < 2 ^ 24" "length (Value l) < 2 ^ 24" "Name l \<noteq> []" using assms by (simp_all add: rest_is_def label_ok_def)
  have i: "i = length p" using assms by (simp add: rest_is_def p_def)
  have data: "data = p @ ?n @ Name l @ ?v @ Value l @ encode ls"
  proof -
    have "drop i data = ?n @ Name l @ ?v @ Value l @ encode ls" using assms by (simp add: rest_is_def enc_label_def enc_str_def)
    then show ?thesis unfolding p_def by (metis append_take_drop_id)
  qed
  then have data': "data = p @ enc_label l @ encode ls" by (simp add: enc_label_def enc_str_def)
  have len: "length (p @ enc_label l) = length (p @ ?n @ Name l @ ?v @ Value l)" by (simp add: enc_label_def enc_str_def)
  show "decodeSize data i = Some (length (Name l), length (p @ ?n))" using decode_size [OF ok(1), of p "Name l @ ?v @ Value l @ encode ls"] by (simp add: data i)
  show "length (p @ ?n) + length (Name l) = length (p @ ?n @ Name l)" by simp
  show "decodeString data i = Some (Name l, length (p @ ?n @ Name l))" using decode_str [OF ok(1), of p "?v @ Value l @ encode ls"] by (simp add: data i enc_str_def)
  show "decodeSize data (length (p @ ?n @ Name l)) = Some (length (Value l), length (p @ ?n @ Name l @ ?v))"
    using decode_size [OF ok(2), of "p @ ?n @ Name l" "Value l @ encode ls"] by (simp add: data add.assoc)
  show "length (p @ ?n @ Name l @ ?v) + length (Value l) = length (p @ enc_label l)" unfolding len by simp
  show "decodeString data (length (p @ ?n @ Name l)) = Some (Value l, length (p @ enc_label l))"
    using decode_str [OF ok(2), of "p @ ?n @ Name l" "encode ls"] unfolding len by (simp add: data enc_str_def add.assoc)
  show "at data (length (p @ ?n)) = Some (hd (Name l))"
    using at_append(2) [of "p @ ?n" "Name l @ ?v @ Value l @ encode ls"] ok(3) by (simp add: data at_def hd_conv_nth nth_append)
  show "slice data (length (p @ ?n)) (length (p @ ?n @ Name l)) = Some (Name l)"
    using slice_append [of "p @ ?n" "Name l" "?v @ Value l @ encode ls"] by (simp add: data add.assoc)
  show "slice data i (length (p @ enc_label l)) = Some (enc_label l)" by (simp add: data' i)
  show "slice data (length (p @ enc_label l)) (length data) = Some (encode ls)" by (simp add: data' slice_def)
  show "i < length data" by (simp add: data' i)
  show "rest_is data (length (p @ enc_label l)) ls" using assms by (simp add: rest_is_def data')
  show "take (length (p @ enc_label l)) data = take i data @ enc_label l" by (simp add: data' i)
qed

section \<open>Loops\<close>

lemma range_loop: "rest_is data i ls \<Longrightarrow> Range_loop data i = Some ls"
proof (induction ls arbitrary: i)
  case Nil
  then show ?case by (simp add: Range_loop.simps [of data i] rest_end)
next
  case (Cons l ls)
  from Cons.prems show ?case by (rule label_at) (simp add: Range_loop.simps [of data i] Cons.IH)
qed

lemma len_loop: "rest_is data i ls \<Longrightarrow> Len_loop data i k = Some (k + length ls)"
proof (induction ls arbitrary: i k)
  case Nil
  then show ?case by (simp add: Len_loop.simps [of data i] rest_end)
next
  case (Cons l ls)
  from Cons.prems show ?case by (rule label_at) (simp add: Len_loop.simps [of data i] Cons.IH)
qed

lemma less_hd: "a \<noteq> [] \<Longrightarrow> b \<noteq> [] \<Longrightarrow> hd a < hd b \<Longrightarrow> a < (b :: byte list)"
  by (cases a; cases b) auto

lemma slice_Get_find: "slice_Get ls name = (case find (\<lambda>l. Name l = name) ls of Some l \<Rightarrow> Value l | None \<Rightarrow> [])"
  by (induction ls) auto

lemma slice_Has_iff: "slice_Has ls name \<longleftrightarrow> (\<exists>l \<in> set ls. Name l = name)"
  by (induction ls) auto

lemma past_name:
  assumes "rest_is data i (l # ls)" "sorted_wrt (<) (map Name (l # ls))" "name \<noteq> []" "hd name < hd (Name l)" "l' \<in> set (l # ls)"
  shows "Name l' \<noteq> name"
proof -
  have "Name l \<noteq> []" using assms(1) by (simp add: rest_is_def label_ok_def)
  then have "name < Name l" using assms(3,4) by (intro less_hd)
  then show ?thesis using assms(2,5) by (auto dest: less_trans)
qed

lemma get_loop:
  "rest_is data i ls \<Longrightarrow> sorted_wrt (<) (map Name ls) \<Longrightarrow> name \<noteq> [] \<Longrightarrow> Get_loop data name i = Some (map_option Value (find (\<lambda>l. Name l = name) ls))"
proof (induction ls arbitrary: i)
  case Nil
  then show ?case by (simp add: Get_loop.simps [of data name i] rest_end)
next
  case (Cons l ls)
  have past: "hd name < hd (Name l) \<Longrightarrow> Name l \<noteq> name \<and> find (\<lambda>l. Name l = name) ls = None"
    using past_name [OF Cons.prems] by (auto simp: find_None_iff)
  from Cons.prems(1) show ?case
    by (rule label_at) (use Cons.prems past in \<open>auto simp: Get_loop.simps [of data name i] Cons.IH\<close>)
qed

lemma has_loop:
  "rest_is data i ls \<Longrightarrow> sorted_wrt (<) (map Name ls) \<Longrightarrow> name \<noteq> [] \<Longrightarrow> Has_loop data name i = Some (slice_Has ls name)"
proof (induction ls arbitrary: i)
  case Nil
  then show ?case by (simp add: Has_loop.simps [of data name i] rest_end)
next
  case (Cons l ls)
  have past: "hd name < hd (Name l) \<Longrightarrow> Name l \<noteq> name \<and> \<not> slice_Has ls name"
    using past_name [OF Cons.prems] by (auto simp: slice_Has_iff)
  from Cons.prems(1) show ?case
    by (rule label_at) (use Cons.prems past in \<open>auto simp: Has_loop.simps [of data name i] Cons.IH\<close>)
qed

lemma dup_loop:
  "rest_is data i ls \<Longrightarrow> Name l0 \<noteq> [] \<Longrightarrow> dup_loop data (Name l0) i = Some (slice_HasDuplicateLabelNames (l0 # ls))"
proof (induction ls arbitrary: i l0)
  case Nil
  then show ?case by (simp add: dup_loop.simps [of data "Name l0" i] rest_end)
next
  case (Cons l ls)
  have ne: "Name l \<noteq> []" using Cons.prems(1) by (simp add: rest_is_def label_ok_def)
  from Cons.prems(1) show ?case by (rule label_at) (use Cons.prems(2) Cons.IH [OF _ ne] in \<open>simp add: dup_loop.simps [of data "Name l0" i]\<close>)
qed

lemma copy_loop: "rest_is data i ls \<Longrightarrow> copy_loop data buf i = Some (buf @ encode (filter (\<lambda>l. Value l \<noteq> []) ls))"
proof (induction ls arbitrary: i buf)
  case Nil
  then show ?case by (simp add: copy_loop.simps [of data buf i] rest_end)
next
  case (Cons l ls)
  from Cons.prems show ?case by (rule label_at) (simp add: copy_loop.simps [of data buf i] Cons.IH)
qed

lemma blank_loop: "rest_is data i ls \<Longrightarrow> blank_loop data i = Some (take i data @ encode (filter (\<lambda>l. Value l \<noteq> []) ls))"
proof (induction ls arbitrary: i)
  case Nil
  then show ?case by (simp add: blank_loop.simps [of data i] rest_end)
next
  case (Cons l ls)
  from Cons.prems show ?case by (rule label_at) (simp add: blank_loop.simps [of data i] Cons.IH copy_loop)
qed

lemma drop_reserved_loop:
  "rest_is data i ls \<Longrightarrow> DropReserved_loop f data i = map_option (\<lambda>ls. take i data @ encode ls) (slice_DropReserved f ls)"
proof (induction ls arbitrary: data i)
  case Nil
  then show ?case by (simp add: DropReserved_loop.simps [of f data i] rest_end)
next
  case (Cons l ls)
  have c: "at (Name l) 0 = Some (hd (Name l))" using Cons.prems by (simp add: rest_is_def label_ok_def at_def hd_conv_nth)
  have data: "take i data @ enc_label l @ encode ls = data" using Cons.prems by (metis append_take_drop_id encode_simps(2) rest_is_def)
  have i: "length (take i data) = i" using Cons.prems by (simp add: rest_is_def)
  then have "rest_is (take i data @ encode ls) i ls" using Cons.prems by (simp add: rest_is_def)
  then have D: "DropReserved_loop f (take i data @ encode ls) i = map_option (\<lambda>ls. take i data @ encode ls) (slice_DropReserved f ls)"
    using Cons.IH [of "take i data @ encode ls" i] i by simp
  have E: "(if i = 0 then encode ls else take i data @ encode ls) = take i data @ encode ls" by simp
  from Cons.prems show ?case
    by (rule label_at) (simp add: DropReserved_loop.simps [of f data i] c D E Cons.IH data option.map_comp comp_def)
qed

text \<open>Subsets.\<close>

lemma skip_names_mem: "\<not> n < name \<Longrightarrow> n \<in> set (skip_names name names) \<longleftrightarrow> n \<in> set names"
  unfolding skip_names_def by (induction names) auto

lemma skip_names_filter:
  assumes "sorted_wrt (<) (map Name (l # ls))"
  shows "filter (\<lambda>l'. Name l' \<in> set (skip_names (Name l) names)) ls = filter (\<lambda>l'. Name l' \<in> set names) ls"
    "filter (\<lambda>l'. Name l' \<notin> set (skip_names (Name l) names)) ls = filter (\<lambda>l'. Name l' \<notin> set names) ls"
  using assms by (auto intro!: filter_cong simp: skip_names_mem less_not_sym)

lemma skip_names_hd:
  assumes "sorted names"
  shows "skip_names name names \<noteq> [] \<and> name = hd (skip_names name names) \<longleftrightarrow> name \<in> set names" "sorted (skip_names name names)"
proof -
  show "sorted (skip_names name names)" using assms by (simp add: skip_names_def sorted_dropWhile)
  show "skip_names name names \<noteq> [] \<and> name = hd (skip_names name names) \<longleftrightarrow> name \<in> set names"
    using assms unfolding skip_names_def by (induction names) auto
qed

lemma bytes_with_loop:
  "rest_is data i ls \<Longrightarrow> sorted_wrt (<) (map Name ls) \<Longrightarrow> sorted names \<Longrightarrow>
    BytesWithLabels_loop data b names i = Some (b @ encode (filter (\<lambda>l. Name l \<in> set names) ls))"
proof (induction ls arbitrary: i b names)
  case Nil
  then show ?case by (simp add: BytesWithLabels_loop.simps [of data b names i] rest_end)
next
  case (Cons l ls)
  note skip = skip_names_hd [OF Cons.prems(3), of "Name l"] and rest = skip_names_filter(1) [OF Cons.prems(2), of names]
  have none: "filter (\<lambda>l. Name l \<in> set names) (l # ls) = []" if "skip_names (Name l) names = []"
    using skip(1) rest that by simp
  from Cons.prems(1) show ?case
    by (rule label_at) (use Cons.prems(2) none skip rest in \<open>auto simp: BytesWithLabels_loop.simps [of data b names i] Cons.IH\<close>)
qed

lemma bytes_without_loop:
  "rest_is data i ls \<Longrightarrow> sorted_wrt (<) (map Name ls) \<Longrightarrow> sorted names \<Longrightarrow>
    BytesWithoutLabels_loop data b names i = Some (b @ encode (filter (\<lambda>l. Name l \<notin> set names) ls))"
proof (induction ls arbitrary: i b names)
  case Nil
  then show ?case by (simp add: BytesWithoutLabels_loop.simps [of data b names i] rest_end)
next
  case (Cons l ls)
  note skip = skip_names_hd [OF Cons.prems(3), of "Name l"] and rest = skip_names_filter(2) [OF Cons.prems(2), of names]
  from Cons.prems(1) show ?case
    by (rule label_at) (use Cons.prems(2) skip rest in \<open>auto simp: BytesWithoutLabels_loop.simps [of data b names i] Cons.IH\<close>)
qed

text \<open>Writing.\<close>

lemma copy_into_append [simp]: "length s' = length s \<Longrightarrow> copy_into (p @ s' @ q) (length p) s = p @ s @ q"
  by (simp add: copy_into_def)

lemma encode_size:
  assumes "length s' = length (enc_size v)"
  shows "encodeSize (p @ s' @ q) (length p + length s') v = Some (length p, p @ enc_size v @ q)"
proof (cases "v < 255")
  case True
  then obtain x where "s' = [x]" using assms by (auto simp: enc_size_def length_Suc_conv)
  then show ?thesis using True by (simp add: encodeSize_def enc_size_def)
next
  case False
  then have "length s' = Suc (Suc (Suc (Suc 0)))" using assms by (simp add: enc_size_def)
  then obtain x0 x1 x2 x3 where "s' = [x0, x1, x2, x3]" by (auto simp: length_Suc_conv)
  then show ?thesis using False by (simp add: encodeSize_def enc_size_def list_update_append)
qed

lemma size_when_encoded: "length s < 2 ^ 24 \<Longrightarrow> sizeWhenEncoded (length s) = Some (length (enc_size (length s)))"
  by (simp add: sizeWhenEncoded_def enc_size_def)

lemma label_size: "label_ok l \<Longrightarrow> labelSize l = Some (length (enc_label l))"
  by (simp add: labelSize_def label_ok_def size_when_encoded enc_label_def enc_str_def)

lemma labels_size: "\<forall>l \<in> set ls. label_ok l \<Longrightarrow> labelsSize ls = Some (length (encode ls))"
  by (induction ls) (simp_all add: label_size)

lemma split_length:
  assumes "length s = a + b"
  obtains u v where "s = u @ v" "length u = a" "length v = b"
  using that [of "take a s" "drop a s"] assms by simp

lemma marshal_label:
  assumes "length s = length (enc_label m)"
  shows "marshalLabelToSizedBuffer m (p @ s) = Some (length (enc_label m), p @ enc_label m)"
proof -
  let ?n = "enc_size (length (Name m))" and ?v = "enc_size (length (Value m))"
  obtain s1 s2 s3 s4 where s: "s = s1 @ s2 @ s3 @ s4" "length s1 = length ?n" "length s2 = length (Name m)" "length s3 = length ?v" "length s4 = length (Value m)"
  proof -
    have len: "length s = length ?n + (length (Name m) + (length ?v + length (Value m)))" using assms by (simp add: enc_label_def enc_str_def)
    obtain s1 r1 where "s = s1 @ r1" "length s1 = length ?n" "length r1 = length (Name m) + (length ?v + length (Value m))" using split_length [OF len] .
    moreover obtain s2 r2 where "r1 = s2 @ r2" "length s2 = length (Name m)" "length r2 = length ?v + length (Value m)" using split_length [OF calculation(3)] .
    moreover obtain s3 s4 where "r2 = s3 @ s4" "length s3 = length ?v" "length s4 = length (Value m)" using split_length [OF calculation(6)] .
    ultimately show ?thesis using that by simp
  qed
  have 1: "copy_into (p @ s) (length (p @ s) - length (Value m)) (Value m) = (p @ s1 @ s2) @ s3 @ Value m"
    using copy_into_append [of s4 "Value m" "p @ s1 @ s2 @ s3" "[]"] s by simp
  have 2: "encodeSize ((p @ s1 @ s2) @ s3 @ Value m) (length (p @ s) - length (Value m)) (length (Value m)) = Some (length (p @ s1 @ s2), (p @ s1 @ s2) @ ?v @ Value m)"
    using encode_size [OF s(4), of "p @ s1 @ s2" "Value m"] s by (simp add: add.assoc)
  have 3: "copy_into ((p @ s1 @ s2) @ ?v @ Value m) (length (p @ s1 @ s2) - length (Name m)) (Name m) = p @ s1 @ Name m @ ?v @ Value m"
    using copy_into_append [of s2 "Name m" "p @ s1" "?v @ Value m"] s by simp
  have 4: "encodeSize (p @ s1 @ Name m @ ?v @ Value m) (length (p @ s1 @ s2) - length (Name m)) (length (Name m)) = Some (length p, p @ ?n @ Name m @ ?v @ Value m)"
    using encode_size [OF s(2), of p "Name m @ ?v @ Value m"] s by simp
  have g: "\<not> length (p @ s) < length (Value m)" "\<not> length (p @ s1 @ s2) < length (Name m)" using s by simp_all
  show ?thesis unfolding marshalLabelToSizedBuffer_def Let_def 1 2 bind.bind_lunit prod.case 3 4 using g assms by (simp add: enc_label_def enc_str_def)
qed

lemma append_label: "label_ok m \<Longrightarrow> appendLabelTo buf m = Some (buf @ enc_label m)"
  by (simp add: appendLabelTo_def label_size marshal_label)

lemma append_data: "\<forall>m \<in> set ms. label_ok m \<Longrightarrow> append_data buf ms = Some (buf @ encode ms)"
  by (induction ms arbitrary: buf) (simp_all add: append_label)

lemma marshal_loop: "length s = length (encode ls) \<Longrightarrow> marshal_loop (rev ls) (s @ q) (length s) = Some (0, encode ls @ q)"
proof (induction ls arbitrary: s q rule: rev_induct)
  case (snoc l ls)
  have len: "length s = length (encode ls) + length (enc_label l)" using snoc.prems by simp
  obtain s1 s2 where s: "s = s1 @ s2" "length s1 = length (encode ls)" "length s2 = length (enc_label l)" using split_length [OF len] .
  have "marshal_loop (rev ls) (s1 @ enc_label l @ q) (length s1) = Some (0, encode ls @ enc_label l @ q)" using snoc.IH [OF s(2), of "enc_label l @ q"] by simp
  then show ?case using marshal_label [OF s(3), of s1] s by simp
qed simp

lemma marshal_labels: "length s = length (encode ls) \<Longrightarrow> marshalLabelsToSizedBuffer ls s = Some (length s, encode ls)"
  using marshal_loop [of s ls "[]"] by (simp add: marshalLabelsToSizedBuffer_def)

lemma new_labels: "\<forall>l \<in> set ls. label_ok l \<Longrightarrow> New ls = Some (encode (sort_key Name ls))"
  by (simp add: New_def labels_size marshal_labels)

text \<open>Hashed bytes.\<close>

lemma slice_hash_for_step:
  "slice_HashForLabels (l # ls) names =
    (case skip_names (Name l) names of [] \<Rightarrow> [] | n # ns \<Rightarrow> if Name l = n then hash_part (Name l) (Value l) @ slice_HashForLabels ls ns else slice_HashForLabels ls (n # ns))"
  by (induction names) (auto simp: skip_names_def)

lemma slice_hash_for_passed: "sorted_wrt (<) (map Name (l # ls)) \<Longrightarrow> slice_HashForLabels ls (Name l # ns) = slice_HashForLabels ls ns"
  by (cases ls) auto

lemma hash_for_loop:
  "rest_is data i ls \<Longrightarrow> sorted_wrt (<) (map Name ls) \<Longrightarrow> HashForLabels_loop data b names i = Some (b @ slice_HashForLabels ls names)"
proof (induction ls arbitrary: i b names)
  case Nil
  then show ?case by (cases names) (simp_all add: HashForLabels_loop.simps [of data b _ i] rest_end)
next
  case (Cons l ls)
  have s: "sorted_wrt (<) (map Name ls)" using Cons.prems(2) by simp
  from Cons.prems(1) show ?case
    by (rule label_at) (use slice_hash_for_passed [OF Cons.prems(2)] s in \<open>auto simp: HashForLabels_loop.simps [of data b names i] Cons.IH slice_hash_for_step split: list.splits\<close>)
qed

lemma hash_without_loop: "rest_is data i ls \<Longrightarrow> HashWithoutLabels_loop data b names i = Some (b @ slice_HashWithoutLabels ls names)"
proof (induction ls arbitrary: i b names)
  case Nil
  then show ?case by (simp add: HashWithoutLabels_loop.simps [of data b names i] rest_end)
next
  case (Cons l ls)
  from Cons.prems show ?case by (rule label_at) (simp add: HashWithoutLabels_loop.simps [of data b names i] Cons.IH Let_def)
qed

section \<open>Builder\<close>

definition is_merge :: "Labels \<Rightarrow> Labels \<Rightarrow> Labels \<Rightarrow> byte list list \<Rightarrow> bool" where
  "is_merge r ls a d \<longleftrightarrow> sorted_wrt (<) (map Name r) \<and> set r = {l \<in> set ls. Name l \<notin> set d \<and> \<not> contains a (Name l)} \<union> set a"

lemma sorted_labels_unique:
  "sorted_wrt (<) (map Name xs) \<Longrightarrow> sorted_wrt (<) (map Name ys) \<Longrightarrow> set xs = set ys \<Longrightarrow> xs = (ys :: Labels)"
proof (induction xs arbitrary: ys)
  case (Cons x xs)
  then obtain y ys' where ys: "ys = y # ys'" by (cases ys) auto
  have "x = y"
  proof (rule ccontr)
    assume "x \<noteq> y"
    then have "x \<in> set ys'" "y \<in> set xs" using Cons.prems(3) ys by auto
    then have "Name y < Name x" "Name x < Name y" using Cons.prems ys by auto
    then show False by simp
  qed
  moreover have "x \<notin> set xs" "y \<notin> set ys'" using Cons.prems ys by auto
  ultimately have "set xs = set ys'" using Cons.prems(3) ys by (simp add: insert_ident)
  then show ?case using Cons.IH [of ys'] Cons.prems(1,2) ys \<open>x = y\<close> by simp
qed simp

lemma takeWhile_less: "sorted_wrt (<) (map Name a) \<Longrightarrow> set (takeWhile (\<lambda>m. Name m < n) a) = {m \<in> set a. Name m < n}"
  "sorted_wrt (<) (map Name a) \<Longrightarrow> set (dropWhile (\<lambda>m. Name m < n) a) = {m \<in> set a. n \<le> Name m}"
proof (induction a)
  case (Cons x a)
  { case 1
    then show ?case using Cons.IH(1) by (auto dest: less_trans)
  next
    case 2
    then show ?case using Cons.IH(2) by (auto dest: less_trans)
  }
qed simp_all

lemma sorted_parts: "sorted_wrt (<) (map Name a) \<Longrightarrow> sorted_wrt (<) (map Name (takeWhile P a)) \<and> sorted_wrt (<) (map Name (dropWhile P a))"
  by (metis map_append sorted_wrt_append takeWhile_dropWhile_id)

lemma merge_loop:
  assumes "rest_is data i ls" "sorted_wrt (<) (map Name ls)" "sorted_wrt (<) (map Name a)" "sorted d" "\<forall>m \<in> set a. label_ok m"
  shows "\<exists>r. merge_loop data buf a d i = Some (buf @ encode r) \<and> is_merge r ls a d"
  using assms
proof (induction ls arbitrary: i buf a d)
  case Nil
  then show ?case by (intro exI [of _ a]) (simp add: merge_loop.simps [of data buf a d i] rest_end append_data is_merge_def)
next
  case (Cons l ls)
  let ?d = "skip_names (Name l) d" and ?a1 = "takeWhile (\<lambda>m. Name m < Name l) a" and ?a2 = "dropWhile (\<lambda>m. Name m < Name l) a"
  note skip = skip_names_hd [OF Cons.prems(4), of "Name l"]
  have ls: "sorted_wrt (<) (map Name ls)" "\<forall>l' \<in> set ls. Name l < Name l'" using Cons.prems(2) by simp_all
  have mem: "Name l' \<in> set ?d \<longleftrightarrow> Name l' \<in> set d" if "l' \<in> set ls" for l' using ls(2) that by (simp add: skip_names_mem less_not_sym)
  note a = takeWhile_less [OF Cons.prems(3), of "Name l"] and s = sorted_parts [OF Cons.prems(3), of "\<lambda>m. Name m < Name l"]
  obtain n where n: "decodeString data i = Some (Name l, fst n)" "decodeString data (fst n) = Some (Value l, snd n)" "slice data i (snd n) = Some (enc_label l)"
    "i < length data" "rest_is data (snd n) ls" using label_at [OF Cons.prems(1)] by (metis fst_conv snd_conv)
  have ok: "\<forall>m \<in> set ?a1. label_ok m" "\<forall>m \<in> set ?a2. label_ok m" using Cons.prems(5) a by auto
  consider (del) "Name l \<in> set d" | (add) m a' where "Name l \<notin> set d" "?a2 = m # a'" "Name m = Name l" | (keep) "Name l \<notin> set d" "?a2 = [] \<or> Name (hd ?a2) \<noteq> Name l"
    by (cases ?a2) auto
  then show ?case
  proof cases
    case del
    obtain r where r: "merge_loop data buf a ?d (snd n) = Some (buf @ encode r)" "is_merge r ls a ?d"
      using Cons.IH [OF n(5) ls(1) Cons.prems(3) skip(2) Cons.prems(5)] by blast
    have "is_merge r (l # ls) a d" using r(2) del mem unfolding is_merge_def by auto
    then show ?thesis using r(1) skip(1) del by (intro exI [of _ r]) (simp add: merge_loop.simps [of data buf a d i] n)
  next
    case (add m a')
    have a': "sorted_wrt (<) (map Name a')" "\<forall>x \<in> set a'. label_ok x" "\<forall>x \<in> set a'. Name m < Name x" using s ok add(2) by auto
    obtain r where r: "merge_loop data ((buf @ encode ?a1) @ enc_label m) a' ?d (snd n) = Some ((buf @ encode (?a1 @ [m])) @ encode r)" "is_merge r ls a' ?d"
      using Cons.IH [OF n(5) ls(1) a'(1) skip(2) a'(2), of "(buf @ encode ?a1) @ enc_label m"] by auto
    have "set a = set (?a1 @ ?a2)" by (simp only: takeWhile_dropWhile_id)
    then have set_a: "set a = set ?a1 \<union> {m} \<union> set a'" unfolding add(2) by auto
    have "is_merge (?a1 @ m # r) (l # ls) a d"
      unfolding is_merge_def
    proof
      have "\<forall>x \<in> set r. Name m < Name x" using r(2) a'(3) ls(2) add(3) by (auto simp: is_merge_def)
      then show "sorted_wrt (<) (map Name (?a1 @ m # r))" using s r(2) a(1) add(3) by (auto simp: is_merge_def sorted_wrt_append dest: less_trans)
      have lt: "Name x \<noteq> Name l'" if "x \<in> set ?a1" "l' \<in> set ls" for x l' using a(1) ls(2) that by (metis (no_types, lifting) less_asym mem_Collect_eq)
      have "contains a (Name l)" using add(3) unfolding contains_def set_a by auto
      moreover have "contains a (Name l') \<longleftrightarrow> contains a' (Name l')" if "l' \<in> set ls" for l' using that lt [OF _ that] ls(2) add(3) unfolding contains_def set_a by auto
      ultimately show "set (?a1 @ m # r) = {l' \<in> set (l # ls). Name l' \<notin> set d \<and> \<not> contains a (Name l')} \<union> set a"
        using r(2) mem unfolding is_merge_def set_a by auto
    qed
    then show ?thesis using r(1) skip(1) add
      by (intro exI [of _ "?a1 @ m # r"]) (auto simp: merge_loop.simps [of data buf a d i] n append_data [OF ok(1)] append_label ok(2))
  next
    case keep
    have gt: "\<forall>x \<in> set ?a2. Name l < Name x"
    proof (cases ?a2)
      case (Cons x xs)
      then have "Name l \<le> Name x" "Name x \<noteq> Name l" using a(2) keep(2) by auto
      then show ?thesis using s Cons by (auto dest: less_trans)
    next
      case Nil
      show ?thesis unfolding Nil by simp
    qed
    obtain r where r: "merge_loop data ((buf @ encode ?a1) @ enc_label l) ?a2 ?d (snd n) = Some ((buf @ encode (?a1 @ [l])) @ encode r)" "is_merge r ls ?a2 ?d"
      using Cons.IH [OF n(5) ls(1) _ skip(2) ok(2), of "(buf @ encode ?a1) @ enc_label l"] s by auto
    have set_a: "set a = set ?a1 \<union> set ?a2" by (simp only: takeWhile_dropWhile_id flip: set_append)
    have "is_merge (?a1 @ l # r) (l # ls) a d"
      unfolding is_merge_def
    proof
      have "\<forall>x \<in> set r. Name l < Name x" using r(2) gt ls(2) by (auto simp: is_merge_def)
      then show "sorted_wrt (<) (map Name (?a1 @ l # r))" using s r(2) a(1) by (auto simp: is_merge_def sorted_wrt_append dest: less_trans)
      have lt: "\<forall>x \<in> set ?a1. Name x < Name l" using a(1) by simp
      then have "\<not> contains a (Name l)" using gt unfolding contains_def set_a by force
      moreover have "Name x \<noteq> Name l'" if "x \<in> set ?a1" "l' \<in> set ls" for x l' using lt ls(2) that by (metis less_asym)
      then have "contains a (Name l') \<longleftrightarrow> contains ?a2 (Name l')" if "l' \<in> set ls" for l' using that unfolding contains_def set_a by auto
      ultimately show "set (?a1 @ l # r) = {l' \<in> set (l # ls). Name l' \<notin> set d \<and> \<not> contains a (Name l')} \<union> set a"
        using r(2) mem keep(1) unfolding is_merge_def set_a by auto
    qed
    then show ?thesis using r(1) skip(1) keep
      by (intro exI [of _ "?a1 @ l # r"]) (auto simp: merge_loop.simps [of data buf a d i] n append_data [OF ok(1)])
  qed
qed

lemma distinct_map_sort_key: "distinct (map f (sort_key f xs)) = distinct (map f xs)"
  by (simp add: distinct_map distinct_sort)

lemma slice_builder_merge:
  assumes "sorted_wrt (<) (map Name (base b))" "distinct (map Name (add b))"
  shows "is_merge (slice_Builder_Labels b) (base b) (sort_key Name (add b)) (sort (del b))"
proof -
  let ?res = "filter (\<lambda>l. Name l \<notin> set (del b) \<and> \<not> contains (add b) (Name l)) (base b)"
  have "distinct (map Name (base b))" using assms(1) strict_sorted_iff by blast
  then have "distinct (map Name (?res @ add b))" using assms(2) by (auto simp: distinct_map_filter contains_def)
  then have "sorted_wrt (<) (map Name (sort_key Name (?res @ add b)))" by (simp add: strict_sorted_iff distinct_map_sort_key)
  moreover have "sorted_wrt (<) (map Name ?res)" using assms(1) by (simp add: sorted_wrt_map sorted_wrt_filter)
  ultimately show ?thesis using assms(1)
    by (auto simp: is_merge_def slice_Builder_Labels_def Let_def contains_def)
qed

lemma builder_labels:
  assumes "labels_ok ls" "distinct (map Name a)" "\<forall>m \<in> set a. label_ok m"
  shows "Builder_Labels \<lparr>base = encode ls, del = d, add = a\<rparr> = Some (encode (slice_Builder_Labels \<lparr>base = ls, del = d, add = a\<rparr>))"
proof (cases "d = [] \<and> a = []")
  case True
  then show ?thesis by (simp add: Builder_Labels_def slice_Builder_Labels_def)
next
  case False
  have "sorted_wrt (<) (map Name (sort_key Name a))" using assms(2) by (simp add: strict_sorted_iff distinct_map_sort_key)
  then obtain r where r: "merge_loop (encode ls) [] (sort_key Name a) (sort d) 0 = Some ([] @ encode r)" "is_merge r ls (sort_key Name a) (sort d)"
    using merge_loop [OF rest_start, of ls "sort_key Name a" "sort d" "[]"] assms by (auto simp: labels_ok_def)
  have "is_merge (slice_Builder_Labels \<lparr>base = ls, del = d, add = a\<rparr>) ls (sort_key Name a) (sort d)"
    using slice_builder_merge [of "\<lparr>base = ls, del = d, add = a\<rparr>"] assms by (simp add: labels_ok_def)
  then have "r = slice_Builder_Labels \<lparr>base = ls, del = d, add = a\<rparr>" using r(2) by (auto simp: is_merge_def intro: sorted_labels_unique)
  then show ?thesis using r(1) assms(3) False by (auto simp: Builder_Labels_def labels_size)
qed

section \<open>Comparison\<close>

lemma compare_words_prefix: "take i s = take i l \<Longrightarrow> i \<le> length s \<Longrightarrow> length s \<le> length l \<Longrightarrow>
    take (compare_words s l i) s = take (compare_words s l i) l \<and> compare_words s l i \<le> length s"
proof (induction s l i rule: compare_words.induct)
  case (1 s l i)
  have "take (i + 8) s = take (i + 8) l" if "take 8 (drop i s) = take 8 (drop i l)" using 1(2) that by (simp add: take_add)
  then show ?case using 1 by (auto simp: compare_words.simps [of s l i])
qed

lemma compare_bytes_prefix: "take i s = take i l \<Longrightarrow> i \<le> length s \<Longrightarrow> length s \<le> length l \<Longrightarrow> j = compare_bytes s l i \<Longrightarrow>
    take j s = take j l \<and> j \<le> length s \<and> (j < length s \<longrightarrow> s ! j \<noteq> l ! j)"
proof (induction s l i rule: compare_bytes.induct)
  case (1 s l i)
  have "take (i + 1) s = take (i + 1) l" if "i < length s" "s ! i = l ! i" using 1(2-4) that by (simp add: take_Suc_conv_app_nth)
  then show ?case using 1 by (auto simp: compare_bytes.simps [of s l i])
qed

lemma labels_diverge:
  "(\<exists>c. b = a @ c) \<or> (\<exists>c. a = b @ c) \<or> (\<exists>p l a' m b'. a = p @ l # a' \<and> b = p @ m # b' \<and> l \<noteq> m)"
proof (induction a arbitrary: b)
  case (Cons x a)
  show ?case
  proof (cases b)
    case (Cons y b')
    show ?thesis
    proof (cases "x = y")
      case True
      with Cons.IH [of b'] \<open>b = y # b'\<close> show ?thesis by (elim disjE exE conjE) (simp_all, metis append_Cons)
    next
      case False
      with \<open>b = y # b'\<close> show ?thesis by (intro disjI2 exI [of _ "[]"]) simp
    qed
  qed simp
qed simp

lemma slice_compare_prefix: "slice_Compare (p @ a) (p @ b) = slice_Compare a b"
  by (induction p) simp_all

lemma enc_str_unique: "length x < 2 ^ 24 \<Longrightarrow> length y < 2 ^ 24 \<Longrightarrow> enc_str x @ u = enc_str y @ v \<Longrightarrow> x = y"
  using decode_str [of x "[]" u] decode_str [of y "[]" v] by simp

lemma field_loop:
  assumes "\<forall>y \<in> set (ds @ [x]). length y < 2 ^ 24" "length (p @ concat (map enc_str ds)) \<le> first" "first < length (p @ concat (map enc_str ds) @ enc_str x)"
  shows "\<exists>sz nextI. decodeSize (p @ concat (map enc_str ds) @ enc_str x @ q) (length p) = Some (sz, nextI) \<and>
    field_loop (p @ concat (map enc_str ds) @ enc_str x @ q) first (length p) sz nextI = Some (length (p @ concat (map enc_str ds)))"
  using assms
proof (induction ds arbitrary: p)
  case Nil
  then have "decodeSize (p @ enc_str x @ q) (length p) = Some (length x, length p + length (enc_size (length x)))"
    using decode_size [of "length x" p "x @ q"] by (simp add: enc_str_def)
  moreover have "field_loop (p @ enc_str x @ q) first (length p) (length x) (length p + length (enc_size (length x))) = Some (length p)"
    using Nil.prems(3) by (simp add: field_loop.simps [of _ first "length p"] enc_str_def)
  ultimately show ?case by simp
next
  case (Cons y ds)
  let ?data = "p @ concat (map enc_str (y # ds)) @ enc_str x @ q"
  have "decodeSize ?data (length p) = Some (length y, length p + length (enc_size (length y)))"
    using decode_size [of "length y" p "y @ concat (map enc_str ds) @ enc_str x @ q"] Cons.prems(1) by (simp add: enc_str_def)
  moreover obtain sz nextI where r: "decodeSize ?data (length (p @ enc_str y)) = Some (sz, nextI)" "field_loop ?data first (length (p @ enc_str y)) sz nextI = Some (length (p @ concat (map enc_str (y # ds))))"
    using Cons.IH [of "p @ enc_str y"] Cons.prems by auto
  moreover have n: "length p + length (enc_size (length y)) + length y = length (p @ enc_str y)" "length (p @ enc_str y) \<le> first"
    using Cons.prems(2) by (simp_all add: enc_str_def)
  moreover have "field_loop ?data first (length p) (length y) (length p + length (enc_size (length y))) = Some (length (p @ concat (map enc_str (y # ds))))"
    by (subst field_loop.simps) (simp only: n r if_True bind.bind_lunit prod.case)
  ultimately show ?case by blast
qed

lemma encode_fields: "encode ls = concat (map enc_str (concat (map (\<lambda>l. [Name l, Value l]) ls)))"
  by (induction ls) (simp_all add: enc_label_def)

lemma take_prefix: "take i a = take i b \<Longrightarrow> n \<le> i \<Longrightarrow> take n b = take n a"
  by (metis min.absorb1 take_take)

text \<open>Two encodings whose fields agree up to \<open>ds\<close> and differ then.\<close>

lemma compare_diverging:
  assumes a: "a = concat (map enc_str (ds @ [x])) @ u" and b: "b = concat (map enc_str (ds @ [y])) @ v"
    and ok: "\<forall>z \<in> set (ds @ [x, y]). length z < 2 ^ 24" and ne: "x \<noteq> y"
  shows "Compare a b = Some (if x < y then - 1 else 1)"
proof -
  let ?p = "concat (map enc_str ds)"
  define s where "s = (if length b < length a then b else a)"
  define l where "l = (if length b < length a then a else b)"
  define i where "i = compare_bytes s l (compare_words s l 0)"
  have len: "length s \<le> length l" by (simp add: s_def l_def)
  have w: "take (compare_words s l 0) s = take (compare_words s l 0) l \<and> compare_words s l 0 \<le> length s" by (rule compare_words_prefix) (simp_all add: len)
  have i: "take i s = take i l" "i \<le> length s" "i < length s \<longrightarrow> s ! i \<noteq> l ! i"
    using compare_bytes_prefix [OF conjunct1 [OF w] conjunct2 [OF w] len i_def] by simp_all
  then have ab: "take i a = take i b" by (auto simp: s_def l_def split: if_splits)
  have x: "i < length (?p @ enc_str x)"
  proof (rule ccontr)
    assume "\<not> ?thesis"
    then have "take (length (?p @ enc_str x)) b = ?p @ enc_str x" using take_prefix [OF ab, of "length (?p @ enc_str x)"] a by simp
    then obtain w where "b = ?p @ enc_str x @ w" by (metis append.assoc append_take_drop_id)
    then have "enc_str x @ w = enc_str y @ v" using b by simp
    then show False using enc_str_unique [of x y w v] ok ne by simp
  qed
  have y: "i < length (?p @ enc_str y)"
  proof (rule ccontr)
    assume "\<not> ?thesis"
    then have "take (length (?p @ enc_str y)) a = ?p @ enc_str y" using take_prefix [OF ab [symmetric], of "length (?p @ enc_str y)"] b by simp
    then obtain w where "a = ?p @ enc_str y @ w" by (metis append.assoc append_take_drop_id)
    then have "enc_str y @ w = enc_str x @ u" using a by simp
    then show False using enc_str_unique [of y x w u] ok ne by simp
  qed
  have "length ?p \<le> i"
  proof (rule ccontr)
    assume "\<not> ?thesis"
    then have "i < length s" "s ! i = ?p ! i" "l ! i = ?p ! i" using a b by (auto simp: s_def l_def nth_append)
    then show False using i(3) by simp
  qed
  moreover have "i < length s" using x y a b by (auto simp: s_def)
  moreover obtain sz nextI where "decodeSize a 0 = Some (sz, nextI)" "field_loop a i 0 sz nextI = Some (length ?p)"
    using field_loop [of ds x "[]" i u] ok calculation(1) x a by auto
  moreover have "decodeString a (length ?p) = Some (x, length ?p + length (enc_str x))" "decodeString b (length ?p) = Some (y, length ?p + length (enc_str y))"
    using decode_str [of x ?p u] decode_str [of y ?p v] ok a b by simp_all
  ultimately show ?thesis unfolding Compare_def Let_def s_def [symmetric] l_def [symmetric] i_def [symmetric] by simp
qed

lemma compare_prefix:
  assumes "b = a @ c \<or> a = b @ c"
  shows "Compare a b = Some (int (length a) - int (length b))"
proof -
  define s where "s = (if length b < length a then b else a)"
  define l where "l = (if length b < length a then a else b)"
  define i where "i = compare_bytes s l (compare_words s l 0)"
  have len: "length s \<le> length l" by (simp add: s_def l_def)
  have w: "take (compare_words s l 0) s = take (compare_words s l 0) l \<and> compare_words s l 0 \<le> length s" by (rule compare_words_prefix) (simp_all add: len)
  have i: "i \<le> length s" "i < length s \<longrightarrow> s ! i \<noteq> l ! i"
    using compare_bytes_prefix [OF conjunct1 [OF w] conjunct2 [OF w] len i_def] by simp_all
  have "l = s @ c" using assms by (auto simp: s_def l_def)
  then have "i = length s" using i by (auto simp: nth_append)
  then show ?thesis unfolding Compare_def Let_def s_def [symmetric] l_def [symmetric] i_def [symmetric] by simp
qed

lemma compare_labels:
  assumes "\<forall>l \<in> set (a @ b). label_ok l"
  shows "\<exists>k. Compare (encode a) (encode b) = Some k \<and> sgn k = sgn (slice_Compare a b)"
  using labels_diverge [of b a]
proof (elim disjE exE conjE)
  fix c assume c: "b = a @ c"
  have "c \<noteq> [] \<Longrightarrow> 0 < length (encode c)" by (cases c) simp_all
  then show ?thesis using compare_prefix [of "encode b" "encode a" "encode c"] c slice_compare_prefix [of a "[]" c] by (cases "c = []") (auto simp: sgn_if)
next
  fix c assume c: "a = b @ c"
  have "c \<noteq> [] \<Longrightarrow> 0 < length (encode c)" by (cases c) simp_all
  then show ?thesis using compare_prefix [of "encode b" "encode a" "encode c"] c slice_compare_prefix [of b c "[]"] by (cases "c = []") (auto simp: sgn_if)
next
  fix p l a' m b' assume d: "a = p @ l # a'" "b = p @ m # b'" "l \<noteq> m"
  let ?ds = "concat (map (\<lambda>l. [Name l, Value l]) p)"
  have ok: "\<forall>z \<in> set ?ds \<union> {Name l, Value l, Name m, Value m}. length z < 2 ^ 24" using assms d by (auto simp: label_ok_def)
  have sc: "slice_Compare a b = slice_Compare (l # a') (m # b')" using d slice_compare_prefix by simp
  show ?thesis
  proof (cases "Name l = Name m")
    case True
    then have "Value l \<noteq> Value m" using d(3) by (cases l; cases m) simp
    moreover have "Compare (encode a) (encode b) = Some (if Value l < Value m then - 1 else 1)"
      by (rule compare_diverging [where ds = "?ds @ [Name l]" and u = "encode a'" and v = "encode b'"])
        (use ok True d \<open>Value l \<noteq> Value m\<close> in \<open>auto simp: enc_label_def encode_fields [of p]\<close>)
    ultimately show ?thesis using sc True by auto
  next
    case False
    moreover have "Compare (encode a) (encode b) = Some (if Name l < Name m then - 1 else 1)"
      by (rule compare_diverging [where ds = ?ds and u = "enc_str (Value l) @ encode a'" and v = "enc_str (Value m) @ encode b'"])
        (use ok False d in \<open>auto simp: enc_label_def encode_fields [of p]\<close>)
    ultimately show ?thesis using sc by auto
  qed
qed

end
