(* ===== verification/LabelsProps.thy ===== *)
theory LabelsProps
  imports LabelsCorrect "HOL-Library.Multiset"
begin

text \<open>
  What holds of label sets. The locale \<open>labels_impl\<close> is what clients know about an implementation: how it represents a
  sorted list of labels, and what reading and building give. Both implementations keep it.
\<close>

section \<open>The interface\<close>

text \<open>The calls that change a builder. \<open>Keep\<close> visits the labels \<open>rng\<close> of the label set that the builder started from.\<close>

datatype builder_op = SetOp "byte list" "byte list" | DelOp "byte list list" | KeepOp "byte list list"

fun run_op :: "Labels \<Rightarrow> builder_op \<Rightarrow> 'l Builder \<Rightarrow> 'l Builder" where
  "run_op rng (SetOp n v) b = Set n v b"
| "run_op rng (DelOp ns) b = Del ns b"
| "run_op rng (KeepOp ns) b = Builder_Keep rng ns b"

text \<open>
  What a sequence of calls leaves: the values of the labels, where the empty value means that the label is not there, and the
  names of the labels that were set and not removed since. \<open>Keep\<close> removes a label that is not listed,
  unless it was set in the builder.
\<close>

fun op_spec :: "builder_op \<Rightarrow> (byte list \<Rightarrow> byte list) \<times> byte list set \<Rightarrow> (byte list \<Rightarrow> byte list) \<times> byte list set" where
  "op_spec (SetOp n v) (f, s) = (f(n := v), if v = [] then s - {n} else insert n s)"
| "op_spec (DelOp ns) (f, s) = (\<lambda>m. if m \<in> set ns then [] else f m, s - set ns)"
| "op_spec (KeepOp ns) (f, s) = (\<lambda>m. if m \<in> set ns \<union> s then f m else [], s)"

fun op_ok :: "builder_op \<Rightarrow> bool" where
  "op_ok (SetOp n v) \<longleftrightarrow> label_ok \<lparr>Name = n, Value = v\<rparr>"
| "op_ok (DelOp ns) \<longleftrightarrow> True"
| "op_ok (KeepOp ns) \<longleftrightarrow> True"

definition values_inv :: "Labels \<Rightarrow> 'l Builder \<Rightarrow> (byte list \<Rightarrow> byte list) \<Rightarrow> bool" where
  "values_inv ls b f \<longleftrightarrow> distinct (map Name (add b)) \<and> (\<forall>a \<in> set (add b). Value a \<noteq> []) \<and>
     {Name l |l. l \<in> set ls \<and> Value l = []} \<subseteq> set (del b) \<and> (\<forall>n. f n = Builder_Get (\<lambda>_. slice_Get ls) n b)"

definition builder_inv :: "Labels \<Rightarrow> 'l Builder \<Rightarrow> (byte list \<Rightarrow> byte list) \<Rightarrow> bool" where
  "builder_inv ls b f \<longleftrightarrow> values_inv ls b f \<and> (\<forall>a \<in> set (add b). label_ok a)"

lemma find_set_value:
  "find (\<lambda>a. Name a = m) (set_value n v as) = (if m = n then Some \<lparr>Name = n, Value = v\<rparr> else find (\<lambda>a. Name a = m) as)"
proof (induction as)
  case (Cons a as)
  then show ?case by (cases a) auto
qed simp

lemma set_value_names: "Name ` set (set_value n v as) = insert n (Name ` set as)"
  by (induction as) auto

lemma set_value_distinct: "distinct (map Name as) \<Longrightarrow> distinct (map Name (set_value n v as))"
  using set_value_names by (induction as) (auto simp flip: set_map)

lemma set_value_in: "distinct (map Name as) \<Longrightarrow> set (set_value n v as) = insert \<lparr>Name = n, Value = v\<rparr> {a \<in> set as. Name a \<noteq> n}"
proof (induction as)
  case (Cons a as)
  then show ?case by (cases a) (auto simp: image_iff)
qed auto

lemma find_filter_ne: "find (\<lambda>a. Name a = m) (filter (\<lambda>a. Name a \<noteq> n) as) = (if m = n then None else find (\<lambda>a. Name a = m) as)"
  by (induction as) (auto simp: find_None_iff)

lemma del_one_values:
  assumes "values_inv ls b f"
  shows "values_inv ls (b\<lparr>add := filter (\<lambda>a. Name a \<noteq> n) (add b), del := del b @ [n]\<rparr>) (f(n := []))"
  using assms by (auto simp: values_inv_def distinct_map_filter Builder_Get_def find_filter_ne split: option.splits)

lemma del_values: "values_inv ls b f \<Longrightarrow> values_inv ls (Del ns b) (\<lambda>m. if m \<in> set ns then [] else f m)"
proof (induction ns arbitrary: b f)
  case (Cons n ns)
  have "(\<lambda>m. if m \<in> set ns then [] else (f(n := [])) m) = (\<lambda>m. if m \<in> set (n # ns) then [] else f m)" by auto
  then show ?case using Cons.IH [OF del_one_values [OF Cons.prems, of n]] by (simp add: Del_def)
qed (simp add: Del_def)

lemma del_add: "set (add (Del ns b)) \<subseteq> set (add b)"
proof (induction ns arbitrary: b)
  case (Cons n ns)
  then show ?case using Cons.IH [of "b\<lparr>add := filter (\<lambda>a. Name a \<noteq> n) (add b), del := del b @ [n]\<rparr>"] by (auto simp: Del_def)
qed (simp add: Del_def)

lemma del_one: "values_inv ls b f \<Longrightarrow> values_inv ls (Del [n] b) (f(n := []))"
  using del_one_values by (simp add: Del_def)

lemma set_values:
  assumes "values_inv ls b f"
  shows "values_inv ls (Set n v b) (f(n := v))"
proof (cases "v = []")
  case True
  then show ?thesis using del_one [OF assms] by (simp add: Set_def)
next
  case False
  then show ?thesis using assms by (auto simp: Set_def values_inv_def set_value_distinct set_value_in Builder_Get_def find_set_value)
qed

lemma set_add: "distinct (map Name (add b)) \<Longrightarrow> set (add (Set n v b)) \<subseteq> insert \<lparr>Name = n, Value = v\<rparr> (set (add b))"
  using del_add [of "[n]" b] by (auto simp: Set_def set_value_in)

lemma slice_Get_in: "sorted_wrt (<) (map Name ls) \<Longrightarrow> l \<in> set ls \<Longrightarrow> slice_Get ls (Name l) = Value l"
  by (induction ls) auto

lemma slice_Get_out: "\<forall>l \<in> set ls. Name l \<noteq> n \<Longrightarrow> slice_Get ls n = []"
  by (induction ls) auto

lemma set_inv:
  assumes "builder_inv ls b f" "label_ok \<lparr>Name = n, Value = v\<rparr>"
  shows "builder_inv ls (Set n v b) (f(n := v))"
proof -
  have b: "values_inv ls b f" "\<forall>a \<in> set (add b). label_ok a" using assms(1) unfolding builder_inv_def by blast+
  then have "distinct (map Name (add b))" unfolding values_inv_def by blast
  then have "\<forall>a \<in> set (add (Set n v b)). label_ok a" using set_add [of b n v] b(2) assms(2) by auto
  then show ?thesis using set_values [OF b(1), of n v] by (simp add: builder_inv_def)
qed

lemma del_inv: "builder_inv ls b f \<Longrightarrow> builder_inv ls (Del ns b) (\<lambda>m. if m \<in> set ns then [] else f m)"
  using del_values [of ls b f ns] del_add [of ns b] by (auto simp: builder_inv_def)

lemma keep_inv:
  assumes "builder_inv ls b f"
  shows "builder_inv ls (Builder_Keep ls ns b) (\<lambda>m. if m \<in> set ns \<union> Name ` set (add b) then f m else [])"
proof -
  have g: "\<forall>n. f n = Builder_Get (\<lambda>_. slice_Get ls) n b" using assms unfolding builder_inv_def values_inv_def by blast
  have out: "slice_Get ls n = []" if "n \<notin> Name ` {x \<in> set ls. Name x \<notin> set ns}" "n \<notin> set ns" for n by (intro slice_Get_out) (use that in auto)
  have "(if n \<in> set ns \<union> Name ` set (add b) then f n else []) = Builder_Get (\<lambda>_. slice_Get ls) n (Builder_Keep ls ns b)" for n
  proof (cases "find (\<lambda>a. Name a = n) (add b)")
    case None
    then have "n \<notin> Name ` set (add b)" by (auto simp: find_None_iff)
    then show ?thesis using None g out [of n] by (auto simp: Builder_Get_def Builder_Keep_def)
  next
    case (Some a)
    then have "n \<in> Name ` set (add b)" by (auto simp: find_Some_iff)
    then show ?thesis using Some g by (simp add: Builder_Get_def Builder_Keep_def)
  qed
  then show ?thesis using assms unfolding builder_inv_def values_inv_def by (auto simp: Builder_Keep_def)
qed

lemma del_names: "Name ` set (add (Del ns b)) = Name ` set (add b) - set ns"
proof (induction ns arbitrary: b)
  case (Cons n ns)
  then show ?case using Cons.IH [of "b\<lparr>add := filter (\<lambda>a. Name a \<noteq> n) (add b), del := del b @ [n]\<rparr>"] by (auto simp: Del_def)
qed (simp add: Del_def)

definition spec_inv :: "Labels \<Rightarrow> 'l Builder \<Rightarrow> (byte list \<Rightarrow> byte list) \<times> byte list set \<Rightarrow> bool" where
  "spec_inv ls b fs \<longleftrightarrow> builder_inv ls b (fst fs) \<and> Name ` set (add b) = snd fs"

lemma run_op_inv:
  assumes "spec_inv ls b fs" "op_ok opr"
  shows "spec_inv ls (run_op ls opr b) (op_spec opr fs)"
proof -
  obtain f s where fs: "fs = (f, s)" by (cases fs)
  have b: "builder_inv ls b f" "Name ` set (add b) = s" using assms(1) by (simp_all add: spec_inv_def fs)
  show ?thesis
  proof (cases opr)
    case (SetOp n v)
    moreover have "Name ` set (add (Set n v b)) = (if v = [] then s - {n} else insert n s)" using b(2) del_names [of "[n]" b] by (simp add: Set_def set_value_names)
    ultimately show ?thesis using set_inv [OF b(1), of n v] assms(2) by (simp add: spec_inv_def fs)
  next
    case (DelOp ns)
    then show ?thesis using del_inv [OF b(1), of ns] del_names [of ns b] b(2) by (simp add: spec_inv_def fs)
  next
    case (KeepOp ns)
    have "add (Builder_Keep ls ns b) = add b" by (simp add: Builder_Keep_def)
    then show ?thesis using keep_inv [OF b(1), of ns] b(2) KeepOp by (simp add: spec_inv_def fs)
  qed
qed

lemma run_ops_inv: "spec_inv ls b fs \<Longrightarrow> \<forall>opr \<in> set ops. op_ok opr \<Longrightarrow> spec_inv ls (fold (run_op ls) ops b) (fold op_spec ops fs)"
  by (induction ops arbitrary: b fs) (simp_all add: run_op_inv)

lemma del_base [simp]: "base (Del ns b) = base b"
  unfolding Del_def by (induction ns arbitrary: b) simp_all

lemma run_ops_base [simp]: "base (fold (run_op ls) ops b) = base b"
proof -
  have "base (run_op ls opr b) = base b" for opr and b :: "'a Builder" by (cases opr) (simp_all add: Set_def Builder_Keep_def)
  then show ?thesis by (induction ops arbitrary: b) simp_all
qed

lemma reset_inv:
  assumes "labels_ok ls"
  shows "builder_inv ls (Reset r ls) (slice_Get ls)"
proof -
  have "slice_Get ls n = []" if "l \<in> set ls" "Value l = []" "Name l = n" for n l
    using assms that by (induction ls) (auto simp: labels_ok_def)
  then show ?thesis by (auto simp: builder_inv_def values_inv_def Reset_def Builder_Get_def)
qed

text \<open>The labels of a builder, in terms of the values that it stands for.\<close>

lemma values_result:
  assumes "sorted_wrt (<) (map Name ls)" "values_inv ls b f" "base b = ls"
  shows "sorted_wrt (<) (map Name (slice_Builder_Labels b))" "\<forall>l \<in> set (slice_Builder_Labels b). Value l \<noteq> []" "slice_Get (slice_Builder_Labels b) n = f n"
    "set (slice_Builder_Labels b) \<subseteq> set ls \<union> set (add b)"
proof -
  let ?L = "slice_Builder_Labels b"
  note s = assms(1)
  have inv: "distinct (map Name (add b))" "\<forall>a \<in> set (add b). Value a \<noteq> []"
    "{Name l |l. l \<in> set ls \<and> Value l = []} \<subseteq> set (del b)" "\<forall>n. f n = Builder_Get (\<lambda>_. slice_Get ls) n b"
    using assms(2) by (simp_all add: values_inv_def)
  have L: "sorted_wrt (<) (map Name ?L)" "set ?L = {l \<in> set ls. Name l \<notin> set (del b) \<and> \<not> contains (add b) (Name l)} \<union> set (add b)"
    using slice_builder_merge [of b] s inv(1) assms(3) by (simp_all add: is_merge_def contains_def)
  show "sorted_wrt (<) (map Name ?L)" "set ?L \<subseteq> set ls \<union> set (add b)" using L by auto
  show "\<forall>l \<in> set ?L. Value l \<noteq> []" using L(2) inv(2,3) by auto
  show "slice_Get ?L n = f n"
  proof (cases "find (\<lambda>a. Name a = n) (add b)")
    case (Some a)
    then have a: "a \<in> set (add b)" "Name a = n" by (auto simp: find_Some_iff)
    then have "slice_Get ?L n = Value a" using slice_Get_in [OF L(1), of a] L(2) by auto
    then show ?thesis using Some inv(4) by (simp add: Builder_Get_def)
  next
    case None
    then have nc: "\<not> contains (add b) n" by (auto simp: find_None_iff contains_def)
    show ?thesis
    proof (cases "n \<notin> set (del b) \<and> (\<exists>l \<in> set ls. Name l = n)")
      case True
      then obtain l where l: "l \<in> set ls" "Name l = n" by auto
      then have "slice_Get ?L n = Value l" using slice_Get_in [OF L(1), of l] L(2) nc True by auto
      then show ?thesis using None inv(4) True slice_Get_in [OF s l(1)] l(2) by (simp add: Builder_Get_def)
    next
      case False
      then have "\<forall>l \<in> set ?L. Name l \<noteq> n" using L(2) nc by (auto simp: contains_def)
      then show ?thesis using None inv(4) False slice_Get_out [of ?L n] slice_Get_out [of ls n] by (auto simp: Builder_Get_def)
    qed
  qed
qed

lemma builder_result:
  assumes "labels_ok ls" "builder_inv ls b f" "base b = ls"
  shows "labels_ok (slice_Builder_Labels b)" "\<forall>l \<in> set (slice_Builder_Labels b). Value l \<noteq> []" "slice_Get (slice_Builder_Labels b) n = f n"
  using values_result [of ls b f] assms by (auto simp: labels_ok_def builder_inv_def)

locale labels_impl =
  fixes repr :: "Labels \<Rightarrow> 'l" and rng :: "'l \<Rightarrow> Labels option" and get :: "'l \<Rightarrow> byte list \<Rightarrow> byte list option" and build :: "'l Builder \<Rightarrow> 'l option"
  assumes range_repr: "labels_ok ls \<Longrightarrow> rng (repr ls) = Some ls"
    and get_repr: "labels_ok ls \<Longrightarrow> get (repr ls) n = Some (slice_Get ls n)"
    and build_repr: "labels_ok ls \<Longrightarrow> base b = repr ls \<Longrightarrow> distinct (map Name (add b)) \<Longrightarrow> \<forall>m \<in> set (add b). label_ok m \<Longrightarrow>
      build b = Some (repr (slice_Builder_Labels \<lparr>base = ls, del = del b, add = add b\<rparr>))"
begin

lemma repr_inj: "labels_ok ls \<Longrightarrow> labels_ok ls' \<Longrightarrow> repr ls = repr ls' \<Longrightarrow> ls = ls'"
  by (metis option.inject range_repr)

lemma build_ops:
  assumes "labels_ok ls" "\<forall>opr \<in> set ops. op_ok opr"
  shows "\<exists>L. Option.bind (rng (repr ls)) (\<lambda>v. build (fold (run_op v) ops (Reset (repr ls) v))) = Some (repr L) \<and> labels_ok L \<and>
    (\<forall>l \<in> set L. Value l \<noteq> []) \<and> (\<forall>n. get (repr L) n = Some (fst (fold op_spec ops (slice_Get ls, {})) n))"
proof -
  let ?b = "fold (run_op ls) ops (Reset (repr ls) ls)" and ?f = "fst (fold op_spec ops (slice_Get ls, {}))"
  have "spec_inv ls (Reset (repr ls) ls) (slice_Get ls, {})" using reset_inv [OF assms(1), of "repr ls"] by (simp add: spec_inv_def Reset_def)
  from run_ops_inv [OF this assms(2)] have inv: "builder_inv ls ?b ?f" by (simp add: spec_inv_def)
  let ?c = "\<lparr>base = ls, del = del ?b, add = add ?b\<rparr>"
  have inv': "builder_inv ls ?c ?f" using inv by (simp add: builder_inv_def values_inv_def Builder_Get_def)
  note r = builder_result [OF assms(1) inv' Builder.select_convs(1)]
  have "distinct (map Name (add ?b))" "\<forall>m \<in> set (add ?b). label_ok m" using inv unfolding builder_inv_def values_inv_def by blast+
  moreover have "base ?b = repr ls" by (simp add: Reset_def)
  ultimately have "build ?b = Some (repr (slice_Builder_Labels ?c))" by (intro build_repr [OF assms(1)])
  then have b: "Option.bind (rng (repr ls)) (\<lambda>v. build (fold (run_op v) ops (Reset (repr ls) v))) = Some (repr (slice_Builder_Labels ?c))"
    by (simp only: range_repr [OF assms(1)] bind.bind_lunit)
  have "\<forall>n. get (repr (slice_Builder_Labels ?c)) n = Some (?f n)" using r(3) get_repr [OF r(1)] by simp
  with b r(1,2) show ?thesis by (intro exI conjI)
qed

end

lemma string_Get: "labels_ok ls \<Longrightarrow> Labels_Get (encode ls) n = Some (slice_Get ls n)"
proof -
  assume ok: "labels_ok ls"
  then have r: "rest_is (encode ls) 0 ls" and s: "sorted_wrt (<) (map Name ls)" by (simp_all add: labels_ok_def rest_start)
  have "\<forall>l \<in> set ls. Name l \<noteq> []" using ok by (auto simp: labels_ok_def label_ok_def)
  then show ?thesis using get_loop [OF r s, of n] slice_Get_out [of ls "[]"] by (auto simp: Labels_Get_def slice_Get_find split: option.splits)
qed

interpretation string_labels: labels_impl encode Labels_Range Labels_Get Builder_Labels
proof
  fix ls :: Labels and n :: "byte list" and b :: "byte list Builder"
  assume ok: "labels_ok ls"
  then show "Labels_Range (encode ls) = Some ls" by (simp add: Labels_Range_def range_loop rest_start labels_ok_def)
  show "Labels_Get (encode ls) n = Some (slice_Get ls n)" by (rule string_Get [OF ok])
  assume "base b = encode ls" "distinct (map Name (add b))" "\<forall>m \<in> set (add b). label_ok m"
  then show "Builder_Labels b = Some (encode (slice_Builder_Labels \<lparr>base = ls, del = del b, add = add b\<rparr>))"
    using builder_labels [OF ok, of "add b" "del b"] by (cases b) simp
qed

interpretation slice_labels: labels_impl "\<lambda>ls. ls" Some "\<lambda>ls n. Some (slice_Get ls n)" "\<lambda>b. Some (slice_Builder_Labels b)"
proof
  fix ls :: Labels and b :: "Labels Builder"
  assume "base b = ls"
  then show "Some (slice_Builder_Labels b) = Some (slice_Builder_Labels \<lparr>base = ls, del = del b, add = add b\<rparr>)" by (cases b) simp
qed simp_all

section \<open>Properties\<close>

text \<open>
  C11. A builder that starts from any label set and runs through any calls of \<open>Set\<close>, \<open>Del\<close> and \<open>Keep\<close> returns the encoding of a
  sorted label set without empty values. In it every label has the value that the last call of \<open>Set\<close> or \<open>Del\<close> for it has left, or the one it
  had at the start; but a label that is not listed in a \<open>Keep\<close>, and that was not set in the builder at that
  time, is gone, until it is set again.
\<close>

theorem label_builder_exact:
  assumes "labels_ok ls" "\<forall>opr \<in> set ops. op_ok opr"
  shows "\<exists>L. Option.bind (Labels_Range (encode ls)) (\<lambda>v. Builder_Labels (fold (run_op v) ops (Reset (encode ls) v))) = Some (encode L) \<and> labels_ok L \<and>
    (\<forall>l \<in> set L. Value l \<noteq> []) \<and> (\<forall>n. Labels_Get (encode L) n = Some (fst (fold op_spec ops (slice_Get ls, {})) n))"
  by (rule string_labels.build_ops [OF assms])

definition example_labels :: Labels where
  "example_labels = [\<lparr>Name = [97], Value = [1]\<rparr>, \<lparr>Name = [98, 97], Value = []\<rparr>, \<lparr>Name = [99], Value = [3, 4]\<rparr>]"

lemma example_labels_ok: "labels_ok example_labels"
  by (simp add: labels_ok_def label_ok_def example_labels_def)

theorem label_builder_exact_witness:
  "\<exists>L. Option.bind (Labels_Range (encode example_labels))
      (\<lambda>v. Builder_Labels (fold (run_op v) [SetOp [98] [7], DelOp [[99]], SetOp [100] [8], KeepOp [[98], [99]], SetOp [101] [9]] (Reset (encode example_labels) v))) = Some (encode L) \<and>
    map (Labels_Get (encode L)) [[97], [98], [99], [100], [101]] = [Some [], Some [7], Some [], Some [8], Some [9]]"
  using label_builder_exact [OF example_labels_ok, of "[SetOp [98] [7], DelOp [[99]], SetOp [100] [8], KeepOp [[98], [99]], SetOp [101] [9]]"]
  by (auto simp: label_ok_def)



lemma filter_names: "P n \<Longrightarrow> slice_Get (filter (\<lambda>l. P (Name l)) ls) n = slice_Get ls n" "P n \<Longrightarrow> slice_Has (filter (\<lambda>l. P (Name l)) ls) n = slice_Has ls n"
  by (induction ls) auto

lemma agree_on:
  assumes "sorted_wrt (<) (map Name ls)" "sorted_wrt (<) (map Name ls')"
  shows "filter (\<lambda>l. P (Name l)) ls = filter (\<lambda>l. P (Name l)) ls' \<longleftrightarrow> (\<forall>n. P n \<longrightarrow> slice_Has ls n = slice_Has ls' n \<and> slice_Get ls n = slice_Get ls' n)"
proof
  assume "filter (\<lambda>l. P (Name l)) ls = filter (\<lambda>l. P (Name l)) ls'"
  then show "\<forall>n. P n \<longrightarrow> slice_Has ls n = slice_Has ls' n \<and> slice_Get ls n = slice_Get ls' n" by (metis filter_names)
next
  assume eq: "\<forall>n. P n \<longrightarrow> slice_Has ls n = slice_Has ls' n \<and> slice_Get ls n = slice_Get ls' n"
  have sub: "l \<in> set ys" if h: "sorted_wrt (<) (map Name xs)" "sorted_wrt (<) (map Name ys)" "l \<in> set xs" "slice_Has xs (Name l) = slice_Has ys (Name l)" "slice_Get xs (Name l) = slice_Get ys (Name l)" for xs ys l
  proof -
    obtain l' where "l' \<in> set ys" "Name l' = Name l" using h(3,4) by (auto simp: slice_Has_iff)
    then have "l' = l" using slice_Get_in [OF h(1,3)] slice_Get_in [OF h(2), of l'] h(5) by (cases l; cases l') auto
    then show ?thesis using \<open>l' \<in> set ys\<close> by simp
  qed
  show "filter (\<lambda>l. P (Name l)) ls = filter (\<lambda>l. P (Name l)) ls'"
  proof (rule sorted_labels_unique)
    show "set (filter (\<lambda>l. P (Name l)) ls) = set (filter (\<lambda>l. P (Name l)) ls')" using sub [OF assms] sub [OF assms(2,1)] eq by auto
  qed (use assms in \<open>simp_all add: sorted_wrt_map sorted_wrt_filter\<close>)
qed

text \<open>
  C18. The signatures that group series are exact: two label sets have the same bytes for sorted names exactly when they agree on these labels,
  and the same bytes without them exactly when they agree on all others.
\<close>

theorem label_signature_exact:
  assumes "labels_ok ls" "labels_ok ls'" "sorted names"
  shows "(BytesWithLabels (encode ls) names = BytesWithLabels (encode ls') names \<longleftrightarrow> (\<forall>n \<in> set names. slice_Has ls n = slice_Has ls' n \<and> slice_Get ls n = slice_Get ls' n)) \<and>
    (BytesWithoutLabels (encode ls) names = BytesWithoutLabels (encode ls') names \<longleftrightarrow> (\<forall>n. n \<notin> set names \<longrightarrow> slice_Has ls n = slice_Has ls' n \<and> slice_Get ls n = slice_Get ls' n)) \<and>
    BytesWithLabels (encode ls) names \<noteq> None \<and> BytesWithoutLabels (encode ls) names \<noteq> None"
proof -
  have s: "sorted_wrt (<) (map Name ls)" "sorted_wrt (<) (map Name ls')" and ok: "\<forall>l \<in> set ls. label_ok l" "\<forall>l \<in> set ls'. label_ok l"
    using assms by (simp_all add: labels_ok_def)
  have bytes: "BytesWithLabels (encode xs) names = Some (encode (filter (\<lambda>l. Name l \<in> set names) xs))"
      "BytesWithoutLabels (encode xs) names = Some (encode (filter (\<lambda>l. Name l \<notin> set names) xs))" if "labels_ok xs" for xs
    using bytes_with_loop [OF rest_start, of xs names "[]"] bytes_without_loop [OF rest_start, of xs names "[]"] that assms(3)
    by (simp_all add: BytesWithLabels_def BytesWithoutLabels_def labels_ok_def)
  have sub: "labels_ok (filter P xs)" if "labels_ok xs" for P xs using that by (simp add: labels_ok_def sorted_wrt_map sorted_wrt_filter)
  have eq: "encode (filter (\<lambda>l. P (Name l)) ls) = encode (filter (\<lambda>l. P (Name l)) ls') \<longleftrightarrow> (\<forall>n. P n \<longrightarrow> slice_Has ls n = slice_Has ls' n \<and> slice_Get ls n = slice_Get ls' n)" for P
    using agree_on [OF s, of P] string_labels.repr_inj [OF sub [OF assms(1)] sub [OF assms(2)], of "\<lambda>l. P (Name l)" "\<lambda>l. P (Name l)"] by metis
  show ?thesis using eq [of "\<lambda>n. n \<in> set names"] eq [of "\<lambda>n. n \<notin> set names"] unfolding bytes [OF assms(1)] bytes [OF assms(2)] by blast
qed

theorem label_signature_exact_witness:
  "BytesWithLabels (encode [\<lparr>Name = [97], Value = [1]\<rparr>, \<lparr>Name = [98], Value = [2]\<rparr>]) [[97]] = BytesWithLabels (encode [\<lparr>Name = [97], Value = [1]\<rparr>, \<lparr>Name = [99], Value = [5]\<rparr>]) [[97]]"
  using label_signature_exact [of "[\<lparr>Name = [97], Value = [1]\<rparr>, \<lparr>Name = [98], Value = [2]\<rparr>]" "[\<lparr>Name = [97], Value = [1]\<rparr>, \<lparr>Name = [99], Value = [5]\<rparr>]" "[[97]]"]
  by (simp add: labels_ok_def label_ok_def)

text \<open>
  C40. A value of exactly \<open>2\<^sup>2\<^sup>4\<close> bytes, the documented maximum, is accepted and lost: its length does not fit in the three bytes for it, and the label
  reads back as empty.
\<close>

theorem label_of_maximum_length_lost:
  assumes "length v = 2 ^ 24"
  shows "\<exists>d. New [\<lparr>Name = [97], Value = v\<rparr>] = Some d \<and> Labels_Get d [97] = Some []"
proof -
  let ?l = "\<lparr>Name = [97], Value = v\<rparr>"
  have n: "enc_size (length (Name ?l)) = [1]" "enc_size (length (Value ?l)) = [255, 0, 0, 0]" by (simp_all add: enc_size_def assms)
  have d: "enc_label ?l = [1, 97, 255, 0, 0, 0] @ v" unfolding enc_label_def enc_str_def n by simp
  have "labelSize ?l = Some (length (enc_label ?l))" unfolding d by (simp add: labelSize_def sizeWhenEncoded_def assms)
  then have "New [?l] = Some (enc_label ?l)" using marshal_labels [of "replicate (length (enc_label ?l)) 0" "[?l]"] by (simp add: New_def)
  moreover have "Get_loop ([1, 97, 255, 0, 0, 0] @ v) [97] 0 = Some (Some [])"
    by (simp add: Get_loop.simps [of _ _ 0] decodeSize_def decodeString_def at_def slice_def)
  ultimately show ?thesis unfolding d by (simp add: Labels_Get_def)
qed

theorem label_of_maximum_length_lost_witness:
  "\<exists>d. New [\<lparr>Name = [97], Value = replicate (2 ^ 24) 98\<rparr>] = Some d \<and> Labels_Get d [97] = Some []"
  by (rule label_of_maximum_length_lost [OF length_replicate])

end
