(* ===== verification/Relabel.thy ===== *)
theory Relabel
  imports LabelsProps
begin

text \<open>
  Relabelling (\<open>model/relabel/relabel.go\<close>): rules that filter label sets and rewrite their labels, on the builder of \<open>Labels\<close>.

  A compiled regular expression is the functions that the code calls on it. Case mapping, the hash and the rules for
  valid names are arguments. A panic is \<open>None\<close>. No source labels is the empty list, also where the code asks for \<open>nil\<close>.
\<close>

datatype Action = EmptyAction | Replace | Keep | Drop | KeepEqual | DropEqual | HashMod | LabelMap | LabelDrop | LabelKeep | Lowercase | Uppercase | OtherAction

datatype ValidationScheme = UnsetValidation | LegacyValidation | UTF8Validation | OtherValidation

record Regexp =
  re_default :: bool
  MatchString :: "byte list \<Rightarrow> bool"
  FindStringSubmatchIndex :: "byte list \<Rightarrow> (nat \<times> nat) list option"
  ExpandString :: "byte list \<Rightarrow> byte list \<Rightarrow> (nat \<times> nat) list \<Rightarrow> byte list"
  ReplaceAllString :: "byte list \<Rightarrow> byte list \<Rightarrow> byte list"

record Config =
  SourceLabels :: "byte list list"
  Separator :: "byte list"
  Regex :: Regexp
  Modulus :: uint64
  TargetLabel :: "byte list"
  Replacement :: "byte list"
  Config_Action :: Action
  NameValidationScheme :: ValidationScheme

record lib =
  IsValidLabelName :: "ValidationScheme \<Rightarrow> byte list \<Rightarrow> bool"
  relabelTargetLegacy :: "byte list \<Rightarrow> bool"
  ToLower :: "byte list \<Rightarrow> byte list"
  ToUpper :: "byte list \<Rightarrow> byte list"
  md5_tail :: "byte list \<Rightarrow> uint64"

text \<open>The names of the actions, and how one is read: letter case does not matter, and no other name is accepted.\<close>

fun action_name :: "Action \<Rightarrow> string" where
  "action_name EmptyAction = []"
| "action_name Replace = ''replace''"
| "action_name Keep = ''keep''"
| "action_name Drop = ''drop''"
| "action_name KeepEqual = ''keepequal''"
| "action_name DropEqual = ''dropequal''"
| "action_name HashMod = ''hashmod''"
| "action_name LabelMap = ''labelmap''"
| "action_name LabelDrop = ''labeldrop''"
| "action_name LabelKeep = ''labelkeep''"
| "action_name Lowercase = ''lowercase''"
| "action_name Uppercase = ''uppercase''"
| "action_name OtherAction = ''?''"

definition Action_UnmarshalYAML :: "lib \<Rightarrow> byte list \<Rightarrow> go_error + Action" where
  "Action_UnmarshalYAML P s =
     (case find (\<lambda>act. map of_char (action_name act) = ToLower P s)
             [Replace, Keep, Drop, HashMod, LabelMap, LabelDrop, LabelKeep, Lowercase, Uppercase, KeepEqual, DropEqual] of
        Some act \<Rightarrow> Inr act
      | None \<Rightarrow> Inl (ErrInvalid ''unknown relabel action''))"

definition DefaultSeparator :: "byte list" where "DefaultSeparator = [59]"
definition DefaultReplacement :: "byte list" where "DefaultReplacement = [36, 49]"

definition varInRegexTemplate :: "byte list \<Rightarrow> bool" where
  "varInRegexTemplate template \<longleftrightarrow> 36 \<in> set template"

definition Validate :: "lib \<Rightarrow> ValidationScheme \<Rightarrow> Config \<Rightarrow> go_error + Config" where
  "Validate P scheme c =
     (let act = Config_Action c; target = TargetLabel c in
      if act = EmptyAction then Inl (ErrInvalid ''relabel action cannot be empty'')
      else if Modulus c = 0 \<and> act = HashMod then Inl (ErrInvalid ''relabel configuration for hashmod requires non-zero modulus'')
      else if act \<in> {Replace, HashMod, Lowercase, Uppercase, KeepEqual, DropEqual} \<and> target = [] then Inl (ErrInvalid ''relabel configuration for action requires target_label value'')
      else if NameValidationScheme c = OtherValidation then Inl (ErrInvalid ''unknown relabel config name validation method specified'')
      else
        let c = (if NameValidationScheme c = UnsetValidation then c\<lparr>NameValidationScheme := scheme\<rparr> else c);
            valid = IsValidLabelName P (NameValidationScheme c);
            with_var = (\<lambda>v. if NameValidationScheme c = UTF8Validation then valid v else relabelTargetLegacy P v)
        in if act = Replace \<and> \<not> varInRegexTemplate target \<and> \<not> valid target then Inl (ErrInvalid ''invalid target_label'')
           else if act = Replace \<and> varInRegexTemplate target \<and> \<not> with_var target then Inl (ErrInvalid ''invalid target_label'')
           else if act \<in> {Lowercase, Uppercase, KeepEqual, DropEqual} \<and> \<not> valid target then Inl (ErrInvalid ''invalid target_label'')
           else if act \<in> {Lowercase, Uppercase, KeepEqual, DropEqual} \<and> Replacement c \<noteq> DefaultReplacement then Inl (ErrInvalid ''replacement can not be set'')
           else if act = LabelMap \<and> \<not> with_var (Replacement c) then Inl (ErrInvalid ''invalid replacement'')
           else if act = HashMod \<and> \<not> valid target then Inl (ErrInvalid ''invalid target_label'')
           else if act \<in> {DropEqual, KeepEqual} \<and>
             (\<not> re_default (Regex c) \<or> Modulus c \<noteq> 0 \<or> Separator c \<noteq> DefaultSeparator \<or> Replacement c \<noteq> DefaultReplacement)
             then Inl (ErrInvalid ''action requires only source_labels and target_label'')
           else if act \<in> {LabelDrop, LabelKeep} \<and>
             (SourceLabels c \<noteq> [] \<or> target \<noteq> [] \<or> Modulus c \<noteq> 0 \<or> Separator c \<noteq> DefaultSeparator \<or> Replacement c \<noteq> DefaultReplacement)
             then Inl (ErrInvalid ''action requires only regex'')
           else Inr c)"

text \<open>\<open>strings.Join\<close> and \<open>strconv.FormatUint(n, 10)\<close>.\<close>

fun strings_Join :: "byte list list \<Rightarrow> byte list \<Rightarrow> byte list" where
  "strings_Join [] sp = []"
| "strings_Join [x] sp = x"
| "strings_Join (x # xs) sp = x @ sp @ strings_Join xs sp"

fun FormatUint :: "nat \<Rightarrow> byte list" where
  "FormatUint n = (if n < 10 then [48 + of_nat n] else FormatUint (n div 10) @ [48 + of_nat (n mod 10)])"

declare FormatUint.simps [simp del]

definition relabel :: "lib \<Rightarrow> Config \<Rightarrow> Labels Builder \<Rightarrow> (bool \<times> Labels Builder) option" where
  "relabel P cfg lb =
     (let val = strings_Join (map (\<lambda>ln. Builder_Get slice_Get ln lb) (SourceLabels cfg)) (Separator cfg); re = Regex cfg; target = TargetLabel cfg in
      case Config_Action cfg of
        Drop \<Rightarrow> Some (\<not> MatchString re val, lb)
      | Keep \<Rightarrow> Some (MatchString re val, lb)
      | DropEqual \<Rightarrow> Some (Builder_Get slice_Get target lb \<noteq> val, lb)
      | KeepEqual \<Rightarrow> Some (Builder_Get slice_Get target lb = val, lb)
      | Replace \<Rightarrow>
          if val = [] \<and> re_default re \<and> \<not> varInRegexTemplate target \<and> \<not> varInRegexTemplate (Replacement cfg)
          then Some (True, Set target (Replacement cfg) lb)
          else (case FindStringSubmatchIndex re val of
                  None \<Rightarrow> Some (True, lb)
                | Some indexes \<Rightarrow>
                    let target = ExpandString re target val indexes in
                    if \<not> IsValidLabelName P (NameValidationScheme cfg) target then Some (True, lb)
                    else let res = ExpandString re (Replacement cfg) val indexes in
                      if length res = 0 then Some (True, Del [target] lb) else Some (True, Set target res lb))
      | Lowercase \<Rightarrow> Some (True, Set target (ToLower P val) lb)
      | Uppercase \<Rightarrow> Some (True, Set target (ToUpper P val) lb)
      | HashMod \<Rightarrow> if Modulus cfg = 0 then None else Some (True, Set target (FormatUint (unat (md5_tail P val mod Modulus cfg))) lb)
      | LabelMap \<Rightarrow> Some (True, fold (\<lambda>l lb. if MatchString re (Name l) then Set (ReplaceAllString re (Name l) (Replacement cfg)) (Value l) lb else lb) (Builder_Range (\<lambda>ls. ls) lb) lb)
      | LabelDrop \<Rightarrow> Some (True, fold (\<lambda>l lb. if MatchString re (Name l) then Del [Name l] lb else lb) (Builder_Range (\<lambda>ls. ls) lb) lb)
      | LabelKeep \<Rightarrow> Some (True, fold (\<lambda>l lb. if \<not> MatchString re (Name l) then Del [Name l] lb else lb) (Builder_Range (\<lambda>ls. ls) lb) lb)
      | EmptyAction \<Rightarrow> None
      | OtherAction \<Rightarrow> None)"

fun ProcessBuilder :: "lib \<Rightarrow> Config list \<Rightarrow> Labels Builder \<Rightarrow> (bool \<times> Labels Builder) option" where
  "ProcessBuilder P [] lb = Some (True, lb)"
| "ProcessBuilder P (cfg # cfgs) lb =
     Option.bind (relabel P cfg lb) (\<lambda>(keep, lb). if \<not> keep then Some (False, lb) else ProcessBuilder P cfgs lb)"

section \<open>Rules on the values of labels\<close>

text \<open>What a rule does to the function from names to values that a builder stands for.\<close>

definition rule_val :: "Config \<Rightarrow> (byte list \<Rightarrow> byte list) \<Rightarrow> byte list" where
  "rule_val cfg f = strings_Join (map f (SourceLabels cfg)) (Separator cfg)"

definition rule_keeps :: "Config \<Rightarrow> (byte list \<Rightarrow> byte list) \<Rightarrow> bool" where
  "rule_keeps cfg f = (case Config_Action cfg of
     Drop \<Rightarrow> \<not> MatchString (Regex cfg) (rule_val cfg f)
   | Keep \<Rightarrow> MatchString (Regex cfg) (rule_val cfg f)
   | DropEqual \<Rightarrow> f (TargetLabel cfg) \<noteq> rule_val cfg f
   | KeepEqual \<Rightarrow> f (TargetLabel cfg) = rule_val cfg f
   | _ \<Rightarrow> True)"

definition rule_values :: "lib \<Rightarrow> Config \<Rightarrow> (byte list \<Rightarrow> byte list) \<Rightarrow> byte list \<Rightarrow> byte list" where
  "rule_values P cfg f = (case Config_Action cfg of
     Replace \<Rightarrow> (case FindStringSubmatchIndex (Regex cfg) (rule_val cfg f) of
         None \<Rightarrow> f
       | Some indexes \<Rightarrow> let target = ExpandString (Regex cfg) (TargetLabel cfg) (rule_val cfg f) indexes in
           if IsValidLabelName P (NameValidationScheme cfg) target then f(target := ExpandString (Regex cfg) (Replacement cfg) (rule_val cfg f) indexes) else f)
   | Lowercase \<Rightarrow> f(TargetLabel cfg := ToLower P (rule_val cfg f))
   | Uppercase \<Rightarrow> f(TargetLabel cfg := ToUpper P (rule_val cfg f))
   | HashMod \<Rightarrow> f(TargetLabel cfg := FormatUint (unat (md5_tail P (rule_val cfg f) mod Modulus cfg)))
   | LabelDrop \<Rightarrow> (\<lambda>n. if MatchString (Regex cfg) n then [] else f n)
   | LabelKeep \<Rightarrow> (\<lambda>n. if MatchString (Regex cfg) n then f n else [])
   | _ \<Rightarrow> f)"

text \<open>
  The default regular expression matches every string, and a template without a variable expands to itself. This is what the shortcut
  for constant replacements relies on.
\<close>

definition regex_ok :: "Regexp \<Rightarrow> bool" where
  "regex_ok re \<longleftrightarrow> (re_default re \<longrightarrow> (\<forall>v. FindStringSubmatchIndex re v \<noteq> None) \<and>
     (\<forall>t v ix. \<not> varInRegexTemplate t \<longrightarrow> ExpandString re t v ix = t))"

lemma get_values: "values_inv (base lb) lb f \<Longrightarrow> Builder_Get slice_Get n lb = f n"
  by (simp add: values_inv_def Builder_Get_def)

lemma range_values:
  assumes "values_inv (base lb) lb f" "sorted_wrt (<) (map Name (base lb))"
  shows "(\<exists>l \<in> set (Builder_Range (\<lambda>ls. ls) lb). Name l = n) \<longleftrightarrow> f n \<noteq> []"
proof -
  have inv: "distinct (map Name (add lb))" "\<forall>a \<in> set (add lb). Value a \<noteq> []" "{Name l |l. l \<in> set (base lb) \<and> Value l = []} \<subseteq> set (del lb)"
    using assms(1) by (simp_all add: values_inv_def)
  have f: "f n = (case find (\<lambda>a. Name a = n) (add lb) of Some a \<Rightarrow> Value a | None \<Rightarrow> if n \<in> set (del lb) then [] else slice_Get (base lb) n)"
    using get_values [OF assms(1), of n] by (simp add: Builder_Get_def)
  show ?thesis
  proof (cases "find (\<lambda>a. Name a = n) (add lb)")
    case (Some a)
    then have "a \<in> set (add lb)" "Name a = n" by (auto simp: find_Some_iff)
    then show ?thesis using f Some inv(2) by (auto simp: Builder_Range_def)
  next
    case None
    then have nc: "\<not> contains (add lb) n" by (auto simp: find_None_iff contains_def)
    then have "(\<exists>l \<in> set (Builder_Range (\<lambda>ls. ls) lb). Name l = n) \<longleftrightarrow> n \<notin> set (del lb) \<and> (\<exists>l \<in> set (base lb). Name l = n)"
      by (auto simp: Builder_Range_def contains_def)
    also have "\<dots> \<longleftrightarrow> n \<notin> set (del lb) \<and> slice_Get (base lb) n \<noteq> []"
      using slice_Get_in [OF assms(2)] slice_Get_out [of "base lb" n] inv(3) by fastforce
    finally show ?thesis using f None by simp
  qed
qed

lemma Del_base [simp]: "base (Del ns b) = base b"
  unfolding Del_def by (induction ns arbitrary: b) simp_all

lemma Set_base [simp]: "base (Set n v b) = base b"
  by (simp add: Set_def)

lemma fold_del:
  assumes "values_inv (base lb) lb f"
  shows "values_inv (base lb) (fold (\<lambda>l lb. if Q (Name l) then Del [Name l] lb else lb) ls lb) (\<lambda>n. if Q n \<and> n \<in> Name ` set ls then [] else f n)
    \<and> base (fold (\<lambda>l lb. if Q (Name l) then Del [Name l] lb else lb) ls lb) = base lb"
  using assms
proof (induction ls arbitrary: lb f)
  case (Cons l ls)
  let ?lb = "if Q (Name l) then Del [Name l] lb else lb" and ?f = "if Q (Name l) then f(Name l := []) else f"
  have "values_inv (base ?lb) ?lb ?f" using Cons.prems del_one by (cases "Q (Name l)") simp_all
  note IH = Cons.IH [OF this]
  have "(\<lambda>n. if Q n \<and> n \<in> Name ` set ls then [] else ?f n) = (\<lambda>n. if Q n \<and> n \<in> Name ` set (l # ls) then [] else f n)" by auto
  then show ?case using IH by (cases "Q (Name l)") simp_all
qed simp

lemma fold_set:
  assumes "values_inv (base lb) lb f"
  shows "values_inv (base lb) (fold (\<lambda>l lb. if Q (Name l) then Set (g (Name l)) (Value l) lb else lb) ls lb)
      (fold (\<lambda>l f. if Q (Name l) then f(g (Name l) := Value l) else f) ls f)
    \<and> base (fold (\<lambda>l lb. if Q (Name l) then Set (g (Name l)) (Value l) lb else lb) ls lb) = base lb"
  using assms
proof (induction ls arbitrary: lb f)
  case (Cons l ls)
  show ?case
  proof (cases "Q (Name l)")
    case True
    have "values_inv (base lb) (Set (g (Name l)) (Value l) lb) (f(g (Name l) := Value l))" by (rule set_values [OF Cons.prems])
    then show ?thesis using Cons.IH [of "Set (g (Name l)) (Value l) lb" "f(g (Name l) := Value l)"] True by (simp del: fun_upd_apply)
  next
    case False
    then show ?thesis using Cons by simp
  qed
qed simp

section \<open>Properties\<close>

text \<open>
  A rule that can be used: its regular expression is compiled, it was validated, and its action is one of the known ones. \<open>Validate\<close> accepts any
  other action that is not empty, but parsing does not return one. The naming scheme is \<open>legacy\<close> or \<open>utf8\<close>; for an unset one
  the check of names panics, which \<open>IsValidLabelName\<close> does not tell.
\<close>

definition rule_ok :: "lib \<Rightarrow> Config \<Rightarrow> bool" where
  "rule_ok P cfg \<longleftrightarrow> regex_ok (Regex cfg) \<and> Config_Action cfg \<noteq> OtherAction \<and> (\<exists>scheme cfg0. Validate P scheme cfg0 = Inr cfg)"

lemma Validate_Inr:
  assumes "Validate P scheme c = Inr c'"
  shows "c' = (if NameValidationScheme c = UnsetValidation then c\<lparr>NameValidationScheme := scheme\<rparr> else c)" "Config_Action c \<noteq> EmptyAction"
    "\<not> (Modulus c = 0 \<and> Config_Action c = HashMod)" "\<not> (Config_Action c = Replace \<and> \<not> varInRegexTemplate (TargetLabel c) \<and> \<not> IsValidLabelName P (if NameValidationScheme c = UnsetValidation then scheme else NameValidationScheme c) (TargetLabel c))"
  using assms unfolding Validate_def Let_def by (simp_all split: if_split_asm)

lemma validated:
  assumes "rule_ok P cfg"
  shows "Config_Action cfg \<noteq> EmptyAction" "Config_Action cfg \<noteq> OtherAction" "Config_Action cfg = HashMod \<Longrightarrow> Modulus cfg \<noteq> 0"
    "Config_Action cfg = Replace \<Longrightarrow> \<not> varInRegexTemplate (TargetLabel cfg) \<Longrightarrow> IsValidLabelName P (NameValidationScheme cfg) (TargetLabel cfg)"
proof -
  obtain scheme c where v: "Validate P scheme c = Inr cfg" and o: "Config_Action cfg \<noteq> OtherAction" using assms unfolding rule_ok_def by blast
  have "Config_Action cfg = Config_Action c" "Modulus cfg = Modulus c" "TargetLabel cfg = TargetLabel c"
    "NameValidationScheme cfg = (if NameValidationScheme c = UnsetValidation then scheme else NameValidationScheme c)" using Validate_Inr(1) [OF v] by simp_all
  then show "Config_Action cfg \<noteq> EmptyAction" "Config_Action cfg \<noteq> OtherAction" "Config_Action cfg = HashMod \<Longrightarrow> Modulus cfg \<noteq> 0"
    "Config_Action cfg = Replace \<Longrightarrow> \<not> varInRegexTemplate (TargetLabel cfg) \<Longrightarrow> IsValidLabelName P (NameValidationScheme cfg) (TargetLabel cfg)"
    using Validate_Inr(2-) [OF v] o by auto
qed

lemma replace_values:
  assumes "rule_ok P cfg" "Config_Action cfg = Replace" "values_inv (base lb) lb f"
  shows "\<exists>lb'. relabel P cfg lb = Some (True, lb') \<and> base lb' = base lb \<and> values_inv (base lb) lb' (rule_values P cfg f)"
proof -
  let ?re = "Regex cfg" and ?val = "rule_val cfg f"
  have val: "strings_Join (map (\<lambda>ln. Builder_Get slice_Get ln lb) (SourceLabels cfg)) (Separator cfg) = ?val"
    by (simp add: rule_val_def get_values [OF assms(3)])
  show ?thesis
  proof (cases "?val = [] \<and> re_default ?re \<and> \<not> varInRegexTemplate (TargetLabel cfg) \<and> \<not> varInRegexTemplate (Replacement cfg)")
    case True
    then obtain ix where "FindStringSubmatchIndex ?re ?val = Some ix" "ExpandString ?re (TargetLabel cfg) ?val ix = TargetLabel cfg" "ExpandString ?re (Replacement cfg) ?val ix = Replacement cfg"
      using assms(1) unfolding rule_ok_def regex_ok_def by blast
    then have "rule_values P cfg f = f(TargetLabel cfg := Replacement cfg)" using validated(4) [OF assms(1,2)] True assms(2) by (simp add: rule_values_def)
    moreover have "relabel P cfg lb = Some (True, Set (TargetLabel cfg) (Replacement cfg) lb)" unfolding relabel_def Let_def val using True assms(2) by simp
    ultimately show ?thesis using set_values [OF assms(3)] by simp
  next
    case False
    then have r: "relabel P cfg lb = (case FindStringSubmatchIndex ?re ?val of None \<Rightarrow> Some (True, lb)
      | Some ix \<Rightarrow> if \<not> IsValidLabelName P (NameValidationScheme cfg) (ExpandString ?re (TargetLabel cfg) ?val ix) then Some (True, lb)
          else if ExpandString ?re (Replacement cfg) ?val ix = [] then Some (True, Del [ExpandString ?re (TargetLabel cfg) ?val ix] lb)
          else Some (True, Set (ExpandString ?re (TargetLabel cfg) ?val ix) (ExpandString ?re (Replacement cfg) ?val ix) lb))"
      unfolding relabel_def Let_def val by (simp only: assms(2) Action.case if_False length_0_conv)
    show ?thesis
    proof (cases "FindStringSubmatchIndex ?re ?val")
      case None
      then show ?thesis using r assms by (simp add: rule_values_def)
    next
      case (Some ix)
      then show ?thesis using r assms set_values [OF assms(3)] del_one [OF assms(3)]
        by (cases "ExpandString ?re (Replacement cfg) ?val ix = []") (simp_all add: rule_values_def Let_def)
    qed
  qed
qed

lemma relabel_one:
  assumes "rule_ok P cfg" "sorted_wrt (<) (map Name (base lb))" "values_inv (base lb) lb f"
  shows "\<exists>lb'. relabel P cfg lb = Some (rule_keeps cfg f, lb') \<and> base lb' = base lb \<and> values_inv (base lb) lb'
    (if Config_Action cfg = LabelMap
     then fold (\<lambda>l f. if MatchString (Regex cfg) (Name l) then f(ReplaceAllString (Regex cfg) (Name l) (Replacement cfg) := Value l) else f) (Builder_Range (\<lambda>ls. ls) lb) f
     else rule_values P cfg f)"
proof -
  let ?re = "Regex cfg" and ?R = "Builder_Range (\<lambda>ls. ls) lb"
  have val: "strings_Join (map (\<lambda>ln. Builder_Get slice_Get ln lb) (SourceLabels cfg)) (Separator cfg) = rule_val cfg f"
    by (simp add: rule_val_def get_values [OF assms(3)])
  have "f n = []" if "n \<notin> Name ` set ?R" for n using range_values [OF assms(3,2), of n] that by auto
  then have names: "(\<lambda>n. if MatchString ?re n \<and> n \<in> Name ` set ?R then [] else f n) = (\<lambda>n. if MatchString ?re n then [] else f n)"
    "(\<lambda>n. if \<not> MatchString ?re n \<and> n \<in> Name ` set ?R then [] else f n) = (\<lambda>n. if MatchString ?re n then f n else [])" by (metis (full_types))+
  note del = fold_del [OF assms(3), of "MatchString ?re" ?R] fold_del [OF assms(3), of "\<lambda>n. \<not> MatchString ?re n" ?R]
  show ?thesis
  proof (cases "Config_Action cfg")
    case LabelMap
    then show ?thesis using fold_set [OF assms(3), of "MatchString ?re" "\<lambda>n. ReplaceAllString ?re n (Replacement cfg)" ?R]
      by (simp add: relabel_def Let_def rule_keeps_def)
  next
    case LabelDrop
    then show ?thesis using del(1) unfolding names by (simp add: relabel_def Let_def rule_keeps_def rule_values_def)
  next
    case LabelKeep
    then show ?thesis using del(2) unfolding names by (simp add: relabel_def Let_def rule_keeps_def rule_values_def)
  next
    case Replace
    then show ?thesis using replace_values [OF assms(1) _ assms(3)] by (simp add: rule_keeps_def)
  qed (use validated [OF assms(1)] assms(3) set_values [OF assms(3)] in \<open>simp_all add: relabel_def Let_def rule_val_def rule_keeps_def rule_values_def get_values [OF assms(3)]\<close>)
qed

lemma unmarshal_known: "Action_UnmarshalYAML P s = Inr act \<Longrightarrow> act \<noteq> OtherAction \<and> act \<noteq> EmptyAction"
  by (auto simp: Action_UnmarshalYAML_def split: option.splits if_splits)

text \<open>
  C14. A validated rule panics exactly when its action is unknown, and parsing never gives an unknown action. Otherwise the rule does to a builder exactly
  what it does to the values of the labels: \<open>keep\<close> and \<open>drop\<close> decide by the joined source values, \<open>replace\<close> sets the expanded target to
  the expanded replacement also where the shortcut for constants is taken, \<open>labeldrop\<close> and \<open>labelkeep\<close> remove exactly the matching or other
  labels, and \<open>labelmap\<close> copies the labels that were there before.
\<close>

theorem relabel_refines:
  assumes "Validate P scheme cfg0 = Inr cfg" "scheme \<in> {LegacyValidation, UTF8Validation}" "regex_ok (Regex cfg)"
    and "sorted_wrt (<) (map Name (base lb))" "values_inv (base lb) lb f"
  shows "(relabel P cfg lb = None \<longleftrightarrow> Config_Action cfg = OtherAction) \<and> Action_UnmarshalYAML P s \<noteq> Inr OtherAction \<and>
    (Config_Action cfg \<noteq> OtherAction \<longrightarrow> (\<exists>lb'. relabel P cfg lb = Some (rule_keeps cfg f, lb') \<and> base lb' = base lb \<and> values_inv (base lb) lb'
      (if Config_Action cfg = LabelMap
       then fold (\<lambda>l f. if MatchString (Regex cfg) (Name l) then f(ReplaceAllString (Regex cfg) (Name l) (Replacement cfg) := Value l) else f) (Builder_Range (\<lambda>ls. ls) lb) f
       else rule_values P cfg f)))"
proof -
  have ok: "rule_ok P cfg" if "Config_Action cfg \<noteq> OtherAction" using that assms(1,3) unfolding rule_ok_def by blast
  have "relabel P cfg lb = None" if "Config_Action cfg = OtherAction" using that by (simp add: relabel_def Let_def)
  moreover have "Action_UnmarshalYAML P s \<noteq> Inr OtherAction" using unmarshal_known by blast
  ultimately show ?thesis using relabel_one [OF ok assms(4,5)] by (cases "Config_Action cfg = OtherAction") auto
qed

definition example_regex :: "bool \<Rightarrow> (byte list \<Rightarrow> bool) \<Rightarrow> Regexp" where
  "example_regex def m = \<lparr>re_default = def, MatchString = m, FindStringSubmatchIndex = (\<lambda>v. Some []), ExpandString = (\<lambda>t v ix. t), ReplaceAllString = (\<lambda>v r. r)\<rparr>"

definition example_lib :: lib where
  "example_lib = \<lparr>IsValidLabelName = (\<lambda>_ n. n \<noteq> []), relabelTargetLegacy = (\<lambda>n. n \<noteq> []), ToLower = (\<lambda>v. v), ToUpper = (\<lambda>v. v), md5_tail = (\<lambda>v. 17)\<rparr>"

definition example_rule :: "Action \<Rightarrow> Regexp \<Rightarrow> byte list list \<Rightarrow> Config" where
  "example_rule act re src = \<lparr>SourceLabels = src, Separator = DefaultSeparator, Regex = re, Modulus = (if act = HashMod then 5 else 0),
     TargetLabel = (if act = LabelDrop then [] else [98]), Replacement = (if act = Replace then [7] else DefaultReplacement), Config_Action = act, NameValidationScheme = LegacyValidation\<rparr>"

lemma example_rules: "rule_ok example_lib (example_rule Replace (example_regex True (\<lambda>_. True)) [])" "rule_ok example_lib (example_rule HashMod (example_regex True (\<lambda>_. True)) [[97]])"
  unfolding rule_ok_def
  by (simp_all add: example_rule_def regex_ok_def example_regex_def)
    (rule exI, rule exI [of _ "example_rule Replace (example_regex True (\<lambda>_. True)) []"], simp add: Validate_def example_rule_def example_regex_def example_lib_def varInRegexTemplate_def,
     rule exI, rule exI [of _ "example_rule HashMod (example_regex True (\<lambda>_. True)) [[97]]"], simp add: Validate_def example_rule_def example_regex_def example_lib_def)

theorem relabel_refines_witness:
  "Action_UnmarshalYAML example_lib (map of_char ''hashmod'') \<noteq> Inr OtherAction \<and>
    (\<exists>lb'. relabel example_lib (example_rule Replace (example_regex True (\<lambda>_. True)) []) (Reset example_labels example_labels) = Some (True, lb') \<and>
      values_inv example_labels lb' ((slice_Get example_labels)([98] := [7])))"
proof -
  let ?cfg = "example_rule Replace (example_regex True (\<lambda>_. True)) []"
  have v: "Validate example_lib LegacyValidation ?cfg = Inr ?cfg" "regex_ok (Regex ?cfg)"
    by (simp_all add: Validate_def Let_def example_rule_def example_regex_def example_lib_def varInRegexTemplate_def regex_ok_def)
  have "values_inv (base (Reset example_labels example_labels)) (Reset example_labels example_labels) (slice_Get example_labels)"
    using reset_inv [OF example_labels_ok, of example_labels] by (simp add: builder_inv_def Reset_def)
  moreover have "sorted_wrt (<) (map Name (base (Reset example_labels example_labels)))" using example_labels_ok by (simp add: Reset_def labels_ok_def)
  ultimately show ?thesis using relabel_refines [OF v(1) _ v(2), of "Reset example_labels example_labels" "slice_Get example_labels" "map of_char ''hashmod''"]
    by (simp add: example_rule_def rule_keeps_def rule_values_def example_regex_def example_lib_def Reset_def) blast
qed

lemma process_values:
  assumes "\<forall>cfg \<in> set cfgs. rule_ok P cfg" "sorted_wrt (<) (map Name (base lb))" "values_inv (base lb) lb f"
  shows "\<exists>keep lb' f'. ProcessBuilder P cfgs lb = Some (keep, lb') \<and> base lb' = base lb \<and> values_inv (base lb) lb' f'"
  using assms
proof (induction cfgs arbitrary: lb f)
  case (Cons cfg cfgs)
  then have "rule_ok P cfg" by simp
  then obtain k lb' f' where r: "relabel P cfg lb = Some (k, lb')" "base lb' = base lb" "values_inv (base lb) lb' f'"
    using relabel_one [OF _ Cons.prems(2,3)] by blast
  show ?case
  proof (cases k)
    case True
    then show ?thesis using r Cons.IH [of lb' f'] Cons.prems by simp
  next
    case False
    then show ?thesis using r by auto
  qed
qed auto

text \<open>
  C15. Rules keep label sets well formed: any sequence of validated rules whose actions are known ones, as parsing makes sure, on any label set, returns
  without a panic, and the labels that the builder then gives are sorted by distinct names and have no empty value.
\<close>

theorem relabel_keeps_labels_well_formed:
  assumes "\<forall>cfg \<in> set cfgs. rule_ok P cfg" "labels_ok ls"
  shows "\<exists>keep lb. ProcessBuilder P cfgs (Reset ls ls) = Some (keep, lb) \<and>
    sorted_wrt (<) (map Name (slice_Builder_Labels lb)) \<and> (\<forall>l \<in> set (slice_Builder_Labels lb). Value l \<noteq> [])"
proof -
  have s: "sorted_wrt (<) (map Name ls)" using assms(2) by (simp add: labels_ok_def)
  have "values_inv (base (Reset ls ls)) (Reset ls ls) (slice_Get ls)" using reset_inv [OF assms(2), of ls] by (simp add: builder_inv_def Reset_def)
  then obtain keep lb f where r: "ProcessBuilder P cfgs (Reset ls ls) = Some (keep, lb)" "base lb = ls" "values_inv ls lb f"
    using process_values [OF assms(1), of "Reset ls ls" "slice_Get ls"] s by (auto simp: Reset_def)
  then show ?thesis using values_result [OF s r(3,2)] by blast
qed

theorem relabel_keeps_labels_well_formed_witness:
  "\<exists>keep lb. ProcessBuilder example_lib [example_rule Replace (example_regex True (\<lambda>_. True)) [], example_rule HashMod (example_regex True (\<lambda>_. True)) [[97]]] (Reset example_labels example_labels) = Some (keep, lb) \<and>
    sorted_wrt (<) (map Name (slice_Builder_Labels lb))"
  using relabel_keeps_labels_well_formed [OF _ example_labels_ok, of "[example_rule Replace (example_regex True (\<lambda>_. True)) [], example_rule HashMod (example_regex True (\<lambda>_. True)) [[97]]]" example_lib]
    example_rules by auto

lemma FormatUint_inj: "FormatUint m = FormatUint n \<Longrightarrow> m = n"
proof (induction m arbitrary: n rule: less_induct)
  case (less m)
  have ne: "FormatUint k \<noteq> []" for k by (subst FormatUint.simps) simp
  have digit: "(48 + of_nat a :: byte) = 48 + of_nat b \<Longrightarrow> a < 10 \<Longrightarrow> b < 10 \<Longrightarrow> a = b" for a b
  proof -
    assume h: "(48 + of_nat a :: byte) = 48 + of_nat b" "a < 10" "b < 10"
    then have "unat (of_nat a :: byte) = unat (of_nat b :: byte)" by simp
    then show ?thesis using h(2,3) by (simp add: unat_of_nat)
  qed
  have short: "FormatUint k = [x] \<longleftrightarrow> k < 10 \<and> x = 48 + of_nat k" for k x using ne [of "k div 10"] by (subst FormatUint.simps) auto
  show ?case
  proof (cases "m < 10")
    case True
    then have "FormatUint n = [48 + of_nat m]" using less.prems short by metis
    then show ?thesis using short [of n "48 + of_nat m"] digit True by auto
  next
    case False
    then have m: "FormatUint m = FormatUint (m div 10) @ [48 + of_nat (m mod 10)]" by (subst FormatUint.simps) simp
    have n10: "\<not> n < 10" using less.prems m ne [of "m div 10"] short [of n "48 + of_nat n"] by (metis append1_eq_conv append_Nil)
    then have n: "FormatUint n = FormatUint (n div 10) @ [48 + of_nat (n mod 10)]" by (subst FormatUint.simps) simp
    have "FormatUint (m div 10) = FormatUint (n div 10)" "(48 + of_nat (m mod 10) :: byte) = 48 + of_nat (n mod 10)" using less.prems unfolding m n by simp_all
    then have "m div 10 = n div 10" "m mod 10 = n mod 10" using less.IH [of "m div 10" "n div 10"] digit [of "m mod 10" "n mod 10"] False by auto
    then show ?thesis by (metis div_mult_mod_eq)
  qed
qed

text \<open>
  C16. Sharding by hash is a partition: of the rules that first write the hash of some labels modulo the number of shards to a label and then keep
  the number of one shard, exactly one keeps any given label set.
\<close>

theorem relabel_shards_partition:
  assumes "rule_ok P cfg" "Config_Action cfg = HashMod" "labels_ok ls"
    and "\<forall>i. rule_ok P (shard i) \<and> Config_Action (shard i) = Keep \<and> SourceLabels (shard i) = [TargetLabel cfg] \<and> (\<forall>v. MatchString (Regex (shard i)) v \<longleftrightarrow> v = FormatUint i)"
  shows "\<exists>!i. i < unat (Modulus cfg) \<and> (\<exists>lb. ProcessBuilder P [cfg, shard i] (Reset ls ls) = Some (True, lb))"
proof -
  have s: "sorted_wrt (<) (map Name ls)" using assms(3) by (simp add: labels_ok_def)
  have "values_inv (base (Reset ls ls)) (Reset ls ls) (slice_Get ls)" using reset_inv [OF assms(3), of ls] by (simp add: builder_inv_def Reset_def)
  then obtain lb where lb: "relabel P cfg (Reset ls ls) = Some (True, lb)" "base lb = ls" "values_inv ls lb (rule_values P cfg (slice_Get ls))"
    using relabel_one [OF assms(1), of "Reset ls ls" "slice_Get ls"] s assms(2) by (auto simp: Reset_def rule_keeps_def)
  let ?k = "unat (md5_tail P (rule_val cfg (slice_Get ls)) mod Modulus cfg)"
  have get: "Builder_Get slice_Get (TargetLabel cfg) lb = FormatUint ?k"
    using get_values [of lb "rule_values P cfg (slice_Get ls)" "TargetLabel cfg"] lb(2,3) assms(2) by (simp add: rule_values_def)
  have keep: "relabel P (shard i) lb = Some (i = ?k, lb)" for i
    using assms(4) get FormatUint_inj by (auto simp: relabel_def Let_def)
  then have "(\<exists>lb. ProcessBuilder P [cfg, shard i] (Reset ls ls) = Some (True, lb)) \<longleftrightarrow> i = ?k" for i using lb(1) by auto
  moreover have "?k < unat (Modulus cfg)" using validated(3) [OF assms(1,2)] by (simp add: word_less_nat_alt [symmetric] word_mod_less_divisor word_neq_0_conv)
  ultimately show ?thesis by auto
qed

theorem relabel_shards_partition_witness:
  "\<exists>!i. i < 5 \<and> (\<exists>lb. ProcessBuilder example_lib [example_rule HashMod (example_regex True (\<lambda>_. True)) [[97]], example_rule Keep (example_regex False (\<lambda>v. v = FormatUint i)) [[98]]] (Reset example_labels example_labels) = Some (True, lb))"
proof -
  let ?keep = "\<lambda>i. example_rule Keep (example_regex False (\<lambda>v. v = FormatUint i)) [[98]]"
  have "Validate example_lib LegacyValidation (?keep i) = Inr (?keep i)" for i by (simp add: Validate_def Let_def example_rule_def)
  moreover have "regex_ok (Regex (?keep i))" "Config_Action (?keep i) \<noteq> OtherAction" for i by (simp_all add: example_rule_def regex_ok_def example_regex_def)
  ultimately have k: "rule_ok example_lib (?keep i)" for i unfolding rule_ok_def by blast
  show ?thesis
    using relabel_shards_partition [OF example_rules(2) _ example_labels_ok, of ?keep] k by (simp add: example_rule_def example_regex_def)
qed

end
