(* ===== verification/Alerting.thy ===== *)
theory Alerting
  imports LabelsProps
begin

text \<open>
  Alerting rules (\<open>rules/alerting.go\<close>, and from \<open>rules/group.go\<close> the restoring of alerts after a restart).

  A \<open>time.Time\<close> is the number of nanoseconds since the zero time, a \<open>time.Duration\<close> an integer number of nanoseconds;
  \<open>Sub\<close> saturates as Go's does. Query results, template expansion, the hash of a label set and the conversion to floats are
  arguments. Go visits maps in any order: where the order matters, it is an argument, a list of the keys.
\<close>

type_synonym Time = int
type_synonym Duration = int

definition Sub :: "Time \<Rightarrow> Time \<Rightarrow> Duration" where
  "Sub t u = max (- (2 ^ 63)) (min (2 ^ 63 - 1) (t - u))"

definition UnixMilli :: "Time \<Rightarrow> int64" where
  "UnixMilli t = word_of_int ((t div 10 ^ 9 - 62135596800) * 1000 + (t mod 10 ^ 9) div 10 ^ 6)"

definition Unix :: "Time \<Rightarrow> int" where
  "Unix t = t div 10 ^ 9 - 62135596800"

datatype AlertState = StateUnknown | StateInactive | StatePending | StateFiring

fun AlertState_int :: "AlertState \<Rightarrow> nat" where
  "AlertState_int StateUnknown = 0"
| "AlertState_int StateInactive = 1"
| "AlertState_int StatePending = 2"
| "AlertState_int StateFiring = 3"

fun AlertState_String :: "AlertState \<Rightarrow> byte list" where
  "AlertState_String StateUnknown = [117, 110, 107, 110, 111, 119, 110]"
| "AlertState_String StateInactive = [105, 110, 97, 99, 116, 105, 118, 101]"
| "AlertState_String StatePending = [112, 101, 110, 100, 105, 110, 103]"
| "AlertState_String StateFiring = [102, 105, 114, 105, 110, 103]"

definition alertMetricName :: "byte list" where "alertMetricName = [65, 76, 69, 82, 84, 83]"
definition alertForStateMetricName :: "byte list" where "alertForStateMetricName = [65, 76, 69, 82, 84, 83, 95, 70, 79, 82, 95, 83, 84, 65, 84, 69]"
definition alertStateLabel :: "byte list" where "alertStateLabel = [97, 108, 101, 114, 116, 115, 116, 97, 116, 101]"

record Alert =
  State :: AlertState
  al_Labels :: Labels
  Annotations :: Labels
  al_Value :: float64
  ActiveAt :: Time
  FiredAt :: Time
  ResolvedAt :: Time
  LastSentAt :: Time
  ValidUntil :: Time
  KeepFiringSince :: Time

definition needsSending :: "Alert \<Rightarrow> Time \<Rightarrow> Duration \<Rightarrow> bool" where
  "needsSending a ts resendDelay =
     (if State a = StatePending then False
      else if LastSentAt a < ResolvedAt a then True
      else LastSentAt a + resendDelay < ts)"

record AlertingRule =
  ar_name :: "byte list"
  holdDuration :: Duration
  keepFiringFor :: Duration
  ar_labels :: Labels
  ar_annotations :: Labels
  restored :: bool
  evaluationTimestamp :: Time
  active :: "uint64 \<rightharpoonup> Alert"

definition NewAlertingRule :: "byte list \<Rightarrow> Duration \<Rightarrow> Duration \<Rightarrow> Labels \<Rightarrow> Labels \<Rightarrow> bool \<Rightarrow> AlertingRule" where
  "NewAlertingRule name hold keepFiring ls annotations rst =
     \<lparr>ar_name = name, holdDuration = hold, keepFiringFor = keepFiring, ar_labels = ls, ar_annotations = annotations, restored = rst,
      evaluationTimestamp = 0, active = Map.empty\<rparr>"

record Sample =
  Metric :: Labels
  T :: int64
  F :: float64

record alert_env =
  expand :: "Sample \<Rightarrow> byte list \<Rightarrow> byte list"
  Hash :: "Labels \<Rightarrow> uint64"
  to_float :: "int \<Rightarrow> float64"

definition rule_sample :: "AlertingRule \<Rightarrow> Alert \<Rightarrow> Time \<Rightarrow> Sample" where
  "rule_sample r alert ts =
     (let lb = fold (\<lambda>l. Set (Name l) (Value l)) (al_Labels alert) (Reset (ar_labels r) (ar_labels r));
          lb = Set MetricName alertMetricName lb;
          lb = Set AlertName (ar_name r) lb;
          lb = Set alertStateLabel (AlertState_String (State alert)) lb
      in \<lparr>Metric = slice_Builder_Labels lb, T = UnixMilli ts, F = 0x3FF0000000000000\<rparr>)"

definition forStateSample :: "AlertingRule \<Rightarrow> Alert option \<Rightarrow> Time \<Rightarrow> float64 \<Rightarrow> Sample" where
  "forStateSample r alert ts v =
     (let lb = Reset (ar_labels r) (ar_labels r);
          lb = (case alert of Some a \<Rightarrow> fold (\<lambda>l. Set (Name l) (Value l)) (al_Labels a) lb | None \<Rightarrow> lb);
          lb = Set MetricName alertForStateMetricName lb;
          lb = Set AlertName (ar_name r) lb
      in \<lparr>Metric = slice_Builder_Labels lb, T = UnixMilli ts, F = v\<rparr>)"

definition resolvedRetention :: Duration where "resolvedRetention = 15 * 60 * 10 ^ 9"

section \<open>Evaluation\<close>

text \<open>A sample of the query result becomes a new alert; two with the same fingerprint are an error.\<close>

definition alert_labels :: "alert_env \<Rightarrow> AlertingRule \<Rightarrow> Sample \<Rightarrow> Labels" where
  "alert_labels E r smpl =
     slice_Builder_Labels (Set AlertName (ar_name r)
       (fold (\<lambda>l. Set (Name l) (expand E smpl (Value l))) (ar_labels r) (Del [MetricName] (Reset (Metric smpl) (Metric smpl)))))"

definition new_alert :: "alert_env \<Rightarrow> AlertingRule \<Rightarrow> Time \<Rightarrow> Sample \<Rightarrow> Alert" where
  "new_alert E r ts smpl =
     \<lparr>State = StatePending, al_Labels = alert_labels E r smpl, Annotations = map (\<lambda>a. a\<lparr>Value := expand E smpl (Value a)\<rparr>) (ar_annotations r),
      al_Value = F smpl, ActiveAt = ts, FiredAt = 0, ResolvedAt = 0, LastSentAt = 0, ValidUntil = 0, KeepFiringSince = 0\<rparr>"

definition ErrDuplicateAlertLabelSet :: go_error where
  "ErrDuplicateAlertLabelSet = ErrInvalid ''vector contains metrics with the same labelset after applying alert labels''"

fun collect_alerts :: "alert_env \<Rightarrow> AlertingRule \<Rightarrow> Time \<Rightarrow> Sample list \<Rightarrow> (uint64 \<rightharpoonup> Alert) \<Rightarrow> go_error + (uint64 \<rightharpoonup> Alert)" where
  "collect_alerts E r ts [] alerts = Inr alerts"
| "collect_alerts E r ts (smpl # res) alerts =
     (let h = Hash E (alert_labels E r smpl) in
      if alerts h \<noteq> None then Inl ErrDuplicateAlertLabelSet
      else collect_alerts E r ts res (alerts(h \<mapsto> new_alert E r ts smpl)))"

definition merge_alerts :: "(uint64 \<rightharpoonup> Alert) \<Rightarrow> (uint64 \<rightharpoonup> Alert) \<Rightarrow> (uint64 \<rightharpoonup> Alert)" where
  "merge_alerts alerts act = (\<lambda>h. case alerts h of
     None \<Rightarrow> act h
   | Some a \<Rightarrow> (case act h of
       Some alert \<Rightarrow> if State alert \<noteq> StateInactive then Some (alert\<lparr>al_Value := al_Value a, Annotations := Annotations a\<rparr>) else Some a
     | None \<Rightarrow> Some a))"

text \<open>
  One alert that is not in the result: its new state, whether it is deleted from the map, and whether it goes on firing. Then the transitions
  between pending and firing, which also change when the hold duration does.
\<close>

definition eval_absent :: "AlertingRule \<Rightarrow> Time \<Rightarrow> Alert \<Rightarrow> Alert \<times> bool \<times> bool" where
  "eval_absent r ts a =
     (let keep = State a = StateFiring \<and> 0 < keepFiringFor r;
          a = (if keep \<and> KeepFiringSince a = 0 then a\<lparr>KeepFiringSince := ts\<rparr> else a);
          keepFiring = (keep \<and> Sub ts (KeepFiringSince a) < keepFiringFor r);
          deleted = (State a = StatePending \<or> (ResolvedAt a \<noteq> 0 \<and> resolvedRetention < Sub ts (ResolvedAt a)));
          a = (if State a \<noteq> StateInactive \<and> \<not> keepFiring then a\<lparr>State := StateInactive, ResolvedAt := ts\<rparr> else a)
      in (a, deleted, keepFiring))"

definition eval_transitions :: "AlertingRule \<Rightarrow> Time \<Rightarrow> Alert \<Rightarrow> Alert" where
  "eval_transitions r ts a =
     (let a = (if State a = StatePending \<and> holdDuration r \<le> Sub ts (ActiveAt a) then a\<lparr>State := StateFiring, FiredAt := ts\<rparr> else a)
      in if State a = StateFiring \<and> Sub ts (ActiveAt a) < holdDuration r
         then a\<lparr>State := StatePending, FiredAt := 0, LastSentAt := 0, KeepFiringSince := 0\<rparr> else a)"

definition eval_alert :: "AlertingRule \<Rightarrow> Time \<Rightarrow> bool \<Rightarrow> Alert \<Rightarrow> Alert \<times> bool \<times> bool" where
  "eval_alert r ts present a =
     (let (a, deleted, live) = (if present then (a\<lparr>KeepFiringSince := 0\<rparr>, False, True) else eval_absent r ts a)
      in (if live then eval_transitions r ts a else a, deleted, live))"

fun eval_loop :: "alert_env \<Rightarrow> AlertingRule \<Rightarrow> Time \<Rightarrow> Duration \<Rightarrow> uint64 set \<Rightarrow> uint64 list \<Rightarrow> (uint64 \<rightharpoonup> Alert) \<Rightarrow> Sample list \<Rightarrow> nat \<Rightarrow>
    (uint64 \<rightharpoonup> Alert) \<times> Sample list \<times> nat" where
  "eval_loop E r ts queryOffset resultFPs [] act vec n = (act, vec, n)"
| "eval_loop E r ts queryOffset resultFPs (fp # fps) act vec n =
     (case act fp of
        None \<Rightarrow> eval_loop E r ts queryOffset resultFPs fps act vec n
      | Some a \<Rightarrow>
          let (a, deleted, live) = eval_alert r ts (fp \<in> resultFPs) a;
              samples = (if live \<and> restored r then [rule_sample r a (ts - queryOffset), forStateSample r (Some a) (ts - queryOffset) (to_float E (Unix (ActiveAt a)))] else [])
          in eval_loop E r ts queryOffset resultFPs fps (act(fp := if deleted then None else Some a)) (vec @ samples) (if live then n + 1 else n))"

definition ErrExceededLimit :: go_error where
  "ErrExceededLimit = ErrInvalid ''exceeded limit''"

definition Eval :: "alert_env \<Rightarrow> Duration \<Rightarrow> Time \<Rightarrow> go_error + Sample list \<Rightarrow> int \<Rightarrow> uint64 list \<Rightarrow> AlertingRule \<Rightarrow> (go_error + Sample list) \<times> AlertingRule" where
  "Eval E queryOffset ts res limit order r =
     (case res of
        Inl err \<Rightarrow> (Inl err, r)
      | Inr samples \<Rightarrow>
          (case collect_alerts E r ts samples Map.empty of
             Inl err \<Rightarrow> (Inl err, r)
           | Inr alerts \<Rightarrow>
               let (act, vec, numActivePending) = eval_loop E r ts queryOffset (dom alerts) order (merge_alerts alerts (active r)) [] 0
               in if 0 < limit \<and> limit < int numActivePending
                  then (Inl ErrExceededLimit, r\<lparr>active := Map.empty\<rparr>)
                  else (Inr vec, r\<lparr>active := act\<rparr>)))"

section \<open>Reading and sending alerts\<close>

definition AlertingRule_State :: "AlertingRule \<Rightarrow> AlertState" where
  "AlertingRule_State r =
     (if evaluationTimestamp r = 0 then StateUnknown
      else if \<exists>a \<in> ran (active r). State a = StateFiring then StateFiring
      else if \<exists>a \<in> ran (active r). State a = StatePending then StatePending
      else StateInactive)"

definition currentAlerts :: "uint64 list \<Rightarrow> AlertingRule \<Rightarrow> Alert list" where
  "currentAlerts order r = List.map_filter (active r) order"

definition ActiveAlerts :: "uint64 list \<Rightarrow> AlertingRule \<Rightarrow> Alert list" where
  "ActiveAlerts order r = filter (\<lambda>a. ResolvedAt a = 0) (currentAlerts order r)"

definition send_alert :: "Time \<Rightarrow> Duration \<Rightarrow> Duration \<Rightarrow> Alert \<Rightarrow> Alert" where
  "send_alert ts resendDelay interval a = a\<lparr>LastSentAt := ts, ValidUntil := ts + sint (word_of_int (4 * max interval resendDelay) :: int64)\<rparr>"

fun sendAlerts :: "Time \<Rightarrow> Duration \<Rightarrow> Duration \<Rightarrow> uint64 list \<Rightarrow> AlertingRule \<Rightarrow> Alert list \<times> AlertingRule" where
  "sendAlerts ts resendDelay interval [] r = ([], r)"
| "sendAlerts ts resendDelay interval (fp # fps) r =
     (case active r fp of
        Some a \<Rightarrow>
          if needsSending a ts resendDelay
          then (let a = send_alert ts resendDelay interval a; (alerts, r) = sendAlerts ts resendDelay interval fps (r\<lparr>active := (active r)(fp \<mapsto> a)\<rparr>)
                in (a # alerts, r))
          else sendAlerts ts resendDelay interval fps r
      | None \<Rightarrow> sendAlerts ts resendDelay interval fps r)"

text \<open>
  Restoring an alert from the last sample of its series: \<open>t\<close> is its time in milliseconds, \<open>v\<close> the seconds it holds. \<open>time.Unix\<close> counts
  from the Unix epoch; integer division is towards zero and sample times are not negative.
\<close>

definition time_Unix :: "int \<Rightarrow> Time" where
  "time_Unix s = (s + 62135596800) * 10 ^ 9"

definition restore_alert :: "Time \<Rightarrow> Duration \<Rightarrow> Duration \<Rightarrow> int \<Rightarrow> int \<Rightarrow> Alert \<Rightarrow> Alert" where
  "restore_alert ts alertHoldDuration forGracePeriod t v a =
     (let downAt = time_Unix (t div 1000);
          restoredActiveAt = time_Unix v;
          timeSpentPending = Sub downAt restoredActiveAt;
          timeRemainingPending = alertHoldDuration - timeSpentPending
      in a\<lparr>ActiveAt :=
          (if timeRemainingPending \<le> 0 then restoredActiveAt
           else if timeRemainingPending < forGracePeriod then ts + forGracePeriod - alertHoldDuration
           else restoredActiveAt + Sub ts downAt)\<rparr>)"

end
