(* ===== verification/AlertingCorrect.thy ===== *)
theory AlertingCorrect
  imports Alerting
begin

text \<open>
  Alerts over time. A history is what the evaluations of a rule saw of one label set: the times, and whether it was in the result. The state of
  the alert is characterised by its history, and alerts satisfy an invariant in every state that evaluations and notifications reach.
\<close>

section \<open>Histories\<close>

type_synonym history = "(Time \<times> bool) list"

text \<open>
  An alert fires when the label set was in the results without interruption for the hold duration, and every interruption since then was shorter
  than the time it keeps firing for.
\<close>

definition fires :: "Duration \<Rightarrow> Duration \<Rightarrow> history \<Rightarrow> bool" where
  "fires hold keep hist \<longleftrightarrow> (\<exists>pre run post. hist = pre @ run @ post \<and> run \<noteq> [] \<and> (\<forall>x \<in> set run. snd x) \<and> hold \<le> Sub (fst (last run)) (fst (hd run)) \<and>
     (\<forall>pre' gap post'. post = pre' @ gap @ post' \<longrightarrow> gap \<noteq> [] \<longrightarrow> (\<forall>x \<in> set gap. \<not> snd x) \<longrightarrow> Sub (fst (last gap)) (fst (hd gap)) < keep))"

lemma Sub_mono: "t \<le> t' \<Longrightarrow> Sub t u \<le> Sub t' u" "u \<le> u' \<Longrightarrow> Sub t u' \<le> Sub t u" "Sub t t = 0"
  by (auto simp: Sub_def)

lemma not_fires_Nil: "\<not> fires hold keep []"
  by (simp add: fires_def)

lemma fires_snoc_present:
  "fires hold keep (hist @ [(t, True)]) \<longleftrightarrow> fires hold keep hist \<or> (\<exists>pre run. hist = pre @ run \<and> (\<forall>x \<in> set run. snd x) \<and> hold \<le> Sub t (fst (hd (run @ [(t, True)]))))"
    (is "?l \<longleftrightarrow> ?r1 \<or> ?r2")
proof
  assume ?l
  then obtain pre run post where h: "hist @ [(t, True)] = pre @ run @ post" "run \<noteq> []" "\<forall>x \<in> set run. snd x" "hold \<le> Sub (fst (last run)) (fst (hd run))"
    "\<forall>pre' gap post'. post = pre' @ gap @ post' \<longrightarrow> gap \<noteq> [] \<longrightarrow> (\<forall>x \<in> set gap. \<not> snd x) \<longrightarrow> Sub (fst (last gap)) (fst (hd gap)) < keep"
    unfolding fires_def by blast
  show "?r1 \<or> ?r2"
  proof (cases post rule: rev_cases)
    case Nil
    then obtain run' where run: "run = run' @ [(t, True)]" "hist = pre @ run'" using h(1,2) by (cases run rule: rev_cases) auto
    then have ?r2 using h(3,4) by (intro exI [of _ pre] exI [of _ run']) simp
    then show ?thesis ..
  next
    case (snoc post' y)
    then have "hist = pre @ run @ post'" using h(1) by simp
    moreover have "\<forall>pre' gap post''. post' = pre' @ gap @ post'' \<longrightarrow> gap \<noteq> [] \<longrightarrow> (\<forall>x \<in> set gap. \<not> snd x) \<longrightarrow> Sub (fst (last gap)) (fst (hd gap)) < keep"
      using h(5) snoc by (metis append.assoc)
    ultimately have ?r1 unfolding fires_def using h(2,3,4) by blast
    then show ?thesis ..
  qed
next
  assume "?r1 \<or> ?r2"
  then show ?l
  proof
    assume ?r1
    then obtain pre run post where h: "hist = pre @ run @ post" "run \<noteq> []" "\<forall>x \<in> set run. snd x" "hold \<le> Sub (fst (last run)) (fst (hd run))"
      "\<forall>pre' gap post'. post = pre' @ gap @ post' \<longrightarrow> gap \<noteq> [] \<longrightarrow> (\<forall>x \<in> set gap. \<not> snd x) \<longrightarrow> Sub (fst (last gap)) (fst (hd gap)) < keep"
      unfolding fires_def by blast
    have "Sub (fst (last gap)) (fst (hd gap)) < keep" if g: "post @ [(t, True)] = pre' @ gap @ post'" "gap \<noteq> []" "\<forall>x \<in> set gap. \<not> snd x" for pre' gap post'
    proof -
      have "post' \<noteq> []" using g by (cases gap rule: rev_cases) auto
      then obtain post'' where "post = pre' @ gap @ post''" using g(1) by (metis butlast_append butlast_snoc append_is_Nil_conv)
      then show ?thesis using h(5) g(2,3) by blast
    qed
    then show ?l unfolding fires_def using h(1-4) by (intro exI [of _ pre] exI [of _ run] exI [of _ "post @ [(t, True)]"]) auto
  next
    assume ?r2
    then obtain pre run where "hist = pre @ run" "\<forall>x \<in> set run. snd x" "hold \<le> Sub t (fst (hd (run @ [(t, True)])))" by blast
    then show ?l unfolding fires_def by (intro exI [of _ pre] exI [of _ "run @ [(t, True)]"] exI [of _ "[]"]) auto
  qed
qed

lemma fires_snoc_absent:
  "fires hold keep (hist @ [(t, False)]) \<longleftrightarrow> fires hold keep hist \<and> (\<forall>pre gap. hist = pre @ gap \<longrightarrow> (\<forall>x \<in> set gap. \<not> snd x) \<longrightarrow> Sub t (fst (hd (gap @ [(t, False)]))) < keep)"
    (is "?l \<longleftrightarrow> ?r1 \<and> ?r2")
proof
  assume ?l
  then obtain pre run post where h: "hist @ [(t, False)] = pre @ run @ post" "run \<noteq> []" "\<forall>x \<in> set run. snd x" "hold \<le> Sub (fst (last run)) (fst (hd run))"
    "\<forall>pre' gap post'. post = pre' @ gap @ post' \<longrightarrow> gap \<noteq> [] \<longrightarrow> (\<forall>x \<in> set gap. \<not> snd x) \<longrightarrow> Sub (fst (last gap)) (fst (hd gap)) < keep"
    unfolding fires_def by blast
  have "post \<noteq> []" using h(1,2,3) by (cases run rule: rev_cases) auto
  then obtain post' where post: "post = post' @ [(t, False)]" "hist = pre @ run @ post'" using h(1) by (cases post rule: rev_cases) auto
  have "\<forall>pre' gap post''. post' = pre' @ gap @ post'' \<longrightarrow> gap \<noteq> [] \<longrightarrow> (\<forall>x \<in> set gap. \<not> snd x) \<longrightarrow> Sub (fst (last gap)) (fst (hd gap)) < keep"
    using h(5) post(1) by (metis append.assoc)
  then have ?r1 unfolding fires_def using h(2,3,4) post(2) by blast
  moreover have "Sub t (fst (hd (gap @ [(t, False)]))) < keep" if g: "hist = pre' @ gap" "\<forall>x \<in> set gap. \<not> snd x" for pre' gap
  proof -
    have "length gap \<le> length post'"
    proof (rule ccontr)
      assume long: "\<not> ?thesis"
      then have "rev post' @ rev run @ rev pre = rev gap @ rev pre'" using g(1) post(2) by (metis rev_append append.assoc)
      then have "(rev post' @ rev run @ rev pre) ! length post' = rev gap ! length post'" using long by (simp add: nth_append)
      moreover have "(rev post' @ rev run @ rev pre) ! length post' = last run" using h(2) by (simp add: nth_append rev_nth last_conv_nth)
      moreover have "rev gap ! length post' \<in> set gap" using long nth_mem [of "length post'" "rev gap"] by simp
      ultimately show False using h(2,3) g(2) last_in_set by metis
    qed
    moreover have "pre' @ gap = (pre @ run) @ post'" using g(1) post(2) by simp
    ultimately obtain q where "post' = q @ gap" by (auto simp: append_eq_append_conv2)
    then have "post = q @ (gap @ [(t, False)]) @ []" using post(1) by simp
    moreover have "gap @ [(t, False)] \<noteq> []" "\<forall>x \<in> set (gap @ [(t, False)]). \<not> snd x" using g(2) by auto
    ultimately have "Sub (fst (last (gap @ [(t, False)]))) (fst (hd (gap @ [(t, False)]))) < keep" using h(5) by blast
    then show ?thesis by simp
  qed
  ultimately show "?r1 \<and> ?r2" by blast
next
  assume r: "?r1 \<and> ?r2"
  then obtain pre run post where h: "hist = pre @ run @ post" "run \<noteq> []" "\<forall>x \<in> set run. snd x" "hold \<le> Sub (fst (last run)) (fst (hd run))"
    "\<forall>pre' gap post'. post = pre' @ gap @ post' \<longrightarrow> gap \<noteq> [] \<longrightarrow> (\<forall>x \<in> set gap. \<not> snd x) \<longrightarrow> Sub (fst (last gap)) (fst (hd gap)) < keep"
    unfolding fires_def by blast
  have "Sub (fst (last gap)) (fst (hd gap)) < keep" if g: "post @ [(t, False)] = pre' @ gap @ post'" "gap \<noteq> []" "\<forall>x \<in> set gap. \<not> snd x" for pre' gap post'
  proof (cases post' rule: rev_cases)
    case Nil
    then obtain gap' where gap: "gap = gap' @ [(t, False)]" "post = pre' @ gap'" using g(1,2) by (cases gap rule: rev_cases) auto
    have "hist = (pre @ run @ pre') @ gap'" "\<forall>x \<in> set gap'. \<not> snd x" using gap h(1) g(3) by auto
    then show ?thesis using r gap(1) by (metis fst_conv last_snoc)
  next
    case (snoc post'' y)
    then have "post = pre' @ gap @ post''" using g(1) by simp
    then show ?thesis using h(5) g(2,3) by blast
  qed
  then show ?l unfolding fires_def using h(1-4) by (intro exI [of _ pre] exI [of _ run] exI [of _ "post @ [(t, False)]"]) auto
qed

section \<open>One evaluation\<close>

definition fingerprints :: "alert_env \<Rightarrow> AlertingRule \<Rightarrow> Sample list \<Rightarrow> uint64 set" where
  "fingerprints E r samples = (\<lambda>s. Hash E (alert_labels E r s)) ` set samples"

lemma collect_alerts:
  "collect_alerts E r ts samples acc = Inr m \<Longrightarrow> dom m = dom acc \<union> fingerprints E r samples \<and> (\<forall>h a. m h = Some a \<longrightarrow> acc h = Some a \<or> (\<exists>s. a = new_alert E r ts s))"
proof (induction samples arbitrary: acc)
  case (Cons s samples)
  then have "collect_alerts E r ts samples (acc(Hash E (alert_labels E r s) \<mapsto> new_alert E r ts s)) = Inr m" by (simp add: Let_def split: if_split_asm)
  from Cons.IH [OF this] show ?case by (auto simp: fingerprints_def split: if_split_asm)
qed (simp add: fingerprints_def)

lemma eval_loop:
  "distinct order \<Longrightarrow> eval_loop E r ts off fps order act vec n = (act', vec', n') \<Longrightarrow>
    act' h = (if h \<in> set order then Option.bind (act h) (\<lambda>a. case eval_alert r ts (h \<in> fps) a of (a', deleted, _) \<Rightarrow> if deleted then None else Some a') else act h)"
proof (induction order arbitrary: act vec n)
  case (Cons fp order)
  show ?case
  proof (cases "act fp")
    case None
    then show ?thesis using Cons by auto
  next
    case (Some a)
    obtain a' d l where e: "eval_alert r ts (fp \<in> fps) a = (a', d, l)" by (cases "eval_alert r ts (fp \<in> fps) a") auto
    have "eval_loop E r ts off fps order (act(fp := if d then None else Some a'))
        (vec @ (if l \<and> restored r then [rule_sample r a' (ts - off), forStateSample r (Some a') (ts - off) (to_float E (Unix (ActiveAt a')))] else [])) (if l then n + 1 else n) = (act', vec', n')"
      using Cons.prems(2) Some e by (simp add: Let_def)
    from Cons.IH [OF _ this] Cons.prems(1) Some e show ?thesis by (cases "h = fp") auto
  qed
qed simp

text \<open>The entry of one fingerprint after a successful evaluation.\<close>

definition eval_entry :: "AlertingRule \<Rightarrow> Time \<Rightarrow> Alert option \<Rightarrow> Alert option \<Rightarrow> Alert option" where
  "eval_entry r ts old new = Option.bind (merge_alerts (\<lambda>_. new) (\<lambda>_. old) (0 :: uint64))
     (\<lambda>a. case eval_alert r ts (new \<noteq> None) a of (a', deleted, _) \<Rightarrow> if deleted then None else Some a')"

lemma Eval_entries:
  assumes "Eval E off ts (Inr samples) limit order r = (Inr vec, r')" "distinct order" "set order = dom (active r) \<union> fingerprints E r samples"
  obtains m where "r' = r\<lparr>active := (\<lambda>h. eval_entry r ts (active r h) (m h))\<rparr>" "dom m = fingerprints E r samples" "\<forall>h a. m h = Some a \<longrightarrow> (\<exists>s. a = new_alert E r ts s)"
proof -
  obtain m where m: "collect_alerts E r ts samples Map.empty = Inr m" using assms(1) by (auto simp: Eval_def split: sum.splits)
  obtain act vec' n where l: "eval_loop E r ts off (dom m) order (merge_alerts m (active r)) [] 0 = (act, vec', n)"
    by (cases "eval_loop E r ts off (dom m) order (merge_alerts m (active r)) [] 0") auto
  have d: "dom m = fingerprints E r samples" "\<forall>h a. m h = Some a \<longrightarrow> (\<exists>s. a = new_alert E r ts s)" using collect_alerts [OF m] by auto
  have "act h = eval_entry r ts (active r h) (m h)" for h
  proof -
    have "merge_alerts m (active r) h = None" if "h \<notin> set order" using that assms(3) d(1) by (auto simp: merge_alerts_def split: option.splits)
    moreover have "merge_alerts m (active r) h = merge_alerts (\<lambda>_. m h) (\<lambda>_. active r h) 0" by (simp add: merge_alerts_def)
    moreover have "h \<in> dom m \<longleftrightarrow> m h \<noteq> None" by auto
    ultimately show ?thesis using eval_loop [OF assms(2) l, of h] by (auto simp: eval_entry_def)
  qed
  moreover have "r' = r\<lparr>active := act\<rparr>" using assms(1) m l by (auto simp: Eval_def split: if_split_asm)
  moreover have "act = (\<lambda>h. eval_entry r ts (active r h) (m h))" using calculation(1) by (rule ext)
  ultimately show ?thesis using that [of m] d by (simp only:)
qed

lemma sendAlerts_entries:
  "distinct order \<Longrightarrow> sendAlerts ts d iv order r = (out, r') \<Longrightarrow>
    r' = r\<lparr>active := (\<lambda>h. if h \<in> set order then map_option (\<lambda>a. if needsSending a ts d then send_alert ts d iv a else a) (active r h) else active r h)\<rparr> \<and>
    out = map (send_alert ts d iv) (filter (\<lambda>a. needsSending a ts d) (List.map_filter (active r) order))"
proof (induction order arbitrary: r out)
  case Nil
  then show ?case by simp
next
  case (Cons fp order)
  have fp: "fp \<notin> set order" using Cons.prems(1) by simp
  have mf: "List.map_filter ((active r)(fp := x)) order = List.map_filter (active r) order" for x using fp by (induction order) (auto simp: List.map_filter_simps split: option.splits)
  consider (send) a where "active r fp = Some a" "needsSending a ts d" | (skip) "\<forall>a. active r fp = Some a \<longrightarrow> \<not> needsSending a ts d" by blast
  then show ?case
  proof cases
    case (send a)
    let ?a = "send_alert ts d iv a"
    obtain out2 r2 where s: "sendAlerts ts d iv order (r\<lparr>active := (active r)(fp \<mapsto> ?a)\<rparr>) = (out2, r2)" by (cases "sendAlerts ts d iv order (r\<lparr>active := (active r)(fp \<mapsto> ?a)\<rparr>)")
    then have o: "out = ?a # out2" "r' = r2" using Cons.prems(2) send by (simp_all add: Let_def)
    show ?thesis using Cons.IH [OF _ s [folded o(2)]] Cons.prems(1) send fp mf [unfolded fun_upd_def] unfolding o(1) by (auto simp: List.map_filter_simps fun_eq_iff)
  next
    case skip
    then have "sendAlerts ts d iv order r = (out, r')" using Cons.prems(2) by (cases "active r fp") simp_all
    then show ?thesis using Cons.IH [of r out] Cons.prems(1) skip fp by (cases "active r fp") (auto simp: List.map_filter_simps fun_eq_iff)
  qed
qed

section \<open>Reachable states\<close>

text \<open>
  The rule as a group runs it: evaluations at increasing times, with every result they can have, and notifications. The first parameter of a state is the
  history of the label set with fingerprint \<open>h\<close>, the second the time of the last step. A query that fails and two alerts with the same labels leave the
  rule as it is. An evaluation that exceeds the limit drops all alerts: the history starts again.
\<close>

inductive observed :: "alert_env \<Rightarrow> uint64 \<Rightarrow> AlertingRule \<Rightarrow> history \<Rightarrow> Time \<Rightarrow> AlertingRule \<Rightarrow> bool" for E h r0 where
  observed_start: "active r0 = Map.empty \<Longrightarrow> observed E h r0 [] 0 r0"
| observed_eval: "observed E h r0 hist now r \<Longrightarrow> now < ts \<Longrightarrow> distinct order \<Longrightarrow> set order = dom (active r) \<union> fingerprints E r samples \<Longrightarrow>
    Eval E off ts (Inr samples) limit order r = (Inr vec, r') \<Longrightarrow> observed E h r0 (hist @ [(ts, h \<in> fingerprints E r samples)]) ts r'"
| observed_failed: "observed E h r0 hist now r \<Longrightarrow> Eval E off ts (Inl err) limit order r = (res, r') \<Longrightarrow> observed E h r0 hist now r'"
| observed_duplicate: "observed E h r0 hist now r \<Longrightarrow> Eval E off ts (Inr samples) limit order r = (Inl ErrDuplicateAlertLabelSet, r') \<Longrightarrow> observed E h r0 hist now r'"
| observed_limit: "observed E h r0 hist now r \<Longrightarrow> now < ts \<Longrightarrow> Eval E off ts (Inr samples) limit order r = (Inl ErrExceededLimit, r') \<Longrightarrow> observed E h r0 [] ts r'"
| observed_send: "observed E h r0 hist now r \<Longrightarrow> now \<le> ts \<Longrightarrow> distinct order \<Longrightarrow> set order = dom (active r) \<Longrightarrow>
    sendAlerts ts d iv order r = (out, r') \<Longrightarrow> observed E h r0 hist ts r'"

lemma Eval_errors:
  assumes "Eval E off ts (Inr samples) limit order r = (Inl err, r')"
  shows "err = ErrDuplicateAlertLabelSet \<and> r' = r \<or> err = ErrExceededLimit \<and> r' = r\<lparr>active := Map.empty\<rparr>"
proof -
  have "collect_alerts E r ts samples acc = Inl err \<Longrightarrow> err = ErrDuplicateAlertLabelSet" for acc err
    by (induction samples arbitrary: acc) (auto simp: Let_def split: if_split_asm)
  then show ?thesis using assms by (auto simp: Eval_def split: sum.splits prod.splits if_split_asm)
qed

lemma errors_distinct: "ErrDuplicateAlertLabelSet \<noteq> ErrExceededLimit"
  by (simp add: ErrDuplicateAlertLabelSet_def ErrExceededLimit_def)

definition alert_ok :: "Duration \<Rightarrow> Time \<Rightarrow> Alert \<Rightarrow> bool" where
  "alert_ok hold now a \<longleftrightarrow> 0 < ActiveAt a \<and> ActiveAt a \<le> now \<and> LastSentAt a \<le> now \<and> KeepFiringSince a \<le> now \<and> 0 \<le> KeepFiringSince a \<and> 0 \<le> LastSentAt a \<and>
     (case State a of
        StatePending \<Rightarrow> ResolvedAt a = 0 \<and> FiredAt a = 0 \<and> LastSentAt a = 0 \<and> KeepFiringSince a = 0
      | StateFiring \<Rightarrow> ResolvedAt a = 0 \<and> 0 < FiredAt a \<and> FiredAt a \<le> now \<and> hold \<le> Sub (FiredAt a) (ActiveAt a)
      | StateInactive \<Rightarrow> 0 < FiredAt a \<and> FiredAt a < ResolvedAt a \<and> ResolvedAt a \<le> now
      | StateUnknown \<Rightarrow> False)"

lemma alert_ok_later: "alert_ok hold now a \<Longrightarrow> now \<le> now' \<Longrightarrow> alert_ok hold now' a"
  by (auto simp: alert_ok_def split: AlertState.splits)

lemma alert_ok_new: "0 < ts \<Longrightarrow> alert_ok hold ts (new_alert E r ts s)"
  by (simp add: alert_ok_def new_alert_def)

lemma transitions_ok:
  assumes "alert_ok (holdDuration r) now a" "now \<le> ts" "State a \<noteq> StateInactive"
  shows "alert_ok (holdDuration r) ts (eval_transitions r ts a)"
    "State (eval_transitions r ts a) = (if State a = StateFiring \<or> holdDuration r \<le> Sub ts (ActiveAt a) then StateFiring else StatePending)"
    "ActiveAt (eval_transitions r ts a) = ActiveAt a" "KeepFiringSince a = 0 \<Longrightarrow> KeepFiringSince (eval_transitions r ts a) = 0"
proof -
  have "holdDuration r \<le> Sub ts (ActiveAt a)" if "State a = StateFiring"
    using assms(1,2) that Sub_mono(1) [of "FiredAt a" ts "ActiveAt a"] by (auto simp: alert_ok_def)
  then show "alert_ok (holdDuration r) ts (eval_transitions r ts a)"
    "State (eval_transitions r ts a) = (if State a = StateFiring \<or> holdDuration r \<le> Sub ts (ActiveAt a) then StateFiring else StatePending)"
    "ActiveAt (eval_transitions r ts a) = ActiveAt a" "KeepFiringSince a = 0 \<Longrightarrow> KeepFiringSince (eval_transitions r ts a) = 0"
    using assms by (auto simp: alert_ok_def eval_transitions_def Let_def split: AlertState.splits)
qed

lemma absent_ok:
  assumes "alert_ok (holdDuration r) now a" "now < ts" "eval_absent r ts a = (a', deleted, live)" "\<not> deleted"
  shows "live \<Longrightarrow> alert_ok (holdDuration r) ts a' \<and> State a' = StateFiring \<and> State a = StateFiring" "\<not> live \<Longrightarrow> alert_ok (holdDuration r) ts a' \<and> State a' = StateInactive"
  using assms by (auto simp: alert_ok_def eval_absent_def Let_def split: AlertState.splits if_split_asm)

lemma transitions_firing:
  assumes "alert_ok (holdDuration r) now a" "now \<le> ts" "State a = StateFiring"
  shows "eval_transitions r ts a = a"
  using assms Sub_mono(1) [of "FiredAt a" ts "ActiveAt a"] by (auto simp: alert_ok_def eval_transitions_def)

lemma eval_entry_present:
  assumes "\<forall>a. old = Some a \<longrightarrow> alert_ok (holdDuration r) now a" "now < ts" "0 \<le> now"
  obtains a where "eval_entry r ts old (Some (new_alert E r ts s)) = Some (eval_transitions r ts a)" "alert_ok (holdDuration r) ts a" "State a \<noteq> StateInactive" "KeepFiringSince a = 0"
    "(\<exists>b. old = Some b \<and> State b \<noteq> StateInactive \<and> State a = State b \<and> ActiveAt a = ActiveAt b) \<or> ((old = None \<or> (\<exists>b. old = Some b \<and> State b = StateInactive)) \<and> State a = StatePending \<and> ActiveAt a = ts)"
proof -
  let ?n = "new_alert E r ts s"
  consider (keep) b where "old = Some b" "State b \<noteq> StateInactive" | (fresh) "old = None \<or> (\<exists>b. old = Some b \<and> State b = StateInactive)" by (cases old) auto
  then show ?thesis
  proof cases
    case (keep b)
    let ?a = "b\<lparr>al_Value := al_Value ?n, Annotations := Annotations ?n, KeepFiringSince := 0\<rparr>"
    have "eval_entry r ts old (Some ?n) = Some (eval_transitions r ts ?a)" using keep by (simp add: eval_entry_def merge_alerts_def eval_alert_def)
    moreover have "alert_ok (holdDuration r) ts ?a" using assms keep alert_ok_later [of "holdDuration r" now b ts] by (auto simp: alert_ok_def split: AlertState.splits)
    ultimately show ?thesis using that [of ?a] keep by auto
  next
    case fresh
    have k: "?n\<lparr>KeepFiringSince := 0\<rparr> = ?n" by (simp add: new_alert_def)
    have "eval_entry r ts old (Some ?n) = Some (eval_transitions r ts (?n\<lparr>KeepFiringSince := 0\<rparr>))" using fresh by (auto simp: eval_entry_def merge_alerts_def eval_alert_def)
    moreover have "alert_ok (holdDuration r) ts ?n" using assms(2,3) alert_ok_new by simp
    moreover have "State ?n = StatePending" "ActiveAt ?n = ts" "KeepFiringSince ?n = 0" by (simp_all add: new_alert_def)
    ultimately show ?thesis using that [of ?n] fresh unfolding k by auto
  qed
qed

text \<open>The state of the alert, as a statement about the history.\<close>

definition hist_ok :: "Duration \<Rightarrow> Duration \<Rightarrow> history \<Rightarrow> Alert option \<Rightarrow> bool" where
  "hist_ok hold keep hist st \<longleftrightarrow> (case st of
     None \<Rightarrow> \<not> fires hold keep hist \<and> (hist = [] \<or> \<not> snd (last hist))
   | Some a \<Rightarrow> (case State a of
       StatePending \<Rightarrow> \<not> fires hold keep hist \<and> (\<exists>pre run. hist = pre @ run \<and> run \<noteq> [] \<and> (\<forall>x \<in> set run. snd x) \<and> (pre = [] \<or> \<not> snd (last pre)) \<and> ActiveAt a = fst (hd run))
     | StateFiring \<Rightarrow> fires hold keep hist \<and> (\<exists>pre gap. hist = pre @ gap \<and> pre \<noteq> [] \<and> snd (last pre) \<and> (\<forall>x \<in> set gap. \<not> snd x) \<and> KeepFiringSince a = (if gap = [] then 0 else fst (hd gap)))
     | _ \<Rightarrow> \<not> fires hold keep hist \<and> (hist = [] \<or> \<not> snd (last hist))))"

lemma hist_ok_firingI:
  assumes "fires hold keep hist" "State a = StateFiring" "hist = pre @ gap" "pre \<noteq> []" "snd (last pre)" "\<forall>x \<in> set gap. \<not> snd x" "KeepFiringSince a = (if gap = [] then 0 else fst (hd gap))"
  shows "hist_ok hold keep hist (Some a)"
proof -
  have "\<exists>pre gap. hist = pre @ gap \<and> pre \<noteq> [] \<and> snd (last pre) \<and> (\<forall>x \<in> set gap. \<not> snd x) \<and> KeepFiringSince a = (if gap = [] then 0 else fst (hd gap))"
    by (rule exI [of _ pre], rule exI [of _ gap]) (intro conjI assms)
  then show ?thesis using assms(1,2) by (simp add: hist_ok_def)
qed

lemma hist_ok_pendingI:
  assumes "\<not> fires hold keep hist" "State a = StatePending" "hist = pre @ run" "run \<noteq> []" "\<forall>x \<in> set run. snd x" "pre = [] \<or> \<not> snd (last pre)" "ActiveAt a = fst (hd run)"
  shows "hist_ok hold keep hist (Some a)"
proof -
  have "\<exists>pre run. hist = pre @ run \<and> run \<noteq> [] \<and> (\<forall>x \<in> set run. snd x) \<and> (pre = [] \<or> \<not> snd (last pre)) \<and> ActiveAt a = fst (hd run)"
    by (rule exI [of _ pre], rule exI [of _ run]) (intro conjI assms)
  then show ?thesis using assms(1,2) by (simp add: hist_ok_def)
qed

lemma suffix_unique:
  assumes "pre @ run = pre' @ run'" "\<forall>x \<in> set run. P x" "\<forall>x \<in> set run'. P x" "pre = [] \<or> \<not> P (last pre)"
  shows "\<exists>q. run = q @ run'"
proof (cases "length run' \<le> length run")
  case True
  then show ?thesis using assms(1) by (auto simp: append_eq_append_conv2)
next
  case False
  then obtain us where us: "pre' @ us = pre" "run' = us @ run" "us \<noteq> []" using assms(1) by (auto simp: append_eq_append_conv2)
  then have "last pre \<in> set run'" "pre \<noteq> []" by auto
  then show ?thesis using assms(3,4) by auto
qed

definition times_ok :: "history \<Rightarrow> Time \<Rightarrow> bool" where
  "times_ok hist now \<longleftrightarrow> sorted (map fst hist) \<and> (\<forall>x \<in> set hist. 0 < fst x \<and> fst x \<le> now) \<and> 0 \<le> now"

lemma earliest:
  assumes "times_ok (pre @ q @ run) now" "now \<le> ts"
  shows "fst (hd ((q @ run) @ [(ts, p)])) \<le> fst (hd (run @ [(ts, p)]))"
  using assms by (cases q; cases run) (auto simp: times_ok_def sorted_append)

lemma fires_run:
  assumes "\<not> fires hold keep hist" "hist = pre @ run" "\<forall>x \<in> set run. snd x" "pre = [] \<or> \<not> snd (last pre)" "times_ok hist now" "now \<le> ts"
  shows "fires hold keep (hist @ [(ts, True)]) \<longleftrightarrow> hold \<le> Sub ts (fst (hd (run @ [(ts, True)])))"
proof
  assume "fires hold keep (hist @ [(ts, True)])"
  then obtain pre' run' where r: "hist = pre' @ run'" "\<forall>x \<in> set run'. snd x" "hold \<le> Sub ts (fst (hd (run' @ [(ts, True)])))" using assms(1) fires_snoc_present by blast
  obtain q where "run = q @ run'" using suffix_unique [of pre run pre' run' snd] assms(2,3,4) r(1,2) by auto
  then show "hold \<le> Sub ts (fst (hd (run @ [(ts, True)])))" using earliest [of pre q run' now ts True] assms(2,5,6) r(3) Sub_mono(2) order_trans by blast
next
  assume "hold \<le> Sub ts (fst (hd (run @ [(ts, True)])))"
  then show "fires hold keep (hist @ [(ts, True)])" using assms(2,3) fires_snoc_present by blast
qed

lemma fires_gap:
  assumes "fires hold keep hist" "hist = pre @ gap" "\<forall>x \<in> set gap. \<not> snd x" "snd (last pre)" "times_ok hist now" "now \<le> ts"
  shows "fires hold keep (hist @ [(ts, False)]) \<longleftrightarrow> Sub ts (fst (hd (gap @ [(ts, False)]))) < keep"
proof
  assume "fires hold keep (hist @ [(ts, False)])"
  then show "Sub ts (fst (hd (gap @ [(ts, False)]))) < keep" using assms(2,3) fires_snoc_absent by blast
next
  assume k: "Sub ts (fst (hd (gap @ [(ts, False)]))) < keep"
  have "Sub ts (fst (hd (gap' @ [(ts, False)]))) < keep" if g: "hist = pre' @ gap'" "\<forall>x \<in> set gap'. \<not> snd x" for pre' gap'
  proof -
    obtain q where "gap = q @ gap'" using suffix_unique [of pre gap pre' gap' "\<lambda>x. \<not> snd x"] assms(2,3,4) g by auto
    then show ?thesis using earliest [of pre q gap' now ts False] assms(2,5,6) k Sub_mono(2) order_le_less_trans by blast
  qed
  then show "fires hold keep (hist @ [(ts, False)])" using assms(1) fires_snoc_absent by blast
qed

lemma hist_step_present:
  assumes "hist_ok (holdDuration r) (keepFiringFor r) hist old" "\<forall>a. old = Some a \<longrightarrow> alert_ok (holdDuration r) now a" "times_ok hist now" "now < ts"
  shows "hist_ok (holdDuration r) (keepFiringFor r) (hist @ [(ts, True)]) (eval_entry r ts old (Some (new_alert E r ts s)))"
proof -
  let ?hold = "holdDuration r" and ?keep = "keepFiringFor r" and ?h = "hist @ [(ts, True)]"
  have now: "0 \<le> now" using assms(3) by (simp add: times_ok_def)
  obtain a where a: "eval_entry r ts old (Some (new_alert E r ts s)) = Some (eval_transitions r ts a)" "alert_ok ?hold ts a" "State a \<noteq> StateInactive" "KeepFiringSince a = 0"
    "(\<exists>b. old = Some b \<and> State b \<noteq> StateInactive \<and> State a = State b \<and> ActiveAt a = ActiveAt b) \<or> ((old = None \<or> (\<exists>b. old = Some b \<and> State b = StateInactive)) \<and> State a = StatePending \<and> ActiveAt a = ts)"
    by (rule eval_entry_present [OF assms(2,4) now])
  note t = transitions_ok [OF a(2) order_refl a(3)]
  have firing: "hist_ok ?hold ?keep ?h (Some (eval_transitions r ts a))" if "fires ?hold ?keep ?h" "State (eval_transitions r ts a) = StateFiring"
    by (rule hist_ok_firingI [where pre = ?h and gap = "[]"]) (use that t(4) [OF a(4)] in simp_all)
  show ?thesis
  proof (cases "State a = StateFiring")
    case True
    then have "fires ?hold ?keep hist" using a(5) assms(1) by (auto simp: hist_ok_def)
    then have "fires ?hold ?keep ?h" by (simp add: fires_snoc_present)
    then show ?thesis using firing True t(2) a(1) by simp
  next
    case False
    then have pend: "State a = StatePending" using a(2,3) by (cases "State a") (auto simp: alert_ok_def)
    have "\<exists>pre run. hist = pre @ run \<and> (\<forall>x \<in> set run. snd x) \<and> (pre = [] \<or> \<not> snd (last pre)) \<and> ActiveAt a = fst (hd (run @ [(ts, True)])) \<and> \<not> fires ?hold ?keep hist"
      using a(5)
    proof
      assume "\<exists>b. old = Some b \<and> State b \<noteq> StateInactive \<and> State a = State b \<and> ActiveAt a = ActiveAt b"
      then obtain b where b: "old = Some b" "State b = StatePending" "ActiveAt a = ActiveAt b" using pend by metis
      then obtain pre run where "hist = pre @ run" "run \<noteq> []" "\<forall>x \<in> set run. snd x" "pre = [] \<or> \<not> snd (last pre)" "ActiveAt b = fst (hd run)" "\<not> fires ?hold ?keep hist"
        using assms(1) unfolding hist_ok_def by auto
      then show ?thesis using b(3) by (intro exI [of _ pre] exI [of _ run]) simp
    next
      assume "(old = None \<or> (\<exists>b. old = Some b \<and> State b = StateInactive)) \<and> State a = StatePending \<and> ActiveAt a = ts"
      then show ?thesis using assms(1) unfolding hist_ok_def by (intro exI [of _ hist] exI [of _ "[]"]) auto
    qed
    then obtain pre run where r: "hist = pre @ run" "\<forall>x \<in> set run. snd x" "pre = [] \<or> \<not> snd (last pre)" "ActiveAt a = fst (hd (run @ [(ts, True)]))" "\<not> fires ?hold ?keep hist" by blast
    have f: "fires ?hold ?keep ?h \<longleftrightarrow> ?hold \<le> Sub ts (ActiveAt a)" using fires_run [OF r(5,1,2,3) assms(3), of ts] assms(4) r(4) by simp
    show ?thesis
    proof (cases "?hold \<le> Sub ts (ActiveAt a)")
      case True
      then show ?thesis using firing f t(2) a(1) by simp
    next
      case no: False
      then have "State (eval_transitions r ts a) = StatePending" using t(2) False by simp
      then show ?thesis unfolding a(1) by (rule hist_ok_pendingI [where pre = pre and run = "run @ [(ts, True)]", rotated]) (use f no r t(3) in auto)
    qed
  qed
qed

lemma hist_step_absent:
  assumes "hist_ok (holdDuration r) (keepFiringFor r) hist old" "\<forall>a. old = Some a \<longrightarrow> alert_ok (holdDuration r) now a" "times_ok hist now" "now < ts"
  shows "hist_ok (holdDuration r) (keepFiringFor r) (hist @ [(ts, False)]) (eval_entry r ts old None)"
proof -
  let ?hold = "holdDuration r" and ?keep = "keepFiringFor r" and ?h = "hist @ [(ts, False)]"
  have entry: "eval_entry r ts old None = Option.bind old (\<lambda>a. case eval_absent r ts a of (a', deleted, live) \<Rightarrow> if deleted then None else Some (if live then eval_transitions r ts a' else a'))"
    by (cases old) (auto simp: eval_entry_def merge_alerts_def eval_alert_def split: prod.splits)
  have still: "\<not> fires ?hold ?keep ?h" if "\<not> fires ?hold ?keep hist" using that by (simp add: fires_snoc_absent)
  show ?thesis
  proof (cases old)
    case None
    then show ?thesis using assms(1) still entry by (simp add: hist_ok_def)
  next
    case (Some a)
    have ok: "alert_ok ?hold now a" using assms(2) Some by simp
    show ?thesis
    proof (cases "State a = StateFiring")
      case True
      then obtain pre gap where f: "fires ?hold ?keep hist" "hist = pre @ gap" "pre \<noteq> []" "snd (last pre)" "\<forall>x \<in> set gap. \<not> snd x" "KeepFiringSince a = (if gap = [] then 0 else fst (hd gap))"
        using assms(1) Some unfolding hist_ok_def by auto
      define since where "since = fst (hd (gap @ [(ts, False)]))"
      have fg: "fires ?hold ?keep ?h \<longleftrightarrow> Sub ts since < ?keep" unfolding since_def using fires_gap [OF f(1,2,5,4) assms(3)] assms(4) by simp
      have pos: "gap \<noteq> [] \<Longrightarrow> 0 < fst (hd gap)" "since \<le> ts" using assms(3,4) f(2) unfolding times_ok_def since_def by (cases gap; force)+
      have k: "KeepFiringSince (if KeepFiringSince a = 0 then a\<lparr>KeepFiringSince := ts\<rparr> else a) = since" using f(6) pos(1) unfolding since_def by auto
      have "0 \<le> Sub ts since" using Sub_mono(2) [OF pos(2), of ts] Sub_mono(3) by simp
      then have kf: "0 < ?keep \<and> Sub ts since < ?keep \<longleftrightarrow> fires ?hold ?keep ?h" using fg by auto
      have r0: "ResolvedAt a = 0" using ok True by (simp add: alert_ok_def)
      show ?thesis
      proof (cases "fires ?hold ?keep ?h")
        case fire: True
        let ?a = "if KeepFiringSince a = 0 then a\<lparr>KeepFiringSince := ts\<rparr> else a"
        have "eval_absent r ts a = (?a, False, True)" using kf fire True r0 k by (simp add: eval_absent_def Let_def)
        moreover have "alert_ok ?hold ts ?a \<and> State ?a = StateFiring" using absent_ok(1) [OF ok assms(4) calculation] by simp
        then have "eval_transitions r ts ?a = ?a" by (intro transitions_firing [of r ts]) simp_all
        ultimately have "eval_entry r ts old None = Some ?a" unfolding entry using Some by simp
        moreover have "hist_ok ?hold ?keep ?h (Some ?a)"
          by (rule hist_ok_firingI [where pre = pre and gap = "gap @ [(ts, False)]"]) (use fire True f(2-5) k in \<open>auto simp: since_def\<close>)
        ultimately show ?thesis by simp
      next
        case stop: False
        have "State (fst (eval_absent r ts a)) = StateInactive" "\<not> fst (snd (eval_absent r ts a))" "\<not> snd (snd (eval_absent r ts a))"
          using kf stop True r0 k by (auto simp: eval_absent_def Let_def)
        then show ?thesis using entry Some stop by (auto simp: hist_ok_def split: prod.splits)
      qed
    next
      case False
      then have n: "\<not> fires ?hold ?keep ?h" using assms(1) Some still by (auto simp: hist_ok_def split: AlertState.splits)
      have "fst (snd (eval_absent r ts a)) \<or> (State (fst (eval_absent r ts a)) = StateInactive \<and> \<not> snd (snd (eval_absent r ts a)))"
        using False ok by (cases "State a") (auto simp: eval_absent_def Let_def alert_ok_def)
      then show ?thesis using entry Some n by (auto simp: hist_ok_def split: prod.splits)
    qed
  qed
qed

end
