(* ===== verification/AlertingProps.thy ===== *)
theory AlertingProps
  imports AlertingCorrect
begin

text \<open>What holds of alerting rules: when alerts fire, which states they can be in, what is sent, and how long a restored alert waits.\<close>

inductive_cases observed_cases: "observed E h r0 hist now r"

lemma entry_ok:
  assumes "\<forall>a. old = Some a \<longrightarrow> alert_ok (holdDuration r) now a" "now < ts" "0 \<le> now" "new = None \<or> (\<exists>s. new = Some (new_alert E r ts s))" "eval_entry r ts old new = Some a"
  shows "alert_ok (holdDuration r) ts a"
proof (cases new)
  case None
  then obtain b where b: "old = Some b" using assms(5) by (cases old) (auto simp: eval_entry_def merge_alerts_def)
  obtain a' deleted live where e: "eval_absent r ts b = (a', deleted, live)" by (cases "eval_absent r ts b") auto
  have "\<not> deleted" "a = (if live then eval_transitions r ts a' else a')"
    using assms(5) None b e by (auto simp: eval_entry_def merge_alerts_def eval_alert_def split: if_split_asm)
  then show ?thesis using absent_ok [OF _ assms(2) e] assms(1) b transitions_firing [of r ts a' ts] by (cases live) auto
next
  case (Some n)
  then obtain s where s: "new = Some (new_alert E r ts s)" using assms(4) by auto
  obtain b where "eval_entry r ts old (Some (new_alert E r ts s)) = Some (eval_transitions r ts b)" "alert_ok (holdDuration r) ts b" "State b \<noteq> StateInactive"
    by (rule eval_entry_present [OF assms(1,2,3)]) auto
  then show ?thesis using transitions_ok(1) [of r ts b ts] assms(5) s by simp
qed

lemma send_ok: "alert_ok hold now a \<Longrightarrow> now \<le> ts \<Longrightarrow> 0 \<le> now \<Longrightarrow> needsSending a ts d \<Longrightarrow> alert_ok hold ts (send_alert ts d iv a)"
  by (auto simp: alert_ok_def send_alert_def needsSending_def split: AlertState.splits)

lemma hist_ok_send: "hist_ok hold keep hist (Some (send_alert ts d iv a)) = hist_ok hold keep hist (Some a)"
proof -
  have "State (send_alert ts d iv a) = State a" "ActiveAt (send_alert ts d iv a) = ActiveAt a" "KeepFiringSince (send_alert ts d iv a) = KeepFiringSince a"
    by (simp_all add: send_alert_def)
  then show ?thesis unfolding hist_ok_def option.case by (simp only:)
qed

definition rule_inv :: "uint64 \<Rightarrow> AlertingRule \<Rightarrow> history \<Rightarrow> Time \<Rightarrow> AlertingRule \<Rightarrow> bool" where
  "rule_inv h r0 hist now r \<longleftrightarrow> holdDuration r = holdDuration r0 \<and> keepFiringFor r = keepFiringFor r0 \<and> times_ok hist now \<and>
     (\<forall>fp a. active r fp = Some a \<longrightarrow> alert_ok (holdDuration r) now a) \<and> hist_ok (holdDuration r) (keepFiringFor r) hist (active r h)"

lemma observed_inv: "observed E h r0 hist now r \<Longrightarrow> rule_inv h r0 hist now r"
proof (induction rule: observed.induct)
  case observed_start
  then show ?case by (simp add: rule_inv_def times_ok_def hist_ok_def not_fires_Nil)
next
  case (observed_eval hist now r ts order samples off limit vec r')
  have inv: "holdDuration r = holdDuration r0" "keepFiringFor r = keepFiringFor r0" "times_ok hist now" "\<forall>fp a. active r fp = Some a \<longrightarrow> alert_ok (holdDuration r) now a"
    "hist_ok (holdDuration r) (keepFiringFor r) hist (active r h)" "0 \<le> now"
    using observed_eval.IH unfolding rule_inv_def times_ok_def by blast+
  obtain m where m: "r' = r\<lparr>active := (\<lambda>h. eval_entry r ts (active r h) (m h))\<rparr>" "dom m = fingerprints E r samples" "\<forall>h a. m h = Some a \<longrightarrow> (\<exists>s. a = new_alert E r ts s)"
    by (rule Eval_entries [OF observed_eval.hyps(5,3,4)])
  have new: "m fp = None \<or> (\<exists>s. m fp = Some (new_alert E r ts s))" for fp using m(3) by (cases "m fp") auto
  have "times_ok (hist @ [(ts, h \<in> fingerprints E r samples)]) ts" using inv(3) observed_eval.hyps(2) by (auto simp: times_ok_def sorted_append)
  moreover have "alert_ok (holdDuration r) ts a" if "eval_entry r ts (active r fp) (m fp) = Some a" for fp a
    by (rule entry_ok [OF _ observed_eval.hyps(2) inv(6) new that]) (use inv(4) in simp)
  moreover have "hist_ok (holdDuration r) (keepFiringFor r) (hist @ [(ts, h \<in> fingerprints E r samples)]) (eval_entry r ts (active r h) (m h))"
  proof (cases "m h")
    case None
    then have "h \<notin> fingerprints E r samples" using m(2) by auto
    then show ?thesis using hist_step_absent [OF inv(5) _ inv(3) observed_eval.hyps(2)] inv(4) None by simp
  next
    case (Some a)
    then obtain s where "m h = Some (new_alert E r ts s)" "h \<in> fingerprints E r samples" using m(2,3) by (metis domI)
    then show ?thesis using hist_step_present [OF inv(5) _ inv(3) observed_eval.hyps(2)] inv(4) by simp
  qed
  ultimately show ?case using inv(1,2) m(1) by (simp add: rule_inv_def)
next
  case (observed_failed hist now r off ts err limit order res r')
  then show ?case by (simp add: Eval_def)
next
  case (observed_duplicate hist now r off ts samples limit order r')
  then show ?case using Eval_errors [OF observed_duplicate.hyps(2)] errors_distinct by simp
next
  case (observed_limit hist now r ts off samples limit order r')
  then have "r' = r\<lparr>active := Map.empty\<rparr>" using Eval_errors [OF observed_limit.hyps(3)] errors_distinct by auto
  then show ?case using observed_limit.IH observed_limit.hyps(2) by (auto simp: rule_inv_def times_ok_def hist_ok_def not_fires_Nil)
next
  case (observed_send hist now r ts order d iv out r')
  have inv: "times_ok hist now" "\<forall>fp a. active r fp = Some a \<longrightarrow> alert_ok (holdDuration r) now a" "hist_ok (holdDuration r) (keepFiringFor r) hist (active r h)" "0 \<le> now"
    "holdDuration r = holdDuration r0" "keepFiringFor r = keepFiringFor r0" using observed_send.IH unfolding rule_inv_def times_ok_def by blast+
  let ?f = "\<lambda>a. if needsSending a ts d then send_alert ts d iv a else a"
  have act: "active r' = (\<lambda>fp. map_option ?f (active r fp))" "holdDuration r' = holdDuration r" "keepFiringFor r' = keepFiringFor r"
    using conjunct1 [OF sendAlerts_entries [OF observed_send.hyps(3,5)]] observed_send.hyps(4) by (auto simp: fun_eq_iff dom_def)
  have "hist_ok (holdDuration r) (keepFiringFor r) hist (map_option ?f (active r h))"
    using inv(3) by (cases "active r h") (simp_all add: hist_ok_send)
  moreover have "times_ok hist ts" using inv(1) observed_send.hyps(2) by (auto simp: times_ok_def)
  moreover have "alert_ok (holdDuration r) ts b" if "map_option ?f (active r fp) = Some b" for fp b
  proof -
    obtain a where "active r fp = Some a" "b = ?f a" using \<open>map_option ?f (active r fp) = Some b\<close> by (cases "active r fp") auto
    then show ?thesis using inv(2,4) observed_send.hyps(2) send_ok [of "holdDuration r" now a ts d iv] alert_ok_later [of "holdDuration r" now a ts] by simp
  qed
  ultimately show ?case unfolding rule_inv_def act using inv(5,6) by blast
qed

lemma observed_fires:
  assumes "observed E h r0 hist now r"
  shows "(\<exists>a. active r h = Some a \<and> State a = StateFiring) \<longleftrightarrow> fires (holdDuration r0) (keepFiringFor r0) hist"
proof -
  have "hist_ok (holdDuration r0) (keepFiringFor r0) hist (active r h)" using observed_inv [OF assms] by (metis rule_inv_def)
  then show ?thesis by (cases "active r h") (auto simp: hist_ok_def split: AlertState.splits)
qed

text \<open>
  C12. When an alert fires. Whatever evaluations, failed evaluations and notifications a rule has gone through, the alert of a label set is firing exactly when,
  since the last evaluation that exceeded the limit of alerts, the label set was in the query results without interruption for at least the hold duration,
  and since then each interruption has been shorter than the time for which the rule keeps firing.
\<close>

theorem alert_fires_iff:
  assumes "observed E h r0 hist now r"
  shows "(\<exists>a. active r h = Some a \<and> State a = StateFiring) \<longleftrightarrow> fires (holdDuration r0) (keepFiringFor r0) hist"
  using assms by (rule observed_fires)

definition example_alert_env :: alert_env where
  "example_alert_env = \<lparr>expand = (\<lambda>_ v. v), Hash = (\<lambda>_. 7), to_float = (\<lambda>_. 0)\<rparr>"

definition example_alerting :: AlertingRule where
  "example_alerting = NewAlertingRule [65] 10 5 [] [] False"

definition example_samples :: "bool \<Rightarrow> Sample list" where
  "example_samples p = (if p then [\<lparr>Metric = [], T = 0, F = 0\<rparr>] else [])"

abbreviation example_eval :: "Time \<Rightarrow> bool \<Rightarrow> AlertingRule \<Rightarrow> AlertingRule" where
  "example_eval ts p r \<equiv> snd (Eval example_alert_env 0 ts (Inr (example_samples p)) 0 [7] r)"

lemma example_returns:
  obtains vec where "Eval example_alert_env 0 ts (Inr (example_samples p)) 0 [7] r = (Inr vec, example_eval ts p r)"
proof -
  obtain m where "collect_alerts example_alert_env r ts (example_samples p) Map.empty = Inr m" by (cases p) (simp_all add: example_samples_def Let_def)
  then have "\<exists>vec. fst (Eval example_alert_env 0 ts (Inr (example_samples p)) 0 [7] r) = Inr vec" unfolding Eval_def by (simp only: sum.case) (simp split: prod.split)
  then show ?thesis using that by (metis prod.collapse)
qed

lemma example_fingerprints: "fingerprints example_alert_env r (example_samples p) = (if p then {7} else {})"
  by (simp add: fingerprints_def example_alert_env_def example_samples_def)

lemma example_step:
  assumes "observed example_alert_env 7 example_alerting hist now r" "now < ts" "dom (active r) \<subseteq> {7}" "p \<or> dom (active r) = {7}"
  shows "observed example_alert_env 7 example_alerting (hist @ [(ts, p)]) ts (example_eval ts p r)" "dom (active (example_eval ts p r)) \<subseteq> {7}"
proof -
  obtain vec where e: "Eval example_alert_env 0 ts (Inr (example_samples p)) 0 [7] r = (Inr vec, example_eval ts p r)" by (rule example_returns)
  have order: "distinct [7 :: uint64]" "set [7] = dom (active r) \<union> fingerprints example_alert_env r (example_samples p)" using assms(3,4) by (auto simp: example_fingerprints)
  show "observed example_alert_env 7 example_alerting (hist @ [(ts, p)]) ts (example_eval ts p r)"
    using observed_eval [OF assms(1,2) order e] by (simp add: example_fingerprints split: if_split_asm)
  obtain m where m: "example_eval ts p r = r\<lparr>active := (\<lambda>h. eval_entry r ts (active r h) (m h))\<rparr>" "dom m \<subseteq> {7}"
    by (rule Eval_entries [OF e order]) (auto simp: example_fingerprints split: if_split_asm)
  have "eval_entry r ts (active r h) (m h) = None" if h: "h \<noteq> 7" for h
  proof -
    have "m h = None" "active r h = None" using m(2) assms(3) h by auto
    then show ?thesis by (simp add: eval_entry_def merge_alerts_def)
  qed
  then show "dom (active (example_eval ts p r)) \<subseteq> {7}" unfolding m(1) by (force simp: dom_def)
qed

definition example_firing :: AlertingRule where
  "example_firing = example_eval 111 True (example_eval 105 True (example_eval 100 True example_alerting))"

lemma example_observed:
  "observed example_alert_env 7 example_alerting [(100, True), (105, True), (111, True)] 111 example_firing" "dom (active example_firing) \<subseteq> {7}"
proof -
  have "observed example_alert_env 7 example_alerting [] 0 example_alerting" "dom (active example_alerting) \<subseteq> {7}"
    by (auto intro: observed_start simp: example_alerting_def NewAlertingRule_def)
  note s1 = example_step [OF this(1) _ this(2), of 100 True, simplified]
  note s2 = example_step [OF s1(1) _ s1(2), of 105 True, simplified]
  show "observed example_alert_env 7 example_alerting [(100, True), (105, True), (111, True)] 111 example_firing" "dom (active example_firing) \<subseteq> {7}"
    using example_step [OF s2(1) _ s2(2), of 111 True, simplified] by (simp_all only: example_firing_def)
qed

lemma example_fires: "fires 10 5 [(100, True), (105, True), (111, True)]" "fires 10 5 [(100, True), (105, True), (111, True), (120, False)]"
  "\<not> fires 10 5 [(100, True), (105, True), (111, True), (120, False), (130, False)]"
proof -
  let ?h = "[(100, True), (105, True)] :: history"
  have "fires 10 5 (?h @ [(111, True)])" unfolding fires_snoc_present by (rule disjI2, rule exI [of _ "[]"], rule exI [of _ ?h]) (simp add: Sub_def)
  then show 1: "fires 10 5 [(100, True), (105, True), (111, True)]" by simp
  have "Sub 120 (fst (hd (gap @ [(120, False)]))) < 5" if g: "[(100, True), (105, True), (111, True)] = pre @ gap" "\<forall>x \<in> set gap. \<not> snd x" for pre gap
    using g by (cases gap rule: rev_cases) (auto simp: Sub_def)
  then have "fires 10 5 ([(100, True), (105, True), (111, True)] @ [(120, False)])" unfolding fires_snoc_absent using 1 by blast
  then show "fires 10 5 [(100, True), (105, True), (111, True), (120, False)]" by simp
  have "\<not> fires 10 5 ([(100, True), (105, True), (111, True), (120, False)] @ [(130, False)])"
    unfolding fires_snoc_absent by (intro notI, elim conjE allE [of _ "[(100, True), (105, True), (111, True)]"] allE [of _ "[(120, False)]"]) (simp add: Sub_def)
  then show "\<not> fires 10 5 [(100, True), (105, True), (111, True), (120, False), (130, False)]" by simp
qed

theorem alert_fires_iff_witness:
  "\<exists>a. active example_firing 7 = Some a \<and> State a = StateFiring"
  using alert_fires_iff [OF example_observed(1)] example_fires(1) by (simp add: example_alerting_def NewAlertingRule_def)

definition example_kept :: AlertingRule where "example_kept = example_eval 120 False example_firing"
definition example_resolved :: AlertingRule where "example_resolved = example_eval 130 False example_kept"

lemma example_kept:
  "observed example_alert_env 7 example_alerting [(100, True), (105, True), (111, True), (120, False)] 120 example_kept" "dom (active example_kept) = {7}"
  "\<exists>a. active example_kept 7 = Some a \<and> State a = StateFiring"
proof -
  have "\<exists>a. active example_firing 7 = Some a" using observed_fires [OF example_observed(1)] example_fires(1) by (auto simp: example_alerting_def NewAlertingRule_def)
  then have "dom (active example_firing) = {7}" using example_observed(2) by auto
  note s = example_step [OF example_observed(1) _ example_observed(2) disjI2, OF _ this, where ts = 120 and p = False, simplified, folded example_kept_def]
  show o: "observed example_alert_env 7 example_alerting [(100, True), (105, True), (111, True), (120, False)] 120 example_kept" using s(1) .
  show f: "\<exists>a. active example_kept 7 = Some a \<and> State a = StateFiring" using observed_fires [OF o] example_fires(2) by (simp add: example_alerting_def NewAlertingRule_def)
  show "dom (active example_kept) = {7}" using s(2) f by auto
qed

lemma resolved_entry:
  assumes "observed E h r0 hist now r" "active r h = Some a" "State a = StateFiring"
    and "now < ts" "distinct order" "set order = dom (active r) \<union> fingerprints E r samples" "Eval E off ts (Inr samples) limit order r = (Inr vec, r')"
    and "\<not> (\<exists>b. active r' h = Some b \<and> State b = StateFiring)"
  obtains b where "active r' h = Some b" "State b = StateInactive" "ResolvedAt b = ts" "al_Labels b = al_Labels a" "LastSentAt b < ts"
proof -
  have inv: "alert_ok (holdDuration r) now a" "0 \<le> now" using observed_inv [OF assms(1)] assms(2) unfolding rule_inv_def times_ok_def by blast+
  obtain m where m: "r' = r\<lparr>active := (\<lambda>h. eval_entry r ts (active r h) (m h))\<rparr>" "\<forall>h a. m h = Some a \<longrightarrow> (\<exists>s. a = new_alert E r ts s)"
    by (rule Eval_entries [OF assms(7,5,6)])
  have new: "m h = None"
  proof (rule ccontr)
    assume "m h \<noteq> None"
    then obtain s where s: "m h = Some (new_alert E r ts s)" using m(2) by (metis not_None_eq)
    obtain b where b: "eval_entry r ts (Some a) (m h) = Some (eval_transitions r ts b)" "alert_ok (holdDuration r) ts b" "State b \<noteq> StateInactive" "State b = StateFiring"
      using eval_entry_present [of "Some a" r now ts E s] inv assms(3,4) unfolding s by (metis AlertState.distinct(9) option.inject option.distinct(1))
    have "active r' h = Some (eval_transitions r ts b)" using m(1) b(1) assms(2) by simp
    moreover have "State (eval_transitions r ts b) = StateFiring" using transitions_ok(2) [OF b(2) order_refl b(3)] b(4) by simp
    ultimately show False using assms(8) by blast
  qed
  obtain b deleted live where e: "eval_absent r ts a = (b, deleted, live)" by (cases "eval_absent r ts a") auto
  have d: "\<not> deleted" "\<not> live \<Longrightarrow> State b = StateInactive \<and> ResolvedAt b = ts" "al_Labels b = al_Labels a" "LastSentAt b < ts"
    using e inv assms(3,4) by (auto simp: eval_absent_def Let_def alert_ok_def split: if_splits)
  have act: "active r' h = Some (if live then eval_transitions r ts b else b)"
    using m(1) new assms(2) e d(1) by (simp add: eval_entry_def merge_alerts_def eval_alert_def)
  have "\<not> live" using act absent_ok(1) [OF inv(1) assms(4) e d(1)] transitions_firing [of r ts b ts] assms(8) by auto
  then show ?thesis using act d that by auto
qed

text \<open>
  C13. A resolved alert is reported. When an evaluation that succeeds ends the firing of an alert, then the alert is kept, marked as resolved at that time,
  and the next notification sends it, whatever the resend delay is and however recently the alert was sent while it was firing. An evaluation that
  exceeds the limit of alerts drops them all, and none is reported as resolved.
\<close>

theorem resolved_alert_is_sent:
  assumes "observed E h r0 hist now r" "active r h = Some a" "State a = StateFiring"
    and "now < ts" "distinct order" "set order = dom (active r) \<union> fingerprints E r samples" "Eval E off ts (Inr samples) limit order r = (Inr vec, r')"
    and "\<not> (\<exists>b. active r' h = Some b \<and> State b = StateFiring)"
    and "distinct order'" "set order' = dom (active r')" "sendAlerts ts' resendDelay interval order' r' = (out, r'')"
  shows "\<exists>b \<in> set out. al_Labels b = al_Labels a \<and> State b = StateInactive \<and> ResolvedAt b = ts \<and> LastSentAt b = ts'"
proof -
  obtain b where b: "active r' h = Some b" "State b = StateInactive" "ResolvedAt b = ts" "al_Labels b = al_Labels a" "LastSentAt b < ts"
    by (rule resolved_entry [OF assms(1-8)])
  have "h \<in> set order'" using b(1) assms(10) by auto
  then have "b \<in> set (List.map_filter (active r') order')" using b(1) by (force simp: map_filter_def)
  moreover have "needsSending b ts' resendDelay" using b(2,3,5) by (simp add: needsSending_def)
  ultimately have "send_alert ts' resendDelay interval b \<in> set out" using sendAlerts_entries [OF assms(9,11)] by auto
  then show ?thesis using b by (intro bexI [of _ "send_alert ts' resendDelay interval b"]) (simp_all add: send_alert_def)
qed

theorem resolved_alert_is_sent_witness:
  "\<exists>a b. active example_kept 7 = Some a \<and> b \<in> set (fst (sendAlerts 130 60 15 [7] example_resolved)) \<and> al_Labels b = al_Labels a \<and> State b = StateInactive \<and> ResolvedAt b = 130 \<and> LastSentAt b = 130"
proof -
  obtain a where a: "active example_kept 7 = Some a" "State a = StateFiring" using example_kept(3) by blast
  obtain vec where e: "Eval example_alert_env 0 130 (Inr (example_samples False)) 0 [7] example_kept = (Inr vec, example_resolved)"
    using example_returns unfolding example_resolved_def by blast
  note s = example_step [OF example_kept(1) _ _ disjI2, OF _ _ example_kept(2), where ts = 130 and p = False, folded example_resolved_def]
  have no: "\<not> (\<exists>b. active example_resolved 7 = Some b \<and> State b = StateFiring)"
    using observed_fires [OF s(1)] example_fires(3) example_kept(2) by (simp add: example_alerting_def NewAlertingRule_def)
  have order: "distinct [7 :: uint64]" "set [7] = dom (active example_kept) \<union> fingerprints example_alert_env example_kept (example_samples False)"
    using example_kept(2) by (simp_all add: example_fingerprints)
  have "\<exists>a. active example_resolved 7 = Some a" by (rule resolved_entry [OF example_kept(1) a _ order e no]) auto
  then have order': "set [7] = dom (active example_resolved)" using s(2) example_kept(2) by auto
  obtain out r'' where o: "sendAlerts 130 60 15 [7] example_resolved = (out, r'')" by (cases "sendAlerts 130 60 15 [7] example_resolved")
  show ?thesis using resolved_alert_is_sent [OF example_kept(1) a _ order e no order(1) order' o] a(1) o by auto
qed

text \<open>
  C19. A restored alert fires in time. After a restart a pending alert of a rule with a hold duration fires again at the time it would have fired
  without the time during which the server was down, but not before the grace period has passed since the restart unless it was firing already when the server went down.
\<close>

theorem restored_alert_fires_in_time:
  assumes "State a = StatePending" "time_Unix v \<le> time_Unix (tms div 1000)" "time_Unix (tms div 1000) \<le> ts" "ts \<le> t" "t - time_Unix v < 2 ^ 62"
    "0 \<le> grace" "grace < 2 ^ 62" "0 \<le> holdDuration r" "holdDuration r < 2 ^ 62"
  shows "State (eval_transitions r t (restore_alert ts (holdDuration r) grace tms v a)) = StateFiring \<longleftrightarrow>
    (let remaining = holdDuration r - (time_Unix (tms div 1000) - time_Unix v) in ts + (if remaining \<le> 0 then 0 else max grace remaining) \<le> t)"
proof -
  define down up where "down = time_Unix (tms div 1000)" and "up = time_Unix v"
  have "ActiveAt (restore_alert ts (holdDuration r) grace tms v a) =
      (if holdDuration r \<le> down - up then up else if holdDuration r - (down - up) < grace then ts + grace - holdDuration r else up + (ts - down))"
    using assms unfolding restore_alert_def Let_def down_def [symmetric] up_def [symmetric] by (simp add: Sub_def)
  moreover have "State (restore_alert ts (holdDuration r) grace tms v a) = StatePending" using assms(1) by (simp add: restore_alert_def Let_def)
  ultimately show ?thesis using assms unfolding eval_transitions_def Let_def down_def [symmetric] up_def [symmetric] by (auto simp: Sub_def)
qed

theorem restored_alert_fires_in_time_witness:
  "State (eval_transitions (NewAlertingRule [65] (300 * 10 ^ 9) 0 [] [] True) (time_Unix 1700000900)
     (restore_alert (time_Unix 1700000700) (300 * 10 ^ 9) (60 * 10 ^ 9) 1700000100000 1700000000 (new_alert example_alert_env example_alerting 0 \<lparr>Metric = [], T = 0, F = 0\<rparr>))) = StateFiring"
  using restored_alert_fires_in_time [of "new_alert example_alert_env example_alerting 0 \<lparr>Metric = [], T = 0, F = 0\<rparr>" 1700000000 1700000100000 "time_Unix 1700000700" "time_Unix 1700000900" "60 * 10 ^ 9"
      "NewAlertingRule [65] (300 * 10 ^ 9) 0 [] [] True"]
  by (simp add: time_Unix_def NewAlertingRule_def new_alert_def)

end
