(* ===== verification/VectorMatching.thy ===== *)
theory VectorMatching
  imports LabelsProps
begin

text \<open>
  Matching of vectors in PromQL (\<open>promql/engine.go\<close>): signatures of series, the set operators, and binary operators with one-to-one,
  many-to-one and one-to-many matching.

  A metric is the packed string of its labels. Float arithmetic and comparison, histograms and their arithmetic, and the hash of labels are
  arguments. A panic of the run-time is \<open>None\<close>; an error that ends the query is \<open>Inl\<close>.
\<close>

section \<open>Data\<close>

datatype ItemType = ADD | SUB | MUL | DIV | POW | MOD | EQLC | NEQ | GTR | LSS | GTE | LTE | ATAN2 | TRIM_LOWER | TRIM_UPPER | LAND | LOR | LUNLESS

datatype VectorMatchCardinality = CardOneToOne | CardManyToOne | CardOneToMany | CardManyToMany

record VectorMatching =
  Card :: VectorMatchCardinality
  MatchingLabels :: "byte list list"
  On :: bool
  Include :: "byte list list"
  Fill_LHS :: "float64 option"
  Fill_RHS :: "float64 option"

record ('m, 'h) VSample =
  vs_Metric :: 'm
  vs_T :: int64
  vs_F :: float64
  vs_H :: "'h option"
  vs_DropName :: bool

record 'h value_ops =
  f_add :: "float64 \<Rightarrow> float64 \<Rightarrow> float64"
  f_sub :: "float64 \<Rightarrow> float64 \<Rightarrow> float64"
  f_mul :: "float64 \<Rightarrow> float64 \<Rightarrow> float64"
  f_div :: "float64 \<Rightarrow> float64 \<Rightarrow> float64"
  math_Pow :: "float64 \<Rightarrow> float64 \<Rightarrow> float64"
  math_Mod :: "float64 \<Rightarrow> float64 \<Rightarrow> float64"
  math_Atan2 :: "float64 \<Rightarrow> float64 \<Rightarrow> float64"
  f_eq :: "float64 \<Rightarrow> float64 \<Rightarrow> bool"
  f_lt :: "float64 \<Rightarrow> float64 \<Rightarrow> bool"
  f_le :: "float64 \<Rightarrow> float64 \<Rightarrow> bool"
  h_Mul :: "'h \<Rightarrow> float64 \<Rightarrow> 'h"
  h_Div :: "'h \<Rightarrow> float64 \<Rightarrow> 'h"
  h_Compact :: "'h \<Rightarrow> 'h"
  h_TrimBuckets :: "'h \<Rightarrow> float64 \<Rightarrow> bool \<Rightarrow> 'h"
  h_Add :: "'h \<Rightarrow> 'h \<Rightarrow> go_error + 'h \<times> bool \<times> bool"
  h_Sub :: "'h \<Rightarrow> 'h \<Rightarrow> go_error + 'h \<times> bool \<times> bool"
  h_Gauge :: "'h \<Rightarrow> 'h"
  h_Equals :: "'h \<Rightarrow> 'h \<Rightarrow> bool"

section \<open>Operations on two elements\<close>

definition btos :: "bool \<Rightarrow> float64" where
  "btos b = (if b then 0x3FF0000000000000 else 0)"

definition changesMetricSchema :: "ItemType \<Rightarrow> bool" where
  "changesMetricSchema opr \<longleftrightarrow> opr \<in> {ADD, SUB, DIV, MUL, POW, MOD, ATAN2}"

definition scalarBinop :: "'h value_ops \<Rightarrow> ItemType \<Rightarrow> float64 \<Rightarrow> float64 \<Rightarrow> float64 option" where
  "scalarBinop V opr l r = (case opr of
     ADD \<Rightarrow> Some (f_add V l r) | SUB \<Rightarrow> Some (f_sub V l r) | MUL \<Rightarrow> Some (f_mul V l r) | DIV \<Rightarrow> Some (f_div V l r)
   | POW \<Rightarrow> Some (math_Pow V l r) | MOD \<Rightarrow> Some (math_Mod V l r)
   | EQLC \<Rightarrow> Some (btos (f_eq V l r)) | NEQ \<Rightarrow> Some (btos (\<not> f_eq V l r)) | GTR \<Rightarrow> Some (btos (f_lt V r l)) | LSS \<Rightarrow> Some (btos (f_lt V l r))
   | GTE \<Rightarrow> Some (btos (f_le V r l)) | LTE \<Rightarrow> Some (btos (f_le V l r)) | ATAN2 \<Rightarrow> Some (math_Atan2 V l r) | _ \<Rightarrow> None)"

definition incompatible :: "(float64 \<times> 'h option \<times> bool \<times> go_error option \<times> go_error option) option" where
  "incompatible = Some (0, None, False, None, Some (ErrInvalid ''incompatible sample types encountered for binary operator''))"

text \<open>The result as a float and a histogram, whether it is kept, and an annotation or an error. Warnings about a result that is there are errors too.\<close>

definition with_annotations :: "(go_error + 'h \<times> bool \<times> bool) \<Rightarrow> ('h \<Rightarrow> 'h) \<Rightarrow> (float64 \<times> 'h option \<times> bool \<times> go_error option \<times> go_error option) option" where
  "with_annotations r finish = (case r of
     Inl err \<Rightarrow> Some (0, None, False, None, Some err)
   | Inr (res, counterResetCollision, nhcbBoundsReconciled) \<Rightarrow>
       Some (0, Some (finish res), True,
         if nhcbBoundsReconciled then Some (ErrInvalid ''mismatched custom buckets were reconciled'') else None,
         if counterResetCollision then Some (ErrInvalid ''conflicting counter resets'') else None))"

definition vectorElemBinop :: "'h value_ops \<Rightarrow> ItemType \<Rightarrow> float64 \<Rightarrow> float64 \<Rightarrow> 'h option \<Rightarrow> 'h option \<Rightarrow>
    (float64 \<times> 'h option \<times> bool \<times> go_error option \<times> go_error option) option" where
  "vectorElemBinop V opr l r hl hr =
     (if opr \<in> {LAND, LOR, LUNLESS} then None
      else case (hl, hr) of
        (None, None) \<Rightarrow> (case opr of
            EQLC \<Rightarrow> Some (l, None, f_eq V l r, None, None) | NEQ \<Rightarrow> Some (l, None, \<not> f_eq V l r, None, None)
          | GTR \<Rightarrow> Some (l, None, f_lt V r l, None, None) | LSS \<Rightarrow> Some (l, None, f_lt V l r, None, None)
          | GTE \<Rightarrow> Some (l, None, f_le V r l, None, None) | LTE \<Rightarrow> Some (l, None, f_le V l r, None, None)
          | ADD \<Rightarrow> Some (f_add V l r, None, True, None, None) | SUB \<Rightarrow> Some (f_sub V l r, None, True, None, None)
          | MUL \<Rightarrow> Some (f_mul V l r, None, True, None, None) | DIV \<Rightarrow> Some (f_div V l r, None, True, None, None)
          | POW \<Rightarrow> Some (math_Pow V l r, None, True, None, None) | MOD \<Rightarrow> Some (math_Mod V l r, None, True, None, None)
          | ATAN2 \<Rightarrow> Some (math_Atan2 V l r, None, True, None, None)
          | _ \<Rightarrow> incompatible)
      | (None, Some h2) \<Rightarrow> (case opr of MUL \<Rightarrow> Some (0, Some (h_Compact V (h_Mul V h2 l)), True, None, None) | _ \<Rightarrow> incompatible)
      | (Some h1, None) \<Rightarrow> (case opr of
            MUL \<Rightarrow> Some (0, Some (h_Compact V (h_Mul V h1 r)), True, None, None)
          | DIV \<Rightarrow> Some (0, Some (h_Compact V (h_Div V h1 r)), True, None, None)
          | TRIM_UPPER \<Rightarrow> Some (0, Some (h_TrimBuckets V h1 r True), True, None, None)
          | TRIM_LOWER \<Rightarrow> Some (0, Some (h_TrimBuckets V h1 r False), True, None, None)
          | _ \<Rightarrow> incompatible)
      | (Some h1, Some h2) \<Rightarrow> (case opr of
            ADD \<Rightarrow> with_annotations (h_Add V h1 h2) (h_Compact V)
          | SUB \<Rightarrow> with_annotations (h_Sub V h1 h2) (\<lambda>h. h_Compact V (h_Gauge V h))
          | EQLC \<Rightarrow> Some (0, Some h1, h_Equals V h1 h2, None, None)
          | NEQ \<Rightarrow> Some (0, Some h1, \<not> h_Equals V h1 h2, None, None)
          | _ \<Rightarrow> incompatible))"

section \<open>Signatures\<close>

text \<open>The signature of a series, and the numbers that \<open>rangeEval\<close> gives to signatures, for the series of both sides.\<close>

definition sigf :: "VectorMatching \<Rightarrow> byte list \<Rightarrow> byte list option" where
  "sigf m lset =
     (if On m then BytesWithLabels lset (sort (MatchingLabels m))
      else BytesWithoutLabels lset (sort (MetricName # MatchingLabels m)))"

fun assign_ordinals :: "VectorMatching \<Rightarrow> byte list list \<Rightarrow> (byte list \<rightharpoonup> nat) \<Rightarrow> nat \<Rightarrow> (nat list \<times> (byte list \<rightharpoonup> nat) \<times> nat) option" where
  "assign_ordinals m [] signatureToOrdinal numSigs = Some ([], signatureToOrdinal, numSigs)"
| "assign_ordinals m (metric # metrics) signatureToOrdinal numSigs =
     Option.bind (sigf m metric) (\<lambda>strSig.
       case signatureToOrdinal strSig of
         Some sigOrd \<Rightarrow> map_option (\<lambda>(ords, rest). (sigOrd # ords, rest)) (assign_ordinals m metrics signatureToOrdinal numSigs)
       | None \<Rightarrow> map_option (\<lambda>(ords, rest). (numSigs # ords, rest)) (assign_ordinals m metrics (signatureToOrdinal(strSig \<mapsto> numSigs)) (numSigs + 1)))"

definition seriesHelpers :: "VectorMatching \<Rightarrow> byte list list \<Rightarrow> byte list list \<Rightarrow> (nat list \<times> nat list \<times> nat) option" where
  "seriesHelpers m lhs rhs =
     Option.bind (assign_ordinals m lhs Map.empty 0) (\<lambda>(lhsh, sigs, n).
       map_option (\<lambda>(rhsh, _, n). (lhsh, rhsh, n)) (assign_ordinals m rhs sigs n))"

text \<open>The samples of one step, with the helpers of their series. Without signatures there are no helpers.\<close>

record ('m, 'h) Series =
  se_Metric :: 'm
  Floats :: "(int64 \<times> float64) list"
  Histograms :: "(int64 \<times> 'h) list"
  se_DropName :: bool

definition ErrTooManySamples :: go_error where
  "ErrTooManySamples = ErrInvalid ''query processing would load too many samples into memory in query execution''"

definition next_point :: "int64 \<Rightarrow> ('m, 'h) Series \<Rightarrow> (('m, 'h) VSample \<times> ('m, 'h) Series) option" where
  "next_point ts series =
     (if Floats series \<noteq> [] \<and> fst (hd (Floats series)) = ts
      then Some (\<lparr>vs_Metric = se_Metric series, vs_T = ts, vs_F = snd (hd (Floats series)), vs_H = None, vs_DropName = se_DropName series\<rparr>, series\<lparr>Floats := tl (Floats series)\<rparr>)
      else if Histograms series \<noteq> [] \<and> fst (hd (Histograms series)) = ts
      then Some (\<lparr>vs_Metric = se_Metric series, vs_T = ts, vs_F = 0, vs_H = Some (snd (hd (Histograms series))), vs_DropName = se_DropName series\<rparr>, series\<lparr>Histograms := tl (Histograms series)\<rparr>)
      else None)"

fun gather_loop :: "int64 \<Rightarrow> int \<Rightarrow> bool \<Rightarrow> ('m, 'h) Series list \<Rightarrow> nat list \<Rightarrow> int \<Rightarrow>
    (go_error + ('m, 'h) VSample list \<times> nat list \<times> ('m, 'h) Series list \<times> int) option" where
  "gather_loop ts maxSamples useHelpers [] hs currentSamples = Some (Inr ([], [], [], currentSamples))"
| "gather_loop ts maxSamples useHelpers (series # input) hs currentSamples =
     (case next_point ts series of
        None \<Rightarrow> map_option (map_sum id (\<lambda>(output, bufHelpers, rest, n). (output, bufHelpers, series # rest, n)))
                 (gather_loop ts maxSamples useHelpers input (tl hs) currentSamples)
      | Some (s, series') \<Rightarrow>
          if useHelpers \<and> hs = [] then None
          else if maxSamples < currentSamples + 1 then Some (Inl ErrTooManySamples)
          else map_option (map_sum id (\<lambda>(output, bufHelpers, rest, n). (s # output, (if useHelpers then hd hs # bufHelpers else bufHelpers), series' # rest, n)))
                 (gather_loop ts maxSamples useHelpers input (tl hs) (currentSamples + 1)))"

definition gatherVector :: "int64 \<Rightarrow> int \<Rightarrow> ('m, 'h) Series list \<Rightarrow> nat list \<Rightarrow> int \<Rightarrow>
    (go_error + ('m, 'h) VSample list \<times> nat list \<times> ('m, 'h) Series list \<times> int) option" where
  "gatherVector ts maxSamples input helpers currentSamples = gather_loop ts maxSamples (0 < length helpers) input helpers currentSamples"

section \<open>Set operators\<close>

fun mark_present :: "nat list \<Rightarrow> bool list \<Rightarrow> bool list option" where
  "mark_present [] present = Some present"
| "mark_present (sigOrd # hs) present = (if sigOrd < length present then mark_present hs (present[sigOrd := True]) else None)"

fun select_present :: "bool \<Rightarrow> bool list \<Rightarrow> 's list \<Rightarrow> nat list \<Rightarrow> 's list option" where
  "select_present want present [] hs = Some []"
| "select_present want present (s # ss) [] = None"
| "select_present want present (s # ss) (sigOrd # hs) =
     (if sigOrd < length present
      then map_option (\<lambda>out. if (present ! sigOrd) = want then s # out else out) (select_present want present ss hs)
      else None)"

definition VectorAnd :: "VectorMatching \<Rightarrow> nat \<Rightarrow> 's list \<Rightarrow> 's list \<Rightarrow> nat list \<Rightarrow> nat list \<Rightarrow> 's list option" where
  "VectorAnd m numSigs lhs rhs lhsh rhsh =
     (if Card m \<noteq> CardManyToMany then None
      else if length lhs = 0 \<or> length rhs = 0 then Some []
      else Option.bind (mark_present rhsh (replicate numSigs False)) (\<lambda>present. select_present True present lhs lhsh))"

definition VectorOr :: "VectorMatching \<Rightarrow> nat \<Rightarrow> 's list \<Rightarrow> 's list \<Rightarrow> nat list \<Rightarrow> nat list \<Rightarrow> 's list option" where
  "VectorOr m numSigs lhs rhs lhsh rhsh =
     (if Card m \<noteq> CardManyToMany then None
      else if length lhs = 0 then Some rhs
      else if length rhs = 0 then Some lhs
      else if length lhsh < length lhs then None
      else Option.bind (mark_present (take (length lhs) lhsh) (replicate numSigs False)) (\<lambda>present.
             map_option (\<lambda>out. lhs @ out) (select_present False present rhs rhsh)))"

definition VectorUnless :: "VectorMatching \<Rightarrow> nat \<Rightarrow> 's list \<Rightarrow> 's list \<Rightarrow> nat list \<Rightarrow> nat list \<Rightarrow> 's list option" where
  "VectorUnless m numSigs lhs rhs lhsh rhsh =
     (if Card m \<noteq> CardManyToMany then None
      else if length lhs = 0 \<or> length rhs = 0 then Some lhs
      else Option.bind (mark_present rhsh (replicate numSigs False)) (\<lambda>present. select_present False present lhs lhsh))"

section \<open>Binary operators\<close>

definition MetricTypeLabel :: "byte list" where "MetricTypeLabel = [95, 95, 116, 121, 112, 101, 95, 95]"
definition MetricUnitLabel :: "byte list" where "MetricUnitLabel = [95, 95, 117, 110, 105, 116, 95, 95]"

text \<open>\<open>SetToLabels\<close> of the empty metadata, whose type is not the unknown one.\<close>

definition SetToLabels :: "'l Builder \<Rightarrow> 'l Builder" where
  "SetToLabels b = Set MetricUnitLabel [] (Set MetricTypeLabel [] (Set MetricName [] b))"

fun include_loop :: "byte list \<Rightarrow> byte list list \<Rightarrow> byte list Builder \<Rightarrow> byte list Builder option" where
  "include_loop rhs [] lb = Some lb"
| "include_loop rhs (ln # lns) lb =
     Option.bind (Labels_Get rhs ln) (\<lambda>v. include_loop rhs lns (if v \<noteq> [] then Set ln v lb else Del [ln] lb))"

text \<open>The labels of a result, with the cache from both metrics to it, which stays from one step of a query to the next.\<close>

definition resultMetric :: "ItemType \<Rightarrow> VectorMatching \<Rightarrow> bool \<Rightarrow> byte list \<Rightarrow> byte list \<Rightarrow> (byte list \<rightharpoonup> byte list) \<Rightarrow> (byte list \<times> (byte list \<rightharpoonup> byte list)) option" where
  "resultMetric opr m dropMetricName lhs rhs cache =
     (case cache (lhs @ rhs) of
        Some ret \<Rightarrow> Some (ret, cache)
      | None \<Rightarrow>
          Option.bind (Labels_Range lhs) (\<lambda>rng.
          let lb = Reset lhs rng;
              lb = (if dropMetricName \<or> changesMetricSchema opr then SetToLabels lb else lb);
              lb = (if Card m = CardOneToOne then if On m then Builder_Keep rng (MatchingLabels m) lb else Del (MatchingLabels m) lb else lb)
          in Option.bind (include_loop rhs (Include m) lb) (\<lambda>lb. map_option (\<lambda>ret. (ret, cache(lhs @ rhs \<mapsto> ret))) (Builder_Labels lb))))"

record 'h BinopState =
  Out :: "(byte list, 'h) VSample list"
  matchedSigsPresent :: "bool list"
  matchedSigs :: "uint64 set list"
  lastErr :: "go_error option"
  resultMetrics :: "byte list \<rightharpoonup> byte list"

definition mark_match :: "(byte list \<Rightarrow> uint64) \<Rightarrow> VectorMatching \<Rightarrow> byte list \<Rightarrow> nat \<Rightarrow> 'h BinopState \<Rightarrow> (go_error + 'h BinopState) option" where
  "mark_match hash m metric sigOrd st =
     (if Card m = CardOneToOne
      then if sigOrd < length (matchedSigsPresent st)
        then Some (if matchedSigsPresent st ! sigOrd then Inl (ErrInvalid ''multiple matches for labels: many-to-one matching must be explicit'')
                   else Inr (st\<lparr>matchedSigsPresent := (matchedSigsPresent st)[sigOrd := True]\<rparr>))
        else None
      else if sigOrd < length (matchedSigs st)
        then Some (if hash metric \<in> matchedSigs st ! sigOrd then Inl (ErrInvalid ''multiple matches for labels: grouping labels must ensure unique matches'')
                   else Inr (st\<lparr>matchedSigs := (matchedSigs st)[sigOrd := insert (hash metric) (matchedSigs st ! sigOrd)]\<rparr>))
        else None)"

record 'h binop_env =
  bo_values :: "'h value_ops"
  bo_Hash :: "byte list \<Rightarrow> uint64"
  enableDelayedNameRemoval :: bool

definition doBinOp :: "'h binop_env \<Rightarrow> ItemType \<Rightarrow> VectorMatching \<Rightarrow> bool \<Rightarrow> (byte list, 'h) VSample \<Rightarrow> (byte list, 'h) VSample \<Rightarrow> nat \<Rightarrow>
    'h BinopState \<Rightarrow> (go_error + 'h BinopState) option" where
  "doBinOp E opr m returnBool ls rs sigOrd st =
     (let swap = (Card m = CardOneToMany);
          l = (if swap then rs else ls);
          r = (if swap then ls else rs)
      in Option.bind (vectorElemBinop (bo_values E) opr (vs_F l) (vs_F r) (vs_H l) (vs_H r)) (\<lambda>(floatValue, histogramValue, keep, info, err).
      case err of
        Some e \<Rightarrow> Some (Inr (st\<lparr>lastErr := Some e\<rparr>))
      | None \<Rightarrow>
          let st = (if info \<noteq> None then st\<lparr>lastErr := info\<rparr> else st);
              histogramValue = (if returnBool then None else histogramValue);
              floatValue = (if returnBool then btos keep else floatValue);
              dropMetricName = (\<not> enableDelayedNameRemoval E \<and> returnBool)
          in Option.bind (resultMetric opr m dropMetricName (vs_Metric ls) (vs_Metric rs) (resultMetrics st)) (\<lambda>(metric, cache).
             map_option (\<lambda>res. case res of
                 Inl e \<Rightarrow> Inl e
               | Inr st \<Rightarrow> Inr (if \<not> keep \<and> \<not> returnBool then st
                   else st\<lparr>Out := Out st @ [\<lparr>vs_Metric = metric, vs_T = 0, vs_F = floatValue, vs_H = histogramValue, vs_DropName = returnBool\<rparr>]\<rparr>))
               (mark_match (bo_Hash E) m metric sigOrd (st\<lparr>resultMetrics := cache\<rparr>)))))"

fun right_loop :: "('m, 'h) VSample list \<Rightarrow> nat list \<Rightarrow> ('m, 'h) VSample list \<Rightarrow> bool list \<Rightarrow> (go_error + ('m, 'h) VSample list \<times> bool list) option" where
  "right_loop [] hs rightSigs rightSigsPresent = Some (Inr (rightSigs, rightSigsPresent))"
| "right_loop (rs # rhs) [] rightSigs rightSigsPresent = None"
| "right_loop (rs # rhs) (sigOrd # hs) rightSigs rightSigsPresent =
     (if sigOrd < length rightSigsPresent
      then if rightSigsPresent ! sigOrd then Some (Inl (ErrInvalid ''found duplicate series for the match group''))
        else right_loop rhs hs (rightSigs[sigOrd := rs]) (rightSigsPresent[sigOrd := True])
      else None)"

definition fill_sample :: "VectorMatching \<Rightarrow> (byte list, 'h) VSample \<Rightarrow> float64 \<Rightarrow> (byte list, 'h) VSample option" where
  "fill_sample m s v =
     map_option (\<lambda>metric. \<lparr>vs_Metric = metric, vs_T = 0, vs_F = v, vs_H = None, vs_DropName = False\<rparr>) (MatchLabels (On m) (MatchingLabels m) (vs_Metric s))"

fun left_loop :: "'h binop_env \<Rightarrow> ItemType \<Rightarrow> VectorMatching \<Rightarrow> bool \<Rightarrow> (byte list, 'h) VSample list \<Rightarrow> bool list \<Rightarrow> (byte list, 'h) VSample list \<Rightarrow> nat list \<Rightarrow>
    'h BinopState \<Rightarrow> (go_error + 'h BinopState) option" where
  "left_loop E opr m rb rightSigs rightSigsPresent [] hs st = Some (Inr st)"
| "left_loop E opr m rb rightSigs rightSigsPresent (ls # lhs) [] st = None"
| "left_loop E opr m rb rightSigs rightSigsPresent (ls # lhs) (sigOrd # hs) st =
     (if sigOrd < length rightSigsPresent
      then if \<not> rightSigsPresent ! sigOrd \<and> Fill_RHS m = None then left_loop E opr m rb rightSigs rightSigsPresent lhs hs st
        else Option.bind (if rightSigsPresent ! sigOrd then Some (rightSigs ! sigOrd) else fill_sample m ls (the (Fill_RHS m))) (\<lambda>rs.
             Option.bind (doBinOp E opr m rb ls rs sigOrd st) (\<lambda>res. case res of
                 Inl e \<Rightarrow> Some (Inl e)
               | Inr st \<Rightarrow> left_loop E opr m rb rightSigs rightSigsPresent lhs hs st))
      else None)"

fun fill_loop :: "'h binop_env \<Rightarrow> ItemType \<Rightarrow> VectorMatching \<Rightarrow> bool \<Rightarrow> float64 \<Rightarrow> (byte list, 'h) VSample list \<Rightarrow> nat list \<Rightarrow>
    'h BinopState \<Rightarrow> (go_error + 'h BinopState) option" where
  "fill_loop E opr m rb fv [] hs st = Some (Inr st)"
| "fill_loop E opr m rb fv (rs # rhs) [] st = None"
| "fill_loop E opr m rb fv (rs # rhs) (sigOrd # hs) st =
     (if (if Card m = CardOneToOne then sigOrd < length (matchedSigsPresent st) else sigOrd < length (matchedSigs st))
      then if (if Card m = CardOneToOne then matchedSigsPresent st ! sigOrd else matchedSigs st ! sigOrd \<noteq> {}) then fill_loop E opr m rb fv rhs hs st
        else Option.bind (fill_sample m rs fv) (\<lambda>ls.
             Option.bind (doBinOp E opr m rb ls rs sigOrd st) (\<lambda>res. case res of
                 Inl e \<Rightarrow> Some (Inl e)
               | Inr st \<Rightarrow> fill_loop E opr m rb fv rhs hs st))
      else None)"

text \<open>
  The whole operation with the cache of result labels, which it returns with the vector and the last error. Positions of signatures that no
  sample has hold an empty sample.
\<close>

definition VectorBinop :: "'h binop_env \<Rightarrow> ItemType \<Rightarrow> VectorMatching \<Rightarrow> bool \<Rightarrow> nat \<Rightarrow> (byte list, 'h) VSample list \<Rightarrow> (byte list, 'h) VSample list \<Rightarrow>
    nat list \<Rightarrow> nat list \<Rightarrow> (byte list \<rightharpoonup> byte list) \<Rightarrow> (go_error + (byte list, 'h) VSample list \<times> go_error option \<times> (byte list \<rightharpoonup> byte list)) option" where
  "VectorBinop E opr m returnBool numSigs lhs rhs lhsh rhsh cache =
     (if Card m = CardManyToMany then None
      else if (length lhs = 0 \<and> length rhs = 0) \<or> ((length lhs = 0 \<or> length rhs = 0) \<and> Fill_RHS m = None \<and> Fill_LHS m = None)
      then Some (Inr ([], None, cache))
      else
        let (lhs, rhs, lhsh, rhsh) = (if Card m = CardOneToMany then (rhs, lhs, rhsh, lhsh) else (lhs, rhs, lhsh, rhsh)) in
        Option.bind (right_loop rhs rhsh (replicate numSigs \<lparr>vs_Metric = [], vs_T = 0, vs_F = 0, vs_H = None, vs_DropName = False\<rparr>) (replicate numSigs False)) (\<lambda>res.
        case res of
          Inl e \<Rightarrow> Some (Inl e)
        | Inr (rightSigs, rightSigsPresent) \<Rightarrow>
            Option.bind (left_loop E opr m returnBool rightSigs rightSigsPresent lhs lhsh
                \<lparr>Out = [], matchedSigsPresent = replicate numSigs False, matchedSigs = replicate numSigs {}, lastErr = None, resultMetrics = cache\<rparr>) (\<lambda>res.
            Option.bind (case res of
                Inl e \<Rightarrow> Some (Inl e)
              | Inr st \<Rightarrow> (case Fill_LHS m of None \<Rightarrow> Some (Inr st) | Some fv \<Rightarrow> fill_loop E opr m returnBool fv rhs rhsh st)) (\<lambda>res.
            Some (case res of Inl e \<Rightarrow> Inl e | Inr st \<Rightarrow> Inr (Out st, lastErr st, resultMetrics st))))))"

text \<open>
  One step of a binary expression between vectors, for the matrixes of both sides: the helpers of the series, the samples of the step, and the operator.
  The number of samples in memory goes through both sides. The result comes with the last error of an element, which the caller turns into an annotation;
  the collection of the results of all steps into series is left out.
\<close>

definition binary_step :: "'h binop_env \<Rightarrow> ItemType \<Rightarrow> VectorMatching \<Rightarrow> bool \<Rightarrow> int64 \<Rightarrow> int \<Rightarrow> (byte list, 'h) Series list \<Rightarrow> (byte list, 'h) Series list \<Rightarrow> int \<Rightarrow>
    (byte list \<rightharpoonup> byte list) \<Rightarrow> (go_error + (byte list, 'h) VSample list \<times> go_error option \<times> (byte list \<rightharpoonup> byte list)) option" where
  "binary_step E opr m returnBool ts maxSamples L R currentSamples cache =
     Option.bind (seriesHelpers m (map se_Metric L) (map se_Metric R)) (\<lambda>(lh, rh, numSigs).
     Option.bind (gatherVector ts maxSamples L lh currentSamples) (\<lambda>res. case res of
       Inl e \<Rightarrow> Some (Inl e)
     | Inr (lhs, lhsh, _, currentSamples) \<Rightarrow>
         Option.bind (gatherVector ts maxSamples R rh currentSamples) (\<lambda>res. case res of
           Inl e \<Rightarrow> Some (Inl e)
         | Inr (rhs, rhsh, _, _) \<Rightarrow>
             (case opr of
                LAND \<Rightarrow> map_option (\<lambda>out. Inr (out, None, cache)) (VectorAnd m numSigs lhs rhs lhsh rhsh)
              | LOR \<Rightarrow> map_option (\<lambda>out. Inr (out, None, cache)) (VectorOr m numSigs lhs rhs lhsh rhsh)
              | LUNLESS \<Rightarrow> map_option (\<lambda>out. Inr (out, None, cache)) (VectorUnless m numSigs lhs rhs lhsh rhsh)
              | _ \<Rightarrow> VectorBinop E opr m returnBool numSigs lhs rhs lhsh rhsh cache))))"

end
