(* ===== verification/VectorMatchingProps.thy ===== *)
theory VectorMatchingProps
  imports VectorMatching
begin

text \<open>
  What holds of vector matching. Two samples match when their metrics agree on the matching labels; the set operators and the binary operators are
  compared with their definitions by nested loops over all pairs of samples.
\<close>

section \<open>Metrics and signatures\<close>

definition metric_ok :: "byte list \<Rightarrow> bool" where
  "metric_ok d \<longleftrightarrow> (\<exists>ls. d = encode ls \<and> labels_ok ls \<and> (\<forall>l \<in> set ls. Value l \<noteq> []))"

definition unpack :: "byte list \<Rightarrow> Labels" where
  "unpack d = (case Labels_Range d of Some ls \<Rightarrow> ls | None \<Rightarrow> [])"

definition label_value :: "byte list \<Rightarrow> byte list \<Rightarrow> byte list" where
  "label_value d n = slice_Get (unpack d) n"

definition matching_label :: "VectorMatching \<Rightarrow> byte list \<Rightarrow> bool" where
  "matching_label m n \<longleftrightarrow> (if On m then n \<in> set (MatchingLabels m) else n \<noteq> MetricName \<and> n \<notin> set (MatchingLabels m))"

definition matches :: "VectorMatching \<Rightarrow> (byte list, 'h) VSample \<Rightarrow> (byte list, 'h) VSample \<Rightarrow> bool" where
  "matches m l r \<longleftrightarrow> (\<forall>n. matching_label m n \<longrightarrow> label_value (vs_Metric l) n = label_value (vs_Metric r) n)"

definition group_of :: "VectorMatching \<Rightarrow> byte list \<Rightarrow> Labels" where
  "group_of m d = filter (\<lambda>l. matching_label m (Name l)) (unpack d)"

lemma unpack_encode: "labels_ok ls \<Longrightarrow> unpack (encode ls) = ls"
  by (simp add: unpack_def string_labels.range_repr)

lemma metric_ok_unpack:
  assumes "metric_ok d"
  shows "labels_ok (unpack d)" "encode (unpack d) = d" "\<forall>l \<in> set (unpack d). Value l \<noteq> []" "Labels_Range d = Some (unpack d)" "Labels_Get d n = Some (label_value d n)"
  using assms by (auto simp: metric_ok_def unpack_encode label_value_def string_labels.range_repr string_labels.get_repr)

lemma metric_okI: "labels_ok ls \<Longrightarrow> \<forall>l \<in> set ls. Value l \<noteq> [] \<Longrightarrow> metric_ok (encode ls)"
  by (auto simp: metric_ok_def)

lemma bytes_group:
  assumes "labels_ok ls" "sorted names"
  shows "BytesWithLabels (encode ls) names = Some (encode (filter (\<lambda>l. Name l \<in> set names) ls))"
    "BytesWithoutLabels (encode ls) names = Some (encode (filter (\<lambda>l. Name l \<notin> set names) ls))"
  using bytes_with_loop [OF rest_start, of ls names "[]"] bytes_without_loop [OF rest_start, of ls names "[]"] assms
  by (simp_all add: BytesWithLabels_def BytesWithoutLabels_def labels_ok_def)

lemma sigf_group: "metric_ok d \<Longrightarrow> sigf m d = Some (encode (group_of m d))"
  using metric_ok_unpack(1) [of d] bytes_group [of "unpack d" "sort (MatchingLabels m)"] bytes_group [of "unpack d" "sort (MetricName # MatchingLabels m)"]
  by (simp add: sigf_def group_of_def matching_label_def metric_ok_unpack(2) del: sort_key_simps)

lemma labels_ok_filter: "labels_ok ls \<Longrightarrow> labels_ok (filter P ls)"
  by (simp add: labels_ok_def sorted_wrt_map sorted_wrt_filter)

lemma group_inj: "metric_ok d \<Longrightarrow> metric_ok d' \<Longrightarrow> encode (group_of m d) = encode (group_of m d') \<longleftrightarrow> group_of m d = group_of m d'"
  using string_labels.repr_inj labels_ok_filter metric_ok_unpack(1) unfolding group_of_def by metis

lemma has_iff_get: "sorted_wrt (<) (map Name ls) \<Longrightarrow> \<forall>l \<in> set ls. Value l \<noteq> [] \<Longrightarrow> slice_Has ls n \<longleftrightarrow> slice_Get ls n \<noteq> []"
  using slice_Get_in slice_Get_out by (fastforce simp: slice_Has_iff)

lemma group_eq:
  assumes "metric_ok d" "metric_ok d'"
  shows "group_of m d = group_of m d' \<longleftrightarrow> (\<forall>n. matching_label m n \<longrightarrow> label_value d n = label_value d' n)"
proof -
  have s: "sorted_wrt (<) (map Name (unpack d))" "sorted_wrt (<) (map Name (unpack d'))" using metric_ok_unpack(1) [OF assms(1)] metric_ok_unpack(1) [OF assms(2)] by (simp_all add: labels_ok_def)
  show ?thesis using agree_on [OF s, of "matching_label m"] has_iff_get [OF s(1) metric_ok_unpack(3) [OF assms(1)]] has_iff_get [OF s(2) metric_ok_unpack(3) [OF assms(2)]]
    by (auto simp: group_of_def label_value_def)
qed

lemma matches_group: "metric_ok (vs_Metric l) \<Longrightarrow> metric_ok (vs_Metric r) \<Longrightarrow> matches m l r \<longleftrightarrow> group_of m (vs_Metric l) = group_of m (vs_Metric r)"
  by (simp add: group_eq matches_def)

text \<open>The numbers of signatures.\<close>

definition numbering :: "(byte list \<rightharpoonup> nat) \<Rightarrow> nat \<Rightarrow> bool" where
  "numbering S n \<longleftrightarrow> inj_on S (dom S) \<and> ran S \<subseteq> {..<n}"

lemma numbering_insert: "numbering S n \<Longrightarrow> S x = None \<Longrightarrow> numbering (S(x \<mapsto> n)) (n + 1)"
  unfolding numbering_def inj_on_def ran_def by (auto simp: less_Suc_eq domIff; metis less_irrefl lessThan_iff mem_Collect_eq subsetD)

lemma assign_ordinals:
  assumes "\<forall>d \<in> set ds. metric_ok d" "numbering S n"
  shows "\<exists>ords S' n'. assign_ordinals m ds S n = Some (ords, S', n') \<and> numbering S' n' \<and> S \<subseteq>\<^sub>m S' \<and> n \<le> n' \<and>
    map Some ords = map (\<lambda>d. S' (encode (group_of m d))) ds"
  using assms
proof (induction ds arbitrary: S n)
  case (Cons d ds)
  have ds: "\<forall>d \<in> set ds. metric_ok d" using Cons.prems(1) by simp
  have sig: "sigf m d = Some (encode (group_of m d))" using Cons.prems(1) by (simp add: sigf_group)
  show ?case
  proof (cases "S (encode (group_of m d))")
    case None
    obtain ords S' n' where r: "assign_ordinals m ds (S(encode (group_of m d) \<mapsto> n)) (n + 1) = Some (ords, S', n')" "numbering S' n'" "S(encode (group_of m d) \<mapsto> n) \<subseteq>\<^sub>m S'" "n + 1 \<le> n'"
      "map Some ords = map (\<lambda>d. S' (encode (group_of m d))) ds" using Cons.IH [OF ds numbering_insert [OF Cons.prems(2) None]] by blast
    have "S' (encode (group_of m d)) = Some n" using r(3) by (auto simp: map_le_def)
    moreover have "S \<subseteq>\<^sub>m S(encode (group_of m d) \<mapsto> n)" using None by (auto simp: map_le_def)
    then have "S \<subseteq>\<^sub>m S'" using r(3) map_le_trans by blast
    ultimately show ?thesis using sig None r by simp
  next
    case (Some k)
    obtain ords S' n' where r: "assign_ordinals m ds S n = Some (ords, S', n')" "numbering S' n'" "S \<subseteq>\<^sub>m S'" "n \<le> n'"
      "map Some ords = map (\<lambda>d. S' (encode (group_of m d))) ds" using Cons.IH [OF ds Cons.prems(2)] by blast
    have "S' (encode (group_of m d)) = Some k" using r(3) Some by (auto simp: map_le_def dom_def)
    then show ?thesis using sig Some r by simp
  qed
qed (simp add: map_le_refl)

lemma map_Some_eq: "map Some xs = map g ys \<Longrightarrow> xs = map (\<lambda>y. the (g y)) ys"
  by (induction xs arbitrary: ys) (auto simp: Cons_eq_map_conv, metis option.sel)

text \<open>What the other code needs to know of the helpers: the number of a metric depends on its group only, and tells groups apart.\<close>

definition ordinal_fun :: "VectorMatching \<Rightarrow> (byte list \<Rightarrow> nat) \<Rightarrow> nat \<Rightarrow> byte list set \<Rightarrow> bool" where
  "ordinal_fun m f n D \<longleftrightarrow> (\<forall>d \<in> D. f d < n) \<and> (\<forall>d \<in> D. \<forall>d' \<in> D. f d = f d' \<longleftrightarrow> group_of m d = group_of m d')"

lemma series_helpers:
  assumes "\<forall>d \<in> set L \<union> set R. metric_ok d"
  obtains f n where "seriesHelpers m L R = Some (map f L, map f R, n)" "ordinal_fun m f n (set L \<union> set R)"
proof -
  have "numbering Map.empty 0" by (simp add: numbering_def)
  then obtain lo S1 n1 where l: "assign_ordinals m L Map.empty 0 = Some (lo, S1, n1)" "numbering S1 n1" "map Some lo = map (\<lambda>d. S1 (encode (group_of m d))) L"
    using assign_ordinals [of L Map.empty 0 m] assms by auto
  obtain ro S n where r: "assign_ordinals m R S1 n1 = Some (ro, S, n)" "numbering S n" "S1 \<subseteq>\<^sub>m S" "map Some ro = map (\<lambda>d. S (encode (group_of m d))) R"
    using assign_ordinals [of R S1 n1 m] l(2) assms by auto
  have in1: "S1 (encode (group_of m d)) \<noteq> None" if h: "d \<in> set L" for d using l(3) h by (metis (no_types, lifting) image_eqI list.set_map option.distinct(1) imageE)
  then have eq: "S1 (encode (group_of m d)) = S (encode (group_of m d))" if h: "d \<in> set L" for d using r(3) h by (metis domIff map_le_def)
  have some: "S (encode (group_of m d)) \<noteq> None" if h: "d \<in> set L \<union> set R" for d
  proof (cases "d \<in> set L")
    case True
    then show ?thesis using in1 eq by simp
  next
    case False
    then show ?thesis using h r(4) by (metis (no_types, lifting) UnE image_eqI list.set_map option.distinct(1) imageE)
  qed
  let ?f = "\<lambda>d. the (S (encode (group_of m d)))"
  have lo: "lo = map ?f L" using map_Some_eq [OF l(3)] eq by simp
  have ro: "ro = map ?f R" by (rule map_Some_eq [OF r(4)])
  have "ordinal_fun m ?f n (set L \<union> set R)"
    unfolding ordinal_fun_def
  proof (intro conjI ballI)
    fix d assume d: "d \<in> set L \<union> set R"
    then show "?f d < n" using some [OF d] r(2) by (auto simp: numbering_def ran_def)
    fix d' assume d': "d' \<in> set L \<union> set R"
    have "?f d = ?f d' \<longleftrightarrow> encode (group_of m d) = encode (group_of m d')"
      using some [OF d] some [OF d'] r(2) unfolding numbering_def inj_on_def by (metis domIff option.expand)
    then show "?f d = ?f d' \<longleftrightarrow> group_of m d = group_of m d'" using group_inj assms d d' by simp
  qed
  then show ?thesis using that [of ?f n] l(1) r(1) lo ro by (simp add: seriesHelpers_def)
qed


lemma next_point_metric: "next_point ts se = Some (s, se') \<Longrightarrow> vs_Metric s = se_Metric se"
  by (auto simp: next_point_def split: if_split_asm)

lemma map_sum_Inr: "map_sum h g z = Inr y \<longleftrightarrow> (\<exists>w. z = Inr w \<and> y = g w)"
  by (cases z) auto

lemma gather_loop:
  assumes "gather_loop ts mx True L (map (\<lambda>se. f (se_Metric se)) L) c = Some (Inr (out, bh, rest, c'))"
  shows "bh = map (\<lambda>s. f (vs_Metric s)) out \<and> vs_Metric ` set out \<subseteq> se_Metric ` set L"
  using assms
proof (induction L arbitrary: c out bh rest)
  case (Cons se L)
  show ?case
  proof (cases "next_point ts se")
    case None
    then obtain rest' where g: "gather_loop ts mx True L (map (\<lambda>se. f (se_Metric se)) L) c = Some (Inr (out, bh, rest', c'))"
      using Cons.prems by (auto simp: map_sum_Inr)
    show ?thesis using Cons.IH [OF g] by auto
  next
    case (Some p)
    then obtain s se' where p: "next_point ts se = Some (s, se')" by (cases p) auto
    then obtain out' bh' rest' where g: "gather_loop ts mx True L (map (\<lambda>se. f (se_Metric se)) L) (c + 1) = Some (Inr (out', bh', rest', c'))" "out = s # out'" "bh = f (se_Metric se) # bh'"
      using Cons.prems by (auto simp: map_sum_Inr split: if_split_asm)
    show ?thesis using Cons.IH [OF g(1)] g(2,3) next_point_metric [OF p] by auto
  qed
qed simp

lemma gather_vector:
  assumes "gatherVector ts mx L (map (\<lambda>se. f (se_Metric se)) L) c = Some (Inr (out, bh, rest, c'))"
  shows "bh = map (\<lambda>s. f (vs_Metric s)) out" "vs_Metric ` set out \<subseteq> se_Metric ` set L"
  using assms gather_loop [of ts mx L f c out bh rest c'] unfolding gatherVector_def by (cases "L = []"; simp)+

section \<open>Set operators\<close>

lemma mark_present:
  "\<forall>k \<in> set hs. k < length p \<Longrightarrow> \<exists>p'. mark_present hs p = Some p' \<and> length p' = length p \<and> (\<forall>k < length p. p' ! k \<longleftrightarrow> p ! k \<or> k \<in> set hs)"
proof (induction hs arbitrary: p)
  case (Cons k hs)
  then show ?case using Cons.IH [of "p[k := True]"] by (auto simp: nth_list_update)
qed simp

lemma select_present:
  "\<forall>s \<in> set ss. g s < length p \<Longrightarrow> select_present want p ss (map g ss) = Some (filter (\<lambda>s. (p ! g s) = want) ss)"
  by (induction ss) auto

lemma present_match:
  assumes "ordinal_fun m f n D" "vs_Metric ` set lhs \<subseteq> D" "vs_Metric ` set rhs \<subseteq> D" "\<forall>d \<in> D. metric_ok d"
  shows "\<exists>p. mark_present (map (\<lambda>s. f (vs_Metric s)) rhs) (replicate n False) = Some p \<and>
    select_present want p lhs (map (\<lambda>s. f (vs_Metric s)) lhs) = Some (filter (\<lambda>l. (\<exists>r \<in> set rhs. matches m l r) = want) lhs)"
proof -
  have lt: "\<forall>s \<in> set lhs \<union> set rhs. f (vs_Metric s) < n" using assms(1-3) by (auto simp: ordinal_fun_def)
  obtain p where p: "mark_present (map (\<lambda>s. f (vs_Metric s)) rhs) (replicate n False) = Some p" "length p = n" "\<forall>k < n. p ! k \<longleftrightarrow> k \<in> (\<lambda>s. f (vs_Metric s)) ` set rhs"
    using mark_present [of "map (\<lambda>s. f (vs_Metric s)) rhs" "replicate n False"] lt by auto
  have "p ! f (vs_Metric l) \<longleftrightarrow> (\<exists>r \<in> set rhs. matches m l r)" if l: "l \<in> set lhs" for l
  proof -
    have "f (vs_Metric l) = f (vs_Metric r) \<longleftrightarrow> matches m l r" if r: "r \<in> set rhs" for r
    proof -
      have d: "vs_Metric l \<in> D" "vs_Metric r \<in> D" using assms(2,3) l r by auto
      then show ?thesis using assms(1,4) matches_group [of l r m] by (simp add: ordinal_fun_def)
    qed
    then show ?thesis using p(3) lt l by (auto simp: image_iff)
  qed
  then show ?thesis using p(1,2) lt select_present [of lhs "\<lambda>s. f (vs_Metric s)" p want] by (auto cong: filter_cong)
qed

lemma step_helpers:
  assumes "\<forall>se \<in> set L \<union> set R. metric_ok (se_Metric se)" "seriesHelpers m (map se_Metric L) (map se_Metric R) = Some (lh, rh, n)"
    "gatherVector ts mx L lh c = Some (Inr (lhs, lhsh, L', c'))" "gatherVector ts mx R rh c' = Some (Inr (rhs, rhsh, R', c''))"
  obtains f D where "lhsh = map (\<lambda>s. f (vs_Metric s)) lhs" "rhsh = map (\<lambda>s. f (vs_Metric s)) rhs" "ordinal_fun m f n D" "\<forall>d \<in> D. metric_ok d"
    "vs_Metric ` set lhs \<subseteq> D" "vs_Metric ` set rhs \<subseteq> D"
proof -
  obtain f k where h: "seriesHelpers m (map se_Metric L) (map se_Metric R) = Some (map f (map se_Metric L), map f (map se_Metric R), k)"
    "ordinal_fun m f k (set (map se_Metric L) \<union> set (map se_Metric R))" using series_helpers [of "map se_Metric L" "map se_Metric R" m] assms(1) by auto
  then have lr: "lh = map (\<lambda>se. f (se_Metric se)) L" "rh = map (\<lambda>se. f (se_Metric se)) R" "n = k" using assms(2) by auto
  note g = gather_vector [OF assms(3) [unfolded lr]] gather_vector [OF assms(4) [unfolded lr]]
  show ?thesis by (rule that [OF g(1,3) h(2) [folded lr(3)]]) (use g(2,4) assms(1) in auto)
qed

text \<open>
  Set operators. At every step \<open>and\<close> keeps exactly the samples of the left side that match some sample of the right side, \<open>unless\<close> the others,
  and \<open>or\<close> adds to the left side the samples of the right side that match none of it, all in their order.
\<close>

lemma set_operators_exact:
  assumes "\<forall>se \<in> set L \<union> set R. metric_ok (se_Metric se)" "Card m = CardManyToMany"
    and "seriesHelpers m (map se_Metric L) (map se_Metric R) = Some (lh, rh, n)"
    and "gatherVector ts maxSamples L lh c = Some (Inr (lhs, lhsh, L', c'))" "gatherVector ts maxSamples R rh c' = Some (Inr (rhs, rhsh, R', c''))"
  shows "VectorAnd m n lhs rhs lhsh rhsh = Some (filter (\<lambda>l. \<exists>r \<in> set rhs. matches m l r) lhs) \<and>
    VectorUnless m n lhs rhs lhsh rhsh = Some (filter (\<lambda>l. \<not> (\<exists>r \<in> set rhs. matches m l r)) lhs) \<and>
    VectorOr m n lhs rhs lhsh rhsh = Some (lhs @ filter (\<lambda>r. \<not> (\<exists>l \<in> set lhs. matches m l r)) rhs)"
proof -
  obtain f D where h: "lhsh = map (\<lambda>s. f (vs_Metric s)) lhs" "rhsh = map (\<lambda>s. f (vs_Metric s)) rhs" "ordinal_fun m f n D" "\<forall>d \<in> D. metric_ok d"
    "vs_Metric ` set lhs \<subseteq> D" "vs_Metric ` set rhs \<subseteq> D" by (rule step_helpers [OF assms(1,3,4,5)])
  have sym: "matches m r l \<longleftrightarrow> matches m l r" for l r by (auto simp: matches_def)
  show ?thesis using present_match [OF h(3,5,6,4), of True] present_match [OF h(3,5,6,4), of False] present_match [OF h(3,6,5,4), of False] assms(2)
    unfolding h(1,2) by (auto simp: VectorAnd_def VectorOr_def VectorUnless_def sym filter_empty_conv)
qed


section \<open>Labels of results\<close>

definition result_value :: "ItemType \<Rightarrow> VectorMatching \<Rightarrow> bool \<Rightarrow> byte list \<Rightarrow> byte list \<Rightarrow> byte list \<Rightarrow> byte list" where
  "result_value opr m nameless l r n =
     (if n \<in> set (Include m) then label_value r n
      else if (nameless \<or> changesMetricSchema opr) \<and> n \<in> {MetricName, MetricTypeLabel, MetricUnitLabel} then []
      else if Card m = CardOneToOne \<and> (n \<in> set (MatchingLabels m)) \<noteq> On m then []
      else label_value l n)"

definition labels_from :: "(byte list \<Rightarrow> byte list) \<Rightarrow> byte list list \<Rightarrow> Labels" where
  "labels_from f ns = map (\<lambda>n. \<lparr>Name = n, Value = f n\<rparr>) (filter (\<lambda>n. f n \<noteq> []) (sort (remdups ns)))"

definition result_metric :: "ItemType \<Rightarrow> VectorMatching \<Rightarrow> bool \<Rightarrow> byte list \<Rightarrow> byte list \<Rightarrow> byte list" where
  "result_metric opr m nameless l r = encode (labels_from (result_value opr m nameless l r) (map Name (unpack l) @ Include m))"

lemma labels_from_sorted: "sorted_wrt (<) (map Name (labels_from f ns))" "\<forall>l \<in> set (labels_from f ns). Value l \<noteq> []"
  by (auto simp: labels_from_def comp_def strict_sorted_iff sorted_filter [of "\<lambda>n. n", simplified])

lemma labels_from_Get: "f n \<noteq> [] \<longrightarrow> n \<in> set ns \<Longrightarrow> slice_Get (labels_from f ns) n = f n"
proof (cases "f n = []")
  case True
  then show ?thesis by (subst slice_Get_out) (auto simp: labels_from_def)
next
  case False
  assume "f n \<noteq> [] \<longrightarrow> n \<in> set ns"
  then have "\<lparr>Name = n, Value = f n\<rparr> \<in> set (labels_from f ns)" using False by (auto simp: labels_from_def)
  then show ?thesis using slice_Get_in [OF labels_from_sorted(1)] by force
qed

lemma build_values:
  assumes "labels_ok ls" "builder_inv ls b f" "base b = encode ls" "sorted_wrt (<) (map Name L)" "\<forall>l \<in> set L. Value l \<noteq> []" "\<forall>n. slice_Get L n = f n"
  shows "Builder_Labels b = Some (encode L)" "labels_ok L"
proof -
  let ?c = "\<lparr>base = ls, del = del b, add = add b\<rparr>"
  let ?L = "slice_Builder_Labels ?c"
  have inv: "builder_inv ls ?c f" using assms(2) unfolding builder_inv_def values_inv_def Builder_Get_def by simp
  note r = builder_result [OF assms(1) inv Builder.select_convs(1)]
  have add: "distinct (map Name (add b))" "\<forall>m \<in> set (add b). label_ok m" using assms(2) unfolding builder_inv_def values_inv_def by blast+
  have s: "sorted_wrt (<) (map Name ?L)" using r(1) by (simp add: labels_ok_def)
  have "?L = L" using agree_on [OF s assms(4), of "\<lambda>_. True"] has_iff_get [OF s r(2)] has_iff_get [OF assms(4,5)] r(3) assms(6) by simp
  then show "Builder_Labels b = Some (encode L)" "labels_ok L" using string_labels.build_repr [OF assms(1,3) add] r(1) by simp_all
qed

lemma value_label_ok: "metric_ok d \<Longrightarrow> label_value d n \<noteq> [] \<Longrightarrow> label_ok \<lparr>Name = n, Value = label_value d n\<rparr>"
proof -
  assume d: "metric_ok d" "label_value d n \<noteq> []"
  then obtain l where l: "l \<in> set (unpack d)" "Name l = n" using slice_Get_out [of "unpack d" n] by (auto simp: label_value_def)
  then have "l = \<lparr>Name = n, Value = label_value d n\<rparr>" using slice_Get_in [of "unpack d" l] metric_ok_unpack(1) [OF d(1)] by (cases l) (auto simp: label_value_def labels_ok_def)
  then show ?thesis using l(1) metric_ok_unpack(1) [OF d(1)] by (auto simp: labels_ok_def)
qed

lemma include_loop:
  assumes "metric_ok r" "builder_inv ls b f"
  shows "\<exists>b'. include_loop r lns b = Some b' \<and> base b' = base b \<and> builder_inv ls b' (\<lambda>n. if n \<in> set lns then label_value r n else f n)"
  using assms(2)
proof (induction lns arbitrary: b f)
  case (Cons ln lns)
  let ?b = "if label_value r ln \<noteq> [] then Set ln (label_value r ln) b else Del [ln] b"
  have i: "builder_inv ls ?b (f(ln := label_value r ln))"
    using set_inv [OF Cons.prems value_label_ok [OF assms(1)], of ln] del_inv [OF Cons.prems, of "[ln]"] by (cases "label_value r ln = []") (simp_all add: fun_upd_def)
  have "base ?b = base b" by (simp add: Set_def)
  moreover have "(\<lambda>n. if n \<in> set lns then label_value r n else (f(ln := label_value r ln)) n) = (\<lambda>n. if n \<in> set (ln # lns) then label_value r n else f n)" by auto
  ultimately show ?case using Cons.IH [OF i] metric_ok_unpack(5) [OF assms(1), of ln] by simp
qed simp

lemma set_to_labels:
  assumes "builder_inv ls b f"
  shows "builder_inv ls (SetToLabels b) (\<lambda>n. if n \<in> {MetricName, MetricTypeLabel, MetricUnitLabel} then [] else f n)"
proof -
  have e: "SetToLabels b = Del [MetricUnitLabel] (Del [MetricTypeLabel] (Del [MetricName] b))" by (simp add: SetToLabels_def Set_def)
  show ?thesis using del_inv [OF del_inv [OF del_inv [OF assms]], of "[MetricUnitLabel]" "[MetricTypeLabel]" "[MetricName]"] unfolding e
    by (auto elim!: back_subst [of "builder_inv ls _"])
qed

lemma set_to_labels_base: "base (SetToLabels b) = base b" "add b = [] \<Longrightarrow> add (SetToLabels b) = []"
  by (simp_all add: SetToLabels_def Set_def Del_def)

lemma resultMetric:
  assumes "metric_ok l" "metric_ok r" "cache (l @ r) = None"
  shows "resultMetric opr m nameless l r cache = Some (result_metric opr m nameless l r, cache(l @ r \<mapsto> result_metric opr m nameless l r))"
    "metric_ok (result_metric opr m nameless l r)"
proof -
  let ?ls = "unpack l"
  note ok = metric_ok_unpack [OF assms(1)]
  define b1 where "b1 = (if nameless \<or> changesMetricSchema opr then SetToLabels (Reset l ?ls) else Reset l ?ls)"
  define f1 where "f1 n = (if (nameless \<or> changesMetricSchema opr) \<and> n \<in> {MetricName, MetricTypeLabel, MetricUnitLabel} then [] else label_value l n)" for n
  define b2 where "b2 = (if Card m = CardOneToOne then if On m then Builder_Keep ?ls (MatchingLabels m) b1 else Del (MatchingLabels m) b1 else b1)"
  define f2 where "f2 n = (if Card m = CardOneToOne \<and> (n \<in> set (MatchingLabels m)) \<noteq> On m then [] else f1 n)" for n
  have "builder_inv ?ls (Reset l ?ls) (label_value l)" using reset_inv [OF ok(1)] by (simp add: label_value_def [abs_def])
  then have i1: "builder_inv ?ls b1 f1" "base b1 = l" "add b1 = []" using set_to_labels [of ?ls "Reset l ?ls" "label_value l"]
    by (auto simp: b1_def f1_def [abs_def] set_to_labels_base) (simp_all add: Reset_def set_to_labels_base)
  have e: "(\<lambda>n. if n \<in> set (MatchingLabels m) \<union> Name ` set (add b1) then f1 n else []) = (\<lambda>n. if n \<notin> set (MatchingLabels m) then [] else f1 n)"
    using i1(3) by auto
  have k: "builder_inv ?ls (Builder_Keep ?ls (MatchingLabels m) b1) (\<lambda>n. if n \<notin> set (MatchingLabels m) then [] else f1 n)"
    using keep_inv [OF i1(1), of "MatchingLabels m"] unfolding e .
  have i2: "builder_inv ?ls b2 f2" "base b2 = l"
    using i1 k del_inv [OF i1(1), of "MatchingLabels m"]
    by (auto simp: b2_def f2_def [abs_def] del_base Builder_Keep_def cong: if_cong)
  obtain b3 where b3: "include_loop r (Include m) b2 = Some b3" "base b3 = l" "builder_inv ?ls b3 (\<lambda>n. if n \<in> set (Include m) then label_value r n else f2 n)"
    using include_loop [OF assms(2) i2(1), of "Include m"] i2(2) by auto
  have f: "(\<lambda>n. if n \<in> set (Include m) then label_value r n else f2 n) = result_value opr m nameless l r" by (auto simp: result_value_def f2_def f1_def)
  let ?L = "labels_from (result_value opr m nameless l r) (map Name ?ls @ Include m)"
  have "n \<in> set (map Name ?ls @ Include m)" if "result_value opr m nameless l r n \<noteq> []" for n
    using that slice_Get_out [of ?ls n] by (auto simp: result_value_def label_value_def split: if_split_asm)
  then have "\<forall>n. slice_Get ?L n = result_value opr m nameless l r n" using labels_from_Get by metis
  note bv = build_values [OF ok(1) b3(3) [unfolded f] _ labels_from_sorted this]
  have "base b3 = encode ?ls" using b3(2) ok(2) by simp
  then show "resultMetric opr m nameless l r cache = Some (result_metric opr m nameless l r, cache(l @ r \<mapsto> result_metric opr m nameless l r))"
    "metric_ok (result_metric opr m nameless l r)"
    using bv b3(1) assms(3) ok(4) metric_okI [OF bv(2)] labels_from_sorted
    by (auto simp: resultMetric_def result_metric_def Let_def b2_def b1_def)
qed

text \<open>Two pairs of matching metrics with the same key in the cache are in the same match group.\<close>

lemma encode_append_inj:
  assumes "\<forall>l \<in> set xs \<union> set ys. label_ok l" "encode xs = encode ys"
  shows "xs = ys"
  using range_loop [OF rest_start, of xs] range_loop [OF rest_start, of ys] assms by (metis UnCI option.inject)

lemma cache_key:
  assumes "metric_ok l" "metric_ok r" "metric_ok l'" "metric_ok r'" "group_of m l = group_of m r" "group_of m l' = group_of m r'" "l @ r = l' @ r'"
  shows "group_of m l = group_of m l'"
proof -
  have "encode (unpack l @ unpack r) = encode (unpack l' @ unpack r')" using assms(1-4,7) by (simp add: metric_ok_unpack(2))
  then have e: "unpack l @ unpack r = unpack l' @ unpack r'"
    by (rule encode_append_inj [rotated]) (use metric_ok_unpack(1) assms(1-4) in \<open>auto simp: labels_ok_def\<close>)
  let ?g = "filter (\<lambda>x. matching_label m (Name x))"
  from e have g: "?g (unpack l) @ ?g (unpack r) = ?g (unpack l') @ ?g (unpack r')" by (metis filter_append)
  then have "length (?g (unpack l)) + length (?g (unpack r)) = length (?g (unpack l')) + length (?g (unpack r'))" by (metis length_append)
  then have "length (?g (unpack l)) = length (?g (unpack l'))" using assms(5,6) by (simp add: group_of_def)
  then show ?thesis using g by (simp add: group_of_def)
qed

lemma fill_sample:
  assumes "metric_ok (vs_Metric s)"
  shows "fill_sample m s v = Some \<lparr>vs_Metric = encode (group_of m (vs_Metric s)), vs_T = 0, vs_F = v, vs_H = None, vs_DropName = False\<rparr>"
    "metric_ok (encode (group_of m (vs_Metric s)))" "group_of m (encode (group_of m (vs_Metric s))) = group_of m (vs_Metric s)"
proof -
  let ?d = "vs_Metric s" and ?ns = "MatchingLabels m"
  let ?ls = "unpack ?d"
  note ok = metric_ok_unpack [OF assms]
  have g: "labels_ok (group_of m ?d)" "\<forall>l \<in> set (group_of m ?d). Value l \<noteq> []" using ok(1,3) labels_ok_filter by (auto simp: group_of_def)
  then show "metric_ok (encode (group_of m ?d))" by (rule metric_okI)
  show "group_of m (encode (group_of m ?d)) = group_of m ?d" using unpack_encode [OF g(1)] by (simp add: group_of_def)
  define b where "b = (if On m then Builder_Keep ?ls ?ns (Reset ?d ?ls) else Del ?ns (Del [MetricName] (Reset ?d ?ls)))"
  have r: "builder_inv ?ls (Reset ?d ?ls) (slice_Get ?ls)" by (rule reset_inv [OF ok(1)])
  have "builder_inv ?ls b (\<lambda>n. if matching_label m n then slice_Get ?ls n else [])"
  proof (cases "On m")
    case True
    have "(\<lambda>n. if n \<in> set ?ns then slice_Get ?ls n else []) = (\<lambda>n. if matching_label m n then slice_Get ?ls n else [])" using True by (auto simp: matching_label_def)
    then show ?thesis using keep_inv [OF r, of ?ns] True by (simp add: b_def Reset_def)
  next
    case False
    have "(\<lambda>n. if n \<in> set ?ns then [] else if n \<in> set [MetricName] then [] else slice_Get ?ls n) = (\<lambda>n. if matching_label m n then slice_Get ?ls n else [])"
      using False by (auto simp: matching_label_def)
    then show ?thesis using del_inv [OF del_inv [OF r], of ?ns "[MetricName]"] False by (simp add: b_def)
  qed
  moreover have "base b = encode ?ls" using ok(2) by (simp add: b_def del_base Builder_Keep_def Reset_def)
  moreover have "slice_Get (group_of m ?d) n = (if matching_label m n then slice_Get ?ls n else [])" for n
    using filter_names(1) [of "matching_label m" n ?ls] slice_Get_out [of "group_of m ?d" n] by (auto simp: group_of_def)
  ultimately have "Builder_Labels b = Some (encode (group_of m ?d))" using build_values(1) [OF ok(1)] g by (simp add: labels_ok_def)
  then show "fill_sample m s v = Some \<lparr>vs_Metric = encode (group_of m ?d), vs_T = 0, vs_F = v, vs_H = None, vs_DropName = False\<rparr>"
    using ok(4) by (simp add: fill_sample_def MatchLabels_def b_def Let_def split: if_split_asm)
qed

end
