(* ===== verification/VectorJoin.thy ===== *)
theory VectorJoin
  imports VectorMatchingProps
begin

text \<open>
  Binary operators between vectors. The code joins the sides by tables of signatures and caches the labels of results; at a step with an empty cache it
  does what nested loops over all pairs of samples do.
\<close>

section \<open>Pairs of samples\<close>


text \<open>What a pair of the many and the one side gives: an annotation, and unless there is an error the result and whether it is kept.\<close>

definition pair_result :: "'h binop_env \<Rightarrow> ItemType \<Rightarrow> VectorMatching \<Rightarrow> bool \<Rightarrow> (byte list, 'h) VSample \<Rightarrow> (byte list, 'h) VSample \<Rightarrow>
    go_error option \<times> ((byte list, 'h) VSample \<times> bool) option" where
  "pair_result E opr m rb s t =
     (let l = (if Card m = CardOneToMany then t else s); r = (if Card m = CardOneToMany then s else t) in
      case vectorElemBinop (bo_values E) opr (vs_F l) (vs_F r) (vs_H l) (vs_H r) of
        None \<Rightarrow> (None, None)
      | Some (fv, hv, keep, info, err) \<Rightarrow>
          (case err of
             Some e \<Rightarrow> (Some e, None)
           | None \<Rightarrow> (info, Some (\<lparr>vs_Metric = result_metric opr m (\<not> enableDelayedNameRemoval E \<and> rb) (vs_Metric s) (vs_Metric t), vs_T = 0,
               vs_F = (if rb then btos keep else fv), vs_H = (if rb then None else hv), vs_DropName = rb\<rparr>, keep \<or> rb))))"


definition results :: "'h binop_env \<Rightarrow> ItemType \<Rightarrow> VectorMatching \<Rightarrow> bool \<Rightarrow> ((byte list, 'h) VSample \<times> (byte list, 'h) VSample) list \<Rightarrow>
    ((byte list, 'h) VSample \<times> (byte list, 'h) VSample \<times> bool) list" where
  "results E opr m rb ps = List.map_filter (\<lambda>(l, r). map_option (Pair l) (snd (pair_result E opr m rb l r))) ps"






section \<open>One pair\<close>











section \<open>All pairs\<close>






lemma results_append: "results E opr m rb (ps @ qs) = results E opr m rb ps @ results E opr m rb qs"
  by (simp add: results_def map_filter_def)



















section \<open>The whole operation\<close>







text \<open>
  The key of the cache is the bytes of both metrics one after the other, and does not say where the first ends. Two pairs of metrics with the same key share
  their result labels when they occur in different steps of a query.
\<close>

lemma cached_labels_shared:
  assumes "metric_ok l" "metric_ok r" "l @ r = l' @ r'"
  shows "\<exists>cache. resultMetric opr m nameless l r Map.empty = Some (result_metric opr m nameless l r, cache) \<and>
    resultMetric opr m nameless l' r' cache = Some (result_metric opr m nameless l r, cache)"
  using resultMetric(1) [OF assms(1,2), of Map.empty opr m nameless] assms(3) by (simp add: resultMetric_def [of opr m nameless l' r'])

section \<open>A step of a binary expression\<close>




















end
