(* ===== verification/Spec2Isabelle.thy ===== *)
theory Spec2Isabelle
  imports XorChunkCorrect BitCodecs WalRecordCorrect HeadSeriesCorrect SeriesSelection WlogProps BlocksProps Relabel AlertingProps VectorJoin
begin

text \<open>
  Verification of the core of Prometheus: the storage (\<open>src/upstream/tsdb\<close>), label sets and relabelling
  (\<open>src/upstream/model\<close>), alerting rules (\<open>src/upstream/rules\<close>), and the matching of vectors in queries (\<open>src/upstream/promql\<close>).

  \<^bold>\<open>The program.\<close> Samples arrive at the head block, are appended to per-series chunks
  (\<open>tsdb/chunkenc\<close>) and logged as records (\<open>tsdb/record\<close>), whose fields are written with the buffers of
  \<open>tsdb/encoding\<close>. Deletions are kept as time intervals per series (\<open>tsdb/tombstones\<close>) until a block
  is rewritten. Reads are isolated from appends in flight by \<open>tsdb/isolation.go\<close>. Every series is named by a label set
  (\<open>model/labels\<close>), which relabelling rules (\<open>model/relabel\<close>) change on the way in. Alerting rules (\<open>rules\<close>) evaluate queries
  periodically, keep the state of every alert and decide what is sent to the notifier. A query (\<open>promql\<close>) joins the samples of two vectors by their labels.

  \<^bold>\<open>The theories.\<close>
  \<^item> \<open>Go_Prelude\<close>, \<open>Go_Binary\<close>: machine integers, \<open>math/bits\<close>, \<open>sort.Search\<close>, \<open>encoding/binary\<close> and
    \<open>hash/crc32\<close> of the Go library, as far as the code uses them, and lemmas about them. Floats are
    their IEEE bit patterns: the code modelled here stores, compares and xors patterns, and where it
    adds floats the addition is a parameter.
  \<^item> \<open>Bit_Source\<close>: what it means that a reader decodes a sequence of bits; \<open>Bstream\<close>, \<open>BstreamReader\<close>:
    \<open>chunkenc/bstream.go\<close>; \<open>Varbit\<close>: \<open>chunkenc/varbit.go\<close>; \<open>BitCodecs\<close>: a contract for bit codecs, its
    interpretations and the properties of these files.
  \<^item> \<open>XorChunk\<close>: \<open>chunkenc/xor.go\<close> and the encodings of \<open>chunkenc/chunk.go\<close>; \<open>XorChunkCorrect\<close>: the
    fast paths agree with the general code, an append adds one decodable sample, an iterator returns
    all of them, the size limits hold.
  \<^item> \<open>Encoding\<close>: \<open>tsdb/encoding/encoding.go\<close>, with the third-party varint decoder as a parameter whose
    documented behaviour is the locale \<open>varint_lib\<close>.
  \<^item> \<open>Tombstones\<close>: \<open>tsdb/tombstones/tombstones.go\<close>: interval sets, the store, the file.
  \<^item> \<open>Histogram\<close>: schemas and resolution reduction of \<open>model/histogram\<close>; \<open>WalRecord\<close>:
    \<open>tsdb/record/record.go\<close>; \<open>WalRecordCorrect\<close>: every record type decodes to what was encoded.
  \<^item> \<open>Isolation\<close>: \<open>tsdb/isolation.go\<close> on an explicit store of list nodes; \<open>IsolationCorrect\<close>: the watermark never
    passes an open read and every method returns; \<open>TxRing\<close>: the ring of append ids refines a queue.
  \<^item> \<open>HeadSeries\<close>, \<open>HeadSeriesCorrect\<close>: the chunk lists of a series in the head (\<open>tsdb/head.go\<close>, \<open>head_append.go\<close>,
    \<open>head_read.go\<close>), chunk ids and references, and the iterator that stops at the samples a read may see. A run of a series (\<open>series_run\<close>) is a
    sequence of new head chunks, m-mapping and truncation, with the chunks that it adds.
  \<^item> \<open>Postings\<close>: the iterators of \<open>tsdb/index/postings.go\<close>, with the interface as a record of methods;
    \<open>PostingsCorrect\<close>: the contract of an iterator as the locales \<open>postings\<close>, \<open>resumable_postings\<close> and
    \<open>tame_postings\<close>, and that lists, big-endian lists and intersections keep it; \<open>PostingsNested\<close>: intersections
    and differences inside differences; \<open>PostingsAlgebra\<close>: what clients of the combined iterators see.
  \<^item> \<open>MemPostings\<close>, \<open>MemPostingsCorrect\<close>: the index from labels to series, with additions that run while a
    deletion has released its lock; \<open>SeriesSelection\<close>: series selection from the index and the iterators.
    The property that spans both is in this theory.
  \<^item> \<open>Wlog\<close>: pages, record fragments and segments of the write-ahead log (\<open>tsdb/wlog/wlog.go\<close>), its reader
    (\<open>reader.go\<close>), \<open>Repair\<close>, and \<open>util/compression\<close>, with the compression packages as parameters. A log is read through \<open>segmentBufReader_Read\<close>, which
    fills a short segment with zeros; \<open>bytes_Read\<close>, the reader of Go's library, is what \<open>Repair\<close> reads a segment with; \<open>WlogCorrect\<close>: the format as
    an inductive relation and the reader for any \<open>io.Reader\<close> that keeps the contract of the locale \<open>io_reader\<close>;
    \<open>WlogWriter\<close>: every call appends to the active segment in that format; \<open>WlogProps\<close>: round trip, repair
    after a crash, complete segments, failed flushes.
  \<^item> \<open>Blocks\<close>: metadata of blocks (\<open>tsdb/block.go\<close>), the planner and the merging of metadata (\<open>tsdb/compact.go\<close>),
    the compaction loop, retention and reloading (\<open>tsdb/db.go\<close>). \<open>slices.SortFunc\<close>, the names and ULIDs of new blocks, float
    comparisons and the writing of a block's contents are arguments. \<open>BlocksPlan\<close>: what the planner selects; \<open>BlocksCompact\<close>:
    merged metadata and the progress of the loop; \<open>BlocksProps\<close>: alignment, hints, termination, retention, crash recovery.
  \<^item> \<open>LabelSet\<close>, \<open>Labels\<close>: label sets packed into one string (\<open>labels_stringlabels.go\<close>) and as a slice (\<open>labels_slicelabels.go\<close>), with
    the builders of \<open>labels_common.go\<close>; \<open>LabelsCorrect\<close>: every loop over the packed string; \<open>LabelsProps\<close>: the contract of a label set as the
    locale \<open>labels_impl\<close> with both implementations, the refinement between them, and grouping signatures. The hash function is an argument.
  \<^item> \<open>Relabel\<close>: \<open>relabel.go\<close>, with the parsing of actions, and its refinement to functions on the values of labels. A regular expression is a record of its methods,
    whose documented behaviour is \<open>regex_ok\<close>; letter case and MD5 are arguments.
  \<^item> \<open>Alerting\<close>: \<open>alerting.go\<close> and the restoring of an alert of \<open>group.go\<close>, with times as integers of nanoseconds; \<open>AlertingCorrect\<close>: histories of a label set
    and the states a rule can reach, where a history starts again after an evaluation that exceeds the limit of alerts; \<open>AlertingProps\<close>: when alerts fire, that resolved alerts are sent, when restored alerts fire. The query, templates
    and hashes are arguments, and so is the order in which Go visits a map.
  \<^item> \<open>VectorMatching\<close>: signatures of series, the samples of a step, set operators and binary operators between vectors (\<open>promql/engine.go\<close>). Float and histogram
    arithmetic and the hash of labels are arguments. \<open>VectorMatchingProps\<close>: signatures, set operators and result labels; \<open>VectorJoin\<close>: a step is what nested
    loops over all pairs of samples give.

  \<^bold>\<open>Conventions.\<close> A run-time panic is \<open>None\<close>, an error value is \<open>Inl\<close>. Slices are lists; capacities
  matter only where the code looks at them and are arguments there. Loops are structural or have a
  termination proof; a loop over a linked list is a \<open>partial_function\<close> and is shown to return. There
  is no fuel in the model.

  \<^bold>\<open>Not modelled.\<close> File and network input and output, the wall clock, logging, metrics and the
  garbage collector; the query engine apart from vector matching, the scheduling of rule groups, scraping, discovery, the web interface and generated code.
\<close>

section \<open>Selecting series\<close>

text \<open>
  C5. Selecting series with all of the labels \<open>eqs\<close> and without the label \<open>l\<close>: the postings lists of the index are
  intersected and the list of \<open>l\<close> is subtracted. Reading the result to its end gives, in order and with no
  error, exactly the references of the series that were added with all of the first labels and without the
  last one, in whatever order the series were added.
\<close>

theorem selection_exact:
  assumes "series_ok as" "eqs \<noteq> []"
  shows "ExpandPostings (diff_postings M)
      (Without (Inl (Inl EmptyPostings)) (Inl EmptyPostings)
        (Intersect (Inl EmptyPostings) (map (\<lambda>l. MemPostings_Postings merged (Name l) [Value l] (add_all as NewMemPostings)) eqs))
        (MemPostings_Postings merged (Name l) [Value l] (add_all as NewMemPostings))) =
    Some (sort (map fst (filter (\<lambda>(i, ls). set eqs \<subseteq> with_all ls \<and> l \<notin> with_all ls) as)), None)"
proof -
  have r: "\<forall>xs \<in> set (map (\<lambda>l. sort (labelled as l)) eqs). refs xs" using labelled_refs(2) [OF assms(1)] by simp
  have eqs: "map (\<lambda>l. leaf_of (sort (labelled as l))) eqs = map leaf_of (map (\<lambda>l. sort (labelled as l)) eqs)" by simp
  show ?thesis
    unfolding select_leaf [OF assms(1)] eqs selected_sorted [OF assms, symmetric]
    by (rule without.expand [OF Without_live [OF Intersect_live [OF r] labelled_refs(2) [OF assms(1)]]])
qed

theorem selection_exact_witness:
  "ExpandPostings (diff_postings err_postings)
      (Without (Inl (Inl EmptyPostings)) (Inl EmptyPostings)
        (Intersect (Inl EmptyPostings) (map (\<lambda>l. MemPostings_Postings (\<lambda>_. EmptyPostings) (Name l) [Value l]
          (add_all [(7, [\<lparr>Name = [97], Value = [1]\<rparr>]), (2, [\<lparr>Name = [97], Value = [1]\<rparr>, \<lparr>Name = [98], Value = [1]\<rparr>]), (5, [\<lparr>Name = [97], Value = [1]\<rparr>])] NewMemPostings))
            [\<lparr>Name = [97], Value = [1]\<rparr>]))
        (MemPostings_Postings (\<lambda>_. EmptyPostings) (Name \<lparr>Name = [98], Value = [1]\<rparr>) [Value \<lparr>Name = [98], Value = [1]\<rparr>]
          (add_all [(7, [\<lparr>Name = [97], Value = [1]\<rparr>]), (2, [\<lparr>Name = [97], Value = [1]\<rparr>, \<lparr>Name = [98], Value = [1]\<rparr>]), (5, [\<lparr>Name = [97], Value = [1]\<rparr>])] NewMemPostings))) =
    Some ([5, 7], None)"
proof -
  let ?as = "[(7, [\<lparr>Name = [97], Value = [1]\<rparr>]), (2, [\<lparr>Name = [97], Value = [1]\<rparr>, \<lparr>Name = [98], Value = [1]\<rparr>]), (5, [\<lparr>Name = [97], Value = [1]\<rparr>])]"
  have "series_ok ?as" by (simp add: series_ok_def allPostingsKey_def)
  from selection_exact [OF this, of "[\<lparr>Name = [97], Value = [1]\<rparr>]" err_postings "\<lambda>_. EmptyPostings" "\<lparr>Name = [98], Value = [1]\<rparr>"]
  show ?thesis by (simp add: allPostingsKey_def)
qed

end
